(* ===== verification/SRL_Prelude.thy ===== *)
theory SRL_Prelude
  imports Main "HOL-Library.Word"
begin

text \<open>
  Vocabulary shared by the whole development: the fixed-width integer types of
  include/srl/types.h (x86-64 Linux: \<open>char\<close> is signed, \<open>int32\<close> has 32 bits), the result
  type of fallible operations, reads and writes of a bounded memory block, and the
  C library routines on NUL-terminated byte strings that the sources call.

  A block of memory is the list of its bytes. A pointer into a block is the
  suffix of the block that starts there, so reading past the end of an
  allocation is the explicit error \<open>Mem_Fault\<close>.
\<close>

named_theorems blk_simps
named_theorems res_simps

unbundle bit_operations_syntax

type_synonym u8 = "8 word"
type_synonym u16 = "16 word"
type_synonym u32 = "32 word"
type_synonym u64 = "64 word"

section \<open>Results\<close>

datatype error = Mem_Fault | Out_Of_Fuel | Thrown string

type_synonym 'a res = "error + 'a"

definition bindR :: "'a res \<Rightarrow> ('a \<Rightarrow> 'b res) \<Rightarrow> 'b res" where
  "bindR m f = (case m of Inl e \<Rightarrow> Inl e | Inr x \<Rightarrow> f x)"

lemma bindR_simps [simp]:
  "bindR (Inl e) f = Inl e"
  "bindR (Inr x) f = f x"
  by (simp_all add: bindR_def)

lemma bindR_cong [fundef_cong]:
  "m = m' \<Longrightarrow> (\<And>x. m' = Inr x \<Longrightarrow> f x = f' x) \<Longrightarrow> bindR m f = bindR m' f'"
  by (auto simp: bindR_def split: sum.splits)

lemma bindR_eq_Inr [res_simps]:
  "bindR m f = Inr y \<longleftrightarrow> (\<exists>x. m = Inr x \<and> f x = Inr y)"
  by (cases m) auto

lemma bindR_eq_Inl [res_simps]:
  "bindR m f = Inl e \<longleftrightarrow> m = Inl e \<or> (\<exists>x. m = Inr x \<and> f x = Inl e)"
  by (cases m) auto

lemma bindR_assoc: "bindR (bindR m f) g = bindR m (\<lambda>x. bindR (f x) g)"
  by (cases m) auto

definition is_ok :: "'a res \<Rightarrow> bool" where
  "is_ok r = (case r of Inl _ \<Rightarrow> False | Inr _ \<Rightarrow> True)"

lemma is_ok_simps [simp]: "is_ok (Inr x)" "\<not> is_ok (Inl e)"
  by (simp_all add: is_ok_def)

lemma is_ok_iff: "is_ok r \<longleftrightarrow> (\<exists>x. r = Inr x)"
  by (cases r) auto

section \<open>Words\<close>

text \<open>The macro \<open>ROUNDUP(n, roundval)\<close> of include/srl/types.h on a 32-bit \<open>n\<close>.\<close>

definition ROUNDUP :: "u32 \<Rightarrow> u32 \<Rightarrow> u32" where
  "ROUNDUP n roundval = ((n + roundval) - 1) AND (- roundval)"

lemma unat_and_minus:
  assumes "k < 32"
  shows "unat ((x :: u32) AND (- (2 ^ k))) = 2 ^ k * (unat x div 2 ^ k)"
proof -
  have t: "x AND mask k = take_bit k x" by (simp add: take_bit_eq_mask)
  have "(x AND NOT (mask k)) + (x AND mask k) = (x AND NOT (mask k)) OR (x AND mask k)"
    by (rule disjunctive_add) (simp add: bit_simps)
  also have "\<dots> = x" by (rule bit_eqI) (auto simp add: bit_simps)
  finally have e: "x AND (- (2 ^ k)) = x - take_bit k x"
    by (simp add: minus_exp_eq_not_mask t algebra_simps)
  have u: "unat (take_bit k x) = unat x mod 2 ^ k"
    by (simp only: unsigned_take_bit_eq) (simp only: take_bit_eq_mod)
  have "take_bit k x \<le> x" by (simp add: word_le_nat_alt u)
  then have "unat (x - take_bit k x) = unat x - unat x mod 2 ^ k" by (simp add: unat_sub u)
  then show ?thesis by (simp add: e minus_mod_eq_mult_div)
qed

lemma unat_and_minus_16: "unat ((x :: u32) AND (- 16)) = 16 * (unat x div 16)"
  using unat_and_minus [of 4 x] by simp

lemma unat_and_minus_32: "unat ((x :: u32) AND (- 32)) = 32 * (unat x div 32)"
  using unat_and_minus [of 5 x] by simp

lemma unat_plus_small:
  "unat (a :: 'a::len word) + unat b < 2 ^ LENGTH('a) \<Longrightarrow> unat (a + b) = unat a + unat b"
  by (simp add: unat_word_ariths)

lemma unat_lt32: "unat (x :: u32) < 2 ^ 32"
  using unsigned_less [of x, where 'a = nat] by simp

lemma unat_ROUNDUP_16:
  assumes "unat n + 15 < 2 ^ 32"
  shows "unat (ROUNDUP n 16) = 16 * ((unat n + 15) div 16)"
proof -
  have e: "n + 16 - 1 = n + 15" by simp
  have "unat (n + 15) = unat n + 15"
    using unat_plus_small [of n 15] assms by simp
  then show ?thesis by (simp only: ROUNDUP_def e unat_and_minus_16)
qed

lemma unat_ROUNDUP_32:
  assumes "unat n + 31 < 2 ^ 32"
  shows "unat (ROUNDUP n 32) = 32 * ((unat n + 31) div 32)"
proof -
  have e: "n + 32 - 1 = n + 31" by simp
  have "unat (n + 31) = unat n + 31"
    using unat_plus_small [of n 31] assms by simp
  then show ?thesis by (simp only: ROUNDUP_def e unat_and_minus_32)
qed

lemma nonneg_i32: "\<not> (w :: u32) <s 0 \<longleftrightarrow> unat w < 2 ^ 31"
proof -
  have "w <s 0 \<longleftrightarrow> sint w < 0" by (simp add: word_sless_alt)
  also have "\<dots> \<longleftrightarrow> bit w 31" using bit_last_iff [of w] by simp
  also have "\<dots> \<longleftrightarrow> \<not> unat w < 2 ^ 31"
  proof -
    have "bit w 31 \<longleftrightarrow> bit (unat w) 31" by (simp add: bit_unsigned_iff)
    also have "\<dots> \<longleftrightarrow> odd (unat w div 2 ^ 31)" by (simp add: bit_iff_odd)
    also have "\<dots> \<longleftrightarrow> unat w div 2 ^ 31 = 1"
    proof -
      have "unat w div 2 ^ 31 < 2" using unat_lt32 [of w] by (simp add: less_mult_imp_div_less)
      then have "unat w div 2 ^ 31 = 0 \<or> unat w div 2 ^ 31 = 1" by linarith
      then show ?thesis by auto
    qed
    also have "\<dots> \<longleftrightarrow> \<not> unat w < 2 ^ 31"
      using unat_lt32 [of w] by (auto simp: div_eq_0_iff div_nat_eqI)
    finally show ?thesis .
  qed
  finally show ?thesis by simp
qed

lemma int_unat_eq: "uint (w :: 'a::len word) = int (unat w)"
  by simp

lemma sint_nat: "unat (w :: u32) < 2 ^ 31 \<Longrightarrow> sint w = int (unat w)"
proof -
  assume "unat w < 2 ^ 31"
  then have u: "uint w < 2 ^ 31" using of_nat_less_iff [of "unat w" "2 ^ 31", where 'a = int] by simp
  have "sint w = signed_take_bit 31 (uint w)" by (simp add: sint_uint)
  also have "\<dots> = uint w"
    using u by (intro signed_take_bit_int_eq_self) (auto intro: order_trans [OF _ unsigned_greater_eq])
  finally show ?thesis by (simp only: int_unat_eq)
qed

lemma sint_neg: "(w :: u32) <s 0 \<Longrightarrow> unat (- w) \<le> 2 ^ 31 \<and> 0 < unat (- w)"
proof -
  assume n: "w <s 0"
  then have u: "2 ^ 31 \<le> unat w" using nonneg_i32 [of w] by simp
  have "(unat w + unat (- w)) mod 2 ^ 32 = 0"
    using unat_word_ariths(1) [of w "- w"] by simp
  moreover have "0 < unat w + unat (- w)" "unat w + unat (- w) < 2 * 2 ^ 32"
    using u unat_lt32 [of w] unat_lt32 [of "- w"] by auto
  ultimately have "unat w + unat (- w) = 2 ^ 32" by (simp add: mod_if split: if_splits)
  then have "unat (- w) = 2 ^ 32 - unat w" by simp
  then show ?thesis using u unat_lt32 [of w] by simp
qed

lemma unat_of_nat_small [simp]:
  "n < 2 ^ LENGTH('a) \<Longrightarrow> unat (of_nat n :: 'a::len word) = n"
  by (simp add: unat_of_nat take_bit_nat_eq_self)

section \<open>Memory blocks\<close>

definition blk_read :: "'a list \<Rightarrow> nat \<Rightarrow> 'a res" where
  "blk_read m i = (if i < length m then Inr (m ! i) else Inl Mem_Fault)"

definition blk_write :: "'a list \<Rightarrow> nat \<Rightarrow> 'a \<Rightarrow> 'a list res" where
  "blk_write m i c = (if i < length m then Inr (m[i := c]) else Inl Mem_Fault)"

definition blk_slice :: "'a list \<Rightarrow> nat \<Rightarrow> nat \<Rightarrow> 'a list res" where
  "blk_slice m i n = (if i + n \<le> length m then Inr (take n (drop i m)) else Inl Mem_Fault)"

definition blk_put :: "'a list \<Rightarrow> nat \<Rightarrow> 'a list \<Rightarrow> 'a list res" where
  "blk_put m i xs = (if i + length xs \<le> length m
     then Inr (take i m @ xs @ drop (i + length xs) m) else Inl Mem_Fault)"

text \<open>\<open>memmove (m + d, m + s, n)\<close> within one block, and a pointer \<open>m + i\<close> into a block.\<close>

definition blk_move :: "'a list \<Rightarrow> nat \<Rightarrow> nat \<Rightarrow> nat \<Rightarrow> 'a list res" where
  "blk_move m d s n = bindR (blk_slice m s n) (blk_put m d)"

definition blk_ptr :: "'a list \<Rightarrow> nat \<Rightarrow> 'a list res" where
  "blk_ptr m i = (if i \<le> length m then Inr (drop i m) else Inl Mem_Fault)"

text \<open>Freshly allocated bytes are indeterminate: nothing is known of them.\<close>

definition malloc_byte :: "nat \<Rightarrow> u8" where
  "malloc_byte i = undefined i"

definition blk_realloc :: "u8 list \<Rightarrow> nat \<Rightarrow> u8 list" where
  "blk_realloc m n = take n m @ map malloc_byte [length m..<n]"

lemma blk_read_ok [blk_simps]: "i < length m \<Longrightarrow> blk_read m i = Inr (m ! i)"
  by (simp add: blk_read_def)

lemma blk_write_ok [blk_simps]: "i < length m \<Longrightarrow> blk_write m i c = Inr (m[i := c])"
  by (simp add: blk_write_def)

lemma blk_slice_ok [blk_simps]:
  "i + n \<le> length m \<Longrightarrow> blk_slice m i n = Inr (take n (drop i m))"
  by (simp add: blk_slice_def)

lemma blk_put_ok [blk_simps]:
  "i + length xs \<le> length m \<Longrightarrow> blk_put m i xs = Inr (take i m @ xs @ drop (i + length xs) m)"
  by (simp add: blk_put_def)

lemma blk_ptr_ok [blk_simps]: "i \<le> length m \<Longrightarrow> blk_ptr m i = Inr (drop i m)"
  by (simp add: blk_ptr_def)

lemma blk_move_ok [blk_simps]:
  "s + n \<le> length m \<Longrightarrow> d + n \<le> length m \<Longrightarrow>
   blk_move m d s n = Inr (take d m @ take n (drop s m) @ drop (d + n) m)"
  by (simp add: blk_move_def blk_slice_def blk_put_def min_absorb2)

lemma length_blk_write: "blk_write m i c = Inr m' \<Longrightarrow> length m' = length m"
  by (auto simp: blk_write_def split: if_splits)

lemma length_blk_put: "blk_put m i xs = Inr m' \<Longrightarrow> length m' = length m"
  by (auto simp: blk_put_def split: if_splits)

lemma length_blk_move: "blk_move m d s n = Inr m' \<Longrightarrow> length m' = length m"
  by (auto simp: blk_move_def res_simps dest: length_blk_put)

lemma length_blk_realloc [simp]: "length (blk_realloc m n) = n"
  by (simp add: blk_realloc_def)

lemma take_blk_realloc [simp]:
  "k \<le> length m \<Longrightarrow> k \<le> n \<Longrightarrow> take k (blk_realloc m n) = take k m"
  by (simp add: blk_realloc_def)

lemma length_takeWhile_neq: "c \<in> set xs \<Longrightarrow> length (takeWhile (\<lambda>x. x \<noteq> c) xs) < length xs"
  by (induction xs) auto

section \<open>C strings\<close>

text \<open>The byte string of a literal, and the same as the NUL-terminated block the
  compiler allocates for it.\<close>

definition lit :: "string \<Rightarrow> u8 list" where
  "lit s = List.map of_char s"

definition c_lit :: "string \<Rightarrow> u8 list" where
  "c_lit s = lit s @ [0]"

definition chr :: "char \<Rightarrow> u8" where
  "chr c = of_char c"

fun c_strlen :: "u8 list \<Rightarrow> nat res" where
  "c_strlen [] = Inl Mem_Fault"
| "c_strlen (x # xs) = (if x = 0 then Inr 0 else bindR (c_strlen xs) (\<lambda>n. Inr (Suc n)))"

text \<open>\<open>strchr\<close>: the offset of the first occurrence, the terminator included, or NULL.\<close>

fun c_strchr :: "u8 list \<Rightarrow> u8 \<Rightarrow> nat option res" where
  "c_strchr [] c = Inl Mem_Fault"
| "c_strchr (x # xs) c = (if x = c then Inr (Some 0) else if x = 0 then Inr None
     else bindR (c_strchr xs c) (\<lambda>r. Inr (map_option Suc r)))"

text \<open>Whether the C string \<open>needle\<close> is a prefix of the C string \<open>hay\<close>.\<close>

fun c_prefix :: "u8 list \<Rightarrow> u8 list \<Rightarrow> bool res" where
  "c_prefix hay [] = Inl Mem_Fault"
| "c_prefix hay (n # ns) = (if n = 0 then Inr True else
     (case hay of [] \<Rightarrow> Inl Mem_Fault
      | h # hs \<Rightarrow> if h = n then c_prefix hs ns else Inr False))"

fun c_strstr :: "u8 list \<Rightarrow> u8 list \<Rightarrow> nat option res" where
  "c_strstr [] needle = bindR (c_prefix [] needle) (\<lambda>b. if b then Inr (Some 0) else Inl Mem_Fault)"
| "c_strstr (x # xs) needle = bindR (c_prefix (x # xs) needle) (\<lambda>b.
     if b then Inr (Some 0) else if x = 0 then Inr None
     else bindR (c_strstr xs needle) (\<lambda>r. Inr (map_option Suc r)))"

text \<open>\<open>toupper\<close>, \<open>tolower\<close>, \<open>isspace\<close>, \<open>isdigit\<close> and \<open>isxdigit\<close> in the C locale.\<close>

definition c_toupper :: "u8 \<Rightarrow> u8" where
  "c_toupper c = (if 97 \<le> c \<and> c \<le> 122 then c - 32 else c)"

definition c_tolower :: "u8 \<Rightarrow> u8" where
  "c_tolower c = (if 65 \<le> c \<and> c \<le> 90 then c + 32 else c)"

definition c_isspace :: "u8 \<Rightarrow> bool" where
  "c_isspace c = (c = 32 \<or> (9 \<le> c \<and> c \<le> 13))"

definition c_isdigit :: "u8 \<Rightarrow> bool" where
  "c_isdigit c = (48 \<le> c \<and> c \<le> 57)"

definition c_isxdigit :: "u8 \<Rightarrow> bool" where
  "c_isxdigit c = (c_isdigit c \<or> (65 \<le> c \<and> c \<le> 70) \<or> (97 \<le> c \<and> c \<le> 102))"

text \<open>A block that holds the NUL-free bytes \<open>xs\<close> followed by a terminator.\<close>

definition holds_cstr :: "u8 list \<Rightarrow> u8 list \<Rightarrow> bool" where
  "holds_cstr m xs = (0 \<notin> set xs \<and> (\<exists>rest. m = xs @ 0 # rest))"

lemma holds_cstr_cs: "holds_cstr (xs @ [0]) xs \<longleftrightarrow> 0 \<notin> set xs"
  by (auto simp: holds_cstr_def)

lemma c_strlen_append: "0 \<notin> set xs \<Longrightarrow> c_strlen (xs @ 0 # r) = Inr (length xs)"
  by (induction xs) auto

lemma c_strlen_cstr: "holds_cstr m xs \<Longrightarrow> c_strlen m = Inr (length xs)"
  by (auto simp: holds_cstr_def c_strlen_append)

lemma c_strlen_Inr: "c_strlen m = Inr n \<Longrightarrow> holds_cstr m (take n m) \<and> n < length m"
proof (induction m arbitrary: n)
  case (Cons x m)
  then show ?case
    by (fastforce simp: holds_cstr_def res_simps split: if_splits)
qed simp


lemma c_strchr_append:
  "0 \<notin> set xs \<Longrightarrow> c \<noteq> 0 \<Longrightarrow> c_strchr (xs @ 0 # r) c
     = Inr (if c \<in> set xs then Some (length (takeWhile (\<lambda>x. x \<noteq> c) xs)) else None)"
  by (induction xs) auto

lemma c_strchr_nul: "0 \<notin> set xs \<Longrightarrow> c_strchr (xs @ 0 # r) 0 = Inr (Some (length xs))"
  by (induction xs) auto

lemma c_strchr_cstr:
  "holds_cstr m xs \<Longrightarrow> c \<noteq> 0 \<Longrightarrow> c_strchr m c
     = Inr (if c \<in> set xs then Some (length (takeWhile (\<lambda>x. x \<noteq> c) xs)) else None)"
  by (auto simp: holds_cstr_def c_strchr_append)

lemma c_strchr_nul_cstr: "holds_cstr m xs \<Longrightarrow> c_strchr m 0 = Inr (Some (length xs))"
  by (auto simp: holds_cstr_def c_strchr_nul)

lemma c_strchr_Some:
  "c_strchr m c = Inr (Some i) \<Longrightarrow> i < length m \<and> m ! i = c \<and> (\<forall>j < i. m ! j \<noteq> c \<and> m ! j \<noteq> 0)"
proof (induction m arbitrary: i)
  case (Cons x m)
  show ?case
  proof (cases "x = c \<or> x = 0")
    case True
    then show ?thesis using Cons.prems by (auto split: if_splits)
  next
    case False
    then obtain k where "c_strchr m c = Inr (Some k)" "i = Suc k"
      using Cons.prems by (auto simp: res_simps)
    then show ?thesis using Cons.IH False by (auto simp: nth_Cons split: nat.splits)
  qed
qed simp

lemma c_strchr_None:
  "c_strchr m c = Inr None \<Longrightarrow> \<exists>k < length m. m ! k = 0 \<and> (\<forall>j \<le> k. m ! j \<noteq> c)"
proof (induction m)
  case (Cons x m)
  show ?case
  proof (cases "x = c \<or> x = 0")
    case True
    then show ?thesis using Cons.prems by (auto intro!: exI [of _ 0] split: if_splits)
  next
    case False
    then obtain k where "k < length m" "m ! k = 0" "\<forall>j \<le> k. m ! j \<noteq> c"
      using Cons by (auto simp: res_simps)
    then show ?thesis using False by (intro exI [of _ "Suc k"]) (auto simp: nth_Cons split: nat.splits)
  qed
qed simp

text \<open>On NUL-free strings \<open>c_prefix\<close> is the list prefix test.\<close>

lemma c_prefix_append:
  "0 \<notin> set xs \<Longrightarrow> 0 \<notin> set ys \<Longrightarrow>
   c_prefix (xs @ 0 # r) (ys @ 0 # q) = Inr (take (length ys) xs = ys)"
proof (induction ys arbitrary: xs)
  case (Cons y ys)
  then show ?case by (cases xs) auto
qed simp

lemma c_strstr_append_Some:
  "0 \<notin> set (xs @ ys @ zs) \<Longrightarrow> (\<forall>j < length xs. take (length ys) (drop j (xs @ ys @ zs)) \<noteq> ys) \<Longrightarrow>
   c_strstr (xs @ ys @ zs @ 0 # r) (ys @ 0 # q) = Inr (Some (length xs))"
proof (induction xs)
  case Nil
  then have p: "c_prefix (ys @ zs @ 0 # r) (ys @ 0 # q) = Inr True"
    using c_prefix_append [of "ys @ zs" ys r q] by simp
  then show ?case by (cases "ys @ zs @ 0 # r") auto
next
  case (Cons x xs)
  have "c_prefix ((x # xs @ ys @ zs) @ 0 # r) (ys @ 0 # q) = Inr False"
    using Cons.prems by (subst c_prefix_append) (auto dest: spec [of _ 0])
  moreover have "c_strstr (xs @ ys @ zs @ 0 # r) (ys @ 0 # q) = Inr (Some (length xs))"
  proof (rule Cons.IH)
    show "\<forall>j < length xs. take (length ys) (drop j (xs @ ys @ zs)) \<noteq> ys"
      using Cons.prems(2) by (metis Suc_less_eq append_Cons drop_Suc_Cons length_Cons)
  qed (use Cons.prems(1) in auto)
  ultimately show ?case using Cons.prems by simp
qed

lemma c_strstr_append_None:
  "0 \<notin> set xs \<Longrightarrow> 0 \<notin> set ys \<Longrightarrow> (\<forall>j \<le> length xs. take (length ys) (drop j xs) \<noteq> ys) \<Longrightarrow>
   c_strstr (xs @ 0 # r) (ys @ 0 # q) = Inr None"
proof (induction xs)
  case Nil
  then have "ys \<noteq> []" by auto
  then have "c_prefix ([] @ 0 # r) (ys @ 0 # q) = Inr False"
    using Nil by (subst c_prefix_append) auto
  then show ?case by simp
next
  case (Cons x xs)
  have "c_prefix ((x # xs) @ 0 # r) (ys @ 0 # q) = Inr False"
    using Cons.prems by (subst c_prefix_append) (auto dest: spec [of _ 0])
  moreover have "c_strstr (xs @ 0 # r) (ys @ 0 # q) = Inr None"
  proof (rule Cons.IH)
    show "\<forall>j \<le> length xs. take (length ys) (drop j xs) \<noteq> ys"
      using Cons.prems(3) by (metis Suc_le_mono drop_Suc_Cons length_Cons)
  qed (use Cons.prems in auto)
  ultimately show ?case using Cons.prems by simp
qed

end
