(* ===== verification/Str_Buffer.thy ===== *)
theory Str_Buffer
  imports SRL_Prelude
begin

text \<open>
  The buffer of \<open>SRL::String\<close> (src/String.cpp, include/srl/String.h): the object state,
  the allocation discipline of \<open>resize\<close>, the constructors and the editing operations
  that move bytes inside the buffer. The empty list as buffer is the shared
  constant \<open>EMPTY\<close>, which can be read (four zero bytes) but not written.
\<close>

unbundle bit_operations_syntax

section \<open>State\<close>

record srl_str =
  s_str :: "u8 list"
  s_array_size :: u32
  s_string_length :: u32
  s_min_size :: u32
  s_hash_value :: u32

definition str_empty :: srl_str where
  "str_empty = \<lparr>s_str = [], s_array_size = 0, s_string_length = 0, s_min_size = 0,
     s_hash_value = 0\<rparr>"

text \<open>The bytes readable through \<open>_str\<close>, and the text the object stands for.\<close>

definition str_mem :: "srl_str \<Rightarrow> u8 list" where
  "str_mem s = (if s_str s = [] then [0, 0, 0, 0] else s_str s)"

definition content :: "srl_str \<Rightarrow> u8 list" where
  "content s = take (unat (s_string_length s)) (s_str s)"

definition str_isEmpty :: "srl_str \<Rightarrow> bool" where
  "str_isEmpty s = (s_string_length s = 0)"

section \<open>Allocation\<close>

definition str_resize :: "u32 \<Rightarrow> srl_str \<Rightarrow> srl_str res" where
  "str_resize sz s0 =
     (let s = s0\<lparr>s_hash_value := 0, s_string_length := sz\<rparr> in
      if 0 < s_string_length s \<or> 0 < s_min_size s then
        (let size1 = (if sz < s_min_size s then s_min_size s else sz);
             size2 = ROUNDUP (size1 + 1) 16
         in if size2 = s_array_size s
            then bindR (blk_write (s_str s) (unat (s_string_length s)) 0)
                   (\<lambda>b. Inr (s\<lparr>s_str := b\<rparr>))
            else bindR (blk_write (blk_realloc (s_str s) (unat size2)) (unat (s_string_length s)) 0)
                   (\<lambda>b. Inr (s\<lparr>s_str := b, s_array_size := size2\<rparr>)))
      else if s_str s \<noteq> [] then Inr (s\<lparr>s_str := [], s_array_size := 0\<rparr>)
      else Inr (s\<lparr>s_array_size := sz\<rparr>))"

definition str_copy :: "u8 list \<Rightarrow> u32 \<Rightarrow> srl_str \<Rightarrow> srl_str res" where
  "str_copy m len s = bindR (str_resize len s) (\<lambda>s.
     if len > 0 then
       bindR (blk_slice m 0 (unat len)) (\<lambda>xs.
       bindR (blk_put (s_str s) 0 xs) (\<lambda>b.
       bindR (blk_write b (unat len) 0) (\<lambda>b.
       Inr (s\<lparr>s_str := b\<rparr>))))
     else Inr s)"

definition str_reserve_new :: "u32 \<Rightarrow> srl_str res" where
  "str_reserve_new n = str_resize 0 (str_empty\<lparr>s_min_size := n\<rparr>)"

definition str_truncate :: "u32 \<Rightarrow> srl_str \<Rightarrow> srl_str res" where
  "str_truncate pos s = str_resize pos s"

definition str_reserve :: "u32 \<Rightarrow> srl_str \<Rightarrow> srl_str res" where
  "str_reserve len s = (let s = s\<lparr>s_min_size := len\<rparr> in str_resize (s_string_length s) s)"

definition str_clear :: "srl_str \<Rightarrow> srl_str res" where
  "str_clear s = str_resize 0 s"

section \<open>Constructors\<close>

text \<open>\<open>String(const char* s, uint32 len = 0)\<close>; \<open>None\<close> is the null pointer.\<close>

definition str_of_ptr :: "u8 list option \<Rightarrow> u32 \<Rightarrow> srl_str res" where
  "str_of_ptr p len = (case p of None \<Rightarrow> Inr str_empty | Some m \<Rightarrow>
     bindR (if len = 0 then bindR (c_strlen m) (\<lambda>n. Inr (of_nat n)) else Inr len)
       (\<lambda>len. str_copy m len str_empty))"

text \<open>Length of an optional C string as the two-argument constructor computes it.\<close>

definition ptr_len :: "u8 list option \<Rightarrow> u32 res" where
  "ptr_len p = (case p of None \<Rightarrow> Inr 0 | Some m \<Rightarrow>
     bindR (blk_read m 0) (\<lambda>c. if c \<noteq> 0 then bindR (c_strlen m) (\<lambda>n. Inr (of_nat n)) else Inr 0))"

definition str_of_two :: "u8 list option \<Rightarrow> u8 list option \<Rightarrow> srl_str res" where
  "str_of_two p1 p2 = bindR (ptr_len p1) (\<lambda>len1. bindR (ptr_len p2) (\<lambda>len2.
     let len = len1 + len2 in
     if len \<noteq> 0 then
       bindR (str_resize len str_empty) (\<lambda>s.
       bindR (blk_slice (case p1 of None \<Rightarrow> [] | Some m \<Rightarrow> m) 0 (unat len1)) (\<lambda>xs.
       bindR (blk_put (s_str s) 0 xs) (\<lambda>b.
       bindR (blk_slice (case p2 of None \<Rightarrow> [] | Some m \<Rightarrow> m) 0 (unat len2)) (\<lambda>ys.
       bindR (blk_put b (unat len1) ys) (\<lambda>b.
       Inr (s\<lparr>s_str := b\<rparr>))))))
     else Inr str_empty))"

definition str_fill :: "u8 \<Rightarrow> u32 \<Rightarrow> srl_str \<Rightarrow> srl_str res" where
  "str_fill c len s = bindR (if len > 0 then str_resize len s else Inr s) (\<lambda>s.
     if s_str s \<noteq> [] then
       bindR (blk_put (s_str s) 0 (replicate (unat (s_string_length s)) c)) (\<lambda>b.
       Inr (s\<lparr>s_str := b\<rparr>))
     else Inr s)"

definition str_of_char :: "u8 \<Rightarrow> u32 \<Rightarrow> srl_str res" where
  "str_of_char c len = str_fill c len str_empty"

text \<open>The copy constructor, and the destructor (its last state).\<close>

definition str_copy_new :: "srl_str \<Rightarrow> srl_str res" where
  "str_copy_new s = str_copy (str_mem s) (s_string_length s) str_empty"

definition str_destroy :: "srl_str \<Rightarrow> srl_str res" where
  "str_destroy s = str_clear (s\<lparr>s_min_size := 0\<rparr>)"

section \<open>Assignment and appending\<close>

definition str_assign :: "srl_str \<Rightarrow> srl_str \<Rightarrow> srl_str res" where
  "str_assign t s = str_copy (str_mem t) (s_string_length t) s"

definition str_assign_cstr :: "u8 list \<Rightarrow> srl_str \<Rightarrow> srl_str res" where
  "str_assign_cstr m s = bindR (c_strlen m) (\<lambda>n. str_copy m (of_nat n) s)"

definition str_assign_char :: "u8 \<Rightarrow> srl_str \<Rightarrow> srl_str res" where
  "str_assign_char c s = bindR (str_resize 1 s) (\<lambda>s.
     bindR (blk_write (s_str s) 0 c) (\<lambda>b. Inr (s\<lparr>s_str := b\<rparr>)))"

definition str_push :: "u8 \<Rightarrow> srl_str \<Rightarrow> srl_str res" where
  "str_push c s = (if c = 0 then Inr s else
     bindR (str_resize (1 + s_string_length s) s) (\<lambda>s.
     bindR (blk_write (s_str s) (unat (s_string_length s - 1)) c) (\<lambda>b.
     Inr (s\<lparr>s_str := b\<rparr>))))"

text \<open>An \<open>int32\<close> used as an offset or a byte count: a negative one is out of bounds.\<close>

definition i32_nat :: "u32 \<Rightarrow> nat res" where
  "i32_nat w = (if w <s 0 then Inl Mem_Fault else Inr (unat w))"

text \<open>The common tail of \<open>append\<close> and the \<open>operator+=\<close> family.\<close>

definition str_append_bytes :: "u8 list \<Rightarrow> u32 \<Rightarrow> srl_str \<Rightarrow> srl_str res" where
  "str_append_bytes m s_len s = (let str_len = s_string_length s in
     bindR (str_resize (s_len + str_len) s) (\<lambda>s.
     bindR (i32_nat s_len) (\<lambda>n.
     bindR (i32_nat str_len) (\<lambda>d.
     bindR (blk_slice m 0 n) (\<lambda>xs.
     bindR (blk_put (s_str s) d xs) (\<lambda>b.
     bindR (blk_write b (unat (s_string_length s)) 0) (\<lambda>b.
     Inr (s\<lparr>s_str := b\<rparr>))))))))"

definition str_append :: "srl_str \<Rightarrow> srl_str \<Rightarrow> srl_str res" where
  "str_append t s = str_append_bytes (str_mem t) (s_string_length t) s"

definition str_add_cstr :: "u8 list \<Rightarrow> srl_str \<Rightarrow> srl_str res" where
  "str_add_cstr m s = bindR (c_strlen m) (\<lambda>n. str_append_bytes m (of_nat n) s)"

definition str_add :: "srl_str \<Rightarrow> srl_str \<Rightarrow> srl_str res" where
  "str_add t s = (if s_string_length t = 0 then Inr s
     else str_append_bytes (str_mem t) (s_string_length t) s)"


text \<open>The same with a \<open>std::string\<close>, given by its bytes.\<close>

definition str_of_std :: "u8 list \<Rightarrow> srl_str res" where
  "str_of_std xs = str_copy (xs @ [0]) (of_nat (length xs)) str_empty"

definition str_assign_std :: "u8 list \<Rightarrow> srl_str \<Rightarrow> srl_str res" where
  "str_assign_std xs s = str_copy (xs @ [0]) (of_nat (length xs)) s"

definition str_add_std :: "u8 list \<Rightarrow> srl_str \<Rightarrow> srl_str res" where
  "str_add_std xs s = str_append_bytes (xs @ [0]) (of_nat (length xs)) s"

section \<open>Editing\<close>

definition str_remove :: "u32 \<Rightarrow> u32 \<Rightarrow> srl_str \<Rightarrow> srl_str res" where
  "str_remove pos len s =
     (let my_size = s_string_length s; end_pos = pos + len; new_size = my_size - len in
      if len = 0 then Inr s
      else if my_size \<le> end_pos then str_truncate pos s
      else bindR (blk_move (s_str s) (unat pos) (unat end_pos) (unat (my_size - end_pos)))
        (\<lambda>b. str_resize new_size (s\<lparr>s_str := b\<rparr>)))"

definition str_replaceFrom :: "u32 \<Rightarrow> u32 \<Rightarrow> u8 list \<Rightarrow> srl_str \<Rightarrow> srl_str res" where
  "str_replaceFrom pos len m s = bindR (c_strlen m) (\<lambda>n.
     let nsize = of_nat n; src_pos = pos + len; dst_pos = pos + nsize;
         src_size = s_string_length s - (pos + len);
         new_size = s_string_length s + (nsize - len);
         old_size = s_string_length s
     in if str_isEmpty s then Inr s else
        bindR (if 0 < nsize then
            bindR (if old_size < new_size then str_resize new_size s else Inr s) (\<lambda>s.
            bindR (blk_move (s_str s) (unat dst_pos) (unat src_pos) (unat src_size)) (\<lambda>b.
            if new_size < old_size then str_resize new_size (s\<lparr>s_str := b\<rparr>)
            else Inr (s\<lparr>s_str := b\<rparr>)))
          else Inr s) (\<lambda>s.
        bindR (blk_slice m 0 (unat nsize)) (\<lambda>xs.
        bindR (blk_put (s_str s) (unat pos) xs) (\<lambda>b.
        bindR (blk_write b (unat new_size) 0) (\<lambda>b.
        Inr (s\<lparr>s_str := b\<rparr>))))))"

definition str_insert_char :: "u32 \<Rightarrow> u8 \<Rightarrow> srl_str \<Rightarrow> srl_str res" where
  "str_insert_char pos c s = (let len = s_string_length s in
     bindR (str_resize (len + 1) s) (\<lambda>s.
     if pos \<le> 0 then
       bindR (blk_move (s_str s) 1 0 (unat (len + 1))) (\<lambda>b.
       bindR (blk_write b 0 c) (\<lambda>b. Inr (s\<lparr>s_str := b\<rparr>)))
     else if len \<le> pos then
       bindR (blk_write (s_str s) (unat len) c) (\<lambda>b. Inr (s\<lparr>s_str := b\<rparr>))
     else
       bindR (blk_move (s_str s) (unat (pos + 1)) (unat pos) (unat (len - pos + 1))) (\<lambda>b.
       bindR (blk_write b (unat pos) c) (\<lambda>b. Inr (s\<lparr>s_str := b\<rparr>)))))"

definition str_insert_cstr :: "u32 \<Rightarrow> u8 list \<Rightarrow> srl_str \<Rightarrow> srl_str res" where
  "str_insert_cstr pos m s = bindR (c_strlen m) (\<lambda>n.
     let str_size = of_nat n; len = s_string_length s in
     bindR (str_resize (len + str_size) s) (\<lambda>s.
     bindR (blk_slice m 0 (unat str_size)) (\<lambda>xs.
     if pos \<le> 0 then
       bindR (blk_move (s_str s) (unat str_size) 0 (unat len)) (\<lambda>b.
       bindR (blk_put b 0 xs) (\<lambda>b. Inr (s\<lparr>s_str := b\<rparr>)))
     else if len \<le> pos then
       bindR (blk_put (s_str s) (unat len) xs) (\<lambda>b. Inr (s\<lparr>s_str := b\<rparr>))
     else
       bindR (blk_move (s_str s) (unat (pos + str_size)) (unat pos) (unat (len - pos))) (\<lambda>b.
       bindR (blk_put b (unat pos) xs) (\<lambda>b. Inr (s\<lparr>s_str := b\<rparr>))))))"

definition str_insert :: "u32 \<Rightarrow> srl_str \<Rightarrow> srl_str \<Rightarrow> srl_str res" where
  "str_insert pos t s = str_insert_cstr pos (str_mem t) s"

definition str_prepend_char :: "u8 \<Rightarrow> srl_str \<Rightarrow> srl_str res" where
  "str_prepend_char c s = str_insert_char 0 c s"

definition str_prepend :: "srl_str \<Rightarrow> srl_str \<Rightarrow> srl_str res" where
  "str_prepend t s = str_insert 0 t s"

definition str_prepend_cstr :: "u8 list \<Rightarrow> srl_str \<Rightarrow> srl_str res" where
  "str_prepend_cstr m s = str_insert_cstr 0 m s"

section \<open>Trimming, case and hash\<close>

definition is_trim :: "u8 \<Rightarrow> bool" where
  "is_trim c = (c = chr CHR '' '' \<or> c = 13 \<or> c = 10)"

text \<open>The scan loops of \<open>trimBegin\<close> (from \<open>s\<close> up to \<open>e\<close>) and \<open>trimEnd\<close> (from \<open>e\<close> down).\<close>

function trim_begin_scan :: "u8 list \<Rightarrow> nat \<Rightarrow> nat \<Rightarrow> nat res" where
  "trim_begin_scan m i e = (if i < e then
     bindR (blk_read m i) (\<lambda>c. if is_trim c then trim_begin_scan m (i + 1) e else Inr i)
   else Inr i)"
  by pat_completeness auto
termination by (relation "measure (\<lambda>(m, i, e). e - i)") auto

declare trim_begin_scan.simps [simp del]

fun trim_end_scan :: "u8 list \<Rightarrow> nat \<Rightarrow> nat res" where
  "trim_end_scan m 0 = Inr 0"
| "trim_end_scan m (Suc e) =
     bindR (blk_read m e) (\<lambda>c. if is_trim c then trim_end_scan m e else Inr (Suc e))"

definition str_trimBegin :: "srl_str \<Rightarrow> srl_str res" where
  "str_trimBegin s = (if s_str s \<noteq> [] then
     (let e = unat (s_string_length s) in
      bindR (trim_begin_scan (s_str s) 0 e) (\<lambda>i.
      bindR (blk_move (s_str s) 0 i (e - i)) (\<lambda>b.
      str_resize (of_nat (e - i)) (s\<lparr>s_str := b\<rparr>))))
   else Inr s)"

definition str_trimEnd :: "srl_str \<Rightarrow> srl_str res" where
  "str_trimEnd s = (if s_str s \<noteq> [] then
     bindR (trim_end_scan (s_str s) (unat (s_string_length s))) (\<lambda>e. str_resize (of_nat e) s)
   else Inr s)"

definition str_trim :: "srl_str \<Rightarrow> srl_str res" where
  "str_trim s = bindR (str_trimBegin s) str_trimEnd"

text \<open>The in-place loops of \<open>toUpper\<close> and \<open>toLower\<close>; neither touches \<open>_hash_value\<close>.\<close>

definition str_toUpper :: "srl_str \<Rightarrow> srl_str res" where
  "str_toUpper s = (let n = unat (s_string_length s) in
     bindR (blk_slice (s_str s) 0 n) (\<lambda>xs.
     bindR (blk_put (s_str s) 0 (map c_toupper xs)) (\<lambda>b. Inr (s\<lparr>s_str := b\<rparr>))))"

definition str_toLower :: "srl_str \<Rightarrow> srl_str res" where
  "str_toLower s = (let n = unat (s_string_length s) in
     bindR (blk_slice (s_str s) 0 n) (\<lambda>xs.
     bindR (blk_put (s_str s) 0 (map c_tolower xs)) (\<lambda>b. Inr (s\<lparr>s_str := b\<rparr>))))"

text \<open>\<open>operator[]\<close>: the reference it returns is read or written by the caller.\<close>

definition str_get :: "u32 \<Rightarrow> srl_str \<Rightarrow> u8 res" where
  "str_get i s = blk_read (str_mem s) (unat i)"

definition str_set :: "u32 \<Rightarrow> u8 \<Rightarrow> srl_str \<Rightarrow> srl_str res" where
  "str_set i c s = bindR (blk_write (s_str s) (unat i) c) (\<lambda>b. Inr (s\<lparr>s_str := b\<rparr>))"

text \<open>\<open>hash\<close>: \<open>_str[i]\<close> is a signed \<open>char\<close> that the exclusive or promotes to 32 bits. The
  result is cached in the mutable member \<open>_hash_value\<close>.\<close>

definition hash_step :: "u32 \<Rightarrow> u8 \<Rightarrow> u32" where
  "hash_step h c = (push_bit 5 h + h) XOR scast c"

definition hash_bytes :: "u8 list \<Rightarrow> u32" where
  "hash_bytes xs = foldl hash_step 0 xs"

definition str_hash :: "srl_str \<Rightarrow> u32 \<times> srl_str" where
  "str_hash s = (if s_hash_value s \<noteq> 0 then (s_hash_value s, s)
     else (let h = hash_bytes (content s) in (h, s\<lparr>s_hash_value := h\<rparr>)))"

end
