(* ===== verification/Str_Wf.thy ===== *)
theory Str_Wf
  imports Str_Buffer
begin

text \<open>
  The representation invariant of \<open>SRL::String\<close> and its preservation by every
  operation of \<open>Str_Buffer\<close>, together with the effect of each operation on the text.
\<close>

unbundle bit_operations_syntax

named_theorems str_fx

definition str_shape :: "srl_str \<Rightarrow> bool" where
  "str_shape s = (length (s_str s) = unat (s_array_size s))"

definition str_cap :: "srl_str \<Rightarrow> nat" where
  "str_cap s = max (unat (s_string_length s)) (unat (s_min_size s))"

definition str_wf :: "srl_str \<Rightarrow> bool" where
  "str_wf s = (if str_cap s = 0 then s_str s = [] \<and> s_array_size s = 0
     else str_cap s + 16 < 2 ^ 32 \<and> unat (s_array_size s) = 16 * ((str_cap s + 16) div 16)
       \<and> length (s_str s) = unat (s_array_size s)
       \<and> s_str s ! unat (s_string_length s) = 0)"

lemma str_wf_shape: "str_wf s \<Longrightarrow> str_shape s"
  by (auto simp: str_wf_def str_shape_def split: if_splits)

lemma str_wf_len: "str_wf s \<Longrightarrow> unat (s_string_length s) \<le> length (s_str s)"
  by (auto simp: str_wf_def str_cap_def split: if_splits)

lemma str_wf_len_less:
  "str_wf s \<Longrightarrow> s_str s \<noteq> [] \<Longrightarrow> unat (s_string_length s) < length (s_str s)"
  by (auto simp: str_wf_def str_cap_def split: if_splits)

lemma str_wf_bound: "str_wf s \<Longrightarrow> unat (s_string_length s) + 16 < 2 ^ 32"
  by (auto simp: str_wf_def str_cap_def split: if_splits)

lemma str_wf_empty [simp]: "str_wf str_empty"
  by (simp add: str_wf_def str_empty_def str_cap_def)

lemma length_content: "str_wf s \<Longrightarrow> length (content s) = unat (s_string_length s)"
  by (simp add: content_def str_wf_len)

lemma content_empty [simp]: "content str_empty = []"
  by (simp add: content_def str_empty_def)

text \<open>A well-formed string presents its text to C code as a NUL-terminated block.\<close>

lemma str_mem_wf: "str_wf s \<Longrightarrow> \<exists>rest. str_mem s = content s @ 0 # rest"
proof -
  assume w: "str_wf s"
  show ?thesis
  proof (cases "s_str s = []")
    case True
    then show ?thesis by (simp add: str_mem_def content_def)
  next
    case False
    then have l: "unat (s_string_length s) < length (s_str s)"
      using w by (simp add: str_wf_len_less)
    moreover have "s_str s ! unat (s_string_length s) = 0"
      using w False by (auto simp: str_wf_def split: if_splits)
    ultimately have "s_str s = content s @ 0 # drop (Suc (unat (s_string_length s))) (s_str s)"
      unfolding content_def by (metis id_take_nth_drop)
    then show ?thesis using False by (auto simp: str_mem_def)
  qed
qed

lemma str_mem_cstr: "str_wf s \<Longrightarrow> 0 \<notin> set (content s) \<Longrightarrow> holds_cstr (str_mem s) (content s)"
  by (auto simp: holds_cstr_def dest: str_mem_wf)

lemma str_mem_length: "str_wf s \<Longrightarrow> unat (s_string_length s) < length (str_mem s)"
  using str_mem_wf [of s] length_content [of s] by auto

section \<open>The effect of resize\<close>

lemma str_resize_fault:
  assumes "unat (s_string_length s) = 0 \<Longrightarrow> unat (s_min_size s) \<noteq> 0"
    and "2 ^ 32 \<le> str_cap s + 16"
  shows "ROUNDUP ((if s_string_length s < s_min_size s then s_min_size s else s_string_length s) + 1) 16 = 0"
proof -
  let ?m = "if s_string_length s < s_min_size s then s_min_size s else s_string_length s"
  have m: "unat ?m = str_cap s"
    by (auto simp: str_cap_def word_less_nat_alt)
  have e: "?m + 1 + 16 - 1 = ?m + 16" by simp
  have "unat ?m < 2 ^ 32" by (rule unat_lt32)
  then have "unat (?m + 16) < 16"
    using assms(2) by (simp add: unat_word_ariths m mod_if) linarith
  then have "unat ((?m + 16) AND - 16) = 0"
    by (simp only: unat_and_minus_16) simp
  then show ?thesis
    by (simp only: ROUNDUP_def e unat_eq_zero)
qed

text \<open>Everything the other operations need to know of a successful \<open>resize\<close>.\<close>

definition resized :: "u32 \<Rightarrow> srl_str \<Rightarrow> srl_str \<Rightarrow> bool" where
  "resized n s s' = (str_wf s' \<and> s_string_length s' = n \<and> s_hash_value s' = 0
     \<and> s_min_size s' = s_min_size s
     \<and> (\<forall>k. k \<le> unat n \<longrightarrow> k \<le> length (s_str s) \<longrightarrow> take k (s_str s') = take k (s_str s)))"

lemma resize_target:
  assumes "max (unat n) (unat (s_min_size s)) + 16 < 2 ^ 32"
  shows "unat (ROUNDUP ((if n < s_min_size s then s_min_size s else n) + 1) 16)
    = 16 * ((max (unat n) (unat (s_min_size s)) + 16) div 16)"
proof -
  let ?m = "if n < s_min_size s then s_min_size s else n"
  have m: "unat ?m = max (unat n) (unat (s_min_size s))"
    by (auto simp: word_less_nat_alt)
  have "unat (?m + 1) = unat ?m + 1"
    using assms m unat_plus_small [of ?m 1] by simp
  then show ?thesis
    using assms m by (subst unat_ROUNDUP_16) (auto simp: algebra_simps)
qed

lemma str_resize_ok:
  assumes sh: "str_shape s" and b: "max (unat n) (unat (s_min_size s)) + 16 < 2 ^ 32"
  shows "\<exists>s'. str_resize n s = Inr s' \<and> resized n s s'"
proof (cases "0 < n \<or> 0 < s_min_size s")
  case True
  let ?c = "max (unat n) (unat (s_min_size s))"
  let ?r = "ROUNDUP ((if n < s_min_size s then s_min_size s else n) + 1) 16"
  have r: "unat ?r = 16 * ((?c + 16) div 16)"
    using resize_target [OF b] .
  have c: "0 < ?c" using True by (auto simp: word_less_nat_alt)
  have lt: "unat n < unat ?r" unfolding r by linarith
  have wf: "str_wf t"
    if "s_string_length t = n" "s_min_size t = s_min_size s" "s_array_size t = ?r"
      "length (s_str t) = unat ?r" "s_str t ! unat n = 0" for t
  proof -
    have "str_cap t = ?c" using that by (simp only: str_cap_def)
    then have "str_cap t \<noteq> 0" "str_cap t + 16 < 2 ^ 32"
        "unat (s_array_size t) = 16 * ((str_cap t + 16) div 16)"
      using that r b c by (simp_all only:)
    then show ?thesis
      unfolding str_wf_def using that by (simp only: if_False simp_thms)
  qed
  show ?thesis
  proof (cases "?r = s_array_size s")
    case eq: True
    have l: "unat n < length (s_str s)"
      using sh lt eq by (simp add: str_shape_def)
    let ?s = "s\<lparr>s_hash_value := 0, s_string_length := n, s_str := (s_str s)[unat n := 0]\<rparr>"
    have "str_resize n s = Inr ?s"
      unfolding str_resize_def Let_def using True eq l
      by (cases "n < s_min_size s") (simp_all add: blk_simps)
    moreover have "resized n s ?s"
      unfolding resized_def using l sh eq by (auto simp: str_shape_def intro: wf)
    ultimately show ?thesis by blast
  next
    case ne: False
    let ?b = "blk_realloc (s_str s) (unat ?r)"
    let ?s = "s\<lparr>s_hash_value := 0, s_string_length := n, s_str := ?b[unat n := 0], s_array_size := ?r\<rparr>"
    have l: "unat n < length ?b" using lt by simp
    have "str_resize n s = Inr ?s"
      unfolding str_resize_def Let_def using True ne blk_write_ok [OF l, of 0]
      by (cases "n < s_min_size s") simp_all
    moreover have "resized n s ?s"
      unfolding resized_def using lt l by (auto intro: wf)
    ultimately show ?thesis by blast
  qed
next
  case False
  then have "n = 0" "s_min_size s = 0" by (simp_all add: word_gt_0)
  then show ?thesis
    using sh by (auto simp: str_resize_def Let_def resized_def str_wf_def str_cap_def str_shape_def)
qed

lemma str_resize_Inr:
  assumes sh: "str_shape s" and r: "str_resize n s = Inr s'"
  shows "resized n s s'" "max (unat n) (unat (s_min_size s)) + 16 < 2 ^ 32"
proof -
  show b: "max (unat n) (unat (s_min_size s)) + 16 < 2 ^ 32"
  proof (rule ccontr)
    assume n: "\<not> ?thesis"
    let ?t = "s\<lparr>s_hash_value := 0, s_string_length := n\<rparr>"
    have z: "ROUNDUP ((if n < s_min_size s then s_min_size s else n) + 1) 16 = 0"
      using str_resize_fault [of ?t] n by (auto simp: str_cap_def)
    have "0 < n \<or> 0 < s_min_size s"
      using n by (auto simp: word_less_nat_alt max_def split: if_splits)
    then show False
      using r z sh
      by (auto simp: str_resize_def Let_def blk_write_def str_shape_def split: if_splits)
  qed
  then show "resized n s s'"
    using str_resize_ok [OF sh, of n] r by fastforce
qed

lemma resizedD:
  assumes "resized n s s'"
  shows "str_wf s'" "s_string_length s' = n" "s_hash_value s' = 0" "s_min_size s' = s_min_size s"
    "\<And>k. k \<le> unat n \<Longrightarrow> k \<le> length (s_str s) \<Longrightarrow> take k (s_str s') = take k (s_str s)"
  using assms by (auto simp: resized_def)


lemma resized_content:
  assumes "resized n s s'" "str_shape s" "k \<le> unat n" "k \<le> length (s_str s)"
  shows "take k (content s') = take k (s_str s)"
  using assms by (simp add: content_def resized_def min_def)

lemma resized_len:
  "resized n s s' \<Longrightarrow> 0 < n \<Longrightarrow> unat n < length (s_str s') \<and> s_str s' \<noteq> []"
  by (auto simp: resized_def str_wf_def str_cap_def word_less_nat_alt split: if_splits)

lemma resized_nul:
  "resized n s s' \<Longrightarrow> s_str s' \<noteq> [] \<Longrightarrow> s_str s' ! unat n = 0"
  by (auto simp: resized_def str_wf_def split: if_splits)

text \<open>Growing keeps the text; shrinking cuts it.\<close>

lemma resized_take:
  assumes "resized n s s'" "str_wf s" "unat n \<le> unat (s_string_length s)"
  shows "content s' = take (unat n) (content s)"
  using assms resizedD(5) [OF assms(1), of "unat n"] str_wf_len [OF assms(2)] resizedD(2) [OF assms(1)]
  by (simp add: content_def min_def)

lemma resized_grow:
  assumes "resized n s s'" "str_wf s" "unat (s_string_length s) \<le> unat n"
  shows "take (unat (s_string_length s)) (s_str s') = content s"
  using assms by (simp add: resized_def content_def str_wf_len)

lemma str_wf_nil: "str_wf s \<Longrightarrow> s_str s = [] \<longleftrightarrow> str_cap s = 0"
  by (auto simp: str_wf_def split: if_splits)

lemma str_wf_nul: "str_wf s \<Longrightarrow> s_str s \<noteq> [] \<Longrightarrow> s_str s ! unat (s_string_length s) = 0"
  using str_wf_nil [of s] by (simp add: str_wf_def split: if_splits)

lemma str_wf_min: "str_wf s \<Longrightarrow> unat (s_min_size s) + 16 < 2 ^ 32"
  by (auto simp: str_wf_def str_cap_def split: if_splits)

lemma str_cap_buf: "str_cap (s\<lparr>s_str := b\<rparr>) = str_cap s"
  by (simp add: str_cap_def)

text \<open>Replacing the bytes of the buffer, the terminator kept.\<close>

lemma str_wf_buf:
  "str_wf s \<Longrightarrow> length b = length (s_str s) \<Longrightarrow>
   (s_str s \<noteq> [] \<Longrightarrow> b ! unat (s_string_length s) = 0) \<Longrightarrow> str_wf (s\<lparr>s_str := b\<rparr>)"
  using str_wf_nil [of s] by (simp add: str_wf_def str_cap_buf split: if_splits)

lemma content_buf [simp]: "content (s\<lparr>s_str := b\<rparr>) = take (unat (s_string_length s)) b"
  by (simp add: content_def)

lemma str_shape_buf: "str_shape s \<Longrightarrow> length b = length (s_str s) \<Longrightarrow> str_shape (s\<lparr>s_str := b\<rparr>)"
  by (simp add: str_shape_def)

section \<open>Copying and constructing\<close>

lemma str_copy_Inr:
  assumes sh: "str_shape s" and r: "str_copy m len s = Inr s'"
  shows "str_wf s' \<and> content s' = take (unat len) m \<and> s_string_length s' = len
    \<and> s_hash_value s' = 0 \<and> s_min_size s' = s_min_size s \<and> (len > 0 \<longrightarrow> unat len \<le> length m)"
proof -
  obtain s1 where s1: "str_resize len s = Inr s1" "resized len s s1"
    using r str_resize_Inr(1) [OF sh] by (auto simp: str_copy_def res_simps)
  note d = resizedD [OF s1(2)]
  show ?thesis
  proof (cases "len > 0")
    case True
    have l: "unat len < length (s_str s1)" using resized_len [OF s1(2) True] by simp
    have m: "unat len \<le> length m"
      using r s1 True by (auto simp: str_copy_def res_simps blk_slice_def split: if_splits)
    let ?b = "(take (unat len) m @ drop (unat len) (s_str s1))[unat len := 0]"
    have "s' = s1\<lparr>s_str := ?b\<rparr>"
      using r s1 True m l by (simp add: str_copy_def blk_simps)
    moreover have "str_wf (s1\<lparr>s_str := ?b\<rparr>)"
      using d l m by (intro str_wf_buf) auto
    ultimately show ?thesis using d m by simp
  next
    case False
    then have "len = 0" by (simp add: word_gt_0)
    then show ?thesis using r s1 d by (simp add: str_copy_def content_def)
  qed
qed

lemma str_copy_ok:
  assumes sh: "str_shape s" and b: "max (unat len) (unat (s_min_size s)) + 16 < 2 ^ 32"
    and m: "unat len \<le> length m"
  shows "\<exists>s'. str_copy m len s = Inr s'"
proof -
  obtain s1 where s1: "str_resize len s = Inr s1" "resized len s s1"
    using str_resize_ok [OF sh b] by blast
  show ?thesis
    using s1 m resized_len [OF s1(2)] by (auto simp: str_copy_def blk_simps)
qed

lemma str_shape_empty [simp]: "str_shape str_empty"
  by (simp add: str_shape_def str_empty_def)

lemma str_of_ptr_len:
  assumes "str_of_ptr (Some m) len = Inr s'" "len \<noteq> 0"
  shows "str_wf s' \<and> content s' = take (unat len) m \<and> unat len \<le> length m"
  using assms str_copy_Inr [OF str_shape_empty]
  by (auto simp: str_of_ptr_def word_gt_0)

text \<open>A length of 0 means the whole C string, not the empty one.\<close>

lemma str_of_ptr_zero:
  assumes "str_of_ptr (Some m) 0 = Inr s'" "holds_cstr m xs" "length xs < 2 ^ 32"
  shows "str_wf s' \<and> content s' = xs"
proof -
  have "str_copy m (of_nat (length xs)) str_empty = Inr s'"
    using assms by (simp add: str_of_ptr_def c_strlen_cstr)
  then show ?thesis
    using str_copy_Inr [OF str_shape_empty] assms by (auto simp: holds_cstr_def)
qed

lemma str_of_ptr_ok:
  assumes "holds_cstr m xs" "length xs + 16 < 2 ^ 32"
  shows "\<exists>s'. str_of_ptr (Some m) 0 = Inr s' \<and> str_wf s' \<and> content s' = xs"
proof -
  obtain s' where "str_copy m (of_nat (length xs)) str_empty = Inr s'"
    using str_copy_ok [OF str_shape_empty, of "of_nat (length xs)" m] assms
    by (auto simp: str_empty_def holds_cstr_def)
  then show ?thesis
    using assms str_copy_Inr [OF str_shape_empty] by (auto simp: str_of_ptr_def c_strlen_cstr holds_cstr_def)
qed

lemma str_copy_new_Inr:
  assumes "str_wf t" "str_copy_new t = Inr s'"
  shows "str_wf s' \<and> content s' = content t"
  using assms str_copy_Inr [OF str_shape_empty, of "str_mem t"] str_mem_wf [OF assms(1)] length_content [OF assms(1)]
  by (fastforce simp: str_copy_new_def)

lemma str_assign_Inr:
  assumes "str_wf t" "str_wf s" "str_assign t s = Inr s'"
  shows "str_wf s' \<and> content s' = content t"
  using assms str_copy_Inr [OF str_wf_shape [OF assms(2)], of "str_mem t"] str_mem_wf [OF assms(1)] length_content [OF assms(1)]
  by (fastforce simp: str_assign_def)


section \<open>Assigning and appending\<close>

lemma i32_nat_Inr: "i32_nat w = Inr n \<longleftrightarrow> unat w < 2 ^ 31 \<and> n = unat w"
  using nonneg_i32 [of w] by (auto simp: i32_nat_def)

lemma str_assign_char_Inr:
  assumes "str_wf s" "str_assign_char c s = Inr s'"
  shows "str_wf s' \<and> content s' = [c]"
proof -
  obtain s1 where s1: "str_resize 1 s = Inr s1" "resized 1 s s1"
    using assms str_resize_Inr(1) [OF str_wf_shape] by (auto simp: str_assign_char_def res_simps)
  have l: "1 < length (s_str s1)" "s_str s1 \<noteq> []"
    using resized_len [OF s1(2)] by auto
  have s': "s' = s1\<lparr>s_str := (s_str s1)[0 := c]\<rparr>"
    using assms s1 l by (simp add: str_assign_char_def blk_simps)
  have "str_wf s'"
    unfolding s' using resizedD [OF s1(2)] resized_nul [OF s1(2)] l by (intro str_wf_buf) auto
  moreover have "content s' = [c]"
    using s' resizedD(2) [OF s1(2)] l by (cases "s_str s1") auto
  ultimately show ?thesis by simp
qed

lemma str_push_Inr:
  assumes "str_wf s" "str_push c s = Inr s'"
  shows "str_wf s' \<and> content s' = (if c = 0 then content s else content s @ [c])"
proof (cases "c = 0")
  case False
  let ?n = "unat (s_string_length s)"
  obtain s1 where s1: "str_resize (1 + s_string_length s) s = Inr s1"
      "resized (1 + s_string_length s) s s1"
    using assms False str_resize_Inr(1) [OF str_wf_shape] by (auto simp: str_push_def res_simps)
  have n: "unat (1 + s_string_length s) = Suc ?n"
    using unat_plus_small [of 1 "s_string_length s"] str_wf_bound [OF assms(1)] by simp
  have pos: "0 < 1 + s_string_length s" using n by (simp add: word_less_nat_alt)
  have l: "Suc ?n < length (s_str s1)" "s_str s1 \<noteq> []"
    using resized_len [OF s1(2) pos] n by auto
  have s': "s' = s1\<lparr>s_str := (s_str s1)[?n := c]\<rparr>"
    using assms False s1 l resizedD(2) [OF s1(2)] by (simp add: str_push_def blk_simps)
  have "str_wf s'"
    unfolding s' using resizedD [OF s1(2)] resized_nul [OF s1(2)] l n by (intro str_wf_buf) auto
  moreover have "take ?n (s_str s1) = content s"
    using resized_grow [OF s1(2) assms(1)] n by simp
  then have "content s' = content s @ [c]"
    using s' resizedD(2) [OF s1(2)] l n by (simp add: take_Suc_conv_app_nth)
  ultimately show ?thesis using False by simp
qed (use assms in \<open>simp add: str_push_def\<close>)

lemma str_append_bytes_Inr:
  assumes w: "str_wf s" and r: "str_append_bytes m k s = Inr s'"
  shows "str_wf s' \<and> content s' = content s @ take (unat k) m \<and> unat k \<le> length m
    \<and> s_string_length s' = k + s_string_length s"
proof -
  let ?n = "unat (s_string_length s)"
  obtain s1 where s1: "str_resize (k + s_string_length s) s = Inr s1"
      "resized (k + s_string_length s) s s1"
    using r str_resize_Inr(1) [OF str_wf_shape [OF w]]
    by (auto simp: str_append_bytes_def Let_def res_simps)
  have small: "unat k < 2 ^ 31" "?n < 2 ^ 31"
    using r s1 by (auto simp: str_append_bytes_def Let_def res_simps i32_nat_Inr)
  then have n: "unat (k + s_string_length s) = unat k + ?n"
    by (intro unat_plus_small) simp
  have i: "i32_nat k = Inr (unat k)" "i32_nat (s_string_length s) = Inr ?n"
    using small by (simp_all add: i32_nat_Inr)
  have m: "unat k \<le> length m"
    using r s1 i by (auto simp: str_append_bytes_def Let_def res_simps blk_slice_def split: if_splits)
  have ne: "unat k + ?n < length (s_str s1)"
    using r s1 i m resizedD(2) [OF s1(2)] n
    by (auto simp: str_append_bytes_def Let_def res_simps blk_slice_def blk_put_def blk_write_def split: if_splits)
  let ?b = "(take ?n (s_str s1) @ take (unat k) m @ drop (?n + unat k) (s_str s1))[unat k + ?n := 0]"
  have s': "s' = s1\<lparr>s_str := ?b\<rparr>"
    using r s1 i m ne resizedD(2) [OF s1(2)] n
    by (simp add: str_append_bytes_def Let_def blk_simps)
  have "str_wf s'"
    unfolding s' using resizedD [OF s1(2)] ne m n by (intro str_wf_buf) auto
  moreover have "take ?n (s_str s1) = content s"
    using resized_grow [OF s1(2) w] n by simp
  then have "content s' = content s @ take (unat k) m"
    using s' resizedD(2) [OF s1(2)] ne m n length_content [OF w] by (simp add: min_def)
  ultimately show ?thesis using m s' resizedD(2) [OF s1(2)] by simp
qed

lemma str_append_bytes_ok:
  assumes w: "str_wf s" and m: "unat k \<le> length m"
    and b: "unat k + unat (s_string_length s) < 2 ^ 31" "unat (s_min_size s) + 16 < 2 ^ 32"
    and ne: "0 < unat k + unat (s_string_length s) + unat (s_min_size s)"
  shows "\<exists>s'. str_append_bytes m k s = Inr s'"
proof -
  let ?n = "unat (s_string_length s)"
  have n: "unat (k + s_string_length s) = unat k + ?n"
    using b by (intro unat_plus_small) simp
  have i: "i32_nat k = Inr (unat k)" "i32_nat (s_string_length s) = Inr ?n"
    using b by (simp_all add: i32_nat_Inr)
  obtain s1 where s1: "str_resize (k + s_string_length s) s = Inr s1"
      "resized (k + s_string_length s) s s1"
    using str_resize_ok [OF str_wf_shape [OF w], of "k + s_string_length s"] b n by auto
  have "str_cap s1 \<noteq> 0" using ne n resizedD [OF s1(2)] by (auto simp: str_cap_def)
  then have "unat k + ?n < length (s_str s1)"
    using resizedD [OF s1(2)] n str_wf_len_less [of s1] str_wf_nil [of s1] by auto
  then show ?thesis
    using s1 i m resizedD(2) [OF s1(2)] n
    by (simp add: str_append_bytes_def Let_def blk_simps)
qed

lemma str_mem_take: "str_wf t \<Longrightarrow> take (unat (s_string_length t)) (str_mem t) = content t"
  using str_mem_wf [of t] length_content [of t] by auto

lemma str_append_Inr:
  assumes "str_wf t" "str_wf s" "str_append t s = Inr s'"
  shows "str_wf s' \<and> content s' = content s @ content t"
  using str_append_bytes_Inr [OF assms(2)] assms(3) str_mem_take [OF assms(1)]
  by (metis str_append_def)

lemma str_add_Inr:
  assumes "str_wf t" "str_wf s" "str_add t s = Inr s'"
  shows "str_wf s' \<and> content s' = content s @ content t"
proof (cases "s_string_length t = 0")
  case True
  then show ?thesis using assms by (simp add: str_add_def content_def)
next
  case False
  then show ?thesis
    using assms str_append_bytes_Inr [OF assms(2)] str_mem_take [OF assms(1)]
    by (fastforce simp: str_add_def)
qed

lemma str_add_cstr_Inr:
  assumes "str_wf s" "str_add_cstr m s = Inr s'" "length m < 2 ^ 32"
  shows "\<exists>xs. holds_cstr m xs \<and> str_wf s' \<and> content s' = content s @ xs"
proof -
  obtain n where n: "c_strlen m = Inr n" "str_append_bytes m (of_nat n) s = Inr s'"
    using assms(2) by (auto simp: str_add_cstr_def res_simps)
  have "holds_cstr m (take n m)" "n < length m" using c_strlen_Inr [OF n(1)] by auto
  then show ?thesis
    using str_append_bytes_Inr [OF assms(1) n(2)] assms(3) by (intro exI [of _ "take n m"]) simp
qed

end
