(* ===== verification/Str_Edit.thy ===== *)
theory Str_Edit
  imports Str_Wf
begin

text \<open>
  What the editing operations of \<open>SRL::String\<close> (remove, replaceFrom, insert, fill, trim,
  toUpper, toLower) do to the text, and that they keep the representation invariant.
\<close>

unbundle bit_operations_syntax

lemma str_resize_Inr_wf:
  "str_wf s \<Longrightarrow> str_resize n s = Inr s' \<Longrightarrow> resized n s s'"
  by (rule str_resize_Inr(1) [OF str_wf_shape])

lemma str_resize_take:
  assumes "str_wf s" "str_resize n s = Inr s'" "unat n \<le> unat (s_string_length s)"
  shows "str_wf s' \<and> content s' = take (unat n) (content s)"
  using resized_take [OF str_resize_Inr_wf [OF assms(1,2)] assms(1,3)]
    resizedD(1) [OF str_resize_Inr_wf [OF assms(1,2)]] by simp

section \<open>remove\<close>

lemma str_remove_wf:
  assumes w: "str_wf s" and r: "str_remove pos len s = Inr s'"
  shows "str_wf s'"
proof -
  consider "len = 0" | "len \<noteq> 0" "s_string_length s \<le> pos + len"
    | "len \<noteq> 0" "\<not> s_string_length s \<le> pos + len" by blast
  then show ?thesis
  proof cases
    case 1
    then show ?thesis using w r by (simp add: str_remove_def)
  next
    case 2
    then show ?thesis
      using w r str_resize_Inr_wf by (auto simp: str_remove_def Let_def str_truncate_def resized_def)
  next
    case 3
    then obtain b where b: "length b = length (s_str s)"
        "str_resize (s_string_length s - len) (s\<lparr>s_str := b\<rparr>) = Inr s'"
      using r by (auto simp: str_remove_def Let_def res_simps dest: length_blk_move)
    have "str_shape (s\<lparr>s_str := b\<rparr>)"
      using str_shape_buf [OF str_wf_shape [OF w]] b by simp
    then show ?thesis using str_resize_Inr(1) b resizedD(1) by blast
  qed
qed

lemma str_remove_content:
  assumes w: "str_wf s" and r: "str_remove pos len s = Inr s'"
    and p: "unat pos \<le> unat (s_string_length s)" "unat pos + unat len < 2 ^ 32"
  shows "content s' = take (unat pos) (content s) @ drop (unat pos + unat len) (content s)"
proof -
  let ?n = "unat (s_string_length s)"
  have e: "unat (pos + len) = unat pos + unat len" using p(2) by (intro unat_plus_small) simp
  have lc: "length (content s) = ?n" using length_content [OF w] .
  show ?thesis
  proof (cases "len = 0")
    case True
    then show ?thesis using r by (simp add: str_remove_def)
  next
    case False
    show ?thesis
    proof (cases "s_string_length s \<le> pos + len")
      case True
      then have "str_resize pos s = Inr s'"
        using r False by (simp add: str_remove_def Let_def str_truncate_def)
      moreover have "?n \<le> unat pos + unat len" using True e by (simp add: word_le_nat_alt)
      ultimately show ?thesis using str_resize_take [OF w] p(1) lc by simp
    next
      case nle: False
      then have lt: "unat pos + unat len < ?n" using e by (simp add: word_le_nat_alt)
      have u: "unat (s_string_length s - (pos + len)) = ?n - (unat pos + unat len)"
        "unat (s_string_length s - len) = ?n - unat len"
        using lt e by (simp_all add: unat_sub word_le_nat_alt)
      let ?b = "take (unat pos) (s_str s) @ take (?n - (unat pos + unat len)) (drop (unat pos + unat len) (s_str s))
          @ drop (unat pos + (?n - (unat pos + unat len))) (s_str s)"
      have lb: "?n \<le> length (s_str s)" using str_wf_len [OF w] .
      have "str_resize (s_string_length s - len) (s\<lparr>s_str := ?b\<rparr>) = Inr s'"
        using r False nle lb lt by (simp add: str_remove_def Let_def u e blk_simps)
      moreover have "str_shape (s\<lparr>s_str := ?b\<rparr>)"
        using str_shape_buf [OF str_wf_shape [OF w]] lb lt by simp
      ultimately have rs: "resized (s_string_length s - len) (s\<lparr>s_str := ?b\<rparr>) s'"
        by (rule str_resize_Inr(1) [rotated])
      have "content s' = take (?n - unat len) ?b"
        using resizedD(5) [OF rs, of "?n - unat len"] resizedD(2) [OF rs] lb lt u
        by (simp add: content_def)
      also have "\<dots> = take (unat pos) (s_str s) @ take (?n - (unat pos + unat len)) (drop (unat pos + unat len) (s_str s))"
        using lb lt by (simp add: algebra_simps)
      also have "\<dots> = take (unat pos) (content s) @ drop (unat pos + unat len) (content s)"
        using lt by (simp add: content_def drop_take min_def)
      finally show ?thesis .
    qed
  qed
qed

lemma str_remove_ok:
  assumes w: "str_wf s" and p: "unat pos + unat len \<le> unat (s_string_length s)"
  shows "\<exists>s'. str_remove pos len s = Inr s'"
proof -
  let ?n = "unat (s_string_length s)"
  have bound: "max ?n (unat (s_min_size s)) + 16 < 2 ^ 32 \<or> str_cap s = 0"
    using w by (auto simp: str_wf_def str_cap_def split: if_splits)
  then have bound': "max (?n - k) (unat (s_min_size s)) + 16 < 2 ^ 32" for k
    by (auto simp: str_cap_def)
  have n32: "?n < 2 ^ 32" by (rule unat_lt32)
  have e: "unat (pos + len) = unat pos + unat len"
    using p n32 by (intro unat_plus_small) simp
  have sl: "unat (s_string_length s - len) = ?n - unat len"
    using p by (simp add: unat_sub word_le_nat_alt)
  show ?thesis
  proof (cases "s_string_length s \<le> pos + len")
    case True
    then have "unat pos = ?n - unat len" using p e by (simp add: word_le_nat_alt)
    then show ?thesis
      using str_resize_ok [OF str_wf_shape [OF w], of pos] True bound' [of "unat len"]
      by (auto simp: str_remove_def Let_def str_truncate_def)
  next
    case False
    then have lt: "unat pos + unat len < ?n" using e by (simp add: word_le_nat_alt)
    have u: "unat (s_string_length s - (pos + len)) = ?n - (unat pos + unat len)"
      using lt e by (simp add: unat_sub word_le_nat_alt)
    have lb: "?n \<le> length (s_str s)" using str_wf_len [OF w] .
    obtain b where b: "blk_move (s_str s) (unat pos) (unat (pos + len)) (unat (s_string_length s - (pos + len))) = Inr b"
      using lb lt e u by (simp add: blk_simps)
    have "str_shape (s\<lparr>s_str := b\<rparr>)"
      using str_shape_buf [OF str_wf_shape [OF w]] length_blk_move [OF b] by simp
    then obtain s' where "str_resize (s_string_length s - len) (s\<lparr>s_str := b\<rparr>) = Inr s'"
      using str_resize_ok [of "s\<lparr>s_str := b\<rparr>" "s_string_length s - len"] bound' [of "unat len"] sl by auto
    then show ?thesis using False b by (simp add: str_remove_def Let_def)
  qed
qed


section \<open>insert\<close>

text \<open>On an empty unreserved string the character overload shifts an uninitialised byte
  over the terminator, so it keeps the invariant only when there is a buffer already.\<close>

lemma str_insert_char_Inr:
  assumes w: "str_wf s" and r: "str_insert_char pos c s = Inr s'"
    and ne: "s_str s \<noteq> [] \<or> 0 < pos"
  shows "str_wf s' \<and> content s' = take (unat pos) (content s) @ c # drop (unat pos) (content s)"
proof -
  let ?n = "unat (s_string_length s)"
  have n: "unat (s_string_length s + 1) = ?n + 1"
    using unat_plus_small [of "s_string_length s" 1] str_wf_bound [OF w] by simp
  obtain s1 where s1: "str_resize (s_string_length s + 1) s = Inr s1"
      and rs: "resized (s_string_length s + 1) s s1"
    using r str_resize_Inr_wf [OF w] by (auto simp: str_insert_char_def Let_def res_simps)
  note d = resizedD [OF rs]
  have l: "?n + 1 < length (s_str s1)" "s_str s1 \<noteq> []"
    using resized_len [OF rs] n by (auto simp: word_less_nat_alt)
  have nul1: "s_str s1 ! (?n + 1) = 0" using resized_nul [OF rs l(2)] n by simp
  have pre: "take ?n (s_str s1) = content s" using resized_grow [OF rs w] n by simp
  have lc: "length (content s) = ?n" using length_content [OF w] .
  have nul0: "s_str s1 ! ?n = 0" if "s_str s \<noteq> []"
  proof -
    have "?n < length (s_str s)" "s_str s ! ?n = 0"
      using w that str_wf_len_less by (auto simp: str_wf_def split: if_splits)
    moreover have "take (?n + 1) (s_str s1) = take (?n + 1) (s_str s)"
      using d(5) [of "?n + 1"] n calculation by simp
    ultimately show ?thesis by (metis less_add_one nth_take)
  qed
  have s1b: "s_str s1 = content s @ s_str s1 ! ?n # drop (?n + 1) (s_str s1)"
    using pre l by (metis Suc_eq_plus1 add_lessD1 id_take_nth_drop)
  have fin: "str_wf (s1\<lparr>s_str := b\<rparr>) \<and> content (s1\<lparr>s_str := b\<rparr>) = ys"
    if "length b = length (s_str s1)" "take (?n + 1) b = ys" "b ! (?n + 1) = 0" for b ys
    using that d n by (auto intro!: str_wf_buf)
  consider (first) "pos = 0" | (last) "pos \<noteq> 0" "s_string_length s \<le> pos"
    | (mid) "pos \<noteq> 0" "\<not> s_string_length s \<le> pos" by blast
  then show ?thesis
  proof cases
    case first
    then have nul: "s_str s1 ! ?n = 0" using nul0 ne by auto
    let ?b = "(take 1 (s_str s1) @ take (?n + 1) (s_str s1) @ drop (?n + 2) (s_str s1))[0 := c]"
    have "s' = s1\<lparr>s_str := ?b\<rparr>"
      using r s1 first l n by (simp add: str_insert_char_def Let_def blk_simps)
    moreover have "?b = c # content s @ 0 # drop (?n + 2) (s_str s1)"
      using l nul pre by (simp add: take_Suc_conv_app_nth list_update_append take_Suc hd_conv_nth)
    ultimately show ?thesis using fin [of ?b "c # content s"] l first lc by (simp add: nth_append)
  next
    case last
    let ?b = "(s_str s1)[?n := c]"
    have "s' = s1\<lparr>s_str := ?b\<rparr>"
      using r s1 last l n by (simp add: str_insert_char_def Let_def blk_simps)
    moreover have "?n \<le> unat pos" using last by (simp add: word_le_nat_alt)
    ultimately show ?thesis
      using fin [of ?b "content s @ [c]"] l nul1 lc pre by (simp add: take_Suc_conv_app_nth)
  next
    case mid
    have p: "unat pos < ?n" "0 < unat pos" using mid by (auto simp: word_le_nat_alt unat_gt_0)
    have nul: "s_str s1 ! ?n = 0" using nul0 p str_wf_nil [OF w] by (auto simp: str_cap_def)
    have u: "unat (pos + 1) = unat pos + 1" "unat (s_string_length s - pos + 1) = ?n - unat pos + 1"
      using p n str_wf_bound [OF w] unat_plus_small [of pos 1]
        unat_plus_small [of "s_string_length s - pos" 1]
      by (auto simp: unat_sub word_le_nat_alt)
    let ?b = "(take (unat pos + 1) (s_str s1) @ take (?n - unat pos + 1) (drop (unat pos) (s_str s1))
        @ drop (?n + 2) (s_str s1))[unat pos := c]"
    have "s' = s1\<lparr>s_str := ?b\<rparr>"
      using r s1 mid l n u p by (simp add: str_insert_char_def Let_def blk_simps)
    moreover have "?b = take (unat pos) (content s) @ c # drop (unat pos) (content s) @ 0 # drop (?n + 2) (s_str s1)"
    proof -
      have "take (unat pos + 1) (s_str s1) = take (unat pos) (content s) @ [s_str s1 ! unat pos]"
      proof -
        have "take (unat pos) (s_str s1) = take (unat pos) (content s)"
          using pre p by (metis less_imp_le min.absorb1 take_take)
        then show ?thesis using p l by (simp add: take_Suc_conv_app_nth)
      qed
      moreover have "take (?n - unat pos + 1) (drop (unat pos) (s_str s1)) = drop (unat pos) (content s) @ [0]"
        using p l nul lc by (subst s1b) simp
      ultimately show ?thesis using p lc by (simp add: list_update_append)
    qed
    ultimately have s': "s' = s1\<lparr>s_str := (take (unat pos) (content s) @ c # drop (unat pos) (content s))
        @ 0 # drop (?n + 2) (s_str s1)\<rparr>" by simp
    show ?thesis
      unfolding s' using l lc p by (intro fin) (auto simp: nth_append Suc_diff_le)
  qed
qed

lemma str_insert_cstr_ok:
  assumes w: "str_wf s" and m: "holds_cstr m xs"
    and b: "unat (s_string_length s) + length xs + 16 < 2 ^ 32"
  shows "\<exists>s'. str_insert_cstr pos m s = Inr s' \<and> str_wf s' \<and> content s' = take (unat pos) (content s) @ xs @ drop (unat pos) (content s)"
proof -
  let ?n = "unat (s_string_length s)" and ?k = "length xs"
  have k: "unat (of_nat ?k :: u32) = ?k" using b by simp
  have n: "unat (s_string_length s + of_nat ?k) = ?n + ?k"
    using unat_plus_small [of "s_string_length s" "of_nat ?k"] b k by simp
  have m': "take ?k m = xs" "?k \<le> length m" using m by (auto simp: holds_cstr_def)
  obtain s1 where s1: "str_resize (s_string_length s + of_nat ?k) s = Inr s1"
      and rs: "resized (s_string_length s + of_nat ?k) s s1"
    using str_resize_ok [OF str_wf_shape [OF w], of "s_string_length s + of_nat ?k"] n b str_wf_min [OF w]
    by auto
  note d = resizedD [OF rs]
  have l: "?n + ?k \<le> length (s_str s1)" using str_wf_len [OF d(1)] d(2) n by simp
  have pre: "take ?n (s_str s1) = content s" using resized_grow [OF rs w] n by simp
  have lc: "length (content s) = ?n" using length_content [OF w] .
  have fin: "str_wf (s1\<lparr>s_str := b\<rparr>) \<and> content (s1\<lparr>s_str := b\<rparr>) = ys"
    if "length b = length (s_str s1)" "take (?n + ?k) b = ys" "drop (?n + ?k) b = drop (?n + ?k) (s_str s1)" for b ys
  proof -
    have "b ! (?n + ?k) = 0" if "s_str s1 \<noteq> []"
    proof -
      have "?n + ?k < length (s_str s1)" using str_wf_len_less [OF d(1) that] d(2) n by simp
      then have "b ! (?n + ?k) = s_str s1 ! (?n + ?k)"
        using \<open>drop _ b = _\<close> \<open>length b = _\<close> by (metis hd_drop_conv_nth)
      then show ?thesis using resized_nul [OF rs that] n by simp
    qed
    then show ?thesis using that d n by (auto intro!: str_wf_buf)
  qed
  have sl: "blk_slice m 0 ?k = Inr xs" using m' by (simp add: blk_slice_def)
  have body: "str_insert_cstr pos m s = (if pos \<le> 0 then
       bindR (blk_move (s_str s1) ?k 0 ?n) (\<lambda>b.
       bindR (blk_put b 0 xs) (\<lambda>b. Inr (s1\<lparr>s_str := b\<rparr>)))
     else if s_string_length s \<le> pos then
       bindR (blk_put (s_str s1) ?n xs) (\<lambda>b. Inr (s1\<lparr>s_str := b\<rparr>))
     else
       bindR (blk_move (s_str s1) (unat (pos + of_nat ?k)) (unat pos) (unat (s_string_length s - pos))) (\<lambda>b.
       bindR (blk_put b (unat pos) xs) (\<lambda>b. Inr (s1\<lparr>s_str := b\<rparr>))))"
    by (simp only: str_insert_cstr_def Let_def c_strlen_cstr [OF m] bindR_simps s1 k sl)
  consider (first) "pos = 0" | (last) "pos \<noteq> 0" "s_string_length s \<le> pos"
    | (mid) "pos \<noteq> 0" "\<not> s_string_length s \<le> pos" by blast
  then show ?thesis
  proof cases
    case first
    have mv: "blk_move (s_str s1) ?k 0 ?n = Inr (take ?k (s_str s1) @ content s @ drop (?k + ?n) (s_str s1))"
      using l pre by (subst blk_move_ok) auto
    let ?b = "xs @ content s @ drop (?n + ?k) (s_str s1)"
    have "str_insert_cstr pos m s = Inr (s1\<lparr>s_str := ?b\<rparr>)"
      using body first mv l lc by (simp add: blk_put_def add.commute)
    then show ?thesis using fin [of ?b "xs @ content s"] l first lc by simp
  next
    case last
    let ?b = "content s @ xs @ drop (?n + ?k) (s_str s1)"
    have "str_insert_cstr pos m s = Inr (s1\<lparr>s_str := ?b\<rparr>)"
      using body last l pre by (simp add: blk_put_def)
    moreover have "?n \<le> unat pos" using last by (simp add: word_le_nat_alt)
    ultimately show ?thesis using fin [of ?b "content s @ xs"] l lc by simp
  next
    case mid
    have p: "unat pos < ?n" using mid by (auto simp: word_le_nat_alt)
    have u: "unat (pos + of_nat ?k) = unat pos + ?k" "unat (s_string_length s - pos) = ?n - unat pos"
      using p b k unat_plus_small [of pos "of_nat ?k"] by (auto simp: unat_sub word_le_nat_alt)
    let ?b = "take (unat pos) (content s) @ xs @ drop (unat pos) (content s) @ drop (?n + ?k) (s_str s1)"
    have mv: "take (?n - unat pos) (drop (unat pos) (s_str s1)) = drop (unat pos) (content s)"
      using pre by (metis drop_take)
    have tp: "take (unat pos) (s_str s1) = take (unat pos) (content s)"
      using pre p by (metis less_imp_le min.absorb1 take_take)
    have "str_insert_cstr pos m s = Inr (s1\<lparr>s_str := ?b\<rparr>)"
      using body mid l u p mv tp lc by (simp add: blk_move_ok blk_put_def add.commute)
    then show ?thesis
      using fin [of ?b "take (unat pos) (content s) @ xs @ drop (unat pos) (content s)"] l lc p by simp
  qed
qed

lemma str_insert_cstr_Inr:
  assumes "str_wf s" "holds_cstr m xs" "unat (s_string_length s) + length xs + 16 < 2 ^ 32"
    and "str_insert_cstr pos m s = Inr s'"
  shows "str_wf s' \<and> content s' = take (unat pos) (content s) @ xs @ drop (unat pos) (content s)"
  using str_insert_cstr_ok [OF assms(1-3), of pos] assms(4) by auto

section \<open>replaceFrom\<close>

lemma str_replaceFrom_ok:
  assumes w: "str_wf s" and m: "holds_cstr m xs" and ne: "xs \<noteq> []" "content s \<noteq> []"
    and p: "unat pos + unat len \<le> unat (s_string_length s)"
    and b: "unat (s_string_length s) + length xs + 16 < 2 ^ 32"
  shows "\<exists>s'. str_replaceFrom pos len m s = Inr s' \<and> str_wf s'
    \<and> content s' = take (unat pos) (content s) @ xs @ drop (unat pos + unat len) (content s)"
proof -
  let ?n = "unat (s_string_length s)" and ?k = "length xs" and ?p = "unat pos" and ?l = "unat len"
  define t where "t = ?n - (?p + ?l)"
  define new where "new = s_string_length s + (of_nat ?k - len)"
  have lc: "length (content s) = ?n" using length_content [OF w] .
  then have n0: "0 < ?n" using ne(2) by (metis length_greater_0_conv)
  have k: "unat (of_nat ?k :: u32) = ?k" using b by simp
  have e: "unat (pos + len) = ?p + ?l" using p b by (intro unat_plus_small) simp
  have dst: "unat (pos + of_nat ?k) = ?p + ?k"
    using p b k unat_plus_small [of pos "of_nat ?k"] by simp
  have src: "unat (s_string_length s - (pos + len)) = t"
    using p e by (simp add: unat_sub word_le_nat_alt t_def)
  have new: "unat new = ?p + ?k + t"
  proof -
    have "new = (s_string_length s - len) + of_nat ?k" by (simp add: new_def)
    moreover have "unat (s_string_length s - len) = ?n - ?l"
      using p by (simp add: unat_sub word_le_nat_alt)
    ultimately show ?thesis
      using unat_plus_small [of "s_string_length s - len" "of_nat ?k"] k p b by (simp add: t_def)
  qed
  have m': "take ?k m = xs" "?k \<le> length m" using m by (auto simp: holds_cstr_def)
  have sl: "blk_slice m 0 ?k = Inr xs" using m' by (simp add: blk_slice_def)
  have kpos: "(0 :: u32) < of_nat ?k" using k ne by (simp add: word_less_nat_alt)
  have nempty: "\<not> str_isEmpty s" using n0 by (auto simp: str_isEmpty_def)
  have buf: "s_str s \<noteq> []" using str_wf_nil [OF w] n0 by (auto simp: str_cap_def)
  have body: "str_replaceFrom pos len m s =
     bindR (bindR (if s_string_length s < new then str_resize new s else Inr s) (\<lambda>s1.
       bindR (blk_move (s_str s1) (?p + ?k) (?p + ?l) t) (\<lambda>b.
       if new < s_string_length s then str_resize new (s1\<lparr>s_str := b\<rparr>)
       else Inr (s1\<lparr>s_str := b\<rparr>)))) (\<lambda>s2.
     bindR (blk_put (s_str s2) ?p xs) (\<lambda>b.
     bindR (blk_write b (unat new) 0) (\<lambda>b. Inr (s2\<lparr>s_str := b\<rparr>))))"
    by (simp only: str_replaceFrom_def Let_def c_strlen_cstr [OF m] bindR_simps nempty kpos
        if_True if_False new_def dst e src k sl)
  have mn: "unat (s_min_size s) + 16 < 2 ^ 32"
    using w n0 by (auto simp: str_wf_def str_cap_def split: if_splits)
  have newb: "max (unat new) (unat (s_min_size s)) + 16 < 2 ^ 32"
    using new mn b p by (simp add: t_def)
  obtain s1 where s1: "(if s_string_length s < new then str_resize new s else Inr s) = Inr s1"
    using str_resize_ok [OF str_wf_shape [OF w] newb] by (cases "s_string_length s < new") auto
  have f1: "str_wf s1 \<and> ?n \<le> unat (s_string_length s1) \<and> unat new \<le> unat (s_string_length s1)
      \<and> s_string_length s1 = (if s_string_length s < new then new else s_string_length s)
      \<and> take ?n (s_str s1) = content s"
  proof (cases "s_string_length s < new")
    case True
    then have rs: "resized new s s1" using s1 str_resize_Inr_wf [OF w] by simp
    then show ?thesis
      using True resizedD [OF rs] resized_grow [OF rs w] by (simp add: word_less_nat_alt)
  next
    case False
    then show ?thesis using s1 w by (auto simp: word_less_nat_alt content_def)
  qed
  then have w1: "str_wf s1" and pre: "take ?n (s_str s1) = content s" by auto
  have l1: "?n < length (s_str s1)" "unat new < length (s_str s1)"
  proof -
    have "s_str s1 \<noteq> []" using f1 n0 str_wf_len [OF w1] by auto
    then show "?n < length (s_str s1)" "unat new < length (s_str s1)"
      using f1 str_wf_len_less [OF w1] by auto
  qed
  let ?b = "take (?p + ?k) (s_str s1) @ take t (drop (?p + ?l) (s_str s1)) @ drop (?p + ?k + t) (s_str s1)"
  have mv: "blk_move (s_str s1) (?p + ?k) (?p + ?l) t = Inr ?b"
    using l1 p new by (intro blk_move_ok) (auto simp: t_def)
  have tl: "take t (drop (?p + ?l) (s_str s1)) = drop (?p + ?l) (content s)"
    unfolding pre [symmetric] by (simp add: drop_take t_def)
  have tp: "take ?p (s_str s1) = take ?p (content s)"
    using p unfolding pre [symmetric] by simp
  have lb: "length ?b = length (s_str s1)" using l1 p new by (simp add: t_def)
  have sh2: "str_shape (s1\<lparr>s_str := ?b\<rparr>)" using str_shape_buf [OF str_wf_shape [OF w1] lb] .
  have m1: "s_min_size s1 = s_min_size s"
    using s1 resizedD(4) [OF str_resize_Inr_wf [OF w]] by (auto split: if_splits)
  obtain s2 where s2: "(if new < s_string_length s then str_resize new (s1\<lparr>s_str := ?b\<rparr>)
      else Inr (s1\<lparr>s_str := ?b\<rparr>)) = Inr s2"
    using str_resize_ok [OF sh2, of new] newb m1 by (cases "new < s_string_length s") auto
  have f2: "s_string_length s2 = new \<and> unat new < length (s_str s2)
      \<and> take (unat new) (s_str s2) = take (unat new) ?b
      \<and> (\<forall>c. length c = length (s_str s2) \<longrightarrow> c ! unat new = 0 \<longrightarrow> str_wf (s2\<lparr>s_str := c\<rparr>))"
  proof (cases "new < s_string_length s")
    case True
    then have "str_resize new (s1\<lparr>s_str := ?b\<rparr>) = Inr s2" using s2 by simp
    moreover have "str_shape (s1\<lparr>s_str := ?b\<rparr>)"
      using str_shape_buf [OF str_wf_shape [OF w1]] lb by simp
    ultimately have rs: "resized new (s1\<lparr>s_str := ?b\<rparr>) s2" by (rule str_resize_Inr(1) [rotated])
    have "0 < new" using new ne by (simp add: word_less_nat_alt)
    then have "unat new < length (s_str s2)" using resized_len [OF rs] by simp
    moreover have "take (unat new) (s_str s2) = take (unat new) ?b"
      using resizedD(5) [OF rs, of "unat new"] lb l1 by simp
    ultimately show ?thesis using resizedD [OF rs] by (auto intro: str_wf_buf)
  next
    case False
    then have eq: "s2 = s1\<lparr>s_str := ?b\<rparr>" "s_string_length s1 = new"
      using s2 f1 by auto
    have "str_wf (s1\<lparr>s_str := c\<rparr>)" if "length c = length (s_str s1)" "c ! unat new = 0" for c
      using that w1 eq by (intro str_wf_buf) auto
    then show ?thesis using eq lb l1 by simp
  qed
  let ?c = "take ?p (s_str s2) @ xs @ drop (?p + ?k) (s_str s2)"
  have l2: "unat new < length (s_str s2)"
    using f2 by simp
  define s' where "s' = s2\<lparr>s_str := ?c[unat new := 0]\<rparr>"
  note s' = s'_def
  have res: "str_replaceFrom pos len m s = Inr s'"
    unfolding s' body using s1 mv s2 l2 new by (simp add: blk_put_def blk_write_def split del: if_split)
  have g: "str_wf s'" "s_string_length s2 = new" "take (unat new) (s_str s2) = take (unat new) ?b"
    using f2 l2 new s' by auto
  have "content s' = take (unat new) ?c"
    using s' g(2) by simp
  also have "\<dots> = take ?p (s_str s2) @ xs @ take t (drop (?p + ?k) (s_str s2))"
    using new l2 by (simp add: min_def)
  also have "take ?p (s_str s2) = take ?p (take (unat new) (s_str s2))" using new by simp
  also have "\<dots> = take ?p (content s)"
    unfolding g(3) using new l1 tp by simp
  also have "take t (drop (?p + ?k) (s_str s2)) = drop (?p + ?k) (take (unat new) (s_str s2))"
    using new by (simp add: drop_take)
  also have "\<dots> = drop (?p + ?l) (content s)"
    unfolding g(3) using new l1 tl lc by (simp add: t_def)
  finally show ?thesis using g(1) res by auto
qed


section \<open>Filling and construction from two parts\<close>

lemma str_fill_Inr:
  assumes w: "str_wf s" and r: "str_fill c len s = Inr s'"
  shows "str_wf s' \<and> content s' = replicate (if len > 0 then unat len else unat (s_string_length s)) c"
proof -
  obtain s1 where s1: "(if len > 0 then str_resize len s else Inr s) = Inr s1"
    using r by (auto simp: str_fill_def res_simps)
  have w1: "str_wf s1" and l1: "s_string_length s1 = (if len > 0 then len else s_string_length s)"
    using s1 w resizedD(1,2) [OF str_resize_Inr_wf [OF w]] by (auto split: if_splits)
  have u: "unat (s_string_length s1) = (if len > 0 then unat len else unat (s_string_length s))"
    using l1 by auto
  let ?n = "unat (s_string_length s1)"
  show ?thesis
  proof (cases "s_str s1 = []")
    case True
    then have "?n = 0" using str_wf_len [OF w1] by simp
    moreover have "s' = s1" using r s1 True by (simp add: str_fill_def split: if_splits)
    ultimately show ?thesis using w1 u by (simp add: content_def)
  next
    case False
    have l: "?n < length (s_str s1)" using str_wf_len_less [OF w1 False] .
    let ?b = "replicate ?n c @ drop ?n (s_str s1)"
    have s': "s' = s1\<lparr>s_str := ?b\<rparr>"
      using r s1 False l by (simp add: str_fill_def blk_put_def split: if_splits)
    have "s_str s1 ! ?n = 0" using w1 False str_wf_nil [OF w1] by (auto simp: str_wf_def)
    then have "str_wf s'"
      unfolding s' using w1 l by (intro str_wf_buf) (auto simp: nth_append)
    then show ?thesis using s' u by simp
  qed
qed

lemma ptr_len_cstr:
  "holds_cstr m xs \<Longrightarrow> ptr_len (Some m) = Inr (of_nat (length xs))"
  by (cases xs) (auto simp: ptr_len_def holds_cstr_def blk_read_def c_strlen_append c_strlen_cstr)

text \<open>\<open>operator+\<close> is the two-argument constructor on the operands' C strings.\<close>

lemma str_of_two_ok:
  assumes m: "holds_cstr m1 xs" "holds_cstr m2 ys" and b: "length xs + length ys + 16 < 2 ^ 32"
  shows "\<exists>s. str_of_two (Some m1) (Some m2) = Inr s \<and> str_wf s \<and> content s = xs @ ys"
proof -
  let ?a = "of_nat (length xs) :: u32" and ?b = "of_nat (length ys) :: u32"
  have u: "unat ?a = length xs" "unat ?b = length ys" using b by auto
  then have ab: "unat (?a + ?b) = length xs + length ys"
    using b by (subst unat_plus_small) auto
  have sl: "blk_slice m1 0 (length xs) = Inr xs" "blk_slice m2 0 (length ys) = Inr ys"
    using m by (auto simp: holds_cstr_def blk_slice_def)
  show ?thesis
  proof (cases "?a + ?b = 0")
    case True
    then have "xs = []" "ys = []" using ab by auto
    then show ?thesis
      using m by (simp add: str_of_two_def ptr_len_cstr)
  next
    case False
    then have nz: "0 < ?a + ?b" by (simp add: word_gt_0)
    obtain s1 where s1: "str_resize (?a + ?b) str_empty = Inr s1" "resized (?a + ?b) str_empty s1"
      using str_resize_ok [OF str_shape_empty, of "?a + ?b"] ab b by (auto simp: str_empty_def)
    have l: "length xs + length ys < length (s_str s1)" "s_str s1 \<noteq> []"
      using resized_len [OF s1(2) nz] ab by auto
    let ?s = "s1\<lparr>s_str := xs @ ys @ drop (length xs + length ys) (s_str s1)\<rparr>"
    have "str_of_two (Some m1) (Some m2) = Inr ?s"
      using m False s1 sl l by (simp add: str_of_two_def ptr_len_cstr u blk_put_def add.commute)
    moreover have "str_wf ?s"
      using resizedD [OF s1(2)] resized_nul [OF s1(2) l(2)] l ab
      by (intro str_wf_buf) (auto simp: nth_append)
    ultimately show ?thesis using resizedD(2) [OF s1(2)] ab by simp
  qed
qed

section \<open>Trimming and case\<close>

lemma trim_begin_scan_eq:
  "e \<le> length m \<Longrightarrow> i \<le> e \<Longrightarrow>
   trim_begin_scan m i e = Inr (i + length (takeWhile is_trim (drop i (take e m))))"
proof (induction m i e rule: trim_begin_scan.induct)
  case (1 m i e)
  show ?case
  proof (cases "i < e")
    case True
    have d: "drop i (take e m) = m ! i # drop (Suc i) (take e m)"
      using True 1 by (metis Cons_nth_drop_Suc less_le_trans length_take min.absorb2 nth_take)
    show ?thesis
      using True 1 d by (subst trim_begin_scan.simps) (auto simp: blk_simps)
  next
    case False
    then show ?thesis using 1 by (subst trim_begin_scan.simps) simp
  qed
qed

lemma trim_end_scan_eq:
  "e \<le> length m \<Longrightarrow> trim_end_scan m e = Inr (length (dropWhile is_trim (rev (take e m))))"
  by (induction e) (auto simp: blk_simps take_Suc_conv_app_nth)

lemma str_trim_total: "str_wf s \<Longrightarrow> \<exists>s'. str_trimBegin s = Inr s'" "str_wf s \<Longrightarrow> \<exists>s'. str_trimEnd s = Inr s'"
proof -
  assume w: "str_wf s"
  let ?n = "unat (s_string_length s)"
  have fits: "\<exists>s'. str_resize (of_nat k) t = Inr s'"
    if "k \<le> ?n" "str_shape t" "s_min_size t = s_min_size s" for k t
  proof -
    have "unat (of_nat k :: u32) = k" using that(1) unat_lt32 [of "s_string_length s"] by simp
    then show ?thesis
      using str_resize_ok [OF that(2), of "of_nat k"] that str_wf_bound [OF w] str_wf_min [OF w] by auto
  qed
  show "\<exists>s'. str_trimBegin s = Inr s'"
  proof (cases "s_str s = []")
    case False
    let ?i = "length (takeWhile is_trim (content s))"
    have l: "?n < length (s_str s)" using str_wf_len_less [OF w False] .
    have i: "trim_begin_scan (s_str s) 0 ?n = Inr ?i" using l by (simp add: trim_begin_scan_eq content_def)
    obtain b where b: "blk_move (s_str s) 0 ?i (?n - ?i) = Inr b"
      using l length_takeWhile_le [of is_trim "content s"] length_content [OF w] by (simp add: blk_move_ok)
    have "str_shape (s\<lparr>s_str := b\<rparr>)"
      using str_shape_buf [OF str_wf_shape [OF w] length_blk_move [OF b]] .
    then show ?thesis
      using fits [of "?n - ?i" "s\<lparr>s_str := b\<rparr>"] False i b by (simp add: str_trimBegin_def Let_def)
  qed (simp add: str_trimBegin_def)
  show "\<exists>s'. str_trimEnd s = Inr s'"
  proof (cases "s_str s = []")
    case False
    have l: "?n < length (s_str s)" using str_wf_len_less [OF w False] .
    have "length (dropWhile is_trim (rev (content s))) \<le> ?n"
      using length_dropWhile_le [of is_trim "rev (content s)"] length_content [OF w] by simp
    then show ?thesis
      using fits [OF _ str_wf_shape [OF w] refl] l by (simp add: str_trimEnd_def trim_end_scan_eq content_def)
  qed (simp add: str_trimEnd_def)
qed

lemma str_trimBegin_Inr:
  assumes w: "str_wf s" and r: "str_trimBegin s = Inr s'"
  shows "str_wf s' \<and> content s' = dropWhile is_trim (content s)"
proof (cases "s_str s = []")
  case True
  then show ?thesis using w r by (simp add: str_trimBegin_def content_def)
next
  case False
  let ?n = "unat (s_string_length s)" and ?i = "length (takeWhile is_trim (content s))"
  have l: "?n < length (s_str s)" using str_wf_len_less [OF w False] .
  have i: "trim_begin_scan (s_str s) 0 ?n = Inr ?i"
    using l by (simp add: trim_begin_scan_eq content_def)
  have "?i \<le> length (content s)" by (rule length_takeWhile_le)
  then have il: "?i \<le> ?n" using length_content [OF w] by simp
  have dw: "take (?n - ?i) (drop ?i (s_str s)) = dropWhile is_trim (content s)"
    by (simp add: dropWhile_eq_drop content_def drop_take)
  let ?b = "take (?n - ?i) (drop ?i (s_str s)) @ drop (?n - ?i) (s_str s)"
  have un: "unat (of_nat (?n - ?i) :: u32) = ?n - ?i"
    using unat_lt32 [of "s_string_length s"] by simp
  have "str_resize (of_nat (?n - ?i)) (s\<lparr>s_str := ?b\<rparr>) = Inr s'"
    using r False i il l by (simp add: str_trimBegin_def Let_def blk_simps)
  moreover have "str_shape (s\<lparr>s_str := ?b\<rparr>)"
    using str_shape_buf [OF str_wf_shape [OF w]] il l by simp
  ultimately have rs: "resized (of_nat (?n - ?i)) (s\<lparr>s_str := ?b\<rparr>) s'"
    by (rule str_resize_Inr(1) [rotated])
  have "content s' = take (?n - ?i) ?b"
    using resizedD(5) [OF rs, of "?n - ?i"] resizedD(2) [OF rs] un il l by (simp add: content_def)
  also have "\<dots> = dropWhile is_trim (content s)"
  proof -
    have "length (take (?n - ?i) (drop ?i (s_str s))) = ?n - ?i" using il l by simp
    then have "take (?n - ?i) ?b = take (?n - ?i) (drop ?i (s_str s))" by (metis append_eq_conv_conj)
    then show ?thesis using dw by simp
  qed
  finally show ?thesis using resizedD(1) [OF rs] by simp
qed

lemma str_trimEnd_Inr:
  assumes w: "str_wf s" and r: "str_trimEnd s = Inr s'"
  shows "str_wf s' \<and> content s' = rev (dropWhile is_trim (rev (content s)))"
proof (cases "s_str s = []")
  case True
  then show ?thesis using w r by (simp add: str_trimEnd_def content_def)
next
  case False
  let ?n = "unat (s_string_length s)" and ?k = "length (dropWhile is_trim (rev (content s)))"
  have l: "?n < length (s_str s)" using str_wf_len_less [OF w False] .
  have k: "?k \<le> ?n"
    using length_dropWhile_le [of is_trim "rev (content s)"] length_content [OF w] by simp
  have un: "unat (of_nat ?k :: u32) = ?k"
    using k unat_lt32 [of "s_string_length s"] by simp
  have "str_resize (of_nat ?k) s = Inr s'"
    using r False l by (simp add: str_trimEnd_def trim_end_scan_eq content_def)
  then have "str_wf s' \<and> content s' = take ?k (content s)"
    using str_resize_take [OF w] un k by simp
  moreover have "take ?k (content s) = rev (dropWhile is_trim (rev (content s)))"
    by (metis dropWhile_eq_drop rev_rev_ident rev_drop length_drop length_rev)
  ultimately show ?thesis by simp
qed

definition trim_spec :: "u8 list \<Rightarrow> u8 list" where
  "trim_spec xs = rev (dropWhile is_trim (rev (dropWhile is_trim xs)))"

lemma str_trim_Inr:
  assumes w: "str_wf s" and r: "str_trim s = Inr s'"
  shows "str_wf s' \<and> content s' = trim_spec (content s)"
proof -
  obtain s1 where s1: "str_trimBegin s = Inr s1" "str_trimEnd s1 = Inr s'"
    using r by (auto simp: str_trim_def res_simps)
  have w1: "str_wf s1" "content s1 = dropWhile is_trim (content s)"
    using str_trimBegin_Inr [OF w s1(1)] by auto
  show ?thesis using str_trimEnd_Inr [OF w1(1) s1(2)] w1(2) by (simp add: trim_spec_def)
qed

lemma str_map_Inr:
  assumes w: "str_wf s"
    and r: "bindR (blk_slice (s_str s) 0 (unat (s_string_length s))) (\<lambda>xs.
      bindR (blk_put (s_str s) 0 (map f xs)) (\<lambda>b. Inr (s\<lparr>s_str := b\<rparr>))) = Inr s'"
  shows "str_wf s' \<and> content s' = map f (content s) \<and> s_hash_value s' = s_hash_value s"
proof -
  let ?n = "unat (s_string_length s)"
  have l: "?n \<le> length (s_str s)" using str_wf_len [OF w] .
  let ?b = "map f (content s) @ drop ?n (s_str s)"
  have lc: "length (content s) = ?n" using length_content [OF w] .
  have sl: "blk_slice (s_str s) 0 ?n = Inr (content s)" using l by (simp add: blk_slice_def content_def)
  have "blk_put (s_str s) 0 (map f (content s)) = Inr ?b"
    using l lc by (simp add: blk_put_def)
  then have s': "s' = s\<lparr>s_str := ?b\<rparr>" using r sl by simp
  have "str_wf s'"
    unfolding s'
  proof (rule str_wf_buf [OF w])
    show "length ?b = length (s_str s)" using l lc by simp
    show "?b ! ?n = 0" if "s_str s \<noteq> []"
      using str_wf_nul [OF w that] str_wf_len_less [OF w that] lc by (simp add: nth_append)
  qed
  then show ?thesis using s' lc by simp
qed

lemma str_toUpper_Inr:
  "str_wf s \<Longrightarrow> str_toUpper s = Inr s' \<Longrightarrow>
   str_wf s' \<and> content s' = map c_toupper (content s) \<and> s_hash_value s' = s_hash_value s"
  unfolding str_toUpper_def Let_def by (rule str_map_Inr)

lemma str_toLower_Inr:
  "str_wf s \<Longrightarrow> str_toLower s = Inr s' \<Longrightarrow>
   str_wf s' \<and> content s' = map c_tolower (content s) \<and> s_hash_value s' = s_hash_value s"
  unfolding str_toLower_def Let_def by (rule str_map_Inr)

lemma str_set_Inr:
  assumes w: "str_wf s" and r: "str_set i c s = Inr s'" and i: "i \<noteq> s_string_length s \<or> c = 0"
  shows "str_wf s' \<and> content s' = (content s)[unat i := c]"
proof -
  have s': "s' = s\<lparr>s_str := (s_str s)[unat i := c]\<rparr>"
    using r by (auto simp: str_set_def blk_write_def split: if_splits)
  have "str_wf s'"
    unfolding s'
  proof (rule str_wf_buf [OF w])
    show "(s_str s)[unat i := c] ! unat (s_string_length s) = 0" if ne: "s_str s \<noteq> []"
      using str_wf_nul [OF w ne] str_wf_len_less [OF w ne] i
      by (cases "i = s_string_length s") (simp_all add: nth_list_update word_unat_eq_iff)
  qed simp
  then show ?thesis using s' by (simp add: content_def take_update_swap)
qed

lemma str_destroy_Inr:
  assumes "str_wf s" shows "\<exists>s'. str_destroy s = Inr s' \<and> s_str s' = []"
proof -
  have "str_shape (s\<lparr>s_min_size := 0\<rparr>)" using str_wf_shape [OF assms] by (simp add: str_shape_def)
  then obtain s' where s': "str_destroy s = Inr s'" "resized 0 (s\<lparr>s_min_size := 0\<rparr>) s'"
    using str_resize_ok [of "s\<lparr>s_min_size := 0\<rparr>" 0] by (auto simp: str_destroy_def str_clear_def)
  then show ?thesis using str_wf_nil [OF resizedD(1) [OF s'(2)]] resizedD [OF s'(2)]
    by (auto simp: str_cap_def)
qed

end
