(* ===== verification/Str_Search.thy ===== *)
theory Str_Search
  imports Str_Edit
begin

text \<open>
  Searching, comparing and cutting of \<open>SRL::String\<close> (src/String.cpp), and the editing
  loops that are driven by a search (removeChar, remove, replace). Positions are
  \<open>int32\<close>, -1 for "not found". The editing loops take fuel: they need not end.
\<close>

unbundle bit_operations_syntax

section \<open>Finding\<close>

definition find_result :: "u32 \<Rightarrow> nat option \<Rightarrow> u32" where
  "find_result pos r = (case r of None \<Rightarrow> - 1 | Some i \<Rightarrow> of_nat (unat pos + i))"

definition str_find_chr :: "u8 \<Rightarrow> u32 \<Rightarrow> srl_str \<Rightarrow> u32 res" where
  "str_find_chr c pos s = bindR (blk_ptr (str_mem s) (unat pos)) (\<lambda>p.
     bindR (c_strchr p c) (\<lambda>r. Inr (find_result pos r)))"

definition str_find_cstr :: "u8 list \<Rightarrow> u32 \<Rightarrow> srl_str \<Rightarrow> u32 res" where
  "str_find_cstr str_find pos s = bindR (blk_ptr (str_mem s) (unat pos)) (\<lambda>p.
     bindR (c_strstr p str_find) (\<lambda>r. Inr (find_result pos r)))"

definition str_find :: "srl_str \<Rightarrow> u32 \<Rightarrow> srl_str \<Rightarrow> u32 res" where
  "str_find t pos s = bindR (blk_ptr (str_mem s) (unat pos)) (\<lambda>p.
     bindR (c_strstr p (str_mem t)) (\<lambda>r. Inr (find_result pos r)))"

fun rfind_chr_scan :: "u8 list \<Rightarrow> u8 \<Rightarrow> nat \<Rightarrow> u32 res" where
  "rfind_chr_scan m c 0 = bindR (blk_read m 0) (\<lambda>x. Inr (if x = c then 0 else - 1))"
| "rfind_chr_scan m c (Suc i) = bindR (blk_read m (Suc i)) (\<lambda>x.
     if x = c then Inr (of_nat (Suc i)) else rfind_chr_scan m c i)"

text \<open>Where a backward scan begins; the loop variable is an \<open>int\<close>.\<close>

definition rfind_start :: "u32 \<Rightarrow> srl_str \<Rightarrow> nat option" where
  "rfind_start pos s = (if s_string_length s < pos then None else
     let pos = (if pos = 0 then s_string_length s else pos) in
     if pos <s 0 then None else Some (unat pos))"

definition str_rfind_chr :: "u8 \<Rightarrow> u32 \<Rightarrow> srl_str \<Rightarrow> u32 res" where
  "str_rfind_chr c pos s = (case rfind_start pos s of None \<Rightarrow> Inr (- 1)
     | Some i \<Rightarrow> rfind_chr_scan (str_mem s) c i)"

function rfind_match :: "u8 list \<Rightarrow> u8 list \<Rightarrow> nat \<Rightarrow> nat \<Rightarrow> bool res" where
  "rfind_match m f i fpos = (if fpos < length f then
     bindR (blk_read m (i + fpos)) (\<lambda>x.
     if x = f ! fpos then
       bindR (blk_read f (fpos + 1)) (\<lambda>y. if y = 0 then Inr True else rfind_match m f i (fpos + 1))
     else Inr False)
   else Inl Mem_Fault)"
  by pat_completeness auto
termination by (relation "measure (\<lambda>(m, f, i, fpos). length f - fpos)") auto

declare rfind_match.simps [simp del]

fun rfind_cstr_scan :: "u8 list \<Rightarrow> u8 list \<Rightarrow> nat \<Rightarrow> u32 res" where
  "rfind_cstr_scan m f 0 = bindR (rfind_match m f 0 0) (\<lambda>b. Inr (if b then 0 else - 1))"
| "rfind_cstr_scan m f (Suc i) = bindR (rfind_match m f (Suc i) 0) (\<lambda>b.
     if b then Inr (of_nat (Suc i)) else rfind_cstr_scan m f i)"

definition str_rfind_cstr :: "u8 list \<Rightarrow> u32 \<Rightarrow> srl_str \<Rightarrow> u32 res" where
  "str_rfind_cstr f pos s = (case rfind_start pos s of None \<Rightarrow> Inr (- 1)
     | Some i \<Rightarrow> rfind_cstr_scan (str_mem s) f i)"

definition str_rfind :: "srl_str \<Rightarrow> u32 \<Rightarrow> srl_str \<Rightarrow> u32 res" where
  "str_rfind t pos s = str_rfind_cstr (str_mem t) pos s"

section \<open>Counting\<close>

function count_chr_from :: "u8 list \<Rightarrow> u8 \<Rightarrow> u32 \<Rightarrow> u32 res" where
  "count_chr_from m ch n = (case c_strchr m ch of Inl e \<Rightarrow> Inl e | Inr None \<Rightarrow> Inr n
     | Inr (Some i) \<Rightarrow> count_chr_from (drop (Suc i) m) ch (n + 1))"
  by pat_completeness auto
termination
  by (relation "measure (\<lambda>(m, ch, n). length m)") (auto dest: c_strchr_Some)

declare count_chr_from.simps [simp del]

definition str_count_chr :: "u8 \<Rightarrow> srl_str \<Rightarrow> u32 res" where
  "str_count_chr ch s = count_chr_from (str_mem s) ch 0"

function count_cstr_from :: "u8 list \<Rightarrow> u8 list \<Rightarrow> u32 \<Rightarrow> u32 res" where
  "count_cstr_from m sub n = (if m = [] then Inl Mem_Fault else
     (case c_strstr m sub of Inl e \<Rightarrow> Inl e | Inr None \<Rightarrow> Inr n
     | Inr (Some i) \<Rightarrow> count_cstr_from (drop (Suc i) m) sub (n + 1)))"
  by pat_completeness auto
termination
  by (relation "measure (\<lambda>(m, sub, n). length m)") auto

declare count_cstr_from.simps [simp del]

definition str_count_cstr :: "u8 list \<Rightarrow> srl_str \<Rightarrow> u32 res" where
  "str_count_cstr sub s = count_cstr_from (str_mem s) sub 0"

definition str_count :: "srl_str \<Rightarrow> srl_str \<Rightarrow> u32 res" where
  "str_count sub s = str_count_cstr (str_mem sub) s"

section \<open>Cutting\<close>

definition str_null :: "srl_str res" where
  "str_null = str_of_ptr (Some [0, 0]) 0"

definition str_left :: "u32 \<Rightarrow> srl_str \<Rightarrow> srl_str res" where
  "str_left len s = (if s_string_length s < len then str_null else str_of_ptr (Some (str_mem s)) len)"

definition str_right :: "u32 \<Rightarrow> srl_str \<Rightarrow> srl_str res" where
  "str_right len s = (let rlen = s_string_length s - len in
     if s_string_length s < len then str_null
     else bindR (i32_nat rlen) (\<lambda>d. bindR (blk_ptr (str_mem s) d) (\<lambda>p. str_of_ptr (Some p) len)))"

definition str_mid :: "u32 \<Rightarrow> u32 \<Rightarrow> srl_str \<Rightarrow> srl_str res" where
  "str_mid pos len s = (if pos + len \<le> s_string_length s
     then bindR (blk_ptr (str_mem s) (unat pos)) (\<lambda>p. str_of_ptr (Some p) len)
     else str_null)"

definition str_substr :: "u32 \<Rightarrow> srl_str \<Rightarrow> srl_str res" where
  "str_substr pos s = str_mid pos (s_string_length s - pos) s"

definition str_isDigits :: "srl_str \<Rightarrow> bool res" where
  "str_isDigits s = (if str_isEmpty s then Inr False else
     bindR (blk_slice (str_mem s) 0 (unat (s_string_length s))) (\<lambda>xs.
     Inr (list_all (\<lambda>c. (48 \<le> c \<and> c \<le> 57) \<or> c = 46) xs)))"

text \<open>The loop of the four overloads of \<open>between\<close>, at most \<open>num\<close> rounds. \<open>fnd1\<close>, \<open>fnd2\<close>
  are the two searches and \<open>len1\<close>, \<open>len2\<close> the lengths of what they look for.\<close>

fun between_loop :: "(u32 \<Rightarrow> u32 res) \<Rightarrow> u32 \<Rightarrow> (u32 \<Rightarrow> u32 res) \<Rightarrow> u32 \<Rightarrow>
    nat \<Rightarrow> u32 \<Rightarrow> u32 \<Rightarrow> (u32 \<times> u32) option res" where
  "between_loop fnd1 len1 fnd2 len2 0 start_pos stop_pos = Inr (Some (start_pos, stop_pos))"
| "between_loop fnd1 len1 fnd2 len2 (Suc n) start_pos stop_pos =
     bindR (fnd1 start_pos) (\<lambda>a. let start_pos = a + len1 in
     bindR (fnd2 start_pos) (\<lambda>b. let stop_pos = b + len2 in
     if start_pos = len1 - 1 then Inr None
     else between_loop fnd1 len1 fnd2 len2 n start_pos stop_pos))"

definition between_gen :: "(u32 \<Rightarrow> u32 res) \<Rightarrow> u32 \<Rightarrow> (u32 \<Rightarrow> u32 res) \<Rightarrow> u32 \<Rightarrow> u32 \<Rightarrow> srl_str \<Rightarrow> srl_str res" where
  "between_gen fnd1 len1 fnd2 len2 num s =
     bindR (between_loop fnd1 len1 fnd2 len2 (if num <s 0 then 0 else unat num) 0 0) (\<lambda>r.
     case r of None \<Rightarrow> str_null
     | Some (start_pos, stop_pos) \<Rightarrow>
         if start_pos = len1 - 1 then str_null
         else (let stop_pos = (if stop_pos = len2 - 1 then s_string_length s else stop_pos)
               in str_mid start_pos (stop_pos - start_pos - len2) s))"

definition str_between_cc :: "u8 \<Rightarrow> u8 \<Rightarrow> u32 \<Rightarrow> srl_str \<Rightarrow> srl_str res" where
  "str_between_cc c1 c2 num s =
     between_gen (\<lambda>p. str_find_chr c1 p s) 1 (\<lambda>p. str_find_chr c2 p s) 1 num s"

definition str_between_sc :: "srl_str \<Rightarrow> u8 \<Rightarrow> u32 \<Rightarrow> srl_str \<Rightarrow> srl_str res" where
  "str_between_sc s1 c2 num s =
     between_gen (\<lambda>p. str_find s1 p s) (s_string_length s1) (\<lambda>p. str_find_chr c2 p s) 1 num s"

definition str_between_cs :: "u8 \<Rightarrow> srl_str \<Rightarrow> u32 \<Rightarrow> srl_str \<Rightarrow> srl_str res" where
  "str_between_cs c1 s2 num s =
     between_gen (\<lambda>p. str_find_chr c1 p s) 1 (\<lambda>p. str_find s2 p s) (s_string_length s2) num s"

definition str_between_ss :: "srl_str \<Rightarrow> srl_str \<Rightarrow> u32 \<Rightarrow> srl_str \<Rightarrow> srl_str res" where
  "str_between_ss st1 st2 num s =
     bindR (c_strlen (str_mem st1)) (\<lambda>n1. bindR (c_strlen (str_mem st2)) (\<lambda>n2.
     between_gen (\<lambda>p. str_find_cstr (str_mem st1) p s) (of_nat n1)
       (\<lambda>p. str_find_cstr (str_mem st2) p s) (of_nat n2) num s))"

text \<open>\<open>section\<close> on a character: skipping a run of delimiters, the do-while loop (at most
  \<open>field_num + 1\<close> rounds, its result the last start, stop and count), and the cut.\<close>

function section_skip :: "u8 list \<Rightarrow> u8 \<Rightarrow> nat \<Rightarrow> nat res" where
  "section_skip m delim i = (if i < length m then
     (if m ! i = delim then section_skip m delim (i + 1) else Inr i) else Inl Mem_Fault)"
  by pat_completeness auto
termination by (relation "measure (\<lambda>(m, delim, i). length m - i)") auto

declare section_skip.simps [simp del]

fun section_loop :: "nat \<Rightarrow> u8 \<Rightarrow> bool \<Rightarrow> u32 \<Rightarrow> srl_str \<Rightarrow> (u32 \<times> u32 \<times> bool) res" where
  "section_loop n delim allow_null stop_pos s =
     bindR (if allow_null then Inr stop_pos
            else bindR (section_skip (str_mem s) delim (unat (stop_pos + 1)))
                   (\<lambda>i. Inr (of_nat i - 1))) (\<lambda>stop_pos.
     let start_pos = stop_pos + 1 in
     bindR (str_find_chr delim start_pos s) (\<lambda>stop_pos.
     case n of 0 \<Rightarrow> Inr (start_pos, stop_pos, True)
     | Suc k \<Rightarrow> if stop_pos = - 1 then Inr (start_pos, stop_pos, False)
                else section_loop k delim allow_null stop_pos s))"

declare section_loop.simps [simp del]

definition section_field :: "u32 \<Rightarrow> nat" where
  "section_field field_num = (if field_num <s 0 then 0 else unat field_num)"

definition str_section_chr :: "u8 \<Rightarrow> u32 \<Rightarrow> bool \<Rightarrow> srl_str \<Rightarrow> srl_str res" where
  "str_section_chr delim field_num allow_null s =
     bindR (section_loop (section_field field_num) delim allow_null (- 1) s)
     (\<lambda>(start_pos, stop_pos, reached).
     if stop_pos = - 1 \<and> \<not> (reached \<and> \<not> field_num <s 0) then str_null
     else (let stop_pos = (if stop_pos = - 1 then s_string_length s else stop_pos)
           in str_mid start_pos (stop_pos - start_pos) s))"

fun section_str_loop :: "nat \<Rightarrow> srl_str \<Rightarrow> u32 \<Rightarrow> srl_str \<Rightarrow> (u32 \<times> u32 \<times> bool) res" where
  "section_str_loop n delim stop_pos s =
     (let start_pos = stop_pos + 1 in
     bindR (str_find delim start_pos s) (\<lambda>stop_pos.
     case n of 0 \<Rightarrow> Inr (start_pos, stop_pos, True)
     | Suc k \<Rightarrow> if stop_pos = - 1 then Inr (start_pos, stop_pos, False)
                else section_str_loop k delim stop_pos s))"

declare section_str_loop.simps [simp del]

definition str_section :: "srl_str \<Rightarrow> u32 \<Rightarrow> srl_str \<Rightarrow> srl_str res" where
  "str_section delim field_num s =
     bindR (section_str_loop (section_field field_num) delim (- 1) s)
     (\<lambda>(start_pos, stop_pos, reached).
     if stop_pos = - 1 \<and> \<not> (reached \<and> \<not> field_num <s 0) then str_null
     else bindR (c_strlen (str_mem delim)) (\<lambda>n.
       let stop_pos = (if stop_pos = - 1 then s_string_length s else stop_pos);
           start_pos = (if start_pos \<noteq> 0 then start_pos + (of_nat n - 1) else start_pos)
       in str_mid start_pos (stop_pos - start_pos) s))"


section \<open>Editing driven by a search\<close>

fun removeChar_loop :: "nat \<Rightarrow> u8 \<Rightarrow> bool \<Rightarrow> u32 \<Rightarrow> srl_str \<Rightarrow> srl_str res" where
  "removeChar_loop 0 c all npos s = (if npos <s 0 then Inr s else Inl Out_Of_Fuel)"
| "removeChar_loop (Suc fuel) c all npos s = (if npos <s 0 then Inr s else
     bindR (str_remove npos 1 s) (\<lambda>s.
     if \<not> all then Inr s else
     bindR (str_find_chr c npos s) (\<lambda>npos. removeChar_loop fuel c all npos s)))"

definition str_removeChar :: "nat \<Rightarrow> u8 \<Rightarrow> u32 \<Rightarrow> bool \<Rightarrow> srl_str \<Rightarrow> srl_str res" where
  "str_removeChar fuel c pos all s =
     bindR (str_find_chr c pos s) (\<lambda>npos. removeChar_loop fuel c all npos s)"

fun remove_cstr_loop :: "nat \<Rightarrow> u8 list \<Rightarrow> u32 \<Rightarrow> bool \<Rightarrow> u32 \<Rightarrow> srl_str \<Rightarrow> srl_str res" where
  "remove_cstr_loop 0 m len all npos s = (if npos <s 0 then Inr s else Inl Out_Of_Fuel)"
| "remove_cstr_loop (Suc fuel) m len all npos s = (if npos <s 0 then Inr s else
     bindR (str_remove npos len s) (\<lambda>s.
     if \<not> all then Inr s else
     bindR (str_find_cstr m npos s) (\<lambda>npos. remove_cstr_loop fuel m len all npos s)))"

definition str_remove_cstr :: "nat \<Rightarrow> u8 list \<Rightarrow> u32 \<Rightarrow> bool \<Rightarrow> srl_str \<Rightarrow> srl_str res" where
  "str_remove_cstr fuel m pos all s = bindR (str_find_cstr m pos s) (\<lambda>npos.
     bindR (c_strlen m) (\<lambda>n. remove_cstr_loop fuel m (of_nat n) all npos s))"

definition str_remove_str :: "nat \<Rightarrow> srl_str \<Rightarrow> u32 \<Rightarrow> bool \<Rightarrow> srl_str \<Rightarrow> srl_str res" where
  "str_remove_str fuel t pos all s = bindR (str_find t pos s) (\<lambda>npos.
     remove_cstr_loop fuel (str_mem t) (s_string_length t) all npos s)"

fun replace_cc_loop :: "nat \<Rightarrow> u8 \<Rightarrow> u8 \<Rightarrow> bool \<Rightarrow> u32 \<Rightarrow> srl_str \<Rightarrow> srl_str res" where
  "replace_cc_loop 0 c1 c2 all npos s = (if npos <s 0 then Inr s else Inl Out_Of_Fuel)"
| "replace_cc_loop (Suc fuel) c1 c2 all npos s = (if npos <s 0 then Inr s else
     bindR (str_set npos c2 s) (\<lambda>s.
     if \<not> all then Inr s else
     bindR (str_find_chr c1 npos s) (\<lambda>npos. replace_cc_loop fuel c1 c2 all npos s)))"

definition str_replace_cc :: "nat \<Rightarrow> u8 \<Rightarrow> u8 \<Rightarrow> u32 \<Rightarrow> bool \<Rightarrow> srl_str \<Rightarrow> srl_str res" where
  "str_replace_cc fuel c1 c2 pos all s =
     bindR (str_find_chr c1 pos s) (\<lambda>npos. replace_cc_loop fuel c1 c2 all npos s)"

fun replace_cs_loop :: "nat \<Rightarrow> u8 \<Rightarrow> u8 list \<Rightarrow> bool \<Rightarrow> u32 \<Rightarrow> srl_str \<Rightarrow> srl_str res" where
  "replace_cs_loop 0 c1 m all npos s = (if npos <s 0 then Inr s else Inl Out_Of_Fuel)"
| "replace_cs_loop (Suc fuel) c1 m all npos s = (if npos <s 0 then Inr s else
     bindR (str_replaceFrom npos 1 m s) (\<lambda>s.
     if \<not> all then Inr s else
     bindR (str_find_chr c1 npos s) (\<lambda>npos. replace_cs_loop fuel c1 m all npos s)))"

definition str_replace_cs :: "nat \<Rightarrow> u8 \<Rightarrow> u8 list \<Rightarrow> u32 \<Rightarrow> bool \<Rightarrow> srl_str \<Rightarrow> srl_str res" where
  "str_replace_cs fuel c1 m pos all s =
     bindR (str_find_chr c1 pos s) (\<lambda>npos. replace_cs_loop fuel c1 m all npos s)"

fun replace_ss_loop :: "nat \<Rightarrow> u8 list \<Rightarrow> u8 list \<Rightarrow> bool \<Rightarrow> u32 \<Rightarrow> srl_str \<Rightarrow> srl_str res" where
  "replace_ss_loop 0 m1 m2 all npos s = (if npos <s 0 then Inr s else Inl Out_Of_Fuel)"
| "replace_ss_loop (Suc fuel) m1 m2 all npos s = (if npos <s 0 then Inr s else
     bindR (c_strlen m1) (\<lambda>n.
     bindR (str_replaceFrom npos (of_nat n) m2 s) (\<lambda>s.
     if \<not> all then Inr s else
     bindR (str_find_cstr m1 npos s) (\<lambda>npos. replace_ss_loop fuel m1 m2 all npos s))))"

definition str_replace_ss :: "nat \<Rightarrow> u8 list \<Rightarrow> u8 list \<Rightarrow> u32 \<Rightarrow> bool \<Rightarrow> srl_str \<Rightarrow> srl_str res" where
  "str_replace_ss fuel m1 m2 pos all s =
     bindR (str_find_cstr m1 pos s) (\<lambda>npos. replace_ss_loop fuel m1 m2 all npos s)"

text \<open>The overloads that take a \<open>String\<close> where a C string is expected.\<close>

definition str_replace_c_str :: "nat \<Rightarrow> u8 \<Rightarrow> srl_str \<Rightarrow> u32 \<Rightarrow> bool \<Rightarrow> srl_str \<Rightarrow> srl_str res" where
  "str_replace_c_str fuel c1 t pos all s = str_replace_cs fuel c1 (str_mem t) pos all s"

definition str_replace_str_cs :: "nat \<Rightarrow> srl_str \<Rightarrow> u8 list \<Rightarrow> u32 \<Rightarrow> bool \<Rightarrow> srl_str \<Rightarrow> srl_str res" where
  "str_replace_str_cs fuel t m2 pos all s = str_replace_ss fuel (str_mem t) m2 pos all s"

definition str_replace_cs_str :: "nat \<Rightarrow> u8 list \<Rightarrow> srl_str \<Rightarrow> u32 \<Rightarrow> bool \<Rightarrow> srl_str \<Rightarrow> srl_str res" where
  "str_replace_cs_str fuel m1 t pos all s = str_replace_ss fuel m1 (str_mem t) pos all s"

section \<open>Comparing\<close>

fun begins_loop :: "u8 list \<Rightarrow> u8 list \<Rightarrow> bool res" where
  "begins_loop (c1 # p1) (c2 # p2) =
     (if c1 \<noteq> 0 \<and> c1 = c2 then begins_loop p1 p2 else Inr (c1 = 0))"
| "begins_loop _ _ = Inl Mem_Fault"

definition str_beginsWith :: "u8 list \<Rightarrow> srl_str \<Rightarrow> bool res" where
  "str_beginsWith m s = begins_loop m (str_mem s)"

text \<open>The backward loop of \<open>endsWith\<close>: \<open>i\<close>, \<open>j\<close> are the offsets just read.\<close>

fun ends_loop :: "u8 list \<Rightarrow> u8 list \<Rightarrow> nat \<Rightarrow> nat \<Rightarrow> nat \<Rightarrow> bool res" where
  "ends_loop p1 p2 0 i j = Inl Mem_Fault"
| "ends_loop p1 p2 (Suc counter) i j =
     bindR (blk_read p1 i) (\<lambda>c1. bindR (blk_read p2 j) (\<lambda>c2.
     if counter \<noteq> 0 \<and> c1 = c2 then ends_loop p1 p2 counter (i - 1) (j - 1)
     else Inr (counter = 0)))"

definition str_endsWith :: "u8 list \<Rightarrow> srl_str \<Rightarrow> bool res" where
  "str_endsWith m s = bindR (c_strlen m) (\<lambda>p1_len. let p2_len = unat (s_string_length s) in
     if p1_len = 0 \<or> p2_len < p1_len \<or> p2_len = 0 then Inr False
     else ends_loop m (str_mem s) p1_len (p1_len - 1) (p2_len - 1))"

fun Compare :: "bool \<Rightarrow> u8 list \<Rightarrow> u8 list \<Rightarrow> bool res" where
  "Compare ignore_case (x1 # p1) (x2 # p2) =
     (let c1 = (if ignore_case then c_toupper x1 else x1);
          c2 = (if ignore_case then c_toupper x2 else x2)
      in if c1 \<noteq> 0 \<and> c1 = c2 then Compare ignore_case p1 p2 else Inr (c1 = c2))"
| "Compare ignore_case _ _ = Inl Mem_Fault"

definition str_isEqualTo :: "srl_str \<Rightarrow> bool \<Rightarrow> srl_str \<Rightarrow> bool res" where
  "str_isEqualTo t ignore_case s = Compare ignore_case (str_mem s) (str_mem t)"

definition str_isEqualTo_cstr :: "u8 list \<Rightarrow> bool \<Rightarrow> srl_str \<Rightarrow> bool res" where
  "str_isEqualTo_cstr m ignore_case s = Compare ignore_case (str_mem s) m"

definition str_eq :: "srl_str \<Rightarrow> srl_str \<Rightarrow> bool res" where
  "str_eq s1 s2 = Compare False (str_mem s1) (str_mem s2)"

definition str_eq_cstr :: "srl_str \<Rightarrow> u8 list \<Rightarrow> bool res" where
  "str_eq_cstr s1 m = Compare False (str_mem s1) m"

definition str_ne :: "srl_str \<Rightarrow> srl_str \<Rightarrow> bool res" where
  "str_ne s1 s2 = bindR (Compare False (str_mem s1) (str_mem s2)) (\<lambda>b. Inr (\<not> b))"

text \<open>The order operators compare hash values.\<close>

definition str_lt :: "srl_str \<Rightarrow> srl_str \<Rightarrow> bool" where
  "str_lt s1 s2 = (fst (str_hash s1) < fst (str_hash s2))"

definition str_gt :: "srl_str \<Rightarrow> srl_str \<Rightarrow> bool" where
  "str_gt s1 s2 = (fst (str_hash s2) < fst (str_hash s1))"

definition str_le :: "srl_str \<Rightarrow> srl_str \<Rightarrow> bool" where
  "str_le s1 s2 = (fst (str_hash s1) \<le> fst (str_hash s2))"

definition str_ge :: "srl_str \<Rightarrow> srl_str \<Rightarrow> bool" where
  "str_ge s1 s2 = (fst (str_hash s2) \<le> fst (str_hash s1))"

text \<open>\<open>operator+\<close> on two strings and on a string and a character.\<close>

definition str_plus :: "srl_str \<Rightarrow> srl_str \<Rightarrow> srl_str res" where
  "str_plus s1 s2 = str_of_two (Some (str_mem s1)) (Some (str_mem s2))"

definition str_plus_cstr :: "srl_str \<Rightarrow> u8 list \<Rightarrow> srl_str res" where
  "str_plus_cstr s1 m = str_of_two (Some (str_mem s1)) (Some m)"

definition str_plus_char :: "srl_str \<Rightarrow> u8 \<Rightarrow> srl_str res" where
  "str_plus_char s c = str_of_two (Some (str_mem s)) (Some [c, 0])"

definition str_cstr_plus :: "u8 list \<Rightarrow> srl_str \<Rightarrow> srl_str res" where
  "str_cstr_plus m s2 = str_of_two (Some m) (Some (str_mem s2))"

definition str_char_plus :: "u8 \<Rightarrow> srl_str \<Rightarrow> srl_str res" where
  "str_char_plus c s = str_of_two (Some [c, 0]) (Some (str_mem s))"

section \<open>Facts\<close>

lemma str_find_chr_eq:
  assumes w: "str_wf s" and z: "0 \<notin> set (content s)" "c \<noteq> 0"
    and p: "unat pos \<le> unat (s_string_length s)"
  shows "str_find_chr c pos s = Inr (let t = drop (unat pos) (content s) in
    if c \<in> set t then of_nat (unat pos + length (takeWhile (\<lambda>x. x \<noteq> c) t)) else - 1)"
proof -
  obtain rest where m: "str_mem s = content s @ 0 # rest" using str_mem_wf [OF w] by blast
  have l: "unat pos \<le> length (content s)" using p length_content [OF w] by simp
  have "drop (unat pos) (str_mem s) = drop (unat pos) (content s) @ 0 # rest"
    using m l by simp
  moreover have "0 \<notin> set (drop (unat pos) (content s))" using z set_drop_subset by fastforce
  ultimately show ?thesis
    using z m l by (simp add: str_find_chr_def blk_ptr_def c_strchr_append find_result_def Let_def)
qed

lemma str_null_eq: "str_null = Inr (str_empty)"
  by (simp add: str_null_def str_of_ptr_def str_copy_def str_resize_def str_empty_def)

lemma str_mid_Inr:
  assumes w: "str_wf s" and r: "str_mid pos len s = Inr s'"
    and p: "unat pos + unat len \<le> unat (s_string_length s)" and l: "len \<noteq> 0"
  shows "str_wf s' \<and> content s' = take (unat len) (drop (unat pos) (content s))"
proof -
  have n: "unat (s_string_length s) < 2 ^ 32" by (rule unat_lt32)
  have e: "unat (pos + len) = unat pos + unat len" using p n by (intro unat_plus_small) simp
  have lm: "unat pos \<le> length (str_mem s)" using str_mem_length [OF w] p by simp
  have "str_of_ptr (Some (drop (unat pos) (str_mem s))) len = Inr s'"
    using r p e lm by (simp add: str_mid_def word_le_nat_alt blk_ptr_def)
  then have "str_wf s' \<and> content s' = take (unat len) (drop (unat pos) (str_mem s))"
    using str_of_ptr_len l by blast
  moreover have "take (unat len) (drop (unat pos) (str_mem s)) = take (unat len) (drop (unat pos) (content s))"
    using str_mem_wf [OF w] length_content [OF w] p by auto
  ultimately show ?thesis by simp
qed

lemma str_mid_ok:
  assumes w: "str_wf s" and p: "unat pos + unat len \<le> unat (s_string_length s)" and l: "len \<noteq> 0"
  shows "\<exists>s'. str_mid pos len s = Inr s' \<and> str_wf s' \<and> content s' = take (unat len) (drop (unat pos) (content s))"
proof -
  have n: "unat (s_string_length s) + 16 < 2 ^ 32" using str_wf_bound [OF w] .
  have e: "unat (pos + len) = unat pos + unat len" using p n by (intro unat_plus_small) simp
  have lm: "unat pos + unat len \<le> length (str_mem s)" using str_mem_length [OF w] p by simp
  have "max (unat len) (unat (s_min_size str_empty)) + 16 < 2 ^ 32"
    using p n by (simp add: str_empty_def)
  moreover have "unat len \<le> length (drop (unat pos) (str_mem s))" using lm by simp
  ultimately obtain s' where "str_copy (drop (unat pos) (str_mem s)) len str_empty = Inr s'"
    using str_copy_ok [OF str_shape_empty] by blast
  then have "str_mid pos len s = Inr s'"
    using p e lm l by (simp add: str_mid_def word_le_nat_alt blk_ptr_def str_of_ptr_def)
  then show ?thesis using str_mid_Inr [OF w _ p l] by blast
qed

text \<open>A length of zero yields the rest of the text.\<close>

lemma str_mid_zero:
  assumes w: "str_wf s" and z: "0 \<notin> set (content s)"
    and p: "unat pos \<le> unat (s_string_length s)"
  shows "\<exists>s'. str_mid pos 0 s = Inr s' \<and> str_wf s' \<and> content s' = drop (unat pos) (content s)"
proof -
  obtain rest where m: "str_mem s = content s @ 0 # rest" using str_mem_wf [OF w] by blast
  have lc: "length (content s) = unat (s_string_length s)" using length_content [OF w] .
  have h: "holds_cstr (drop (unat pos) (str_mem s)) (drop (unat pos) (content s))"
    using m p lc z set_drop_subset [of "unat pos" "content s"] by (auto simp: holds_cstr_def)
  have "length (drop (unat pos) (content s)) + 16 < 2 ^ 32" using str_wf_bound [OF w] lc by simp
  then obtain s' where s': "str_of_ptr (Some (drop (unat pos) (str_mem s))) 0 = Inr s'"
      "str_wf s'" "content s' = drop (unat pos) (content s)"
    using str_of_ptr_ok [OF h] by blast
  then have "str_mid pos 0 s = Inr s'"
    using p str_mem_length [OF w] by (simp add: str_mid_def word_le_nat_alt blk_ptr_def)
  then show ?thesis using s' by blast
qed

lemma Compare_cstr:
  "holds_cstr m1 xs \<Longrightarrow> holds_cstr m2 ys \<Longrightarrow> Compare False m1 m2 = Inr (xs = ys)"
proof -
  have "0 \<notin> set xs \<Longrightarrow> 0 \<notin> set ys \<Longrightarrow> Compare False (xs @ 0 # r) (ys @ 0 # q) = Inr (xs = ys)" for r q
  proof (induction xs arbitrary: ys)
    case Nil
    then show ?case by (cases ys) auto
  next
    case (Cons x xs)
    then show ?case by (cases ys) auto
  qed
  then show "holds_cstr m1 xs \<Longrightarrow> holds_cstr m2 ys \<Longrightarrow> ?thesis" by (auto simp: holds_cstr_def)
qed

lemma begins_loop_cstr:
  "holds_cstr m xs \<Longrightarrow> holds_cstr p ys \<Longrightarrow> begins_loop m p = Inr (take (length xs) ys = xs)"
proof -
  have "0 \<notin> set xs \<Longrightarrow> 0 \<notin> set ys \<Longrightarrow> begins_loop (xs @ 0 # r) (ys @ 0 # q) = Inr (take (length xs) ys = xs)" for r q
  proof (induction xs arbitrary: ys)
    case Nil
    then show ?case by (cases ys) auto
  next
    case (Cons x xs)
    then show ?case by (cases ys) auto
  qed
  then show "holds_cstr m xs \<Longrightarrow> holds_cstr p ys \<Longrightarrow> ?thesis" by (auto simp: holds_cstr_def)
qed


lemma ends_loop_eq:
  "Suc k \<le> length p1 \<Longrightarrow> b + Suc k \<le> length p2 \<Longrightarrow>
   ends_loop p1 p2 (Suc k) k (b + k) = Inr (\<forall>i < k. p1 ! Suc i = p2 ! (b + Suc i))"
proof (induction k)
  case 0
  then show ?case by (auto simp: blk_read_def)
next
  case (Suc k)
  then show ?case by (auto simp: blk_simps All_less_Suc)
qed

lemma str_endsWith_eq:
  assumes w: "str_wf s" and m: "holds_cstr m xs" and l: "xs \<noteq> []" "length xs \<le> length (content s)"
  shows "str_endsWith m s = Inr (drop (length (content s) - length xs + 1) (content s) = tl xs)"
proof -
  let ?n = "length (content s)" and ?k = "length xs"
  have n: "unat (s_string_length s) = ?n" using length_content [OF w] by simp
  obtain r where mr: "m = xs @ 0 # r" using m by (auto simp: holds_cstr_def)
  obtain q where q: "str_mem s = content s @ 0 # q" using str_mem_wf [OF w] by blast
  obtain k where k: "?k = Suc k" using l by (cases xs) auto
  have a: "(?n - ?k) + k = ?n - 1" using k l by simp
  have "ends_loop m (str_mem s) (Suc k) k ((?n - ?k) + k)
      = Inr (\<forall>i < k. m ! Suc i = str_mem s ! (?n - ?k + Suc i))"
    using k l mr q by (intro ends_loop_eq) auto
  also have "(\<forall>i < k. m ! Suc i = str_mem s ! (?n - ?k + Suc i))
      \<longleftrightarrow> drop (?n - ?k + 1) (content s) = tl xs"
    using k l mr q by (auto simp: list_eq_iff_nth_eq nth_tl nth_append)
  moreover have "content s \<noteq> []" using l by auto
  ultimately show ?thesis
    using l k n a by (simp add: str_endsWith_def c_strlen_cstr [OF m] Let_def)
qed

lemma nat_i32_sign: "n < 2 ^ 31 \<Longrightarrow> \<not> (of_nat n :: u32) <s 0"
  by (simp add: nonneg_i32)

lemma removeChar_loop_ok:
  assumes "str_wf s" "0 \<notin> set (content s)" "c \<noteq> 0" "unat (s_string_length s) < 2 ^ 31"
    "unat p \<le> unat (s_string_length s)" "length (filter (\<lambda>x. x = c) (drop (unat p) (content s))) \<le> fuel"
  shows "\<exists>s'. bindR (str_find_chr c p s) (\<lambda>npos. removeChar_loop fuel c True npos s) = Inr s'
    \<and> str_wf s' \<and> content s' = take (unat p) (content s) @ filter (\<lambda>x. x \<noteq> c) (drop (unat p) (content s))"
  using assms
proof (induction fuel arbitrary: s p)
  case (0 s p)
  then have n: "c \<notin> set (drop (unat p) (content s))" by (auto simp: filter_empty_conv)
  then have "filter (\<lambda>x. x \<noteq> c) (drop (unat p) (content s)) = drop (unat p) (content s)"
    by (auto intro: filter_True)
  then show ?case using 0 n by (simp add: str_find_chr_eq)
next
  case (Suc fuel s p)
  let ?C = "content s" and ?n = "unat (s_string_length s)"
  let ?t = "drop (unat p) ?C"
  have lc: "length ?C = ?n" using length_content [OF Suc.prems(1)] .
  show ?case
  proof (cases "c \<in> set ?t")
    case False
    then have "filter (\<lambda>x. x \<noteq> c) ?t = ?t" by (auto intro: filter_True)
    then show ?thesis using Suc.prems False by (simp add: str_find_chr_eq)
  next
    case True
    define k where "k = length (takeWhile (\<lambda>x. x \<noteq> c) ?t)"
    have t: "?t = take k ?t @ c # drop (Suc k) ?t" "k < length ?t" "c \<notin> set (take k ?t)"
    proof -
      show kl: "k < length ?t" unfolding k_def using True by (rule length_takeWhile_neq)
      have "?t ! k = c" unfolding k_def using nth_length_takeWhile [of "\<lambda>x. x \<noteq> c" ?t] kl k_def by blast
      then show "?t = take k ?t @ c # drop (Suc k) ?t" using id_take_nth_drop [OF kl] by (rule subst)
      have "take k ?t = takeWhile (\<lambda>x. x \<noteq> c) ?t" unfolding k_def by (rule takeWhile_eq_take [symmetric])
      then show "c \<notin> set (take k ?t)" by (metis (mono_tags) set_takeWhileD)
    qed
    define q :: u32 where "q = of_nat (unat p + k)"
    have qn: "unat p + k < ?n" using t(2) lc by simp
    have u: "unat q = unat p + k"
      unfolding q_def using qn Suc.prems(4) by (intro unat_of_nat_small) simp
    have f: "str_find_chr c p s = Inr q"
      using Suc.prems True by (simp add: str_find_chr_eq k_def q_def)
    obtain s1 where s1: "str_remove q 1 s = Inr s1"
      using str_remove_ok [OF Suc.prems(1), of q 1] u qn by auto
    have w1: "str_wf s1" using str_remove_wf [OF Suc.prems(1) s1] .
    have c1: "content s1 = take (unat p + k) ?C @ drop (unat p + k + 1) ?C"
      using str_remove_content [OF Suc.prems(1) s1] u qn Suc.prems(4) by simp
    have l1: "unat (s_string_length s1) = ?n - 1"
      using length_content [OF w1] c1 qn lc by simp
    have d1: "drop (unat p + k) (content s1) = drop (Suc k) ?t"
      using c1 qn lc by (simp add: add.commute add.left_commute)
    have flt: "filter (\<lambda>x. x = c) ?t = c # filter (\<lambda>x. x = c) (drop (Suc k) ?t)"
      "filter (\<lambda>x. x \<noteq> c) ?t = take k ?t @ filter (\<lambda>x. x \<noteq> c) (drop (Suc k) ?t)"
    proof -
      have a: "filter (\<lambda>x. x = c) (take k ?t) = []" using t(3) by (auto simp: filter_empty_conv)
      have b: "filter (\<lambda>x. x \<noteq> c) (take k ?t) = take k ?t" using t(3) by (intro filter_True) auto
      show "filter (\<lambda>x. x = c) ?t = c # filter (\<lambda>x. x = c) (drop (Suc k) ?t)"
        using arg_cong [OF t(1), of "filter (\<lambda>x. x = c)"] a by simp
      show "filter (\<lambda>x. x \<noteq> c) ?t = take k ?t @ filter (\<lambda>x. x \<noteq> c) (drop (Suc k) ?t)"
        using arg_cong [OF t(1), of "filter (\<lambda>x. x \<noteq> c)"] b by simp
    qed
    have z1: "0 \<notin> set (content s1)"
      using Suc.prems(2) c1 by (auto dest: in_set_takeD in_set_dropD)
    have "\<exists>s'. bindR (str_find_chr c q s1) (\<lambda>npos. removeChar_loop fuel c True npos s1) = Inr s'
      \<and> str_wf s' \<and> content s' = take (unat q) (content s1) @ filter (\<lambda>x. x \<noteq> c) (drop (unat q) (content s1))"
      using w1 z1 Suc.prems(3,4,6) u l1 qn d1 flt(1) by (intro Suc.IH) auto
    then obtain s' where s': "bindR (str_find_chr c q s1) (\<lambda>npos. removeChar_loop fuel c True npos s1) = Inr s'"
      "str_wf s'" "content s' = take (unat p + k) (content s1) @ filter (\<lambda>x. x \<noteq> c) (drop (Suc k) ?t)"
      using d1 u by auto
    have "take (unat p + k) (content s1) = take (unat p) ?C @ take k ?t"
      using c1 qn lc by (simp add: take_add)
    moreover have "\<not> q <s 0" using qn Suc.prems(4) u by (simp add: nonneg_i32)
    ultimately show ?thesis using f s1 s' flt(2) by auto
  qed
qed

end
