(* ===== verification/Str_Conv.thy ===== *)
theory Str_Conv
  imports Str_Search
begin

text \<open>
  The static character predicates and conversions of \<open>SRL::String\<close> (src/String.cpp):
  numbers to text (Val) and back (Int, UInt, Long, ULong over the C library's strtol
  and strtoul), hexadecimal bytes, bit strings, escape and unescape.
  A result that the code builds with \<open>+=\<close> is the list of its bytes; appending a NUL
  byte has no effect there (\<open>str_push_Inr\<close>).
\<close>

unbundle bit_operations_syntax

section \<open>Character predicates\<close>

text \<open>The argument is a signed \<open>char\<close>.\<close>

definition IsDigit :: "u8 \<Rightarrow> bool" where
  "IsDigit c = (48 \<le>s c \<and> c \<le>s 57)"

definition IsAThruZ :: "u8 \<Rightarrow> bool" where
  "IsAThruZ c = ((97 \<le>s c \<and> c \<le>s 122) \<or> (65 \<le>s c \<and> c \<le>s 90))"

definition IsWhiteSpace :: "u8 \<Rightarrow> bool" where
  "IsWhiteSpace c = (c = 13 \<or> c = 10 \<or> c = 9)"

definition IsValidHex :: "u8 \<Rightarrow> bool" where
  "IsValidHex c = ((48 \<le>s c \<and> c \<le>s 57) \<or> (97 \<le>s c \<and> 102 \<le>s c) \<or> (65 \<le>s c \<and> 70 \<le>s c))"

section \<open>Hexadecimal\<close>

definition HEX :: "u8 list" where
  "HEX = lit ''0123456789ABCDEF''"

definition push_byte :: "u8 list \<Rightarrow> u8 \<Rightarrow> u8 list" where
  "push_byte xs c = (if c = 0 then xs else xs @ [c])"

definition Hex :: "u8 \<Rightarrow> u8 list \<Rightarrow> u8 list" where
  "Hex c out = push_byte (push_byte out (HEX ! unat (drop_bit 4 c))) (HEX ! unat (c AND 15))"

definition UnHex1 :: "u8 \<Rightarrow> u8 option" where
  "UnHex1 c = (if 97 \<le>s c \<and> c \<le>s 102 then Some (c - 97 + 10)
     else if 65 \<le>s c \<and> c \<le>s 70 then Some (c - 65 + 10)
     else if 48 \<le>s c \<and> c \<le>s 57 then Some (c - 48)
     else None)"

definition UnHex :: "u8 \<Rightarrow> u8 \<Rightarrow> u8" where
  "UnHex hex1 hex2 = (case UnHex1 hex1 of None \<Rightarrow> 0
     | Some u1 \<Rightarrow> (case UnHex1 hex2 of None \<Rightarrow> 0 | Some u2 \<Rightarrow> u1 * 16 + u2))"

section \<open>Numbers to text\<close>

text \<open>The digit loop of \<open>Val\<close>; \<open>p\<close> counts the bytes of \<open>buf\<close> before the pointer.\<close>

fun val_loop :: "'a::len word \<Rightarrow> 'a word \<Rightarrow> nat \<Rightarrow> u8 list \<Rightarrow> (nat \<times> u8 list) res" where
  "val_loop nn base 0 buf = Inl Mem_Fault"
| "val_loop nn base (Suc p) buf =
     bindR (blk_write buf p (HEX ! unat (nn mod base))) (\<lambda>buf.
     let nn = nn div base in if nn \<noteq> 0 then val_loop nn base p buf else Inr (p, buf))"

text \<open>The array \<open>buf\<close> with \<open>*p = 0\<close> already written, the optional sign, and the result.\<close>

definition val_buf :: "u8 list" where
  "val_buf = map malloc_byte [0..<33] @ [0]"

definition val_finish :: "bool \<Rightarrow> nat \<times> u8 list \<Rightarrow> u8 list res" where
  "val_finish neg = (\<lambda>(p, buf).
     bindR (if neg then (if p = 0 then Inl Mem_Fault else
              bindR (blk_write buf (p - 1) 45) (\<lambda>b. Inr (p - 1, b))) else Inr (p, buf))
       (\<lambda>(p, buf). blk_slice buf p (33 - p)))"

definition Val_int32 :: "u32 \<Rightarrow> u32 \<Rightarrow> u8 list res" where
  "Val_int32 num base = (if base <s 2 \<or> 16 <s base then Inr [] else
     (let nn = (if num <s 0 then NOT num + 1 else num)
      in bindR (val_loop nn base 33 val_buf) (val_finish (num <s 0))))"

definition Val_uint32 :: "u32 \<Rightarrow> u32 \<Rightarrow> u8 list res" where
  "Val_uint32 num base = (if base <s 2 \<or> 16 <s base then Inr [] else
     bindR (val_loop num base 33 val_buf) (val_finish False))"

definition Val_int64 :: "u64 \<Rightarrow> u32 \<Rightarrow> u8 list res" where
  "Val_int64 num base = (if base <s 2 \<or> 16 <s base then Inr [] else
     (let nn = (if num <s 0 then ucast ((ucast (NOT num) :: u32) + 1) else num)
      in bindR (val_loop nn (scast base) 33 val_buf) (val_finish (num <s 0))))"

definition Val_uint64 :: "u64 \<Rightarrow> u32 \<Rightarrow> u8 list res" where
  "Val_uint64 num base = (if base <s 2 \<or> 16 <s base then Inr [] else
     bindR (val_loop num (scast base) 33 val_buf) (val_finish False))"

section \<open>Text to numbers\<close>

text \<open>The C library's \<open>strtol\<close> and \<open>strtoul\<close> for a 64-bit \<open>long\<close>: white space, a sign, the
  optional prefix 0x, then digits; saturation on overflow. Base 0 reads the prefix.\<close>

definition digit_val :: "u8 \<Rightarrow> nat option" where
  "digit_val c = (if 48 \<le> c \<and> c \<le> 57 then Some (unat (c - 48))
     else if 65 \<le> c \<and> c \<le> 90 then Some (unat (c - 65) + 10)
     else if 97 \<le> c \<and> c \<le> 122 then Some (unat (c - 97) + 10) else None)"

fun strto_digits :: "nat \<Rightarrow> u8 list \<Rightarrow> nat \<Rightarrow> nat res" where
  "strto_digits base [] acc = Inl Mem_Fault"
| "strto_digits base (c # r) acc = (case digit_val c of None \<Rightarrow> Inr acc
     | Some d \<Rightarrow> if d < base then strto_digits base r (acc * base + d) else Inr acc)"

fun skip_space :: "u8 list \<Rightarrow> u8 list" where
  "skip_space [] = []"
| "skip_space (c # r) = (if c_isspace c then skip_space r else c # r)"

definition strto_sign :: "u8 list \<Rightarrow> bool \<times> u8 list" where
  "strto_sign m = (case m of [] \<Rightarrow> (False, [])
     | c # r \<Rightarrow> if c = 45 then (True, r) else if c = 43 then (False, r) else (False, m))"

text \<open>A prefix 0x counts only when a hexadecimal digit follows it.\<close>

definition strto_prefix :: "nat \<Rightarrow> u8 list \<Rightarrow> nat \<times> u8 list" where
  "strto_prefix base m =
     (let hexpre = (case m of c # x # d # r \<Rightarrow> c = 48 \<and> (x = 120 \<or> x = 88) \<and> c_isxdigit d
       | _ \<Rightarrow> False)
      in if base = 16 then (16, if hexpre then drop 2 m else m)
         else if base = 0 then
           (if hexpre then (16, drop 2 m)
            else if m \<noteq> [] \<and> hd m = 48 then (8, m) else (10, m))
         else (base, m))"

definition strto_parse :: "u8 list \<Rightarrow> nat \<Rightarrow> (bool \<times> nat) res" where
  "strto_parse m base = (if base = 1 \<or> 36 < base then Inr (False, 0) else
     (let (neg, m) = strto_sign (skip_space m); (b, m) = strto_prefix base m
      in bindR (strto_digits b m 0) (\<lambda>v. Inr (neg, v))))"

definition c_strtol :: "u8 list \<Rightarrow> nat \<Rightarrow> u64 res" where
  "c_strtol m base = bindR (strto_parse m base) (\<lambda>(neg, v). Inr (
     if neg then (if 2 ^ 63 < v then of_int (- (2 ^ 63)) else - of_nat v)
     else (if 2 ^ 63 \<le> v then of_int (2 ^ 63 - 1) else of_nat v)))"

definition c_strtoul :: "u8 list \<Rightarrow> nat \<Rightarrow> u64 res" where
  "c_strtoul m base = bindR (strto_parse m base) (\<lambda>(neg, v). Inr (
     if 2 ^ 64 \<le> v then - 1 else if neg then - of_nat v else of_nat v))"

text \<open>A negative base is invalid like base 1.\<close>

definition base_nat :: "u32 \<Rightarrow> nat" where
  "base_nat base = (if base <s 0 then 1 else unat base)"

definition str_Int :: "u8 list \<Rightarrow> u32 \<Rightarrow> u32 res" where
  "str_Int m base = bindR (c_strtol m (base_nat base)) (\<lambda>v. Inr (ucast v))"

definition str_UInt :: "u8 list \<Rightarrow> u32 \<Rightarrow> u32 res" where
  "str_UInt m base = bindR (c_strtoul m (base_nat base)) (\<lambda>v. Inr (ucast v))"

definition str_Long :: "u8 list \<Rightarrow> u32 \<Rightarrow> u64 res" where
  "str_Long m base = c_strtol m (base_nat base)"

definition str_ULong :: "u8 list \<Rightarrow> u32 \<Rightarrow> u64 res" where
  "str_ULong m base = c_strtoul m (base_nat base)"

section \<open>escape and unescape\<close>

definition escape_char :: "u8 \<Rightarrow> u8 list" where
  "escape_char c =
     (if c = 10 then lit [CHR 0x5C, CHR ''n'']
      else if c = 13 then lit [CHR 0x5C, CHR ''r'']
      else if c = 8 then lit [CHR 0x5C, CHR ''b'']
      else if c = 11 then lit [CHR 0x5C, CHR ''v'']
      else if c = 7 then lit [CHR 0x5C, CHR ''a'']
      else if c = 12 then lit [CHR 0x5C, CHR ''f'']
      else if c = 9 then lit [CHR 0x5C, CHR ''t'']
      else if c = 92 then lit [CHR 0x5C, CHR 0x5C]
      else if c = 34 then lit [CHR 0x5C, CHR 0x22]
      else if c = 39 then lit [CHR 0x5C, CHR 0x27]
      else if c < 0x20 \<or> 0x7f < c
        then lit [CHR 0x5C, CHR ''x''] @ [HEX ! unat (drop_bit 4 c), HEX ! unat (c AND 15)]
      else push_byte [] c)"

definition escape :: "u8 list \<Rightarrow> u8 list" where
  "escape xs = foldl (\<lambda>out c. out @ escape_char c) [] xs"

definition hexval :: "u8 \<Rightarrow> u32" where
  "hexval c = (if 97 \<le> c then ucast c - 97 + 10 else if 65 \<le> c then ucast c - 65 + 10 else ucast c - 48)"

definition is_octal :: "u8 \<Rightarrow> bool" where
  "is_octal c = (48 \<le> c \<and> c \<le> 55)"

text \<open>The escapes with a fixed meaning; other characters stand for themselves.\<close>

definition unescape_simple :: "u8 \<Rightarrow> u8" where
  "unescape_simple c =
     (if c = 110 then 10 else if c = 114 then 13 else if c = 98 then 8 else if c = 118 then 11
      else if c = 97 then 7 else if c = 102 then 12 else if c = 116 then 9 else c)"

text \<open>The \<open>p+1\<close>-st byte of a string that ends here is its terminator.\<close>

definition peek :: "u8 list \<Rightarrow> u8" where
  "peek xs = (case xs of [] \<Rightarrow> 0 | x # _ \<Rightarrow> x)"

function unescape_loop :: "u8 list \<Rightarrow> u8 list \<Rightarrow> u8 list" where
  "unescape_loop [] result = result"
| "unescape_loop (c # xs) result =
     (if c \<noteq> 92 then unescape_loop xs (push_byte result c)
      else case xs of [] \<Rightarrow> result
        | c # xs \<Rightarrow>
          if c = 120 then
            (if c_isxdigit (peek xs) then
               (let v = hexval (peek xs); xs = tl xs in
                if c_isxdigit (peek xs)
                then unescape_loop (tl xs) (push_byte result (ucast (v * 16 + hexval (peek xs))))
                else unescape_loop xs (push_byte result (ucast v)))
             else unescape_loop xs (push_byte result 120))
          else if is_octal c then
            (let v = ucast c - (48 :: u32) in
             if is_octal (peek xs) then
               (let v = push_bit 3 v + ucast (peek xs) - 48; xs = tl xs in
                if is_octal (peek xs)
                then unescape_loop (tl xs) (push_byte result (ucast (push_bit 3 v + ucast (peek xs) - 48)))
                else unescape_loop xs (push_byte result (ucast v)))
             else unescape_loop xs (push_byte result (ucast v)))
          else unescape_loop xs (push_byte result (unescape_simple c)))"
  by pat_completeness auto
termination by (relation "measure (\<lambda>(xs, result). length xs)") auto

declare unescape_loop.simps(2) [simp del]

definition unescape :: "u8 list \<Rightarrow> u8 list" where
  "unescape xs = unescape_loop xs []"

section \<open>Bit strings\<close>

definition Bits_byte :: "u8 \<Rightarrow> u8 list" where
  "Bits_byte num = map (\<lambda>bitcount. HEX ! unat (drop_bit bitcount num AND 1)) (rev [0..<8])"

text \<open>The wider overloads print the bytes from the low one to the high one.\<close>

definition Bits_int16 :: "u16 \<Rightarrow> u8 list" where
  "Bits_int16 num = concat (map (\<lambda>b. Bits_byte (ucast (signed_drop_bit b num))) [0, 8])"

definition Bits_int32 :: "u32 \<Rightarrow> u8 list" where
  "Bits_int32 num = concat (map (\<lambda>b. Bits_byte (ucast (signed_drop_bit b num))) [0, 8, 16, 24])"

definition Bits_int64 :: "u64 \<Rightarrow> u8 list" where
  "Bits_int64 num = concat (map (\<lambda>b. Bits_byte (ucast (signed_drop_bit b num)))
     [0, 8, 16, 24, 32, 40, 48, 56])"


section \<open>Facts on hexadecimal\<close>

lemma all_less_16: "(\<forall>n < 16. P n) \<longleftrightarrow>
   P 0 \<and> P 1 \<and> P 2 \<and> P 3 \<and> P 4 \<and> P 5 \<and> P 6 \<and> P 7 \<and> P 8 \<and> P 9 \<and> P 10 \<and> P 11 \<and> P 12 \<and> P 13
   \<and> P 14 \<and> P (15 :: nat)"
  by (simp add: numeral_eq_Suc All_less_Suc2)

lemma HEX_bytes: "HEX = [48, 49, 50, 51, 52, 53, 54, 55, 56, 57, 65, 66, 67, 68, 69, 70]"
  by (simp add: HEX_def lit_def)

lemma HEX_nz: "n < 16 \<Longrightarrow> HEX ! n \<noteq> 0"
proof -
  have "\<forall>n < 16. HEX ! n \<noteq> 0" by (simp add: all_less_16 HEX_bytes)
  then show "n < 16 \<Longrightarrow> ?thesis" by blast
qed

lemma UnHex1_HEX: "n < 16 \<Longrightarrow> UnHex1 (HEX ! n) = Some (of_nat n)"
proof -
  have "\<forall>n < 16. UnHex1 (HEX ! n) = Some (of_nat n)"
    by (simp add: all_less_16 HEX_bytes UnHex1_def word_sle_eq)
  then show "n < 16 \<Longrightarrow> ?thesis" by blast
qed

lemma nibbles:
  "unat (drop_bit 4 (c :: u8)) = unat c div 16" "unat (c AND 15) = unat c mod 16"
proof -
  show "unat (drop_bit 4 c) = unat c div 16" by (simp add: drop_bit_eq_div unat_div)
  have "c AND 15 = take_bit 4 c" by (simp add: take_bit_eq_mask mask_eq_exp_minus_1)
  then show "unat (c AND 15) = unat c mod 16" by (simp add: take_bit_eq_mod unat_mod)
qed

lemma unat_lt8: "unat (x :: u8) < 256"
  using unsigned_less [of x, where 'a = nat] by simp

lemma UnHex_nibbles:
  "UnHex (HEX ! unat (drop_bit 4 c)) (HEX ! unat (c AND 15)) = c"
proof -
  have d: "unat c div 16 < 16" using unat_lt8 [of c] by (simp add: less_mult_imp_div_less)
  have "of_nat (unat c div 16) * 16 + of_nat (unat c mod 16) = (of_nat (unat c div 16 * 16 + unat c mod 16) :: u8)"
    by (simp only: of_nat_add of_nat_mult of_nat_numeral)
  also have "\<dots> = c" by simp
  finally show ?thesis
    using UnHex1_HEX [of "unat c div 16"] UnHex1_HEX [of "unat c mod 16"] d
    by (simp only: UnHex_def nibbles option.case mod_less_divisor zero_less_numeral)
qed

lemma Hex_eq: "Hex c out = out @ [HEX ! unat (drop_bit 4 c), HEX ! unat (c AND 15)]"
proof -
  have "unat c div 16 < 16" using unat_lt8 [of c] by (simp add: less_mult_imp_div_less)
  then show ?thesis
    using HEX_nz [of "unat c div 16"] HEX_nz [of "unat c mod 16"]
    by (simp add: Hex_def push_byte_def nibbles)
qed


section \<open>Facts on Val and Int\<close>

function hexdigits :: "nat \<Rightarrow> nat \<Rightarrow> u8 list" where
  "hexdigits b n = (if b < 2 \<or> n < b then [HEX ! n] else hexdigits b (n div b) @ [HEX ! (n mod b)])"
  by pat_completeness auto
termination by (relation "measure snd") (auto simp: div_less_dividend)

declare hexdigits.simps [simp del]

lemma hexdigits_less: "n < b \<Longrightarrow> hexdigits b n = [HEX ! n]"
  by (simp add: hexdigits.simps)

lemma hexdigits_step: "2 \<le> b \<Longrightarrow> b \<le> n \<Longrightarrow> hexdigits b n = hexdigits b (n div b) @ [HEX ! (n mod b)]"
  by (subst hexdigits.simps) auto

lemma hexdigits_length:
  "2 \<le> b \<Longrightarrow> n < b ^ k \<Longrightarrow> 0 < k \<Longrightarrow> length (hexdigits b n) \<le> k"
proof (induction k arbitrary: n)
  case (Suc k)
  show ?case
  proof (cases "n < b")
    case False
    then have "n div b < b ^ k" using Suc.prems by (simp add: less_mult_imp_div_less mult.commute)
    moreover have "0 < k" using False Suc.prems by (cases k) auto
    ultimately show ?thesis using Suc.IH [of "n div b"] Suc.prems False by (simp add: hexdigits_step)
  qed (simp add: hexdigits_less)
qed simp

lemma hexdigits_length_gt:
  "2 \<le> b \<Longrightarrow> b ^ k \<le> n \<Longrightarrow> k < length (hexdigits b n)"
proof (induction k arbitrary: n)
  case 0
  then show ?case by (subst hexdigits.simps) auto
next
  case (Suc k)
  have "b * b ^ k \<le> n" using Suc.prems by simp
  then have d: "b ^ k \<le> n div b" using Suc.prems by (simp add: less_eq_div_iff_mult_less_eq mult.commute)
  have "b * 1 \<le> b * b ^ k" using Suc.prems by (intro mult_le_mono) auto
  then have "b \<le> b * b ^ k" by (simp only: mult_1_right)
  from this \<open>b * b ^ k \<le> n\<close> have "b \<le> n" by (rule le_trans)
  then show ?case using Suc.IH [OF Suc.prems(1) d] Suc.prems(1) by (simp add: hexdigits_step)
qed

lemma val_loop_eq:
  assumes b: "unat base = b" "2 \<le> b"
  shows "length (hexdigits b (unat nn)) \<le> p \<Longrightarrow> p \<le> length buf \<Longrightarrow>
    val_loop nn base p buf = Inr (p - length (hexdigits b (unat nn)),
      take (p - length (hexdigits b (unat nn))) buf @ hexdigits b (unat nn) @ drop p buf)"
proof (induction p arbitrary: nn buf)
  case 0
  then show ?case by (subst (asm) hexdigits.simps) (auto split: if_splits)
next
  case (Suc p)
  have m: "unat (nn mod base) = unat nn mod b" "unat (nn div base) = unat nn div b"
    using b by (simp_all add: unat_mod unat_div)
  show ?case
  proof (cases "unat nn < b")
    case True
    then have "nn div base = 0" using m by (metis div_less unat_eq_zero)
    then show ?thesis using True Suc.prems m
      by (simp add: hexdigits_less blk_simps Let_def upd_conv_take_nth_drop)
  next
    case False
    then have "unat (nn div base) \<noteq> 0" using m b by (simp add: div_greater_zero_iff)
    then have nz: "nn div base \<noteq> 0" by auto
    have h: "hexdigits b (unat nn) = hexdigits b (unat (nn div base)) @ [HEX ! (unat nn mod b)]"
      using False b m by (simp add: hexdigits_step)
    have "val_loop (nn div base) base p (buf[p := HEX ! (unat nn mod b)])
      = Inr (p - length (hexdigits b (unat (nn div base))),
        take (p - length (hexdigits b (unat (nn div base)))) (buf[p := HEX ! (unat nn mod b)])
        @ hexdigits b (unat (nn div base)) @ drop p (buf[p := HEX ! (unat nn mod b)]))"
      using Suc.prems h by (intro Suc.IH) auto
    moreover have "drop p (buf[p := HEX ! (unat nn mod b)]) = HEX ! (unat nn mod b) # drop (Suc p) buf"
      using Suc.prems by (simp add: upd_conv_take_nth_drop)
    ultimately show ?thesis
      using Suc.prems nz m h by (simp add: blk_simps Let_def)
  qed
qed

lemma val_loop_fault:
  assumes b: "unat base = b" "2 \<le> b"
  shows "p < length (hexdigits b (unat nn)) \<Longrightarrow> p \<le> length buf \<Longrightarrow>
    val_loop nn base p buf = Inl Mem_Fault"
proof (induction p arbitrary: nn buf)
  case (Suc p)
  have m: "unat (nn div base) = unat nn div b"
    using b by (simp add: unat_div)
  have ge: "b \<le> unat nn" using Suc.prems by (cases "unat nn < b") (auto simp: hexdigits_less)
  then have "unat (nn div base) \<noteq> 0" using m b by (simp add: div_greater_zero_iff)
  then have nz: "nn div base \<noteq> 0" by auto
  have "p < length (hexdigits b (unat (nn div base)))"
    using Suc.prems ge b m by (simp add: hexdigits_step)
  then show ?case using Suc nz by (simp add: blk_simps Let_def)
qed simp

text \<open>Reading the digits back.\<close>

lemma digit_val_HEX: "n < 16 \<Longrightarrow> digit_val (HEX ! n) = Some n"
proof -
  have "\<forall>n < 16. digit_val (HEX ! n) = Some n"
    by (simp add: all_less_16 HEX_bytes digit_val_def)
  then show "n < 16 \<Longrightarrow> ?thesis" by blast
qed

lemma strto_digits_append:
  "2 \<le> b \<Longrightarrow> b \<le> 16 \<Longrightarrow>
   strto_digits b (hexdigits b n @ m) acc = strto_digits b m (acc * b ^ length (hexdigits b n) + n)"
proof (induction b n arbitrary: m acc rule: hexdigits.induct)
  case (1 b n)
  show ?case
  proof (cases "n < b")
    case True
    then show ?thesis using 1 by (simp add: hexdigits_less digit_val_HEX)
  next
    case False
    have e: "n mod b < b" using 1 by simp
    have "strto_digits b (hexdigits b n @ m) acc
        = strto_digits b ((HEX ! (n mod b)) # m) (acc * b ^ length (hexdigits b (n div b)) + n div b)"
      using 1 False by (simp add: hexdigits_step)
    also have "\<dots> = strto_digits b m ((acc * b ^ length (hexdigits b (n div b)) + n div b) * b + n mod b)"
    proof -
      have "n mod b < 16" using e 1 by linarith
      then show ?thesis using e by (simp add: digit_val_HEX)
    qed
    also have "(acc * b ^ length (hexdigits b (n div b)) + n div b) * b + n mod b
        = acc * b ^ length (hexdigits b n) + n"
      using 1 False by (simp add: hexdigits_step algebra_simps)
    finally show ?thesis .
  qed
qed

lemma hexdigits_chars: "2 \<le> b \<Longrightarrow> b \<le> 16 \<Longrightarrow> set (hexdigits b n) \<subseteq> (\<lambda>i. HEX ! i) ` {..<16}"
proof (induction b n rule: hexdigits.induct)
  case (1 b n)
  have "n mod b < 16" using 1 by (meson less_le_trans mod_less_divisor zero_less_numeral order_less_le_trans)
  then show ?case using 1 by (cases "n < b") (auto simp: hexdigits_less hexdigits_step)
qed

lemma hexdigits_ne: "hexdigits b n \<noteq> []"
  by (subst hexdigits.simps) auto


lemma base_ok:
  assumes "2 \<le> unat base" "unat base \<le> 16"
  shows "\<not> (base :: u32) <s 2" "\<not> 16 <s base" "\<not> base <s 0" "base_nat base = unat base"
proof -
  have s: "sint base = int (unat base)" using assms by (intro sint_nat) simp
  have r: "2 \<le> sint base \<and> sint base \<le> 16" using assms unfolding s by linarith
  then show "\<not> base <s 2" "\<not> 16 <s base" by (simp_all add: word_sless_alt)
  show "\<not> base <s 0" using r by (simp add: word_sless_alt)
  then show "base_nat base = unat base" by (simp add: base_nat_def)
qed

lemma length_val_buf [simp]: "length val_buf = 34"
  by (simp add: val_buf_def)

lemma drop_val_buf: "drop 33 val_buf = [0]"
  by (simp add: val_buf_def)

text \<open>What the digit loop leaves for the result: an optional sign and the digits.\<close>

lemma val_result:
  assumes b: "unat base = b" "2 \<le> b" and l: "length (hexdigits b (unat nn)) < 33"
  shows "bindR (val_loop nn base 33 val_buf) (val_finish neg)
    = Inr ((if neg then [45] else []) @ hexdigits b (unat nn))"
proof -
  let ?d = "hexdigits b (unat nn)"
  let ?p = "33 - length ?d"
  let ?buf = "take ?p val_buf @ ?d @ [0]"
  have v: "val_loop nn base 33 val_buf = Inr (?p, ?buf)"
    using val_loop_eq [OF b, of nn 33 val_buf] l by (simp add: drop_val_buf)
  obtain q where q: "?p = Suc q" using l by (cases ?p) auto
  have lq: "length ?d = 32 - q" "q \<le> 32" using q by auto
  have e33: "33 - q = Suc (length ?d)" using lq by simp
  have bq: "?buf[q := 45] = take q val_buf @ 45 # ?d @ [0]"
    using lq q by (simp add: take_Suc_conv_app_nth list_update_append)
  show ?thesis
  proof (cases neg)
    case True
    then show ?thesis
      using v q lq bq e33 by (simp add: val_finish_def blk_write_def blk_slice_def)
  next
    case False
    then show ?thesis
      using v q lq by (simp add: val_finish_def blk_slice_def)
  qed
qed

lemma HEX_not_space:
  "\<forall>n < 16. \<not> c_isspace (HEX ! n) \<and> HEX ! n \<noteq> 45 \<and> HEX ! n \<noteq> 43 \<and> HEX ! n \<noteq> 120 \<and> HEX ! n \<noteq> 88 \<and> HEX ! n \<noteq> 0"
  by (simp add: all_less_16 HEX_bytes c_isspace_def)

lemma strto_parse_digits:
  assumes b: "2 \<le> b" "b \<le> 16"
  shows "strto_parse ((if neg then [45] else []) @ hexdigits b n @ 0 # r) b = Inr (neg, n)"
proof -
  let ?d = "hexdigits b n"
  obtain x xs where d: "?d = x # xs" using hexdigits_ne by (cases ?d) auto
  have ch: "set ?d \<subseteq> (\<lambda>i. HEX ! i) ` {..<16}" using hexdigits_chars [OF b] .
  then obtain i where x: "x = HEX ! i" "i < 16" using d by auto
  have x': "\<not> c_isspace x" "x \<noteq> 45" "x \<noteq> 43" using HEX_not_space x by auto
  have m: "\<not> c_isspace 45" by (simp add: c_isspace_def)
  have sg: "strto_sign (skip_space ((if neg then [45] else []) @ ?d @ 0 # r)) = (neg, ?d @ 0 # r)"
    using d x' m by (simp add: strto_sign_def)
  have y: "y \<noteq> 120 \<and> y \<noteq> 88" if "xs @ 0 # r = y # ys" for y ys
  proof (cases xs)
    case Nil
    then show ?thesis using that by auto
  next
    case (Cons z zs)
    then have "y \<in> set ?d" using that d by auto
    then show ?thesis using ch HEX_not_space by auto
  qed
  have pre: "strto_prefix b (?d @ 0 # r) = (b, ?d @ 0 # r)"
    using b y d by (auto simp: strto_prefix_def split: list.splits)
  have "strto_digits b (?d @ 0 # r) 0 = Inr n"
    using b by (simp add: strto_digits_append digit_val_def)
  then show ?thesis using b by (simp add: strto_parse_def sg pre)
qed

lemma Val_int32_digits:
  assumes "2 \<le> unat base" "unat base \<le> 16"
  shows "Val_int32 num base = Inr ((if num <s 0 then [45] else [])
    @ hexdigits (unat base) (if num <s 0 then unat (- num) else unat num))"
proof -
  let ?nn = "if num <s 0 then NOT num + 1 else num"
  have e: "NOT num + 1 = - num" by (simp add: not_eq_complement)
  have "unat ?nn < 2 ^ 32" by (rule unat_lt32)
  also have "(2 :: nat) ^ 32 \<le> unat base ^ 32" using assms by (intro power_mono) auto
  finally have "length (hexdigits (unat base) (unat ?nn)) \<le> 32"
    using assms by (intro hexdigits_length) auto
  then have "bindR (val_loop ?nn base 33 val_buf) (val_finish (num <s 0))
      = Inr ((if num <s 0 then [45] else []) @ hexdigits (unat base) (unat ?nn))"
    using assms by (intro val_result) auto
  moreover have "unat ?nn = (if num <s 0 then unat (- num) else unat num)" using e by simp
  ultimately show ?thesis
    unfolding Val_int32_def Let_def using base_ok(1,2) [OF assms] by (simp only: if_False simp_thms)
qed

lemma Int_Val_roundtrip_aux:
  assumes "2 \<le> unat base" "unat base \<le> 16" "Val_int32 num base = Inr xs"
  shows "str_Int (xs @ [0]) base = Inr num"
proof -
  let ?n = "if num <s 0 then unat (- num) else unat num"
  have xs: "xs = (if num <s 0 then [45] else []) @ hexdigits (unat base) ?n"
    using assms(3) Val_int32_digits [OF assms(1,2), of num] by simp
  have "strto_parse (xs @ [0]) (unat base) = Inr (num <s 0, ?n)"
    unfolding xs append_assoc by (rule strto_parse_digits [OF assms(1,2), of "num <s 0" ?n "[]"])
  moreover have "ucast (- of_nat (unat (- num)) :: u64) = num" "ucast (of_nat (unat num) :: u64) = num"
  proof -
    show "ucast (of_nat (unat num) :: u64) = num"
      by (simp add: word_unat_eq_iff unsigned_ucast_eq take_bit_word_eq_self)
    have dn: "is_down (ucast :: u64 \<Rightarrow> u32)" by (simp add: is_down)
    have "(- of_nat (unat (- num)) :: u64) = word_of_int (- int (unat (- num)))" by simp
    then have "(ucast (- of_nat (unat (- num)) :: u64) :: u32) = word_of_int (- int (unat (- num)))"
      by (simp only: ucast_down_wi [OF dn])
    then show "ucast (- of_nat (unat (- num)) :: u64) = num" by simp
  qed
  moreover have "num <s 0 \<Longrightarrow> \<not> 2 ^ 63 < unat (- num)" "\<not> num <s 0 \<Longrightarrow> \<not> 2 ^ 63 \<le> unat num"
    using sint_neg [of num] nonneg_i32 [of num] by auto
  ultimately show ?thesis
    using base_ok(4) [OF assms(1,2)]
    by (cases "num <s 0") (simp_all add: str_Int_def c_strtol_def)
qed


section \<open>Facts on escape and unescape\<close>

lemma escape_concat: "escape xs = concat (map escape_char xs)"
proof -
  have "foldl (\<lambda>out c. out @ escape_char c) acc xs = acc @ concat (map escape_char xs)" for acc
    by (induction xs arbitrary: acc) auto
  then show ?thesis by (simp add: escape_def)
qed

lemma hexval_HEX: "n < 16 \<Longrightarrow> hexval (HEX ! n) = of_nat n"
proof -
  have "\<forall>n < 16. hexval (HEX ! n) = of_nat n"
    by (simp add: all_less_16 HEX_bytes hexval_def)
  then show "n < 16 \<Longrightarrow> ?thesis" by blast
qed

lemma isxdigit_HEX: "n < 16 \<Longrightarrow> c_isxdigit (HEX ! n)"
proof -
  have "\<forall>n < 16. c_isxdigit (HEX ! n)"
    by (simp add: all_less_16 HEX_bytes c_isxdigit_def c_isdigit_def)
  then show "n < 16 \<Longrightarrow> ?thesis" by blast
qed

lemma hexval_nibbles:
  "(ucast (hexval (HEX ! unat (drop_bit 4 c)) * 16 + hexval (HEX ! unat (c AND 15))) :: u8) = c"
proof -
  have d: "unat c div 16 < 16" "unat c mod 16 < 16"
    using unat_lt8 [of c] by (simp_all add: less_mult_imp_div_less)
  have "hexval (HEX ! unat (drop_bit 4 c)) * 16 + hexval (HEX ! unat (c AND 15))
      = (of_nat (unat c div 16 * 16 + unat c mod 16) :: u32)"
    by (simp only: nibbles hexval_HEX [OF d(1)] hexval_HEX [OF d(2)] of_nat_add of_nat_mult of_nat_numeral)
  also have "\<dots> = of_nat (unat c)" by simp
  finally have "hexval (HEX ! unat (drop_bit 4 c)) * 16 + hexval (HEX ! unat (c AND 15)) = (ucast c :: u32)"
    by (simp add: of_nat_unat)
  then show ?thesis by (simp add: ucast_up_ucast_id is_up)
qed

lemma unescape_plain: "c \<noteq> 92 \<Longrightarrow> unescape_loop (c # xs) result = unescape_loop xs (push_byte result c)"
  by (simp add: unescape_loop.simps(2))

lemma unescape_named:
  "c \<noteq> 120 \<Longrightarrow> \<not> is_octal c \<Longrightarrow>
   unescape_loop (92 # c # xs) result = unescape_loop xs (push_byte result (unescape_simple c))"
  by (simp add: unescape_loop.simps(2))

lemma unescape_hex:
  "c_isxdigit h \<Longrightarrow> c_isxdigit l \<Longrightarrow>
   unescape_loop (92 # 120 # h # l # xs) result
     = unescape_loop xs (push_byte result (ucast (hexval h * 16 + hexval l)))"
  by (simp add: unescape_loop.simps(2) peek_def)

lemma unescape_escape_char:
  assumes "c \<noteq> 0"
  shows "unescape_loop (escape_char c @ xs) result = unescape_loop xs (result @ [c])"
proof -
  have d: "unat c div 16 < 16" "unat c mod 16 < 16"
    using unat_lt8 [of c] by (simp_all add: less_mult_imp_div_less)
  have hx: "c_isxdigit (HEX ! unat (drop_bit 4 c))" "c_isxdigit (HEX ! unat (c AND 15))"
    using d by (simp_all add: nibbles isxdigit_HEX)
  have p: "push_byte result c = result @ [c]" using assms by (simp add: push_byte_def)
  consider "c \<in> {10, 13, 8, 11, 7, 12, 9, 92, 34, 39}"
    | "c \<notin> {10, 13, 8, 11, 7, 12, 9, 92, 34, 39}" "c < 0x20 \<or> 0x7f < c"
    | "c \<notin> {10, 13, 8, 11, 7, 12, 9, 92, 34, 39}" "\<not> (c < 0x20 \<or> 0x7f < c)" by blast
  then show ?thesis
  proof cases
    case 1
    then show ?thesis
      by (auto simp: escape_char_def lit_def unescape_named is_octal_def unescape_simple_def push_byte_def)
  next
    case 2
    then have "escape_char c = [92, 120, HEX ! unat (drop_bit 4 c), HEX ! unat (c AND 15)]"
      by (simp add: escape_char_def lit_def)
    then show ?thesis using unescape_hex [OF hx] p by (simp add: hexval_nibbles)
  next
    case 3
    then have "escape_char c = [c]" using assms by (simp add: escape_char_def push_byte_def)
    then show ?thesis using 3 p by (simp add: unescape_plain)
  qed
qed

lemma unescape_escape_aux:
  "0 \<notin> set xs \<Longrightarrow> unescape_loop (concat (map escape_char xs)) result = result @ xs"
  by (induction xs arbitrary: result) (auto simp: unescape_escape_char)

text \<open>escape leaves only printable ASCII.\<close>

lemma escape_char_printable: "x \<in> set (escape_char c) \<Longrightarrow> 0x20 \<le> x \<and> x \<le> 0x7f"
proof -
  have d: "unat c div 16 < 16" "unat c mod 16 < 16"
    using unat_lt8 [of c] by (simp_all add: less_mult_imp_div_less)
  have "\<forall>n < 16. 0x20 \<le> HEX ! n \<and> HEX ! n \<le> 0x7f" by (simp add: all_less_16 HEX_bytes)
  then have "0x20 \<le> HEX ! unat (drop_bit 4 c) \<and> HEX ! unat (drop_bit 4 c) \<le> 0x7f"
    "0x20 \<le> HEX ! unat (c AND 15) \<and> HEX ! unat (c AND 15) \<le> 0x7f"
    using d by (simp_all add: nibbles)
  then show "x \<in> set (escape_char c) \<Longrightarrow> ?thesis"
    by (auto simp: escape_char_def lit_def push_byte_def not_less split: if_splits)
qed

end
