(* ===== verification/Text_Interfaces.thy ===== *)
theory Text_Interfaces
  imports Str_Conv
begin

text \<open>
  Two interfaces the other components rely on, with their laws and the facts that
  follow from them: \<open>text_sink\<close>, an object that grows by one byte at a time (the
  \<open>operator+=(char)\<close> through which every encoder builds its result), and \<open>codec\<close>, an
  encoder with its decoder. \<open>SRL::String\<close> provides the first, escape and unescape the second.
\<close>

section \<open>A cursor that runs over a block\<close>

text \<open>\<open>xs\<close> is what a loop over \<open>m\<close> up to the length \<open>len\<close> has still to visit from index \<open>i\<close> on.\<close>

definition ahead :: "'a list \<Rightarrow> u32 \<Rightarrow> u32 \<Rightarrow> 'a list \<Rightarrow> bool" where
  "ahead m len i xs \<longleftrightarrow> unat len \<le> length m \<and> xs = drop (unat i) (take (unat len) m)"

lemma cursor:
  fixes i len :: u32
  assumes "ahead m len i xs" "unat i + k < 2 ^ 32"
  shows "i + of_nat k < len \<longleftrightarrow> k < length xs" "k < length xs \<Longrightarrow> blk_read m (unat (i + of_nat k)) = Inr (xs ! k)"
    "ahead m len (i + of_nat k) (drop k xs)" "unat (i + of_nat k) = unat i + k"
proof -
  have a: "unat len \<le> length m" "xs = drop (unat i) (take (unat len) m)" using assms(1) by (simp_all add: ahead_def)
  have k: "unat (of_nat k :: u32) = k" using assms(2) by simp
  then show u: "unat (i + of_nat k) = unat i + k" using assms(2) unat_plus_small [of i "of_nat k"] by simp
  have l: "length xs = unat len - unat i" using a by simp
  show "i + of_nat k < len \<longleftrightarrow> k < length xs" using l by (auto simp: word_less_nat_alt u)
  show "k < length xs \<Longrightarrow> blk_read m (unat (i + of_nat k)) = Inr (xs ! k)"
    using l a by (simp add: blk_read_def u)
  show "ahead m len (i + of_nat k) (drop k xs)" using a by (simp add: ahead_def u add.commute)
qed

lemma cursor_here: "ahead m len i xs \<Longrightarrow> i < len \<longleftrightarrow> xs \<noteq> []" "ahead m len i xs \<Longrightarrow> xs \<noteq> [] \<Longrightarrow> blk_read m (unat i) = Inr (hd xs)"
  using cursor [of m len i xs 0] unat_lt32 [of i] by (auto simp: hd_conv_nth)

lemma ahead_start: "unat len \<le> length m \<Longrightarrow> ahead m len 0 (take (unat len) m)"
  by (simp add: ahead_def)

section \<open>Growing a text byte by byte\<close>

fun push_all :: "(u8 \<Rightarrow> 's \<Rightarrow> 's res) \<Rightarrow> u8 list \<Rightarrow> 's \<Rightarrow> 's res" where
  "push_all push [] s = Inr s"
| "push_all push (c # cs) s = bindR (push c s) (push_all push cs)"

locale text_sink =
  fixes ok :: "'s \<Rightarrow> bool" and abs :: "'s \<Rightarrow> u8 list" and push :: "u8 \<Rightarrow> 's \<Rightarrow> 's res"
    and room :: "nat \<Rightarrow> 's \<Rightarrow> bool"
  assumes push_keeps: "ok s \<Longrightarrow> push c s = Inr s' \<Longrightarrow> ok s' \<and> abs s' = push_byte (abs s) c"
    and push_works: "ok s \<Longrightarrow> room (Suc n) s \<Longrightarrow> \<exists>s'. push c s = Inr s' \<and> room n s'"
begin

lemma push_all_keeps:
  "ok s \<Longrightarrow> push_all push xs s = Inr s' \<Longrightarrow> ok s' \<and> abs s' = foldl push_byte (abs s) xs"
proof (induction xs arbitrary: s)
  case (Cons x xs)
  then obtain s1 where s1: "push x s = Inr s1" "push_all push xs s1 = Inr s'"
    by (auto simp: res_simps)
  then show ?case using Cons.IH [of s1] push_keeps [OF Cons.prems(1) s1(1)] by auto
qed simp

lemma push_all_works:
  "ok s \<Longrightarrow> room (length xs) s \<Longrightarrow> \<exists>s'. push_all push xs s = Inr s'"
proof (induction xs arbitrary: s)
  case (Cons x xs)
  then obtain s1 where s1: "push x s = Inr s1" "room (length xs) s1"
    using push_works [of s "length xs" x] by auto
  moreover have "ok s1" using push_keeps [OF Cons.prems(1) s1(1)] by simp
  ultimately show ?case using Cons.IH [of s1] by auto
qed simp

lemma push_all_appends:
  "ok s \<Longrightarrow> 0 \<notin> set xs \<Longrightarrow> room (length xs + n) s \<Longrightarrow>
   \<exists>s'. push_all push xs s = Inr s' \<and> ok s' \<and> abs s' = abs s @ xs \<and> room n s'"
proof (induction xs arbitrary: s)
  case (Cons x xs)
  then obtain s1 where s1: "push x s = Inr s1" "room (length xs + n) s1"
    using push_works [of s "length xs + n" x] by auto
  moreover have "ok s1" "abs s1 = abs s @ [x]" using push_keeps [OF Cons.prems(1) s1(1)] Cons.prems(2) by (auto simp: push_byte_def)
  ultimately show ?case using Cons.IH [of s1] Cons.prems(2) by auto
qed auto

lemma push_all_filter:
  assumes "ok s" "room (length xs) s"
  shows "\<exists>s'. push_all push xs s = Inr s' \<and> ok s' \<and> abs s' = abs s @ filter (\<lambda>c. c \<noteq> 0) xs"
proof -
  obtain s' where s': "push_all push xs s = Inr s'" using push_all_works [OF assms] by blast
  have "foldl push_byte acc xs = acc @ filter (\<lambda>c. c \<noteq> 0) xs" for acc
    by (induction xs arbitrary: acc) (auto simp: push_byte_def)
  then show ?thesis using push_all_keeps [OF assms(1) s'] s' by auto
qed

end

text \<open>\<open>SRL::String\<close> is such an object as long as its 32-bit length does not run out.\<close>

definition str_room :: "nat \<Rightarrow> srl_str \<Rightarrow> bool" where
  "str_room n s = (str_wf s \<and> unat (s_string_length s) + n + 16 < 2 ^ 32 \<and> unat (s_min_size s) + 16 < 2 ^ 32)"

lemma str_push_works:
  assumes w: "str_wf s" and room: "str_room (Suc n) s"
  shows "\<exists>s'. str_push c s = Inr s' \<and> str_room n s'"
proof (cases "c = 0")
  case True
  then show ?thesis using room by (auto simp: str_push_def str_room_def)
next
  case False
  let ?n = "unat (s_string_length s)"
  have n: "unat (1 + s_string_length s) = Suc ?n"
    using unat_plus_small [of 1 "s_string_length s"] room by (simp add: str_room_def)
  obtain s1 where s1: "str_resize (1 + s_string_length s) s = Inr s1"
      "resized (1 + s_string_length s) s s1"
    using str_resize_ok [OF str_wf_shape [OF w], of "1 + s_string_length s"] n room
    by (auto simp: str_room_def)
  have "0 < 1 + s_string_length s" using n by (simp add: word_less_nat_alt)
  then have l: "Suc ?n < length (s_str s1)" using resized_len [OF s1(2)] n by simp
  have "s_string_length s1 - 1 = s_string_length s" using resizedD(2) [OF s1(2)] by simp
  then obtain s' where s': "str_push c s = Inr s'" "s' = s1\<lparr>s_str := (s_str s1)[?n := c]\<rparr>"
    using False s1 l by (simp add: str_push_def blk_simps)
  have "str_wf s'" using str_push_Inr [OF w s'(1)] by simp
  then have "str_room n s'"
    using s'(2) resizedD [OF s1(2)] n room by (simp add: str_room_def)
  then show ?thesis using s' by blast
qed

interpretation str_sink: text_sink str_wf content str_push str_room
proof unfold_locales
  show "str_wf s' \<and> content s' = push_byte (content s) c" if "str_wf s" "str_push c s = Inr s'" for s s' c
    using str_push_Inr [OF that] by (simp add: push_byte_def)
  show "\<exists>s'. str_push c s = Inr s' \<and> str_room n s'" if "str_wf s" "str_room (Suc n) s" for s n c
    using that by (rule str_push_works)
qed

section \<open>Encoders and decoders\<close>

locale codec =
  fixes valid :: "'a \<Rightarrow> bool" and enc :: "'a \<Rightarrow> 'b" and dec :: "'b \<Rightarrow> 'a"
  assumes dec_enc: "valid x \<Longrightarrow> dec (enc x) = x"
begin

lemma enc_inj: "valid x \<Longrightarrow> valid y \<Longrightarrow> enc x = enc y \<Longrightarrow> x = y"
  using dec_enc by metis

lemma enc_inj_on: "inj_on enc {x. valid x}"
  by (rule inj_onI) (auto dest: enc_inj)

lemma enc_dec_image: "y \<in> enc ` {x. valid x} \<Longrightarrow> enc (dec y) = y"
  using dec_enc by auto

end

interpretation esc: codec "\<lambda>xs. 0 \<notin> set xs" escape unescape
  by unfold_locales (simp add: unescape_def escape_concat unescape_escape_aux)

end
