(* ===== verification/Str_Props.thy ===== *)
theory Str_Props
  imports Text_Interfaces
begin

text \<open>
  The properties of \<open>SRL::String\<close>: the objects a client can build, the invariant they
  keep, and what the operations do to the text, errors and divergences included.
\<close>

unbundle bit_operations_syntax

section \<open>Reachable objects\<close>

lemma str_of_ptr_wf:
  assumes "str_of_ptr p len = Inr s'" shows "str_wf s'"
proof (cases p)
  case None
  then show ?thesis using assms by (simp add: str_of_ptr_def)
next
  case (Some m)
  then obtain l where "str_copy m l str_empty = Inr s'"
    using assms by (auto simp: str_of_ptr_def res_simps)
  then show ?thesis using str_copy_Inr [OF str_shape_empty] by blast
qed

lemma str_reserve_wf:
  assumes "str_wf s" "str_reserve len s = Inr s'"
  shows "str_wf s' \<and> content s' = content s"
proof -
  let ?t = "s\<lparr>s_min_size := len\<rparr>"
  have sh: "str_shape ?t" using str_wf_shape [OF assms(1)] by (simp add: str_shape_def)
  have r: "str_resize (s_string_length ?t) ?t = Inr s'" using assms(2) by (simp add: str_reserve_def Let_def)
  note rs = str_resize_Inr(1) [OF sh r]
  have "take (unat (s_string_length s)) (s_str s') = take (unat (s_string_length s)) (s_str s)"
    using resizedD(5) [OF rs, of "unat (s_string_length s)"] str_wf_len [OF assms(1)] by simp
  then show ?thesis using resizedD(1,2) [OF rs] by (simp add: content_def)
qed

lemma str_reserve_new_wf: "str_reserve_new n = Inr s' \<Longrightarrow> str_wf s' \<and> content s' = []"
proof -
  assume r: "str_reserve_new n = Inr s'"
  have "str_shape (str_empty\<lparr>s_min_size := n\<rparr>)" by (simp add: str_shape_def str_empty_def)
  then have "resized 0 (str_empty\<lparr>s_min_size := n\<rparr>) s'"
    using r str_resize_Inr(1) by (simp add: str_reserve_new_def)
  then show ?thesis using resizedD(1,2) by (simp add: content_def)
qed

lemma str_assign_cstr_wf:
  assumes "str_wf s" "str_assign_cstr m s = Inr s'" shows "str_wf s'"
  using assms str_copy_Inr [OF str_wf_shape [OF assms(1)], of m]
  by (auto simp: str_assign_cstr_def res_simps)

lemma str_add_cstr_wf:
  assumes "str_wf s" "str_add_cstr m s = Inr s'" shows "str_wf s'"
  using assms(2) str_append_bytes_Inr [OF assms(1), of m] by (auto simp: str_add_cstr_def res_simps)

lemma str_replaceFrom_wf:
  assumes w: "str_wf s" and r: "str_replaceFrom pos len m s = Inr s'"
  shows "str_wf s'"
proof -
  obtain n where n: "c_strlen m = Inr n" using r by (auto simp: str_replaceFrom_def res_simps)
  let ?k = "of_nat n :: u32"
  define new where "new = s_string_length s + (?k - len)"
  consider "str_isEmpty s" | "\<not> str_isEmpty s" "?k = 0" | "\<not> str_isEmpty s" "0 < ?k"
    by (auto simp: word_gt_0)
  then show ?thesis
  proof cases
    case 1
    then show ?thesis using r n w by (simp add: str_replaceFrom_def Let_def)
  next
    case 2
    then have new': "new = s_string_length s - len" by (simp add: new_def)
    from 2 obtain b where b: "blk_put (s_str s) (unat pos) [] = Inr b" "unat new < length b"
        "s' = s\<lparr>s_str := b[unat new := 0]\<rparr>"
      using r n unfolding new'
      by (auto simp: str_replaceFrom_def Let_def res_simps blk_slice_def blk_write_def split: if_splits)
    have "b = s_str s" using b(1) by (auto simp: blk_put_def split: if_splits)
    then have s': "s' = s\<lparr>s_str := (s_str s)[unat new := 0]\<rparr>" using b(3) by simp
    show ?thesis
      unfolding s' using str_wf_nul [OF w] str_wf_len_less [OF w] b(2) \<open>b = s_str s\<close>
      by (intro str_wf_buf [OF w]) (auto simp: nth_list_update)
  next
    case 3
    have body: "bindR (bindR (if s_string_length s < new then str_resize new s else Inr s) (\<lambda>s1.
         bindR (blk_move (s_str s1) (unat (pos + ?k)) (unat (pos + len)) (unat (s_string_length s - (pos + len)))) (\<lambda>b.
         if new < s_string_length s then str_resize new (s1\<lparr>s_str := b\<rparr>)
         else Inr (s1\<lparr>s_str := b\<rparr>)))) (\<lambda>s2.
       bindR (blk_slice m 0 (unat ?k)) (\<lambda>xs. bindR (blk_put (s_str s2) (unat pos) xs) (\<lambda>b.
       bindR (blk_write b (unat new) 0) (\<lambda>b. Inr (s2\<lparr>s_str := b\<rparr>))))) = Inr s'"
      using r 3 n by (simp only: str_replaceFrom_def Let_def bindR_simps if_True if_False new_def simp_thms)
    obtain s1 b s2 xs c d where s1: "(if s_string_length s < new then str_resize new s else Inr s) = Inr s1"
        and mv: "blk_move (s_str s1) (unat (pos + ?k)) (unat (pos + len)) (unat (s_string_length s - (pos + len))) = Inr b"
        and s2: "(if new < s_string_length s then str_resize new (s1\<lparr>s_str := b\<rparr>) else Inr (s1\<lparr>s_str := b\<rparr>)) = Inr s2"
        and put: "blk_put (s_str s2) (unat pos) xs = Inr c"
        and wr: "blk_write c (unat new) 0 = Inr d" "s' = s2\<lparr>s_str := d\<rparr>"
      using body unfolding bindR_eq_Inr sum.inject by blast
    have b: "length b = length (s_str s1)" using length_blk_move [OF mv] .
    have c: "length c = length (s_str s2)" "unat new < length c" "s' = s2\<lparr>s_str := c[unat new := 0]\<rparr>"
      using length_blk_put [OF put] wr by (auto simp: blk_write_def split: if_splits)
    have w1: "str_wf s1" and l1: "s_string_length s1 = (if s_string_length s < new then new else s_string_length s)"
      using s1 w resizedD(1,2) [OF str_resize_Inr_wf [OF w]] by (auto split: if_splits)
    show ?thesis
    proof (cases "new < s_string_length s")
      case True
      then have "str_resize new (s1\<lparr>s_str := b\<rparr>) = Inr s2" using s2 by simp
      moreover have "str_shape (s1\<lparr>s_str := b\<rparr>)" using str_shape_buf [OF str_wf_shape [OF w1] b] .
      ultimately have rs: "resized new (s1\<lparr>s_str := b\<rparr>) s2" by (rule str_resize_Inr(1) [rotated])
      show ?thesis
        unfolding c(3) using c resizedD(1,2) [OF rs] by (intro str_wf_buf) auto
    next
      case False
      then have e: "s2 = s1\<lparr>s_str := b\<rparr>" "s_string_length s1 = new"
        using s2 l1 by auto
      have "str_wf (s1\<lparr>s_str := c[unat new := 0]\<rparr>)"
        using c b w1 e by (intro str_wf_buf) auto
      then show ?thesis using c(3) e by simp
    qed
  qed
qed

text \<open>Every way to obtain or change a string that does not fault. Three operations carry
  a condition: the character overload of insert at 0 needs a buffer, a write through
  \<open>operator[]\<close> must leave the terminator alone, and inserted text must fit.\<close>

inductive str_reach :: "srl_str \<Rightarrow> bool" where
  new: "str_reach str_empty"
| new_reserve: "str_reserve_new n = Inr s \<Longrightarrow> str_reach s"
| new_ptr: "str_of_ptr p len = Inr s \<Longrightarrow> str_reach s"
| new_char: "str_of_char c len = Inr s \<Longrightarrow> str_reach s"
| new_copy: "str_reach t \<Longrightarrow> str_copy_new t = Inr s \<Longrightarrow> str_reach s"
| new_two: "holds_cstr m1 xs \<Longrightarrow> holds_cstr m2 ys \<Longrightarrow> length xs + length ys + 16 < 2 ^ 32 \<Longrightarrow>
    str_of_two (Some m1) (Some m2) = Inr s \<Longrightarrow> str_reach s"
| resize: "str_reach s \<Longrightarrow> str_resize n s = Inr s' \<Longrightarrow> str_reach s'"
| reserve: "str_reach s \<Longrightarrow> str_reserve n s = Inr s' \<Longrightarrow> str_reach s'"
| clear: "str_reach s \<Longrightarrow> str_clear s = Inr s' \<Longrightarrow> str_reach s'"
| fill: "str_reach s \<Longrightarrow> str_fill c n s = Inr s' \<Longrightarrow> str_reach s'"
| assign: "str_reach s \<Longrightarrow> str_reach t \<Longrightarrow> str_assign t s = Inr s' \<Longrightarrow> str_reach s'"
| assign_cstr: "str_reach s \<Longrightarrow> str_assign_cstr m s = Inr s' \<Longrightarrow> str_reach s'"
| assign_char: "str_reach s \<Longrightarrow> str_assign_char c s = Inr s' \<Longrightarrow> str_reach s'"
| push: "str_reach s \<Longrightarrow> str_push c s = Inr s' \<Longrightarrow> str_reach s'"
| append: "str_reach s \<Longrightarrow> str_reach t \<Longrightarrow> str_append t s = Inr s' \<Longrightarrow> str_reach s'"
| add: "str_reach s \<Longrightarrow> str_reach t \<Longrightarrow> str_add t s = Inr s' \<Longrightarrow> str_reach s'"
| add_cstr: "str_reach s \<Longrightarrow> str_add_cstr m s = Inr s' \<Longrightarrow> str_reach s'"
| remove: "str_reach s \<Longrightarrow> str_remove pos len s = Inr s' \<Longrightarrow> str_reach s'"
| replaceFrom: "str_reach s \<Longrightarrow> str_replaceFrom pos len m s = Inr s' \<Longrightarrow> str_reach s'"
| insert_char: "str_reach s \<Longrightarrow> s_str s \<noteq> [] \<or> 0 < pos \<Longrightarrow> str_insert_char pos c s = Inr s' \<Longrightarrow> str_reach s'"
| insert_cstr: "str_reach s \<Longrightarrow> holds_cstr m xs \<Longrightarrow>
    unat (s_string_length s) + length xs + 16 < 2 ^ 32 \<Longrightarrow>
    str_insert_cstr pos m s = Inr s' \<Longrightarrow> str_reach s'"
| trim: "str_reach s \<Longrightarrow> str_trim s = Inr s' \<Longrightarrow> str_reach s'"
| trimBegin: "str_reach s \<Longrightarrow> str_trimBegin s = Inr s' \<Longrightarrow> str_reach s'"
| trimEnd: "str_reach s \<Longrightarrow> str_trimEnd s = Inr s' \<Longrightarrow> str_reach s'"
| toUpper: "str_reach s \<Longrightarrow> str_toUpper s = Inr s' \<Longrightarrow> str_reach s'"
| toLower: "str_reach s \<Longrightarrow> str_toLower s = Inr s' \<Longrightarrow> str_reach s'"
| set: "str_reach s \<Longrightarrow> i \<noteq> s_string_length s \<or> c = 0 \<Longrightarrow> str_set i c s = Inr s' \<Longrightarrow> str_reach s'"
| hash: "str_reach s \<Longrightarrow> str_reach (snd (str_hash s))"

lemma str_hash_wf: "str_wf s \<Longrightarrow> str_wf (snd (str_hash s)) \<and> content (snd (str_hash s)) = content s"
  by (auto simp: str_hash_def Let_def str_wf_def str_cap_def content_def split: if_splits)

lemmas str_keeps =
  str_wf_empty str_reserve_new_wf [THEN conjunct1] str_of_ptr_wf str_copy_new_Inr [THEN conjunct1]
  str_reserve_wf [THEN conjunct1] str_fill_Inr [THEN conjunct1] str_assign_Inr [THEN conjunct1]
  str_assign_cstr_wf str_assign_char_Inr [THEN conjunct1] str_push_Inr [THEN conjunct1]
  str_append_Inr [THEN conjunct1] str_add_Inr [THEN conjunct1] str_add_cstr_wf str_remove_wf
  str_replaceFrom_wf str_insert_char_Inr [THEN conjunct1] str_insert_cstr_Inr [THEN conjunct1]
  str_trim_Inr [THEN conjunct1] str_trimBegin_Inr [THEN conjunct1] str_trimEnd_Inr [THEN conjunct1]
  str_toUpper_Inr [THEN conjunct1] str_toLower_Inr [THEN conjunct1] str_set_Inr [THEN conjunct1]




section \<open>Editing\<close>


text \<open>A one-character string, for the witnesses.\<close>

definition str_x :: srl_str where
  "str_x = \<lparr>s_str = 120 # replicate 15 0, s_array_size = 16, s_string_length = 1, s_min_size = 0,
     s_hash_value = 0\<rparr>"

lemma str_x_wf: "str_wf str_x" "content str_x = [120]"
  by (simp_all add: str_x_def str_wf_def str_cap_def content_def)


text \<open>
  trim removes the blanks, carriage returns and line feeds at both ends of any
  well-formed string and never faults.
\<close>

theorem str_trim_spec:
  assumes "str_wf s"
  shows "\<exists>s'. str_trim s = Inr s' \<and> str_wf s' \<and> content s' = trim_spec (content s)"
proof -
  obtain s1 where s1: "str_trimBegin s = Inr s1" using str_trim_total(1) [OF assms] by blast
  then have "str_wf s1" using str_trimBegin_Inr [OF assms] by blast
  then obtain s2 where "str_trimEnd s1 = Inr s2" using str_trim_total(2) by blast
  then have "str_trim s = Inr s2" using s1 by (simp add: str_trim_def)
  then show ?thesis using str_trim_Inr [OF assms] by blast
qed

theorem str_trim_spec_witness: "\<exists>s'. str_trim str_x = Inr s' \<and> content s' = [120]"
  using str_trim_spec [OF str_x_wf(1)] by (auto simp: str_x_wf(2) trim_spec_def is_trim_def chr_def)

text \<open>
  removeChar of a character other than NUL ends on every NUL-free string, with as much
  fuel as the string has characters, and deletes exactly its occurrences from the position on.
\<close>

theorem str_removeChar_spec:
  assumes "str_wf s" "0 \<notin> set (content s)" "c \<noteq> 0" "unat (s_string_length s) < 2 ^ 31"
    and "unat pos \<le> unat (s_string_length s)" "unat (s_string_length s) \<le> fuel"
  shows "\<exists>s'. str_removeChar fuel c pos True s = Inr s' \<and> str_wf s'
    \<and> content s' = take (unat pos) (content s) @ filter (\<lambda>x. x \<noteq> c) (drop (unat pos) (content s))"
proof -
  have "length (filter (\<lambda>x. x = c) (drop (unat pos) (content s))) \<le> length (drop (unat pos) (content s))"
    by (rule length_filter_le)
  then have "length (filter (\<lambda>x. x = c) (drop (unat pos) (content s))) \<le> fuel"
    using assms(6) length_content [OF assms(1)] by simp
  then show ?thesis unfolding str_removeChar_def using assms by (intro removeChar_loop_ok)
qed

theorem str_removeChar_spec_witness:
  "\<exists>s'. str_removeChar 1 120 0 True str_x = Inr s' \<and> content s' = []"
  using str_removeChar_spec [of str_x 120 0 1] by (auto simp: str_x_wf) (auto simp: str_x_def)

text \<open>The search for NUL finds the terminator, and removing it changes nothing.\<close>

lemma removeChar_nul_step:
  assumes w: "str_wf s" and z: "0 \<notin> set (content s)" and l: "unat (s_string_length s) < 2 ^ 31"
  shows "\<exists>s'. str_remove (s_string_length s) 1 s = Inr s' \<and> str_wf s' \<and> content s' = content s
    \<and> s_string_length s' = s_string_length s"
proof -
  let ?n = "s_string_length s"
  have e: "unat (?n + 1) = unat ?n + 1" using l by (subst unat_plus_small) simp_all
  have "max (unat ?n) (unat (s_min_size s)) + 16 < 2 ^ 32" using l str_wf_min [OF w] by simp
  then obtain s' where s': "str_resize ?n s = Inr s'" "resized ?n s s'"
    using str_resize_ok [OF str_wf_shape [OF w]] by blast
  then have "str_remove ?n 1 s = Inr s'"
    using e by (simp add: str_remove_def Let_def str_truncate_def word_le_nat_alt)
  moreover have "content s' = content s"
    using resized_take [OF s'(2) w] length_content [OF w] by simp
  ultimately show ?thesis using resizedD(1,2) [OF s'(2)] by blast
qed

lemma find_nul:
  assumes w: "str_wf s" and z: "0 \<notin> set (content s)" and p: "unat pos \<le> unat (s_string_length s)"
  shows "str_find_chr 0 pos s = Inr (s_string_length s)"
proof -
  obtain rest where m: "str_mem s = content s @ 0 # rest" using str_mem_wf [OF w] by blast
  have l: "length (content s) = unat (s_string_length s)" using length_content [OF w] .
  have "0 \<notin> set (drop (unat pos) (content s))" using z by (meson in_set_dropD)
  then have "c_strchr (drop (unat pos) (content s) @ 0 # rest) 0 = Inr (Some (unat (s_string_length s) - unat pos))"
    using c_strchr_nul l by fastforce
  then show ?thesis using m l p by (simp add: str_find_chr_def blk_ptr_def find_result_def)
qed

lemma removeChar_nul_loop:
  "str_wf s \<Longrightarrow> 0 \<notin> set (content s) \<Longrightarrow> unat (s_string_length s) < 2 ^ 31 \<Longrightarrow>
   removeChar_loop fuel 0 True (s_string_length s) s = Inl Out_Of_Fuel"
proof (induction fuel arbitrary: s)
  case 0
  then show ?case using nonneg_i32 [of "s_string_length s"] by simp
next
  case (Suc fuel)
  obtain s' where s': "str_remove (s_string_length s) 1 s = Inr s'" "str_wf s'" "content s' = content s"
      "s_string_length s' = s_string_length s"
    using removeChar_nul_step [OF Suc.prems] by blast
  have "str_find_chr 0 (s_string_length s) s' = Inr (s_string_length s')"
    using s' Suc.prems by (intro find_nul) auto
  moreover have "removeChar_loop fuel 0 True (s_string_length s') s' = Inl Out_Of_Fuel"
    using s' Suc.prems by (intro Suc.IH) auto
  ultimately show ?case using s' Suc.prems nonneg_i32 [of "s_string_length s"] by simp
qed

text \<open>
  removeChar of the NUL character never ends: no amount of fuel is enough on any
  NUL-free string, because the search finds the terminator and the removal leaves it in place.
\<close>

theorem str_removeChar_nul_diverges:
  assumes "str_wf s" "0 \<notin> set (content s)" "unat (s_string_length s) < 2 ^ 31"
    and "unat pos \<le> unat (s_string_length s)"
  shows "str_removeChar fuel 0 pos True s = Inl Out_Of_Fuel"
  using removeChar_nul_loop [OF assms(1-3)] find_nul [OF assms(1,2,4)]
  by (simp add: str_removeChar_def)

theorem str_removeChar_nul_diverges_witness:
  "str_removeChar 1000 0 0 True str_x = Inl Out_Of_Fuel"
  using str_removeChar_nul_diverges [of str_x 0 1000] by (simp add: str_x_wf) (simp add: str_x_def)


section \<open>Cutting and comparing\<close>

text \<open>
  On NUL-free strings \<open>operator==\<close> is equality of the texts, and beginsWith is the
  list prefix test.
\<close>

theorem str_compare_spec:
  assumes "str_wf s" "str_wf t" "0 \<notin> set (content s)" "0 \<notin> set (content t)"
  shows "str_eq s t = Inr (content s = content t)
    \<and> str_beginsWith (str_mem t) s = Inr (take (length (content t)) (content s) = content t)"
  using Compare_cstr [OF str_mem_cstr [OF assms(1,3)] str_mem_cstr [OF assms(2,4)]]
    begins_loop_cstr [OF str_mem_cstr [OF assms(2,4)] str_mem_cstr [OF assms(1,3)]]
  by (simp add: str_eq_def str_beginsWith_def)

theorem str_compare_spec_witness: "str_eq str_x str_empty = Inr False"
  using str_compare_spec [of str_x str_empty] by (simp add: str_x_wf)

text \<open>
  endsWith does not compare the first character of the suffix: for a non-empty suffix
  no longer than the text it only tells whether the remaining characters agree.
\<close>

theorem str_endsWith_first_char:
  assumes "str_wf s" "holds_cstr m xs" "xs \<noteq> []" "length xs \<le> length (content s)"
  shows "str_endsWith m s = Inr (drop (length (content s) - length xs + 1) (content s) = tl xs)"
  by (rule str_endsWith_eq [OF assms])

theorem str_endsWith_first_char_witness: "str_endsWith [97, 0] str_x = Inr True"
  using str_endsWith_first_char [of str_x "[97, 0]" "[97]"] by (simp add: str_x_wf holds_cstr_def)

text \<open>
  mid returns the requested range when its length is not 0; a request for 0 characters
  returns the whole rest of the text instead of the empty string.
\<close>

theorem str_mid_spec:
  assumes "str_wf s" "0 \<notin> set (content s)" "unat pos + unat len \<le> unat (s_string_length s)"
  shows "\<exists>s'. str_mid pos len s = Inr s' \<and> str_wf s' \<and> content s'
    = (if len = 0 then drop (unat pos) (content s) else take (unat len) (drop (unat pos) (content s)))"
proof (cases "len = 0")
  case True
  then show ?thesis using str_mid_zero [OF assms(1,2)] assms(3) by simp
next
  case False
  then show ?thesis using str_mid_ok [OF assms(1,3)] by simp
qed

theorem str_mid_spec_witness: "\<exists>s'. str_mid 0 0 str_x = Inr s' \<and> content s' = [120]"
  using str_mid_spec [of str_x 0 0] by (auto simp: str_x_wf)

text \<open>
  Two operations misbehave on an empty string without a buffer: appending an empty
  string writes the terminator into the read-only EMPTY constant (a memory fault), and
  inserting a character at 0 succeeds but leaves an uninitialised byte where the
  terminator belongs.
\<close>

theorem str_empty_edits:
  "str_append str_empty str_empty = Inl Mem_Fault
   \<and> (\<exists>s. str_insert_char 0 c str_empty = Inr s \<and> content s = [c]
        \<and> s_str s ! unat (s_string_length s) = malloc_byte 0)"
proof
  show "str_append str_empty str_empty = Inl Mem_Fault"
    by (simp add: str_append_def str_append_bytes_def str_resize_def str_empty_def i32_nat_def
        blk_slice_def blk_put_def blk_write_def)
  have r: "ROUNDUP 2 16 = 16" by (simp add: ROUNDUP_def)
  define b where "b = blk_realloc [] 16"
  have lb: "length b = 16" "b ! 0 = malloc_byte 0" by (simp_all add: b_def blk_realloc_def)
  let ?s1 = "str_empty\<lparr>s_string_length := 1, s_str := b[1 := 0], s_array_size := 16\<rparr>"
  have s1: "str_resize 1 str_empty = Inr ?s1"
    using lb by (simp add: str_resize_def str_empty_def r b_def [symmetric] blk_write_def)
  have "str_insert_char 0 c str_empty = Inr (?s1\<lparr>s_str := (take 1 b @ take 1 b @ drop 2 (b[1 := 0]))[0 := c]\<rparr>)"
  proof -
    have "str_insert_char 0 c str_empty
      = bindR (str_resize 1 str_empty) (\<lambda>s. bindR (blk_move (s_str s) 1 0 1) (\<lambda>b.
          bindR (blk_write b 0 c) (\<lambda>b. Inr (s\<lparr>s_str := b\<rparr>))))"
      by (simp add: str_insert_char_def str_empty_def)
    then show ?thesis using s1 lb by (simp add: blk_move_ok blk_write_def take_update_cancel numeral_2_eq_2)
  qed
  then show "\<exists>s. str_insert_char 0 c str_empty = Inr s \<and> content s = [c]
        \<and> s_str s ! unat (s_string_length s) = malloc_byte 0"
    using lb by (cases b) auto
qed

text \<open>
  The case conversions keep the cached hash: after hash() has been called with a
  non-zero result, hash() of the converted string still returns the hash of the old text.
\<close>

theorem str_toUpper_stale_hash:
  assumes "str_wf s" "s_hash_value s = 0" "hash_bytes (content s) \<noteq> 0"
    and "str_toUpper (snd (str_hash s)) = Inr s'"
  shows "content s' = map c_toupper (content s) \<and> fst (str_hash s') = hash_bytes (content s)"
proof -
  let ?h = "snd (str_hash s)"
  have h: "s_hash_value ?h = hash_bytes (content s)" "content ?h = content s"
    using assms(2) str_hash_wf [OF assms(1)] by (auto simp: str_hash_def Let_def)
  have "content s' = map c_toupper (content ?h) \<and> s_hash_value s' = s_hash_value ?h"
    using str_toUpper_Inr [OF _ assms(4)] str_hash_wf [OF assms(1)] by blast
  then show ?thesis using h assms(3) by (simp add: str_hash_def)
qed

theorem str_toUpper_stale_hash_witness:
  "\<exists>s'. str_toUpper (snd (str_hash str_x)) = Inr s' \<and> content s' = [88]
    \<and> fst (str_hash s') = 120 \<and> hash_bytes [88] = 88"
proof -
  have h: "hash_bytes (content str_x) = 120"
    by (simp add: str_x_wf hash_bytes_def hash_step_def scast_eq sint_uint)
  obtain s' where s': "str_toUpper (snd (str_hash str_x)) = Inr s'"
    by (simp add: str_toUpper_def str_hash_def str_x_def Let_def blk_slice_def blk_put_def)
  have "content s' = map c_toupper (content str_x) \<and> fst (str_hash s') = hash_bytes (content str_x)"
    using str_toUpper_stale_hash [OF str_x_wf(1) _ _ s'] h by (simp add: str_x_def)
  then show ?thesis
    using s' h by (simp add: str_x_wf c_toupper_def hash_bytes_def hash_step_def)
qed

section \<open>Conversions\<close>

text \<open>
  C31. Int reads back what Val writes: for every base from 2 to 16 and every 32-bit
  number, the smallest included, the conversion to text succeeds and parses to the number.
\<close>

theorem Int_Val_roundtrip:
  assumes "2 \<le> unat base" "unat base \<le> 16"
  shows "\<exists>xs. Val_int32 num base = Inr xs \<and> str_Int (xs @ [0]) base = Inr num"
  using Val_int32_digits [OF assms, of num] Int_Val_roundtrip_aux [OF assms] by blast

theorem Int_Val_roundtrip_witness:
  "\<exists>xs. Val_int32 (- 255) 16 = Inr xs \<and> str_Int (xs @ [0]) 16 = Inr (- 255)"
  using Int_Val_roundtrip [of 16 "- 255"] by simp

text \<open>
  The 64-bit Val loses the upper half of negative numbers, so two different numbers
  have the same text, and in base 2 a large number overruns the 34-byte buffer.
\<close>

theorem Val_int64_defects:
  "Val_int64 (- 1) 10 = Val_int64 (- 4294967297) 10 \<and> Val_uint64 (- 1) 2 = Inl Mem_Fault"
proof
  have "(ucast ((ucast (NOT (- 1 :: u64)) :: u32) + 1) :: u64)
      = ucast ((ucast (NOT (- 4294967297 :: u64)) :: u32) + 1)" by simp
  moreover have "(- 1 :: u64) <s 0" "(- 4294967297 :: u64) <s 0" by (simp_all add: word_sless_alt)
  ultimately show "Val_int64 (- 1) 10 = Val_int64 (- 4294967297) 10"
    unfolding Val_int64_def Let_def by (simp only: if_True simp_thms)
  have b2: "unat (scast (2 :: u32) :: u64) = 2" by (simp add: scast_eq)
  have "unat (- 1 :: u64) = 2 ^ 64 - 1" by (simp add: unsigned_minus_1_eq_mask mask_eq_exp_minus_1)
  then have "(2 :: nat) ^ 33 \<le> unat (- 1 :: u64)" by simp
  then have "33 < length (hexdigits 2 (unat (- 1 :: u64)))"
    using hexdigits_length_gt [of 2 33] by simp
  then have "val_loop (- 1 :: u64) (scast (2 :: u32)) 33 val_buf = Inl Mem_Fault"
    by (intro val_loop_fault [OF b2]) auto
  then show "Val_uint64 (- 1) 2 = Inl Mem_Fault"
    by (simp add: Val_uint64_def word_sless_alt)
qed

text \<open>
  escape maps NUL-free texts injectively to printable ASCII, and unescape inverts it.
\<close>

theorem unescape_escape:
  assumes "0 \<notin> set xs"
  shows "unescape (escape xs) = xs \<and> (\<forall>c \<in> set (escape xs). 0x20 \<le> c \<and> c \<le> 0x7f)"
  using esc.dec_enc [of xs] assms escape_char_printable by (auto simp: escape_concat)

theorem unescape_escape_witness: "unescape (escape [10, 34, 200]) = [10, 34, 200]"
  using unescape_escape [of "[10, 34, 200]"] by simp

text \<open>
  The escaped text really is what a \<open>SRL::String\<close> grown by \<open>+=\<close> holds: pushing the
  bytes of escape onto an empty string succeeds while there is room and stores them all.
\<close>

theorem escape_on_string:
  assumes "length (escape xs) + 16 < 2 ^ 32"
  shows "\<exists>s. push_all str_push (escape xs) str_empty = Inr s \<and> str_wf s \<and> content s = escape xs"
proof -
  have "str_room (length (escape xs)) str_empty"
    using assms by (simp add: str_room_def) (simp add: str_empty_def)
  then obtain s where s: "push_all str_push (escape xs) str_empty = Inr s" "str_wf s"
      "content s = content str_empty @ filter (\<lambda>c. c \<noteq> 0) (escape xs)"
    using str_sink.push_all_filter [OF str_wf_empty] by blast
  have "filter (\<lambda>c. c \<noteq> 0) (escape xs) = escape xs"
    using escape_char_printable by (intro filter_True) (force simp: escape_concat)
  then show ?thesis using s by simp
qed

theorem escape_on_string_witness:
  "\<exists>s. push_all str_push (escape [10]) str_empty = Inr s \<and> content s = [92, 110]"
  using escape_on_string [of "[10]"] by (auto simp: escape_def escape_char_def lit_def)

end
