(* ===== verification/Vec.thy ===== *)
theory Vec
  imports SRL_Prelude "HOL-Library.Multiset"
begin

text \<open>
  The two vectors of include/srl/util/Vector.h: \<open>Vector<Value>\<close> (prefix \<open>vec\<close>) and its
  specialisation \<open>Vector<Value*>\<close> (prefix \<open>pvec\<close>). Each is a record of the members;
  the empty list as array is the null pointer. An element of a fresh array is a default
  constructed (or indeterminate) object of which nothing is known.
\<close>

unbundle bit_operations_syntax

section \<open>State\<close>

record 'a vec =
  v_size :: u32
  v_init_size :: u32
  v_array_size :: u32
  v_array :: "'a list"
  v_end_pos :: u32

definition fresh_value :: 'a where
  "fresh_value = undefined"

definition vec_init :: "u32 \<Rightarrow> 'a vec" where
  "vec_init initial_size = \<lparr>v_size = 0, v_init_size = initial_size, v_array_size = 0, v_array = [],
     v_end_pos = 0\<rparr>"

definition index_error :: error where
  "index_error = Thrown ''IndexOutOfBoundsException''"

text \<open>The elements in use.\<close>

definition vec_list :: "'a vec \<Rightarrow> 'a list" where
  "vec_list v = take (unat (v_size v)) (v_array v)"

section \<open>Vector of values\<close>

definition vec_resize :: "u32 \<Rightarrow> 'a vec \<Rightarrow> 'a vec res" where
  "vec_resize size_needed v =
     (if 0 < size_needed then
        (let size_needed = (if size_needed < v_init_size v then v_init_size v else size_needed);
             new_size = ROUNDUP (size_needed + 1) 32
         in if new_size = v_array_size v then Inr v
            else if v_array v = [] then
              Inr (v\<lparr>v_array := replicate (unat new_size) fresh_value, v_array_size := new_size\<rparr>)
            else
              bindR (if v_array_size v < new_size \<and> 0 < v_size v
                     then blk_slice (v_array v) 0 (unat (v_size v)) else Inr []) (\<lambda>kept.
              bindR (blk_put (replicate (unat new_size) fresh_value) 0 kept) (\<lambda>a.
              Inr (v\<lparr>v_array := a, v_array_size := new_size\<rparr>))))
      else if v_array v \<noteq> [] then
        Inr (v\<lparr>v_size := 0, v_end_pos := 0, v_array_size := 0, v_array := []\<rparr>)
      else Inr v)"

definition vec_new :: "u32 \<Rightarrow> 'a vec res" where
  "vec_new initial_size = vec_resize initial_size (vec_init initial_size)"

definition vec_destroy :: "'a vec \<Rightarrow> 'a vec res" where
  "vec_destroy v = vec_resize 0 v"

definition vec_add :: "'a \<Rightarrow> 'a vec \<Rightarrow> 'a vec res" where
  "vec_add x v = bindR (vec_resize (v_size v + 1) v) (\<lambda>v.
     bindR (blk_write (v_array v) (unat (v_size v)) x) (\<lambda>a.
     Inr (v\<lparr>v_array := a, v_size := v_size v + 1, v_end_pos := v_end_pos v + 1\<rparr>)))"

definition vec_addAt :: "u32 \<Rightarrow> 'a \<Rightarrow> 'a vec \<Rightarrow> 'a vec res" where
  "vec_addAt index x v = (if v_size v \<le> index then Inl index_error else
     bindR (vec_resize (v_size v + 1) v) (\<lambda>v.
     bindR (if index \<noteq> v_size v - 1
            then blk_move (v_array v) (unat (index + 1)) (unat index) (unat (v_size v - index))
            else Inr (v_array v)) (\<lambda>a.
     bindR (blk_write a (unat index) x) (\<lambda>a.
     Inr (v\<lparr>v_array := a, v_size := v_size v + 1, v_end_pos := v_end_pos v + 1\<rparr>)))))"

definition vec_removeAt :: "u32 \<Rightarrow> 'a vec \<Rightarrow> 'a vec res" where
  "vec_removeAt index v = (if v_size v \<le> index then Inl index_error else
     bindR (if index \<noteq> v_size v - 1
            then blk_move (v_array v) (unat index) (unat (index + 1)) (unat (v_size v - (index + 1)))
            else Inr (v_array v)) (\<lambda>a.
     let v = v\<lparr>v_array := a, v_size := v_size v - 1, v_end_pos := v_end_pos v - 1\<rparr> in
     if v_init_size v < v_size v then vec_resize (v_size v) v else Inr v))"

definition vec_clear :: "'a vec \<Rightarrow> 'a vec res" where
  "vec_clear v = bindR (vec_resize (v_init_size v) v) (\<lambda>v. Inr (v\<lparr>v_size := 0, v_end_pos := 0\<rparr>))"

text \<open>The result of \<open>set\<close> is a reference into the array, read after the assignment.\<close>

definition vec_set :: "u32 \<Rightarrow> 'a \<Rightarrow> 'a vec \<Rightarrow> ('a \<times> 'a vec) res" where
  "vec_set index x v = (if v_size v \<le> index then Inl index_error else
     bindR (blk_write (v_array v) (unat index) x) (\<lambda>a.
     bindR (blk_read a (unat index)) (\<lambda>old_value.
     Inr (old_value, v\<lparr>v_array := a\<rparr>))))"

definition vec_get :: "u32 \<Rightarrow> 'a vec \<Rightarrow> 'a res" where
  "vec_get index v = (if v_size v \<le> index then Inl index_error else blk_read (v_array v) (unat index))"

fun position_from :: "'a list \<Rightarrow> 'a \<Rightarrow> nat \<Rightarrow> u32" where
  "position_from [] x i = - 1"
| "position_from (y # ys) x i = (if y = x then of_nat i else position_from ys x (Suc i))"

definition vec_positionOf :: "'a \<Rightarrow> u32 \<Rightarrow> 'a vec \<Rightarrow> u32" where
  "vec_positionOf x start_index v =
     position_from (drop (unat start_index) (vec_list v)) x (unat start_index)"

definition vec_containsValue :: "'a \<Rightarrow> 'a vec \<Rightarrow> bool" where
  "vec_containsValue x v = (0 \<le>s vec_positionOf x 0 v)"

definition vec_remove :: "'a \<Rightarrow> 'a vec \<Rightarrow> 'a vec res" where
  "vec_remove x v = vec_removeAt (vec_positionOf x 0 v) v"

definition vec_eq :: "'a vec \<Rightarrow> 'a vec \<Rightarrow> bool" where
  "vec_eq v w = (if v_size v \<noteq> v_size w then False
     else list_all2 (=) (vec_list v) (vec_list w))"

section \<open>Sorting\<close>

text \<open>The template's \<open>operator<=\<close> on elements is the parameter \<open>le\<close>.\<close>

definition arr_swap :: "nat \<Rightarrow> nat \<Rightarrow> 'a list \<Rightarrow> 'a list res" where
  "arr_swap a b arr = bindR (blk_read arr a) (\<lambda>t. bindR (blk_read arr b) (\<lambda>u.
     bindR (blk_write arr a u) (\<lambda>arr. blk_write arr b t)))"

function partition_loop :: "('a \<Rightarrow> 'a \<Rightarrow> bool) \<Rightarrow> 'a \<Rightarrow> nat \<Rightarrow> nat \<Rightarrow> nat \<Rightarrow> 'a list \<Rightarrow> (nat \<times> 'a list) res" where
  "partition_loop le pivotValue right index i arr = (if i < right then
     bindR (blk_read arr i) (\<lambda>x.
     if le x pivotValue then
       bindR (if index \<noteq> i then arr_swap index i arr else Inr arr) (\<lambda>arr.
       if right \<le> index then Inr (index, arr)
       else partition_loop le pivotValue right (index + 1) (i + 1) arr)
     else partition_loop le pivotValue right index (i + 1) arr)
   else Inr (index, arr))"
  by pat_completeness auto
termination by (relation "measure (\<lambda>(le, pv, right, index, i, arr). right - i)") auto

declare partition_loop.simps [simp del]

definition partition_at :: "('a \<Rightarrow> 'a \<Rightarrow> bool) \<Rightarrow> u32 \<Rightarrow> u32 \<Rightarrow> u32 \<Rightarrow> 'a list \<Rightarrow> (u32 \<times> 'a list) res" where
  "partition_at le left right pivot arr =
     bindR (blk_read arr (unat pivot)) (\<lambda>pivotValue.
     bindR (arr_swap (unat pivot) (unat right) arr) (\<lambda>arr.
     bindR (partition_loop le pivotValue (unat right) (unat left) (unat left) arr) (\<lambda>(index, arr).
     bindR (arr_swap (unat right) index arr) (\<lambda>arr. Inr (of_nat index, arr)))))"

fun quicksort :: "nat \<Rightarrow> ('a \<Rightarrow> 'a \<Rightarrow> bool) \<Rightarrow> u32 \<Rightarrow> u32 \<Rightarrow> 'a list \<Rightarrow> 'a list res" where
  "quicksort 0 le left right arr = Inl Out_Of_Fuel"
| "quicksort (Suc fuel) le left right arr =
     (if left < right - 1 then
        bindR (partition_at le left right left arr) (\<lambda>(pivot, arr).
        if left < pivot \<and> pivot < right then
          bindR (quicksort fuel le left (pivot - 1) arr) (\<lambda>arr.
          quicksort fuel le (pivot + 1) right arr)
        else Inr arr)
      else Inr arr)"

definition vec_sort :: "nat \<Rightarrow> ('a \<Rightarrow> 'a \<Rightarrow> bool) \<Rightarrow> 'a vec \<Rightarrow> 'a vec res" where
  "vec_sort fuel le v = bindR (quicksort fuel le 0 (v_size v - 1) (v_array v)) (\<lambda>a. Inr (v\<lparr>v_array := a\<rparr>))"

section \<open>Iterators\<close>

text \<open>An iterator is its position; the vector it belongs to is passed along.\<close>

definition iter_begin :: u32 where
  "iter_begin = 0"

definition iter_end :: "'a vec \<Rightarrow> u32" where
  "iter_end v = v_end_pos v"

definition iter_next :: "u32 \<Rightarrow> u32" where
  "iter_next pos = pos + 1"

definition iter_prev :: "u32 \<Rightarrow> u32" where
  "iter_prev pos = pos - 1"

definition iter_forward :: "u32 \<Rightarrow> u32 \<Rightarrow> u32" where
  "iter_forward n pos = (if n \<noteq> 0 then pos + n else pos + 1)"

definition iter_back :: "u32 \<Rightarrow> u32 \<Rightarrow> u32" where
  "iter_back n pos = (if n \<noteq> 0 then pos - n else pos - 1)"

definition iter_value :: "u32 \<Rightarrow> 'a vec \<Rightarrow> 'a res" where
  "iter_value pos v = vec_get pos v"

definition vec_erase :: "u32 \<Rightarrow> 'a vec \<Rightarrow> (u32 \<times> 'a vec) res" where
  "vec_erase pos v = bindR (vec_removeAt pos v) (\<lambda>v. Inr (pos, v))"

section \<open>Vector of pointers\<close>

text \<open>Elements are addresses; the null pointer is 0.\<close>

type_synonym ptr = u64

definition pvec_resize :: "u32 \<Rightarrow> ptr vec \<Rightarrow> ptr vec res" where
  "pvec_resize size_needed v =
     (if 0 < size_needed then
        (let size_needed = (if size_needed < v_init_size v then v_init_size v else size_needed);
             new_size = ROUNDUP (size_needed + 1) 16
         in if new_size = v_array_size v then Inr v
            else (let a = take (unat new_size) (v_array v)
                    @ replicate (unat new_size - length (v_array v)) fresh_value
                  in bindR (blk_write a (unat (v_size v)) 0) (\<lambda>a.
                     Inr (v\<lparr>v_array_size := new_size, v_array := a\<rparr>))))
      else if v_array v \<noteq> [] then
        Inr (v\<lparr>v_size := 0, v_end_pos := 0, v_array_size := 0, v_array := []\<rparr>)
      else Inr v)"

definition pvec_new :: "u32 \<Rightarrow> ptr vec res" where
  "pvec_new initial_size = pvec_resize initial_size (vec_init initial_size)"

definition pvec_destroy :: "ptr vec \<Rightarrow> ptr vec res" where
  "pvec_destroy v = pvec_resize 0 v"

definition pvec_add :: "ptr \<Rightarrow> ptr vec \<Rightarrow> ptr vec res" where
  "pvec_add x v = bindR (pvec_resize (v_size v + 1) v) (\<lambda>v.
     bindR (blk_write (v_array v) (unat (v_size v)) x) (\<lambda>a.
     Inr (v\<lparr>v_array := a, v_size := v_size v + 1, v_end_pos := v_end_pos v + 1\<rparr>)))"

definition pvec_addAt :: "u32 \<Rightarrow> ptr \<Rightarrow> ptr vec \<Rightarrow> ptr vec res" where
  "pvec_addAt index x v = (if v_size v \<le> index then Inl index_error else
     bindR (pvec_resize (v_size v + 1) v) (\<lambda>v.
     bindR (if index \<noteq> v_size v - 1
            then blk_move (v_array v) (unat (index + 1)) (unat index) (unat (v_size v - index))
            else Inr (v_array v)) (\<lambda>a.
     bindR (blk_write a (unat index) x) (\<lambda>a.
     Inr (v\<lparr>v_array := a, v_size := v_size v + 1, v_end_pos := v_end_pos v + 1\<rparr>)))))"

definition pvec_removeAt :: "u32 \<Rightarrow> ptr vec \<Rightarrow> ptr vec res" where
  "pvec_removeAt index v = (if v_size v \<le> index then Inl index_error else
     bindR (if index \<noteq> v_size v - 1
            then blk_move (v_array v) (unat index) (unat (index + 1)) (unat (v_size v - (index + 1)))
            else Inr (v_array v)) (\<lambda>a.
     let v = v\<lparr>v_array := a, v_size := v_size v - 1, v_end_pos := v_end_pos v - 1\<rparr> in
     if v_init_size v < v_size v then pvec_resize (v_size v) v else Inr v))"

definition pvec_get :: "u32 \<Rightarrow> ptr vec \<Rightarrow> ptr res" where
  "pvec_get index v = (if v_size v \<le> index then Inl index_error else blk_read (v_array v) (unat index))"

definition pvec_pop :: "u32 \<Rightarrow> ptr vec \<Rightarrow> (ptr \<times> ptr vec) res" where
  "pvec_pop index v = (let pos = (if index = - 1 then v_size v - 1 else index) in
     bindR (pvec_get pos v) (\<lambda>val. bindR (pvec_removeAt pos v) (\<lambda>v. Inr (val, v))))"

text \<open>\<open>clear\<close> also returns the addresses it passes to \<open>delete\<close>.\<close>

definition pvec_clear :: "bool \<Rightarrow> ptr vec \<Rightarrow> (ptr list \<times> ptr vec) res" where
  "pvec_clear do_delete v =
     bindR (if do_delete then blk_slice (v_array v) 0 (unat (v_size v)) else Inr []) (\<lambda>deleted.
     bindR (pvec_resize (v_init_size v) (v\<lparr>v_size := 0\<rparr>)) (\<lambda>v.
     Inr (deleted, v\<lparr>v_end_pos := 0\<rparr>)))"

definition pvec_set :: "u32 \<Rightarrow> ptr \<Rightarrow> ptr vec \<Rightarrow> (ptr \<times> ptr vec) res" where
  "pvec_set index x v = (if v_size v \<le> index then Inl index_error else
     bindR (blk_read (v_array v) (unat index)) (\<lambda>old_value.
     bindR (blk_write (v_array v) (unat index) x) (\<lambda>a.
     Inr (old_value, v\<lparr>v_array := a\<rparr>))))"

definition pvec_positionOf :: "ptr \<Rightarrow> u32 \<Rightarrow> ptr vec \<Rightarrow> u32" where
  "pvec_positionOf x start_index v =
     position_from (drop (unat start_index) (vec_list v)) x (unat start_index)"

definition pvec_hasValue :: "ptr \<Rightarrow> ptr vec \<Rightarrow> bool" where
  "pvec_hasValue x v = (0 \<le>s pvec_positionOf x 0 v)"

definition pvec_containsValue :: "ptr \<Rightarrow> ptr vec \<Rightarrow> bool" where
  "pvec_containsValue x v = (0 \<le>s pvec_positionOf x 0 v)"

definition pvec_remove :: "ptr \<Rightarrow> ptr vec \<Rightarrow> ptr vec res" where
  "pvec_remove x v = pvec_removeAt (pvec_positionOf x 0 v) v"

definition pvec_eq :: "ptr vec \<Rightarrow> ptr vec \<Rightarrow> bool" where
  "pvec_eq v w = (if v_size v \<noteq> v_size w then False
     else list_all2 (=) (vec_list v) (vec_list w))"

text \<open>The bodies of \<open>quicksort\<close> and of the loop of \<open>partition\<close> are commented out here.\<close>

definition pvec_partition :: "u32 \<Rightarrow> u32 \<Rightarrow> u32 \<Rightarrow> ptr vec \<Rightarrow> (u32 \<times> ptr vec) res" where
  "pvec_partition left right pivot v = bindR (blk_read (v_array v) (unat pivot)) (\<lambda>_.
     bindR (arr_swap (unat pivot) (unat right) (v_array v)) (\<lambda>a. Inr (left, v\<lparr>v_array := a\<rparr>)))"

definition pvec_quicksort :: "u32 \<Rightarrow> u32 \<Rightarrow> ptr vec \<Rightarrow> ptr vec" where
  "pvec_quicksort left right v = v"

definition pvec_sort :: "ptr vec \<Rightarrow> ptr vec" where
  "pvec_sort v = pvec_quicksort 0 (v_size v - 1) v"

definition pvec_erase :: "u32 \<Rightarrow> ptr vec \<Rightarrow> (u32 \<times> ptr vec) res" where
  "pvec_erase pos v = bindR (pvec_removeAt pos v) (\<lambda>v. Inr (pos, v))"

end
