(* ===== verification/Vec_Props.thy ===== *)
theory Vec_Props
  imports Vec
begin

text \<open>
  Invariant and behaviour of the two vectors. The interface \<open>growable_seq\<close> states what a
  client may expect of add and get; both vectors provide it.
\<close>

unbundle bit_operations_syntax

section \<open>The interface\<close>

fun add_all :: "('a \<Rightarrow> 'v \<Rightarrow> 'v res) \<Rightarrow> 'a list \<Rightarrow> 'v \<Rightarrow> 'v res" where
  "add_all add [] v = Inr v"
| "add_all add (x # xs) v = bindR (add x v) (add_all add xs)"

locale growable_seq =
  fixes ok :: "'v \<Rightarrow> bool" and elems :: "'v \<Rightarrow> 'a list" and limit :: nat
    and add :: "'a \<Rightarrow> 'v \<Rightarrow> 'v res" and get :: "u32 \<Rightarrow> 'v \<Rightarrow> 'a res"
  assumes add_elems: "ok v \<Longrightarrow> length (elems v) < limit \<Longrightarrow>
      \<exists>v'. add x v = Inr v' \<and> ok v' \<and> elems v' = elems v @ [x]"
    and get_elems: "ok v \<Longrightarrow> get i v
      = (if unat i < length (elems v) then Inr (elems v ! unat i) else Inl index_error)"
begin

lemma add_all_elems:
  "ok v \<Longrightarrow> length (elems v) + length xs \<le> limit \<Longrightarrow>
   \<exists>v'. add_all add xs v = Inr v' \<and> ok v' \<and> elems v' = elems v @ xs"
proof (induction xs arbitrary: v)
  case (Cons x xs)
  obtain v1 where v1: "add x v = Inr v1" "ok v1" "elems v1 = elems v @ [x]"
    using add_elems [of v x] Cons.prems by auto
  obtain v2 where "add_all add xs v1 = Inr v2" "ok v2" "elems v2 = elems v1 @ xs"
    using Cons.IH [OF v1(2)] v1(3) Cons.prems(2) by auto
  then show ?case using v1 by auto
qed simp

lemma get_add_all:
  assumes "ok v" "elems v = []" "length xs \<le> limit" "length xs < 2 ^ 32" "i < length xs"
  shows "\<exists>v'. add_all add xs v = Inr v' \<and> get (of_nat i) v' = Inr (xs ! i)"
  using add_all_elems [OF assms(1), of xs] assms by (auto simp: get_elems)

end

section \<open>Vector of values\<close>

definition vec_cap :: "nat \<Rightarrow> 'a vec \<Rightarrow> nat" where
  "vec_cap n v = 32 * ((max n (unat (v_init_size v)) + 32) div 32)"

definition vec_wf :: "'a vec \<Rightarrow> bool" where
  "vec_wf v = (length (v_array v) = unat (v_array_size v) \<and> v_size v \<le> v_array_size v
     \<and> v_end_pos v = v_size v \<and> 32 dvd unat (v_array_size v)
     \<and> unat (v_init_size v) + 64 < 2 ^ 32)"

text \<open>The array is no larger than the next add needs, so that add never shrinks it.\<close>

definition vec_tight :: "'a vec \<Rightarrow> bool" where
  "vec_tight v = (vec_wf v \<and> unat (v_array_size v) \<le> vec_cap (unat (v_size v) + 1) v)"

lemma vec_wf_size: "vec_wf v \<Longrightarrow> unat (v_size v) \<le> length (v_array v)"
  by (simp add: vec_wf_def word_le_nat_alt)

lemma vec_target:
  assumes "max (unat n) (unat (v_init_size v)) + 64 < 2 ^ 32"
  shows "unat (ROUNDUP ((if n < v_init_size v then v_init_size v else n) + 1) 32) = vec_cap (unat n) v"
proof -
  let ?m = "if n < v_init_size v then v_init_size v else n"
  have m: "unat ?m = max (unat n) (unat (v_init_size v))" by (auto simp: word_less_nat_alt)
  have "unat (?m + 1) = unat ?m + 1" using assms m unat_plus_small [of ?m 1] by simp
  then show ?thesis using assms m by (subst unat_ROUNDUP_32) (auto simp: vec_cap_def algebra_simps)
qed

text \<open>Resizing to more than 0: the same array, a copy when it grows, a fresh one when it shrinks.\<close>

lemma vec_resize_cases:
  assumes w: "vec_wf v" and n: "0 < n" "unat n + 64 < 2 ^ 32" "unat (v_size v) \<le> vec_cap (unat n) v"
  shows "\<exists>v'. vec_resize n v = Inr v' \<and> vec_wf v' \<and> v_size v' = v_size v \<and> v_init_size v' = v_init_size v
    \<and> unat (v_array_size v') = vec_cap (unat n) v
    \<and> vec_list v' = (if unat (v_array_size v) \<le> vec_cap (unat n) v then vec_list v
        else replicate (unat (v_size v)) fresh_value)"
proof -
  let ?c = "vec_cap (unat n) v"
  let ?r = "ROUNDUP ((if n < v_init_size v then v_init_size v else n) + 1) 32"
  have b: "max (unat n) (unat (v_init_size v)) + 64 < 2 ^ 32" using w n by (simp add: vec_wf_def)
  have r: "unat ?r = ?c" using vec_target [OF b] .
  have len: "length (v_array v) = unat (v_array_size v)" using w by (simp add: vec_wf_def)
  have dv: "32 dvd ?c" by (simp add: vec_cap_def)
  have sr: "v_size v \<le> ?r" using n(3) r by (simp add: word_le_nat_alt)
  have rep: "max (unat n) (unat (v_init_size v)) + 1 \<le> ?c" unfolding vec_cap_def by linarith
  show ?thesis
  proof (cases "?r = v_array_size v")
    case True
    then show ?thesis using w n r by (auto simp: vec_resize_def Let_def)
  next
    case ne: False
    show ?thesis
    proof (cases "v_array v = []")
      case True
      then have z: "v_size v = 0" using vec_wf_size [OF w] by (simp add: unat_eq_zero)
      let ?v = "v\<lparr>v_array := replicate ?c fresh_value, v_array_size := ?r\<rparr>"
      have "vec_resize n v = Inr ?v"
        unfolding vec_resize_def Let_def using n(1) ne True r by (simp only: if_True if_False simp_thms)
      moreover have "vec_wf ?v" using w r dv z by (simp add: vec_wf_def)
      ultimately show ?thesis using r z True by (auto simp: vec_list_def)
    next
      case False
      let ?kept = "if v_array_size v < ?r \<and> 0 < v_size v then vec_list v else []"
      let ?a = "?kept @ replicate (?c - length ?kept) fresh_value"
      let ?v = "v\<lparr>v_array := ?a, v_array_size := ?r\<rparr>"
      have lv: "length (vec_list v) = unat (v_size v)" using vec_wf_size [OF w] by (simp add: vec_list_def)
      have kl: "length ?kept \<le> ?c" using lv n(3) by simp
      have sl: "(if v_array_size v < ?r \<and> 0 < v_size v then blk_slice (v_array v) 0 (unat (v_size v)) else Inr [])
          = Inr ?kept"
        using vec_wf_size [OF w] by (simp add: blk_slice_def vec_list_def)
      have pt: "blk_put (replicate (unat ?r) fresh_value) 0 ?kept = Inr ?a"
        using kl r by (simp add: blk_put_def)
      have "vec_resize n v = Inr ?v"
        unfolding vec_resize_def Let_def using n(1) ne False
        by (simp only: if_True if_False simp_thms sl bindR_simps pt)
      moreover have "vec_wf ?v" using w r dv kl sr by (simp add: vec_wf_def)
      moreover have "vec_list ?v = (if unat (v_array_size v) \<le> ?c then vec_list v
          else replicate (unat (v_size v)) fresh_value)"
      proof -
        have "v_array_size v < ?r \<longleftrightarrow> unat (v_array_size v) \<le> ?c"
          using ne r by (metis le_neq_implies_less less_imp_le word_less_nat_alt word_unat_eq_iff)
        moreover have "\<not> 0 < v_size v \<Longrightarrow> unat (v_size v) = 0" by (simp add: word_gt_0)
        ultimately show ?thesis using lv n(3) by (auto simp: vec_list_def min_def)
      qed
      ultimately show ?thesis using r by (intro exI [of _ ?v]) simp
    qed
  qed
qed


lemma vec_cap_gt: "n < vec_cap n v"
  unfolding vec_cap_def by linarith

lemma length_vec_list: "vec_wf v \<Longrightarrow> length (vec_list v) = unat (v_size v)"
  using vec_wf_size [of v] by (simp add: vec_list_def)

lemma vec_add_ok:
  assumes t: "vec_tight v" and b: "unat (v_size v) + 65 < 2 ^ 32"
  shows "\<exists>v'. vec_add x v = Inr v' \<and> vec_tight v' \<and> vec_list v' = vec_list v @ [x]
    \<and> v_init_size v' = v_init_size v"
proof -
  let ?n = "unat (v_size v)"
  have w: "vec_wf v" using t by (simp add: vec_tight_def)
  have n: "unat (v_size v + 1) = ?n + 1" using b unat_plus_small [of "v_size v" 1] by simp
  have pos: "0 < v_size v + 1" using n by (simp add: word_less_nat_alt)
  have c: "?n + 1 < vec_cap (?n + 1) v" by (rule vec_cap_gt)
  obtain v1 where v1: "vec_resize (v_size v + 1) v = Inr v1" "vec_wf v1" "v_size v1 = v_size v"
      "v_init_size v1 = v_init_size v" "unat (v_array_size v1) = vec_cap (?n + 1) v"
      "vec_list v1 = vec_list v"
    using vec_resize_cases [OF w pos] t b c unfolding n vec_tight_def by auto
  have l: "?n + 1 < length (v_array v1)" using v1 c by (simp add: vec_wf_def)
  let ?v = "v1\<lparr>v_array := (v_array v1)[?n := x], v_size := v_size v + 1, v_end_pos := v_end_pos v1 + 1\<rparr>"
  have "vec_add x v = Inr ?v" using v1 l by (simp add: vec_add_def blk_simps)
  moreover have "vec_wf ?v"
    using v1 n c by (simp add: vec_wf_def word_le_nat_alt)
  moreover have "vec_tight ?v"
    using calculation(2) v1 n by (auto simp: vec_tight_def vec_cap_def intro!: div_le_mono)
  moreover have "vec_list ?v = vec_list v @ [x]"
    using v1(3,6) n l by (simp add: vec_list_def take_Suc_conv_app_nth)
  ultimately show ?thesis using v1 by auto
qed

lemma vec_get_eq:
  assumes "vec_wf v"
  shows "vec_get i v = (if unat i < length (vec_list v) then Inr (vec_list v ! unat i) else Inl index_error)"
  using vec_wf_size [OF assms] length_vec_list [OF assms]
  by (auto simp: vec_get_def blk_read_def vec_list_def word_le_nat_alt not_le)

definition vec_ok :: "'a vec \<Rightarrow> bool" where
  "vec_ok v = (vec_tight v \<and> unat (v_size v) + 64 < 2 ^ 32)"

interpretation vals: growable_seq vec_ok vec_list "2 ^ 32 - 65" vec_add vec_get
proof unfold_locales
  show "\<exists>v'. vec_add x v = Inr v' \<and> vec_ok v' \<and> vec_list v' = vec_list v @ [x]"
    if "vec_ok v" "length (vec_list v) < 2 ^ 32 - 65" for v and x :: 'a
  proof -
    have w: "vec_wf v" and t: "vec_tight v" using that by (auto simp: vec_ok_def vec_tight_def)
    have n: "unat (v_size v) + 65 < 2 ^ 32" using that length_vec_list [OF w] by simp
    obtain v' where v': "vec_add x v = Inr v'" "vec_tight v'" "vec_list v' = vec_list v @ [x]"
      using vec_add_ok [OF t n] by blast
    have "unat (v_size v') = unat (v_size v) + 1"
      using v' length_vec_list [of v'] length_vec_list [OF w] by (simp add: vec_tight_def)
    then show ?thesis using v' n by (auto simp: vec_ok_def)
  qed
  show "vec_get i v = (if unat i < length (vec_list v) then Inr (vec_list v ! unat i) else Inl index_error)"
    if "vec_ok v" for v :: "'a vec" and i
    using that vec_get_eq [of v i] by (simp add: vec_ok_def vec_tight_def)
qed

section \<open>Inserting and removing\<close>

lemma vec_removeAt_ok:
  assumes w: "vec_wf v" and i: "unat i < unat (v_size v)" and b: "unat (v_size v) + 64 < 2 ^ 32"
  shows "\<exists>v'. vec_removeAt i v = Inr v' \<and> vec_wf v' \<and> vec_list v' =
    (if unat (v_init_size v) < unat (v_size v) - 1 \<and> vec_cap (unat (v_size v) - 1) v < unat (v_array_size v)
     then replicate (unat (v_size v) - 1) fresh_value
     else take (unat i) (vec_list v) @ drop (unat i + 1) (vec_list v))"
proof -
  let ?n = "unat (v_size v)" and ?i = "unat i"
  have u: "unat (v_size v - 1) = ?n - 1" using i by (simp add: unat_sub word_le_nat_alt)
  have i1: "unat (i + 1) = ?i + 1" using i b unat_plus_small [of i 1] by simp
  have m: "unat (v_size v - (i + 1)) = ?n - (?i + 1)" using i i1 by (simp add: unat_sub word_le_nat_alt)
  have l: "?n \<le> length (v_array v)" using vec_wf_size [OF w] .
  have last: "i = v_size v - 1 \<longleftrightarrow> ?i = ?n - 1" using u by (metis word_unat_eq_iff)
  let ?a = "if ?i \<noteq> ?n - 1
    then take ?i (v_array v) @ take (?n - (?i + 1)) (drop (?i + 1) (v_array v)) @ drop (?n - 1) (v_array v)
    else v_array v"
  let ?v = "v\<lparr>v_array := ?a, v_size := v_size v - 1, v_end_pos := v_end_pos v - 1\<rparr>"
  have mv: "(if i \<noteq> v_size v - 1 then blk_move (v_array v) ?i (unat (i + 1)) (unat (v_size v - (i + 1)))
      else Inr (v_array v)) = Inr ?a"
    using i l i1 m last by (simp add: blk_move_ok)
  have la: "length ?a = length (v_array v)" using i l by simp
  have wv: "vec_wf ?v"
    using w la u by (auto simp: vec_wf_def word_le_nat_alt intro: order_trans [OF diff_le_self])
  have lv: "vec_list ?v = take ?i (vec_list v) @ drop (?i + 1) (vec_list v)"
    using i l u by (auto simp: vec_list_def drop_take min_def le_antisym)
  have eq: "vec_removeAt i v = (if v_init_size v < v_size v - 1 then vec_resize (v_size v - 1) ?v else Inr ?v)"
    unfolding vec_removeAt_def Let_def using i mv by (simp add: word_le_nat_alt)
  obtain t where t: "vec_wf t" "vec_list t = take ?i (vec_list v) @ drop (?i + 1) (vec_list v)"
      "v_size t = v_size v - 1" "v_init_size t = v_init_size v" "v_array_size t = v_array_size v"
      "vec_removeAt i v = (if v_init_size v < v_size v - 1 then vec_resize (v_size v - 1) t else Inr t)"
    using wv lv eq by (rule_tac that [of ?v]) simp_all
  have cap: "vec_cap k t = vec_cap k v" for k using t(4) by (simp add: vec_cap_def)
  show ?thesis
  proof (cases "unat (v_init_size v) < ?n - 1")
    case True
    then have pos: "0 < v_size v - 1" using u by (simp add: word_less_nat_alt)
    have bb: "unat (v_size v - 1) + 64 < 2 ^ 32" using b u by simp
    have g: "unat (v_size t) \<le> vec_cap (unat (v_size v - 1)) t"
      using vec_cap_gt [of "?n - 1" v] u cap t(3) by simp
    obtain v' where v': "vec_resize (v_size v - 1) t = Inr v'" "vec_wf v'"
      "vec_list v' = (if unat (v_array_size t) \<le> vec_cap (unat (v_size v - 1)) t then vec_list t
        else replicate (unat (v_size t)) fresh_value)"
      using vec_resize_cases [OF t(1) pos bb g] by blast
    have "vec_removeAt i v = Inr v'" using True t(6) v'(1) u by (simp add: word_less_nat_alt)
    then show ?thesis using True v'(2,3) t(2,3,5) cap u by (auto simp: not_le)
  next
    case False
    then show ?thesis using t u by (auto simp: word_less_nat_alt)
  qed
qed

lemma vec_addAt_ok:
  assumes t: "vec_tight v" and i: "unat i < unat (v_size v)" and b: "unat (v_size v) + 65 < 2 ^ 32"
  shows "\<exists>v'. vec_addAt i x v = Inr v' \<and> vec_wf v' \<and>
    (if unat i = unat (v_size v) - 1
     then \<exists>y. vec_list v' = butlast (vec_list v) @ [x, y]
     else vec_list v' = take (unat i) (vec_list v) @ x # drop (unat i) (vec_list v))"
proof -
  let ?n = "unat (v_size v)" and ?i = "unat i"
  have w: "vec_wf v" using t by (simp add: vec_tight_def)
  have n: "unat (v_size v + 1) = ?n + 1" using b unat_plus_small [of "v_size v" 1] by simp
  have pos: "0 < v_size v + 1" using n by (simp add: word_less_nat_alt)
  have c: "?n + 1 < vec_cap (?n + 1) v" by (rule vec_cap_gt)
  obtain v1 where v1: "vec_resize (v_size v + 1) v = Inr v1" "vec_wf v1" "v_size v1 = v_size v"
      "unat (v_array_size v1) = vec_cap (?n + 1) v" "vec_list v1 = vec_list v"
    using vec_resize_cases [OF w pos] t b c unfolding n vec_tight_def by auto
  have l: "?n + 1 < length (v_array v1)" using v1 c by (simp add: vec_wf_def)
  have i1: "unat (i + 1) = ?i + 1" using i b unat_plus_small [of i 1] by simp
  have u: "unat (v_size v - 1) = ?n - 1" using i by (simp add: unat_sub word_le_nat_alt)
  have m: "unat (v_size v - i) = ?n - ?i" using i by (simp add: unat_sub word_le_nat_alt)
  have last: "i = v_size v - 1 \<longleftrightarrow> ?i = ?n - 1" using u by (metis word_unat_eq_iff)
  let ?a = "if ?i \<noteq> ?n - 1
    then take (?i + 1) (v_array v1) @ take (?n - ?i) (drop ?i (v_array v1)) @ drop (?n + 1) (v_array v1)
    else v_array v1"
  let ?v = "v1\<lparr>v_array := ?a[?i := x], v_size := v_size v + 1, v_end_pos := v_end_pos v1 + 1\<rparr>"
  have la: "length ?a = length (v_array v1)"
  proof (cases "?i = ?n - 1")
    case False
    then have "?i + 1 + (?n - ?i) + (length (v_array v1) - (?n + 1)) = length (v_array v1)" using i l by linarith
    then show ?thesis using False i l by simp
  qed simp
  have mv: "(if i \<noteq> v_size v - 1 then blk_move (v_array v1) (unat (i + 1)) ?i (unat (v_size v - i))
      else Inr (v_array v1)) = Inr ?a"
    using i l i1 m last by (simp add: blk_move_ok)
  have wr: "blk_write ?a ?i x = Inr (?a[?i := x])"
    using i l unfolding la [symmetric] by (intro blk_write_ok) linarith
  have ni: "\<not> v_size v \<le> i" using i by (simp add: word_le_nat_alt)
  have eq: "vec_addAt i x v = Inr ?v"
    by (simp only: vec_addAt_def v1(1,3) ni if_False bindR_simps mv wr)
  have wv: "vec_wf ?v" using v1 n c la by (simp add: vec_wf_def word_le_nat_alt)
  have pre: "take ?n (v_array v1) = vec_list v" using v1 by (simp add: vec_list_def)
  have lv: "length (vec_list v) = ?n" using length_vec_list [OF w] .
  show ?thesis
  proof (cases "?i = ?n - 1")
    case True
    have s: "?n = Suc ?i" using True i by simp
    have "vec_list ?v = take ?i (v_array v1) @ [x, v_array v1 ! ?n]"
      using True l n s by (simp add: vec_list_def take_Suc_conv_app_nth list_update_append)
    moreover have "take ?i (v_array v1) = butlast (vec_list v)"
      using s pre by (metis butlast_take diff_Suc_1 l less_imp_le add_lessD1)
    ultimately show ?thesis using eq wv True by auto
  next
    case False
    have s: "Suc ?i < ?n" using False i by simp
    have "take (?n + 1) ?a = take (?i + 1) (v_array v1) @ take (?n - ?i) (drop ?i (v_array v1))"
      using False l s by (simp add: min_def)
    moreover have "take (?n - ?i) (drop ?i (v_array v1)) = drop ?i (vec_list v)"
      unfolding pre [symmetric] by (simp add: drop_take)
    moreover have "take (?i + 1) (v_array v1) = take ?i (vec_list v) @ [v_array v1 ! ?i]"
      unfolding pre [symmetric] using s l by (simp add: take_Suc_conv_app_nth min_def)
    ultimately have tk: "take (?n + 1) ?a = take ?i (vec_list v) @ v_array v1 ! ?i # drop ?i (vec_list v)" by simp
    have "vec_list ?v = (take (?n + 1) ?a)[?i := x]"
      using n by (simp add: vec_list_def take_update_swap)
    also have "\<dots> = take ?i (vec_list v) @ x # drop ?i (vec_list v)"
      unfolding tk using lv i by (simp add: list_update_append)
    finally show ?thesis using eq wv False by simp
  qed
qed


section \<open>Vector of pointers\<close>

definition pvec_cap :: "nat \<Rightarrow> ptr vec \<Rightarrow> nat" where
  "pvec_cap n v = 16 * ((max n (unat (v_init_size v)) + 16) div 16)"

definition pvec_wf :: "ptr vec \<Rightarrow> bool" where
  "pvec_wf v = (length (v_array v) = unat (v_array_size v) \<and> v_size v \<le> v_array_size v
     \<and> v_end_pos v = v_size v \<and> unat (v_init_size v) + 64 < 2 ^ 32 \<and> unat (v_size v) + 64 < 2 ^ 32)"

lemma pvec_wf_size: "pvec_wf v \<Longrightarrow> unat (v_size v) \<le> length (v_array v)"
  by (simp add: pvec_wf_def word_le_nat_alt)

lemma length_pvec_list: "pvec_wf v \<Longrightarrow> length (vec_list v) = unat (v_size v)"
  using pvec_wf_size [of v] by (simp add: vec_list_def)

lemma pvec_cap_gt: "n < pvec_cap n v"
  unfolding pvec_cap_def by linarith

text \<open>\<open>realloc\<close> keeps the elements whether the array grows or shrinks.\<close>

lemma pvec_resize_ok:
  assumes w: "pvec_wf v" and n: "0 < n" "unat n + 64 < 2 ^ 32" "unat (v_size v) \<le> unat n"
  shows "\<exists>v'. pvec_resize n v = Inr v' \<and> pvec_wf v' \<and> v_size v' = v_size v \<and> v_end_pos v' = v_end_pos v
    \<and> v_init_size v' = v_init_size v \<and> unat n < length (v_array v') \<and> vec_list v' = vec_list v"
proof -
  let ?m = "if n < v_init_size v then v_init_size v else n"
  let ?r = "ROUNDUP (?m + 1) 16"
  have m: "unat ?m = max (unat n) (unat (v_init_size v))" by (auto simp: word_less_nat_alt)
  have b: "max (unat n) (unat (v_init_size v)) + 64 < 2 ^ 32" using w n by (simp add: pvec_wf_def)
  have m1: "unat (?m + 1) = unat ?m + 1" using b m unat_plus_small [of ?m 1] by simp
  then have r: "unat ?r = pvec_cap (unat n) v"
    using b m by (subst unat_ROUNDUP_16) (auto simp: pvec_cap_def algebra_simps)
  have c: "unat n < pvec_cap (unat n) v" by (rule pvec_cap_gt)
  show ?thesis
  proof (cases "?r = v_array_size v")
    case True
    then have "pvec_resize n v = Inr v" using n by (simp add: pvec_resize_def Let_def)
    moreover have "unat n < length (v_array v)" using True r c w by (simp add: pvec_wf_def)
    ultimately show ?thesis using w by blast
  next
    case False
    let ?b = "take (unat ?r) (v_array v) @ replicate (unat ?r - length (v_array v)) fresh_value"
    have lb: "length ?b = unat ?r" by simp
    have "unat (v_size v) < length ?b" using lb r c n(3) by simp
    then have wr: "blk_write ?b (unat (v_size v)) 0 = Inr (?b[unat (v_size v) := 0])" by (rule blk_write_ok)
    let ?v = "v\<lparr>v_array_size := ?r, v_array := ?b[unat (v_size v) := 0]\<rparr>"
    have "pvec_resize n v = Inr ?v"
      unfolding pvec_resize_def Let_def using n(1) False by (simp only: if_True if_False simp_thms wr bindR_simps)
    moreover have "vec_list ?v = vec_list v"
      using pvec_wf_size [OF w] r c n(3) by (simp add: vec_list_def)
    moreover have "pvec_wf ?v" using w r c n(3) by (simp add: pvec_wf_def word_le_nat_alt)
    ultimately show ?thesis using r c by (intro exI [of _ ?v]) simp
  qed
qed

lemma pvec_add_ok:
  assumes w: "pvec_wf v" and b: "unat (v_size v) + 65 < 2 ^ 32"
  shows "\<exists>v'. pvec_add x v = Inr v' \<and> pvec_wf v' \<and> vec_list v' = vec_list v @ [x]"
proof -
  let ?n = "unat (v_size v)"
  have n: "unat (v_size v + 1) = ?n + 1" using b unat_plus_small [of "v_size v" 1] by simp
  have pos: "0 < v_size v + 1" using n by (simp add: word_less_nat_alt)
  have bb: "unat (v_size v + 1) + 64 < 2 ^ 32" "?n \<le> unat (v_size v + 1)" using b n by auto
  obtain v1 where v1: "pvec_resize (v_size v + 1) v = Inr v1" "pvec_wf v1" "v_size v1 = v_size v"
      "v_end_pos v1 = v_end_pos v" "unat (v_size v + 1) < length (v_array v1)" "vec_list v1 = vec_list v"
    using pvec_resize_ok [OF w pos bb] by blast
  let ?v = "v1\<lparr>v_array := (v_array v1)[?n := x], v_size := v_size v + 1, v_end_pos := v_end_pos v1 + 1\<rparr>"
  have "pvec_add x v = Inr ?v" using v1 n by (simp add: pvec_add_def blk_simps)
  moreover have "pvec_wf ?v" using v1 n b by (simp add: pvec_wf_def word_le_nat_alt)
  moreover have "vec_list ?v = vec_list v @ [x]"
    using v1(3,5,6) n by (simp add: vec_list_def take_Suc_conv_app_nth)
  ultimately show ?thesis by blast
qed

lemma pvec_get_eq:
  assumes "pvec_wf v"
  shows "pvec_get i v = (if unat i < length (vec_list v) then Inr (vec_list v ! unat i) else Inl index_error)"
  using pvec_wf_size [OF assms] length_pvec_list [OF assms]
  by (auto simp: pvec_get_def blk_read_def vec_list_def word_le_nat_alt not_le)

interpretation ptrs: growable_seq pvec_wf vec_list "2 ^ 32 - 65" pvec_add pvec_get
proof unfold_locales
  show "\<exists>v'. pvec_add x v = Inr v' \<and> pvec_wf v' \<and> vec_list v' = vec_list v @ [x]"
    if "pvec_wf v" "length (vec_list v) < 2 ^ 32 - 65" for v x
    using pvec_add_ok [OF that(1)] that(2) length_pvec_list [OF that(1)] by auto
  show "pvec_get i v = (if unat i < length (vec_list v) then Inr (vec_list v ! unat i) else Inl index_error)"
    if "pvec_wf v" for v i
    by (rule pvec_get_eq [OF that])
qed

lemma pvec_removeAt_ok:
  assumes w: "pvec_wf v" and i: "unat i < unat (v_size v)"
  shows "\<exists>v'. pvec_removeAt i v = Inr v' \<and> pvec_wf v'
    \<and> vec_list v' = take (unat i) (vec_list v) @ drop (unat i + 1) (vec_list v)"
proof -
  let ?n = "unat (v_size v)" and ?i = "unat i"
  have b: "?n + 64 < 2 ^ 32" using w by (simp add: pvec_wf_def)
  have u: "unat (v_size v - 1) = ?n - 1" using i by (simp add: unat_sub word_le_nat_alt)
  have i1: "unat (i + 1) = ?i + 1" using i b unat_plus_small [of i 1] by simp
  have m: "unat (v_size v - (i + 1)) = ?n - (?i + 1)" using i i1 by (simp add: unat_sub word_le_nat_alt)
  have l: "?n \<le> length (v_array v)" using pvec_wf_size [OF w] .
  have last: "i = v_size v - 1 \<longleftrightarrow> ?i = ?n - 1" using u by (metis word_unat_eq_iff)
  let ?a = "if ?i \<noteq> ?n - 1
    then take ?i (v_array v) @ take (?n - (?i + 1)) (drop (?i + 1) (v_array v)) @ drop (?n - 1) (v_array v)
    else v_array v"
  let ?v = "v\<lparr>v_array := ?a, v_size := v_size v - 1, v_end_pos := v_end_pos v - 1\<rparr>"
  have mv: "(if i \<noteq> v_size v - 1 then blk_move (v_array v) ?i (unat (i + 1)) (unat (v_size v - (i + 1)))
      else Inr (v_array v)) = Inr ?a"
    using i l i1 m last by (simp add: blk_move_ok)
  have la: "length ?a = length (v_array v)" using i l by simp
  have wv: "pvec_wf ?v"
    using w la u b by (auto simp: pvec_wf_def word_le_nat_alt intro: order_trans [OF diff_le_self])
  have lv: "vec_list ?v = take ?i (vec_list v) @ drop (?i + 1) (vec_list v)"
    using i l u by (auto simp: vec_list_def drop_take min_def le_antisym)
  have eq: "pvec_removeAt i v = (if v_init_size v < v_size v - 1 then pvec_resize (v_size v - 1) ?v else Inr ?v)"
    unfolding pvec_removeAt_def Let_def using i mv by (simp add: word_le_nat_alt)
  obtain t where t: "pvec_wf t" "vec_list t = take ?i (vec_list v) @ drop (?i + 1) (vec_list v)"
      "v_size t = v_size v - 1"
      "pvec_removeAt i v = (if v_init_size v < v_size v - 1 then pvec_resize (v_size v - 1) t else Inr t)"
    using wv lv eq by (rule_tac that [of ?v]) simp_all
  show ?thesis
  proof (cases "v_init_size v < v_size v - 1")
    case True
    then have pos: "0 < v_size v - 1" by (simp add: word_less_nat_alt)
    have bb: "unat (v_size v - 1) + 64 < 2 ^ 32" "unat (v_size t) \<le> unat (v_size v - 1)" using b u t(3) by auto
    show ?thesis using pvec_resize_ok [OF t(1) pos bb] t(2,4) True by auto
  next
    case False
    then show ?thesis using t by auto
  qed
qed

end
