(* ===== verification/Vec_Sort.thy ===== *)
theory Vec_Sort
  imports Vec_Props
begin

text \<open>
  The quicksort of \<open>Vector<Value>\<close>: the partition step is correct, the recursion ends and
  permutes the elements, but its two guards leave short and already split ranges unsorted.
\<close>

unbundle bit_operations_syntax

lemma arr_swap_ok:
  "a < length arr \<Longrightarrow> b < length arr \<Longrightarrow> arr_swap a b arr = Inr (arr[a := arr ! b, b := arr ! a])"
  by (simp add: arr_swap_def blk_simps)

text \<open>What the loop keeps: everything before \<open>index\<close> is at most the pivot value, everything
  from there up to \<open>i\<close> is not, and the element at \<open>right\<close> has not moved.\<close>

definition part_inv :: "('a \<Rightarrow> 'a \<Rightarrow> bool) \<Rightarrow> 'a \<Rightarrow> nat \<Rightarrow> nat \<Rightarrow> nat \<Rightarrow> 'a list \<Rightarrow> bool" where
  "part_inv le pv left index i arr = (left \<le> index \<and> index \<le> i
     \<and> (\<forall>j. left \<le> j \<and> j < index \<longrightarrow> le (arr ! j) pv) \<and> (\<forall>j. index \<le> j \<and> j < i \<longrightarrow> \<not> le (arr ! j) pv))"

lemma partition_loop_ok:
  "part_inv le pv left index i arr \<Longrightarrow> i \<le> right \<Longrightarrow> right < length arr \<Longrightarrow>
   \<exists>index' arr'. partition_loop le pv right index i arr = Inr (index', arr') \<and> length arr' = length arr
     \<and> mset arr' = mset arr \<and> arr' ! right = arr ! right \<and> index' \<le> right
     \<and> part_inv le pv left index' right arr' \<and> (\<forall>j < left. arr' ! j = arr ! j)
     \<and> (\<forall>j > right. arr' ! j = arr ! j)"
proof (induction le pv right index i arr rule: partition_loop.induct)
  case (1 le pv right index i arr)
  show ?case
  proof (cases "i < right")
    case False
    then show ?thesis using 1 by (subst partition_loop.simps) (auto simp: part_inv_def)
  next
    case True
    have rd: "blk_read arr i = Inr (arr ! i)" using True 1 by (simp add: blk_simps)
    have inv: "part_inv le pv left index i arr" and r: "right < length arr" using 1 by auto
    have ii: "left \<le> index" "index \<le> i" using inv by (auto simp: part_inv_def)
    show ?thesis
    proof (cases "le (arr ! i) pv")
      case le: True
      define arr1 where "arr1 = (if index \<noteq> i then arr[index := arr ! i, i := arr ! index] else arr)"
      have sw: "(if index \<noteq> i then arr_swap index i arr else Inr arr) = Inr arr1"
        using ii True r by (simp add: arr1_def arr_swap_ok)
      have l1: "length arr1 = length arr" by (simp add: arr1_def)
      have m1: "mset arr1 = mset arr"
        using ii True r by (simp add: arr1_def mset_swap)
      have nth1: "arr1 ! j = (if j = index then arr ! i else if j = i then arr ! index else arr ! j)"
        if "j < length arr" for j
        using that ii True r by (auto simp: arr1_def nth_list_update)
      have nth2: "arr1 ! j = arr ! j" if "j \<noteq> index" "j \<noteq> i" for j
        using that by (auto simp: arr1_def)
      have inv1: "part_inv le pv left (index + 1) (i + 1) arr1"
        unfolding part_inv_def
      proof (intro conjI allI impI)
        fix j assume "left \<le> j \<and> j < index + 1"
        then show "le (arr1 ! j) pv"
          using inv le ii True r by (cases "j = index") (auto simp: nth1 part_inv_def)
      next
        fix j assume j: "index + 1 \<le> j \<and> j < i + 1"
        have "\<not> le (arr ! (if j = i then index else j)) pv"
          using inv j by (auto simp: part_inv_def)
        then show "\<not> le (arr1 ! j) pv" using j True r by (auto simp: nth1)
      qed (use ii in auto)
      have ni: "\<not> right \<le> index" using ii True by simp
      have eq: "partition_loop le pv right index i arr = partition_loop le pv right (index + 1) (i + 1) arr1"
        using True rd le sw ni by (subst partition_loop.simps) simp
      obtain index' arr' where res: "partition_loop le pv right (index + 1) (i + 1) arr1 = Inr (index', arr')"
        "length arr' = length arr1" "mset arr' = mset arr1" "arr' ! right = arr1 ! right" "index' \<le> right"
        "part_inv le pv left index' right arr'" "\<forall>j < left. arr' ! j = arr1 ! j" "\<forall>j > right. arr' ! j = arr1 ! j"
        using 1(1) [OF True rd le sw ni inv1] True r l1 by auto
      moreover have "arr1 ! right = arr ! right" "\<forall>j < left. arr1 ! j = arr ! j" "\<forall>j > right. arr1 ! j = arr ! j"
        using ii True by (auto intro!: nth2)
      ultimately show ?thesis using eq l1 m1 by auto
    next
      case nle: False
      have inv1: "part_inv le pv left index (i + 1) arr"
        using inv nle by (auto simp: part_inv_def less_Suc_eq)
      have eq: "partition_loop le pv right index i arr = partition_loop le pv right index (i + 1) arr"
        using True rd nle by (subst partition_loop.simps) simp
      show ?thesis unfolding eq using 1(2) [OF True rd nle inv1] True r by auto
    qed
  qed
qed

text \<open>The partition of a range, on the positions as numbers.\<close>

definition part_spec :: "('a \<Rightarrow> 'a \<Rightarrow> bool) \<Rightarrow> nat \<Rightarrow> nat \<Rightarrow> nat \<Rightarrow> 'a list \<Rightarrow> 'a list \<Rightarrow> bool" where
  "part_spec le l r p arr arr' = (l \<le> p \<and> p \<le> r \<and> length arr' = length arr \<and> mset arr' = mset arr
     \<and> arr' ! p = arr ! l \<and> (\<forall>j. l \<le> j \<and> j < p \<longrightarrow> le (arr' ! j) (arr ! l))
     \<and> (\<forall>j. p < j \<and> j \<le> r \<longrightarrow> \<not> le (arr' ! j) (arr ! l))
     \<and> (\<forall>j < l. arr' ! j = arr ! j) \<and> (\<forall>j > r. arr' ! j = arr ! j))"

lemma partition_at_ok:
  assumes lr: "unat left \<le> unat right" "unat right < length arr"
  shows "\<exists>p arr'. partition_at le left right left arr = Inr (p, arr')
    \<and> part_spec le (unat left) (unat right) (unat p) arr arr'"
proof -
  let ?l = "unat left" and ?r = "unat right"
  let ?pv = "arr ! ?l"
  have rd: "blk_read arr ?l = Inr ?pv" using lr by (simp add: blk_simps)
  define a1 where "a1 = arr[?l := arr ! ?r, ?r := arr ! ?l]"
  have sw1: "arr_swap ?l ?r arr = Inr a1" using lr by (simp add: arr_swap_ok a1_def)
  have a1: "length a1 = length arr" "mset a1 = mset arr" "a1 ! ?r = ?pv"
    using lr by (simp_all add: a1_def mset_swap)
  have a1o: "a1 ! j = arr ! j" if "j < ?l \<or> ?r < j" for j using that lr by (auto simp: a1_def)
  have "part_inv le ?pv ?l ?l ?l a1" by (auto simp: part_inv_def)
  then obtain k a2 where k: "partition_loop le ?pv ?r ?l ?l a1 = Inr (k, a2)" "length a2 = length a1"
    "mset a2 = mset a1" "a2 ! ?r = a1 ! ?r" "k \<le> ?r" "part_inv le ?pv ?l k ?r a2"
    "\<forall>j < ?l. a2 ! j = a1 ! j" "\<forall>j > ?r. a2 ! j = a1 ! j"
    using partition_loop_ok [of le ?pv ?l ?l ?l a1 ?r] lr a1 by auto
  define a3 where "a3 = a2[?r := a2 ! k, k := a2 ! ?r]"
  have kl: "k < length a2" "?r < length a2" using k a1 lr by auto
  have sw2: "arr_swap ?r k a2 = Inr a3" using kl by (simp add: arr_swap_ok a3_def)
  have k32: "k < 2 ^ 32" using k(5) unat_lt32 [of right] by simp
  have uk: "unat (of_nat k :: u32) = k" using k32 by simp
  have pk: "?l \<le> k" using k(6) by (simp add: part_inv_def)
  have n3: "a3 ! j = (if j = k then a2 ! ?r else if j = ?r then a2 ! k else a2 ! j)" if "j < length a2" for j
    using that kl by (auto simp: a3_def nth_list_update)
  have n3o: "a3 ! j = a2 ! j" if "j \<noteq> k" "j \<noteq> ?r" for j using that by (auto simp: a3_def)
  have "part_spec le ?l ?r k arr a3"
    unfolding part_spec_def
  proof (intro conjI allI impI)
    have "mset a3 = mset a2" unfolding a3_def by (rule mset_swap [OF kl])
    then show "mset a3 = mset arr" using k(3) a1(2) by simp
    show "a3 ! k = ?pv" using n3 [OF kl(1)] k a1 by simp
  next
    fix j assume j: "?l \<le> j \<and> j < k"
    then have "a3 ! j = a2 ! j" using k(5) by (intro n3o) auto
    then show "le (a3 ! j) ?pv" using k(6) j by (simp add: part_inv_def)
  next
    fix j assume j: "k < j \<and> j \<le> ?r"
    have "\<not> le (a2 ! (if j = ?r then k else j)) ?pv"
      using k(6) j by (auto simp: part_inv_def)
    then show "\<not> le (a3 ! j) ?pv" using j kl n3 [of j] by auto
  next
    fix j assume "j < ?l"
    then show "a3 ! j = arr ! j" using n3o [of j] k(7) a1o [of j] pk lr by auto
  next
    fix j assume "?r < j"
    then show "a3 ! j = arr ! j" using n3o [of j] k(5,8) a1o [of j] by auto
  qed (use pk k a1 in \<open>simp_all add: a3_def\<close>)
  moreover have "partition_at le left right left arr = Inr (of_nat k, a3)"
    using rd sw1 k(1) sw2 by (simp add: partition_at_def)
  ultimately show ?thesis using uk by auto
qed

text \<open>The recursion: fuel for every element of the range is enough.\<close>

lemma quicksort_ok:
  "unat left \<le> unat right \<Longrightarrow> unat right < length arr \<Longrightarrow> unat right - unat left < fuel \<Longrightarrow>
   \<exists>arr'. quicksort fuel le left right arr = Inr arr' \<and> length arr' = length arr \<and> mset arr' = mset arr
     \<and> (\<forall>j. j < unat left \<or> unat right < j \<longrightarrow> arr' ! j = arr ! j)"
proof (induction fuel arbitrary: left right arr)
  case (Suc fuel)
  obtain p a1 where p: "partition_at le left right left arr = Inr (p, a1)"
    and s: "part_spec le (unat left) (unat right) (unat p) arr a1"
    using partition_at_ok [OF Suc.prems(1,2)] by blast
  have s': "length a1 = length arr" "mset a1 = mset arr"
    "\<And>j. j < unat left \<or> unat right < j \<Longrightarrow> a1 ! j = arr ! j"
    using s by (auto simp: part_spec_def)
  consider "\<not> left < right - 1" | "left < right - 1" "\<not> (left < p \<and> p < right)"
    | "left < right - 1" "left < p" "p < right" by blast
  then show ?case
  proof cases
    case 1
    then show ?thesis by simp
  next
    case 2
    then have "quicksort (Suc fuel) le left right arr = Inr a1" using p by auto
    then show ?thesis using s' by auto
  next
    case 3
    have lp: "unat left < unat p" "unat p < unat right" using 3 by (auto simp: word_less_nat_alt)
    have pm: "unat (p - 1) = unat p - 1" using lp by (simp add: unat_sub word_le_nat_alt)
    have pp: "unat (p + 1) = unat p + 1"
      using lp unat_lt32 [of right] unat_plus_small [of p 1] by simp
    have b1: "unat left \<le> unat (p - 1)" "unat (p - 1) < length a1" "unat (p - 1) - unat left < fuel"
      using pm lp s' Suc.prems by auto
    obtain a2 where a2: "quicksort fuel le left (p - 1) a1 = Inr a2" "length a2 = length a1"
      "mset a2 = mset a1" "\<forall>j. j < unat left \<or> unat (p - 1) < j \<longrightarrow> a2 ! j = a1 ! j"
      using Suc.IH [OF b1] by blast
    have b2: "unat (p + 1) \<le> unat right" "unat right < length a2" "unat right - unat (p + 1) < fuel"
      using pp lp s' a2(2) Suc.prems by auto
    obtain a3 where a3: "quicksort fuel le (p + 1) right a2 = Inr a3" "length a3 = length a2"
      "mset a3 = mset a2" "\<forall>j. j < unat (p + 1) \<or> unat right < j \<longrightarrow> a3 ! j = a2 ! j"
      using Suc.IH [OF b2] by blast
    have "quicksort (Suc fuel) le left right arr = Inr a3" using 3 p a2(1) a3(1) by simp
    moreover have "\<forall>j. j < unat left \<or> unat right < j \<longrightarrow> a3 ! j = arr ! j"
      using a2(4) a3(4) s'(3) pm pp lp by auto
    ultimately show ?thesis using a2 a3 s' by auto
  qed
qed simp


section \<open>Properties of the vectors\<close>

lemma vec_new_ok:
  assumes "unat n + 64 < 2 ^ 32"
  shows "\<exists>v. vec_new n = Inr v \<and> vec_ok v \<and> vec_list v = []"
proof -
  let ?v = "vec_init n :: 'a vec"
  have w: "vec_wf ?v" using assms by (simp add: vec_wf_def vec_init_def)
  show ?thesis
  proof (cases "0 < n")
    case True
    obtain v :: "'a vec" where v: "vec_resize n ?v = Inr v" "vec_wf v" "v_size v = v_size ?v"
      "v_init_size v = v_init_size ?v" "unat (v_array_size v) = vec_cap (unat n) ?v"
      using vec_resize_cases [OF w True assms] by (auto simp: vec_init_def)
    have "1 \<le> unat n" using True by (simp add: word_less_nat_alt)
    then have "vec_tight v" using v by (simp add: vec_tight_def vec_cap_def vec_init_def max_def)
    then show ?thesis using v by (simp add: vec_new_def vec_ok_def vec_list_def vec_init_def)
  next
    case False
    then have "n = 0" by (simp add: word_gt_0)
    then have "vec_new n = Inr ?v" by (simp add: vec_new_def vec_resize_def vec_init_def)
    then show ?thesis using w by (auto simp: vec_ok_def vec_tight_def vec_list_def vec_init_def)
  qed
qed

lemma pvec_new_ok:
  assumes "unat n + 64 < 2 ^ 32"
  shows "\<exists>v. pvec_new n = Inr v \<and> pvec_wf v \<and> vec_list v = []"
proof -
  have w: "pvec_wf (vec_init n)" using assms by (simp add: pvec_wf_def vec_init_def)
  have e: "vec_list (vec_init n :: ptr vec) = []" by (simp add: vec_list_def vec_init_def)
  show ?thesis
  proof (cases "0 < n")
    case True
    then show ?thesis
      using pvec_resize_ok [OF w True assms] e by (auto simp: pvec_new_def vec_init_def)
  next
    case False
    then have "n = 0" by (simp add: word_gt_0)
    then have "pvec_new n = Inr (vec_init n)" by (simp add: pvec_new_def pvec_resize_def vec_init_def)
    then show ?thesis using w e by auto
  qed
qed

text \<open>
  Adding a list of elements to a new vector of either kind and reading position i
  gives the i-th element, for every reserve and every list that fits 32-bit sizes.
\<close>

theorem vec_add_get:
  assumes "unat n + 64 < 2 ^ 32" "length xs \<le> 2 ^ 32 - 65" "length ps \<le> 2 ^ 32 - 65"
    and "i < length xs" "j < length ps"
  shows "(\<exists>v v'. vec_new n = Inr v \<and> add_all vec_add xs v = Inr v' \<and> vec_get (of_nat i) v' = Inr (xs ! i))
    \<and> (\<exists>v v'. pvec_new n = Inr v \<and> add_all pvec_add ps v = Inr v' \<and> pvec_get (of_nat j) v' = Inr (ps ! j))"
proof
  obtain v :: "'a vec" where v: "vec_new n = Inr v" "vec_ok v" "vec_list v = []"
    using vec_new_ok [OF assms(1)] by blast
  have "length xs < 2 ^ 32" using assms(2) by simp
  then show "\<exists>v v'. vec_new n = Inr v \<and> add_all vec_add xs v = Inr v' \<and> vec_get (of_nat i) v' = Inr (xs ! i)"
    using vals.get_add_all [OF v(2,3) assms(2) _ assms(4)] v(1) by blast
  obtain p where p: "pvec_new n = Inr p" "pvec_wf p" "vec_list p = []"
    using pvec_new_ok [OF assms(1)] by blast
  have "length ps < 2 ^ 32" using assms(3) by simp
  then show "\<exists>v v'. pvec_new n = Inr v \<and> add_all pvec_add ps v = Inr v' \<and> pvec_get (of_nat j) v' = Inr (ps ! j)"
    using ptrs.get_add_all [OF p(2,3) assms(3) _ assms(5)] p(1) by blast
qed

theorem vec_add_get_witness:
  "\<exists>v v'. vec_new 32 = Inr v \<and> add_all vec_add ''ab'' v = Inr v' \<and> vec_get 1 v' = Inr (CHR ''b'')"
  using vec_add_get [of 32 "''ab''" "[5]" 1 0] by simp

text \<open>
  removeAt deletes the element in both vectors, except that the vector of values
  replaces all remaining elements by fresh objects when the removal makes it shrink its
  array (the size drops to one below a multiple of 32 above the reserve).
\<close>

theorem vec_removeAt_spec:
  assumes "vec_wf v" "unat i < unat (v_size v)" "unat (v_size v) + 64 < 2 ^ 32"
    and "pvec_wf w" "unat j < unat (v_size w)"
  shows "(\<exists>v'. vec_removeAt i v = Inr v' \<and> vec_list v' =
      (if unat (v_init_size v) < unat (v_size v) - 1 \<and> vec_cap (unat (v_size v) - 1) v < unat (v_array_size v)
       then replicate (unat (v_size v) - 1) fresh_value
       else take (unat i) (vec_list v) @ drop (unat i + 1) (vec_list v)))
    \<and> (\<exists>w'. pvec_removeAt j w = Inr w' \<and> vec_list w' = take (unat j) (vec_list w) @ drop (unat j + 1) (vec_list w))"
  using vec_removeAt_ok [OF assms(1-3)] pvec_removeAt_ok [OF assms(4,5)] by blast

definition vec_full :: "u32 vec" where
  "vec_full = \<lparr>v_size = 32, v_init_size = 0, v_array_size = 64, v_array = replicate 64 7, v_end_pos = 32\<rparr>"

theorem vec_removeAt_spec_witness:
  "\<exists>v'. vec_removeAt 0 vec_full = Inr v' \<and> vec_list v' = replicate 31 fresh_value"
  using vec_removeAt_spec [of vec_full 0
      "\<lparr>v_size = 1, v_init_size = 0, v_array_size = 16, v_array = replicate 16 9, v_end_pos = 1\<rparr>" 0]
  by (simp add: vec_full_def vec_wf_def pvec_wf_def vec_cap_def)

text \<open>
  C38. sort of a non-empty vector ends without a fault, with as much fuel as there are
  elements, and permutes the elements, whatever relation the elements' \<open><=\<close> computes.
\<close>

theorem vec_sort_permutes:
  assumes "vec_wf v" "v_size v \<noteq> 0" "unat (v_size v) \<le> fuel"
  shows "\<exists>v'. vec_sort fuel le v = Inr v' \<and> vec_wf v' \<and> v_size v' = v_size v
    \<and> mset (vec_list v') = mset (vec_list v)"
proof -
  let ?n = "unat (v_size v)"
  have n: "0 < ?n" using assms(2) by (simp add: unat_gt_0)
  have u: "unat (v_size v - 1) = ?n - 1" using n by (simp add: unat_sub word_le_nat_alt)
  have l: "?n \<le> length (v_array v)" using vec_wf_size [OF assms(1)] .
  have b: "unat 0 \<le> unat (v_size v - 1)" "unat (v_size v - 1) < length (v_array v)"
    "unat (v_size v - 1) - unat 0 < fuel"
    using u n l assms(3) by auto
  obtain a where a: "quicksort fuel le 0 (v_size v - 1) (v_array v) = Inr a" "length a = length (v_array v)"
    "mset a = mset (v_array v)" "\<forall>j. j < 0 \<or> unat (v_size v - 1) < j \<longrightarrow> a ! j = v_array v ! j"
    using quicksort_ok [OF b, of le] by auto
  have dr: "drop ?n a = drop ?n (v_array v)"
    using a(2,4) u n by (intro nth_equalityI) auto
  have "mset (take ?n a) + mset (drop ?n a) = mset (take ?n (v_array v)) + mset (drop ?n (v_array v))"
    using a(3) by (metis append_take_drop_id mset_append)
  then have "mset (take ?n a) = mset (take ?n (v_array v))" using dr by simp
  moreover have "vec_sort fuel le v = Inr (v\<lparr>v_array := a\<rparr>)" using a(1) by (simp add: vec_sort_def)
  moreover have "vec_wf (v\<lparr>v_array := a\<rparr>)" using assms(1) a(2) by (simp add: vec_wf_def)
  ultimately show ?thesis by (auto simp: vec_list_def)
qed

theorem vec_sort_permutes_witness:
  "\<exists>v'. vec_sort 32 (\<le>) vec_full = Inr v' \<and> mset (vec_list v') = mset (replicate 32 7)"
  using vec_sort_permutes [of vec_full 32 "(\<le>)"]
  by (auto simp: vec_full_def vec_wf_def vec_list_def)

text \<open>
  The partition step puts the pivot in its place: what precedes it in the range is at
  most the pivot, what follows is not, and nothing outside the range moves.
\<close>

theorem partition_correct:
  assumes "unat left \<le> unat right" "unat right < length arr"
  shows "\<exists>p arr'. partition_at le left right left arr = Inr (p, arr')
    \<and> part_spec le (unat left) (unat right) (unat p) arr arr'"
  by (rule partition_at_ok [OF assms])

theorem partition_correct_witness:
  "\<exists>p arr'. partition_at (\<le>) 0 2 0 [2, 1, 3 :: nat] = Inr (p, arr') \<and> part_spec (\<le>) 0 2 (unat p) [2, 1, 3] arr'"
  using partition_correct [of 0 2 "[2, 1, 3 :: nat]" "(\<le>)"] by simp

text \<open>
  sort does not sort: it leaves a two-element vector in descending order as it is and
  faults on an empty vector, and adding before the last element overwrites that element.
\<close>

theorem vec_sort_defects:
  "vec_sort fuel (\<le>) \<lparr>v_size = 0, v_init_size = 0, v_array_size = 0, v_array = ([] :: nat list), v_end_pos = 0\<rparr>
     \<noteq> Inr v'
   \<and> vec_sort (Suc fuel) (\<le>) \<lparr>v_size = 2, v_init_size = 0, v_array_size = 32,
       v_array = 2 # 1 # replicate 30 (0 :: nat), v_end_pos = 2\<rparr>
     = Inr \<lparr>v_size = 2, v_init_size = 0, v_array_size = 32, v_array = 2 # 1 # replicate 30 0, v_end_pos = 2\<rparr>
   \<and> map_sum id vec_list (vec_addAt 0 (8 :: nat) \<lparr>v_size = 1, v_init_size = 0, v_array_size = 32,
       v_array = 7 # 7 # replicate 30 7, v_end_pos = 1\<rparr>) = Inr [8, 7]"
proof (intro conjI)
  show "vec_sort fuel (\<le>) \<lparr>v_size = 0, v_init_size = 0, v_array_size = 0, v_array = ([] :: nat list), v_end_pos = 0\<rparr>
     \<noteq> Inr v'"
  proof -
    have "(0 :: u32) < - 2" by (simp add: word_less_nat_alt)
    then show ?thesis by (cases fuel) (simp_all add: vec_sort_def partition_at_def blk_read_def)
  qed
  show "vec_sort (Suc fuel) (\<le>) \<lparr>v_size = 2, v_init_size = 0, v_array_size = 32,
       v_array = 2 # 1 # replicate 30 (0 :: nat), v_end_pos = 2\<rparr>
     = Inr \<lparr>v_size = 2, v_init_size = 0, v_array_size = 32, v_array = 2 # 1 # replicate 30 0, v_end_pos = 2\<rparr>"
    by (simp add: vec_sort_def)
  show "map_sum id vec_list (vec_addAt 0 (8 :: nat) \<lparr>v_size = 1, v_init_size = 0, v_array_size = 32,
       v_array = 7 # 7 # replicate 30 7, v_end_pos = 1\<rparr>) = Inr [8, 7]"
    by (simp add: vec_addAt_def vec_resize_def ROUNDUP_def blk_write_def vec_list_def take_Suc)
qed

end
