(* ===== verification/Dict.thy ===== *)
theory Dict
  imports SRL_Prelude
begin

text \<open>
  \<open>Dictionary<Key, Value, Hasher>\<close> of include/srl/util/Dictionary.h: a red-black tree over the
  hash values of the keys, threaded by a doubly linked list in the order of insertion.
  Entries live at addresses of a heap; \<open>None\<close> is the null pointer, and following it or
  an address that holds no entry is \<open>Mem_Fault\<close>. The hash function is a parameter.
  The pointer walks take fuel from the number of addresses ever allocated, which exceeds
  the length of every walk in a well-formed dictionary.
\<close>

section \<open>State\<close>

datatype color = RED | BLACK

type_synonym ref = "nat option"

record ('k, 'v) entry =
  e_prev :: ref
  e_next :: ref
  e_parent :: ref
  e_lesser :: ref
  e_greater :: ref
  e_color :: color
  e_key :: 'k
  e_value :: 'v
  e_hash :: u32

record ('k, 'v) dict =
  d_heap :: "nat \<Rightarrow> ('k, 'v) entry option"
  d_fresh :: nat
  d_size :: u32
  d_root :: ref
  d_first :: ref
  d_last :: ref

definition dict_new :: "('k, 'v) dict" where
  "dict_new = \<lparr>d_heap = Map.empty, d_fresh = 0, d_size = 0, d_root = None, d_first = None,
     d_last = None\<rparr>"

definition fld :: "(('k, 'v) entry \<Rightarrow> 'a) \<Rightarrow> ref \<Rightarrow> ('k, 'v) dict \<Rightarrow> 'a res" where
  "fld f p d = (case p of None \<Rightarrow> Inl Mem_Fault
     | Some a \<Rightarrow> (case d_heap d a of None \<Rightarrow> Inl Mem_Fault | Some e \<Rightarrow> Inr (f e)))"

definition upd :: "ref \<Rightarrow> (('k, 'v) entry \<Rightarrow> ('k, 'v) entry) \<Rightarrow> ('k, 'v) dict \<Rightarrow> ('k, 'v) dict res" where
  "upd p f d = (case p of None \<Rightarrow> Inl Mem_Fault
     | Some a \<Rightarrow> (case d_heap d a of None \<Rightarrow> Inl Mem_Fault
       | Some e \<Rightarrow> Inr (d\<lparr>d_heap := (d_heap d)(a \<mapsto> f e)\<rparr>)))"

definition fuel_of :: "('k, 'v) dict \<Rightarrow> nat" where
  "fuel_of d = Suc (d_fresh d)"

section \<open>Entries\<close>

definition entry_new :: "'k \<Rightarrow> 'v \<Rightarrow> u32 \<Rightarrow> ('k, 'v) entry" where
  "entry_new k v h = \<lparr>e_prev = None, e_next = None, e_parent = None, e_lesser = None,
     e_greater = None, e_color = RED, e_key = k, e_value = v, e_hash = h\<rparr>"

definition set_color :: "ref \<Rightarrow> color \<Rightarrow> ('k, 'v) dict \<Rightarrow> ('k, 'v) dict res" where
  "set_color p c d = upd p (\<lambda>e. e\<lparr>e_color := c\<rparr>) d"

text \<open>\<open>Entry::_setColor\<close>: the entry and, with alternating colours, its descendants.\<close>

fun setColor_all :: "nat \<Rightarrow> ref \<Rightarrow> color \<Rightarrow> ('k, 'v) dict \<Rightarrow> ('k, 'v) dict res" where
  "setColor_all 0 p c d = Inl Out_Of_Fuel"
| "setColor_all (Suc fuel) p c d = bindR (set_color p c d) (\<lambda>d.
     let child_color = (if c = RED then BLACK else RED) in
     bindR (fld e_lesser p d) (\<lambda>l.
     bindR (if l \<noteq> None then setColor_all fuel l child_color d else Inr d) (\<lambda>d.
     bindR (fld e_greater p d) (\<lambda>g.
     if g \<noteq> None then setColor_all fuel g child_color d else Inr d))))"

definition setLesser :: "ref \<Rightarrow> ref \<Rightarrow> ('k, 'v) dict \<Rightarrow> ('k, 'v) dict res" where
  "setLesser this entry d = bindR (upd this (\<lambda>e. e\<lparr>e_lesser := entry\<rparr>) d) (\<lambda>d.
     if entry \<noteq> None then upd entry (\<lambda>e. e\<lparr>e_parent := this\<rparr>) d else Inr d)"

definition setGreater :: "ref \<Rightarrow> ref \<Rightarrow> ('k, 'v) dict \<Rightarrow> ('k, 'v) dict res" where
  "setGreater this entry d = bindR (upd this (\<lambda>e. e\<lparr>e_greater := entry\<rparr>) d) (\<lambda>d.
     if entry \<noteq> None then upd entry (\<lambda>e. e\<lparr>e_parent := this\<rparr>) d else Inr d)"

definition replaceChild :: "ref \<Rightarrow> ref \<Rightarrow> ref \<Rightarrow> ('k, 'v) dict \<Rightarrow> ('k, 'v) dict res" where
  "replaceChild this olde newe d = bindR (fld e_lesser this d) (\<lambda>l.
     if l = olde then setLesser this newe d else setGreater this newe d)"

definition checkBalance :: "ref \<Rightarrow> ('k, 'v) dict \<Rightarrow> int res" where
  "checkBalance this d = bindR (fld e_greater this d) (\<lambda>g. bindR (fld e_lesser this d) (\<lambda>l.
     if g \<noteq> None \<and> l \<noteq> None then Inr 0 else
     bindR (if g \<noteq> None then fld e_greater g d else Inr None) (\<lambda>gg.
     if gg \<noteq> None then Inr (- 1) else
     bindR (if l \<noteq> None then fld e_lesser l d else Inr None) (\<lambda>ll.
     if ll \<noteq> None then Inr 1 else Inr 0))))"

definition grandparent :: "ref \<Rightarrow> ('k, 'v) dict \<Rightarrow> ref res" where
  "grandparent this d = bindR (fld e_parent this d) (\<lambda>p.
     if p = None then Inr None else fld e_parent p d)"

definition sibling :: "ref \<Rightarrow> ('k, 'v) dict \<Rightarrow> ref res" where
  "sibling this d = bindR (fld e_parent this d) (\<lambda>p.
     if p = None then Inr None else
     bindR (fld e_lesser p d) (\<lambda>l. if this = l then fld e_greater p d else Inr l))"

fun walk :: "nat \<Rightarrow> (('k, 'v) entry \<Rightarrow> ref) \<Rightarrow> ref \<Rightarrow> ('k, 'v) dict \<Rightarrow> ref res" where
  "walk 0 f s d = Inl Out_Of_Fuel"
| "walk (Suc fuel) f s d = bindR (fld f s d) (\<lambda>n. if n \<noteq> None then walk fuel f n d else Inr s)"

definition successor :: "ref \<Rightarrow> ('k, 'v) dict \<Rightarrow> ref res" where
  "successor this d = bindR (fld e_greater this d) (\<lambda>g. bindR (fld e_lesser this d) (\<lambda>l.
     if g \<noteq> None then walk (fuel_of d) e_lesser g d
     else if l \<noteq> None then walk (fuel_of d) e_greater l d
     else Inr None))"

definition childCount :: "ref \<Rightarrow> ('k, 'v) dict \<Rightarrow> int res" where
  "childCount this d = bindR (fld e_lesser this d) (\<lambda>l. bindR (fld e_greater this d) (\<lambda>g.
     Inr ((if l \<noteq> None then 1 else 0) + (if g \<noteq> None then 1 else 0))))"

definition uncle :: "ref \<Rightarrow> ('k, 'v) dict \<Rightarrow> ref res" where
  "uncle this d = bindR (grandparent this d) (\<lambda>gp. if gp = None then Inr None else
     bindR (fld e_parent this d) (\<lambda>p. bindR (fld e_lesser gp d) (\<lambda>l.
     if p = l then fld e_greater gp d else Inr l)))"

section \<open>The linked list\<close>

definition link_entry :: "nat \<Rightarrow> ('k, 'v) dict \<Rightarrow> ('k, 'v) dict res" where
  "link_entry entry d = bindR
     (if d_last d \<noteq> None then
        bindR (upd (d_last d) (\<lambda>e. e\<lparr>e_next := Some entry\<rparr>) d) (\<lambda>d.
        bindR (upd (Some entry) (\<lambda>e. e\<lparr>e_prev := d_last d\<rparr>) d) (\<lambda>d.
        Inr (d\<lparr>d_last := Some entry\<rparr>)))
      else Inr (d\<lparr>d_first := Some entry, d_last := Some entry\<rparr>))
     (\<lambda>d. Inr (d\<lparr>d_size := d_size d + 1\<rparr>))"

definition unlink_entry :: "nat \<Rightarrow> ('k, 'v) dict \<Rightarrow> ('k, 'v) dict res" where
  "unlink_entry entry d =
     bindR (fld e_prev (Some entry) d) (\<lambda>prev. bindR (fld e_next (Some entry) d) (\<lambda>nxt.
     bindR (if prev \<noteq> None then upd prev (\<lambda>e. e\<lparr>e_next := nxt\<rparr>) d else Inr d) (\<lambda>d.
     bindR (if nxt \<noteq> None then upd nxt (\<lambda>e. e\<lparr>e_prev := prev\<rparr>) d else Inr d) (\<lambda>d.
     let d = (if d_first d = Some entry then d\<lparr>d_first := nxt\<rparr> else d);
         d = (if d_last d = Some entry then d\<lparr>d_last := prev\<rparr> else d)
     in Inr (d\<lparr>d_size := d_size d - 1\<rparr>)))))"

section \<open>Rotations\<close>

definition rotateRight :: "nat \<Rightarrow> ('k, 'v) dict \<Rightarrow> ('k, 'v) dict res" where
  "rotateRight r d = bindR (fld e_parent (Some r) d) (\<lambda>p. bindR (fld e_lesser (Some r) d) (\<lambda>replacement.
     if replacement = None then Inr d else
     bindR (if Some r = d_root d
            then upd replacement (\<lambda>e. e\<lparr>e_parent := None\<rparr>) (d\<lparr>d_root := replacement\<rparr>)
            else bindR (fld e_lesser p d) (\<lambda>l.
              if l = Some r then setLesser p replacement d else setGreater p replacement d)) (\<lambda>d.
     bindR (fld e_greater replacement d) (\<lambda>b.
     bindR (setLesser (Some r) b d) (\<lambda>d.
     setGreater replacement (Some r) d)))))"

definition rotateLeft :: "nat \<Rightarrow> ('k, 'v) dict \<Rightarrow> ('k, 'v) dict res" where
  "rotateLeft r d = bindR (fld e_parent (Some r) d) (\<lambda>p. bindR (fld e_greater (Some r) d) (\<lambda>replacement.
     if replacement = None then Inr d else
     bindR (if Some r = d_root d
            then upd replacement (\<lambda>e. e\<lparr>e_parent := None\<rparr>) (d\<lparr>d_root := replacement\<rparr>)
            else bindR (fld e_greater p d) (\<lambda>g.
              if g = Some r then setGreater p replacement d else setLesser p replacement d)) (\<lambda>d.
     bindR (fld e_lesser replacement d) (\<lambda>b.
     bindR (setGreater (Some r) b d) (\<lambda>d.
     setLesser replacement (Some r) d)))))"

section \<open>Search and insertion\<close>

text \<open>\<open>int\<close> hash values are compared signed.\<close>

fun find_from :: "nat \<Rightarrow> u32 \<Rightarrow> ref \<Rightarrow> ('k, 'v) dict \<Rightarrow> ref res" where
  "find_from 0 key_hash node d = Inl Out_Of_Fuel"
| "find_from (Suc fuel) key_hash node d = (case node of None \<Rightarrow> Inr None | Some n \<Rightarrow>
     bindR (fld e_hash node d) (\<lambda>h.
     if key_hash = h then Inr node
     else if h <s key_hash then bindR (fld e_greater node d) (\<lambda>g. find_from fuel key_hash g d)
     else bindR (fld e_lesser node d) (\<lambda>l. find_from fuel key_hash l d)))"

definition find_entry :: "('k \<Rightarrow> u32) \<Rightarrow> 'k \<Rightarrow> ('k, 'v) dict \<Rightarrow> ref res" where
  "find_entry hash key d = find_from (fuel_of d) (hash key) (d_root d) d"

text \<open>The plain binary tree insertion below \<open>parent\<close>.\<close>

fun insert_below :: "nat \<Rightarrow> nat \<Rightarrow> ref \<Rightarrow> ('k, 'v) dict \<Rightarrow> ('k, 'v) dict res" where
  "insert_below 0 entry parent d = Inl Out_Of_Fuel"
| "insert_below (Suc fuel) entry parent d =
     bindR (fld e_hash (Some entry) d) (\<lambda>h. bindR (fld e_hash parent d) (\<lambda>ph.
     if ph \<le>s h then
       bindR (fld e_greater parent d) (\<lambda>g.
       if g = None then setGreater parent (Some entry) d else insert_below fuel entry g d)
     else
       bindR (fld e_lesser parent d) (\<lambda>l.
       if l = None then setLesser parent (Some entry) d else insert_below fuel entry l d)))"

text \<open>A null entry counts as black in the tests of the uncle and of a sibling's children.\<close>

definition is_red :: "ref \<Rightarrow> ('k, 'v) dict \<Rightarrow> bool res" where
  "is_red p d = (if p = None then Inr False else bindR (fld e_color p d) (\<lambda>c. Inr (c = RED)))"

text \<open>The recolouring when the uncle \<open>y\<close> is red.\<close>

definition push_blackness :: "ref \<Rightarrow> ref \<Rightarrow> ref \<Rightarrow> ('k, 'v) dict \<Rightarrow> ('k, 'v) dict res" where
  "push_blackness parent y gp d = bindR (set_color parent BLACK d) (\<lambda>d.
     bindR (set_color y BLACK d) (\<lambda>d. set_color gp RED d))"

text \<open>The end of both rotation cases: parent black, grandparent red and rotated.\<close>

definition recolor_rotate :: "(nat \<Rightarrow> ('k, 'v) dict \<Rightarrow> ('k, 'v) dict res) \<Rightarrow> nat \<Rightarrow> ('k, 'v) dict \<Rightarrow> ('k, 'v) dict res" where
  "recolor_rotate rot entry d = bindR (fld e_parent (Some entry) d) (\<lambda>p.
     bindR (if p \<noteq> None then set_color p BLACK d else Inr d) (\<lambda>d.
     bindR (grandparent (Some entry) d) (\<lambda>gp.
     case gp of None \<Rightarrow> Inr d | Some g \<Rightarrow> bindR (set_color gp RED d) (rot g))))"

text \<open>One side of the loop: the parent \<open>p\<close> is the child of \<open>gp\<close> on the side whose other side is
  \<open>far\<close>. The result holds the next entry of the loop.\<close>

definition insert_side :: "(('k, 'v) entry \<Rightarrow> ref) \<Rightarrow> (nat \<Rightarrow> ('k, 'v) dict \<Rightarrow> ('k, 'v) dict res) \<Rightarrow>
    (nat \<Rightarrow> ('k, 'v) dict \<Rightarrow> ('k, 'v) dict res) \<Rightarrow> nat \<Rightarrow> ('k, 'v) dict \<Rightarrow> (nat \<times> ('k, 'v) dict) res" where
  "insert_side far rot_near rot_far entry d =
     bindR (fld e_parent (Some entry) d) (\<lambda>p.
     bindR (grandparent (Some entry) d) (\<lambda>gp.
     bindR (fld far gp d) (\<lambda>y.
     bindR (is_red y d) (\<lambda>yr.
     if yr then bindR (push_blackness p y gp d) (\<lambda>d. Inr (the gp, d))
     else bindR (fld far p d) (\<lambda>pf.
       bindR (if Some entry = pf then bindR (rot_near (the p) d) (\<lambda>d. Inr (the p, d))
              else Inr (entry, d)) (\<lambda>(entry, d).
       bindR (recolor_rotate rot_far entry d) (\<lambda>d. Inr (entry, d))))))))"

fun validateInsert_loop :: "nat \<Rightarrow> nat \<Rightarrow> ('k, 'v) dict \<Rightarrow> ('k, 'v) dict res" where
  "validateInsert_loop 0 entry d = Inl Out_Of_Fuel"
| "validateInsert_loop (Suc fuel) entry d = (if Some entry = d_root d then Inr d else
     bindR (fld e_parent (Some entry) d) (\<lambda>p. bindR (fld e_color p d) (\<lambda>pc.
     if pc \<noteq> RED then Inr d else
     bindR (grandparent (Some entry) d) (\<lambda>gp.
     if gp = None then Inr d else
     bindR (fld e_lesser gp d) (\<lambda>gl.
     bindR (if p = gl then insert_side e_greater rotateLeft rotateRight entry d
            else insert_side e_lesser rotateRight rotateLeft entry d) (\<lambda>(entry, d).
     validateInsert_loop fuel entry d))))))"

definition validateInsert :: "nat \<Rightarrow> ('k, 'v) dict \<Rightarrow> ('k, 'v) dict res" where
  "validateInsert entry d = bindR (validateInsert_loop (fuel_of d) entry d) (\<lambda>d.
     set_color (d_root d) BLACK d)"

definition insert_entry :: "nat \<Rightarrow> ('k, 'v) dict \<Rightarrow> ('k, 'v) dict res" where
  "insert_entry entry d = (if d_root d = None then Inr (d\<lparr>d_root := Some entry\<rparr>)
     else bindR (insert_below (fuel_of d) entry (d_root d) d) (validateInsert entry))"


section \<open>Removal\<close>

text \<open>The splice at the beginning of \<open>_remove\<close>: \<open>y\<close> leaves its place, its child \<open>x\<close> takes it.\<close>

definition splice_out :: "ref \<Rightarrow> ref \<Rightarrow> ('k, 'v) dict \<Rightarrow> ('k, 'v) dict res" where
  "splice_out y x d = bindR (fld e_parent y d) (\<lambda>yp.
     bindR (if x \<noteq> None then upd x (\<lambda>e. e\<lparr>e_parent := yp\<rparr>) d else Inr d) (\<lambda>d.
     if yp = None then Inr (d\<lparr>d_root := x\<rparr>)
     else bindR (fld e_lesser yp d) (\<lambda>l.
       if y = l then upd yp (\<lambda>e. e\<lparr>e_lesser := x\<rparr>) d
       else upd yp (\<lambda>e. e\<lparr>e_greater := x\<rparr>) d)))"

text \<open>\<open>y\<close> then takes the place of \<open>entry\<close>, links and colour included.\<close>

definition transplant :: "nat \<Rightarrow> ref \<Rightarrow> ('k, 'v) dict \<Rightarrow> ('k, 'v) dict res" where
  "transplant entry y d =
     bindR (fld e_lesser (Some entry) d) (\<lambda>l.
     bindR (upd y (\<lambda>e. e\<lparr>e_lesser := l\<rparr>) d) (\<lambda>d.
     bindR (if l \<noteq> None then upd l (\<lambda>e. e\<lparr>e_parent := y\<rparr>) d else Inr d) (\<lambda>d.
     bindR (fld e_greater (Some entry) d) (\<lambda>g.
     bindR (upd y (\<lambda>e. e\<lparr>e_greater := g\<rparr>) d) (\<lambda>d.
     bindR (if g \<noteq> None then upd g (\<lambda>e. e\<lparr>e_parent := y\<rparr>) d else Inr d) (\<lambda>d.
     bindR (fld e_parent (Some entry) d) (\<lambda>p.
     bindR (upd y (\<lambda>e. e\<lparr>e_parent := p\<rparr>) d) (\<lambda>d.
     bindR (fld e_color (Some entry) d) (\<lambda>c.
     bindR (set_color y c d) (\<lambda>d.
     bindR (if p \<noteq> None then replaceChild p (Some entry) y d else Inr d) (\<lambda>d.
     Inr (if Some entry = d_root d then d\<lparr>d_root := y\<rparr> else d))))))))))))"

text \<open>One side of the loop of \<open>_removeFixTree\<close>, for an entry below \<open>p\<close>: \<open>near\<close> and \<open>far\<close> are
  the two child fields, \<open>rot_near\<close> rotates towards the entry. A red sibling \<open>w\<close> is rotated away
  first; a sibling whose far child is black is rotated next; then the colours are settled.\<close>

definition fix_red :: "(('k, 'v) entry \<Rightarrow> ref) \<Rightarrow> (nat \<Rightarrow> ('k, 'v) dict \<Rightarrow> ('k, 'v) dict res) \<Rightarrow>
    nat \<Rightarrow> ref \<Rightarrow> ref \<Rightarrow> ('k, 'v) dict \<Rightarrow> (ref \<times> ('k, 'v) dict) res" where
  "fix_red far rot_near entry p w d =
     bindR (set_color w BLACK d) (\<lambda>d. bindR (set_color p RED d) (\<lambda>d.
     bindR (rot_near (the p) d) (\<lambda>d. bindR (fld e_parent (Some entry) d) (\<lambda>p.
     bindR (fld far p d) (\<lambda>w. Inr (w, d))))))"

definition fix_inner :: "(('k, 'v) entry \<Rightarrow> ref) \<Rightarrow> (nat \<Rightarrow> ('k, 'v) dict \<Rightarrow> ('k, 'v) dict res) \<Rightarrow>
    nat \<Rightarrow> ref \<Rightarrow> ref \<Rightarrow> ('k, 'v) dict \<Rightarrow> (ref \<times> ('k, 'v) dict) res" where
  "fix_inner far rot_far entry w wn d =
     bindR (if wn \<noteq> None then set_color wn BLACK d else Inr d) (\<lambda>d. bindR (set_color w RED d) (\<lambda>d.
     bindR (rot_far (the w) d) (\<lambda>d. bindR (fld e_parent (Some entry) d) (\<lambda>p.
     bindR (fld far p d) (\<lambda>w. Inr (w, d))))))"

definition fix_outer :: "(('k, 'v) entry \<Rightarrow> ref) \<Rightarrow> (nat \<Rightarrow> ('k, 'v) dict \<Rightarrow> ('k, 'v) dict res) \<Rightarrow>
    nat \<Rightarrow> ref \<Rightarrow> ('k, 'v) dict \<Rightarrow> (ref \<times> ('k, 'v) dict) res" where
  "fix_outer far rot_near entry w d =
     bindR (fld e_parent (Some entry) d) (\<lambda>p. bindR (fld e_color p d) (\<lambda>pc.
     bindR (set_color w pc d) (\<lambda>d. bindR (fld e_parent w d) (\<lambda>wp.
     if wp \<noteq> None then
       bindR (set_color p BLACK d) (\<lambda>d. bindR (fld far w d) (\<lambda>wf.
       bindR (if wf \<noteq> None then set_color wf BLACK d else Inr d) (\<lambda>d.
       bindR (rot_near (the p) d) (\<lambda>d. Inr (d_root d, d)))))
     else Inr (Some entry, d)))))"

text \<open>The result is the next entry of the loop, or nothing for its \<open>break\<close>.\<close>

definition fix_side :: "(('k, 'v) entry \<Rightarrow> ref) \<Rightarrow> (('k, 'v) entry \<Rightarrow> ref) \<Rightarrow>
    (nat \<Rightarrow> ('k, 'v) dict \<Rightarrow> ('k, 'v) dict res) \<Rightarrow> (nat \<Rightarrow> ('k, 'v) dict \<Rightarrow> ('k, 'v) dict res) \<Rightarrow>
    nat \<Rightarrow> ('k, 'v) dict \<Rightarrow> (ref option \<times> ('k, 'v) dict) res" where
  "fix_side near far rot_near rot_far entry d =
     bindR (fld e_parent (Some entry) d) (\<lambda>p.
     bindR (fld far p d) (\<lambda>w.
     bindR (is_red w d) (\<lambda>wr.
     bindR (if wr then fix_red far rot_near entry p w d else Inr (w, d)) (\<lambda>(w, d).
     if w = None then Inr (None, d) else
     bindR (fld near w d) (\<lambda>wn. bindR (is_red wn d) (\<lambda>wnr.
     bindR (fld far w d) (\<lambda>wf. bindR (is_red wf d) (\<lambda>wfr.
     if \<not> wnr \<and> \<not> wfr then
       bindR (set_color w RED d) (\<lambda>d.
       bindR (fld e_parent (Some entry) d) (\<lambda>p. Inr (Some p, d)))
     else
       bindR (if \<not> wfr then fix_inner far rot_far entry w wn d else Inr (w, d)) (\<lambda>(w, d).
       if w = None then Inr (None, d)
       else bindR (fix_outer far rot_near entry w d) (\<lambda>(next, d). Inr (Some next, d)))))))))))"

fun removeFixTree_loop :: "nat \<Rightarrow> ref \<Rightarrow> ('k, 'v) dict \<Rightarrow> (ref \<times> ('k, 'v) dict) res" where
  "removeFixTree_loop 0 entry d = Inl Out_Of_Fuel"
| "removeFixTree_loop (Suc fuel) entry d = (if entry = d_root d then Inr (entry, d) else
     bindR (fld e_color entry d) (\<lambda>c. if c \<noteq> BLACK then Inr (entry, d) else
     bindR (fld e_parent entry d) (\<lambda>p. bindR (fld e_lesser p d) (\<lambda>pl.
     bindR (if entry = pl then fix_side e_lesser e_greater rotateLeft rotateRight (the entry) d
            else fix_side e_greater e_lesser rotateRight rotateLeft (the entry) d) (\<lambda>(next, d).
     case next of None \<Rightarrow> Inr (entry, d) | Some entry \<Rightarrow> removeFixTree_loop fuel entry d)))))"

definition removeFixTree :: "ref \<Rightarrow> ('k, 'v) dict \<Rightarrow> ('k, 'v) dict res" where
  "removeFixTree entry d = bindR (removeFixTree_loop (fuel_of d) entry d) (\<lambda>(entry, d).
     set_color entry BLACK d)"

definition remove_entry :: "nat \<Rightarrow> ('k, 'v) dict \<Rightarrow> ('k, 'v) dict res" where
  "remove_entry entry d =
     bindR (fld e_lesser (Some entry) d) (\<lambda>l. bindR (fld e_greater (Some entry) d) (\<lambda>g.
     bindR (if l = None \<or> g = None then Inr (Some entry) else successor (Some entry) d) (\<lambda>y.
     bindR (fld e_lesser y d) (\<lambda>yl.
     bindR (if yl \<noteq> None then Inr yl else fld e_greater y d) (\<lambda>x.
     bindR (splice_out y x d) (\<lambda>d.
     bindR (fld e_color y d) (\<lambda>yc.
     let fixflag = (yc = BLACK \<and> x \<noteq> None) in
     bindR (if y \<noteq> Some entry then transplant entry y d else Inr d) (\<lambda>d.
     if fixflag then removeFixTree x d else Inr d))))))))"

section \<open>The public operations\<close>

definition delete_entry :: "nat \<Rightarrow> ('k, 'v) dict \<Rightarrow> ('k, 'v) dict" where
  "delete_entry a d = d\<lparr>d_heap := (d_heap d)(a := None)\<rparr>"

definition new_entry :: "'k \<Rightarrow> 'v \<Rightarrow> u32 \<Rightarrow> ('k, 'v) dict \<Rightarrow> nat \<times> ('k, 'v) dict" where
  "new_entry k v h d = (d_fresh d,
     d\<lparr>d_heap := (d_heap d)(d_fresh d \<mapsto> entry_new k v h), d_fresh := Suc (d_fresh d)\<rparr>)"

definition dict_hasKey :: "('k \<Rightarrow> u32) \<Rightarrow> 'k \<Rightarrow> ('k, 'v) dict \<Rightarrow> bool res" where
  "dict_hasKey hash key d = bindR (find_entry hash key d) (\<lambda>e. Inr (e \<noteq> None))"

definition dict_add :: "('k \<Rightarrow> u32) \<Rightarrow> 'k \<Rightarrow> 'v \<Rightarrow> ('k, 'v) dict \<Rightarrow> ('k, 'v) dict res" where
  "dict_add hash key v d = bindR (dict_hasKey hash key d) (\<lambda>b.
     if b then Inl (Thrown ''InvalidArgumentException'') else
     (let (entry, d) = new_entry key v (hash key) d in
      bindR (link_entry entry d) (insert_entry entry)))"

definition null_error :: error where
  "null_error = Thrown ''NullPointerException''"

definition dict_remove :: "('k \<Rightarrow> u32) \<Rightarrow> 'k \<Rightarrow> ('k, 'v) dict \<Rightarrow> ('k, 'v) dict res" where
  "dict_remove hash key d = bindR (find_entry hash key d) (\<lambda>e. case e of
       None \<Rightarrow> Inl null_error
     | Some a \<Rightarrow> bindR (unlink_entry a d) (\<lambda>d.
         bindR (remove_entry a d) (\<lambda>d. Inr (delete_entry a d))))"

text \<open>Removal through an iterator, which is advanced first.\<close>

definition dict_remove_iter :: "('k \<Rightarrow> u32) \<Rightarrow> ref \<Rightarrow> ('k, 'v) dict \<Rightarrow> (ref \<times> ('k, 'v) dict) res" where
  "dict_remove_iter hash iter d = bindR (fld e_key iter d) (\<lambda>key.
     bindR (find_entry hash key d) (\<lambda>e. case e of
       None \<Rightarrow> Inl null_error
     | Some a \<Rightarrow> bindR (fld e_next iter d) (\<lambda>iter.
         bindR (unlink_entry a d) (\<lambda>d.
         bindR (remove_entry a d) (\<lambda>d. Inr (iter, delete_entry a d))))))"

definition dict_get :: "('k \<Rightarrow> u32) \<Rightarrow> 'k \<Rightarrow> ('k, 'v) dict \<Rightarrow> 'v res" where
  "dict_get hash key d = bindR (find_entry hash key d) (\<lambda>e.
     if e = None then Inl null_error else fld e_value e d)"

text \<open>\<open>operator[]\<close> creates a missing entry with the default value \<open>dflt\<close>; the result is the
  address of the entry whose value the caller reads or assigns.\<close>

definition dict_at :: "('k \<Rightarrow> u32) \<Rightarrow> 'v \<Rightarrow> 'k \<Rightarrow> ('k, 'v) dict \<Rightarrow> (ref \<times> ('k, 'v) dict) res" where
  "dict_at hash dflt key d = bindR (find_entry hash key d) (\<lambda>e. case e of
       Some a \<Rightarrow> Inr (e, d)
     | None \<Rightarrow> (let (entry, d) = new_entry key dflt (hash key) d in
         bindR (link_entry entry d) (\<lambda>d. bindR (insert_entry entry d) (\<lambda>d. Inr (Some entry, d)))))"

definition dict_set :: "('k \<Rightarrow> u32) \<Rightarrow> 'v \<Rightarrow> 'k \<Rightarrow> 'v \<Rightarrow> ('k, 'v) dict \<Rightarrow> ('k, 'v) dict res" where
  "dict_set hash dflt key v d = bindR (dict_at hash dflt key d) (\<lambda>(a, d). upd a (\<lambda>e. e\<lparr>e_value := v\<rparr>) d)"

fun contains_from :: "nat \<Rightarrow> 'v \<Rightarrow> ref \<Rightarrow> ('k, 'v) dict \<Rightarrow> bool res" where
  "contains_from 0 v entry d = Inl Out_Of_Fuel"
| "contains_from (Suc fuel) v entry d = (if entry = None then Inr False else
     bindR (fld e_value entry d) (\<lambda>x. if x = v then Inr True else
     bindR (fld e_next entry d) (\<lambda>n. contains_from fuel v n d)))"

definition dict_containsValue :: "'v \<Rightarrow> ('k, 'v) dict \<Rightarrow> bool res" where
  "dict_containsValue v d = contains_from (fuel_of d) v (d_first d) d"

fun clear_from :: "nat \<Rightarrow> ref \<Rightarrow> ('k, 'v) dict \<Rightarrow> ('k, 'v) dict res" where
  "clear_from 0 entry d = Inl Out_Of_Fuel"
| "clear_from (Suc fuel) entry d = (case entry of None \<Rightarrow> Inr d | Some a \<Rightarrow>
     bindR (fld e_next entry d) (\<lambda>n. clear_from fuel n (delete_entry a d)))"

definition dict_clear :: "('k, 'v) dict \<Rightarrow> ('k, 'v) dict res" where
  "dict_clear d = bindR (clear_from (fuel_of d) (d_first d) d) (\<lambda>d.
     Inr (d\<lparr>d_size := 0, d_root := None, d_first := None, d_last := None\<rparr>))"

definition dict_isEmpty :: "('k, 'v) dict \<Rightarrow> bool" where
  "dict_isEmpty d = (d_size d = 0)"

section \<open>Iterators\<close>

definition dict_begin :: "('k, 'v) dict \<Rightarrow> ref" where
  "dict_begin d = d_first d"

definition dict_end :: ref where
  "dict_end = None"

definition dict_find :: "('k \<Rightarrow> u32) \<Rightarrow> 'k \<Rightarrow> ('k, 'v) dict \<Rightarrow> ref res" where
  "dict_find hash key d = bindR (find_entry hash key d) (\<lambda>e. Inr (if e = None then dict_end else e))"

definition dict_iter_next :: "ref \<Rightarrow> ('k, 'v) dict \<Rightarrow> ref res" where
  "dict_iter_next iter d = fld e_next iter d"

definition dict_iter_prev :: "ref \<Rightarrow> ('k, 'v) dict \<Rightarrow> ref res" where
  "dict_iter_prev iter d = fld e_prev iter d"

end
