(* ===== verification/Dict_Tree.thy ===== *)
theory Dict_Tree
  imports Dict "HOL-Library.Tree"
begin

text \<open>
  The tree behind the pointers of a dictionary: \<open>tree_at\<close> reads a tree of addresses from the
  heap, \<open>tree_replace\<close> exchanges a subtree, and both rotations are shown to be such
  exchanges that keep the in-order sequence and everything but the tree links.
\<close>

section \<open>Reading a tree from the heap\<close>

type_synonym ('k, 'v) heap = "nat \<Rightarrow> ('k, 'v) entry option"

definition skel :: "('k, 'v) entry \<Rightarrow> ref \<times> ref \<times> ref" where
  "skel e = (e_parent e, e_lesser e, e_greater e)"

definition payload :: "('k, 'v) entry \<Rightarrow> ref \<times> ref \<times> 'k \<times> 'v \<times> u32" where
  "payload e = (e_prev e, e_next e, e_key e, e_value e, e_hash e)"

fun tree_at :: "('k, 'v) heap \<Rightarrow> ref \<Rightarrow> ref \<Rightarrow> nat tree \<Rightarrow> bool" where
  "tree_at H p q \<langle>\<rangle> = (p = None)"
| "tree_at H p q \<langle>l, n, g\<rangle> = (p = Some n \<and> (\<exists>e. H n = Some e \<and> e_parent e = q
     \<and> tree_at H (e_lesser e) (Some n) l \<and> tree_at H (e_greater e) (Some n) g))"

lemma tree_at_root_in: "tree_at H (Some n) q t \<Longrightarrow> n \<in> set_tree t"
  by (cases t) auto

lemma tree_at_dom: "tree_at H p q t \<Longrightarrow> n \<in> set_tree t \<Longrightarrow> \<exists>e. H n = Some e"
  by (induction t arbitrary: p q) auto

text \<open>Only the links of the addresses of the tree matter.\<close>

lemma tree_at_frame:
  "tree_at H p q t \<Longrightarrow> (\<And>a. a \<in> set_tree t \<Longrightarrow> map_option skel (H' a) = map_option skel (H a)) \<Longrightarrow>
   tree_at H' p q t"
proof (induction t arbitrary: p q)
  case (Node l n g)
  then obtain e where e: "H n = Some e" "e_parent e = q" "p = Some n"
    "tree_at H (e_lesser e) (Some n) l" "tree_at H (e_greater e) (Some n) g" by auto
  have "map_option skel (H' n) = map_option skel (H n)" using Node.prems(2) by simp
  then obtain e' where "H' n = Some e'" "skel e' = skel e" using e by auto
  moreover have "tree_at H' (e_lesser e) (Some n) l" "tree_at H' (e_greater e) (Some n) g"
    using Node.IH e Node.prems(2) by auto
  ultimately show ?case using e by (auto simp: skel_def)
qed simp

text \<open>A tree under another parent.\<close>

lemma tree_at_reparent:
  assumes "tree_at H p q t" "distinct (inorder t)"
    and "\<And>a. a \<in> set_tree t \<Longrightarrow> map_option skel (H' a)
      = map_option (\<lambda>e. (if p = Some a then q' else e_parent e, e_lesser e, e_greater e)) (H a)"
  shows "tree_at H' p q' t"
proof (cases t)
  case (Node l n g)
  then obtain e where e: "H n = Some e" "e_parent e = q" "p = Some n"
    "tree_at H (e_lesser e) (Some n) l" "tree_at H (e_greater e) (Some n) g" using assms(1) by auto
  have n: "n \<notin> set_tree l" "n \<notin> set_tree g" using assms(2) Node by auto
  have "map_option skel (H' n) = Some (q', e_lesser e, e_greater e)" using assms(3) [of n] e Node by simp
  then obtain e' where e': "H' n = Some e'" "skel e' = (q', e_lesser e, e_greater e)" by auto
  have fr: "map_option skel (H' a) = map_option skel (H a)" if a: "a \<in> set_tree l \<union> set_tree g" for a
  proof -
    have "a \<noteq> n" "a \<in> set_tree t" using a n Node by auto
    then show ?thesis using assms(3) [of a] e(3) by (cases "H a") (auto simp: skel_def)
  qed
  have "tree_at H' (e_lesser e) (Some n) l" "tree_at H' (e_greater e) (Some n) g"
    using e(4,5) fr by (auto intro: tree_at_frame)
  then show ?thesis using e' e Node by (auto simp: skel_def)
qed (use assms in simp)

section \<open>Subtrees\<close>

fun sub :: "nat \<Rightarrow> nat tree \<Rightarrow> nat tree" where
  "sub r \<langle>\<rangle> = \<langle>\<rangle>"
| "sub r \<langle>l, n, g\<rangle> = (if n = r then \<langle>l, n, g\<rangle> else if r \<in> set_tree l then sub r l else sub r g)"

fun repl :: "nat \<Rightarrow> nat tree \<Rightarrow> nat tree \<Rightarrow> nat tree" where
  "repl r s \<langle>\<rangle> = \<langle>\<rangle>"
| "repl r s \<langle>l, n, g\<rangle> = (if n = r then s else \<langle>repl r s l, n, repl r s g\<rangle>)"

lemma repl_id: "r \<notin> set_tree t \<Longrightarrow> repl r s t = t"
  by (induction t) auto

lemma set_tree_inorder: "set (inorder t) = set_tree t"
  by simp

lemma sub_set: "set_tree (sub r t) \<subseteq> set_tree t"
  by (induction t) auto

lemma sub_Node: "r \<in> set_tree t \<Longrightarrow> \<exists>l g. sub r t = \<langle>l, r, g\<rangle>"
  by (induction t) auto

lemma sub_none: "r \<notin> set_tree t \<Longrightarrow> sub r t = \<langle>\<rangle>"
  by (induction t) auto

lemma sub_sub: "distinct (inorder t) \<Longrightarrow> m \<in> set_tree (sub g t) \<Longrightarrow> sub m t = sub m (sub g t)"
proof (induction t)
  case (Node l n r)
  show ?case
  proof (cases "n = g")
    case False
    then have "m \<in> set_tree l \<or> m \<in> set_tree r" "m \<noteq> n"
      using Node.prems sub_set [of g l] sub_set [of g r] by (auto split: if_splits)
    then show ?thesis using Node False sub_set [of g l] sub_set [of g r] by (auto split: if_splits)
  qed simp
qed simp

lemma repl_set:
  "distinct (inorder t) \<Longrightarrow> r \<in> set_tree t \<Longrightarrow> set_tree s = set_tree (sub r t) \<Longrightarrow> set_tree (repl r s t) = set_tree t"
proof (induction t)
  case (Node l n g)
  then show ?case by (cases "r \<in> set_tree l"; cases "r \<in> set_tree g") (auto simp: repl_id)
qed simp

lemma sub_repl:
  "distinct (inorder t) \<Longrightarrow> m \<in> set_tree (sub g t) \<Longrightarrow> m \<noteq> g \<Longrightarrow> set_tree s = set_tree (sub m t) \<Longrightarrow>
   sub g (repl m s t) = repl m s (sub g t)"
proof (induction t)
  case (Node l n r)
  have sl: "set_tree (sub g l) \<subseteq> set_tree l" "set_tree (sub g r) \<subseteq> set_tree r" by (rule sub_set)+
  consider "n = g" | "n \<noteq> g" "g \<in> set_tree l" "m \<in> set_tree (sub g l)" "m \<in> set_tree l"
    | "n \<noteq> g" "g \<notin> set_tree l" "m \<in> set_tree (sub g r)" "m \<in> set_tree r"
    using Node.prems sl by (auto split: if_splits)
  then show ?case
  proof cases
    case 1
    then show ?thesis using Node.prems by auto
  next
    case 2
    then have mn: "m \<noteq> n" "m \<notin> set_tree r" using Node.prems by auto
    have sm: "sub m \<langle>l, n, r\<rangle> = sub m l" using 2 mn by auto
    then have "set_tree (repl m s l) = set_tree l" using repl_set [of l m s] Node.prems 2 by auto
    moreover have "sub g (repl m s l) = repl m s (sub g l)" using Node.IH(1) Node.prems 2 sm by auto
    ultimately show ?thesis using 2 mn by auto
  next
    case 3
    then have mn: "m \<noteq> n" "m \<notin> set_tree l" using Node.prems by auto
    have sm: "sub m \<langle>l, n, r\<rangle> = sub m r" using 3 mn by auto
    then have "sub g (repl m s r) = repl m s (sub g r)" using Node.IH(2) Node.prems 3 by auto
    then show ?thesis using 3 mn by (auto simp: repl_id)
  qed
qed simp

lemma distinct_sub: "distinct (inorder t) \<Longrightarrow> distinct (inorder (sub r t))"
  by (induction t) auto

lemma inorder_repl:
  "distinct (inorder t) \<Longrightarrow> r \<in> set_tree t \<Longrightarrow>
   \<exists>xs ys. inorder t = xs @ inorder (sub r t) @ ys \<and> inorder (repl r s t) = xs @ inorder s @ ys"
proof (induction t)
  case (Node l n g)
  consider "n = r" | "n \<noteq> r" "r \<in> set_tree l" "r \<notin> set_tree g" | "n \<noteq> r" "r \<in> set_tree g" "r \<notin> set_tree l"
    using Node.prems by auto
  then show ?case
  proof cases
    case 1
    then show ?thesis by (auto intro: exI [of _ "[]"])
  next
    case 2
    then obtain xs ys where "inorder l = xs @ inorder (sub r l) @ ys" "inorder (repl r s l) = xs @ inorder s @ ys"
      using Node by auto
    then show ?thesis using 2 by (intro exI [of _ xs] exI [of _ "ys @ n # inorder g"]) (simp add: repl_id)
  next
    case 3
    then obtain xs ys where "inorder g = xs @ inorder (sub r g) @ ys" "inorder (repl r s g) = xs @ inorder s @ ys"
      using Node by auto
    then show ?thesis using 3 by (intro exI [of _ "inorder l @ n # xs"] exI [of _ ys]) (simp add: repl_id)
  qed
qed simp

text \<open>Where the subtree of an address hangs.\<close>

lemma tree_at_sub:
  "tree_at H p q t \<Longrightarrow> distinct (inorder t) \<Longrightarrow> r \<in> set_tree t \<Longrightarrow> H r = Some e \<Longrightarrow>
   tree_at H (Some r) (e_parent e) (sub r t) \<and>
   (if p = Some r then e_parent e = q \<and> sub r t = t
    else \<exists>m em. e_parent e = Some m \<and> m \<in> set_tree t - set_tree (sub r t) \<and> H m = Some em
      \<and> (if e_lesser em = Some r then e_greater em \<noteq> Some r else e_greater em = Some r))"
proof (induction t arbitrary: p q)
  case (Node l n g)
  then obtain en where en: "H n = Some en" "e_parent en = q" "p = Some n"
    "tree_at H (e_lesser en) (Some n) l" "tree_at H (e_greater en) (Some n) g" by auto
  have dl: "distinct (inorder l)" "distinct (inorder g)" using Node.prems by auto
  have gl: "e_lesser en = Some a \<Longrightarrow> a \<in> set_tree l" "e_greater en = Some a \<Longrightarrow> a \<in> set_tree g" for a
    using en(4,5) by (metis tree_at_root_in)+
  consider "n = r" | "n \<noteq> r" "r \<in> set_tree l" "r \<notin> set_tree g" | "n \<noteq> r" "r \<in> set_tree g" "r \<notin> set_tree l"
    using Node.prems by auto
  then show ?case
  proof cases
    case 1
    then show ?thesis using Node.prems en by auto
  next
    case 2
    have nl: "n \<notin> set_tree (sub r l)" using Node.prems(2) sub_set [of r l] by auto
    show ?thesis
    proof (cases "e_lesser en = Some r")
      case True
      have "tree_at H (Some r) (e_parent e) (sub r l)" "e_parent e = Some n" "sub r l = l"
        using True Node.IH(1) [OF en(4) dl(1) 2(2) Node.prems(4)] by auto
      moreover have "e_greater en \<noteq> Some r" using gl(2) [of r] 2 by blast
      moreover have "sub r \<langle>l, n, g\<rangle> = sub r l" using 2 by simp
      ultimately show ?thesis using 2(1) en True nl by (simp del: sub.simps)
    next
      case False
      then have "tree_at H (Some r) (e_parent e) (sub r l)
          \<and> (\<exists>m em. e_parent e = Some m \<and> m \<in> set_tree l - set_tree (sub r l) \<and> H m = Some em
            \<and> (if e_lesser em = Some r then e_greater em \<noteq> Some r else e_greater em = Some r))"
        using Node.IH(1) [OF en(4) dl(1) 2(2) Node.prems(4)] by simp
      then obtain m em where "tree_at H (Some r) (e_parent e) (sub r l)" "e_parent e = Some m"
        "m \<in> set_tree l" "m \<notin> set_tree (sub r l)" "H m = Some em"
        "if e_lesser em = Some r then e_greater em \<noteq> Some r else e_greater em = Some r" by blast
      moreover have "sub r \<langle>l, n, g\<rangle> = sub r l" using 2 by simp
      ultimately show ?thesis using 2(1) en(3) by (simp del: sub.simps)
    qed
  next
    case 3
    have ng: "n \<notin> set_tree (sub r g)" using Node.prems(2) sub_set [of r g] by auto
    show ?thesis
    proof (cases "e_greater en = Some r")
      case True
      have "tree_at H (Some r) (e_parent e) (sub r g)" "e_parent e = Some n" "sub r g = g"
        using True Node.IH(2) [OF en(5) dl(2) 3(2) Node.prems(4)] by auto
      moreover have "e_lesser en \<noteq> Some r" using gl(1) [of r] 3 by blast
      moreover have "sub r \<langle>l, n, g\<rangle> = sub r g" using 3 by simp
      ultimately show ?thesis using 3(1) en True ng by (simp del: sub.simps)
    next
      case False
      then have "tree_at H (Some r) (e_parent e) (sub r g)
          \<and> (\<exists>m em. e_parent e = Some m \<and> m \<in> set_tree g - set_tree (sub r g) \<and> H m = Some em
            \<and> (if e_lesser em = Some r then e_greater em \<noteq> Some r else e_greater em = Some r))"
        using Node.IH(2) [OF en(5) dl(2) 3(2) Node.prems(4)] by simp
      then obtain m em where "tree_at H (Some r) (e_parent e) (sub r g)" "e_parent e = Some m"
        "m \<in> set_tree g" "m \<notin> set_tree (sub r g)" "H m = Some em"
        "if e_lesser em = Some r then e_greater em \<noteq> Some r else e_greater em = Some r" by blast
      moreover have "sub r \<langle>l, n, g\<rangle> = sub r g" using 3 by simp
      ultimately show ?thesis using 3(1) en(3) by (simp del: sub.simps)
    qed
  qed
qed simp

text \<open>Exchanging the subtree of \<open>r\<close>: outside it, links to \<open>r\<close> become links to \<open>new\<close>.\<close>

definition relink :: "nat \<Rightarrow> ref \<Rightarrow> ('k, 'v) entry \<Rightarrow> ref \<times> ref \<times> ref" where
  "relink r new e = (e_parent e, if e_lesser e = Some r then new else e_lesser e,
     if e_greater e = Some r then new else e_greater e)"

lemma tree_at_relink:
  "tree_at H p q t \<Longrightarrow> r \<notin> set_tree t \<Longrightarrow>
   (\<And>a. a \<in> set_tree t \<Longrightarrow> map_option skel (H' a) = map_option (relink r new) (H a)) \<Longrightarrow> tree_at H' p q t"
proof (induction t arbitrary: p q)
  case (Node l n g)
  then obtain e where e: "H n = Some e" "e_parent e = q" "p = Some n"
    "tree_at H (e_lesser e) (Some n) l" "tree_at H (e_greater e) (Some n) g" by auto
  have ne: "e_lesser e \<noteq> Some r" "e_greater e \<noteq> Some r"
    using e(4,5) tree_at_root_in [of H r] Node.prems(2) by auto
  have "map_option skel (H' n) = map_option (relink r new) (H n)" using Node.prems(3) by simp
  then obtain e' where "H' n = Some e'" "skel e' = skel e" using e ne by (auto simp: relink_def skel_def)
  moreover have "tree_at H' (e_lesser e) (Some n) l" "tree_at H' (e_greater e) (Some n) g"
    using Node.IH e Node.prems by auto
  ultimately show ?case using e by (auto simp: skel_def)
qed simp

lemma tree_replace:
  "tree_at H p q t \<Longrightarrow> distinct (inorder t) \<Longrightarrow> r \<in> set_tree t \<Longrightarrow> H r = Some e \<Longrightarrow>
   tree_at H' new (e_parent e) s \<Longrightarrow>
   (\<And>a. a \<in> set_tree t - set_tree (sub r t) \<Longrightarrow> map_option skel (H' a) = map_option (relink r new) (H a)) \<Longrightarrow>
   tree_at H' (if p = Some r then new else p) q (repl r s t)"
proof (induction t arbitrary: p q)
  case (Node l n g)
  then obtain en where en: "H n = Some en" "e_parent en = q" "p = Some n"
    "tree_at H (e_lesser en) (Some n) l" "tree_at H (e_greater en) (Some n) g" by auto
  have dl: "distinct (inorder l)" "distinct (inorder g)" "n \<notin> set_tree l" "n \<notin> set_tree g"
    "set_tree l \<inter> set_tree g = {}"
    using Node.prems(2) by auto
  consider "n = r" | "n \<noteq> r" "r \<in> set_tree l" "r \<notin> set_tree g" | "n \<noteq> r" "r \<in> set_tree g" "r \<notin> set_tree l"
    using Node.prems by auto
  then show ?case
  proof cases
    case 1
    then show ?thesis using Node.prems en by auto
  next
    case 2
    have sb: "sub r \<langle>l, n, g\<rangle> = sub r l" using 2 by simp
    have ss: "set_tree (sub r l) \<subseteq> set_tree l" by (rule sub_set)
    have "tree_at H' (if e_lesser en = Some r then new else e_lesser en) (Some n) (repl r s l)"
      using Node.IH(1) [OF en(4) dl(1) 2(2) Node.prems(4,5)] Node.prems(6) sb dl by auto
    moreover have "tree_at H' (e_greater en) (Some n) g"
    proof (rule tree_at_relink [OF en(5) 2(3)])
      show "map_option skel (H' a) = map_option (relink r new) (H a)" if "a \<in> set_tree g" for a
        using Node.prems(6) [of a] that sb ss dl by auto
    qed
    moreover have "map_option skel (H' n) = map_option (relink r new) (H n)"
      using Node.prems(6) [of n] sb ss dl by auto
    moreover have "e_greater en \<noteq> Some r" using en(5) 2(3) by (metis tree_at_root_in)
    ultimately show ?thesis using 2 en by (auto simp: repl_id skel_def relink_def)
  next
    case 3
    have sb: "sub r \<langle>l, n, g\<rangle> = sub r g" using 3 by simp
    have ss: "set_tree (sub r g) \<subseteq> set_tree g" by (rule sub_set)
    have "tree_at H' (if e_greater en = Some r then new else e_greater en) (Some n) (repl r s g)"
      using Node.IH(2) [OF en(5) dl(2) 3(2) Node.prems(4,5)] Node.prems(6) sb dl by auto
    moreover have "tree_at H' (e_lesser en) (Some n) l"
    proof (rule tree_at_relink [OF en(4) 3(3)])
      show "map_option skel (H' a) = map_option (relink r new) (H a)" if "a \<in> set_tree l" for a
        using Node.prems(6) [of a] that sb ss dl by auto
    qed
    moreover have "map_option skel (H' n) = map_option (relink r new) (H n)"
      using Node.prems(6) [of n] sb ss dl by auto
    moreover have "e_lesser en \<noteq> Some r" using en(4) 3(3) by (metis tree_at_root_in)
    ultimately show ?thesis using 3 en by (auto simp: repl_id skel_def relink_def)
  qed
qed simp

end
