(* ===== verification/Dict_Rot.thy ===== *)
theory Dict_Rot
  imports Dict_Tree
begin

text \<open>
  The rotations of a dictionary's tree: each exchanges one subtree for its rotated form and
  keeps the payload and the colour of every entry, so the in-order sequence is unchanged.
  Recolouring keeps the links.
\<close>

section \<open>What tree operations keep\<close>

definition keeps :: "('k, 'v) dict \<Rightarrow> ('k, 'v) dict \<Rightarrow> bool" where
  "keeps d d' \<longleftrightarrow> (\<forall>a. map_option payload (d_heap d' a) = map_option payload (d_heap d a))
     \<and> d_fresh d' = d_fresh d \<and> d_size d' = d_size d \<and> d_first d' = d_first d \<and> d_last d' = d_last d"

definition shape :: "('k, 'v) dict \<Rightarrow> nat tree \<Rightarrow> bool" where
  "shape d t \<longleftrightarrow> tree_at (d_heap d) (d_root d) None t \<and> distinct (inorder t)"

definition color_at :: "('k, 'v) dict \<Rightarrow> nat \<Rightarrow> color option" where
  "color_at d a = map_option e_color (d_heap d a)"

definition parent_at :: "('k, 'v) dict \<Rightarrow> nat \<Rightarrow> ref" where
  "parent_at d a = (case d_heap d a of None \<Rightarrow> None | Some e \<Rightarrow> e_parent e)"

lemma keeps_refl [simp]: "keeps d d"
  by (simp add: keeps_def)

lemma keeps_trans [trans]: "keeps a b \<Longrightarrow> keeps b c \<Longrightarrow> keeps a c"
  by (simp add: keeps_def)

lemma upd_Some: "d_heap d a = Some e \<Longrightarrow> upd (Some a) f d = Inr (d\<lparr>d_heap := (d_heap d)(a \<mapsto> f e)\<rparr>)"
  by (simp add: upd_def)

lemma fld_Some: "d_heap d a = Some e \<Longrightarrow> fld f (Some a) d = Inr (f e)"
  by (simp add: fld_def)

section \<open>Rotation to the right\<close>

text \<open>The links after the rotation of \<open>r\<close> with lesser child \<open>x\<close>, parent \<open>p\<close> and inner subtree \<open>b\<close>.\<close>

definition rotR_skel :: "nat \<Rightarrow> nat \<Rightarrow> ref \<Rightarrow> ref \<Rightarrow> nat \<Rightarrow> ('k, 'v) entry \<Rightarrow> ref \<times> ref \<times> ref" where
  "rotR_skel r x p b a e = (
     if a = r then (Some x, b, e_greater e)
     else if a = x then (p, e_lesser e, Some r)
     else if b = Some a then (Some r, e_lesser e, e_greater e)
     else relink r (Some x) e)"

lemma rotR_skel_other:
  "a \<noteq> r \<Longrightarrow> a \<noteq> x \<Longrightarrow> b \<noteq> Some a \<Longrightarrow> rotR_skel r x p b a = relink r (Some x)"
  by (simp add: rotR_skel_def fun_eq_iff)

lemmas rot_unfold = keeps_def color_at_def parent_at_def payload_def fun_eq_iff skel_def

lemma rotateRight_links:
  assumes r: "d_heap d r = Some er" "e_lesser er = Some x" and x: "d_heap d x = Some ex"
    and b: "\<And>a. e_greater ex = Some a \<Longrightarrow> \<exists>eb. d_heap d a = Some eb \<and> e_lesser eb \<noteq> Some r \<and> e_greater eb \<noteq> Some r"
    and ds: "r \<noteq> x" "e_greater ex \<noteq> Some r" "e_greater ex \<noteq> Some x" "e_parent er \<noteq> Some r" "e_parent er \<noteq> Some x"
      "e_parent er \<noteq> None \<Longrightarrow> e_parent er \<noteq> e_greater ex"
    and p: "if d_root d = Some r then e_parent er = None
      else \<exists>m em. e_parent er = Some m \<and> d_heap d m = Some em
        \<and> (if e_lesser em = Some r then e_greater em \<noteq> Some r else e_greater em = Some r)"
    and only: "\<And>a e. d_heap d a = Some e \<Longrightarrow> e_lesser e = Some r \<or> e_greater e = Some r \<Longrightarrow> a \<in> D \<Longrightarrow> e_parent er = Some a"
  shows "\<exists>d'. rotateRight r d = Inr d' \<and> keeps d d' \<and> color_at d' = color_at d
    \<and> d_root d' = (if d_root d = Some r then Some x else d_root d)
    \<and> (\<forall>a \<in> insert r (insert x (set_option (e_greater ex) \<union> D)). map_option skel (d_heap d' a)
        = map_option (rotR_skel r x (e_parent er) (e_greater ex) a) (d_heap d a))
    \<and> (\<forall>a. a \<noteq> r \<and> a \<noteq> x \<and> e_greater ex \<noteq> Some a \<longrightarrow> parent_at d' a = parent_at d a)"
proof (cases "d_root d = Some r")
  case True
  have p0: "e_parent er = None" using p True by simp
  have dd: "map_option skel (d_heap d a) = map_option (relink r (Some x)) (d_heap d a)" if "a \<in> D" for a
    using only [of a] that p0 by (cases "d_heap d a") (auto simp: skel_def relink_def)
  show ?thesis
  proof (cases "e_greater ex")
    case None
    show ?thesis using r x ds p0 True None
      by (simp add: rotateRight_def fld_def upd_def setLesser_def setGreater_def)
        (auto simp: rot_unfold rotR_skel_def rotR_skel_other dd)
  next
    case (Some b')
    obtain eb where eb: "d_heap d b' = Some eb" "e_lesser eb \<noteq> Some r" "e_greater eb \<noteq> Some r"
      using b [OF Some] by auto
    show ?thesis using r x ds p0 dd True Some eb
      by (simp add: rotateRight_def fld_def upd_def setLesser_def setGreater_def)
        (auto simp: rot_unfold rotR_skel_def rotR_skel_other relink_def dd)
  qed
next
  case False
  obtain m em where m: "e_parent er = Some m" "d_heap d m = Some em"
     "if e_lesser em = Some r then e_greater em \<noteq> Some r else e_greater em = Some r" using p False by auto
  have dd: "map_option skel (d_heap d a) = map_option (relink r (Some x)) (d_heap d a)"
    if "a \<in> D" "a \<noteq> m" for a
    using only [of a] that m by (cases "d_heap d a") (auto simp: skel_def relink_def)
  show ?thesis
  proof (cases "e_greater ex")
    case None
    show ?thesis using r x ds m dd False None
      by (cases "e_lesser em = Some r";
          simp add: rotateRight_def fld_def upd_def setLesser_def setGreater_def;
          auto simp: rot_unfold rotR_skel_def rotR_skel_other relink_def dd)
  next
    case (Some b')
    obtain eb where eb: "d_heap d b' = Some eb" "e_lesser eb \<noteq> Some r" "e_greater eb \<noteq> Some r"
      using b [OF Some] by auto
    show ?thesis using r x ds m dd False Some eb
      by (cases "e_lesser em = Some r";
          simp add: rotateRight_def fld_def upd_def setLesser_def setGreater_def;
          auto simp: rot_unfold rotR_skel_def rotR_skel_other relink_def dd)
  qed
qed

lemma tree_at_child:
  "tree_at H p q t \<Longrightarrow> a \<in> set_tree t \<Longrightarrow> H a = Some e \<Longrightarrow>
   e_lesser e = Some r \<or> e_greater e = Some r \<Longrightarrow> \<exists>er. H r = Some er \<and> e_parent er = Some a \<and> r \<in> set_tree t"
proof (induction t arbitrary: p q)
  case (Node l n g)
  show ?case
  proof (cases "n = a")
    case True
    then show ?thesis using Node.prems by (cases l; cases g) auto
  next
    case False
    then consider "a \<in> set_tree l" | "a \<in> set_tree g" using Node.prems(2) by auto
    then show ?thesis
    proof cases
      case 1
      then show ?thesis using Node.IH(1) [OF _ 1 Node.prems(3,4)] Node.prems(1) by auto
    next
      case 2
      then show ?thesis using Node.IH(2) [OF _ 2 Node.prems(3,4)] Node.prems(1) by auto
    qed
  qed
qed simp

lemma root_set: "tree_at H (Some n) q t \<Longrightarrow> distinct (inorder t) \<Longrightarrow> \<exists>l g. t = \<langle>l, n, g\<rangle>"
  by (cases t) auto

definition rotR_parents :: "nat \<Rightarrow> nat \<Rightarrow> nat tree \<Rightarrow> nat set" where
  "rotR_parents r x b = {r, x} \<union> (case b of \<langle>\<rangle> \<Rightarrow> {} | \<langle>_, n, _\<rangle> \<Rightarrow> {n})"

lemma rotateRight_shape:
  assumes sh: "shape d T" and rT: "r \<in> set_tree T" and sb: "sub r T = \<langle>\<langle>a, x, b\<rangle>, r, c\<rangle>"
  shows "\<exists>d'. rotateRight r d = Inr d' \<and> keeps d d' \<and> color_at d' = color_at d
    \<and> shape d' (repl r \<langle>a, x, \<langle>b, r, c\<rangle>\<rangle> T)
    \<and> (\<forall>y. y \<notin> rotR_parents r x b \<longrightarrow> parent_at d' y = parent_at d y)
    \<and> parent_at d' r = Some x \<and> parent_at d' x = parent_at d r"
proof -
  let ?H = "d_heap d" and ?s = "\<langle>a, x, \<langle>b, r, c\<rangle>\<rangle>"
  have ta: "tree_at ?H (d_root d) None T" and di: "distinct (inorder T)" using sh by (auto simp: shape_def)
  obtain er where er: "?H r = Some er" using tree_at_dom [OF ta rT] by auto
  note ts = tree_at_sub [OF ta di rT er, unfolded sb]
  have tr: "tree_at ?H (Some r) (e_parent er) \<langle>\<langle>a, x, b\<rangle>, r, c\<rangle>" using ts by blast
  then obtain ex where ex: "e_lesser er = Some x" "?H x = Some ex" "e_parent ex = Some r"
    "tree_at ?H (e_lesser ex) (Some x) a" "tree_at ?H (e_greater ex) (Some x) b" "tree_at ?H (e_greater er) (Some r) c"
    using er by auto
  have ds: "distinct (inorder \<langle>\<langle>a, x, b\<rangle>, r, c\<rangle>)" using distinct_sub [OF di, of r] sb by simp
  have ss: "set_tree \<langle>\<langle>a, x, b\<rangle>, r, c\<rangle> \<subseteq> set_tree T" using sub_set [of r T] sb by simp
  have pn: "e_parent er = Some m \<Longrightarrow> m \<notin> set_tree \<langle>\<langle>a, x, b\<rangle>, r, c\<rangle>" for m
    using ts by (auto split: if_splits)
  have bb: "\<exists>l g eb. b = \<langle>l, n, g\<rangle> \<and> ?H n = Some eb \<and> e_lesser eb \<noteq> Some r \<and> e_greater eb \<noteq> Some r
      \<and> tree_at ?H (e_lesser eb) (Some n) l \<and> tree_at ?H (e_greater eb) (Some n) g" if nn: "e_greater ex = Some n" for n
  proof -
    obtain l g eb where "b = \<langle>l, n, g\<rangle>" "?H n = Some eb"
      and "tree_at ?H (e_lesser eb) (Some n) l" "tree_at ?H (e_greater eb) (Some n) g"
      using ex(5) nn by (cases b) auto
    moreover from this have "e_lesser eb \<noteq> Some r" "e_greater eb \<noteq> Some r"
      using ds tree_at_root_in [of ?H r "Some n" l] tree_at_root_in [of ?H r "Some n" g] by auto
    ultimately show ?thesis by blast
  qed
  have bn: "e_greater ex = None \<longleftrightarrow> b = \<langle>\<rangle>" using ex(5) by (cases b) auto
  have "\<exists>d'. rotateRight r d = Inr d' \<and> keeps d d' \<and> color_at d' = color_at d
    \<and> d_root d' = (if d_root d = Some r then Some x else d_root d)
    \<and> (\<forall>a \<in> insert r (insert x (set_option (e_greater ex) \<union> set_tree T)). map_option skel (d_heap d' a)
        = map_option (rotR_skel r x (e_parent er) (e_greater ex) a) (?H a))
    \<and> (\<forall>a. a \<noteq> r \<and> a \<noteq> x \<and> e_greater ex \<noteq> Some a \<longrightarrow> parent_at d' a = parent_at d a)"
  proof (rule rotateRight_links [OF er ex(1,2)])
    show "r \<noteq> x" "e_greater ex \<noteq> Some r" "e_greater ex \<noteq> Some x" using bb ds by auto
    show "e_parent er \<noteq> Some r" "e_parent er \<noteq> Some x" using pn by auto
    show "e_parent er \<noteq> None \<Longrightarrow> e_parent er \<noteq> e_greater ex" using pn bb by fastforce
    show "if d_root d = Some r then e_parent er = None else \<exists>m em. e_parent er = Some m \<and> ?H m = Some em
        \<and> (if e_lesser em = Some r then e_greater em \<noteq> Some r else e_greater em = Some r)"
    proof (cases "d_root d = Some r")
      case False
      show ?thesis unfolding if_not_P [OF False] using ts [unfolded if_not_P [OF False]] by blast
    qed (use ts in simp)
    show "\<And>a e. ?H a = Some e \<Longrightarrow> e_lesser e = Some r \<or> e_greater e = Some r \<Longrightarrow> a \<in> set_tree T \<Longrightarrow> e_parent er = Some a"
      using tree_at_child [OF ta] er by fastforce
    fix n assume "e_greater ex = Some n"
    then show "\<exists>eb. ?H n = Some eb \<and> e_lesser eb \<noteq> Some r \<and> e_greater eb \<noteq> Some r"
      using bb [of n] by blast
  qed
  then obtain d' where d': "rotateRight r d = Inr d'" "keeps d d'" "color_at d' = color_at d"
    "d_root d' = (if d_root d = Some r then Some x else d_root d)"
    "\<And>y. y \<in> insert r (insert x (set_option (e_greater ex) \<union> set_tree T)) \<Longrightarrow>
      map_option skel (d_heap d' y) = map_option (rotR_skel r x (e_parent er) (e_greater ex) y) (?H y)"
    "\<And>y. y \<noteq> r \<and> y \<noteq> x \<and> e_greater ex \<noteq> Some y \<Longrightarrow> parent_at d' y = parent_at d y" by blast
  have lk: "e_lesser e \<noteq> Some r" "e_greater e \<noteq> Some r"
    if "y \<in> set_tree \<langle>\<langle>a, x, b\<rangle>, r, c\<rangle>" "y \<noteq> r" "?H y = Some e" for y e
    using tree_at_child [OF tr that(1,3), of r] that er pn [of y] by auto
  have fr: "map_option skel (d_heap d' y) = map_option skel (?H y)"
    if "y \<in> set_tree a \<or> y \<in> set_tree c \<or> y \<in> set_tree b \<and> e_greater ex \<noteq> Some y" for y
  proof -
    have y: "y \<in> set_tree \<langle>\<langle>a, x, b\<rangle>, r, c\<rangle>" "y \<noteq> r" "y \<noteq> x" "e_greater ex \<noteq> Some y"
      using that ds bb [of y] by auto
    then show ?thesis using d'(5) [of y] ss lk [OF y(1,2)]
      by (cases "?H y") (auto simp: rotR_skel_other relink_def skel_def)
  qed
  have 1: "map_option skel (d_heap d' r) = Some (Some x, e_greater ex, e_greater er)"
    using d'(5) [of r] er by (simp add: rotR_skel_def)
  have 2: "map_option skel (d_heap d' x) = Some (e_parent er, e_lesser ex, Some r)"
    using d'(5) [of x] ex ds by (auto simp: rotR_skel_def)
  have "tree_at (d_heap d') (e_greater ex) (Some r) b"
  proof (rule tree_at_reparent [OF ex(5)])
    fix y assume y: "y \<in> set_tree b"
    then have "y \<noteq> r" "y \<noteq> x" using ds by auto
    then show "map_option skel (d_heap d' y) = map_option (\<lambda>e. (if e_greater ex = Some y then Some r
        else e_parent e, e_lesser e, e_greater e)) (?H y)"
      using d'(5) [of y] fr [of y] y by (cases "?H y") (auto simp: rotR_skel_def skel_def)
  qed (use ds in auto)
  moreover have "tree_at (d_heap d') (e_lesser ex) (Some x) a" "tree_at (d_heap d') (e_greater er) (Some r) c"
    using tree_at_frame [OF ex(4)] tree_at_frame [OF ex(6)] fr by auto
  ultimately have "tree_at (d_heap d') (Some x) (e_parent er) ?s"
    using 1 2 by (auto simp: skel_def)
  then have "tree_at (d_heap d') (if d_root d = Some r then Some x else d_root d) None (repl r ?s T)"
  proof (rule tree_replace [OF ta di rT er])
    fix y assume y: "y \<in> set_tree T - set_tree (sub r T)"
    then have "y \<noteq> r" "y \<noteq> x" "e_greater ex \<noteq> Some y" using sb bb [of y] by auto
    then show "map_option skel (d_heap d' y) = map_option (relink r (Some x)) (?H y)"
      using d'(5) [of y] y by (simp add: rotR_skel_other)
  qed
  moreover have "inorder (repl r ?s T) = inorder T"
    using inorder_repl [OF di rT, of ?s] sb by auto
  moreover have "parent_at d' r = Some x" "parent_at d' x = parent_at d r"
    using 1 2 er by (auto simp: parent_at_def skel_def)
  moreover have "parent_at d' y = parent_at d y" if "y \<notin> rotR_parents r x b" for y
  proof -
    have "e_greater ex \<noteq> Some y" using that bb [of y] by (auto simp: rotR_parents_def)
    then show ?thesis using d'(6) [of y] that by (auto simp: rotR_parents_def)
  qed
  ultimately show ?thesis using d'(1-4) di by (auto simp: shape_def)
qed

section \<open>Rotation to the left, by reflection\<close>

definition mirE :: "('k, 'v) entry \<Rightarrow> ('k, 'v) entry" where
  "mirE e = e\<lparr>e_lesser := e_greater e, e_greater := e_lesser e\<rparr>"

definition mirD :: "('k, 'v) dict \<Rightarrow> ('k, 'v) dict" where
  "mirD d = d\<lparr>d_heap := (\<lambda>a. map_option mirE (d_heap d a))\<rparr>"

lemma mirE_simps [simp]:
  "e_lesser (mirE e) = e_greater e" "e_greater (mirE e) = e_lesser e" "e_parent (mirE e) = e_parent e"
  "payload (mirE e) = payload e" "e_color (mirE e) = e_color e" "mirE (mirE e) = e"
  "(mirE e)\<lparr>e_lesser := p\<rparr> = mirE (e\<lparr>e_greater := p\<rparr>)" "(mirE e)\<lparr>e_greater := p\<rparr> = mirE (e\<lparr>e_lesser := p\<rparr>)"
  "(mirE e)\<lparr>e_parent := p\<rparr> = mirE (e\<lparr>e_parent := p\<rparr>)"
  by (simp_all add: mirE_def payload_def)

lemma mirD_simps [simp]:
  "d_heap (mirD d) a = map_option mirE (d_heap d a)" "d_root (mirD d) = d_root d" "mirD (mirD d) = d"
  "(mirD d)\<lparr>d_root := p\<rparr> = mirD (d\<lparr>d_root := p\<rparr>)" "keeps d (mirD d)" "color_at (mirD d) = color_at d"
  "parent_at (mirD d) = parent_at d"
  by (simp_all add: mirD_def option.map_comp o_def option.map_ident keeps_def color_at_def parent_at_def fun_eq_iff
      option.case_eq_if option.map_sel)

lemma bindR_mir: "bindR (map_sum id mirD m) f = bindR m (\<lambda>d. f (mirD d))"
  by (cases m) (simp_all add: bindR_def)

lemma mir_bindR: "map_sum id mirD (bindR m f) = bindR m (\<lambda>d. map_sum id mirD (f d))"
  by (cases m) (simp_all add: bindR_def)

lemma fld_mir: "fld f p (mirD d) = fld (f \<circ> mirE) p d"
  by (auto simp: fld_def split: option.splits)

lemma mirD_write: "mirD (d\<lparr>d_heap := (d_heap d)(a \<mapsto> e)\<rparr>) = (mirD d)\<lparr>d_heap := (d_heap (mirD d))(a \<mapsto> mirE e)\<rparr>"
  by (cases d) (simp add: mirD_def fun_eq_iff)

lemma upd_mir:
  "(\<And>e. f (mirE e) = mirE (g e)) \<Longrightarrow> upd p f (mirD d) = map_sum id mirD (upd p g d)"
  by (auto simp: upd_def mirD_write split: option.splits)

lemma setLesser_mir: "setLesser p q (mirD d) = map_sum id mirD (setGreater p q d)"
  and setGreater_mir: "setGreater p q (mirD d) = map_sum id mirD (setLesser p q d)"
  unfolding setLesser_def setGreater_def
  by (subst upd_mir [of _ "\<lambda>e. e\<lparr>e_greater := q\<rparr>"] upd_mir [of _ "\<lambda>e. e\<lparr>e_lesser := q\<rparr>"], simp,
      simp add: bindR_mir mir_bindR, rule arg_cong [where f = "bindR _"],
      simp add: fun_eq_iff upd_mir [of _ "\<lambda>e. e\<lparr>e_parent := p\<rparr>"])+

lemma o_mirE [simp]:
  "e_lesser \<circ> mirE = e_greater" "e_greater \<circ> mirE = e_lesser" "e_parent \<circ> mirE = e_parent"
  by (simp_all add: fun_eq_iff)

lemma bindR_fun_cong: "(\<And>x. f x = g x) \<Longrightarrow> bindR m f = bindR m g"
  by presburger

lemma bindR_If: "bindR (if c then m else n) f = (if c then bindR m f else bindR n f)"
  by simp

lemma rotateRight_mir: "rotateRight r (mirD d) = map_sum id mirD (rotateLeft r d)"
  unfolding rotateRight_def rotateLeft_def mir_bindR fld_mir o_mirE
  by (rule bindR_fun_cong)+
    (simp add: if_distrib [of "map_sum id mirD"] mir_bindR bindR_mir fld_mir setLesser_mir setGreater_mir
     upd_mir [of _ "\<lambda>e. e\<lparr>e_parent := None\<rparr>"] bindR_assoc bindR_If cong: if_cong)

lemma tree_at_mir: "tree_at (d_heap (mirD d)) p q (mirror t) = tree_at (d_heap d) p q t"
  by (induction t arbitrary: p q) auto

lemma shape_mir: "shape (mirD d) (mirror t) = shape d t"
  by (simp add: shape_def tree_at_mir inorder_mirror)

lemma set_mirror [simp]: "set_tree (mirror t) = set_tree t"
  by (induction t) auto

lemma sub_mirror: "distinct (inorder t) \<Longrightarrow> sub r (mirror t) = mirror (sub r t)"
  by (induction t) (auto simp: sub_none)

lemma repl_mirror: "repl r (mirror s) (mirror t) = mirror (repl r s t)"
  by (induction t) auto

lemma rotateLeft_shape:
  assumes sh: "shape d T" and rT: "r \<in> set_tree T" and sb: "sub r T = \<langle>a, r, \<langle>b, x, c\<rangle>\<rangle>"
  shows "\<exists>d'. rotateLeft r d = Inr d' \<and> keeps d d' \<and> color_at d' = color_at d
    \<and> shape d' (repl r \<langle>\<langle>a, r, b\<rangle>, x, c\<rangle> T)
    \<and> (\<forall>y. y \<notin> rotR_parents r x b \<longrightarrow> parent_at d' y = parent_at d y)
    \<and> parent_at d' r = Some x \<and> parent_at d' x = parent_at d r"
proof -
  have "sub r (mirror T) = \<langle>\<langle>mirror c, x, mirror b\<rangle>, r, mirror a\<rangle>"
    using sub_mirror [of T r] sh sb by (simp add: shape_def)
  from rotateRight_shape [OF _ _ this, of "mirD d"] obtain d1 where
    d1: "rotateRight r (mirD d) = Inr d1" "keeps (mirD d) d1" "color_at d1 = color_at d"
    "shape d1 (repl r (mirror \<langle>\<langle>a, r, b\<rangle>, x, c\<rangle>) (mirror T))"
    "\<forall>y. y \<notin> rotR_parents r x (mirror b) \<longrightarrow> parent_at d1 y = parent_at d y"
    "parent_at d1 r = Some x" "parent_at d1 x = parent_at d r"
    using sh rT by (auto simp: shape_mir)
  have "rotateLeft r d = Inr (mirD d1)"
    using rotateRight_mir [of r d] d1(1) by (cases "rotateLeft r d") auto
  moreover have "keeps d (mirD d1)"
    by (meson keeps_trans d1(2) mirD_simps(5))
  moreover have "shape (mirD d1) (repl r \<langle>\<langle>a, r, b\<rangle>, x, c\<rangle> T)"
    using d1(4) unfolding repl_mirror by (metis mirD_simps(3) shape_mir)
  moreover have "rotR_parents r x (mirror b) = rotR_parents r x b"
    by (cases b) (simp_all add: rotR_parents_def)
  ultimately show ?thesis using d1 by simp
qed

section \<open>Recolouring\<close>

lemma set_color_ok:
  assumes "color_at d a \<noteq> None"
  shows "\<exists>d'. set_color (Some a) c d = Inr d' \<and> keeps d d' \<and> color_at d' = (color_at d)(a \<mapsto> c)
    \<and> d_root d' = d_root d \<and> parent_at d' = parent_at d \<and> (\<forall>t. shape d' t = shape d t)
    \<and> (\<forall>n. map_option skel (d_heap d' n) = map_option skel (d_heap d n))"
proof -
  obtain e where e: "d_heap d a = Some e" using assms by (auto simp: color_at_def)
  let ?d = "d\<lparr>d_heap := (d_heap d)(a \<mapsto> e\<lparr>e_color := c\<rparr>)\<rparr>"
  have sk: "map_option skel (d_heap ?d n) = map_option skel (d_heap d n)" for n
    using e by (auto simp: skel_def)
  then have "shape ?d t = shape d t" for t
    unfolding shape_def using tree_at_frame [of "d_heap d" _ _ t "d_heap ?d"] tree_at_frame [of "d_heap ?d" _ _ t "d_heap d"]
    by auto
  moreover have "keeps d ?d" "color_at ?d = (color_at d)(a \<mapsto> c)" "parent_at ?d = parent_at d"
    using e by (auto simp: keeps_def payload_def color_at_def parent_at_def fun_eq_iff)
  moreover have "set_color (Some a) c d = Inr ?d" using e by (simp add: set_color_def upd_def)
  ultimately show ?thesis using sk by (intro exI [of _ ?d] conjI allI) simp_all
qed

end
