(* ===== verification/Dict_Side.thy ===== *)
theory Dict_Side
  imports Dict_Rot
begin

text \<open>
  The two sides of the tree as one interface. The loops that restore the colours treat the
  lesser and the greater side alike with the child fields and the rotations exchanged:
  locale \<open>side\<close> fixes the fields, the rotations and the tree constructor of a side and
  assumes what the rotations do; both sides are interpretations.
\<close>

section \<open>Links of a well-shaped tree\<close>

fun the_root :: "nat tree \<Rightarrow> ref" where
  "the_root \<langle>\<rangle> = None"
| "the_root \<langle>_, n, _\<rangle> = Some n"

lemma tree_at_root: "tree_at H p q t \<Longrightarrow> p = the_root t"
  by (cases t) auto

lemma the_root_in [dest]: "the_root t = Some n \<Longrightarrow> n \<in> set_tree t"
  by (cases t) auto

lemma the_root_None [simp]: "the_root t = None \<longleftrightarrow> t = \<langle>\<rangle>"
  by (cases t) auto

lemma shape_root: "shape d t \<Longrightarrow> d_root d = the_root t"
  by (auto simp: shape_def dest: tree_at_root)

lemma shape_entry: "shape d t \<Longrightarrow> n \<in> set_tree t \<Longrightarrow> \<exists>e. d_heap d n = Some e"
  unfolding shape_def using tree_at_dom by blast

lemma shape_color: "shape d t \<Longrightarrow> n \<in> set_tree t \<Longrightarrow> color_at d n \<noteq> None"
  using shape_entry by (fastforce simp: color_at_def)

lemma fld_parent: "color_at d n \<noteq> None \<Longrightarrow> fld e_parent (Some n) d = Inr (parent_at d n)"
  by (auto simp: fld_def parent_at_def color_at_def)

lemma fld_color: "color_at d n = Some c \<Longrightarrow> fld e_color (Some n) d = Inr c"
  by (auto simp: fld_def color_at_def)

lemma is_red_color: "color_at d n = Some c \<Longrightarrow> is_red (Some n) d = Inr (c = RED)"
  by (simp add: is_red_def fld_color)

lemma sub_links:
  assumes sh: "shape d t" and r: "r \<in> set_tree t" "sub r t = \<langle>a, r, b\<rangle>"
  shows "fld e_lesser (Some r) d = Inr (the_root a)" "fld e_greater (Some r) d = Inr (the_root b)"
    "the_root a = Some x \<Longrightarrow> parent_at d x = Some r" "the_root b = Some x \<Longrightarrow> parent_at d x = Some r"
proof -
  obtain e where e: "d_heap d r = Some e" using shape_entry [OF sh r(1)] by auto
  then have "tree_at (d_heap d) (Some r) (e_parent e) \<langle>a, r, b\<rangle>"
    using tree_at_sub [of "d_heap d" "d_root d" None t r e] sh r by (simp add: shape_def)
  then have t: "tree_at (d_heap d) (e_lesser e) (Some r) a" "tree_at (d_heap d) (e_greater e) (Some r) b"
    using e by auto
  then show "fld e_lesser (Some r) d = Inr (the_root a)" "fld e_greater (Some r) d = Inr (the_root b)"
    using e tree_at_root by (auto simp: fld_def)
  show "the_root a = Some x \<Longrightarrow> parent_at d x = Some r" using t(1) by (cases a) (auto simp: parent_at_def)
  show "the_root b = Some x \<Longrightarrow> parent_at d x = Some r" using t(2) by (cases b) (auto simp: parent_at_def)
qed

text \<open>An entry is the root or hangs below its parent.\<close>

lemma parent_cases:
  assumes sh: "shape d t" and r: "r \<in> set_tree t"
  obtains (root) "d_root d = Some r" "parent_at d r = None" "sub r t = t"
  | (lesser) m b where "d_root d \<noteq> Some r" "parent_at d r = Some m" "m \<in> set_tree t" "sub m t = \<langle>sub r t, m, b\<rangle>"
  | (greater) m a where "d_root d \<noteq> Some r" "parent_at d r = Some m" "m \<in> set_tree t" "sub m t = \<langle>a, m, sub r t\<rangle>"
proof -
  obtain e where e: "d_heap d r = Some e" using shape_entry [OF sh r(1)] by auto
  have ta: "tree_at (d_heap d) (d_root d) None t" and di: "distinct (inorder t)" using sh by (auto simp: shape_def)
  note ts = tree_at_sub [OF ta di r e]
  show thesis
  proof (cases "d_root d = Some r")
    case True
    then show thesis using ts e by (intro root) (auto simp: parent_at_def)
  next
    case False
    obtain m em where m: "e_parent e = Some m" "m \<in> set_tree t" "d_heap d m = Some em"
      "e_lesser em = Some r \<or> e_greater em = Some r"
      using ts [unfolded if_not_P [OF False]] by (auto split: if_splits)
    obtain a b where s: "sub m t = \<langle>a, m, b\<rangle>" using sub_Node [OF m(2)] by auto
    have in_sub: "r \<in> set_tree (sub m t)" "e_lesser em = the_root a" "e_greater em = the_root b"
      using sub_links [OF sh m(2) s] m s by (auto simp: fld_def)
    have "sub r t = sub r \<langle>a, m, b\<rangle>" using sub_sub [OF di in_sub(1)] s by simp
    moreover have "distinct (inorder \<langle>a, m, b\<rangle>)" using distinct_sub [OF di, of m] s by simp
    ultimately have "e_lesser em = Some r \<Longrightarrow> sub r t = a" "e_greater em = Some r \<Longrightarrow> sub r t = b"
      using in_sub by (cases a; cases b; auto)+
    then show thesis using m s False e by (metis greater lesser option.case(2) parent_at_def)
  qed
qed

section \<open>The interface of a side\<close>

locale side =
  fixes near far :: "('k, 'v) entry \<Rightarrow> ref"
    and rot_near rot_far :: "nat \<Rightarrow> ('k, 'v) dict \<Rightarrow> ('k, 'v) dict res"
    and nd :: "nat tree \<Rightarrow> nat \<Rightarrow> nat tree \<Rightarrow> nat tree"
  assumes sides: "(near = e_lesser \<and> far = e_greater) \<or> (near = e_greater \<and> far = e_lesser)"
    and nd_exh: "t \<noteq> \<langle>\<rangle> \<Longrightarrow> \<exists>a n b. t = nd a n b"
    and nd_set: "set_tree (nd a n b) = insert n (set_tree a \<union> set_tree b)"
    and nd_root: "the_root (nd a n b) = Some n"
    and nd_distinct: "distinct (inorder (nd a n b)) \<longleftrightarrow> distinct (inorder a) \<and> distinct (inorder b)
      \<and> n \<notin> set_tree a \<union> set_tree b \<and> set_tree a \<inter> set_tree b = {}"
    and nd_sub: "distinct (inorder (nd a n b)) \<Longrightarrow> sub m (nd a n b) =
      (if m = n then nd a n b else if m \<in> set_tree a then sub m a else sub m b)"
    and nd_repl: "repl m s (nd a n b) = (if m = n then s else nd (repl m s a) n (repl m s b))"
    and nd_links: "shape d t \<Longrightarrow> r \<in> set_tree t \<Longrightarrow> sub r t = nd a r b \<Longrightarrow>
      fld near (Some r) d = Inr (the_root a) \<and> fld far (Some r) d = Inr (the_root b)
      \<and> (\<forall>x. the_root a = Some x \<longrightarrow> parent_at d x = Some r) \<and> (\<forall>x. the_root b = Some x \<longrightarrow> parent_at d x = Some r)"
    and nd_rotate: "inorder (nd (nd a n b) m c) = inorder (nd a n (nd b m c))"
    and rot_far_ok: "shape d t \<Longrightarrow> r \<in> set_tree t \<Longrightarrow> sub r t = nd (nd a x b) r c \<Longrightarrow>
      \<exists>d'. rot_far r d = Inr d' \<and> keeps d d' \<and> color_at d' = color_at d \<and> shape d' (repl r (nd a x (nd b r c)) t)
        \<and> (\<forall>y. y \<notin> rotR_parents r x b \<longrightarrow> parent_at d' y = parent_at d y)
        \<and> parent_at d' r = Some x \<and> parent_at d' x = parent_at d r"
    and rot_near_ok: "shape d t \<Longrightarrow> r \<in> set_tree t \<Longrightarrow> sub r t = nd a r (nd b x c) \<Longrightarrow>
      \<exists>d'. rot_near r d = Inr d' \<and> keeps d d' \<and> color_at d' = color_at d \<and> shape d' (repl r (nd (nd a r b) x c) t)
        \<and> (\<forall>y. y \<notin> rotR_parents r x b \<longrightarrow> parent_at d' y = parent_at d y)
        \<and> parent_at d' r = Some x \<and> parent_at d' x = parent_at d r"

interpretation lesser_side: side e_lesser e_greater rotateLeft rotateRight Node
proof
  show "t \<noteq> \<langle>\<rangle> \<Longrightarrow> \<exists>a n b. t = \<langle>a, n, b\<rangle>" for t :: "nat tree" by (cases t) auto
qed (use sub_links rotateRight_shape rotateLeft_shape in \<open>auto simp: Un_commute\<close>)

interpretation greater_side: side e_greater e_lesser rotateRight rotateLeft "\<lambda>a n b. \<langle>b, n, a\<rangle>"
proof
  show "t \<noteq> \<langle>\<rangle> \<Longrightarrow> \<exists>a n b. t = \<langle>b, n, a\<rangle>" for t :: "nat tree" by (cases t) auto
qed (use sub_links rotateRight_shape rotateLeft_shape in \<open>auto simp: sub_none\<close>)

end
