(* ===== verification/Dict_Fix.thy ===== *)
theory Dict_Fix
  imports Dict_Side
begin

text \<open>
  The loop that restores the colours after an insertion: it returns with the fuel the model
  gives it, keeps the payload of every entry and leaves a tree with the same in-order
  sequence.
\<close>

section \<open>Depth\<close>

fun depth :: "nat \<Rightarrow> nat tree \<Rightarrow> nat" where
  "depth r \<langle>\<rangle> = 0"
| "depth r \<langle>l, n, g\<rangle> = (if n = r then 0 else if r \<in> set_tree l then Suc (depth r l) else Suc (depth r g))"

lemma depth_less: "r \<in> set_tree t \<Longrightarrow> depth r t < size t"
  by (induction t) fastforce+

lemma depth_sub:
  "distinct (inorder t) \<Longrightarrow> r \<in> set_tree (sub m t) \<Longrightarrow> depth r t = depth m t + depth r (sub m t)"
proof (induction t)
  case (Node l n g)
  then show ?case using sub_set [of m l] sub_set [of m g] by (auto split: if_splits)
qed simp

lemma depth_parent:
  assumes "shape d t" "r \<in> set_tree t" "parent_at d r = Some m"
  shows "m \<in> set_tree t" "depth r t = Suc (depth m t)"
proof -
  have di: "distinct (inorder t)" using assms(1) by (simp add: shape_def)
  obtain a b where rs: "sub r t = \<langle>a, r, b\<rangle>" using sub_Node [OF assms(2)] by auto
  have "m \<in> set_tree t \<and> depth r t = Suc (depth m t)"
    using assms(1,2)
  proof (cases rule: parent_cases)
    case root
    then show ?thesis using assms(3) by simp
  next
    case (lesser m' b')
    then show ?thesis using depth_sub [OF di, of r m] distinct_sub [OF di, of m] assms(3) rs by auto
  next
    case (greater m' b')
    then show ?thesis using depth_sub [OF di, of r m] distinct_sub [OF di, of m] assms(3) rs by auto
  qed
  then show "m \<in> set_tree t" "depth r t = Suc (depth m t)" by auto
qed

section \<open>One step after an insertion\<close>

lemma push_blackness_ok:
  assumes "shape d t" "p \<in> set_tree t" "y \<in> set_tree t" "g \<in> set_tree t"
  shows "\<exists>d'. push_blackness (Some p) (Some y) (Some g) d = Inr d' \<and> keeps d d' \<and> shape d' t"
proof -
  obtain d1 where 1: "set_color (Some p) BLACK d = Inr d1" "keeps d d1" "shape d1 t"
    using set_color_ok [of d p BLACK] shape_color [OF assms(1,2)] assms(1) by auto
  obtain d2 where 2: "set_color (Some y) BLACK d1 = Inr d2" "keeps d1 d2" "shape d2 t"
    using set_color_ok [of d1 y BLACK] shape_color [OF 1(3) assms(3)] 1(3) by auto
  obtain d3 where 3: "set_color (Some g) RED d2 = Inr d3" "keeps d2 d3" "shape d3 t"
    using set_color_ok [of d2 g RED] shape_color [OF 2(3) assms(4)] 2(3) by auto
  show ?thesis using 1 2 3 keeps_trans [of d d1 d2] keeps_trans [of d d2 d3] by (simp add: push_blackness_def)
qed

lemma inorder_set: "inorder t' = inorder t \<Longrightarrow> set_tree t' = set_tree t"
  by (metis set_inorder)

lemma rotated_inorder:
  "shape d t \<Longrightarrow> r \<in> set_tree t \<Longrightarrow> inorder s = inorder (sub r t) \<Longrightarrow> inorder (repl r s t) = inorder t"
  using inorder_repl [of t r s] by (auto simp: shape_def)

context side
begin

lemma child_near_far:
  fixes d :: "('k, 'v) dict"
  assumes sh: "shape d t" and m: "m \<in> set_tree t" "sub m t = nd a m b" and r: "r \<in> set_tree t" "parent_at d r = Some m"
  shows "the_root a = Some r \<or> the_root b = Some r"
proof -
  note l = nd_links [OF sh m]
  have "fld e_lesser (Some m) d = Inr (Some r) \<or> fld e_greater (Some m) d = Inr (Some r)"
    using sh r(1)
  proof (cases rule: parent_cases)
    case root
    then show ?thesis using r by simp
  next
    case (lesser m' b')
    then show ?thesis using sub_links(1) [OF sh m(1)] r(2) sub_Node [OF r(1)] by fastforce
  next
    case (greater m' a')
    then show ?thesis using sub_links(2) [OF sh m(1)] r(2) sub_Node [OF r(1)] by fastforce
  qed
  then show ?thesis using l sides by auto
qed

lemma recolor_rotate_ok:
  assumes sh: "shape d t" and e: "e \<in> set_tree t" "parent_at d e = Some p" "parent_at d p = Some g"
    and s: "g \<in> set_tree t" "sub g t = nd (nd a p b) g c" "the_root a = Some e"
  shows "\<exists>d' t'. recolor_rotate rot_far e d = Inr d' \<and> keeps d d' \<and> shape d' t' \<and> inorder t' = inorder t
    \<and> parent_at d' e = Some p \<and> color_at d' p = Some BLACK"
proof -
  have di: "distinct (inorder t)" using sh by (simp add: shape_def)
  have ds: "distinct (inorder (nd (nd a p b) g c))" using distinct_sub [OF di, of g] s by simp
  have pt: "p \<in> set_tree t" using sub_set [of g t] s nd_set by auto
  obtain d1 where 1: "set_color (Some p) BLACK d = Inr d1" "keeps d d1" "shape d1 t" "parent_at d1 = parent_at d"
      "color_at d1 = (color_at d)(p \<mapsto> BLACK)"
    using set_color_ok [of d p BLACK] shape_color [OF sh pt] sh by auto
  obtain d2 where 2: "set_color (Some g) RED d1 = Inr d2" "keeps d1 d2" "shape d2 t" "parent_at d2 = parent_at d"
      "color_at d2 = (color_at d1)(g \<mapsto> RED)"
    using set_color_ok [of d1 g RED] shape_color [OF 1(3) s(1)] 1 by auto
  obtain d3 where 3: "rot_far g d2 = Inr d3" "keeps d2 d3" "color_at d3 = color_at d2"
      "shape d3 (repl g (nd a p (nd b g c)) t)" "\<forall>y. y \<notin> rotR_parents g p b \<longrightarrow> parent_at d3 y = parent_at d2 y"
    using rot_far_ok [OF 2(3) s(1,2)] by auto
  have "recolor_rotate rot_far e d = Inr d3"
    using 1 2 3 e fld_parent [of d e] fld_parent [of d1 e] fld_parent [of d1 p]
      shape_color [OF sh e(1)] shape_color [OF 1(3) e(1)] shape_color [OF 1(3) pt]
    by (simp add: recolor_rotate_def grandparent_def)
  moreover have "keeps d d3" using keeps_trans 1(2) 2(2) 3(2) by blast
  moreover have "inorder (repl g (nd a p (nd b g c)) t) = inorder t"
    using rotated_inorder [OF sh s(1)] s(2) nd_rotate by simp
  moreover have "e \<notin> rotR_parents g p b"
    using ds the_root_in [OF s(3)] by (cases b) (auto simp: rotR_parents_def nd_distinct nd_set)
  then have "parent_at d3 e = Some p" using 3(5) 2(4) e by simp
  moreover have "color_at d3 p = Some BLACK" using 3(3) 2(5) 1(5) ds by (auto simp: nd_distinct nd_set)
  ultimately show ?thesis using 3(4) by blast
qed

lemma insert_side_ok:
  fixes d :: "('k, 'v) dict"
  assumes sh: "shape d t" and e: "e \<in> set_tree t" "parent_at d e = Some m" "parent_at d m = Some g"
    and s: "sub g t = nd A g C" "the_root A = Some m"
  shows "\<exists>e' d' t'. insert_side far rot_near rot_far e d = Inr (e', d') \<and> keeps d d' \<and> shape d' t'
    \<and> inorder t' = inorder t
    \<and> (e' = g \<and> t' = t \<or> e' \<in> set_tree t \<and> (\<exists>p. parent_at d' e' = Some p \<and> color_at d' p = Some BLACK))"
proof -
  have di: "distinct (inorder t)" using sh by (simp add: shape_def)
  have mt: "m \<in> set_tree t" using depth_parent [OF sh e(1,2)] by simp
  have gt: "g \<in> set_tree t" using depth_parent [OF sh mt e(3)] by simp
  note gl = nd_links [OF sh gt s(1)]
  have ct: "y \<in> set_tree t" if "the_root C = Some y" for y
    using the_root_in [OF that] sub_set [of g t] s(1) nd_set by auto
  have pre: "fld e_parent (Some e) d = Inr (Some m)" "grandparent (Some e) d = Inr (Some g)"
    using fld_parent [of d e] fld_parent [of d m] shape_color [OF sh e(1)] shape_color [OF sh mt] e
    by (simp_all add: grandparent_def)
  obtain yr where yr: "is_red (the_root C) d = Inr yr" "yr \<Longrightarrow> \<exists>y. the_root C = Some y"
    using shape_color [OF sh ct] is_red_color by (cases "the_root C") (fastforce simp: is_red_def)+
  show ?thesis
  proof (cases yr)
    case True
    then obtain y where y: "the_root C = Some y" using yr by auto
    obtain d' where "push_blackness (Some m) (Some y) (Some g) d = Inr d'" "keeps d d'" "shape d' t"
      using push_blackness_ok [OF sh mt ct [OF y] gt] by auto
    then show ?thesis using pre gl yr True y by (auto simp: insert_side_def)
  next
    case False
    obtain a b where A: "A = nd a m b" using nd_exh [of A] nd_root s(2) by (metis option.inject the_root.simps(1) option.distinct(1))
    have ds: "distinct (inorder (nd (nd a m b) g C))" using distinct_sub [OF di, of g] s A by simp
    have mg: "m \<in> set_tree (sub g t)" "m \<noteq> g" using ds by (auto simp: s(1) A nd_set nd_distinct)
    have sm: "sub m t = nd a m b"
      using sub_sub [OF di mg(1)] nd_sub [OF ds, of m] mg(2) ds by (auto simp: s(1) A nd_set nd_sub nd_distinct)
    note ml = nd_links [OF sh mt sm]
    have "\<exists>d1 e1 p1 a1 b1 t1. (if Some e = the_root b then bindR (rot_near m d) (\<lambda>d. Inr (m, d)) else Inr (e, d))
        = Inr (e1, d1) \<and> keeps d d1 \<and> shape d1 t1 \<and> inorder t1 = inorder t \<and> e1 \<in> set_tree t1
        \<and> parent_at d1 e1 = Some p1 \<and> parent_at d1 p1 = Some g \<and> sub g t1 = nd (nd a1 p1 b1) g C \<and> the_root a1 = Some e1"
    proof (cases "the_root b = Some e")
      case True
      obtain b1 b2 where b: "b = nd b1 e b2"
        using nd_exh [of b] nd_root True by (metis option.inject the_root.simps(1) option.distinct(1))
      let ?s = "nd (nd a m b1) e b2"
      obtain d1 where d1: "rot_near m d = Inr d1" "keeps d d1" "shape d1 (repl m ?s t)" "parent_at d1 m = Some e"
          "parent_at d1 e = Some g"
        using rot_near_ok [OF sh mt, of a b1 e b2] sm b e by auto
      have "set_tree ?s = set_tree (sub m t)" using sm b by (auto simp: nd_set)
      then have "sub g (repl m ?s t) = repl m ?s (sub g t)" "set_tree (repl m ?s t) = set_tree t"
        using sub_repl [OF di mg] repl_set [OF di mt] by auto
      moreover have "repl m ?s C = C" using ds by (intro repl_id) (auto simp: nd_distinct nd_set)
      moreover have "inorder (repl m ?s t) = inorder t"
        using rotated_inorder [OF sh mt] sm b nd_rotate by simp
      ultimately show ?thesis using d1 True mg mt s A
        by (intro exI [of _ d1] exI [of _ m] exI [of _ e] exI [of _ "nd a m b1"] exI [of _ b2] exI [of _ "repl m ?s t"])
          (simp add: nd_repl nd_root)
    next
      case False
      then have "the_root a = Some e" using child_near_far [OF sh mt sm e(1,2)] by simp
      then show ?thesis using False e sh s A
        by (intro exI [of _ d] exI [of _ e] exI [of _ m] exI [of _ a] exI [of _ b] exI [of _ t]) auto
    qed
    then obtain d1 e1 p1 a1 b1 t1 where 1: "(if Some e = the_root b then bindR (rot_near m d) (\<lambda>d. Inr (m, d)) else Inr (e, d))
        = Inr (e1, d1)" "keeps d d1" "shape d1 t1" "inorder t1 = inorder t"
        "e1 \<in> set_tree t1" "parent_at d1 e1 = Some p1" "parent_at d1 p1 = Some g"
        "sub g t1 = nd (nd a1 p1 b1) g C" "the_root a1 = Some e1"
      by blast
    have "set_tree t1 = set_tree t" using inorder_set 1(4) by blast
    obtain d2 t2 where 2: "recolor_rotate rot_far e1 d1 = Inr d2" "keeps d1 d2" "shape d2 t2" "inorder t2 = inorder t1"
        "parent_at d2 e1 = Some p1" "color_at d2 p1 = Some BLACK"
      using recolor_rotate_ok [OF 1(3) 1(5-7) _ 1(8,9)] gt \<open>set_tree t1 = set_tree t\<close> by auto
    have "insert_side far rot_near rot_far e d = Inr (e1, d2)"
      using pre gl ml yr False 2(1) 1(1) by (cases "Some e = the_root b") (auto simp: insert_side_def)
    then show ?thesis using 1 2 keeps_trans [of d d1 d2] \<open>set_tree t1 = set_tree t\<close> by auto
  qed
qed

end

section \<open>The loop after an insertion\<close>

lemma validateInsert_loop_ok:
  "shape d t \<Longrightarrow> e \<in> set_tree t \<Longrightarrow> depth e t < fuel \<Longrightarrow>
   \<exists>d' t'. validateInsert_loop fuel e d = Inr d' \<and> keeps d d' \<and> shape d' t' \<and> inorder t' = inorder t"
proof (induction fuel arbitrary: e d t)
  case (Suc fuel)
  note sh = Suc.prems(1) and et = Suc.prems(2)
  show ?case
  proof (cases "d_root d = Some e")
    case True
    then show ?thesis using sh by auto
  next
    case ne: False
    then obtain m where m: "parent_at d e = Some m" using parent_cases [OF sh et] by metis
    have mt: "m \<in> set_tree t" and dm: "depth e t = Suc (depth m t)" using depth_parent [OF sh et m] by auto
    obtain mc where mc: "color_at d m = Some mc" using shape_color [OF sh mt] by auto
    have fm: "fld e_parent (Some e) d = Inr (Some m)" "fld e_color (Some m) d = Inr mc"
      "fld e_parent (Some m) d = Inr (parent_at d m)"
      using fld_parent [of d e] fld_parent [of d m] shape_color [OF sh et] m mc fld_color [OF mc] by auto
    show ?thesis
    proof (cases "mc = RED \<and> parent_at d m \<noteq> None")
      case False
      then show ?thesis using ne sh fm by (auto simp: grandparent_def)
    next
      case True
      then obtain g where g: "parent_at d m = Some g" by auto
      have gt: "g \<in> set_tree t" and dg: "depth m t = Suc (depth g t)" using depth_parent [OF sh mt g] by auto
      let ?step = "\<lambda>r. \<exists>e' d' t'. r = Inr (e', d') \<and> keeps d d' \<and> shape d' t' \<and> inorder t' = inorder t
        \<and> (e' = g \<and> t' = t \<or> e' \<in> set_tree t \<and> (\<exists>p. parent_at d' e' = Some p \<and> color_at d' p = Some BLACK))"
      have "\<exists>gl. fld e_lesser (Some g) d = Inr gl \<and> ?step (if Some m = gl then insert_side e_greater rotateLeft rotateRight e d
            else insert_side e_lesser rotateRight rotateLeft e d)"
        using sh mt
      proof (cases rule: parent_cases)
        case root
        then show ?thesis using g by simp
      next
        case (lesser g' b)
        then show ?thesis using lesser_side.insert_side_ok [OF sh et m g, of "sub m t" b] sub_links(1) [OF sh gt]
            sub_Node [OF mt] g by auto
      next
        case (greater g' a)
        then have "the_root a \<noteq> Some m" using distinct_sub [of t g] sh sub_Node [OF mt] the_root_in [of a m] g
          by (auto simp: shape_def)
        moreover have sg: "sub g t = \<langle>a, g, sub m t\<rangle>" using greater g by simp
        moreover have "the_root (sub m t) = Some m" using sub_Node [OF mt] by auto
        ultimately show ?thesis
          using greater_side.insert_side_ok [OF sh et m g sg] sub_links(1) [OF sh gt sg]
          by (intro exI [of _ "the_root a"]) simp
      qed
      then obtain gl e' d' t' where gl: "fld e_lesser (Some g) d = Inr gl"
        and r: "(if Some m = gl then insert_side e_greater rotateLeft rotateRight e d
            else insert_side e_lesser rotateRight rotateLeft e d) = Inr (e', d')" "keeps d d'" "shape d' t'"
          "inorder t' = inorder t" "e' = g \<and> t' = t \<or> e' \<in> set_tree t \<and> (\<exists>p. parent_at d' e' = Some p \<and> color_at d' p = Some BLACK)"
        by blast
      have step: "validateInsert_loop (Suc fuel) e d = validateInsert_loop fuel e' d'"
        using ne fm g gl r(1) True by (cases "Some m = gl") (auto simp: grandparent_def)
      from r(5) show ?thesis
      proof (elim disjE conjE exE)
        assume "e' = g" "t' = t"
        then show ?thesis unfolding step using Suc.IH [of d' t g] r gt dm dg Suc.prems(3) keeps_trans [of d d'] by fastforce
      next
        fix p assume e': "e' \<in> set_tree t" and p: "parent_at d' e' = Some p" "color_at d' p = Some BLACK"
        obtain f where "fuel = Suc f" using Suc.prems(3) dm by (cases fuel) auto
        moreover have "fld e_parent (Some e') d' = Inr (Some p)" "fld e_color (Some p) d' = Inr BLACK"
          using fld_parent [of d' e'] shape_color [OF r(3), of e'] e' inorder_set [OF r(4)] p fld_color [OF p(2)] by auto
        ultimately have "validateInsert_loop fuel e' d' = Inr d'" by simp
        then show ?thesis unfolding step using r by auto
      qed
    qed
  qed
qed simp

lemma validateInsert_ok:
  assumes "shape d t" "e \<in> set_tree t" "size t \<le> d_fresh d"
  shows "\<exists>d' t'. validateInsert e d = Inr d' \<and> keeps d d' \<and> shape d' t' \<and> inorder t' = inorder t"
proof -
  obtain d1 t1 where 1: "validateInsert_loop (fuel_of d) e d = Inr d1" "keeps d d1" "shape d1 t1" "inorder t1 = inorder t"
    using validateInsert_loop_ok [OF assms(1,2), of "fuel_of d"] depth_less [OF assms(2)] assms(3) by (auto simp: fuel_of_def)
  have "t1 \<noteq> \<langle>\<rangle>" using inorder_set [OF 1(4)] assms(2) by auto
  then obtain r where "the_root t1 = Some r" by (cases t1) auto
  moreover from this obtain d2 where "set_color (Some r) BLACK d1 = Inr d2" "keeps d1 d2" "shape d2 t1"
    using set_color_ok [of d1 r BLACK] shape_color [OF 1(3)] 1(3) by blast
  ultimately show ?thesis using 1 keeps_trans [of d d1 d2] shape_root [OF 1(3)] by (auto simp: validateInsert_def)
qed

end
