(* ===== verification/Dict_Fix_Remove.thy ===== *)
theory Dict_Fix_Remove
  imports Dict_Fix
begin

text \<open>
  The loop that restores the colours after a removal, as for an insertion in Dict_Fix.
\<close>

section \<open>One step after a removal\<close>

text \<open>What a recolouring keeps besides.\<close>

definition recol :: "('k, 'v) dict \<Rightarrow> ('k, 'v) dict \<Rightarrow> bool" where
  "recol d d' \<longleftrightarrow> keeps d d' \<and> d_root d' = d_root d \<and> parent_at d' = parent_at d \<and> (\<forall>t. shape d' t = shape d t)"

lemma recol_refl [simp]: "recol d d"
  by (simp add: recol_def)

lemma recol_trans: "recol a b \<Longrightarrow> recol b c \<Longrightarrow> recol a c"
  by (auto simp: recol_def intro: keeps_trans)

lemma set_color_recol:
  "color_at d a \<noteq> None \<Longrightarrow> \<exists>d'. set_color (Some a) c d = Inr d' \<and> recol d d' \<and> color_at d' = (color_at d)(a \<mapsto> c)"
  using set_color_ok [of d a c] by (auto simp: recol_def)

lemma set_color_opt:
  assumes "shape d t" "\<And>a. p = Some a \<Longrightarrow> a \<in> set_tree t"
  shows "\<exists>d'. (if p \<noteq> None then set_color p c d else Inr d) = Inr d' \<and> recol d d'
    \<and> (\<forall>a. p \<noteq> Some a \<longrightarrow> color_at d' a = color_at d a)"
proof (cases p)
  case (Some a)
  then obtain d' where "set_color (Some a) c d = Inr d'" "recol d d'" "color_at d' = (color_at d)(a \<mapsto> c)"
    using set_color_recol [of d a c] shape_color [OF assms(1)] assms(2) by blast
  then show ?thesis using Some by auto
qed auto

lemma is_red_opt:
  assumes "shape d t" "\<And>a. p = Some a \<Longrightarrow> a \<in> set_tree t"
  shows "\<exists>b. is_red p d = Inr b \<and> (b \<longrightarrow> p \<noteq> None)"
proof (cases p)
  case (Some a)
  then show ?thesis using shape_color [OF assms(1), of a] assms(2) is_red_color [of d a] by auto
qed (fastforce simp: is_red_def)

lemma sub_repl_root:
  "distinct (inorder t) \<Longrightarrow> r \<in> set_tree t \<Longrightarrow> set_tree s = set_tree (sub r t) \<Longrightarrow> the_root s = Some w \<Longrightarrow>
   sub w (repl r s t) = s"
proof (induction t)
  case (Node l n g)
  have sl: "set_tree (sub r l) \<subseteq> set_tree l" "set_tree (sub r g) \<subseteq> set_tree g" by (rule sub_set)+
  have ws: "w \<in> set_tree s" using Node.prems(4) by auto
  consider "n = r" | "n \<noteq> r" "r \<in> set_tree l" | "n \<noteq> r" "r \<notin> set_tree l" "r \<in> set_tree g" using Node.prems by auto
  then show ?case
  proof cases
    case 1
    then show ?thesis using Node.prems by (cases s) auto
  next
    case 2
    moreover have "set_tree (repl r s l) = set_tree l" using repl_set [of l r s] Node.prems 2 by auto
    ultimately show ?thesis using Node ws sl by auto
  next
    case 3
    then show ?thesis using Node ws sl by (auto simp: repl_id)
  qed
qed simp

lemma recolD: "recol d d' \<Longrightarrow> shape d t \<Longrightarrow> shape d' t" "recol d d' \<Longrightarrow> keeps d d'"
  "recol d d' \<Longrightarrow> parent_at d' = parent_at d" "recol d d' \<Longrightarrow> d_root d' = d_root d"
  by (auto simp: recol_def)

context side
begin

lemma parent_near:
  fixes d :: "('k, 'v) dict"
  assumes "shape d t" "p \<in> set_tree t" "sub p t = nd A p C" "the_root A = Some e"
  shows "parent_at d e = Some p"
  using nd_links [OF assms(1-3)] assms(4) by simp

lemma fix_red_ok:
  fixes d :: "('k, 'v) dict"
  assumes sh: "shape d t" and p: "p \<in> set_tree t" "sub p t = nd A p C" "the_root A = Some e" "the_root C = Some w"
  shows "\<exists>d' t' C'. fix_red far rot_near e (Some p) (Some w) d = Inr (the_root C', d') \<and> keeps d d' \<and> shape d' t'
    \<and> inorder t' = inorder t \<and> sub p t' = nd A p C' \<and> color_at d' p = Some RED"
proof -
  have di: "distinct (inorder t)" using sh by (simp add: shape_def)
  obtain b c where C: "C = nd b w c"
    using nd_exh [of C] nd_root p(4) by (metis option.inject the_root.simps(1) option.distinct(1))
  have ds: "distinct (inorder (nd A p (nd b w c)))" using distinct_sub [OF di, of p] p C by simp
  have wt: "w \<in> set_tree t" using sub_set [of p t] p(2) C nd_set by auto
  have et: "e \<in> set_tree A" using p(3) by auto
  let ?s = "nd (nd A p b) w c" let ?t = "repl p ?s t"
  obtain d1 where 1: "set_color (Some w) BLACK d = Inr d1" "recol d d1"
    using set_color_recol [of d w BLACK] shape_color [OF sh wt] by blast
  note s1 = recolD(1) [OF 1(2) sh]
  obtain d2 where 2: "set_color (Some p) RED d1 = Inr d2" "recol d1 d2" "color_at d2 = (color_at d1)(p \<mapsto> RED)"
    using set_color_recol [of d1 p RED] shape_color [OF s1 p(1)] by blast
  note s2 = recolD(1) [OF 2(2) s1]
  obtain d3 where 3: "rot_near p d2 = Inr d3" "keeps d2 d3" "color_at d3 = color_at d2" "shape d3 ?t"
    using rot_near_ok [OF s2 p(1), of A b w c] p(2) C by auto
  have st: "set_tree ?s = set_tree (sub p t)" using p(2) C by (auto simp: nd_set)
  have set3: "set_tree ?t = set_tree t" using repl_set [OF di p(1) st] .
  have io: "inorder ?t = inorder t" using rotated_inorder [OF sh p(1)] p(2) C nd_rotate by simp
  have "sub w ?t = ?s" using sub_repl_root [OF di p(1) st] nd_root by simp
  then have "sub p ?t = sub p ?s" using sub_sub [of ?t p w] io di by (simp add: nd_set)
  also have "\<dots> = nd A p b" using ds by (auto simp: nd_sub nd_distinct nd_set Int_Un_distrib Int_Un_distrib2)
  finally have sp: "sub p ?t = nd A p b" .
  have pe: "parent_at d3 e = Some p" using parent_near [OF 3(4) _ sp p(3)] set3 p(1) by simp
  have "e \<in> set_tree t" using et sub_set [of p t] p(2) nd_set by auto
  then have "fld e_parent (Some e) d3 = Inr (Some p)"
    using fld_parent [of d3 e] shape_color [OF 3(4), of e] set3 pe by simp
  then have "fix_red far rot_near e (Some p) (Some w) d = Inr (the_root b, d3)"
    using 1 2 3 nd_links [OF 3(4) _ sp] set3 p(1) by (simp add: fix_red_def)
  moreover have "keeps d d3" using recolD(2) 1(2) 2(2) 3(2) keeps_trans by blast
  ultimately show ?thesis using 3 2(3) io sp by auto
qed

lemma fix_inner_ok:
  fixes d :: "('k, 'v) dict"
  assumes sh: "shape d t" and p: "p \<in> set_tree t" "sub p t = nd A p (nd x w y)" "the_root A = Some e" "the_root x = Some n"
  shows "\<exists>d' t' u w' v. fix_inner far rot_far e (Some w) (Some n) d = Inr (Some w', d') \<and> keeps d d' \<and> shape d' t'
    \<and> inorder t' = inorder t \<and> sub p t' = nd A p (nd u w' v)"
proof -
  have di: "distinct (inorder t)" using sh by (simp add: shape_def)
  obtain x1 x2 where x: "x = nd x1 n x2"
    using nd_exh [of x] nd_root p(4) by (metis option.inject the_root.simps(1) option.distinct(1))
  have ds: "distinct (inorder (nd A p (nd (nd x1 n x2) w y)))" using distinct_sub [OF di, of p] p x by simp
  have st: "set_tree (sub p t) \<subseteq> set_tree t" by (rule sub_set)
  then have wt: "w \<in> set_tree t" and nt: "n \<in> set_tree t" and et: "e \<in> set_tree t"
    using p(2) x the_root_in [OF p(3)] nd_set by auto
  have wp: "w \<in> set_tree (sub p t)" "w \<noteq> p" using ds by (auto simp: p(2) nd_set nd_distinct)
  obtain d1 where 1: "set_color (Some n) BLACK d = Inr d1" "recol d d1"
    using set_color_recol [of d n BLACK] shape_color [OF sh nt] by blast
  note s1 = recolD(1) [OF 1(2) sh]
  obtain d2 where 2: "set_color (Some w) RED d1 = Inr d2" "recol d1 d2"
    using set_color_recol [of d1 w RED] shape_color [OF s1 wt] by blast
  note s2 = recolD(1) [OF 2(2) s1]
  have sw: "sub w t = nd (nd x1 n x2) w y"
    using sub_sub [OF di wp(1)] ds by (auto simp: p(2) x nd_sub nd_distinct nd_set)
  let ?s = "nd x1 n (nd x2 w y)" let ?t = "repl w ?s t"
  obtain d3 where 3: "rot_far w d2 = Inr d3" "keeps d2 d3" "shape d3 ?t" using rot_far_ok [OF s2 wt sw] by auto
  have st: "set_tree ?s = set_tree (sub w t)" using sw by (auto simp: nd_set)
  have set3: "set_tree ?t = set_tree t" using repl_set [OF di wt st] .
  have io: "inorder ?t = inorder t" using rotated_inorder [OF sh wt] sw nd_rotate by simp
  have "sub p ?t = repl w ?s (sub p t)" by (rule sub_repl [OF di wp st])
  also have "\<dots> = nd A p ?s" using ds wp(2) by (auto simp: p(2) x nd_repl nd_distinct nd_set repl_id)
  finally have sp: "sub p ?t = nd A p ?s" .
  have pe: "parent_at d3 e = Some p" using parent_near [OF 3(3) _ sp p(3)] set3 p(1) by simp
  then have "fld e_parent (Some e) d3 = Inr (Some p)"
    using fld_parent [of d3 e] shape_color [OF 3(3), of e] set3 et by simp
  then have "fix_inner far rot_far e (Some w) (Some n) d = Inr (Some n, d3)"
    using 1 2 3 nd_links [OF 3(3) _ sp] set3 p(1) by (simp add: fix_inner_def nd_root)
  moreover have "keeps d d3" using recolD(2) 1(2) 2(2) 3(2) keeps_trans by blast
  ultimately show ?thesis using 3 io sp by auto
qed

lemma fix_outer_ok:
  fixes d :: "('k, 'v) dict"
  assumes sh: "shape d t" and p: "p \<in> set_tree t" "sub p t = nd A p (nd x w y)" "the_root A = Some e"
  shows "\<exists>d' t'. fix_outer far rot_near e (Some w) d = Inr (d_root d', d') \<and> keeps d d' \<and> shape d' t'
    \<and> inorder t' = inorder t"
proof -
  have di: "distinct (inorder t)" using sh by (simp add: shape_def)
  have ds: "distinct (inorder (nd A p (nd x w y)))" using distinct_sub [OF di, of p] p by simp
  have st: "set_tree (sub p t) \<subseteq> set_tree t" by (rule sub_set)
  then have wt: "w \<in> set_tree t" and et: "e \<in> set_tree t" and yt: "the_root y = Some a \<Longrightarrow> a \<in> set_tree t" for a
    using p(2) the_root_in [OF p(3)] nd_set by auto
  have wp: "w \<in> set_tree (sub p t)" "w \<noteq> p" using ds by (auto simp: p(2) nd_set nd_distinct)
  have sw: "sub w t = nd x w y"
    using sub_sub [OF di wp(1)] ds by (auto simp: p(2) nd_sub nd_distinct nd_set)
  obtain pc where pc: "color_at d p = Some pc" using shape_color [OF sh p(1)] by auto
  have pe: "parent_at d e = Some p" by (rule parent_near [OF sh p])
  have pw: "parent_at d w = Some p" using nd_links [OF sh p(1,2)] nd_root by simp
  obtain d1 where 1: "set_color (Some w) pc d = Inr d1" "recol d d1"
    using set_color_recol [of d w pc] shape_color [OF sh wt] by blast
  note s1 = recolD(1) [OF 1(2) sh]
  obtain d2 where 2: "set_color (Some p) BLACK d1 = Inr d2" "recol d1 d2"
    using set_color_recol [of d1 p BLACK] shape_color [OF s1 p(1)] by blast
  note s2 = recolD(1) [OF 2(2) s1]
  obtain d3 where 3: "(if the_root y \<noteq> None then set_color (the_root y) BLACK d2 else Inr d2) = Inr d3" "recol d2 d3"
    using set_color_opt [OF s2, of "the_root y" BLACK] yt by blast
  note s3 = recolD(1) [OF 3(2) s2]
  obtain d4 where 4: "rot_near p d3 = Inr d4" "keeps d3 d4" "shape d4 (repl p (nd (nd A p x) w y) t)"
    using rot_near_ok [OF s3 p(1), of A x w y] p(2) by auto
  have "fld e_parent (Some e) d = Inr (Some p)" using fld_parent [of d e] shape_color [OF sh et] pe by simp
  moreover have "fld e_parent (Some w) d1 = Inr (Some p)"
    using fld_parent [of d1 w] shape_color [OF s1 wt] pw recolD(3) [OF 1(2)] by simp
  moreover have "fld far (Some w) d2 = Inr (the_root y)" using nd_links [OF s2 wt sw] by simp
  ultimately have "fix_outer far rot_near e (Some w) d = Inr (d_root d4, d4)"
    using 1 2 3(1) 4 fld_color [OF pc] by (auto simp: fix_outer_def split: if_splits)
  moreover have "inorder (repl p (nd (nd A p x) w y) t) = inorder t"
    using rotated_inorder [OF sh p(1)] p(2) nd_rotate by simp
  moreover have "keeps d d4" using recolD(2) 1(2) 2(2) 3(2) 4(2) keeps_trans by blast
  ultimately show ?thesis using 4(3) by blast
qed

lemma fix_side_ok:
  fixes d :: "('k, 'v) dict"
  assumes sh: "shape d t" and p: "p \<in> set_tree t" "sub p t = nd A p C" "the_root A = Some e"
  shows "\<exists>nxt d' t'. fix_side near far rot_near rot_far e d = Inr (nxt, d') \<and> keeps d d' \<and> shape d' t'
    \<and> inorder t' = inorder t
    \<and> (nxt = None \<or> nxt = Some (d_root d') \<or> nxt = Some (Some p) \<and> (t' = t \<or> color_at d' p = Some RED))"
proof -
  have di: "distinct (inorder t)" using sh by (simp add: shape_def)
  note pl = nd_links [OF sh p(1,2)]
  have st: "set_tree (sub p t) \<subseteq> set_tree t" by (rule sub_set)
  then have et: "e \<in> set_tree t" and ct: "the_root C = Some a \<Longrightarrow> a \<in> set_tree t" for a
    using p(2) the_root_in [OF p(3)] nd_set by auto
  have e0: "fld e_parent (Some e) d = Inr (Some p)"
    using fld_parent [of d e] shape_color [OF sh et] parent_near [OF sh p] by simp
  obtain wr where wr: "is_red (the_root C) d = Inr wr" "wr \<longrightarrow> the_root C \<noteq> None"
    using is_red_opt [OF sh, of "the_root C"] ct by blast
  have "\<exists>d1 t1 C1. (if wr then fix_red far rot_near e (Some p) (the_root C) d else Inr (the_root C, d)) = Inr (the_root C1, d1)
      \<and> keeps d d1 \<and> shape d1 t1 \<and> inorder t1 = inorder t \<and> sub p t1 = nd A p C1
      \<and> (t1 = t \<or> color_at d1 p = Some RED)"
  proof (cases wr)
    case True
    then obtain w where "the_root C = Some w" using wr(2) by (cases "the_root C") blast+
    then show ?thesis using fix_red_ok [OF sh p] True by fastforce
  next
    case False
    then show ?thesis using sh p(2) by (intro exI [of _ d] exI [of _ t] exI [of _ C]) simp
  qed
  then obtain d1 t1 C1 where 1: "(if wr then fix_red far rot_near e (Some p) (the_root C) d else Inr (the_root C, d))
      = Inr (the_root C1, d1)" "keeps d d1" "shape d1 t1" "inorder t1 = inorder t" "sub p t1 = nd A p C1"
      "t1 = t \<or> color_at d1 p = Some RED" by blast
  have start: "fix_side near far rot_near rot_far e d = (case Inr (the_root C1, d1) of r \<Rightarrow>
      bindR r (\<lambda>(w, d). if w = None then Inr (None, d) else
       bindR (fld near w d) (\<lambda>wn. bindR (is_red wn d) (\<lambda>wnr.
       bindR (fld far w d) (\<lambda>wf. bindR (is_red wf d) (\<lambda>wfr.
       if \<not> wnr \<and> \<not> wfr then
         bindR (set_color w RED d) (\<lambda>d. bindR (fld e_parent (Some e) d) (\<lambda>p. Inr (Some p, d)))
       else
         bindR (if \<not> wfr then fix_inner far rot_far e w wn d else Inr (w, d)) (\<lambda>(w, d).
         if w = None then Inr (None, d)
         else bindR (fix_outer far rot_near e w d) (\<lambda>(next, d). Inr (Some next, d)))))))))"
    unfolding fix_side_def e0 using pl wr(1) 1(1) by simp
  show ?thesis
  proof (cases C1)
    case Leaf
    then show ?thesis using start 1 by auto
  next
    case (Node _ _ _)
    then obtain x w y where C1: "C1 = nd x w y" using nd_exh [of C1] by auto
    have set1: "set_tree t1 = set_tree t" using inorder_set [OF 1(4)] .
    then have pt: "p \<in> set_tree t1" using p(1) by simp
    have di1: "distinct (inorder t1)" using 1(3) by (simp add: shape_def)
    have ds: "distinct (inorder (nd A p (nd x w y)))" using distinct_sub [OF di1, of p] 1(5) C1 by simp
    have "set_tree (sub p t1) \<subseteq> set_tree t1" by (rule sub_set)
    then have wt: "w \<in> set_tree t1" and xt: "the_root x = Some a \<Longrightarrow> a \<in> set_tree t1"
      and yt: "the_root y = Some a \<Longrightarrow> a \<in> set_tree t1" for a
      using 1(5) C1 nd_set by auto
    have wp: "w \<in> set_tree (sub p t1)" "w \<noteq> p" using ds by (auto simp: 1(5) C1 nd_set nd_distinct)
    have sw: "sub w t1 = nd x w y"
      using sub_sub [OF di1 wp(1)] ds by (auto simp: 1(5) C1 nd_sub nd_distinct nd_set)
    note wl = nd_links [OF 1(3) wt sw]
    obtain nr where nr: "is_red (the_root x) d1 = Inr nr" "nr \<longrightarrow> the_root x \<noteq> None"
      using is_red_opt [OF 1(3), of "the_root x"] xt by blast
    obtain fr where fr: "is_red (the_root y) d1 = Inr fr" "fr \<longrightarrow> the_root y \<noteq> None"
      using is_red_opt [OF 1(3), of "the_root y"] yt by blast
    show ?thesis
    proof (cases "\<not> nr \<and> \<not> fr")
      case True
      obtain d2 where 2: "set_color (Some w) RED d1 = Inr d2" "recol d1 d2" "color_at d2 = (color_at d1)(w \<mapsto> RED)"
        using set_color_recol [of d1 w RED] shape_color [OF 1(3) wt] by blast
      note s2 = recolD(1) [OF 2(2) 1(3)]
      have "fld e_parent (Some e) d2 = Inr (Some p)"
        using fld_parent [of d2 e] shape_color [OF s2, of e] et set1 parent_near [OF s2 pt 1(5) p(3)] by simp
      then have "fix_side near far rot_near rot_far e d = Inr (Some (Some p), d2)"
        using start C1 True nr fr wl 2(1) by (simp add: nd_root)
      moreover have "keeps d d2" using keeps_trans [OF 1(2) recolD(2) [OF 2(2)]] .
      moreover have "t1 = t \<or> color_at d2 p = Some RED" using 1(6) 2(3) wp(2) by auto
      ultimately show ?thesis using s2 1(4) by blast
    next
      case False
      have "\<exists>d2 t2 u w' v. (if \<not> fr then fix_inner far rot_far e (Some w) (the_root x) d1 else Inr (Some w, d1)) = Inr (Some w', d2)
        \<and> keeps d1 d2 \<and> shape d2 t2 \<and> inorder t2 = inorder t1 \<and> sub p t2 = nd A p (nd u w' v)"
      proof (cases fr)
        case True
        then show ?thesis using 1(3,5) C1 by auto
      next
        case fr0: False
        then obtain n where "the_root x = Some n" using nr(2) False by (cases "the_root x") blast+
        then show ?thesis using fix_inner_ok [OF 1(3) pt _ p(3), of x w y n] 1(5) C1 fr0 by fastforce
      qed
      then obtain d2 t2 u w' v where 2: "(if \<not> fr then fix_inner far rot_far e (Some w) (the_root x) d1 else Inr (Some w, d1)) = Inr (Some w', d2)"
        "keeps d1 d2" "shape d2 t2" "inorder t2 = inorder t1" "sub p t2 = nd A p (nd u w' v)" by blast
      have "p \<in> set_tree t2" using inorder_set [OF 2(4)] pt by simp
      then obtain d3 t3 where 3: "fix_outer far rot_near e (Some w') d2 = Inr (d_root d3, d3)" "keeps d2 d3" "shape d3 t3"
        "inorder t3 = inorder t2" using fix_outer_ok [OF 2(3) _ 2(5) p(3)] by blast
      have "fix_side near far rot_near rot_far e d = Inr (Some (d_root d3), d3)"
        using start C1 False nr fr wl 2(1) 3(1) by (cases fr) (auto simp: nd_root)
      moreover have "keeps d d3" using keeps_trans 1(2) 2(2) 3(2) by blast
      ultimately show ?thesis using 3 2(4) 1(4) by auto
    qed
  qed
qed

end

section \<open>The loop after a removal\<close>

lemma fix_step_ok:
  assumes sh: "shape d t" and e: "e \<in> set_tree t" and ne: "d_root d \<noteq> Some e"
  shows "\<exists>p pl nxt d' t'. parent_at d e = Some p \<and> fld e_lesser (Some p) d = Inr pl
    \<and> (if Some e = pl then fix_side e_lesser e_greater rotateLeft rotateRight e d
       else fix_side e_greater e_lesser rotateRight rotateLeft e d) = Inr (nxt, d')
    \<and> keeps d d' \<and> shape d' t' \<and> inorder t' = inorder t
    \<and> (nxt = None \<or> nxt = Some (d_root d') \<or> nxt = Some (Some p) \<and> (t' = t \<or> color_at d' p = Some RED))"
  using sh e
proof (cases rule: parent_cases)
  case root
  then show ?thesis using ne by simp
next
  case (lesser p b)
  have r: "the_root (sub e t) = Some e" using sub_Node [OF e] by auto
  then show ?thesis
    using lesser lesser_side.fix_side_ok [OF sh lesser(3,4) r] sub_links(1) [OF sh lesser(3,4)] by simp
next
  case (greater p a)
  have r: "the_root (sub e t) = Some e" using sub_Node [OF e] by auto
  have "the_root a \<noteq> Some e"
    using distinct_sub [of t p] sh greater(4) sub_Node [OF e] the_root_in [of a e] by (auto simp: shape_def)
  then show ?thesis
    using greater greater_side.fix_side_ok [OF sh greater(3,4) r] sub_links(1) [OF sh greater(3,4)]
    by (intro exI [of _ p] exI [of _ "the_root a"]) simp
qed

lemma removeFixTree_loop_ok:
  "shape d t \<Longrightarrow> e \<in> set_tree t \<Longrightarrow> depth e t < fuel \<Longrightarrow>
   \<exists>e' d' t'. removeFixTree_loop fuel (Some e) d = Inr (Some e', d') \<and> e' \<in> set_tree t \<and> keeps d d'
     \<and> shape d' t' \<and> inorder t' = inorder t"
proof (induction fuel arbitrary: e d t)
  case (Suc fuel)
  note sh = Suc.prems(1) and et = Suc.prems(2)
  obtain c where c: "color_at d e = Some c" using shape_color [OF sh et] by auto
  note fc = fld_color [OF c]
  show ?case
  proof (cases "d_root d = Some e \<or> c \<noteq> BLACK")
    case True
    then show ?thesis using sh et fc
      by (intro exI [of _ e] exI [of _ d] exI [of _ t]) (cases "d_root d = Some e"; simp)
  next
    case False
    then obtain p pl nxt d' t' where 1: "parent_at d e = Some p" "fld e_lesser (Some p) d = Inr pl"
      "(if Some e = pl then fix_side e_lesser e_greater rotateLeft rotateRight e d
       else fix_side e_greater e_lesser rotateRight rotateLeft e d) = Inr (nxt, d')"
      "keeps d d'" "shape d' t'" "inorder t' = inorder t"
      "nxt = None \<or> nxt = Some (d_root d') \<or> nxt = Some (Some p) \<and> (t' = t \<or> color_at d' p = Some RED)"
      using fix_step_ok [OF sh et] by blast
    have pt: "p \<in> set_tree t" "depth e t = Suc (depth p t)" using depth_parent [OF sh et 1(1)] by auto
    have st: "set_tree t' = set_tree t" using inorder_set [OF 1(6)] .
    have "fld e_parent (Some e) d = Inr (Some p)" using fld_parent [of d e] c 1(1) by simp
    then have step: "removeFixTree_loop (Suc fuel) (Some e) d = (case nxt of None \<Rightarrow> Inr (Some e, d')
        | Some entry \<Rightarrow> removeFixTree_loop fuel entry d')"
      using False fc 1(2,3) by (cases "Some e = pl") auto
    obtain f where f: "fuel = Suc f" using Suc.prems(3) pt by (cases fuel) auto
    from 1(7) show ?thesis
    proof (elim disjE conjE)
      assume "nxt = None"
      then show ?thesis using step et 1 by auto
    next
      assume n: "nxt = Some (d_root d')"
      obtain r where r: "the_root t' = Some r" using st et by (cases t') auto
      then have "removeFixTree_loop fuel (d_root d') d' = Inr (Some r, d')" using f shape_root [OF 1(5)] by simp
      then show ?thesis using step n 1 st r by auto
    next
      assume "nxt = Some (Some p)" "t' = t"
      then show ?thesis using step Suc.IH [of d' t p] 1(4-6) pt Suc.prems(3) keeps_trans [of d d'] by fastforce
    next
      assume n: "nxt = Some (Some p)" and red: "color_at d' p = Some RED"
      have "removeFixTree_loop fuel (Some p) d' = Inr (Some p, d')" using f fld_color [OF red] by simp
      then show ?thesis using step n 1 pt by auto
    qed
  qed
qed simp

lemma removeFixTree_ok:
  assumes "shape d t" "e \<in> set_tree t" "size t \<le> d_fresh d"
  shows "\<exists>d' t'. removeFixTree (Some e) d = Inr d' \<and> keeps d d' \<and> shape d' t' \<and> inorder t' = inorder t"
proof -
  obtain e1 d1 t1 where 1: "removeFixTree_loop (fuel_of d) (Some e) d = Inr (Some e1, d1)" "e1 \<in> set_tree t"
      "keeps d d1" "shape d1 t1" "inorder t1 = inorder t"
    using removeFixTree_loop_ok [OF assms(1,2), of "fuel_of d"] depth_less [OF assms(2)] assms(3) by (auto simp: fuel_of_def)
  obtain d2 where "set_color (Some e1) BLACK d1 = Inr d2" "keeps d1 d2" "shape d2 t1"
    using set_color_ok [of d1 e1 BLACK] shape_color [OF 1(4), of e1] 1(2,4) inorder_set [OF 1(5)] by blast
  then show ?thesis using 1 keeps_trans [of d d1 d2] by (auto simp: removeFixTree_def)
qed

end
