(* ===== verification/Dict_Find.thy ===== *)
theory Dict_Find
  imports Dict_Fix_Remove
begin

text \<open>
  The order of the tree: its in-order sequence is strictly sorted by the signed hash values.
  On such a tree the search finds an entry exactly when one carries the hash value, and the
  insertion at a leaf keeps the order.
\<close>

section \<open>The order of the hash values\<close>

definition hash_of :: "('k, 'v) dict \<Rightarrow> nat \<Rightarrow> u32" where
  "hash_of d a = (case d_heap d a of None \<Rightarrow> 0 | Some e \<Rightarrow> e_hash e)"

definition hs :: "('k, 'v) dict \<Rightarrow> nat \<Rightarrow> int" where
  "hs d a = sint (hash_of d a)"

definition ordered :: "('k, 'v) dict \<Rightarrow> nat tree \<Rightarrow> bool" where
  "ordered d t \<longleftrightarrow> sorted_wrt (\<lambda>a b. hs d a < hs d b) (inorder t)"

lemma hash_of_keeps: "keeps d d' \<Longrightarrow> hash_of d' = hash_of d"
proof
  fix a assume "keeps d d'"
  then have "map_option payload (d_heap d' a) = map_option payload (d_heap d a)" by (simp add: keeps_def)
  then show "hash_of d' a = hash_of d a"
    by (cases "d_heap d a"; cases "d_heap d' a") (auto simp: hash_of_def payload_def)
qed

lemma ordered_keeps: "keeps d d' \<Longrightarrow> inorder t' = inorder t \<Longrightarrow> ordered d' t' = ordered d t"
  using hash_of_keeps [of d d'] by (simp add: ordered_def hs_def)

lemma ordered_node:
  "ordered d \<langle>l, n, g\<rangle> \<longleftrightarrow> ordered d l \<and> ordered d g \<and> (\<forall>a \<in> set_tree l. hs d a < hs d n) \<and> (\<forall>a \<in> set_tree g. hs d n < hs d a)"
  unfolding ordered_def by (fastforce simp: sorted_wrt_append)

lemma ordered_distinct: "ordered d t \<Longrightarrow> distinct (inorder t)"
proof -
  have "sorted_wrt (\<lambda>a b. f a < (f b :: int)) xs \<Longrightarrow> distinct xs" for f and xs :: "nat list"
    by (induction xs) auto
  then show "ordered d t \<Longrightarrow> distinct (inorder t)" unfolding ordered_def by blast
qed

section \<open>Search\<close>

lemma find_from_ok:
  "tree_at (d_heap d) p q t \<Longrightarrow> ordered d t \<Longrightarrow> size t < fuel \<Longrightarrow>
   \<exists>r. find_from fuel h p d = Inr r
     \<and> (case r of None \<Rightarrow> \<forall>a \<in> set_tree t. hash_of d a \<noteq> h | Some a \<Rightarrow> a \<in> set_tree t \<and> hash_of d a = h)"
proof (induction t arbitrary: p q fuel)
  case Leaf
  then show ?case by (cases fuel) auto
next
  case (Node l n g)
  then obtain f where f: "fuel = Suc f" "size l < f" "size g < f" by (cases fuel) auto
  obtain e where e: "p = Some n" "d_heap d n = Some e"
    "tree_at (d_heap d) (e_lesser e) (Some n) l" "tree_at (d_heap d) (e_greater e) (Some n) g"
    using Node.prems(1) by auto
  have hn: "hash_of d n = e_hash e" using e by (simp add: hash_of_def)
  have b: "ordered d l" "ordered d g" "\<And>a. a \<in> set_tree l \<Longrightarrow> hs d a < hs d n" "\<And>a. a \<in> set_tree g \<Longrightarrow> hs d n < hs d a"
    using Node.prems(2) by (auto simp: ordered_node)
  consider "h = e_hash e" | "e_hash e <s h" "h \<noteq> e_hash e" | "\<not> e_hash e <s h" "h \<noteq> e_hash e" by blast
  then show ?case
  proof cases
    case 1
    then show ?thesis using e f hn by (simp add: fld_def)
  next
    case 2
    then have "\<forall>a \<in> insert n (set_tree l). hash_of d a \<noteq> h"
      using b(3) hn by (force simp: hs_def word_sless_alt)
    moreover have "find_from fuel h p d = find_from f h (e_greater e) d" using 2 e f by (simp add: fld_def)
    ultimately show ?thesis using Node.IH(2) [OF e(4) b(2) f(3)] by (auto split: option.splits)
  next
    case 3
    then have "sint h < sint (e_hash e)" by (simp add: word_sless_alt) (metis linorder_neqE signed_word_eqI)
    then have "\<forall>a \<in> insert n (set_tree g). hash_of d a \<noteq> h"
      using b(4) hn by (force simp: hs_def)
    moreover have "find_from fuel h p d = find_from f h (e_lesser e) d" using 3 e f by (simp add: fld_def)
    ultimately show ?thesis using Node.IH(1) [OF e(3) b(1) f(2)] by (auto split: option.splits)
  qed
qed

section \<open>Insertion at a leaf\<close>

fun ins :: "('k, 'v) dict \<Rightarrow> nat \<Rightarrow> nat tree \<Rightarrow> nat tree" where
  "ins d e \<langle>\<rangle> = \<langle>\<langle>\<rangle>, e, \<langle>\<rangle>\<rangle>"
| "ins d e \<langle>l, n, g\<rangle> = (if hs d n \<le> hs d e then \<langle>l, n, ins d e g\<rangle> else \<langle>ins d e l, n, g\<rangle>)"

lemma set_ins: "set_tree (ins d e t) = insert e (set_tree t)"
  by (induction t) auto

lemma ordered_ins: "ordered d t \<Longrightarrow> \<forall>a \<in> set_tree t. hs d a \<noteq> hs d e \<Longrightarrow> ordered d (ins d e t)"
proof (induction t)
  case (Node l n g)
  then show ?case by (auto simp: ordered_node set_ins)
qed (simp add: ordered_def)

lemma tree_at_write:
  "tree_at H p q t \<Longrightarrow> m \<notin> set_tree t \<Longrightarrow> tree_at (H(m \<mapsto> x)) p q t"
  by (erule tree_at_frame) auto

lemma setLesser_new:
  assumes m: "d_heap d m = Some em" and e: "d_heap d e = Some ee" "m \<noteq> e"
  shows "setLesser (Some m) (Some e) d = Inr (d\<lparr>d_heap := (d_heap d)(m \<mapsto> em\<lparr>e_lesser := Some e\<rparr>, e \<mapsto> ee\<lparr>e_parent := Some m\<rparr>)\<rparr>)"
    "setGreater (Some m) (Some e) d = Inr (d\<lparr>d_heap := (d_heap d)(m \<mapsto> em\<lparr>e_greater := Some e\<rparr>, e \<mapsto> ee\<lparr>e_parent := Some m\<rparr>)\<rparr>)"
  using assms by (simp_all add: setLesser_def setGreater_def upd_def)

definition leaf_at :: "('k, 'v) dict \<Rightarrow> nat \<Rightarrow> bool" where
  "leaf_at d e \<longleftrightarrow> (\<exists>ee. d_heap d e = Some ee \<and> e_lesser ee = None \<and> e_greater ee = None)"

lemma insert_below_ok:
  "tree_at (d_heap d) p q t \<Longrightarrow> t \<noteq> \<langle>\<rangle> \<Longrightarrow> distinct (inorder t) \<Longrightarrow> leaf_at d e \<Longrightarrow> e \<notin> set_tree t \<Longrightarrow> size t \<le> fuel \<Longrightarrow>
   \<exists>d'. insert_below fuel e p d = Inr d' \<and> keeps d d' \<and> d_root d' = d_root d
     \<and> tree_at (d_heap d') p q (ins d e t) \<and> (\<forall>a. a \<notin> set_tree t \<union> {e} \<longrightarrow> d_heap d' a = d_heap d a)"
proof (induction t arbitrary: p q fuel)
  case (Node l n g)
  obtain f where f: "fuel = Suc f" "size l \<le> f" "size g \<le> f" using Node.prems(6) by (cases fuel) auto
  obtain en where en: "p = Some n" "d_heap d n = Some en" "e_parent en = q"
    "tree_at (d_heap d) (e_lesser en) (Some n) l" "tree_at (d_heap d) (e_greater en) (Some n) g"
    using Node.prems(1) by auto
  obtain ee where ee: "d_heap d e = Some ee" "e_lesser ee = None" "e_greater ee = None"
    using Node.prems(4) by (auto simp: leaf_at_def)
  have ds: "distinct (inorder l)" "distinct (inorder g)" "n \<notin> set_tree l" "n \<notin> set_tree g"
    "set_tree l \<inter> set_tree g = {}" "e \<notin> set_tree l" "e \<notin> set_tree g" "n \<noteq> e"
    using Node.prems(3,5) by auto
  have c: "(e_hash en \<le>s e_hash ee) \<longleftrightarrow> hs d n \<le> hs d e"
    using en ee by (simp add: hs_def hash_of_def word_sle_eq)
  show ?case
  proof (cases "hs d n \<le> hs d e")
    case True
    have step: "insert_below fuel e p d = (if e_greater en = None then setGreater (Some n) (Some e) d
        else insert_below f e (e_greater en) d)" using True c en ee f by (simp add: fld_def)
    show ?thesis
    proof (cases "g = \<langle>\<rangle>")
      case g0: True
      let ?d = "d\<lparr>d_heap := (d_heap d)(n \<mapsto> en\<lparr>e_greater := Some e\<rparr>, e \<mapsto> ee\<lparr>e_parent := Some n\<rparr>)\<rparr>"
      obtain d' where d': "d' = ?d" by simp
      then have H: "d_heap d' n = Some (en\<lparr>e_greater := Some e\<rparr>)" "d_heap d' e = Some (ee\<lparr>e_parent := Some n\<rparr>)"
        "\<forall>a. a \<notin> {n, e} \<longrightarrow> d_heap d' a = d_heap d a" "d_root d' = d_root d" "keeps d d'"
        using en ee ds by (auto simp: keeps_def payload_def)
      have "tree_at (d_heap d') (e_lesser en) (Some n) l"
        using H(3) ds by (intro tree_at_frame [OF en(4)]) auto
      moreover have "e_greater en = None" using en(5) g0 by simp
      ultimately show ?thesis using step setLesser_new(2) [OF en(2) ee(1) ds(8)] H en ee g0 True ds
        unfolding d' [symmetric] by (intro exI [of _ d']) auto
    next
      case False
      then obtain d' where d': "insert_below f e (e_greater en) d = Inr d'" "keeps d d'" "d_root d' = d_root d"
        "tree_at (d_heap d') (e_greater en) (Some n) (ins d e g)" "\<forall>a. a \<notin> set_tree g \<union> {e} \<longrightarrow> d_heap d' a = d_heap d a"
        using Node.IH(2) [OF en(5) _ ds(2) Node.prems(4) ds(7) f(3)] by blast
      have "tree_at (d_heap d') (e_lesser en) (Some n) l"
        using d'(5) ds by (intro tree_at_frame [OF en(4)]) auto
      moreover have "e_greater en \<noteq> None" using False tree_at_root [OF en(5)] by simp
      ultimately show ?thesis using step d' True en ds by (intro exI [of _ d']) auto
    qed
  next
    case False
    have step: "insert_below fuel e p d = (if e_lesser en = None then setLesser (Some n) (Some e) d
        else insert_below f e (e_lesser en) d)" using False c en ee f by (simp add: fld_def)
    show ?thesis
    proof (cases "l = \<langle>\<rangle>")
      case l0: True
      let ?d = "d\<lparr>d_heap := (d_heap d)(n \<mapsto> en\<lparr>e_lesser := Some e\<rparr>, e \<mapsto> ee\<lparr>e_parent := Some n\<rparr>)\<rparr>"
      obtain d' where d': "d' = ?d" by simp
      then have H: "d_heap d' n = Some (en\<lparr>e_lesser := Some e\<rparr>)" "d_heap d' e = Some (ee\<lparr>e_parent := Some n\<rparr>)"
        "\<forall>a. a \<notin> {n, e} \<longrightarrow> d_heap d' a = d_heap d a" "d_root d' = d_root d" "keeps d d'"
        using en ee ds by (auto simp: keeps_def payload_def)
      have "tree_at (d_heap d') (e_greater en) (Some n) g"
        using H(3) ds by (intro tree_at_frame [OF en(5)]) auto
      moreover have "e_lesser en = None" using en(4) l0 by simp
      ultimately show ?thesis using step setLesser_new(1) [OF en(2) ee(1) ds(8)] H en ee l0 False ds
        unfolding d' [symmetric] by (intro exI [of _ d']) auto
    next
      case lf: False
      then obtain d' where d': "insert_below f e (e_lesser en) d = Inr d'" "keeps d d'" "d_root d' = d_root d"
        "tree_at (d_heap d') (e_lesser en) (Some n) (ins d e l)" "\<forall>a. a \<notin> set_tree l \<union> {e} \<longrightarrow> d_heap d' a = d_heap d a"
        using Node.IH(1) [OF en(4) _ ds(1) Node.prems(4) ds(6) f(2)] by blast
      have "tree_at (d_heap d') (e_greater en) (Some n) g"
        using d'(5) ds by (intro tree_at_frame [OF en(5)]) auto
      moreover have "e_lesser en \<noteq> None" using lf tree_at_root [OF en(4)] by simp
      ultimately show ?thesis using step d' False en ds by (intro exI [of _ d']) auto
    qed
  qed
qed simp

lemma insert_entry_ok:
  assumes sh: "shape d t" and e: "d_heap d e = Some ee" "e_parent ee = None" "e_lesser ee = None" "e_greater ee = None"
    and n: "e \<notin> set_tree t" "size t < d_fresh d"
  shows "\<exists>d' t'. insert_entry e d = Inr d' \<and> keeps d d' \<and> shape d' t' \<and> inorder t' = inorder (ins d e t)"
proof (cases "t = \<langle>\<rangle>")
  case True
  let ?d = "d\<lparr>d_root := Some e\<rparr>"
  have "keeps d ?d" "shape ?d \<langle>\<langle>\<rangle>, e, \<langle>\<rangle>\<rangle>" using e by (auto simp: keeps_def shape_def)
  then show ?thesis using True shape_root [OF sh] by (auto simp: insert_entry_def)
next
  case False
  have ta: "tree_at (d_heap d) (d_root d) None t" and di: "distinct (inorder t)" using sh by (auto simp: shape_def)
  have "leaf_at d e" using e by (simp add: leaf_at_def)
  then obtain d1 where 1: "insert_below (fuel_of d) e (d_root d) d = Inr d1" "keeps d d1" "d_root d1 = d_root d"
      "tree_at (d_heap d1) (d_root d) None (ins d e t)"
    using insert_below_ok [OF ta False di _ n(1), of "fuel_of d"] n(2) by (auto simp: fuel_of_def)
  have "distinct (inorder (ins d e t))" using di n(1)
    by (induction t) (auto simp: set_ins)
  then have s1: "shape d1 (ins d e t)" using 1 by (simp add: shape_def)
  have "size (ins d e t) = Suc (size t)" by (induction t) auto
  then have "size (ins d e t) \<le> d_fresh d1" using n(2) 1(2) by (simp add: keeps_def)
  then obtain d2 t2 where "validateInsert e d1 = Inr d2" "keeps d1 d2" "shape d2 t2" "inorder t2 = inorder (ins d e t)"
    using validateInsert_ok [OF s1, of e] by (auto simp: set_ins)
  then show ?thesis using 1 False shape_root [OF sh] keeps_trans [of d d1 d2] by (auto simp: insert_entry_def)
qed

end
