(* ===== verification/Dict_Delete.thy ===== *)
theory Dict_Delete
  imports Dict_Find
begin

text \<open>
  Taking an entry out of the tree: the splice of an entry with at most one child, the
  replacement of an entry by its successor, and both together in \<open>remove_entry\<close>.
\<close>

section \<open>The splice\<close>

definition splice_skel :: "nat \<Rightarrow> ref \<Rightarrow> ref \<Rightarrow> nat \<Rightarrow> ('k, 'v) entry \<Rightarrow> ref \<times> ref \<times> ref" where
  "splice_skel y x p a e = (if x = Some a then (p, e_lesser e, e_greater e)
     else if p = Some a then relink y x e else skel e)"

lemma splice_skel_other: "x \<noteq> Some a \<Longrightarrow> p \<noteq> Some a \<Longrightarrow> splice_skel y x p a = skel"
  by (auto simp: splice_skel_def)

lemma splice_links:
  assumes y: "d_heap d y = Some ey" and x: "\<And>a. x = Some a \<Longrightarrow> \<exists>e. d_heap d a = Some e"
    and ds: "e_parent ey \<noteq> Some y" "x \<noteq> Some y" "e_parent ey \<noteq> None \<Longrightarrow> e_parent ey \<noteq> x"
    and p: "e_parent ey = None \<or> (\<exists>m em. e_parent ey = Some m \<and> d_heap d m = Some em
        \<and> (if e_lesser em = Some y then e_greater em \<noteq> Some y else e_greater em = Some y))"
  shows "\<exists>d'. splice_out (Some y) x d = Inr d' \<and> keeps d d' \<and> color_at d' = color_at d
    \<and> d_root d' = (if e_parent ey = None then x else d_root d) \<and> d_heap d' y = d_heap d y
    \<and> (\<forall>a. map_option skel (d_heap d' a) = map_option (splice_skel y x (e_parent ey) a) (d_heap d a))"
proof -
  obtain d1 where 1: "(if x \<noteq> None then upd x (\<lambda>e. e\<lparr>e_parent := e_parent ey\<rparr>) d else Inr d) = Inr d1"
    "keeps d d1" "color_at d1 = color_at d" "d_root d1 = d_root d" "\<And>a. x \<noteq> Some a \<Longrightarrow> d_heap d1 a = d_heap d a"
    "\<And>a. x = Some a \<Longrightarrow> map_option skel (d_heap d1 a) = map_option (splice_skel y x (e_parent ey) a) (d_heap d a)"
  proof (cases x)
    case (Some a)
    then obtain e where "d_heap d a = Some e" using x by auto
    then show thesis using Some
      by (intro that [of "d\<lparr>d_heap := (d_heap d)(a \<mapsto> e\<lparr>e_parent := e_parent ey\<rparr>)\<rparr>"])
        (auto simp: upd_def rot_unfold splice_skel_def)
  qed (use that [of d] in auto)
  from p show ?thesis
  proof
    assume p0: "e_parent ey = None"
    let ?d = "d1\<lparr>d_root := x\<rparr>"
    have "splice_out (Some y) x d = Inr ?d" using y p0 1(1) by (cases "x = None") (auto simp: splice_out_def fld_def)
    moreover have "keeps d ?d" "color_at ?d = color_at d" using 1(2,3) by (auto simp: keeps_def color_at_def fun_eq_iff)
    moreover have "map_option skel (d_heap d1 a) = map_option (splice_skel y x (e_parent ey) a) (d_heap d a)" for a
      using 1(5,6) [of a] p0 by (cases "x = Some a") (auto simp: splice_skel_other)
    ultimately show ?thesis using p0 1(5) [of y] ds by (intro exI [of _ ?d]) simp
  next
    assume "\<exists>m em. e_parent ey = Some m \<and> d_heap d m = Some em
      \<and> (if e_lesser em = Some y then e_greater em \<noteq> Some y else e_greater em = Some y)"
    then obtain m em where m: "e_parent ey = Some m" "d_heap d m = Some em"
      "if e_lesser em = Some y then e_greater em \<noteq> Some y else e_greater em = Some y" by blast
    have m1: "d_heap d1 m = Some em" using 1(5) ds m by auto
    define em' where "em' = (if e_lesser em = Some y then em\<lparr>e_lesser := x\<rparr> else em\<lparr>e_greater := x\<rparr>)"
    let ?d = "d1\<lparr>d_heap := (d_heap d1)(m \<mapsto> em')\<rparr>"
    have "splice_out (Some y) x d = Inr ?d"
      using y m m1 1(1) by (cases "x = None") (auto simp: splice_out_def fld_Some upd_Some em'_def)
    moreover have "payload em' = payload em" "e_color em' = e_color em" by (simp_all add: em'_def payload_def)
    then have "keeps d ?d" "color_at ?d = color_at d"
      using 1(2,3) m1 m(2) by (auto simp: keeps_def color_at_def fun_eq_iff)
    moreover have "skel em' = relink y x em" using m(3) by (auto simp: em'_def skel_def relink_def)
    then have "map_option skel (d_heap ?d a) = map_option (splice_skel y x (e_parent ey) a) (d_heap d a)" for a
      using 1(5,6) [of a] m ds by (cases "x = Some a"; cases "a = m") (auto simp: splice_skel_other, simp add: splice_skel_def)
    ultimately show ?thesis using m ds 1(4) 1(5) [of y] by (intro exI [of _ ?d]) auto
  qed
qed

lemma splice_out_ok:
  assumes sh: "shape d t" and y: "y \<in> set_tree t" "sub y t = \<langle>a, y, b\<rangle>" and ab: "a = \<langle>\<rangle> \<or> b = \<langle>\<rangle>"
    and s: "s = (if a \<noteq> \<langle>\<rangle> then a else b)"
  shows "\<exists>d'. splice_out (Some y) (the_root s) d = Inr d' \<and> keeps d d' \<and> color_at d' = color_at d
    \<and> shape d' (repl y s t) \<and> d_heap d' y = d_heap d y"
proof -
  have ta: "tree_at (d_heap d) (d_root d) None t" and di: "distinct (inorder t)" using sh by (auto simp: shape_def)
  obtain ey where ey: "d_heap d y = Some ey" using shape_entry [OF sh y(1)] by auto
  note ts = tree_at_sub [OF ta di y(1) ey, unfolded y(2)]
  have ds: "distinct (inorder \<langle>a, y, b\<rangle>)" using distinct_sub [OF di, of y] y by simp
  have tsub: "tree_at (d_heap d) (e_lesser ey) (Some y) a" "tree_at (d_heap d) (e_greater ey) (Some y) b"
    using ts ey by auto
  then have tsx: "tree_at (d_heap d) (the_root s) (Some y) s"
    using s tree_at_root [OF tsub(1)] tree_at_root [OF tsub(2)] by (cases "a = \<langle>\<rangle>") auto
  have ss: "set_tree s \<subseteq> set_tree \<langle>a, y, b\<rangle> - {y}" "distinct (inorder s)" using s ds by auto
  have pn: "e_parent ey = Some m \<Longrightarrow> m \<notin> set_tree \<langle>a, y, b\<rangle> \<and> m \<in> set_tree t" for m
    using ts by (auto split: if_splits)
  have "\<exists>d'. splice_out (Some y) (the_root s) d = Inr d' \<and> keeps d d' \<and> color_at d' = color_at d
    \<and> d_root d' = (if e_parent ey = None then the_root s else d_root d) \<and> d_heap d' y = d_heap d y
    \<and> (\<forall>a. map_option skel (d_heap d' a) = map_option (splice_skel y (the_root s) (e_parent ey) a) (d_heap d a))"
  proof (rule splice_links [OF ey])
    show "\<exists>e. d_heap d n = Some e" if "the_root s = Some n" for n
      using tree_at_dom [OF tsx] that by auto
    show "e_parent ey \<noteq> Some y" using pn by auto
    show "the_root s \<noteq> Some y" using ss by auto
    show "e_parent ey \<noteq> None \<Longrightarrow> e_parent ey \<noteq> the_root s" using pn ss by fastforce
    show "e_parent ey = None \<or> (\<exists>m em. e_parent ey = Some m \<and> d_heap d m = Some em
        \<and> (if e_lesser em = Some y then e_greater em \<noteq> Some y else e_greater em = Some y))"
    proof (cases "d_root d = Some y")
      case False
      show ?thesis using ts [unfolded if_not_P [OF False]] by blast
    qed (use ts in simp)
  qed
  then obtain d' where d': "splice_out (Some y) (the_root s) d = Inr d'" "keeps d d'" "color_at d' = color_at d"
    "d_root d' = (if e_parent ey = None then the_root s else d_root d)" "d_heap d' y = d_heap d y"
    "\<And>a. map_option skel (d_heap d' a) = map_option (splice_skel y (the_root s) (e_parent ey) a) (d_heap d a)" by blast
  have rt: "d_root d = Some y \<longleftrightarrow> e_parent ey = None"
  proof (cases "d_root d = Some y")
    case False
    show ?thesis using ts [unfolded if_not_P [OF False]] False by auto
  qed (use ts in simp)
  have "tree_at (d_heap d') (the_root s) (e_parent ey) s"
  proof (rule tree_at_reparent [OF tsx ss(2)])
    fix n assume "n \<in> set_tree s"
    then have "e_parent ey \<noteq> Some n" using pn ss by auto
    then show "map_option skel (d_heap d' n) = map_option (\<lambda>e. (if the_root s = Some n then e_parent ey
        else e_parent e, e_lesser e, e_greater e)) (d_heap d n)"
      unfolding d'(6) by (cases "d_heap d n") (auto simp: splice_skel_def skel_def)
  qed
  then have "tree_at (d_heap d') (if d_root d = Some y then the_root s else d_root d) None (repl y s t)"
  proof (rule tree_replace [OF ta di y(1) ey])
    fix n assume n: "n \<in> set_tree t - set_tree (sub y t)"
    then have ns: "the_root s \<noteq> Some n" using ss y(2) by auto
    show "map_option skel (d_heap d' n) = map_option (relink y (the_root s)) (d_heap d n)"
    proof (cases "d_heap d n")
      case (Some e)
      have "e_parent ey = Some n" if "e_lesser e = Some y \<or> e_greater e = Some y"
        using tree_at_child [OF ta _ Some that] n ey by auto
      then show ?thesis unfolding d'(6) using Some ns by (auto simp: splice_skel_def skel_def relink_def)
    qed (simp add: d'(6))
  qed
  moreover have "distinct (inorder (repl y s t))"
    using inorder_repl [OF di y(1), of s] y(2) di s ab by auto
  ultimately show ?thesis using d'(1-5) rt by (auto simp: shape_def)
qed

section \<open>An entry takes the place of another\<close>

definition trans_skel :: "nat \<Rightarrow> nat \<Rightarrow> ref \<Rightarrow> ref \<Rightarrow> ref \<Rightarrow> nat \<Rightarrow> ('k, 'v) entry \<Rightarrow> ref \<times> ref \<times> ref" where
  "trans_skel n y p l g a e = (
     if a = y then (p, l, g)
     else if l = Some a \<or> g = Some a then (Some y, e_lesser e, e_greater e)
     else if p = Some a then relink n (Some y) e else skel e)"

lemma trans_skel_other:
  "a \<noteq> y \<Longrightarrow> l \<noteq> Some a \<Longrightarrow> g \<noteq> Some a \<Longrightarrow> p \<noteq> Some a \<Longrightarrow> trans_skel n y p l g a = skel"
  by (auto simp: trans_skel_def)

definition adopt :: "nat \<Rightarrow> ref \<Rightarrow> ('k, 'v) dict \<Rightarrow> ('k, 'v) dict" where
  "adopt y q d = d\<lparr>d_heap := (\<lambda>a. if q = Some a then map_option (\<lambda>e. e\<lparr>e_parent := Some y\<rparr>) (d_heap d a) else d_heap d a)\<rparr>"

lemma adopt_upd:
  "(\<And>a. q = Some a \<Longrightarrow> \<exists>e. d_heap d a = Some e) \<Longrightarrow>
   (if q \<noteq> None then upd q (\<lambda>e. e\<lparr>e_parent := Some y\<rparr>) d else Inr d) = Inr (adopt y q d)"
  by (cases q; cases d) (force simp: upd_def adopt_def fun_eq_iff)+

lemma transplant_links:
  assumes n: "d_heap d n = Some en" and y: "d_heap d y = Some ey" "n \<noteq> y"
    and l: "\<And>a. e_lesser en = Some a \<Longrightarrow> \<exists>e. d_heap d a = Some e \<and> a \<noteq> n \<and> a \<noteq> y \<and> e_parent en \<noteq> Some a"
    and g: "\<And>a. e_greater en = Some a \<Longrightarrow> \<exists>e. d_heap d a = Some e \<and> a \<noteq> n \<and> a \<noteq> y \<and> e_parent en \<noteq> Some a \<and> e_lesser en \<noteq> Some a"
    and p: "if d_root d = Some n then e_parent en = None else
        (\<exists>m em. e_parent en = Some m \<and> d_heap d m = Some em \<and> m \<noteq> y \<and> m \<noteq> n
        \<and> (if e_lesser em = Some n then e_greater em \<noteq> Some n else e_greater em = Some n))"
  shows "\<exists>d'. transplant n (Some y) d = Inr d' \<and> keeps d d'
    \<and> d_root d' = (if d_root d = Some n then Some y else d_root d)
    \<and> (\<forall>a. a \<noteq> n \<longrightarrow> map_option skel (d_heap d' a)
         = map_option (trans_skel n y (e_parent en) (e_lesser en) (e_greater en) a) (d_heap d a))"
proof -
  let ?l = "e_lesser en" and ?g = "e_greater en" and ?p = "e_parent en"
  define d1 where "d1 = adopt y ?l (d\<lparr>d_heap := (d_heap d)(y \<mapsto> ey\<lparr>e_lesser := ?l\<rparr>)\<rparr>)"
  define d2 where "d2 = adopt y ?g (d1\<lparr>d_heap := (d_heap d1)(y \<mapsto> ey\<lparr>e_lesser := ?l, e_greater := ?g\<rparr>)\<rparr>)"
  define d3 where "d3 = d2\<lparr>d_heap := (d_heap d2)(y \<mapsto> ey\<lparr>e_lesser := ?l, e_greater := ?g, e_parent := ?p, e_color := e_color en\<rparr>)\<rparr>"
  have h1: "d_heap d1 n = Some en" "d_heap d1 y = Some (ey\<lparr>e_lesser := ?l\<rparr>)"
    using n y l by (auto simp: d1_def adopt_def)
  have h2: "d_heap d2 n = Some en" "d_heap d2 y = Some (ey\<lparr>e_lesser := ?l, e_greater := ?g\<rparr>)"
    using n y l g by (auto simp: d2_def d1_def adopt_def)
  have h3: "d_heap d3 n = Some en" "d_heap d3 y = Some (ey\<lparr>e_lesser := ?l, e_greater := ?g, e_parent := ?p, e_color := e_color en\<rparr>)"
    using h2 y by (auto simp: d3_def)
  have o3: "d_heap d3 a = (if ?l = Some a \<or> ?g = Some a then map_option (\<lambda>e. e\<lparr>e_parent := Some y\<rparr>) (d_heap d a) else d_heap d a)"
    if "a \<noteq> y" for a
    using that l g by (auto simp: d3_def d2_def d1_def adopt_def)
  have k3: "keeps d d3" "d_root d3 = d_root d"
  proof -
    have "map_option payload (d_heap d3 a) = map_option payload (d_heap d a)" for a
      using o3 [of a] h3(2) y by (cases "a = y"; cases "d_heap d a") (auto simp: payload_def)
    then show "keeps d d3" "d_root d3 = d_root d" by (simp_all add: keeps_def d3_def d2_def d1_def adopt_def)
  qed
  have s3: "map_option skel (d_heap d3 a) = map_option (trans_skel n y None ?l ?g a) (d_heap d a)"
    if "?p \<noteq> Some a" "a \<noteq> y" for a
    using o3 [OF that(2)] that by (cases "d_heap d a") (auto simp: trans_skel_def skel_def)
  have run: "transplant n (Some y) d = bindR (if ?p \<noteq> None then replaceChild ?p (Some n) (Some y) d3 else Inr d3)
      (\<lambda>d. Inr (if Some n = d_root d then d\<lparr>d_root := Some y\<rparr> else d))"
  proof -
    let ?d0 = "d\<lparr>d_heap := (d_heap d)(y \<mapsto> ey\<lparr>e_lesser := ?l\<rparr>)\<rparr>"
    let ?e0 = "d1\<lparr>d_heap := (d_heap d1)(y \<mapsto> ey\<lparr>e_lesser := ?l, e_greater := ?g\<rparr>)\<rparr>"
    have "(if ?l \<noteq> None then upd ?l (\<lambda>e. e\<lparr>e_parent := Some y\<rparr>) ?d0 else Inr ?d0) = Inr d1"
      unfolding d1_def using l by (intro adopt_upd) auto
    moreover have "(if ?g \<noteq> None then upd ?g (\<lambda>e. e\<lparr>e_parent := Some y\<rparr>) ?e0 else Inr ?e0) = Inr d2"
      unfolding d2_def using g by (intro adopt_upd) (auto simp: d1_def adopt_def)
    ultimately show ?thesis
      using n y h1 h2 by (simp add: transplant_def fld_Some upd_Some set_color_def d3_def)
  qed
  show ?thesis
  proof (cases "d_root d = Some n")
    case True
    then have p0: "?p = None" using p by simp
    let ?d = "d3\<lparr>d_root := Some y\<rparr>"
    have "transplant n (Some y) d = Inr ?d" using run p0 True k3 by simp
    moreover have "keeps d ?d" using k3 by (simp add: keeps_def)
    moreover have "map_option skel (d_heap ?d a) = map_option (trans_skel n y ?p ?l ?g a) (d_heap d a)" for a
      using s3 [of a] h3 y p0 by (cases "a = y") (auto simp: trans_skel_def skel_def)
    ultimately show ?thesis using True by (intro exI [of _ ?d]) simp
  next
    case False
    then obtain m em where m: "?p = Some m" "d_heap d m = Some em" "m \<noteq> y" "m \<noteq> n"
        "if e_lesser em = Some n then e_greater em \<noteq> Some n else e_greater em = Some n" using p by auto
    have m3: "d_heap d3 m = Some em" using o3 [OF m(3)] m l g by auto
    define em' where "em' = (if e_lesser em = Some n then em\<lparr>e_lesser := Some y\<rparr> else em\<lparr>e_greater := Some y\<rparr>)"
    let ?d = "d3\<lparr>d_heap := (d_heap d3)(m \<mapsto> em')\<rparr>"
    have y3: "(d_heap d3)(m \<mapsto> z, y \<mapsto> (ey\<lparr>e_lesser := ?l, e_greater := ?g, e_color := e_color en, e_parent := Some m\<rparr>))
       = (d_heap d3)(m \<mapsto> z)" for z
      using h3(2) m by (cases ey) auto
    have "replaceChild ?p (Some n) (Some y) d3 = Inr ?d"
      using m m3 h3(2) y3 by (auto simp: replaceChild_def fld_def setLesser_def setGreater_def upd_def em'_def)
    then have "transplant n (Some y) d = Inr ?d" using run m(1) False k3 by simp
    moreover have "payload em' = payload em" by (simp add: em'_def payload_def)
    then have "keeps d ?d" using k3 m3 m(2) by (auto simp: keeps_def)
    moreover have "skel em' = relink n (Some y) em" using m(5) by (auto simp: em'_def skel_def relink_def)
    then have "map_option skel (d_heap ?d a) = map_option (trans_skel n y ?p ?l ?g a) (d_heap d a)" for a
      using s3 [of a] h3 y m l [of m] g [of m]
      by (cases "a = y"; cases "a = m"; cases "d_heap d a") (auto simp: trans_skel_def skel_def)
    ultimately show ?thesis using False k3 by (intro exI [of _ ?d]) simp
  qed
qed

lemma transplant_ok:
  assumes sh: "shape d t" and n: "n \<in> set_tree t" "sub n t = \<langle>l, n, g\<rangle>" and y: "d_heap d y = Some ey" "y \<notin> set_tree t"
  shows "\<exists>d'. transplant n (Some y) d = Inr d' \<and> keeps d d' \<and> shape d' (repl n \<langle>l, y, g\<rangle> t)"
proof -
  have ta: "tree_at (d_heap d) (d_root d) None t" and di: "distinct (inorder t)" using sh by (auto simp: shape_def)
  obtain en where en: "d_heap d n = Some en" using shape_entry [OF sh n(1)] by auto
  note ts = tree_at_sub [OF ta di n(1) en, unfolded n(2)]
  have ds: "distinct (inorder \<langle>l, n, g\<rangle>)" using distinct_sub [OF di, of n] n by simp
  have tsub: "tree_at (d_heap d) (e_lesser en) (Some n) l" "tree_at (d_heap d) (e_greater en) (Some n) g"
    using ts en by auto
  have ss: "set_tree \<langle>l, n, g\<rangle> \<subseteq> set_tree t" using sub_set [of n t] n by simp
  have lg: "e_lesser en = Some a \<Longrightarrow> a \<in> set_tree l" "e_greater en = Some a \<Longrightarrow> a \<in> set_tree g" for a
    using tree_at_root [OF tsub(1)] tree_at_root [OF tsub(2)] by auto
  have pn: "e_parent en = Some m \<Longrightarrow> m \<notin> set_tree \<langle>l, n, g\<rangle> \<and> m \<in> set_tree t" for m
    using ts by (auto split: if_splits)
  have "\<exists>d'. transplant n (Some y) d = Inr d' \<and> keeps d d'
    \<and> d_root d' = (if d_root d = Some n then Some y else d_root d)
    \<and> (\<forall>a. a \<noteq> n \<longrightarrow> map_option skel (d_heap d' a)
         = map_option (trans_skel n y (e_parent en) (e_lesser en) (e_greater en) a) (d_heap d a))"
  proof (rule transplant_links [OF en y(1)])
    show "n \<noteq> y" using n y by auto
    fix a
    show "\<exists>e. d_heap d a = Some e \<and> a \<noteq> n \<and> a \<noteq> y \<and> e_parent en \<noteq> Some a" if "e_lesser en = Some a"
      using tree_at_dom [OF tsub(1)] lg(1) [OF that] ds ss y(2) pn [of a] by auto
    show "\<exists>e. d_heap d a = Some e \<and> a \<noteq> n \<and> a \<noteq> y \<and> e_parent en \<noteq> Some a \<and> e_lesser en \<noteq> Some a" if "e_greater en = Some a"
      using tree_at_dom [OF tsub(2)] lg(1) [of a] lg(2) [OF that] ds ss y(2) pn [of a] by auto
  next
    show "if d_root d = Some n then e_parent en = None else
        (\<exists>m em. e_parent en = Some m \<and> d_heap d m = Some em \<and> m \<noteq> y \<and> m \<noteq> n
        \<and> (if e_lesser em = Some n then e_greater em \<noteq> Some n else e_greater em = Some n))"
    proof (cases "d_root d = Some n")
      case False
      obtain m em where "e_parent en = Some m" "d_heap d m = Some em"
        "if e_lesser em = Some n then e_greater em \<noteq> Some n else e_greater em = Some n"
        using ts [unfolded if_not_P [OF False]] by blast
      then show ?thesis using pn [of m] y(2) False by auto
    qed (use ts in simp)
  qed
  then obtain d' where d': "transplant n (Some y) d = Inr d'" "keeps d d'"
    "d_root d' = (if d_root d = Some n then Some y else d_root d)"
    "\<And>a. a \<noteq> n \<Longrightarrow> map_option skel (d_heap d' a)
         = map_option (trans_skel n y (e_parent en) (e_lesser en) (e_greater en) a) (d_heap d a)" by blast
  have sd: "map_option skel (d_heap d' a) = map_option (\<lambda>e. (if p = Some a then Some y else e_parent e, e_lesser e, e_greater e)) (d_heap d a)"
    if "a \<in> set_tree l \<and> p = e_lesser en \<or> a \<in> set_tree g \<and> p = e_greater en" for a p
  proof -
    have "a \<noteq> n" "a \<noteq> y" "e_parent en \<noteq> Some a" using that ds ss y(2) pn [of a] by auto
    moreover have "e_lesser en = Some a \<or> e_greater en = Some a \<longleftrightarrow> p = Some a" using that lg [of a] ds by auto
    ultimately show ?thesis using d'(4) [of a] by (cases "d_heap d a") (auto simp: trans_skel_def skel_def)
  qed
  have "tree_at (d_heap d') (e_lesser en) (Some y) l" "tree_at (d_heap d') (e_greater en) (Some y) g"
    by (rule tree_at_reparent [OF tsub(1)], use ds in simp, rule sd, simp)
      (rule tree_at_reparent [OF tsub(2)], use ds in simp, rule sd, simp)
  moreover have "map_option skel (d_heap d' y) = Some (e_parent en, e_lesser en, e_greater en)"
    using d'(4) [of y] y n by (auto simp: trans_skel_def)
  ultimately have "tree_at (d_heap d') (Some y) (e_parent en) \<langle>l, y, g\<rangle>" by (auto simp: skel_def)
  then have "tree_at (d_heap d') (if d_root d = Some n then Some y else d_root d) None (repl n \<langle>l, y, g\<rangle> t)"
  proof (rule tree_replace [OF ta di n(1) en])
    fix a assume a: "a \<in> set_tree t - set_tree (sub n t)"
    then have ne: "a \<noteq> n" "a \<noteq> y" "e_lesser en \<noteq> Some a" "e_greater en \<noteq> Some a" using n lg [of a] y(2) by auto
    show "map_option skel (d_heap d' a) = map_option (relink n (Some y)) (d_heap d a)"
    proof (cases "d_heap d a")
      case (Some e)
      have "e_parent en = Some a" if "e_lesser e = Some n \<or> e_greater e = Some n"
        using tree_at_child [OF ta _ Some that] a en by auto
      then show ?thesis using d'(4) [OF ne(1)] Some ne
        by (auto simp: trans_skel_def skel_def relink_def split: if_splits)
    qed (use d'(4) [OF ne(1)] in simp)
  qed
  moreover have "distinct (inorder (repl n \<langle>l, y, g\<rangle> t))"
    using inorder_repl [OF di n(1), of "\<langle>l, y, g\<rangle>"] n(2) di y(2) by (auto simp flip: set_inorder)
  ultimately show ?thesis using d'(1-3) by (auto simp: shape_def)
qed

section \<open>Removal from the tree\<close>

fun leftmost :: "nat tree \<Rightarrow> nat" where
  "leftmost \<langle>\<rangle> = 0"
| "leftmost \<langle>l, n, g\<rangle> = (if l = \<langle>\<rangle> then n else leftmost l)"

lemma leftmost_hd: "t \<noteq> \<langle>\<rangle> \<Longrightarrow> inorder t = leftmost t # tl (inorder t)"
proof (induction t rule: leftmost.induct)
  case (2 l n g)
  show ?case
  proof (cases "l = \<langle>\<rangle>")
    case False
    then obtain xs where "inorder l = leftmost l # xs" using 2(1) by blast
    then show ?thesis using False by simp
  qed simp
qed simp

lemma leftmost_sub: "t \<noteq> \<langle>\<rangle> \<Longrightarrow> distinct (inorder t) \<Longrightarrow> \<exists>b. sub (leftmost t) t = \<langle>\<langle>\<rangle>, leftmost t, b\<rangle>"
proof (induction t rule: leftmost.induct)
  case (2 l n g)
  have "leftmost l \<in> set_tree l" if "l \<noteq> \<langle>\<rangle>" using leftmost_hd [OF that] by (metis list.set_intros(1) set_inorder)
  then show ?case using 2 by auto
qed simp

lemma walk_leftmost:
  "tree_at (d_heap d) p q t \<Longrightarrow> t \<noteq> \<langle>\<rangle> \<Longrightarrow> size t \<le> fuel \<Longrightarrow> walk fuel e_lesser p d = Inr (Some (leftmost t))"
proof (induction t arbitrary: p q fuel rule: leftmost.induct)
  case (2 l n g)
  then obtain f where f: "fuel = Suc f" "size l \<le> f" by (cases fuel) auto
  obtain e where e: "p = Some n" "d_heap d n = Some e" "tree_at (d_heap d) (e_lesser e) (Some n) l"
    using 2(2) by auto
  then show ?case using 2(1) [OF _ e(3), of f] f tree_at_root [OF e(3)] by (auto simp: fld_Some)
qed simp

lemma splice_inorder:
  assumes "distinct (inorder t)" "y \<in> set_tree t" "sub y t = \<langle>a, y, b\<rangle>" "a = \<langle>\<rangle> \<or> b = \<langle>\<rangle>"
  shows "inorder (repl y (if a \<noteq> \<langle>\<rangle> then a else b) t) = filter (\<lambda>n. n \<noteq> y) (inorder t)"
proof -
  let ?s = "if a \<noteq> \<langle>\<rangle> then a else b"
  obtain xs ys where 1: "inorder t = xs @ inorder (sub y t) @ ys" "inorder (repl y ?s t) = xs @ inorder ?s @ ys"
    using inorder_repl [OF assms(1,2), of ?s] by auto
  have "y \<notin> set (xs @ inorder a @ inorder b @ ys)" using assms(1,3) 1(1) by auto
  then have "filter (\<lambda>n. n \<noteq> y) (inorder t) = xs @ inorder a @ inorder b @ ys"
    unfolding 1(1) assms(3) by (auto intro!: arg_cong2 [where f = append] filter_True)
  then show ?thesis using 1(2) assms(4) by auto
qed

text \<open>The order without \<open>n\<close>, when its successor \<open>y\<close> takes its place.\<close>

lemma replaced_order:
  assumes "distinct (inorder t)" "n \<in> set_tree t" "sub n t = \<langle>l, n, g\<rangle>" "g \<noteq> \<langle>\<rangle>"
  shows "map (\<lambda>a. if a = n then leftmost g else a) (filter (\<lambda>a. a \<noteq> leftmost g) (inorder t))
    = filter (\<lambda>a. a \<noteq> n) (inorder t)"
proof -
  obtain xs ys where 1: "inorder t = xs @ inorder (sub n t) @ ys"
    using inorder_repl [OF assms(1,2), of "\<langle>\<rangle>"] by auto
  obtain zs where 2: "inorder g = leftmost g # zs" using leftmost_hd [OF assms(4)] by blast
  have t: "inorder t = (xs @ inorder l) @ n # leftmost g # (zs @ ys)" using 1 2 assms(3) by simp
  have skip: "map (\<lambda>a. if a = n then y else a) (filter (\<lambda>a. a \<noteq> y) us) = us \<and> filter (\<lambda>a. a \<noteq> n) us = us"
    if "n \<notin> set us" "y \<notin> set us" for y us
    using that by (induction us) auto
  have "n \<notin> set (xs @ inorder l)" "leftmost g \<notin> set (xs @ inorder l)" "n \<notin> set (zs @ ys)" "leftmost g \<notin> set (zs @ ys)"
    "n \<noteq> leftmost g"
    using assms(1) unfolding t by auto
  then show ?thesis unfolding t using skip [of "xs @ inorder l" "leftmost g"] skip [of "zs @ ys" "leftmost g"]
    by (simp only: filter_append map_append filter.simps list.map append_assoc) auto
qed

lemma transplant_order:
  assumes "distinct (inorder t)" "n \<in> set_tree t" "sub n t = \<langle>l, n, g\<rangle>"
  shows "inorder (repl n \<langle>l, y, g\<rangle> t) = map (\<lambda>a. if a = n then y else a) (inorder t)"
proof -
  obtain xs ys where 1: "inorder t = xs @ inorder (sub n t) @ ys" "inorder (repl n \<langle>l, y, g\<rangle> t) = xs @ inorder \<langle>l, y, g\<rangle> @ ys"
    using inorder_repl [OF assms(1,2), of "\<langle>l, y, g\<rangle>"] by auto
  have skip: "map (\<lambda>a. if a = n then y else a) us = us" if "n \<notin> set us" for us
    using that by (induction us) auto
  have "n \<notin> set xs" "n \<notin> set (inorder l)" "n \<notin> set (inorder g)" "n \<notin> set ys"
    using assms(1,3) 1(1) by auto
  then show ?thesis unfolding 1 assms(3) by (simp add: skip del: set_inorder)
qed

lemma fix_tail:
  assumes sh: "shape d t" and x: "b \<Longrightarrow> \<exists>a \<in> set_tree t. x = Some a" and sz: "size t \<le> d_fresh d"
  shows "\<exists>d' t'. (if b then removeFixTree x d else Inr d) = Inr d' \<and> keeps d d' \<and> shape d' t' \<and> inorder t' = inorder t"
proof (cases b)
  case True
  then show ?thesis using removeFixTree_ok [OF sh _ sz] x by auto
qed (use sh in auto)

lemma remove_entry_ok:
  assumes sh: "shape d t" and n: "n \<in> set_tree t" and sz: "size t \<le> d_fresh d"
  shows "\<exists>d' t'. remove_entry n d = Inr d' \<and> keeps d d' \<and> shape d' t' \<and> inorder t' = filter (\<lambda>a. a \<noteq> n) (inorder t)"
proof -
  have di: "distinct (inorder t)" using sh by (simp add: shape_def)
  obtain l g where s: "sub n t = \<langle>l, n, g\<rangle>" using sub_Node [OF n] by auto
  note nl = sub_links [OF sh n s]
  define y where "y = (if l = \<langle>\<rangle> \<or> g = \<langle>\<rangle> then n else leftmost g)"
  have sg: "set_tree \<langle>l, n, g\<rangle> \<subseteq> set_tree t" using sub_set [of n t] s by simp
  have dsn: "distinct (inorder \<langle>l, n, g\<rangle>)" using distinct_sub [OF di, of n] s by simp
  have "\<exists>a b. y \<in> set_tree t \<and> sub y t = \<langle>a, y, b\<rangle> \<and> (a = \<langle>\<rangle> \<or> b = \<langle>\<rangle>)
    \<and> (y \<noteq> n \<longrightarrow> n \<notin> set_tree a \<union> set_tree b)
    \<and> (if the_root l = None \<or> the_root g = None then Inr (Some n) else successor (Some n) d) = Inr (Some y)"
  proof (cases "l = \<langle>\<rangle> \<or> g = \<langle>\<rangle>")
    case True
    then show ?thesis using n s by (auto simp: y_def)
  next
    case False
    then have yg: "y = leftmost g" "g \<noteq> \<langle>\<rangle>" by (auto simp: y_def)
    obtain b where b: "sub y g = \<langle>\<langle>\<rangle>, y, b\<rangle>" using leftmost_sub [of g] yg dsn by auto
    have ys: "y \<in> set_tree g" using leftmost_hd [OF yg(2)] yg(1) by (metis list.set_intros(1) set_inorder)
    then have "sub y t = sub y \<langle>l, n, g\<rangle>" using sub_sub [OF di, of y n] s by simp
    also have "\<dots> = sub y g" using ys dsn by auto
    finally have st: "sub y t = \<langle>\<langle>\<rangle>, y, b\<rangle>" using b by simp
    have "n \<notin> set_tree b" using sub_set [of y g] b dsn by auto
    obtain e where e: "d_heap d n = Some e" using shape_entry [OF sh n] by auto
    have "tree_at (d_heap d) (e_greater e) (Some n) g"
      using tree_at_sub [of "d_heap d" "d_root d" None t n e] sh n s e by (auto simp: shape_def)
    moreover have "size g \<le> fuel_of d"
    proof -
      have "card (set (inorder g)) \<le> card (set (inorder t))" using sg by (intro card_mono) auto
      then show ?thesis using dsn di sz distinct_card [of "inorder g"] distinct_card [of "inorder t"] by (simp add: fuel_of_def)
    qed
    ultimately have "walk (fuel_of d) e_lesser (the_root g) d = Inr (Some y)"
      using walk_leftmost [of d _ _ g] yg tree_at_root by fastforce
    then have "successor (Some n) d = Inr (Some y)" using nl False by (simp add: successor_def)
    then show ?thesis using False st \<open>n \<notin> set_tree b\<close> ys sg by auto
  qed
  then obtain a b where y: "y \<in> set_tree t" "sub y t = \<langle>a, y, b\<rangle>" "a = \<langle>\<rangle> \<or> b = \<langle>\<rangle>"
    "y \<noteq> n \<Longrightarrow> n \<notin> set_tree a \<union> set_tree b"
    "(if the_root l = None \<or> the_root g = None then Inr (Some n) else successor (Some n) d) = Inr (Some y)" by blast
  note yl = sub_links [OF sh y(1,2)]
  define u where "u = (if a \<noteq> \<langle>\<rangle> then a else b)"
  obtain d1 where 1: "splice_out (Some y) (the_root u) d = Inr d1" "keeps d d1" "color_at d1 = color_at d"
    "shape d1 (repl y u t)" "d_heap d1 y = d_heap d y"
    using splice_out_ok [OF sh y(1-3) u_def] by blast
  have o1: "inorder (repl y u t) = filter (\<lambda>a. a \<noteq> y) (inorder t)"
    using splice_inorder [OF di y(1-3)] by (simp add: u_def)
  then have "set (inorder (repl y u t)) = {a \<in> set (inorder t). a \<noteq> y}" by simp
  then have set1: "set_tree (repl y u t) = set_tree t - {y}" by auto
  have "\<exists>d2 t2. (if Some y \<noteq> Some n then transplant n (Some y) d1 else Inr d1) = Inr d2 \<and> keeps d1 d2 \<and> shape d2 t2
    \<and> inorder t2 = filter (\<lambda>a. a \<noteq> n) (inorder t)"
  proof (cases "y = n")
    case True
    then show ?thesis using 1(4) o1 by auto
  next
    case False
    then have yg: "y = leftmost g" "g \<noteq> \<langle>\<rangle>" by (auto simp: y_def split: if_splits)
    have n1: "n \<in> set_tree (repl y u t)" using n False set1 by auto
    obtain l1 g1 where s1: "sub n (repl y u t) = \<langle>l1, n, g1\<rangle>" using sub_Node [OF n1] by auto
    obtain ey where ey: "d_heap d1 y = Some ey" using 1(5) shape_entry [OF sh y(1)] by auto
    obtain d2 where "transplant n (Some y) d1 = Inr d2" "keeps d1 d2" "shape d2 (repl n \<langle>l1, y, g1\<rangle> (repl y u t))"
      using transplant_ok [OF 1(4) n1 s1 ey] set1 by auto
    moreover have "distinct (inorder (repl y u t))" using 1(4) by (simp add: shape_def)
    then have "inorder (repl n \<langle>l1, y, g1\<rangle> (repl y u t)) = filter (\<lambda>a. a \<noteq> n) (inorder t)"
      using transplant_order [OF _ n1 s1, of y] replaced_order [OF di n s yg(2), folded yg(1)] o1 by simp
    ultimately show ?thesis using False by auto
  qed
  then obtain d2 t2 where 2: "(if Some y \<noteq> Some n then transplant n (Some y) d1 else Inr d1) = Inr d2" "keeps d1 d2"
    "shape d2 t2" "inorder t2 = filter (\<lambda>a. a \<noteq> n) (inorder t)" by blast
  have "set (inorder t2) = {a \<in> set (inorder t). a \<noteq> n}" using 2(4) by simp
  then have set2: "set_tree t2 = set_tree t - {n}" by auto
  have "length (inorder t2) \<le> length (inorder t)" unfolding 2(4) by (rule length_filter_le)
  then have sz2: "size t2 \<le> d_fresh d2" using sz 1(2) 2(2) by (simp add: keeps_def)
  have "set_tree (sub y t) \<subseteq> set_tree t" "distinct (inorder (sub y t))" using sub_set distinct_sub [OF di] by auto
  then have usub: "set_tree u \<subseteq> set_tree t - {n}"
    unfolding y(2) u_def using y(4) by (cases "y = n") auto
  have ut: "the_root u = Some a \<Longrightarrow> a \<in> set_tree t2" for a
    using usub the_root_in [of u a] set2 by auto
  obtain yc where yc: "color_at d1 y = Some yc" using 1(3) shape_color [OF sh y(1)] by auto
  obtain d3 t3 where 3: "(if yc = BLACK \<and> the_root u \<noteq> None then removeFixTree (the_root u) d2 else Inr d2) = Inr d3"
    "keeps d2 d3" "shape d3 t3" "inorder t3 = inorder t2"
    using fix_tail [OF 2(3) _ sz2, of "yc = BLACK \<and> the_root u \<noteq> None" "the_root u"] ut by blast
  have x: "(if the_root a \<noteq> None then Inr (the_root a) else fld e_greater (Some y) d) = Inr (the_root u)"
    using yl(2) by (auto simp: u_def)
  have "remove_entry n d = Inr d3"
    unfolding remove_entry_def
    by (simp only: nl(1,2) bindR_simps y(5) yl(1) x 1(1) fld_color [OF yc] Let_def 2(1) 3(1))
  then show ?thesis using 2 3 keeps_trans [OF 1(2) keeps_trans [OF 2(2) 3(2)]] by auto
qed

end
