(* ===== verification/Dict_Inv.thy ===== *)
theory Dict_Inv
  imports Dict_Delete
begin

text \<open>
  The invariant of a dictionary: the tree of Dict_Tree ordered as in Dict_Find, threaded by the
  doubly linked list of the entries in the order of insertion. \<open>dict_rel\<close> abstracts a
  well-formed dictionary to the list of its pairs, and every operation is shown to act on that
  list.
\<close>

section \<open>The linked list\<close>

fun dls :: "('k, 'v) heap \<Rightarrow> ref \<Rightarrow> ref \<Rightarrow> nat list \<Rightarrow> ref \<Rightarrow> bool" where
  "dls H p q [] r = (p = r)"
| "dls H p q (n # xs) r = (p = Some n \<and> (\<exists>e. H n = Some e \<and> e_prev e = q \<and> dls H (e_next e) (Some n) xs r))"

definition lastref :: "ref \<Rightarrow> nat list \<Rightarrow> ref" where
  "lastref q xs = (if xs = [] then q else Some (last xs))"

lemma lastref_simps [simp]:
  "lastref q [] = q" "lastref q (xs @ [a]) = Some a" "lastref q (a # xs) = lastref (Some a) xs"
  "lastref q (xs @ a # ys) = lastref (Some a) ys"
  by (auto simp: lastref_def)

lemma lastref_None [simp]: "lastref None xs = None \<longleftrightarrow> xs = []"
  by (simp add: lastref_def)

lemma dls_append: "dls H p q (xs @ ys) r \<longleftrightarrow> (\<exists>m. dls H p q xs m \<and> dls H m (lastref q xs) ys r)"
  by (induction xs arbitrary: p q) auto

definition thread :: "('k, 'v) entry \<Rightarrow> ref \<times> ref" where
  "thread e = (e_prev e, e_next e)"

lemma dls_frame:
  "dls H p q xs r \<Longrightarrow> (\<And>a. a \<in> set xs \<Longrightarrow> map_option thread (H' a) = map_option thread (H a)) \<Longrightarrow> dls H' p q xs r"
proof (induction xs arbitrary: p q)
  case (Cons n xs)
  then obtain e where e: "p = Some n" "H n = Some e" "e_prev e = q" "dls H (e_next e) (Some n) xs r" by auto
  have "map_option thread (H' n) = map_option thread (H n)" using Cons.prems(2) by simp
  then obtain e' where "H' n = Some e'" "thread e' = thread e" using e by auto
  moreover have "dls H' (e_next e) (Some n) xs r" using Cons.IH [OF e(4)] Cons.prems(2) by simp
  ultimately show ?case using e by (auto simp: thread_def)
qed simp

lemma dls_keeps: "keeps d d' \<Longrightarrow> dls (d_heap d) p q xs r \<Longrightarrow> dls (d_heap d') p q xs r"
proof (erule dls_frame)
  fix a assume "keeps d d'"
  then have "map_option payload (d_heap d' a) = map_option payload (d_heap d a)" by (simp add: keeps_def)
  then show "map_option thread (d_heap d' a) = map_option thread (d_heap d a)"
    by (cases "d_heap d a"; cases "d_heap d' a") (auto simp: payload_def thread_def)
qed

lemma dls_heap: "dls H p q xs r \<Longrightarrow> a \<in> set xs \<Longrightarrow> \<exists>e. H a = Some e"
  by (induction xs arbitrary: p q) auto

text \<open>Changing what follows a segment, and what precedes it.\<close>

lemma dls_snoc:
  "dls H p q (xs @ [m]) r \<Longrightarrow> distinct (xs @ [m]) \<Longrightarrow> H m = Some e \<Longrightarrow>
   dls (H(m \<mapsto> e\<lparr>e_next := r'\<rparr>)) p q (xs @ [m]) r'"
proof -
  assume "dls H p q (xs @ [m]) r" "distinct (xs @ [m])" "H m = Some e"
  then have "dls H p q xs (Some m)" "e_prev e = lastref q xs" "m \<notin> set xs" by (auto simp: dls_append)
  moreover from this have "dls (H(m \<mapsto> e\<lparr>e_next := r'\<rparr>)) p q xs (Some m)" by (elim dls_frame) auto
  ultimately show ?thesis by (auto simp: dls_append)
qed

lemma dls_first:
  "dls H p q (m # xs) r \<Longrightarrow> distinct (m # xs) \<Longrightarrow> H m = Some e \<Longrightarrow>
   dls (H(m \<mapsto> e\<lparr>e_prev := q'\<rparr>)) p q' (m # xs) r"
proof -
  assume "dls H p q (m # xs) r" "distinct (m # xs)" "H m = Some e"
  then have "dls H (e_next e) (Some m) xs r" "p = Some m" "m \<notin> set xs" by auto
  moreover from this have "dls (H(m \<mapsto> e\<lparr>e_prev := q'\<rparr>)) (e_next e) (Some m) xs r" by (elim dls_frame) auto
  ultimately show ?thesis by simp
qed

section \<open>The invariant and the abstraction\<close>

definition key_of :: "('k, 'v) dict \<Rightarrow> nat \<Rightarrow> 'k" where
  "key_of d a = e_key (the (d_heap d a))"

definition val_of :: "('k, 'v) dict \<Rightarrow> nat \<Rightarrow> 'v" where
  "val_of d a = e_value (the (d_heap d a))"

definition dict_wf :: "('k \<Rightarrow> u32) \<Rightarrow> ('k, 'v) dict \<Rightarrow> nat list \<Rightarrow> nat tree \<Rightarrow> bool" where
  "dict_wf hash d L t \<longleftrightarrow> shape d t \<and> ordered d t
     \<and> dls (d_heap d) (d_first d) None L None \<and> d_last d = lastref None L
     \<and> set L = set_tree t \<and> distinct L \<and> d_size d = of_nat (length L)
     \<and> (\<forall>a. d_heap d a \<noteq> None \<longleftrightarrow> a \<in> set L) \<and> (\<forall>a \<in> set L. a < d_fresh d)
     \<and> (\<forall>a \<in> set L. hash_of d a = hash (key_of d a))"

definition dict_rel :: "('k \<Rightarrow> u32) \<Rightarrow> ('k, 'v) dict \<Rightarrow> ('k \<times> 'v) list \<Rightarrow> bool" where
  "dict_rel hash d kvs \<longleftrightarrow> (\<exists>L t. dict_wf hash d L t \<and> kvs = map (\<lambda>a. (key_of d a, val_of d a)) L)"

lemma wf_size:
  assumes "dict_wf hash d L t"
  shows "length L \<le> d_fresh d" "size t \<le> d_fresh d" "size t = length L"
proof -
  have "card (set L) \<le> card {..< d_fresh d}" using assms by (intro card_mono) (auto simp: dict_wf_def)
  then show 1: "length L \<le> d_fresh d" using assms distinct_card [of L] by (simp add: dict_wf_def)
  show "size t = length L"
    using assms distinct_card [of L] distinct_card [of "inorder t"] by (auto simp: dict_wf_def shape_def)
  then show "size t \<le> d_fresh d" using 1 by simp
qed

lemma key_of_keeps: "keeps d d' \<Longrightarrow> d_heap d a \<noteq> None \<Longrightarrow> key_of d' a = key_of d a \<and> val_of d' a = val_of d a \<and> d_heap d' a \<noteq> None"
proof -
  assume "keeps d d'" "d_heap d a \<noteq> None"
  then have "map_option payload (d_heap d' a) = map_option payload (d_heap d a)" by (simp add: keeps_def)
  then show ?thesis using \<open>d_heap d a \<noteq> None\<close>
    by (cases "d_heap d a"; cases "d_heap d' a") (auto simp: payload_def key_of_def val_of_def)
qed

lemma heap_keeps: "keeps d d' \<Longrightarrow> d_heap d' a \<noteq> None \<longleftrightarrow> d_heap d a \<noteq> None"
proof -
  assume "keeps d d'"
  then have "map_option payload (d_heap d' a) = map_option payload (d_heap d a)" by (simp add: keeps_def)
  then show ?thesis by (cases "d_heap d a"; cases "d_heap d' a") auto
qed

lemma dict_new_rel: "dict_rel hash dict_new []"
  unfolding dict_rel_def dict_wf_def
  by (intro exI [of _ "[]"] exI [of _ "\<langle>\<rangle>"]) (simp add: dict_new_def shape_def ordered_def)

text \<open>Search on a well-formed dictionary.\<close>

lemma find_entry_wf:
  assumes w: "dict_wf hash d L t"
  shows "\<exists>r. find_entry hash key d = Inr r
    \<and> (case r of None \<Rightarrow> \<forall>a \<in> set L. hash (key_of d a) \<noteq> hash key
       | Some a \<Rightarrow> a \<in> set L \<and> hash (key_of d a) = hash key)"
  using find_from_ok [of d "d_root d" None t "fuel_of d" "hash key"] wf_size(2) [OF w] w
  unfolding find_entry_def by (auto simp: dict_wf_def shape_def fuel_of_def split: option.splits)

lemma wf_hash_inj:
  assumes w: "dict_wf hash d L t" and "a \<in> set L" "b \<in> set L" "hash (key_of d a) = hash (key_of d b)"
  shows "a = b"
proof -
  have "sorted_wrt (\<lambda>a b. f a < (f b :: int)) xs \<Longrightarrow> a \<in> set xs \<Longrightarrow> b \<in> set xs \<Longrightarrow> f a = f b \<Longrightarrow> a = b" for f and xs :: "nat list"
    by (induction xs) auto
  then show ?thesis using assms by (auto simp: dict_wf_def ordered_def hs_def)
qed

section \<open>What list operations keep\<close>

definition body :: "('k, 'v) entry \<Rightarrow> (ref \<times> ref \<times> ref) \<times> color \<times> 'k \<times> 'v \<times> u32" where
  "body e = (skel e, e_color e, e_key e, e_value e, e_hash e)"

definition lkeeps :: "('k, 'v) dict \<Rightarrow> ('k, 'v) dict \<Rightarrow> bool" where
  "lkeeps d d' \<longleftrightarrow> (\<forall>a. map_option body (d_heap d' a) = map_option body (d_heap d a))
     \<and> d_fresh d' = d_fresh d \<and> d_root d' = d_root d"

lemma lkeeps_at:
  assumes "lkeeps d d'"
  shows "(d_heap d' a = None \<longleftrightarrow> d_heap d a = None) \<and> map_option skel (d_heap d' a) = map_option skel (d_heap d a)
    \<and> hash_of d' a = hash_of d a \<and> (d_heap d a \<noteq> None \<longrightarrow> key_of d' a = key_of d a \<and> val_of d' a = val_of d a)"
proof -
  have "map_option body (d_heap d' a) = map_option body (d_heap d a)" using assms by (simp add: lkeeps_def)
  then show ?thesis
    by (cases "d_heap d a"; cases "d_heap d' a") (auto simp: body_def hash_of_def key_of_def val_of_def)
qed

lemma lkeeps_shape: "lkeeps d d' \<Longrightarrow> shape d t \<Longrightarrow> shape d' t"
  using tree_at_frame [of "d_heap d" "d_root d" None t "d_heap d'"] lkeeps_at [of d d']
  by (auto simp: shape_def lkeeps_def)

lemma lkeeps_ordered: "lkeeps d d' \<Longrightarrow> ordered d' t = ordered d t"
  using lkeeps_at [of d d'] by (simp add: ordered_def hs_def)

lemma link_entry_ok:
  assumes l: "dls (d_heap d) (d_first d) None L None" "d_last d = lastref None L" "distinct L"
    and a: "a \<notin> set L" "d_heap d a = Some ea" "e_prev ea = None" "e_next ea = None"
  shows "\<exists>d'. link_entry a d = Inr d' \<and> lkeeps d d' \<and> dls (d_heap d') (d_first d') None (L @ [a]) None
    \<and> d_last d' = Some a \<and> d_size d' = d_size d + 1"
proof (cases L rule: rev_cases)
  case Nil
  let ?d = "d\<lparr>d_first := Some a, d_last := Some a, d_size := d_size d + 1\<rparr>"
  have "link_entry a d = Inr ?d" using l Nil by (simp add: link_entry_def)
  then show ?thesis using a Nil by (intro exI [of _ ?d]) (simp add: lkeeps_def)
next
  case (snoc xs m)
  obtain em where em: "d_heap d m = Some em" using dls_heap [OF l(1), of m] snoc by auto
  have am: "a \<noteq> m" "a \<notin> set xs" "m \<notin> set xs" using a(1) l(3) snoc by auto
  let ?H = "(d_heap d)(m \<mapsto> em\<lparr>e_next := Some a\<rparr>, a \<mapsto> ea\<lparr>e_prev := Some m\<rparr>)"
  let ?d = "d\<lparr>d_heap := ?H, d_last := Some a, d_size := d_size d + 1\<rparr>"
  have "link_entry a d = Inr ?d" using l(2) snoc em a am by (simp add: link_entry_def upd_def)
  moreover have "dls ?H (d_first d) None (L @ [a]) None"
  proof -
    have "dls ((d_heap d)(m \<mapsto> em\<lparr>e_next := Some a\<rparr>)) (d_first d) None (xs @ [m]) (Some a)"
      using dls_snoc [of "d_heap d" "d_first d" None xs m None em] l em snoc by simp
    then have "dls ?H (d_first d) None L (Some a)" unfolding snoc using am by (elim dls_frame) auto
    then show ?thesis using a(4) snoc by (subst dls_append) auto
  qed
  moreover have "lkeeps d ?d" using em a am by (auto simp: lkeeps_def body_def skel_def)
  ultimately show ?thesis by (intro exI [of _ ?d]) simp
qed

lemma dls_Some_first: "dls H p q xs r \<Longrightarrow> p = (case xs of [] \<Rightarrow> r | x # _ \<Rightarrow> Some x)"
  by (cases xs) auto

lemma unlink_entry_ok:
  assumes l: "dls (d_heap d) (d_first d) None (xs @ n # ys) None" "d_last d = lastref None (xs @ n # ys)"
    "distinct (xs @ n # ys)"
  shows "\<exists>d'. unlink_entry n d = Inr d' \<and> lkeeps d d' \<and> dls (d_heap d') (d_first d') None (xs @ ys) None
    \<and> d_last d' = lastref None (xs @ ys) \<and> d_size d' = d_size d - 1"
proof -
  obtain e where e: "d_heap d n = Some e" "e_prev e = lastref None xs" "dls (d_heap d) (e_next e) (Some n) ys None"
    and x: "dls (d_heap d) (d_first d) None xs (Some n)"
    using l(1) by (auto simp: dls_append)
  have nx: "n \<notin> set xs" "n \<notin> set ys" using l(3) by auto
  have dj: "a \<in> set ys \<Longrightarrow> a \<notin> set xs" for a using l(3) by auto
  obtain d1 where 1: "(if e_prev e \<noteq> None then upd (e_prev e) (\<lambda>f. f\<lparr>e_next := e_next e\<rparr>) d else Inr d) = Inr d1"
    "lkeeps d d1" "dls (d_heap d1) (if xs = [] then e_next e else d_first d) None xs (e_next e)"
    "\<And>a. a \<notin> set xs \<Longrightarrow> d_heap d1 a = d_heap d a" "d_first d1 = d_first d" "d_last d1 = d_last d" "d_size d1 = d_size d"
  proof (cases xs rule: rev_cases)
    case Nil
    then show thesis using that [of d] e by (simp add: lkeeps_def)
  next
    case (snoc zs m)
    then obtain em where em: "d_heap d m = Some em" using dls_heap [OF x, of m] by auto
    let ?d = "d\<lparr>d_heap := (d_heap d)(m \<mapsto> em\<lparr>e_next := e_next e\<rparr>)\<rparr>"
    have "dls (d_heap ?d) (d_first d) None xs (e_next e)"
      using dls_snoc [of "d_heap d" "d_first d" None zs m _ em "e_next e"] x l(3) em snoc by simp
    then show thesis using that [of ?d] e em snoc by (auto simp: upd_def lkeeps_def body_def skel_def)
  qed
  have y1: "dls (d_heap d1) (e_next e) (Some n) ys None" using 1(4) dj by (intro dls_frame [OF e(3)]) simp
  obtain d2 where 2: "(if e_next e \<noteq> None then upd (e_next e) (\<lambda>f. f\<lparr>e_prev := e_prev e\<rparr>) d1 else Inr d1) = Inr d2"
    "lkeeps d1 d2" "dls (d_heap d2) (e_next e) (lastref None xs) ys None" "\<And>a. a \<notin> set ys \<Longrightarrow> d_heap d2 a = d_heap d1 a"
    "d_first d2 = d_first d" "d_last d2 = d_last d" "d_size d2 = d_size d"
  proof (cases ys)
    case Nil
    then show thesis using that [of d1] y1 1 by (simp add: lkeeps_def)
  next
    case (Cons m zs)
    then obtain em where em: "d_heap d1 m = Some em" using dls_heap [OF y1, of m] by auto
    let ?d = "d1\<lparr>d_heap := (d_heap d1)(m \<mapsto> em\<lparr>e_prev := e_prev e\<rparr>)\<rparr>"
    have "dls (d_heap ?d) (e_next e) (lastref None xs) ys None"
      using dls_first [of "d_heap d1" "e_next e" "Some n" m zs None em "e_prev e"] y1 l(3) em Cons e(2) by simp
    then show thesis using that [of ?d] dls_Some_first [OF e(3)] em Cons 1(5-7)
      by (auto simp: upd_def lkeeps_def body_def skel_def)
  qed
  have x2: "dls (d_heap d2) (if xs = [] then e_next e else d_first d) None xs (e_next e)"
    using 2(4) dj by (intro dls_frame [OF 1(3)]) metis
  have ff: "d_first d = Some n \<longleftrightarrow> xs = []" using dls_Some_first [OF x] nx by (cases xs) auto
  have fl: "d_last d = Some n \<longleftrightarrow> ys = []" using l(2) nx by (auto simp: lastref_def)
  let ?d = "(if xs = [] then d2\<lparr>d_first := e_next e\<rparr> else d2)"
  let ?e = "(if ys = [] then ?d\<lparr>d_last := e_prev e\<rparr> else ?d)\<lparr>d_size := d_size d - 1\<rparr>"
  have "unlink_entry n d = Inr ?e"
    unfolding unlink_entry_def
    by (simp only: fld_Some [OF e(1)] bindR_simps 1(1) 2(1)) (use 2(5-7) ff fl in \<open>auto simp: Let_def\<close>)
  moreover have "lkeeps d ?e" using 1(2) 2(2) by (auto simp: lkeeps_def)
  moreover have "dls (d_heap ?e) (d_first ?e) None (xs @ ys) None"
    using x2 2(3,5) by (auto simp: dls_append)
  moreover have "d_last ?e = lastref None (xs @ ys)" using 2(6) l(2) e(2) by (cases ys rule: rev_cases) (auto simp: lastref_def)
  ultimately show ?thesis by (intro exI [of _ ?e]) auto
qed

end
