(* ===== verification/Dict_Ops.thy ===== *)
theory Dict_Ops
  imports Dict_Inv
begin

text \<open>
  The public operations on a well-formed dictionary: each returns without a memory fault and
  within its fuel, keeps the invariant, and acts on the list of pairs as its \<open>kv_\<close> counterpart.
\<close>

section \<open>The operations on the list of pairs\<close>

definition kv_find :: "('k \<Rightarrow> u32) \<Rightarrow> 'k \<Rightarrow> ('k \<times> 'v) list \<Rightarrow> ('k \<times> 'v) option" where
  "kv_find hash key kvs = find (\<lambda>p. hash (fst p) = hash key) kvs"

definition kv_add :: "('k \<Rightarrow> u32) \<Rightarrow> 'k \<Rightarrow> 'v \<Rightarrow> ('k \<times> 'v) list \<Rightarrow> ('k \<times> 'v) list res" where
  "kv_add hash key v kvs = (if kv_find hash key kvs \<noteq> None then Inl (Thrown ''InvalidArgumentException'')
     else Inr (kvs @ [(key, v)]))"

definition kv_remove :: "('k \<Rightarrow> u32) \<Rightarrow> 'k \<Rightarrow> ('k \<times> 'v) list \<Rightarrow> ('k \<times> 'v) list res" where
  "kv_remove hash key kvs = (if kv_find hash key kvs = None then Inl null_error
     else Inr (filter (\<lambda>p. hash (fst p) \<noteq> hash key) kvs))"

definition kv_get :: "('k \<Rightarrow> u32) \<Rightarrow> 'k \<Rightarrow> ('k \<times> 'v) list \<Rightarrow> 'v res" where
  "kv_get hash key kvs = (case kv_find hash key kvs of None \<Rightarrow> Inl null_error | Some (k, v) \<Rightarrow> Inr v)"

definition kv_set :: "('k \<Rightarrow> u32) \<Rightarrow> 'k \<Rightarrow> 'v \<Rightarrow> ('k \<times> 'v) list \<Rightarrow> ('k \<times> 'v) list" where
  "kv_set hash key v kvs = (if kv_find hash key kvs = None then kvs @ [(key, v)]
     else map (\<lambda>p. if hash (fst p) = hash key then (fst p, v) else p) kvs)"

text \<open>Results that agree with the list operation.\<close>

fun simulates :: "('k \<Rightarrow> u32) \<Rightarrow> ('k, 'v) dict res \<Rightarrow> ('k \<times> 'v) list res \<Rightarrow> bool" where
  "simulates hash (Inr d) (Inr kvs) = dict_rel hash d kvs"
| "simulates hash (Inl e) (Inl e') = (e = e')"
| "simulates hash _ _ = False"

section \<open>Search\<close>

lemma kv_find_map:
  "kv_find hash key (map (\<lambda>a. (f a, g a)) L) = map_option (\<lambda>a. (f a, g a)) (find (\<lambda>a. hash (f a) = hash key) L)"
  by (induction L) (auto simp: kv_find_def)

lemma find_entry_rel:
  assumes w: "dict_wf hash d L t"
  shows "find_entry hash key d = Inr (find (\<lambda>a. hash (key_of d a) = hash key) L)"
proof -
  obtain r where r: "find_entry hash key d = Inr r"
    "case r of None \<Rightarrow> \<forall>a \<in> set L. hash (key_of d a) \<noteq> hash key | Some a \<Rightarrow> a \<in> set L \<and> hash (key_of d a) = hash key"
    using find_entry_wf [OF w] by blast
  have "find (\<lambda>a. hash (key_of d a) = hash key) L = r"
  proof (cases r)
    case None
    then show ?thesis using r(2) by (auto simp: find_None_iff)
  next
    case (Some a)
    then obtain b where b: "find (\<lambda>a. hash (key_of d a) = hash key) L = Some b"
      using r(2) by (cases "find (\<lambda>a. hash (key_of d a) = hash key) L") (auto simp: find_None_iff)
    then have "b \<in> set L" "hash (key_of d b) = hash key" by (auto simp: find_Some_iff in_set_conv_nth)
    then show ?thesis using wf_hash_inj [OF w, of a b] r(2) Some b by auto
  qed
  then show ?thesis using r(1) by simp
qed

lemma get_rel:
  assumes "dict_rel hash d kvs"
  shows "dict_get hash key d = kv_get hash key kvs"
proof -
  obtain L t where w: "dict_wf hash d L t" and kvs: "kvs = map (\<lambda>a. (key_of d a, val_of d a)) L"
    using assms by (auto simp: dict_rel_def)
  show ?thesis
  proof (cases "find (\<lambda>a. hash (key_of d a) = hash key) L")
    case None
    then show ?thesis using find_entry_rel [OF w, of key] kvs by (simp add: dict_get_def kv_get_def kv_find_map)
  next
    case (Some a)
    then have "a \<in> set L" by (auto simp: find_Some_iff)
    then have "d_heap d a \<noteq> None" using w by (simp add: dict_wf_def)
    then obtain e where "d_heap d a = Some e" by blast
    then show ?thesis using Some find_entry_rel [OF w, of key] kvs
      by (simp add: dict_get_def kv_get_def kv_find_map fld_def val_of_def)
  qed
qed

section \<open>Insertion\<close>

lemma inserted_wf:
  assumes w: "dict_wf hash d L t" and new: "\<forall>a \<in> set L. hash (key_of d a) \<noteq> hash key"
  shows "\<exists>d' t'. bindR (link_entry (d_fresh d) (snd (new_entry key v (hash key) d))) (insert_entry (d_fresh d)) = Inr d'
    \<and> dict_wf hash d' (L @ [d_fresh d]) t'
    \<and> (\<forall>a \<in> set L. key_of d' a = key_of d a \<and> val_of d' a = val_of d a \<and> a \<noteq> d_fresh d)
    \<and> key_of d' (d_fresh d) = key \<and> val_of d' (d_fresh d) = v"
proof -
  let ?a = "d_fresh d" and ?n = "entry_new key v (hash key)"
  obtain d1 where d1: "d1 = snd (new_entry key v (hash key) d)" by simp
  have wf: "shape d t" "ordered d t" "dls (d_heap d) (d_first d) None L None" "d_last d = lastref None L"
    "set L = set_tree t" "distinct L" "d_size d = of_nat (length L)" "\<forall>a. d_heap d a \<noteq> None \<longleftrightarrow> a \<in> set L"
    "\<forall>a \<in> set L. a < d_fresh d" "\<forall>a \<in> set L. hash_of d a = hash (key_of d a)"
    using w by (auto simp: dict_wf_def)
  have aL: "?a \<notin> set L" using wf(9) by blast
  have h1: "d_heap d1 ?a = Some ?n" "\<And>b. b \<noteq> ?a \<Longrightarrow> d_heap d1 b = d_heap d b" "d_first d1 = d_first d" "d_last d1 = d_last d"
    "d_size d1 = d_size d" "d_root d1 = d_root d" "d_fresh d1 = Suc ?a"
    by (simp_all add: d1 new_entry_def)
  have o1: "b \<noteq> ?a" if "b \<in> set L" for b using that aL by blast
  have l1: "dls (d_heap d1) (d_first d1) None L None" "d_last d1 = lastref None L"
    using h1 o1 wf(4) by (auto intro: dls_frame [OF wf(3)])
  obtain d2 where 2: "link_entry ?a d1 = Inr d2" "lkeeps d1 d2" "dls (d_heap d2) (d_first d2) None (L @ [?a]) None"
    "d_last d2 = Some ?a" "d_size d2 = d_size d1 + 1"
    using link_entry_ok [OF l1 wf(6) aL h1(1)] by (auto simp: entry_new_def)
  have s1: "shape d1 t"
    using wf(1,5) h1 o1 tree_at_frame [of "d_heap d" "d_root d" None t "d_heap d1"] by (auto simp: shape_def)
  have hs1: "hash_of d1 b = (if b = ?a then hash key else hash_of d b)" for b
    using h1(1) h1(2) [of b] by (simp add: hash_of_def entry_new_def)
  have "\<And>b. b \<in> set (inorder t) \<Longrightarrow> hs d1 b = hs d b" using hs1 o1 wf(5) by (simp add: hs_def)
  then have or1: "ordered d1 t"
    using wf(2) unfolding ordered_def by (auto elim!: sorted_wrt_mono_rel [rotated])
  have s2: "shape d2 t" "ordered d2 t" using lkeeps_shape [OF 2(2) s1] lkeeps_ordered [OF 2(2)] or1 by auto
  obtain e2 where e2: "d_heap d2 ?a = Some e2" "skel e2 = skel ?n"
    using lkeeps_at [OF 2(2), of ?a] h1(1) by auto
  obtain d3 t3 where 3: "insert_entry ?a d2 = Inr d3" "keeps d2 d3" "shape d3 t3" "inorder t3 = inorder (ins d2 ?a t)"
    using insert_entry_ok [OF s2(1) e2(1)] e2(2) aL wf(5) wf_size(2) [OF w] 2(2) h1(7)
    by (auto simp: skel_def entry_new_def lkeeps_def)
  have hash2: "hash_of d2 b = (if b = ?a then hash key else hash_of d b)" for b
    using lkeeps_at [OF 2(2), of b] hs1 by simp
  have "hs d2 b \<noteq> hs d2 ?a" if "b \<in> set_tree t" for b
    using that wf(5,10) new o1 [of b] by (auto simp: hs_def hash2 dest: signed_word_eqI)
  then have "ordered d2 (ins d2 ?a t)" using ordered_ins [OF s2(2)] by blast
  then have or3: "ordered d3 t3" using ordered_keeps [OF 3(2) 3(4)] by simp
  have kv: "key_of d3 b = (if b = ?a then key else key_of d b) \<and> val_of d3 b = (if b = ?a then v else val_of d b)
      \<and> d_heap d3 b \<noteq> None" if "b \<in> set (L @ [?a])" for b
  proof -
    have "d_heap d1 b \<noteq> None" "key_of d1 b = (if b = ?a then key else key_of d b)" "val_of d1 b = (if b = ?a then v else val_of d b)"
      by (cases "b = ?a"; use h1(1) h1(2) [of b] wf(8) that in \<open>simp add: key_of_def val_of_def entry_new_def\<close>)+
    then show ?thesis using lkeeps_at [OF 2(2), of b] key_of_keeps [OF 3(2), of b] by auto
  qed
  have "dict_wf hash d3 (L @ [?a]) t3"
    unfolding dict_wf_def
  proof (intro conjI)
    show "set (L @ [?a]) = set_tree t3" using inorder_set [OF 3(4)] wf(5) by (auto simp: set_ins)
    show "d_size d3 = of_nat (length (L @ [?a]))" using 3(2) 2(5) h1(5) wf(7) by (simp add: keeps_def)
    show "\<forall>b. (d_heap d3 b \<noteq> None) = (b \<in> set (L @ [?a]))"
    proof
      fix b
      have "d_heap d3 b \<noteq> None \<longleftrightarrow> d_heap d1 b \<noteq> None" using heap_keeps [OF 3(2), of b] lkeeps_at [OF 2(2), of b] by simp
      then show "(d_heap d3 b \<noteq> None) = (b \<in> set (L @ [?a]))"
        using h1(1) h1(2) [of b] wf(8) by (cases "b = ?a") auto
    qed
    show "\<forall>b \<in> set (L @ [?a]). b < d_fresh d3" using wf(9) h1(7) 2(2) 3(2) by (auto simp: keeps_def lkeeps_def)
    show "\<forall>b \<in> set (L @ [?a]). hash_of d3 b = hash (key_of d3 b)"
      using hash_of_keeps [OF 3(2)] hash2 kv wf(10) o1 by auto
    show "dls (d_heap d3) (d_first d3) None (L @ [?a]) None" using dls_keeps [OF 3(2) 2(3)] 3(2) by (simp add: keeps_def)
    show "d_last d3 = lastref None (L @ [?a])" using 2(4) 3(2) by (simp add: keeps_def)
  qed (use 3 or3 wf(6) aL in auto)
  then show ?thesis using 2(1) 3(1) kv o1 unfolding d1 [symmetric]
    by (intro exI [of _ d3] exI [of _ t3]) auto
qed

lemma hasKey_rel: "dict_rel hash d kvs \<Longrightarrow> dict_hasKey hash key d = Inr (kv_find hash key kvs \<noteq> None)"
  using find_entry_rel by (fastforce simp: dict_rel_def dict_hasKey_def kv_find_map)

lemma add_rel:
  assumes "dict_rel hash d kvs"
  shows "simulates hash (dict_add hash key v d) (kv_add hash key v kvs)"
proof (cases "kv_find hash key kvs")
  case None
  obtain L t where w: "dict_wf hash d L t" and kvs: "kvs = map (\<lambda>a. (key_of d a, val_of d a)) L"
    using assms by (auto simp: dict_rel_def)
  have "\<forall>a \<in> set L. hash (key_of d a) \<noteq> hash key" using None kvs by (auto simp: kv_find_map find_None_iff)
  then obtain d' t' where d': "bindR (link_entry (d_fresh d) (snd (new_entry key v (hash key) d))) (insert_entry (d_fresh d)) = Inr d'"
    "dict_wf hash d' (L @ [d_fresh d]) t'" "\<forall>a \<in> set L. key_of d' a = key_of d a \<and> val_of d' a = val_of d a \<and> a \<noteq> d_fresh d"
    "key_of d' (d_fresh d) = key" "val_of d' (d_fresh d) = v"
    using inserted_wf [OF w] by blast
  then have "dict_rel hash d' (kvs @ [(key, v)])"
    unfolding dict_rel_def kvs by (intro exI [of _ "L @ [d_fresh d]"] exI [of _ t']) auto
  then show ?thesis using d'(1) None hasKey_rel [OF assms] by (simp add: dict_add_def kv_add_def new_entry_def)
next
  case (Some p)
  then show ?thesis using hasKey_rel [OF assms] by (simp add: dict_add_def kv_add_def)
qed

section \<open>Removal\<close>

lemma filter_split:
  "distinct (xs @ n # ys) \<Longrightarrow> filter (\<lambda>a. a \<noteq> n) (xs @ n # ys) = xs @ ys"
proof -
  have "filter (\<lambda>a. a \<noteq> n) us = us" if "n \<notin> set us" for us using that by (induction us) auto
  then show "distinct (xs @ n # ys) \<Longrightarrow> filter (\<lambda>a. a \<noteq> n) (xs @ n # ys) = xs @ ys" by simp
qed

lemma removed_wf:
  assumes w: "dict_wf hash d L t" and n: "n \<in> set L"
  shows "\<exists>d1 d2 t'. unlink_entry n d = Inr d1 \<and> remove_entry n d1 = Inr d2
    \<and> dict_wf hash (delete_entry n d2) (filter (\<lambda>a. a \<noteq> n) L) t'
    \<and> (\<forall>a \<in> set L. a \<noteq> n \<longrightarrow> key_of (delete_entry n d2) a = key_of d a \<and> val_of (delete_entry n d2) a = val_of d a)"
proof -
  have wf: "shape d t" "ordered d t" "dls (d_heap d) (d_first d) None L None" "d_last d = lastref None L"
    "set L = set_tree t" "distinct L" "d_size d = of_nat (length L)" "\<forall>a. d_heap d a \<noteq> None \<longleftrightarrow> a \<in> set L"
    "\<forall>a \<in> set L. a < d_fresh d" "\<forall>a \<in> set L. hash_of d a = hash (key_of d a)"
    using w by (auto simp: dict_wf_def)
  obtain xs ys where L: "L = xs @ n # ys" using n by (meson split_list)
  have nL: "n \<notin> set xs" "n \<notin> set ys" and fL: "filter (\<lambda>a. a \<noteq> n) L = xs @ ys" and dL: "distinct (xs @ ys)"
    using wf(6) filter_split [of xs n ys] L by simp_all
  obtain d1 where 1: "unlink_entry n d = Inr d1" "lkeeps d d1" "dls (d_heap d1) (d_first d1) None (xs @ ys) None"
    "d_last d1 = lastref None (xs @ ys)" "d_size d1 = d_size d - 1"
    using unlink_entry_ok [of d xs n ys] wf(3,4,6) L by auto
  have s1: "shape d1 t" "ordered d1 t" using lkeeps_shape [OF 1(2) wf(1)] lkeeps_ordered [OF 1(2)] wf(2) by auto
  have nt: "n \<in> set_tree t" "size t \<le> d_fresh d1" using n wf(5) wf_size(2) [OF w] 1(2) by (auto simp: lkeeps_def)
  obtain d2 t2 where 2: "remove_entry n d1 = Inr d2" "keeps d1 d2" "shape d2 t2" "inorder t2 = filter (\<lambda>a. a \<noteq> n) (inorder t)"
    using remove_entry_ok [OF s1(1) nt] by blast
  let ?d = "delete_entry n d2"
  have h: "d_heap ?d n = None" "\<And>a. a \<noteq> n \<Longrightarrow> d_heap ?d a = d_heap d2 a" "d_root ?d = d_root d2" "d_first ?d = d_first d2"
    "d_last ?d = d_last d2" "d_size ?d = d_size d2" "d_fresh ?d = d_fresh d2"
    by (simp_all add: delete_entry_def)
  have "set (inorder t2) = {a \<in> set (inorder t). a \<noteq> n}" using 2(4) by simp
  then have set2: "set_tree t2 = set_tree t - {n}" by auto
  have hp: "d_heap d2 a \<noteq> None \<longleftrightarrow> a \<in> set L" for a
    using heap_keeps [OF 2(2), of a] lkeeps_at [OF 1(2), of a] wf(8) by simp
  have at: "key_of ?d a = key_of d a \<and> val_of ?d a = val_of d a \<and> hash_of ?d a = hash_of d a" if "a \<in> set L" "a \<noteq> n" for a
  proof -
    have "key_of ?d a = key_of d2 a" "val_of ?d a = val_of d2 a" "hash_of ?d a = hash_of d2 a"
      using h(2) [OF that(2)] by (simp_all add: key_of_def val_of_def hash_of_def)
    moreover have "d_heap d a \<noteq> None" "d_heap d1 a \<noteq> None" using wf(8) that(1) lkeeps_at [OF 1(2), of a] by auto
    ultimately show ?thesis
      using lkeeps_at [OF 1(2), of a] key_of_keeps [OF 2(2), of a] hash_of_keeps [OF 2(2)] by simp
  qed
  have "dict_wf hash ?d (xs @ ys) t2"
    unfolding dict_wf_def
  proof (intro conjI)
    show "shape ?d t2"
      using 2(3) h set2 tree_at_frame [of "d_heap d2" "d_root d2" None t2 "d_heap ?d"] by (auto simp: shape_def)
    have "ordered d1 t2" using s1(2) unfolding ordered_def 2(4) by (rule sorted_wrt_filter)
    then have "ordered d2 t2" using hash_of_keeps [OF 2(2)] by (simp add: ordered_def hs_def)
    moreover have "\<And>a. a \<in> set (inorder t2) \<Longrightarrow> hs ?d a = hs d2 a" using h set2 by (auto simp: hs_def hash_of_def)
    ultimately show "ordered ?d t2" unfolding ordered_def by (auto elim!: sorted_wrt_mono_rel [rotated])
    have "dls (d_heap d2) (d_first d2) None (xs @ ys) None" using dls_keeps [OF 2(2) 1(3)] 2(2) by (simp add: keeps_def)
    then show "dls (d_heap ?d) (d_first ?d) None (xs @ ys) None"
      unfolding h(4)
    proof (rule dls_frame)
      fix a assume "a \<in> set (xs @ ys)"
      then have "a \<noteq> n" using nL by auto
      then show "map_option thread (d_heap ?d a) = map_option thread (d_heap d2 a)" using h(2) by simp
    qed
    show "d_last ?d = lastref None (xs @ ys)" using 1(4) 2(2) h(5) by (simp add: keeps_def)
    show "set (xs @ ys) = set_tree t2" using set2 wf(5) L nL by auto
    show "d_size ?d = of_nat (length (xs @ ys))" using 1(5) 2(2) h(6) wf(7) L by (simp add: keeps_def)
    show "\<forall>a. (d_heap ?d a \<noteq> None) = (a \<in> set (xs @ ys))"
    proof
      fix a show "(d_heap ?d a \<noteq> None) = (a \<in> set (xs @ ys))"
        using h(1) h(2) [of a] hp [of a] L nL by (cases "a = n") auto
    qed
    show "\<forall>a \<in> set (xs @ ys). a < d_fresh ?d" using wf(9) h(7) 1(2) 2(2) L by (auto simp: keeps_def lkeeps_def)
    show "\<forall>a \<in> set (xs @ ys). hash_of ?d a = hash (key_of ?d a)"
    proof
      fix a assume "a \<in> set (xs @ ys)"
      then have "a \<in> set L" "a \<noteq> n" using L nL by auto
      then show "hash_of ?d a = hash (key_of ?d a)" using at wf(10) by simp
    qed
  qed (use dL in simp)
  then show ?thesis using 1(1) 2(1) at unfolding fL by blast
qed

lemma kv_filter:
  assumes w: "dict_wf hash d L t" and n: "n \<in> set L" "hash (key_of d n) = hash key"
  shows "filter (\<lambda>p. hash (fst p) \<noteq> hash key) (map (\<lambda>a. (key_of d a, val_of d a)) L)
    = map (\<lambda>a. (key_of d a, val_of d a)) (filter (\<lambda>a. a \<noteq> n) L)"
proof -
  have "hash (key_of d a) = hash key \<longleftrightarrow> a = n" if "a \<in> set L" for a
    using wf_hash_inj [OF w that n(1)] n(2) by auto
  then have "filter (\<lambda>a. hash (key_of d a) \<noteq> hash key) L = filter (\<lambda>a. a \<noteq> n) L" by (intro filter_cong) auto
  then show ?thesis by (simp add: filter_map o_def)
qed

lemma remove_rel:
  assumes "dict_rel hash d kvs"
  shows "simulates hash (dict_remove hash key d) (kv_remove hash key kvs)"
proof -
  obtain L t where w: "dict_wf hash d L t" and kvs: "kvs = map (\<lambda>a. (key_of d a, val_of d a)) L"
    using assms by (auto simp: dict_rel_def)
  show ?thesis
  proof (cases "find (\<lambda>a. hash (key_of d a) = hash key) L")
    case None
    then show ?thesis using find_entry_rel [OF w, of key] kvs by (simp add: dict_remove_def kv_remove_def kv_find_map)
  next
    case (Some n)
    then have n: "n \<in> set L" "hash (key_of d n) = hash key" by (auto simp: find_Some_iff in_set_conv_nth)
    obtain d1 d2 t' where r: "unlink_entry n d = Inr d1" "remove_entry n d1 = Inr d2"
      "dict_wf hash (delete_entry n d2) (filter (\<lambda>a. a \<noteq> n) L) t'"
      "\<forall>a \<in> set L. a \<noteq> n \<longrightarrow> key_of (delete_entry n d2) a = key_of d a \<and> val_of (delete_entry n d2) a = val_of d a"
      using removed_wf [OF w n(1)] by blast
    have "dict_rel hash (delete_entry n d2) (filter (\<lambda>p. hash (fst p) \<noteq> hash key) kvs)"
      unfolding dict_rel_def kvs kv_filter [OF w n]
      by (rule exI [of _ "filter (\<lambda>a. a \<noteq> n) L"], rule exI [of _ t']) (use r(3,4) in auto)
    then show ?thesis using Some find_entry_rel [OF w, of key] kvs r
      by (simp add: dict_remove_def kv_remove_def kv_find_map)
  qed
qed

section \<open>Assignment, search by value, clearing and iteration\<close>

lemma write_value:
  assumes w: "dict_wf hash d L t" and n: "n \<in> set L"
  shows "\<exists>d'. upd (Some n) (\<lambda>e. e\<lparr>e_value := v\<rparr>) d = Inr d' \<and> dict_wf hash d' L t
    \<and> (\<forall>a \<in> set L. key_of d' a = key_of d a \<and> val_of d' a = (if a = n then v else val_of d a))"
proof -
  have "d_heap d n \<noteq> None" using w n by (simp add: dict_wf_def)
  then obtain e where e: "d_heap d n = Some e" by blast
  let ?d = "d\<lparr>d_heap := (d_heap d)(n \<mapsto> e\<lparr>e_value := v\<rparr>)\<rparr>"
  have same: "map_option skel (d_heap ?d a) = map_option skel (d_heap d a)"
    "map_option thread (d_heap ?d a) = map_option thread (d_heap d a)"
    "hash_of ?d a = hash_of d a" "key_of ?d a = key_of d a" "d_heap ?d a = None \<longleftrightarrow> d_heap d a = None" for a
    using e by (auto simp: skel_def thread_def hash_of_def key_of_def)
  have "shape ?d t" using w tree_at_frame [of "d_heap d" "d_root d" None t "d_heap ?d"] same(1)
    by (simp add: dict_wf_def shape_def del: fun_upd_apply)
  moreover have "ordered ?d t" using w same(3) by (simp add: dict_wf_def ordered_def hs_def)
  moreover have "dls (d_heap ?d) (d_first d) None L None"
    using w dls_frame [of "d_heap d" "d_first d" None L None "d_heap ?d"] same(2)
    by (simp add: dict_wf_def del: fun_upd_apply)
  ultimately have "dict_wf hash ?d L t" using w same(3-5) unfolding dict_wf_def by simp
  moreover have "val_of ?d a = (if a = n then v else val_of d a)" for a by (simp add: val_of_def)
  moreover have "upd (Some n) (\<lambda>e. e\<lparr>e_value := v\<rparr>) d = Inr ?d" using e by (simp add: upd_def)
  ultimately show ?thesis using same(4) by blast
qed

lemma set_rel:
  assumes "dict_rel hash d kvs"
  shows "simulates hash (dict_set hash dflt key v d) (Inr (kv_set hash key v kvs))"
proof -
  obtain L t where w: "dict_wf hash d L t" and kvs: "kvs = map (\<lambda>a. (key_of d a, val_of d a)) L"
    using assms by (auto simp: dict_rel_def)
  show ?thesis
  proof (cases "find (\<lambda>a. hash (key_of d a) = hash key) L")
    case None
    then have "\<forall>a \<in> set L. hash (key_of d a) \<noteq> hash key" by (auto simp: find_None_iff)
    then obtain d1 t1 where 1: "bindR (link_entry (d_fresh d) (snd (new_entry key dflt (hash key) d))) (insert_entry (d_fresh d)) = Inr d1"
      "dict_wf hash d1 (L @ [d_fresh d]) t1" "\<forall>a \<in> set L. key_of d1 a = key_of d a \<and> val_of d1 a = val_of d a \<and> a \<noteq> d_fresh d"
      "key_of d1 (d_fresh d) = key"
      using inserted_wf [OF w] by blast
    obtain d' where d': "upd (Some (d_fresh d)) (\<lambda>e. e\<lparr>e_value := v\<rparr>) d1 = Inr d'" "dict_wf hash d' (L @ [d_fresh d]) t1"
      "\<forall>a \<in> set (L @ [d_fresh d]). key_of d' a = key_of d1 a \<and> val_of d' a = (if a = d_fresh d then v else val_of d1 a)"
      using write_value [OF 1(2), of "d_fresh d" v] by auto
    have "dict_rel hash d' (kv_set hash key v kvs)"
      using d'(2,3) 1(3,4) None unfolding dict_rel_def kvs kv_set_def
      by (intro exI [of _ "L @ [d_fresh d]"] exI [of _ t1]) (auto simp: kv_find_map)
    moreover have "dict_at hash dflt key d = Inr (Some (d_fresh d), d1)"
      using 1(1) find_entry_rel [OF w, of key] None by (auto simp: dict_at_def new_entry_def res_simps)
    ultimately show ?thesis using d'(1) by (simp add: dict_set_def)
  next
    case (Some n)
    then have n: "n \<in> set L" "hash (key_of d n) = hash key" by (auto simp: find_Some_iff in_set_conv_nth)
    obtain d' where d': "upd (Some n) (\<lambda>e. e\<lparr>e_value := v\<rparr>) d = Inr d'" "dict_wf hash d' L t"
      "\<forall>a \<in> set L. key_of d' a = key_of d a \<and> val_of d' a = (if a = n then v else val_of d a)"
      using write_value [OF w n(1)] by blast
    have "hash (key_of d a) = hash key \<longleftrightarrow> a = n" if "a \<in> set L" for a
      using wf_hash_inj [OF w that n(1)] n(2) by auto
    then have "dict_rel hash d' (kv_set hash key v kvs)"
      using d'(2,3) Some unfolding dict_rel_def kvs kv_set_def
      by (intro exI [of _ L] exI [of _ t]) (auto simp: kv_find_map)
    then show ?thesis using d'(1) Some find_entry_rel [OF w, of key] by (simp add: dict_set_def dict_at_def)
  qed
qed

lemma contains_from_ok:
  "dls (d_heap d) p q L None \<Longrightarrow> length L < fuel \<Longrightarrow> contains_from fuel v p d = Inr (v \<in> val_of d ` set L)"
proof (induction L arbitrary: p q fuel)
  case Nil
  then show ?case by (cases fuel) auto
next
  case (Cons n L)
  then obtain f where f: "fuel = Suc f" "length L < f" by (cases fuel) auto
  obtain e where e: "p = Some n" "d_heap d n = Some e" "dls (d_heap d) (e_next e) (Some n) L None"
    using Cons.prems(1) by auto
  then show ?case using Cons.IH [OF e(3) f(2)] f by (auto simp: fld_Some val_of_def)
qed

lemma containsValue_rel:
  assumes "dict_rel hash d kvs"
  shows "dict_containsValue v d = Inr (v \<in> snd ` set kvs)"
proof -
  obtain L t where w: "dict_wf hash d L t" and kvs: "kvs = map (\<lambda>a. (key_of d a, val_of d a)) L"
    using assms by (auto simp: dict_rel_def)
  then show ?thesis
    using contains_from_ok [of d "d_first d" None L "fuel_of d" v] wf_size(1) [OF w]
    by (simp add: dict_containsValue_def dict_wf_def fuel_of_def image_image)
qed

lemma clear_from_ok:
  "dls (d_heap d) p q L None \<Longrightarrow> distinct L \<Longrightarrow> length L < fuel \<Longrightarrow>
   \<exists>d'. clear_from fuel p d = Inr d' \<and> (\<forall>a. d_heap d' a = (if a \<in> set L then None else d_heap d a))
     \<and> d_fresh d' = d_fresh d"
proof (induction L arbitrary: p q fuel d)
  case Nil
  then show ?case by (cases fuel) auto
next
  case (Cons n L)
  then obtain f where f: "fuel = Suc f" "length L < f" by (cases fuel) auto
  obtain e where e: "p = Some n" "d_heap d n = Some e" "dls (d_heap d) (e_next e) (Some n) L None"
    using Cons.prems(1) by auto
  have "dls (d_heap (delete_entry n d)) (e_next e) (Some n) L None"
  proof (rule dls_frame [OF e(3)])
    fix a assume "a \<in> set L"
    then have "a \<noteq> n" using Cons.prems(2) by auto
    then show "map_option thread (d_heap (delete_entry n d) a) = map_option thread (d_heap d a)"
      by (simp add: delete_entry_def)
  qed
  then obtain d' where d': "clear_from f (e_next e) (delete_entry n d) = Inr d'"
    "\<forall>a. d_heap d' a = (if a \<in> set L then None else d_heap (delete_entry n d) a)" "d_fresh d' = d_fresh (delete_entry n d)"
    using Cons.IH [of "delete_entry n d" "e_next e" "Some n" f] Cons.prems(2) f(2) by auto
  then show ?case using e f by (auto simp: fld_Some delete_entry_def)
qed

lemma clear_rel:
  assumes "dict_rel hash d kvs"
  shows "simulates hash (dict_clear d) (Inr [])"
proof -
  obtain L t where w: "dict_wf hash d L t" using assms by (auto simp: dict_rel_def)
  then obtain d' where d': "clear_from (fuel_of d) (d_first d) d = Inr d'"
    "\<forall>a. d_heap d' a = (if a \<in> set L then None else d_heap d a)"
    using clear_from_ok [of d "d_first d" None L "fuel_of d"] wf_size(1) [OF w] by (auto simp: dict_wf_def fuel_of_def)
  have "d_heap d' a = None" for a using d'(2) w by (auto simp: dict_wf_def)
  then have "dict_rel hash (d'\<lparr>d_size := 0, d_root := None, d_first := None, d_last := None\<rparr>) []"
    unfolding dict_rel_def dict_wf_def
    by (intro exI [of _ "[]"] exI [of _ "\<langle>\<rangle>"]) (simp add: shape_def ordered_def)
  then show ?thesis using d'(1) by (simp add: dict_clear_def)
qed

text \<open>A client's loop over the iterators, reading the pairs until the end.\<close>

fun iterate :: "nat \<Rightarrow> (('k, 'v) dict \<Rightarrow> ref \<Rightarrow> ref res) \<Rightarrow> ref \<Rightarrow> ('k, 'v) dict \<Rightarrow> ('k \<times> 'v) list res" where
  "iterate 0 step it d = Inl Out_Of_Fuel"
| "iterate (Suc fuel) step it d = (if it = dict_end then Inr [] else
     bindR (fld (\<lambda>e. (e_key e, e_value e)) it d) (\<lambda>p.
     bindR (step d it) (\<lambda>it. bindR (iterate fuel step it d) (\<lambda>ps. Inr (p # ps)))))"

lemma iterate_forward:
  "dls (d_heap d) p q L None \<Longrightarrow> length L < fuel \<Longrightarrow>
   iterate fuel (\<lambda>d it. dict_iter_next it d) p d = Inr (map (\<lambda>a. (key_of d a, val_of d a)) L)"
proof (induction L arbitrary: p q fuel)
  case Nil
  then show ?case by (cases fuel) (auto simp: dict_end_def)
next
  case (Cons n L)
  then obtain f where f: "fuel = Suc f" "length L < f" by (cases fuel) auto
  obtain e where e: "p = Some n" "d_heap d n = Some e" "dls (d_heap d) (e_next e) (Some n) L None"
    using Cons.prems(1) by auto
  then show ?case using Cons.IH [OF e(3) f(2)] f
    by (simp add: fld_Some dict_iter_next_def dict_end_def key_of_def val_of_def)
qed

lemma iterate_backward:
  "dls (d_heap d) p None L r \<Longrightarrow> length L < fuel \<Longrightarrow>
   iterate fuel (\<lambda>d it. dict_iter_prev it d) (lastref None L) d = Inr (rev (map (\<lambda>a. (key_of d a, val_of d a)) L))"
proof (induction L arbitrary: r fuel rule: rev_induct)
  case Nil
  then show ?case by (cases fuel) (auto simp: dict_end_def)
next
  case (snoc n L)
  then obtain f where f: "fuel = Suc f" "length L < f" by (cases fuel) auto
  obtain e where e: "d_heap d n = Some e" "e_prev e = lastref None L" "dls (d_heap d) p None L (Some n)"
    using snoc.prems(1) by (auto simp: dls_append)
  then show ?case using snoc.IH [OF e(3) f(2)] f
    by (simp add: fld_Some dict_iter_prev_def dict_end_def key_of_def val_of_def)
qed

lemma size_rel: "dict_rel hash d kvs \<Longrightarrow> d_size d = of_nat (length kvs)"
  by (auto simp: dict_rel_def dict_wf_def)

end
