(* ===== verification/Dict_Props.thy ===== *)
theory Dict_Props
  imports Dict_Ops Str_Buffer
begin

text \<open>
  The properties of \<open>Dictionary\<close>: its operations refine operations on a list of pairs in
  the order of insertion, its invariant holds in every reachable state, iteration follows the
  list, and what the comparison by hash value alone means for keys that collide.
\<close>

section \<open>A store of pairs as an interface\<close>

text \<open>The laws that a client of a keyed store relies on; \<open>code\<close> is what keys are compared by.\<close>

locale lookup_store =
  fixes rel :: "'s \<Rightarrow> ('k \<times> 'v) list \<Rightarrow> bool" and code :: "'k \<Rightarrow> 'h" and get :: "'k \<Rightarrow> 's \<Rightarrow> 'v res"
  assumes get_hit: "rel s kvs \<Longrightarrow> (k, v) \<in> set kvs \<Longrightarrow> code k = code k' \<Longrightarrow> get k' s = Inr v"
    and get_miss: "rel s kvs \<Longrightarrow> (\<forall>p \<in> set kvs. code (fst p) \<noteq> code k') \<Longrightarrow> get k' s = Inl null_error"
begin

lemma get_map_of:
  assumes "rel s kvs" "inj_on code (insert k (fst ` set kvs))"
  shows "get k s = (case map_of kvs k of None \<Rightarrow> Inl null_error | Some v \<Rightarrow> Inr v)"
proof (cases "map_of kvs k")
  case None
  then have "k \<notin> fst ` set kvs" by (simp add: map_of_eq_None_iff)
  then have "\<forall>p \<in> set kvs. code (fst p) \<noteq> code k"
    using assms(2) unfolding inj_on_def by (metis imageI insertI1 insertI2)
  then show ?thesis using get_miss [OF assms(1)] None by simp
next
  case (Some v)
  then show ?thesis using get_hit [OF assms(1) map_of_SomeD [OF Some]] by simp
qed

end

locale keyed_store = lookup_store +
  fixes add :: "'b \<Rightarrow> 'c \<Rightarrow> 'a \<Rightarrow> 'a res" and remove :: "'b \<Rightarrow> 'a \<Rightarrow> 'a res"
  assumes add_new: "rel s kvs \<Longrightarrow> (\<forall>p \<in> set kvs. code (fst p) \<noteq> code k) \<Longrightarrow> \<exists>s'. add k v s = Inr s' \<and> rel s' (kvs @ [(k, v)])"
    and add_old: "rel s kvs \<Longrightarrow> (\<exists>p \<in> set kvs. code (fst p) = code k) \<Longrightarrow> add k v s = Inl (Thrown ''InvalidArgumentException'')"
    and remove_old: "rel s kvs \<Longrightarrow> (\<exists>p \<in> set kvs. code (fst p) = code k) \<Longrightarrow>
      \<exists>s'. remove k s = Inr s' \<and> rel s' (filter (\<lambda>p. code (fst p) \<noteq> code k) kvs)"
begin

lemma add_get:
  assumes "rel s kvs" "(\<forall>p \<in> set kvs. code (fst p) \<noteq> code k)"
  shows "\<exists>s'. add k v s = Inr s' \<and> get k s' = Inr v \<and> add k w s' = Inl (Thrown ''InvalidArgumentException'')
    \<and> (\<forall>k'. code k' \<noteq> code k \<longrightarrow> get k' s' = get k' s)"
proof -
  obtain s' where s': "add k v s = Inr s'" "rel s' (kvs @ [(k, v)])" using add_new [OF assms] by blast
  have "get k' s' = get k' s" if "code k' \<noteq> code k" for k'
  proof (cases "(\<exists>p \<in> set kvs. code (fst p) = code k')")
    case True
    then obtain k'' v'' where "(k'', v'') \<in> set kvs" "code k'' = code k'" by auto
    then show ?thesis using get_hit [OF assms(1), of k'' v'' k'] get_hit [OF s'(2), of k'' v'' k'] by simp
  next
    case False
    then show ?thesis using get_miss [OF assms(1), of k'] get_miss [OF s'(2), of k'] that by auto
  qed
  then show ?thesis using s' get_hit [OF s'(2), of k v k] add_old [OF s'(2), of k w] by auto
qed

lemma add_remove:
  assumes "rel s kvs" "(\<forall>p \<in> set kvs. code (fst p) \<noteq> code k)"
  shows "\<exists>s1 s2. add k v s = Inr s1 \<and> remove k s1 = Inr s2 \<and> rel s2 kvs"
proof -
  obtain s1 where s1: "add k v s = Inr s1" "rel s1 (kvs @ [(k, v)])" using add_new [OF assms] by blast
  obtain s2 where s2: "remove k s1 = Inr s2" "rel s2 (filter (\<lambda>p. code (fst p) \<noteq> code k) (kvs @ [(k, v)]))"
    using remove_old [OF s1(2), of k] by auto
  have "filter (\<lambda>p. code (fst p) \<noteq> code k) (kvs @ [(k, v)]) = kvs" using assms(2) by (simp add: filter_True)
  then show ?thesis using s1 s2 by auto
qed

end

lemma kv_find_None: "kv_find hash k kvs = None \<longleftrightarrow> (\<forall>p \<in> set kvs. hash (fst p) \<noteq> hash k)"
  by (auto simp: kv_find_def find_None_iff)

lemma kv_find_distinct:
  assumes "distinct (map (\<lambda>p. hash (fst p)) kvs)" "(k, v) \<in> set kvs" "hash k = hash k'"
  shows "kv_find hash k' kvs = Some (k, v)"
  using assms
proof (induction kvs)
  case (Cons p kvs)
  show ?case
  proof (cases "p = (k, v)")
    case False
    then have "(k, v) \<in> set kvs" using Cons.prems(2) by simp
    moreover from this have "hash (fst p) \<noteq> hash k'" using Cons.prems(1,3) by force
    ultimately show ?thesis using Cons by (simp add: kv_find_def)
  qed (use Cons.prems(3) in \<open>simp add: kv_find_def\<close>)
qed simp

lemma rel_distinct:
  assumes "dict_rel hash d kvs" shows "distinct (map (\<lambda>p. hash (fst p)) kvs)"
proof -
  obtain L t where w: "dict_wf hash d L t" and kvs: "kvs = map (\<lambda>a. (key_of d a, val_of d a)) L"
    using assms by (auto simp: dict_rel_def)
  then have "inj_on (\<lambda>a. hash (key_of d a)) (set L)" using wf_hash_inj [OF w] by (auto intro: inj_onI)
  then show ?thesis using w kvs by (simp add: distinct_map dict_wf_def o_def)
qed

lemma simulates_Inr: "simulates hash r (Inr kvs) \<longleftrightarrow> (\<exists>d. r = Inr d \<and> dict_rel hash d kvs)"
  by (cases r) auto

lemma simulates_Inl: "simulates hash r (Inl e) \<longleftrightarrow> r = Inl e"
  by (cases r) auto

interpretation dict_store: keyed_store "dict_rel hash" hash "dict_get hash" "dict_add hash" "dict_remove hash"
  for hash :: "'k \<Rightarrow> u32"
proof unfold_locales
  fix d :: "('k, 'v) dict" and kvs k k' and v :: 'v
  assume rel: "dict_rel hash d kvs"
  show "(k, v) \<in> set kvs \<Longrightarrow> hash k = hash k' \<Longrightarrow> dict_get hash k' d = Inr v"
    using get_rel [OF rel, of k'] kv_find_distinct [OF rel_distinct [OF rel], of k v k'] by (simp add: kv_get_def)
  show "(\<forall>p \<in> set kvs. hash (fst p) \<noteq> hash k') \<Longrightarrow> dict_get hash k' d = Inl null_error"
    using get_rel [OF rel, of k'] kv_find_None [of hash k' kvs] by (simp add: kv_get_def)
  show "(\<forall>p \<in> set kvs. hash (fst p) \<noteq> hash k) \<Longrightarrow> \<exists>d'. dict_add hash k v d = Inr d' \<and> dict_rel hash d' (kvs @ [(k, v)])"
    using add_rel [OF rel, of k v] kv_find_None [of hash k kvs] by (simp add: kv_add_def simulates_Inr)
  show "(\<exists>p \<in> set kvs. hash (fst p) = hash k) \<Longrightarrow> dict_add hash k v d = Inl (Thrown ''InvalidArgumentException'')"
    using add_rel [OF rel, of k v] kv_find_None [of hash k kvs]
    by (auto simp: kv_add_def simulates_Inl split: if_splits)
  show "(\<exists>p \<in> set kvs. hash (fst p) = hash k) \<Longrightarrow>
      \<exists>d'. dict_remove hash k d = Inr d' \<and> dict_rel hash d' (filter (\<lambda>p. hash (fst p) \<noteq> hash k) kvs)"
    using remove_rel [OF rel, of k] kv_find_None [of hash k kvs]
    by (auto simp: kv_remove_def simulates_Inr split: if_splits)
qed

section \<open>Reachable dictionaries\<close>

inductive dict_reach :: "('k \<Rightarrow> u32) \<Rightarrow> ('k, 'v) dict \<Rightarrow> bool" for hash where
  new: "dict_reach hash dict_new"
| add: "dict_reach hash d \<Longrightarrow> dict_add hash k v d = Inr d' \<Longrightarrow> dict_reach hash d'"
| remove: "dict_reach hash d \<Longrightarrow> dict_remove hash k d = Inr d' \<Longrightarrow> dict_reach hash d'"
| assign: "dict_reach hash d \<Longrightarrow> dict_set hash dflt k v d = Inr d' \<Longrightarrow> dict_reach hash d'"
| clear: "dict_reach hash d \<Longrightarrow> dict_clear d = Inr d' \<Longrightarrow> dict_reach hash d'"
| remove_iter: "dict_reach hash d \<Longrightarrow> d_heap d a \<noteq> None \<Longrightarrow>
    dict_remove_iter hash (Some a) d = Inr (it, d') \<Longrightarrow> dict_reach hash d'"

text \<open>Removal through an iterator.\<close>

lemma remove_iter_ok:
  assumes w: "dict_wf hash d (xs @ n # ys) t"
  shows "\<exists>d' t'. dict_remove_iter hash (Some n) d = Inr (case ys of [] \<Rightarrow> None | m # _ \<Rightarrow> Some m, d')
    \<and> dict_wf hash d' (xs @ ys) t'
    \<and> (\<forall>a \<in> set (xs @ ys). key_of d' a = key_of d a \<and> val_of d' a = val_of d a)"
proof -
  have n: "n \<in> set (xs @ n # ys)" by simp
  have dl: "dls (d_heap d) (d_first d) None (xs @ n # ys) None" and di: "distinct (xs @ n # ys)"
    using w by (auto simp: dict_wf_def)
  then obtain e where e: "d_heap d n = Some e" "dls (d_heap d) (e_next e) (Some n) ys None"
    by (auto simp: dls_append)
  have "find (\<lambda>a. hash (key_of d a) = hash (key_of d n)) (xs @ n # ys) = Some n"
    using find_entry_wf [OF w, of "key_of d n"] wf_hash_inj [OF w] n find_entry_rel [OF w, of "key_of d n"]
    by (auto split: option.splits)
  then have "find_entry hash (e_key e) d = Inr (Some n)"
    using find_entry_rel [OF w, of "key_of d n"] e by (simp add: key_of_def)
  moreover obtain d1 d2 t' where "unlink_entry n d = Inr d1" "remove_entry n d1 = Inr d2"
    "dict_wf hash (delete_entry n d2) (xs @ ys) t'"
    "\<forall>a \<in> set (xs @ n # ys). a \<noteq> n \<longrightarrow> key_of (delete_entry n d2) a = key_of d a \<and> val_of (delete_entry n d2) a = val_of d a"
    using removed_wf [OF w n] unfolding filter_split [OF di] by blast
  moreover have "e_next e = (case ys of [] \<Rightarrow> None | m # _ \<Rightarrow> Some m)" using dls_Some_first [OF e(2)] .
  ultimately show ?thesis using e(1) di
    by (intro exI [of _ "delete_entry n d2"] exI [of _ t']) (auto simp: dict_remove_iter_def fld_Some)
qed

lemma dict_reach_rel: "dict_reach hash d \<Longrightarrow> \<exists>kvs. dict_rel hash d kvs"
proof (induction rule: dict_reach.induct)
  case new
  then show ?case using dict_new_rel by blast
next
  case (add d k v d')
  then obtain kvs where "dict_rel hash d kvs" by blast
  then show ?case using add_rel [of hash d kvs k v] add.hyps by (cases "kv_add hash k v kvs") auto
next
  case (remove d k d')
  then obtain kvs where "dict_rel hash d kvs" by blast
  then show ?case using remove_rel [of hash d kvs k] remove.hyps by (cases "kv_remove hash k kvs") auto
next
  case (assign d dflt k v d')
  then obtain kvs where "dict_rel hash d kvs" by blast
  then show ?case using set_rel [of hash d kvs dflt k v] assign.hyps by auto
next
  case (clear d d')
  then obtain kvs where "dict_rel hash d kvs" by blast
  then show ?case using clear_rel [of hash d kvs] clear.hyps by auto
next
  case (remove_iter d a it d')
  then obtain L t where w: "dict_wf hash d L t" by (auto simp: dict_rel_def)
  then have "a \<in> set L" using remove_iter.hyps(2) by (simp add: dict_wf_def)
  then obtain xs ys where "L = xs @ a # ys" by (meson split_list)
  then show ?case using remove_iter_ok [of hash d xs a ys t] w remove_iter.hyps(3) by (auto simp: dict_rel_def)
qed

inductive_simps dict_reach_new_simp: "dict_reach hash dict_new"

section \<open>Properties\<close>

text \<open>
  C2. On a dictionary that represents the list of pairs \<open>kvs\<close>, every operation does what its
  list counterpart does, exceptions included: \<open>add\<close> appends or throws when an entry with the
  same hash value exists, \<open>remove\<close> deletes or throws, assignment through \<open>operator[]\<close> updates in
  place or appends, and the queries read the list.
\<close>

theorem dict_refines_list:
  assumes "dict_rel hash d kvs"
  shows "simulates hash (dict_add hash k v d) (kv_add hash k v kvs)
    \<and> simulates hash (dict_remove hash k d) (kv_remove hash k kvs)
    \<and> simulates hash (dict_set hash dflt k v d) (Inr (kv_set hash k v kvs))
    \<and> simulates hash (dict_clear d) (Inr [])
    \<and> dict_get hash k d = kv_get hash k kvs
    \<and> dict_hasKey hash k d = Inr (kv_find hash k kvs \<noteq> None)
    \<and> dict_containsValue v d = Inr (v \<in> snd ` set kvs)
    \<and> d_size d = of_nat (length kvs)"
  using add_rel [OF assms] remove_rel [OF assms] set_rel [OF assms] clear_rel [OF assms] get_rel [OF assms]
    hasKey_rel [OF assms] containsValue_rel [OF assms] size_rel [OF assms] by blast

theorem dict_refines_list_witness:
  "simulates of_nat (dict_add of_nat (3::nat) True dict_new) (Inr [(3, True)])
   \<and> dict_remove of_nat (3::nat) (dict_new :: (nat, bool) dict) = Inl null_error"
  using dict_refines_list [OF dict_new_rel [where hash = "of_nat :: nat \<Rightarrow> u32"], of 3 True False]
  by (simp add: kv_add_def kv_remove_def kv_find_def simulates_Inl)

text \<open>
  C3. Every dictionary a client can build keeps the invariant (an ordered tree with correct
  parent links, threaded by the list of its entries, all addresses allocated), and on it no
  operation follows a bad pointer or runs forever: each returns a dictionary or throws one of
  its two exceptions.
\<close>

theorem dict_reachable_ok:
  assumes "dict_reach hash d"
  shows "(\<exists>L t. dict_wf hash d L t)
    \<and> ((\<exists>d'. dict_add hash k v d = Inr d') \<or> dict_add hash k v d = Inl (Thrown ''InvalidArgumentException''))
    \<and> ((\<exists>d'. dict_remove hash k d = Inr d') \<or> dict_remove hash k d = Inl null_error)
    \<and> ((\<exists>x. dict_get hash k d = Inr x) \<or> dict_get hash k d = Inl null_error)
    \<and> (\<exists>d'. dict_set hash dflt k v d = Inr d') \<and> (\<exists>d'. dict_clear d = Inr d')"
proof -
  obtain kvs where rel: "dict_rel hash d kvs" using dict_reach_rel [OF assms] by blast
  have "simulates hash (dict_add hash k v d) (kv_add hash k v kvs)"
    "simulates hash (dict_remove hash k d) (kv_remove hash k kvs)"
    "dict_get hash k d = kv_get hash k kvs"
    using add_rel [OF rel] remove_rel [OF rel] get_rel [OF rel] by auto
  moreover have "\<exists>d'. dict_set hash dflt k v d = Inr d'" "\<exists>d'. dict_clear d = Inr d'"
    using set_rel [OF rel, of dflt k v] clear_rel [OF rel] by (auto simp: simulates_Inr)
  ultimately show ?thesis using rel
    by (auto simp: dict_rel_def kv_add_def kv_remove_def kv_get_def simulates_Inr simulates_Inl
        split: if_splits option.splits)
qed

theorem dict_reachable_ok_witness:
  "\<exists>d'. dict_set of_nat 0 (7::nat) (1::nat) (dict_new :: (nat, nat) dict) = Inr d'"
  using dict_reachable_ok [OF dict_reach.new [where hash = "of_nat :: nat \<Rightarrow> u32"], of 7 1 0] by blast

text \<open>
  C8. When the hash values of the keys in use do not collide, a dictionary is a finite map: \<open>get\<close>
  is lookup, \<open>add\<close> of a new key makes exactly that key readable, and \<open>remove\<close> after \<open>add\<close>
  restores the contents.
\<close>

theorem dict_is_map:
  assumes "dict_rel hash d kvs" "inj_on hash (insert k (fst ` set kvs))"
  shows "dict_get hash k d = (case map_of kvs k of None \<Rightarrow> Inl null_error | Some v \<Rightarrow> Inr v)
    \<and> (k \<notin> fst ` set kvs \<longrightarrow> (\<exists>d1 d2. dict_add hash k v d = Inr d1 \<and> dict_get hash k d1 = Inr v
      \<and> (\<forall>k'. hash k' \<noteq> hash k \<longrightarrow> dict_get hash k' d1 = dict_get hash k' d)
      \<and> dict_remove hash k d1 = Inr d2 \<and> dict_rel hash d2 kvs))"
proof (intro conjI impI)
  show "dict_get hash k d = (case map_of kvs k of None \<Rightarrow> Inl null_error | Some v \<Rightarrow> Inr v)"
    by (rule dict_store.get_map_of [OF assms])
  assume "k \<notin> fst ` set kvs"
  then have new: "\<forall>p \<in> set kvs. hash (fst p) \<noteq> hash k"
    using assms(2) unfolding inj_on_def by (metis imageI insertI1 insertI2)
  obtain d1 where d1: "dict_add hash k v d = Inr d1" "dict_get hash k d1 = Inr v"
    "\<forall>k'. hash k' \<noteq> hash k \<longrightarrow> dict_get hash k' d1 = dict_get hash k' d"
    using dict_store.add_get [OF assms(1) new, of v] by blast
  moreover obtain d2 where "dict_remove hash k d1 = Inr d2" "dict_rel hash d2 kvs"
    using dict_store.add_remove [OF assms(1) new, of v] d1(1) by auto
  ultimately show "\<exists>d1 d2. dict_add hash k v d = Inr d1 \<and> dict_get hash k d1 = Inr v
      \<and> (\<forall>k'. hash k' \<noteq> hash k \<longrightarrow> dict_get hash k' d1 = dict_get hash k' d)
      \<and> dict_remove hash k d1 = Inr d2 \<and> dict_rel hash d2 kvs" by blast
qed

theorem dict_is_map_witness:
  "\<exists>d1 d2. dict_add of_nat (5::nat) (2::nat) dict_new = Inr d1 \<and> dict_get of_nat 5 d1 = Inr 2
     \<and> dict_remove of_nat 5 d1 = Inr d2 \<and> dict_rel of_nat d2 []"
  using dict_is_map [OF dict_new_rel [where hash = "of_nat :: nat \<Rightarrow> u32"], of 5 2] by auto

text \<open>
  C30. Iteration from \<open>begin\<close> yields the pairs in the order of insertion and ends, backward
  iteration from the last entry yields them reversed, and removing through an iterator leaves
  it on the following entry and the other pairs untouched.
\<close>

theorem dict_iteration:
  assumes "dict_wf hash d (xs @ n # ys) t"
  shows "\<exists>d' t'. iterate (fuel_of d) (\<lambda>d it. dict_iter_next it d) (dict_begin d) d
      = Inr (map (\<lambda>a. (key_of d a, val_of d a)) (xs @ n # ys))
    \<and> iterate (fuel_of d) (\<lambda>d it. dict_iter_prev it d) (d_last d) d
      = Inr (rev (map (\<lambda>a. (key_of d a, val_of d a)) (xs @ n # ys)))
    \<and> dict_remove_iter hash (Some n) d = Inr (case ys of [] \<Rightarrow> dict_end | m # _ \<Rightarrow> Some m, d')
    \<and> dict_wf hash d' (xs @ ys) t'
    \<and> iterate (fuel_of d') (\<lambda>d it. dict_iter_next it d) (dict_begin d') d'
      = Inr (map (\<lambda>a. (key_of d a, val_of d a)) (xs @ ys))"
proof -
  have fwd: "iterate (fuel_of d) (\<lambda>d it. dict_iter_next it d) (dict_begin d) d = Inr (map (\<lambda>a. (key_of d a, val_of d a)) L)"
    if "dict_wf hash d L t" for d and L t
    using iterate_forward [of d "d_first d" None L "fuel_of d"] that wf_size(1) [OF that]
    by (simp add: dict_wf_def dict_begin_def fuel_of_def)
  have "iterate (fuel_of d) (\<lambda>d it. dict_iter_prev it d) (d_last d) d
      = Inr (rev (map (\<lambda>a. (key_of d a, val_of d a)) (xs @ n # ys)))"
    using iterate_backward [of d "d_first d" "xs @ n # ys" None "fuel_of d"] assms wf_size(1) [OF assms]
    by (simp add: dict_wf_def fuel_of_def)
  moreover obtain d' t' where d': "dict_remove_iter hash (Some n) d = Inr (case ys of [] \<Rightarrow> dict_end | m # _ \<Rightarrow> Some m, d')"
    "dict_wf hash d' (xs @ ys) t'" "\<forall>a \<in> set (xs @ ys). key_of d' a = key_of d a \<and> val_of d' a = val_of d a"
    using remove_iter_ok [OF assms] unfolding dict_end_def by blast
  moreover have "map (\<lambda>a. (key_of d' a, val_of d' a)) (xs @ ys) = map (\<lambda>a. (key_of d a, val_of d a)) (xs @ ys)"
    using d'(3) by simp
  then have "iterate (fuel_of d') (\<lambda>d it. dict_iter_next it d) (dict_begin d') d'
      = Inr (map (\<lambda>a. (key_of d a, val_of d a)) (xs @ ys))"
    using fwd [OF d'(2)] by simp
  ultimately show ?thesis using fwd [OF assms] by (intro exI [of _ d'] exI [of _ t'] conjI)
qed

theorem dict_iteration_witness:
  "\<exists>d. dict_add of_nat (1::nat) True dict_new = Inr d
     \<and> iterate (fuel_of d) (\<lambda>d it. dict_iter_next it d) (dict_begin d) d = Inr [(1, True)]"
proof -
  obtain d where d: "dict_add of_nat (1::nat) True dict_new = Inr d" "dict_rel of_nat d [(1, True)]"
    using dict_store.add_new [OF dict_new_rel, of "of_nat :: nat \<Rightarrow> u32" 1 True] by auto
  then obtain n t where "dict_wf of_nat d ([] @ n # []) t" "key_of d n = 1" "val_of d n = True"
    unfolding dict_rel_def by (auto simp: map_eq_Cons_conv)
  from dict_iteration [OF this(1)] this(2,3) d(1) show ?thesis by auto
qed

text \<open>
  Entries are compared by hash value only. The keys ab and bA have the same hash value, so
  after adding the first, \<open>get\<close> of the second returns its value, adding the second throws, and
  removing the second removes the first.
\<close>

theorem dict_collision:
  "\<exists>d d'. dict_add hash_bytes (lit ''ab'') v dict_new = Inr d
     \<and> dict_get hash_bytes (lit ''bA'') d = Inr v
     \<and> dict_add hash_bytes (lit ''bA'') w d = Inl (Thrown ''InvalidArgumentException'')
     \<and> dict_remove hash_bytes (lit ''bA'') d = Inr d' \<and> dict_get hash_bytes (lit ''ab'') d' = Inl null_error"
proof -
  have h: "hash_bytes (lit ''bA'') = hash_bytes (lit ''ab'')" by (simp add: hash_bytes_def hash_step_def lit_def)
  obtain d where d: "dict_add hash_bytes (lit ''ab'') v dict_new = Inr d" "dict_rel hash_bytes d [(lit ''ab'', v)]"
    using dict_store.add_new [OF dict_new_rel, of hash_bytes "lit ''ab''" v] by auto
  moreover obtain d' where "dict_remove hash_bytes (lit ''bA'') d = Inr d'" "dict_rel hash_bytes d' []"
    using dict_store.remove_old [OF d(2), of "lit ''bA''"] h by auto
  moreover have "dict_get hash_bytes (lit ''bA'') d = Inr v"
    using dict_store.get_hit [OF d(2), of "lit ''ab''" v "lit ''bA''"] h by simp
  moreover have "dict_add hash_bytes (lit ''bA'') w d = Inl (Thrown ''InvalidArgumentException'')"
    using dict_store.add_old [OF d(2), of "lit ''bA''" w] h by simp
  ultimately show ?thesis using dict_store.get_miss [of hash_bytes d' "[]" "lit ''ab''"] by auto
qed

end
