(* ===== verification/Buf.thy ===== *)
theory Buf
  imports Str_Buffer
begin

text \<open>
  \<open>ByteBuffer\<close> (src/io/ByteBuffer.cpp, include/srl/io/ByteBuffer.h) and the typed layers
  \<open>BinaryWriter\<close> and \<open>BinaryReader\<close> (src/io/BinaryWriter.cpp, src/io/BinaryReader.cpp) on top of
  it. As for strings the empty list is the shared constant \<open>EMPTY\<close>: four readable zero bytes
  that cannot be written. Exceptions are \<open>Thrown\<close> with the name of their class.
\<close>

section \<open>State\<close>

record bbuf =
  b_buffer :: "u8 list"
  b_size :: u32
  b_length :: u32
  b_pos :: u32

definition bb_mem :: "bbuf \<Rightarrow> u8 list" where
  "bb_mem b = (if b_buffer b = [] then [0, 0, 0, 0] else b_buffer b)"

definition bounds_error :: error where
  "bounds_error = Thrown ''IndexOutOfBoundsException''"

section \<open>Allocation and construction\<close>

definition bb_resize :: "u32 \<Rightarrow> bbuf \<Rightarrow> bbuf res" where
  "bb_resize new_size b =
     (if 0 < new_size then
        (let new_size = ROUNDUP (new_size + 1) 16 in
         if new_size = b_size b then
           (if 0 < new_size then bindR (blk_write (b_buffer b) (unat (new_size - 1)) 0) (\<lambda>m. Inr (b\<lparr>b_buffer := m\<rparr>))
            else Inr b)
         else bindR (blk_write (blk_realloc (b_buffer b) (unat new_size)) (unat (new_size - 1)) 0)
                (\<lambda>m. Inr (b\<lparr>b_buffer := m, b_size := new_size\<rparr>)))
      else if b_buffer b \<noteq> [] then Inr (b\<lparr>b_buffer := [], b_size := 0\<rparr>)
      else Inr (b\<lparr>b_size := new_size\<rparr>))"

definition bb_new :: "u32 \<Rightarrow> bbuf res" where
  "bb_new new_size = bb_resize new_size \<lparr>b_buffer = [], b_size = 0, b_length = 0, b_pos = 0\<rparr>"

text \<open>A buffer around the caller's memory; \<open>sizeof(_buffer)\<close> is the size of a pointer.\<close>

definition bb_of_ptr :: "u8 list \<Rightarrow> u32 \<Rightarrow> u32 \<Rightarrow> bbuf" where
  "bb_of_ptr m buf_size buf_length = \<lparr>b_buffer = m, b_size = (if buf_size = 0 then 8 else buf_size),
     b_length = buf_length, b_pos = 0\<rparr>"

text \<open>The copy constructor leaves \<open>_pos\<close> as it finds it in memory.\<close>

definition bb_copy_new :: "u32 \<Rightarrow> bbuf \<Rightarrow> bbuf res" where
  "bb_copy_new junk other = bindR (bb_resize (b_size other) \<lparr>b_buffer = [], b_size = 0, b_length = 0, b_pos = junk\<rparr>) (\<lambda>b.
     if 0 < b_size other then
       bindR (blk_slice (bb_mem other) 0 (unat (b_size other))) (\<lambda>xs.
       bindR (blk_put (b_buffer b) 0 xs) (\<lambda>m. Inr (b\<lparr>b_buffer := m\<rparr>)))
     else Inr b)"

definition bb_destroy :: "bbuf \<Rightarrow> bbuf res" where
  "bb_destroy b = bb_resize 0 b"

definition bb_close :: "bbuf \<Rightarrow> bbuf res" where
  "bb_close b = bb_resize 0 b"

section \<open>Position and length\<close>

definition bb_remaining :: "bbuf \<Rightarrow> u32" where
  "bb_remaining b = b_length b - b_pos b"

definition bb_moveStart :: "bbuf \<Rightarrow> bbuf res" where
  "bb_moveStart b = (if b_pos b < b_length b \<and> 0 < b_length b then
     (let len = b_length b - b_pos b in
      bindR (blk_move (b_buffer b) 0 (unat (b_pos b)) (unat len)) (\<lambda>m.
      bindR (blk_write m (unat len) 0) (\<lambda>m.
      Inr (b\<lparr>b_buffer := m, b_length := len, b_pos := len\<rparr>))))
     else Inr b)"

definition bb_toggle :: "bool \<Rightarrow> bbuf \<Rightarrow> bbuf res" where
  "bb_toggle write_mode b = (if write_mode then
       (if b_pos b = b_length b then Inr (b\<lparr>b_pos := 0, b_length := 0\<rparr>) else bb_moveStart b)
     else Inr (b\<lparr>b_pos := 0\<rparr>))"

definition bb_setPosition :: "u32 \<Rightarrow> bbuf \<Rightarrow> bbuf res" where
  "bb_setPosition pos b = (if b_size b < pos then Inl bounds_error else Inr (b\<lparr>b_pos := pos\<rparr>))"

definition bb_flip :: "bbuf \<Rightarrow> bbuf res" where
  "bb_flip b = bb_setPosition 0 b"

definition bb_setLength :: "u32 \<Rightarrow> bbuf \<Rightarrow> bbuf" where
  "bb_setLength len b = b\<lparr>b_length := len\<rparr>"

definition bb_atEnd :: "bbuf \<Rightarrow> bool" where
  "bb_atEnd b = (b_length b \<le> b_pos b)"

definition bb_canRead :: "bbuf \<Rightarrow> bool" where
  "bb_canRead b = bb_atEnd b"

definition bb_canWrite :: "bbuf \<Rightarrow> bool" where
  "bb_canWrite b = (b_pos b < b_size b)"

section \<open>Search\<close>

text \<open>The loops over \<open>i\<close> from the position up to the length; \<open>-1\<close> is all ones.\<close>

fun find_byte_in :: "u8 list \<Rightarrow> u8 \<Rightarrow> nat list \<Rightarrow> u32 res" where
  "find_byte_in m value [] = Inr (- 1)"
| "find_byte_in m value (i # is) = bindR (blk_read m i) (\<lambda>c.
     if c = value then Inr (of_nat i) else find_byte_in m value is)"

definition bb_find_byte :: "u8 \<Rightarrow> bbuf \<Rightarrow> u32 res" where
  "bb_find_byte value b = find_byte_in (bb_mem b) value [unat (b_pos b)..<unat (b_length b)]"

text \<open>The inner loop compares from \<open>i + p\<close> on; \<open>v\<close> is the memory of the string, \<open>n\<close> its length.\<close>

function match_at :: "u8 list \<Rightarrow> u8 list \<Rightarrow> nat \<Rightarrow> nat \<Rightarrow> nat \<Rightarrow> bool res" where
  "match_at m v n i p = bindR (blk_read m (i + p)) (\<lambda>c. bindR (blk_read v p) (\<lambda>d.
     if c \<noteq> d then Inr False else if Suc p = n then Inr True else match_at m v n i (Suc p)))"
  by pat_completeness auto
termination
  by (relation "measure (\<lambda>(m, v, n, i, p). length m - p)") (auto simp: blk_read_def split: if_splits)

declare match_at.simps [simp del]

fun find_str_in :: "u8 list \<Rightarrow> u8 list \<Rightarrow> nat \<Rightarrow> nat list \<Rightarrow> u32 res" where
  "find_str_in m v n [] = Inr (- 1)"
| "find_str_in m v n (i # is) = bindR (match_at m v n i 0) (\<lambda>b.
     if b then Inr (of_nat i) else find_str_in m v n is)"

definition bb_find_str :: "srl_str \<Rightarrow> bbuf \<Rightarrow> u32 res" where
  "bb_find_str value b = find_str_in (bb_mem b) (str_mem value) (unat (s_string_length value))
     [unat (b_pos b)..<unat (b_length b)]"

definition bb_eq :: "bbuf \<Rightarrow> bbuf \<Rightarrow> bool res" where
  "bb_eq b other = (if b_length b \<noteq> b_length other then Inr False
     else bindR (blk_slice (bb_mem b) 0 (unat (b_length b))) (\<lambda>xs.
       bindR (blk_slice (bb_mem other) 0 (unat (b_length b))) (\<lambda>ys. Inr (xs = ys))))"

definition bb_ne :: "bbuf \<Rightarrow> bbuf \<Rightarrow> bool res" where
  "bb_ne b other = bindR (bb_eq b other) (\<lambda>e. Inr (\<not> e))"

section \<open>Reading into strings up to a delimiter\<close>

text \<open>Both overloads of \<open>readUntil\<close>: \<open>found\<close> is the result of the search, \<open>skip\<close> the length of the
  delimiter, \<open>miss\<close> what becomes of the string when there is none.\<close>

definition readUntil_at :: "u32 \<Rightarrow> u32 \<Rightarrow> srl_str res \<Rightarrow> srl_str \<Rightarrow> bbuf \<Rightarrow> (u32 \<times> srl_str \<times> bbuf) res" where
  "readUntil_at found skip miss buf b = (let start_pos = b_pos b in
     if \<not> found <s 0 then
       (let end_pos = found + skip; len = end_pos - start_pos in
        bindR (blk_ptr (bb_mem b) (unat start_pos)) (\<lambda>m.
        bindR (str_copy m len buf) (\<lambda>buf. Inr (len, buf, b\<lparr>b_pos := end_pos\<rparr>))))
     else bindR miss (\<lambda>buf. Inr (0, buf, b)))"

definition bb_readUntil_chr :: "srl_str \<Rightarrow> u8 \<Rightarrow> bbuf \<Rightarrow> (u32 \<times> srl_str \<times> bbuf) res" where
  "bb_readUntil_chr buf c b = bindR (bb_find_byte c b) (\<lambda>pos. readUntil_at pos 1 (str_clear buf) buf b)"

definition bb_readUntil_str :: "srl_str \<Rightarrow> srl_str \<Rightarrow> bbuf \<Rightarrow> (u32 \<times> srl_str \<times> bbuf) res" where
  "bb_readUntil_str buf str b = bindR (bb_find_str str b) (\<lambda>pos.
     readUntil_at pos (s_string_length str) (str_resize 0 buf) buf b)"

section \<open>Writing and reading bytes\<close>

definition bb_writeData :: "u8 list \<Rightarrow> u32 \<Rightarrow> u32 \<Rightarrow> bbuf \<Rightarrow> (u32 \<times> bbuf) res" where
  "bb_writeData obj objsize arrysize b = (let write_size = objsize * arrysize in
     bindR (if b_size b \<le> write_size + b_pos b then bb_resize (write_size + b_pos b) b else Inr b) (\<lambda>b.
     bindR (blk_slice obj 0 (unat write_size)) (\<lambda>xs.
     bindR (blk_put (b_buffer b) (unat (b_pos b)) xs) (\<lambda>m.
     (let pos = b_pos b + write_size in
      bindR (blk_write m (unat pos) 0) (\<lambda>m.
      Inr (write_size, b\<lparr>b_buffer := m, b_pos := pos, b_length := pos\<rparr>)))))))"

text \<open>The bytes that \<open>read\<close> copies to the memory of its caller, with the count it returns.\<close>

definition bb_read :: "u32 \<Rightarrow> u32 \<Rightarrow> bbuf \<Rightarrow> (u8 list \<times> u32 \<times> bbuf) res" where
  "bb_read objsize arrysize b = (let read_size = objsize * arrysize in
     if b_length b \<le> read_size + b_pos b then Inl bounds_error
     else bindR (blk_slice (bb_mem b) (unat (b_pos b)) (unat read_size)) (\<lambda>xs.
       Inr (xs, read_size, b\<lparr>b_pos := b_pos b + read_size\<rparr>)))"

definition bb_read_byte :: "bbuf \<Rightarrow> (u8 \<times> bbuf) res" where
  "bb_read_byte b = bindR (blk_read (bb_mem b) (unat (b_pos b))) (\<lambda>c. Inr (c, b\<lparr>b_pos := b_pos b + 1\<rparr>))"

section \<open>Integers as bytes\<close>

text \<open>The object representation of an integer of \<open>n\<close> bytes on the little-endian target, of
  which \<open>memcpy\<close> sees the bytes. A \<open>float\<close> is its bit pattern, \<open>bool\<close> one byte.\<close>

definition le_bytes :: "nat \<Rightarrow> 'a::len word \<Rightarrow> u8 list" where
  "le_bytes n w = map (\<lambda>i. ucast (drop_bit (8 * i) w)) [0..<n]"

fun of_le :: "u8 list \<Rightarrow> 'a::len word" where
  "of_le [] = 0"
| "of_le (c # cs) = ucast c OR push_bit 8 (of_le cs)"

definition chunks :: "nat \<Rightarrow> nat \<Rightarrow> u8 list \<Rightarrow> u8 list list" where
  "chunks n k xs = map (\<lambda>i. take n (drop (n * i) xs)) [0..<k]"

section \<open>\<open>BinaryWriter\<close>\<close>

text \<open>The class leaves \<open>writeData\<close> to its subclasses: it is the first argument \<open>wd\<close> of every
  function. Each returns the number of bytes written.\<close>

type_synonym 's writer = "u8 list \<Rightarrow> u32 \<Rightarrow> u32 \<Rightarrow> 's \<Rightarrow> (u32 \<times> 's) res"

definition bw_array :: "nat \<Rightarrow> 's writer \<Rightarrow> 'a::len word list \<Rightarrow> u32 \<Rightarrow> 's \<Rightarrow> (u32 \<times> 's) res" where
  "bw_array n wd obj arrysize s = wd (concat (map (le_bytes n) obj)) (of_nat n) arrysize s"

definition bw_bytes :: "'s writer \<Rightarrow> u8 list \<Rightarrow> u32 \<Rightarrow> 's \<Rightarrow> (u32 \<times> 's) res" where
  "bw_bytes wd obj arrysize s = wd obj 1 arrysize s"

definition bw_int16 :: "'s writer \<Rightarrow> u16 list \<Rightarrow> u32 \<Rightarrow> 's \<Rightarrow> (u32 \<times> 's) res" where
  "bw_int16 wd obj arrysize s = bw_array 2 wd obj arrysize s"

definition bw_int32 :: "'s writer \<Rightarrow> u32 list \<Rightarrow> u32 \<Rightarrow> 's \<Rightarrow> (u32 \<times> 's) res" where
  "bw_int32 wd obj arrysize s = bw_array 4 wd obj arrysize s"

definition bw_int64 :: "'s writer \<Rightarrow> u64 list \<Rightarrow> u32 \<Rightarrow> 's \<Rightarrow> (u32 \<times> 's) res" where
  "bw_int64 wd obj arrysize s = bw_array 8 wd obj arrysize s"

definition bw_uint16 :: "'s writer \<Rightarrow> u16 list \<Rightarrow> u32 \<Rightarrow> 's \<Rightarrow> (u32 \<times> 's) res" where
  "bw_uint16 wd obj arrysize s = bw_array 2 wd obj arrysize s"

definition bw_uint32 :: "'s writer \<Rightarrow> u32 list \<Rightarrow> u32 \<Rightarrow> 's \<Rightarrow> (u32 \<times> 's) res" where
  "bw_uint32 wd obj arrysize s = bw_array 4 wd obj arrysize s"

definition bw_uint64 :: "'s writer \<Rightarrow> u64 list \<Rightarrow> u32 \<Rightarrow> 's \<Rightarrow> (u32 \<times> 's) res" where
  "bw_uint64 wd obj arrysize s = bw_array 8 wd obj arrysize s"

definition bw_float32 :: "'s writer \<Rightarrow> u32 list \<Rightarrow> u32 \<Rightarrow> 's \<Rightarrow> (u32 \<times> 's) res" where
  "bw_float32 wd obj arrysize s = bw_array 4 wd obj arrysize s"

definition bw_float64 :: "'s writer \<Rightarrow> u64 list \<Rightarrow> u32 \<Rightarrow> 's \<Rightarrow> (u32 \<times> 's) res" where
  "bw_float64 wd obj arrysize s = bw_array 8 wd obj arrysize s"

definition bw_bool :: "'s writer \<Rightarrow> u8 list \<Rightarrow> u32 \<Rightarrow> 's \<Rightarrow> (u32 \<times> 's) res" where
  "bw_bool wd obj arrysize s = bw_array 1 wd obj arrysize s"

definition bw_byte :: "'s writer \<Rightarrow> u8 \<Rightarrow> 's \<Rightarrow> (u32 \<times> 's) res" where
  "bw_byte wd b s = wd [b] 1 1 s"

definition bw_cstr :: "'s writer \<Rightarrow> u8 list \<Rightarrow> bool \<Rightarrow> 's \<Rightarrow> (u32 \<times> 's) res" where
  "bw_cstr wd str writeLength s = bindR (c_strlen str) (\<lambda>n. let sz = (of_nat n :: u32) in
     bindR (if writeLength then wd (le_bytes 4 sz) 4 1 s else Inr (0, s)) (\<lambda>(count, s).
     bindR (wd str 1 sz s) (\<lambda>(count', s). Inr (count + count', s))))"

definition bw_str :: "'s writer \<Rightarrow> srl_str \<Rightarrow> bool \<Rightarrow> 's \<Rightarrow> (u32 \<times> 's) res" where
  "bw_str wd str writeLength s = bw_cstr wd (str_mem str) writeLength s"

section \<open>\<open>BinaryReader\<close>\<close>

text \<open>Likewise \<open>rd\<close> is the virtual \<open>read\<close>, which yields the bytes it copies out.\<close>

type_synonym 's reader = "u32 \<Rightarrow> u32 \<Rightarrow> 's \<Rightarrow> (u8 list \<times> u32 \<times> 's) res"

definition br_array :: "nat \<Rightarrow> 's reader \<Rightarrow> u32 \<Rightarrow> 's \<Rightarrow> ('a::len word list \<times> u32 \<times> 's) res" where
  "br_array n rd arrysize s = bindR (rd (of_nat n) arrysize s) (\<lambda>(xs, count, s).
     Inr (map of_le (chunks n (unat arrysize) xs), count, s))"

definition br_bytes :: "'s reader \<Rightarrow> u32 \<Rightarrow> 's \<Rightarrow> (u8 list \<times> u32 \<times> 's) res" where
  "br_bytes rd arrysize s = rd 1 arrysize s"

definition br_int16 :: "'s reader \<Rightarrow> u32 \<Rightarrow> 's \<Rightarrow> (u16 list \<times> u32 \<times> 's) res" where
  "br_int16 rd arrysize s = br_array 2 rd arrysize s"

definition br_int32 :: "'s reader \<Rightarrow> u32 \<Rightarrow> 's \<Rightarrow> (u32 list \<times> u32 \<times> 's) res" where
  "br_int32 rd arrysize s = br_array 4 rd arrysize s"

definition br_int64 :: "'s reader \<Rightarrow> u32 \<Rightarrow> 's \<Rightarrow> (u64 list \<times> u32 \<times> 's) res" where
  "br_int64 rd arrysize s = br_array 8 rd arrysize s"

definition br_uint16 :: "'s reader \<Rightarrow> u32 \<Rightarrow> 's \<Rightarrow> (u16 list \<times> u32 \<times> 's) res" where
  "br_uint16 rd arrysize s = br_array 2 rd arrysize s"

definition br_uint32 :: "'s reader \<Rightarrow> u32 \<Rightarrow> 's \<Rightarrow> (u32 list \<times> u32 \<times> 's) res" where
  "br_uint32 rd arrysize s = br_array 4 rd arrysize s"

definition br_uint64 :: "'s reader \<Rightarrow> u32 \<Rightarrow> 's \<Rightarrow> (u64 list \<times> u32 \<times> 's) res" where
  "br_uint64 rd arrysize s = br_array 8 rd arrysize s"

definition br_float32 :: "'s reader \<Rightarrow> u32 \<Rightarrow> 's \<Rightarrow> (u32 list \<times> u32 \<times> 's) res" where
  "br_float32 rd arrysize s = br_array 4 rd arrysize s"

definition br_float64 :: "'s reader \<Rightarrow> u32 \<Rightarrow> 's \<Rightarrow> (u64 list \<times> u32 \<times> 's) res" where
  "br_float64 rd arrysize s = br_array 8 rd arrysize s"

definition br_bool :: "'s reader \<Rightarrow> u32 \<Rightarrow> 's \<Rightarrow> (u8 list \<times> u32 \<times> 's) res" where
  "br_bool rd arrysize s = br_array 1 rd arrysize s"

text \<open>The length of a string field: given, or read from the stream first.\<close>

definition field_size :: "'s reader \<Rightarrow> u32 \<Rightarrow> 's \<Rightarrow> (u32 \<times> u32 \<times> 's) res" where
  "field_size rd arrysize s = (if arrysize = 0 then
       bindR (rd 4 1 s) (\<lambda>(xs, count, s). Inr (of_le xs, count, s))
     else Inr (arrysize, 0, s))"

definition br_cstr :: "'s reader \<Rightarrow> u8 list \<Rightarrow> u32 \<Rightarrow> 's \<Rightarrow> (u8 list \<times> u32 \<times> 's) res" where
  "br_cstr rd str arrysize s = bindR (field_size rd arrysize s) (\<lambda>(strsize, count, s).
     if 0 < strsize \<and> strsize < 512 then
       bindR (rd 1 strsize s) (\<lambda>(xs, count', s).
       bindR (blk_put str 0 xs) (\<lambda>str.
       bindR (blk_write str (unat strsize) 0) (\<lambda>str. Inr (str, count + count', s))))
     else bindR (blk_write str 0 0) (\<lambda>str. Inr (str, count, s)))"

definition br_string :: "'s reader \<Rightarrow> srl_str \<Rightarrow> u32 \<Rightarrow> 's \<Rightarrow> (srl_str \<times> u32 \<times> 's) res" where
  "br_string rd str arrysize s = bindR (field_size rd arrysize s) (\<lambda>(strsize, count, s).
     if 0 < strsize then
       bindR (str_resize strsize str) (\<lambda>str.
       bindR (rd 1 strsize s) (\<lambda>(xs, count', s).
       bindR (blk_put (s_str str) 0 xs) (\<lambda>m.
       bindR (blk_write m (unat strsize) 0) (\<lambda>m. Inr (str\<lparr>s_str := m\<rparr>, count + count', s)))))
     else bindR (str_clear str) (\<lambda>str. Inr (str, count, s)))"

text \<open>\<open>ByteBuffer::read(String&)\<close> repeats the code of its base class.\<close>

definition bb_read_string :: "srl_str \<Rightarrow> u32 \<Rightarrow> bbuf \<Rightarrow> (srl_str \<times> u32 \<times> bbuf) res" where
  "bb_read_string str arrysize b = br_string bb_read str arrysize b"

section \<open>Serialisation of a buffer\<close>

definition bb_serialize :: "'s writer \<Rightarrow> bbuf \<Rightarrow> 's \<Rightarrow> (u32 \<times> 's) res" where
  "bb_serialize wd b s = bindR (bw_uint32 wd [b_length b] 1 s) (\<lambda>(counter, s).
     bindR (bw_bytes wd (bb_mem b) (b_length b) s) (\<lambda>(n, s). Inr (counter + n, s)))"

definition bb_deserialize :: "'s reader \<Rightarrow> bbuf \<Rightarrow> 's \<Rightarrow> (u32 \<times> bbuf \<times> 's) res" where
  "bb_deserialize rd b s = bindR (br_uint32 rd 1 s) (\<lambda>(lens, counter, s).
     bindR (blk_read lens 0) (\<lambda>len.
     bindR (bb_resize len (b\<lparr>b_length := len\<rparr>)) (\<lambda>b.
     bindR (br_bytes rd (b_length b) s) (\<lambda>(xs, n, s).
     bindR (blk_put (b_buffer b) 0 xs) (\<lambda>m. Inr (counter + n, b\<lparr>b_buffer := m\<rparr>, s))))))"

end
