(* ===== verification/Buf_Props.thy ===== *)
theory Buf_Props
  imports Buf Str_Wf
begin

text \<open>
  The properties of \<open>ByteBuffer\<close>: allocation keeps the bytes, writes append, reads return
  what was written but never the last field, and the compaction, search and serialisation.
\<close>

section \<open>Allocation\<close>

definition bb_wf :: "bbuf \<Rightarrow> bool" where
  "bb_wf b \<longleftrightarrow> length (b_buffer b) = unat (b_size b) \<and> 16 dvd unat (b_size b)"

lemma take_write: "k \<le> i \<Longrightarrow> take k (m[i := c]) = take k m"
  by (simp add: take_update_cancel)

lemma bb_target:
  assumes "unat n + 16 < 2 ^ 32"
  shows "unat (ROUNDUP (n + 1) 16) = 16 * ((unat n + 16) div 16)" "unat n < unat (ROUNDUP (n + 1) 16)"
    "unat (ROUNDUP (n + 1) 16 - 1) = unat (ROUNDUP (n + 1) 16) - 1"
proof -
  have n1: "unat (n + 1) = unat n + 1" using unat_plus_small [of n 1] assms by simp
  then show 1: "unat (ROUNDUP (n + 1) 16) = 16 * ((unat n + 16) div 16)"
    using unat_ROUNDUP_16 [of "n + 1"] assms by (simp add: algebra_simps)
  then show 2: "unat n < unat (ROUNDUP (n + 1) 16)" by linarith
  then have "1 \<le> ROUNDUP (n + 1) 16" by (simp add: word_le_nat_alt)
  then show "unat (ROUNDUP (n + 1) 16 - 1) = unat (ROUNDUP (n + 1) 16) - 1" by (simp add: unat_sub)
qed

lemma bb_resize_ok:
  assumes w: "bb_wf b" and n: "0 < n" "unat n + 16 < 2 ^ 32"
  shows "\<exists>b'. bb_resize n b = Inr b' \<and> bb_wf b' \<and> b_pos b' = b_pos b \<and> b_length b' = b_length b
    \<and> unat n < unat (b_size b')
    \<and> (\<forall>k. k \<le> unat n \<longrightarrow> k \<le> length (b_buffer b) \<longrightarrow> take k (b_buffer b') = take k (b_buffer b))"
proof -
  let ?r = "ROUNDUP (n + 1) 16"
  note t = bb_target [OF n(2)]
  have r0: "0 < ?r" using t(2) by (simp add: word_less_nat_alt)
  let ?m = "(if ?r = b_size b then b_buffer b else blk_realloc (b_buffer b) (unat ?r))[unat (?r - 1) := 0]"
  let ?b = "b\<lparr>b_buffer := ?m, b_size := ?r\<rparr>"
  have "bb_resize n b = Inr ?b"
    using n(1) r0 t w by (auto simp: bb_resize_def Let_def bb_wf_def blk_write_def)
  moreover have "length ?m = unat ?r" using w by (simp add: bb_wf_def)
  then have "bb_wf ?b" using t(1) by (simp add: bb_wf_def)
  moreover have "take k ?m = take k (b_buffer b)" if "k \<le> unat n" "k \<le> length (b_buffer b)" for k
    using that t(2,3) by (simp add: take_write)
  ultimately show ?thesis using t(2) by (intro exI [of _ ?b]) auto
qed

section \<open>Appending as an interface\<close>

locale byte_sink =
  fixes ok :: "'s \<Rightarrow> bool" and out :: "'s \<Rightarrow> u8 list" and room :: "nat \<Rightarrow> 's \<Rightarrow> bool" and wd :: "'s writer"
  assumes wd_appends: "ok s \<Longrightarrow> room (unat (n * k) + m) s \<Longrightarrow> unat (n * k) \<le> length obj \<Longrightarrow>
    \<exists>s'. wd obj n k s = Inr (n * k, s') \<and> ok s' \<and> out s' = out s @ take (unat (n * k)) obj \<and> room m s'"
    and room_less: "room (m + j) s \<Longrightarrow> room m s"
begin

lemma word_appends:
  assumes "ok s" "room (4 + m) s"
  shows "\<exists>s'. bw_uint32 wd [w] 1 s = Inr (4, s') \<and> ok s' \<and> out s' = out s @ le_bytes 4 w \<and> room m s'"
  using wd_appends [of s 4 1 m "le_bytes 4 w"] assms by (simp add: bw_uint32_def bw_array_def le_bytes_def)

lemma cstr_appends:
  assumes "ok s" "holds_cstr str xs" "length xs < 2 ^ 31" "room (4 + length xs) s"
  shows "\<exists>s'. bw_cstr wd str True s = Inr (4 + of_nat (length xs), s') \<and> ok s'
    \<and> out s' = out s @ le_bytes 4 (of_nat (length xs) :: u32) @ xs"
proof -
  let ?n = "of_nat (length xs) :: u32"
  have n: "unat ?n = length xs" using assms(3) by simp
  obtain s1 where 1: "wd (le_bytes 4 ?n) 4 1 s = Inr (4, s1)" "ok s1" "out s1 = out s @ le_bytes 4 ?n" "room (length xs) s1"
    using wd_appends [of s 4 1 "length xs" "le_bytes 4 ?n"] assms(1,4) by (auto simp: le_bytes_def)
  have "take (length xs) str = xs" "length xs \<le> length str" using assms(2) by (auto simp: holds_cstr_def)
  then obtain s2 where "wd str 1 ?n s1 = Inr (?n, s2)" "ok s2" "out s2 = out s1 @ xs"
    using wd_appends [of s1 1 ?n 0 str] 1(2,4) n by auto
  then show ?thesis using 1 c_strlen_cstr [OF assms(2)] by (simp add: bw_cstr_def)
qed

lemma serialize_appends:
  assumes "ok s" "unat (b_length b) \<le> length (bb_mem b)" "room (4 + unat (b_length b)) s"
  shows "\<exists>s'. bb_serialize wd b s = Inr (4 + b_length b, s') \<and> ok s'
    \<and> out s' = out s @ le_bytes 4 (b_length b) @ take (unat (b_length b)) (bb_mem b)"
proof -
  obtain s1 where 1: "bw_uint32 wd [b_length b] 1 s = Inr (4, s1)" "ok s1" "out s1 = out s @ le_bytes 4 (b_length b)"
    "room (unat (b_length b)) s1" using word_appends [OF assms(1), of "unat (b_length b)"] assms(3) by blast
  then obtain s2 where "wd (bb_mem b) 1 (b_length b) s1 = Inr (b_length b, s2)" "ok s2"
    "out s2 = out s1 @ take (unat (b_length b)) (bb_mem b)"
    using wd_appends [of s1 1 "b_length b" 0 "bb_mem b"] assms(2) by auto
  then show ?thesis using 1 by (simp add: bb_serialize_def bw_bytes_def)
qed

end

text \<open>A byte buffer whose position is at the end of its data is such a sink.\<close>

definition bb_data :: "bbuf \<Rightarrow> u8 list" where
  "bb_data b = take (unat (b_length b)) (b_buffer b)"

definition bb_ready :: "bbuf \<Rightarrow> bool" where
  "bb_ready b \<longleftrightarrow> bb_wf b \<and> b_pos b = b_length b \<and> b_pos b < b_size b"

definition bb_room :: "nat \<Rightarrow> bbuf \<Rightarrow> bool" where
  "bb_room n b \<longleftrightarrow> unat (b_pos b) + n + 16 < 2 ^ 32"

lemma bb_writeData_ok:
  assumes w: "bb_wf b" "b_pos b < b_size b" and n: "unat (b_pos b) + unat (n * k) + 16 < 2 ^ 32"
    and o: "unat (n * k) \<le> length obj"
  shows "\<exists>b'. bb_writeData obj n k b = Inr (n * k, b') \<and> bb_wf b' \<and> b_length b' = b_pos b'
    \<and> unat (b_pos b') = unat (b_pos b) + unat (n * k) \<and> b_pos b' < b_size b'
    \<and> bb_data b' = take (unat (b_pos b)) (b_buffer b) @ take (unat (n * k)) obj"
proof -
  define ws where "ws = n * k"
  have pl: "unat (b_pos b) \<le> length (b_buffer b)" using w by (simp add: bb_wf_def word_less_nat_alt)
  have s: "unat (b_pos b) + unat ws < 2 ^ LENGTH(32)" "unat ws + unat (b_pos b) < 2 ^ LENGTH(32)" using n by (simp_all add: ws_def)
  have e: "unat (ws + b_pos b) = unat (b_pos b) + unat ws" "unat (b_pos b + ws) = unat (b_pos b) + unat ws"
    using unat_plus_small [OF s(1)] unat_plus_small [OF s(2)] by (simp_all add: add.commute)
  note n = n [folded ws_def] and o = o [folded ws_def]
  have "\<exists>b1. (if b_size b \<le> ws + b_pos b then bb_resize (ws + b_pos b) b else Inr b) = Inr b1 \<and> bb_wf b1
    \<and> b_pos b1 = b_pos b \<and> unat (b_pos b) + unat ws < length (b_buffer b1)
    \<and> take (unat (b_pos b)) (b_buffer b1) = take (unat (b_pos b)) (b_buffer b)"
  proof (cases "b_size b \<le> ws + b_pos b")
    case True
    have "0 < b_size b" using w(2) by (simp add: word_less_nat_alt)
    then have "0 < ws + b_pos b" using True by (simp add: word_less_nat_alt word_le_nat_alt)
    moreover have "unat (b_pos b) \<le> length (b_buffer b)" using w by (simp add: bb_wf_def word_less_nat_alt)
    moreover have "unat (b_pos b) \<le> unat (ws + b_pos b)" using e by simp
    ultimately obtain b1 where "bb_resize (ws + b_pos b) b = Inr b1" "bb_wf b1" "b_pos b1 = b_pos b"
      "unat (ws + b_pos b) < unat (b_size b1)" "take (unat (b_pos b)) (b_buffer b1) = take (unat (b_pos b)) (b_buffer b)"
      using bb_resize_ok [OF w(1), of "ws + b_pos b"] e n by auto
    then show ?thesis using True e by (auto simp: bb_wf_def)
  next
    case False
    then have "unat (b_pos b) + unat ws < length (b_buffer b)"
      using w(1) e by (simp add: bb_wf_def word_less_nat_alt not_le)
    then show ?thesis using w(1) False by (intro exI [of _ b]) simp
  qed
  then obtain b1 where b1: "(if b_size b \<le> ws + b_pos b then bb_resize (ws + b_pos b) b else Inr b) = Inr b1" "bb_wf b1"
    "b_pos b1 = b_pos b" "unat (b_pos b) + unat ws < length (b_buffer b1)"
    "take (unat (b_pos b)) (b_buffer b1) = take (unat (b_pos b)) (b_buffer b)" by blast
  let ?xs = "take (unat ws) obj"
  have lx: "length ?xs = unat ws" using o by simp
  let ?m = "take (unat (b_pos b)) (b_buffer b1) @ ?xs @ drop (unat (b_pos b) + unat ws) (b_buffer b1)"
  have put: "blk_put (b_buffer b1) (unat (b_pos b)) ?xs = Inr ?m"
    using b1(4) lx by (simp add: blk_put_def)
  have lm: "length ?m = length (b_buffer b1)" using length_blk_put [OF put] .
  let ?b = "b1\<lparr>b_buffer := ?m[unat (b_pos b + ws) := 0], b_pos := b_pos b + ws, b_length := b_pos b + ws\<rparr>"
  have "bb_writeData obj n k b = Inr (ws, ?b)"
    unfolding bb_writeData_def Let_def ws_def [symmetric] b1(1) bindR_simps
    using o b1(3,4) put lm e by (simp add: blk_slice_def blk_write_def del: length_append append_assoc)
  moreover have "bb_wf ?b" using b1(2) lm by (simp add: bb_wf_def)
  moreover have "b_pos ?b < b_size ?b" using b1(2,4) e by (simp add: bb_wf_def word_less_nat_alt)
  moreover have "bb_data ?b = take (unat (b_pos b)) (b_buffer b) @ ?xs"
    using b1(4,5) e lx pl by (simp add: bb_data_def take_write)
  ultimately show ?thesis using e unfolding ws_def [symmetric] by (intro exI [of _ ?b]) simp
qed

interpretation buf: byte_sink bb_ready bb_data bb_room bb_writeData
proof unfold_locales
  fix b m and n k :: u32 and obj :: "u8 list"
  assume "bb_ready b" "bb_room (unat (n * k) + m) b" "unat (n * k) \<le> length obj"
  then show "\<exists>b'. bb_writeData obj n k b = Inr (n * k, b') \<and> bb_ready b'
      \<and> bb_data b' = bb_data b @ take (unat (n * k)) obj \<and> bb_room m b'"
    using bb_writeData_ok [of b n k obj] by (fastforce simp: bb_ready_def bb_room_def bb_data_def)
qed (simp add: bb_room_def)

section \<open>Integers as bytes\<close>

lemma length_le_bytes [simp]: "length (le_bytes n w) = n"
  by (simp add: le_bytes_def)

lemma bit_of_le: "bit (of_le xs :: 'a::len word) i \<longleftrightarrow> i < LENGTH('a) \<and> i div 8 < length xs \<and> bit (xs ! (i div 8)) (i mod 8)"
proof (induction xs arbitrary: i)
  case (Cons c cs)
  show ?case
  proof (cases "i < 8")
    case True
    then show ?thesis by (auto simp: bit_simps)
  next
    case False
    then have "i div 8 = Suc ((i - 8) div 8)" "i mod 8 = (i - 8) mod 8" by (simp_all add: le_div_geq le_mod_geq)
    then show ?thesis using Cons.IH [of "i - 8"] False bit_imp_le_length [of c i] by (auto simp: bit_simps)
  qed
qed simp

lemma of_le_le_bytes: "8 * n = LENGTH('a) \<Longrightarrow> of_le (le_bytes n w) = (w :: 'a::len word)"
proof (rule bit_eqI)
  fix i assume n: "8 * n = LENGTH('a)"
  show "bit (of_le (le_bytes n w) :: 'a word) i \<longleftrightarrow> bit w i"
  proof (cases "i < LENGTH('a)")
    case True
    then have "i div 8 < n" using n by (simp add: less_mult_imp_div_less mult.commute)
    then show ?thesis using True by (simp add: bit_of_le le_bytes_def bit_simps)
  qed (auto simp: bit_of_le dest: bit_imp_le_length)
qed

lemma le_bytes_of_le: "length xs = n \<Longrightarrow> 8 * n = LENGTH('a) \<Longrightarrow> le_bytes n (of_le xs :: 'a::len word) = xs"
proof (rule nth_equalityI)
  fix i assume n: "length xs = n" "8 * n = LENGTH('a)" and "i < length (le_bytes n (of_le xs :: 'a word))"
  then have i: "i < n" by simp
  show "le_bytes n (of_le xs :: 'a word) ! i = xs ! i"
  proof (rule bit_eqI)
    fix j
    have "(8 * i + j) div 8 = i" "(8 * i + j) mod 8 = j" "8 * i + j < LENGTH('a)" if "j < 8" using that i n by auto
    then show "bit (le_bytes n (of_le xs :: 'a word) ! i) j \<longleftrightarrow> bit (xs ! i) j"
      using i n bit_imp_le_length [of "xs ! i" j] by (auto simp: le_bytes_def bit_simps bit_of_le)
  qed
qed simp

section \<open>Reading back\<close>

lemma bb_read_ok:
  assumes w: "bb_wf b" "b_length b < b_size b" and n: "unat (b_pos b) + unat (n * k) < unat (b_length b)"
  shows "bb_read n k b = Inr (take (unat (n * k)) (drop (unat (b_pos b)) (b_buffer b)), n * k, b\<lparr>b_pos := b_pos b + n * k\<rparr>)"
proof -
  define ws where "ws = n * k"
  have "unat ws + unat (b_pos b) < 2 ^ LENGTH(32)" using n unat_lt32 [of "b_length b"] by (simp add: ws_def)
  then have e: "unat (ws + b_pos b) = unat (b_pos b) + unat ws" using unat_plus_small [of ws "b_pos b"] by simp
  have "unat (b_length b) < length (b_buffer b)" using w by (simp add: bb_wf_def word_less_nat_alt)
  moreover from this have "b_buffer b \<noteq> []" by auto
  moreover have "\<not> b_length b \<le> ws + b_pos b" using n e by (simp add: word_le_nat_alt ws_def)
  ultimately show ?thesis unfolding bb_read_def Let_def ws_def [symmetric]
    using n [folded ws_def] by (simp add: bb_mem_def blk_slice_def)
qed

lemma bb_read_throws:
  "unat (b_length b) \<le> unat (n * k) + unat (b_pos b) \<Longrightarrow> unat (n * k) + unat (b_pos b) < 2 ^ 32 \<Longrightarrow>
   bb_read n k b = Inl bounds_error"
  unfolding bb_read_def Let_def using unat_plus_small [of "n * k" "b_pos b"] by (simp add: word_le_nat_alt)

lemma length_data: "bb_wf b \<Longrightarrow> b_length b \<le> b_size b \<Longrightarrow> length (bb_data b) = unat (b_length b)"
  by (simp add: bb_data_def bb_wf_def word_le_nat_alt)

lemma ready_length: "bb_ready b \<Longrightarrow> length (bb_data b) = unat (b_length b) \<and> b_length b = b_pos b"
  by (auto simp: bb_ready_def intro: length_data)

lemma bb_ready_bound: "bb_ready b \<Longrightarrow> length (bb_data b) + 16 < 2 ^ 32"
proof -
  assume r: "bb_ready b"
  then have "length (bb_data b) < unat (b_size b)" "16 dvd unat (b_size b)"
    using ready_length [OF r] by (auto simp: bb_ready_def bb_wf_def word_less_nat_alt)
  then show ?thesis using unat_lt32 [of "b_size b"] by (auto elim!: dvdE)
qed

lemma read_field:
  assumes "bb_wf b" "b_length b < b_size b" "b_pos b = 0" "bb_data b = le_bytes 4 w @ xs" "xs \<noteq> []"
  shows "br_uint32 bb_read 1 b = Inr ([w], 4, b\<lparr>b_pos := 4\<rparr>)"
proof -
  have l: "length (bb_data b) = unat (b_length b)"
    using assms(1,2) by (simp add: bb_data_def bb_wf_def word_less_nat_alt)
  then have lx: "unat (b_length b) = 4 + length xs" using assms(4) by simp
  have "take 4 (bb_data b) = take 4 (b_buffer b)" using lx by (simp add: bb_data_def)
  then have t: "take 4 (b_buffer b) = le_bytes 4 w" using assms(4) by simp
  have "bb_read 4 1 b = Inr (le_bytes 4 w, 4, b\<lparr>b_pos := 4\<rparr>)"
    using bb_read_ok [OF assms(1,2), of 4 1] lx assms(3,5) t by (cases xs) auto
  then show ?thesis using of_le_le_bytes [of 4 w] by (simp add: br_uint32_def br_array_def chunks_def)
qed

lemma read_rest:
  assumes "bb_wf b" "b_length b < b_size b" "b_pos b = 0" "bb_data b = le_bytes 4 w @ xs"
  shows "j < length xs \<Longrightarrow> bb_read 1 (of_nat j) (b\<lparr>b_pos := 4\<rparr>) = Inr (take j xs, of_nat j, b\<lparr>b_pos := 4 + of_nat j\<rparr>)"
    "bb_read 1 (of_nat (length xs)) (b\<lparr>b_pos := 4\<rparr>) = Inl bounds_error"
proof -
  have l: "length (bb_data b) = unat (b_length b)"
    using assms(1,2) by (simp add: bb_data_def bb_wf_def word_less_nat_alt)
  then have lx: "unat (b_length b) = 4 + length xs" using assms(4) by simp
  have x: "unat (of_nat j :: u32) = j" if "j \<le> length xs" for j
    using that lx unat_lt32 [of "b_length b"] by simp
  have w: "bb_wf (b\<lparr>b_pos := 4\<rparr>)" using assms(1) by (simp add: bb_wf_def)
  { assume j: "j < length xs"
    have "drop 4 (bb_data b) = xs" using assms(4) by simp
    then have "take j (drop 4 (take (4 + length xs) (b_buffer b))) = take j xs" using lx by (simp add: bb_data_def)
    then have "take j (drop 4 (b_buffer b)) = take j xs" using j by (simp add: drop_take)
    then show "bb_read 1 (of_nat j) (b\<lparr>b_pos := 4\<rparr>) = Inr (take j xs, of_nat j, b\<lparr>b_pos := 4 + of_nat j\<rparr>)"
      using bb_read_ok [OF w, of 1 "of_nat j"] x [of j] j lx assms(2) by simp }
  show "bb_read 1 (of_nat (length xs)) (b\<lparr>b_pos := 4\<rparr>) = Inl bounds_error"
    using bb_read_throws [of "b\<lparr>b_pos := 4\<rparr>" 1 "of_nat (length xs)"] x [of "length xs"] lx unat_lt32 [of "b_length b"] by simp
qed

lemma flip_ready:
  assumes "bb_ready b" "bb_data b = le_bytes 4 w @ xs"
  shows "\<exists>b'. bb_flip b = Inr b' \<and> bb_wf b' \<and> b_length b' < b_size b' \<and> b_pos b' = 0 \<and> bb_data b' = le_bytes 4 w @ xs"
  using assms by (auto simp: bb_flip_def bb_setPosition_def bb_ready_def bb_wf_def bb_data_def)

lemma deserialize_rest:
  assumes b: "bb_wf b" "b_length b < b_size b" "b_pos b = 0" "bb_data b = le_bytes 4 n @ xs"
    and c: "bb_wf c" and n: "0 < n" "unat n + 16 < 2 ^ 32" "unat n \<le> length xs"
  shows "length xs = unat n \<Longrightarrow> bb_deserialize bb_read c b = Inl bounds_error"
    "unat n < length xs \<Longrightarrow> \<exists>c' b'. bb_deserialize bb_read c b = Inr (4 + n, c', b') \<and> b_length c' = n \<and> bb_data c' = take (unat n) xs"
proof -
  have "xs \<noteq> []" using n(1,3) by (auto simp: word_less_nat_alt)
  note field = read_field [OF b this] and rest = read_rest [OF b]
  obtain c1 where c1: "bb_resize n (c\<lparr>b_length := n\<rparr>) = Inr c1" "bb_wf c1" "b_length c1 = n" "unat n < unat (b_size c1)"
    using bb_resize_ok [of "c\<lparr>b_length := n\<rparr>" n] c n by (auto simp: bb_wf_def)
  have e: "(of_nat (unat n) :: u32) = n" by simp
  show "bb_deserialize bb_read c b = Inl bounds_error" if "length xs = unat n"
    using field rest(2) c1 that e by (simp add: bb_deserialize_def blk_read_def br_bytes_def)
  show "\<exists>c' b'. bb_deserialize bb_read c b = Inr (4 + n, c', b') \<and> b_length c' = n \<and> bb_data c' = take (unat n) xs"
    if l: "unat n < length xs"
  proof -
    let ?xs = "take (unat n) xs"
    have "blk_put (b_buffer c1) 0 ?xs = Inr (?xs @ drop (unat n) (b_buffer c1))"
      using c1(2,4) l by (simp add: blk_put_def bb_wf_def)
    then have "bb_deserialize bb_read c b
        = Inr (4 + n, c1\<lparr>b_buffer := ?xs @ drop (unat n) (b_buffer c1)\<rparr>, b\<lparr>b_pos := 4 + n\<rparr>)"
      using field rest(1) [OF l] c1 e by (simp add: bb_deserialize_def blk_read_def br_bytes_def)
    then show ?thesis using c1(3) l by (intro exI) (auto simp: bb_data_def)
  qed
qed

lemma take_of_prefix: "r = take a ys \<Longrightarrow> n \<le> a \<Longrightarrow> take n r = take n ys"
  by (simp add: min_absorb1)

section \<open>Search and compaction\<close>

lemma find_byte_in_ok:
  "n \<le> length m \<Longrightarrow> i \<le> n \<Longrightarrow> find_byte_in m c [i..<n]
     = Inr (if c \<in> set (drop i (take n m)) then of_nat (i + length (takeWhile (\<lambda>x. x \<noteq> c) (drop i (take n m)))) else - 1)"
proof (induction "n - i" arbitrary: i)
  case (Suc d)
  then have "[i..<n] = i # [Suc i..<n]" "drop i (take n m) = m ! i # drop (Suc i) (take n m)"
    by (simp_all add: upt_conv_Cons Cons_nth_drop_Suc [symmetric])
  then show ?case using Suc by (simp add: blk_read_def)
qed simp

lemma bb_find_byte_ok:
  assumes "bb_wf b" "b_length b \<le> b_size b" "b_pos b \<le> b_length b"
  shows "bb_find_byte c b = Inr (let r = drop (unat (b_pos b)) (bb_data b) in
    if c \<in> set r then of_nat (unat (b_pos b) + length (takeWhile (\<lambda>x. x \<noteq> c) r)) else - 1)"
proof (cases "b_buffer b = []")
  case True
  then have "b_length b = 0" "b_pos b = 0" using assms by (auto simp: bb_wf_def word_le_nat_alt unat_eq_zero)
  then show ?thesis using True by (simp add: bb_find_byte_def bb_data_def)
next
  case False
  then have "bb_mem b = b_buffer b" by (simp add: bb_mem_def)
  then show ?thesis using assms find_byte_in_ok [of "unat (b_length b)" "b_buffer b" "unat (b_pos b)" c]
    by (simp add: bb_find_byte_def bb_data_def bb_wf_def word_le_nat_alt Let_def)
qed

lemma bb_moveStart_ok:
  assumes "bb_wf b" "b_length b < b_size b" "b_pos b < b_length b"
  shows "\<exists>b'. bb_moveStart b = Inr b' \<and> bb_ready b' \<and> bb_data b' = drop (unat (b_pos b)) (bb_data b)"
proof -
  let ?p = "unat (b_pos b)" and ?n = "unat (b_length b)" and ?m = "b_buffer b"
  have l: "?n < length ?m" "?p < ?n" using assms by (simp_all add: bb_wf_def word_less_nat_alt)
  have d: "unat (b_length b - b_pos b) = ?n - ?p" using assms(3) by (simp add: unat_sub)
  let ?x = "take (?n - ?p) (drop ?p ?m)"
  let ?b = "b\<lparr>b_buffer := (?x @ drop (?n - ?p) ?m)[?n - ?p := 0], b_length := b_length b - b_pos b, b_pos := b_length b - b_pos b\<rparr>"
  have "0 < b_length b" using assms(3) by (simp add: word_less_nat_alt)
  then have "bb_moveStart b = Inr ?b"
    using l d assms(3) by (simp add: bb_moveStart_def Let_def blk_move_ok blk_write_def)
  moreover have "b_length b - b_pos b < b_size b" using d assms(2) by (simp add: word_less_nat_alt)
  then have "bb_ready ?b" using assms(1) l by (simp add: bb_ready_def bb_wf_def)
  moreover have "bb_data ?b = drop ?p (bb_data b)" using l d by (simp add: bb_data_def drop_take)
  ultimately show ?thesis by blast
qed

section \<open>Properties\<close>

text \<open>
  A 32-bit field and some bytes written into an empty buffer are read back after \<open>flip\<close>: the
  field as written when anything follows it, then any proper prefix of the bytes; but a read that
  ends exactly at the end of the data throws, so the last field of a buffer cannot be read.
\<close>

theorem buffer_fields:
  assumes "bb_ready b" "b_length b = 0" "length xs + 20 < 2 ^ 32"
  shows "\<exists>b1 b2 b3. bw_uint32 bb_writeData [w] 1 b = Inr (4, b1)
    \<and> bw_bytes bb_writeData xs (of_nat (length xs)) b1 = Inr (of_nat (length xs), b2) \<and> bb_flip b2 = Inr b3
    \<and> (if xs = [] then br_uint32 bb_read 1 b3 = Inl bounds_error
       else \<exists>b4. br_uint32 bb_read 1 b3 = Inr ([w], 4, b4)
         \<and> (\<forall>j<length xs. \<exists>b5. br_bytes bb_read (of_nat j) b4 = Inr (take j xs, of_nat j, b5))
         \<and> br_bytes bb_read (of_nat (length xs)) b4 = Inl bounds_error)"
proof -
  let ?n = "of_nat (length xs) :: u32"
  have n: "unat ?n = length xs" using assms(3) by simp
  have d0: "bb_data b = []" using assms(2) by (simp add: bb_data_def)
  obtain b1 where b1: "bw_uint32 bb_writeData [w] 1 b = Inr (4, b1)" "bb_ready b1" "bb_data b1 = le_bytes 4 w"
      "bb_room (length xs) b1"
    using buf.word_appends [OF assms(1), of "length xs" w] assms d0 by (auto simp: bb_room_def bb_ready_def)
  then obtain b2 where b2: "bb_writeData xs 1 ?n b1 = Inr (?n, b2)" "bb_ready b2" "bb_data b2 = le_bytes 4 w @ xs"
    using buf.wd_appends [OF b1(2), of 1 ?n 0 xs] n by auto
  then obtain b3 where f: "bb_flip b2 = Inr b3" and w: "bb_wf b3" "b_length b3 < b_size b3" "b_pos b3 = 0"
      "bb_data b3 = le_bytes 4 w @ xs" using flip_ready [OF b2(2,3)] by blast
  note rest = read_rest [OF w]
  show ?thesis
  proof (cases "xs = []")
    case True
    have "length (bb_data b3) = unat (b_length b3)" using w(1,2) by (simp add: length_data)
    then have "unat (b_length b3) = 4" using w(4) True by simp
    then have "bb_read 4 1 b3 = Inl bounds_error" using bb_read_throws [of b3 4 1] w(3) by simp
    then show ?thesis using b1(1) b2(1) f True by (simp add: bw_bytes_def br_uint32_def br_array_def)
  next
    case False
    then show ?thesis using b1(1) b2(1) f read_field [OF w False] rest by (simp add: bw_bytes_def br_bytes_def)
  qed
qed

text \<open>Constructing with a positive size makes such an empty buffer.\<close>

lemma bb_new_ok: "0 < n \<Longrightarrow> unat n + 16 < 2 ^ 32 \<Longrightarrow> \<exists>b. bb_new n = Inr b \<and> bb_ready b \<and> b_length b = 0"
  using bb_resize_ok [of "\<lparr>b_buffer = [], b_size = 0, b_length = 0, b_pos = 0\<rparr>" n]
  by (auto simp: bb_new_def bb_wf_def bb_ready_def word_less_nat_alt)

theorem buffer_fields_witness:
  "\<exists>b b1 b2 b3 b4. bb_new 8 = Inr b \<and> bw_uint32 bb_writeData [77] 1 b = Inr (4, b1)
    \<and> bw_bytes bb_writeData [1, 2] 2 b1 = Inr (2, b2) \<and> bb_flip b2 = Inr b3 \<and> br_uint32 bb_read 1 b3 = Inr ([77], 4, b4)"
proof -
  obtain b where "bb_new 8 = Inr b" "bb_ready b" "b_length b = 0" using bb_new_ok [of 8] by auto
  then show ?thesis using buffer_fields [of b "[1, 2]" 77] by auto
qed

text \<open>
  C32. A buffer is written as its length and its bytes. Reading them back into any buffer restores
  the bytes when at least one byte follows in the stream, and throws when nothing does.
\<close>

theorem buffer_serialize:
  assumes "bb_ready out" "b_length out = 0" "bb_wf c"
    and "bb_wf b" "0 < b_length b" "b_length b \<le> b_size b" "unat (b_length b) + 21 < 2 ^ 32"
  shows "\<exists>o1 o2 o3 o4 o5 c'. bb_serialize bb_writeData b out = Inr (4 + b_length b, o1)
    \<and> bb_flip o1 = Inr o2 \<and> bb_deserialize bb_read c o2 = Inl bounds_error
    \<and> bw_byte bb_writeData t o1 = Inr (1, o3) \<and> bb_flip o3 = Inr o4
    \<and> bb_deserialize bb_read c o4 = Inr (4 + b_length b, c', o5)
    \<and> b_length c' = b_length b \<and> bb_data c' = bb_data b"
proof -
  let ?n = "unat (b_length b)" and ?w = "le_bytes 4 (b_length b)"
  have l: "?n \<le> length (b_buffer b)" "b_buffer b \<noteq> []"
    using assms(4,5,6) by (auto simp: bb_wf_def word_le_nat_alt word_less_nat_alt)
  then have m: "take ?n (bb_mem b) = bb_data b" "?n \<le> length (bb_mem b)" and ld: "length (bb_data b) = ?n"
    by (simp_all add: bb_mem_def bb_data_def)
  obtain o1 where o1: "bb_serialize bb_writeData b out = Inr (4 + b_length b, o1)" "bb_ready o1" "bb_data o1 = ?w @ bb_data b"
    using buf.serialize_appends [OF assms(1) m(2)] assms m by (auto simp: bb_room_def bb_ready_def bb_data_def)
  have "bb_room 1 o1" using ready_length [OF o1(2)] o1(3) ld assms(7) by (auto simp: bb_room_def)
  then obtain o3 where o3: "bw_byte bb_writeData t o1 = Inr (1, o3)" "bb_ready o3" "bb_data o3 = ?w @ bb_data b @ [t]"
    using buf.wd_appends [OF o1(2), of 1 1 0 "[t]"] o1(3) by (auto simp: bw_byte_def)
  obtain o2 where o2: "bb_flip o1 = Inr o2" "bb_wf o2" "b_length o2 < b_size o2" "b_pos o2 = 0" "bb_data o2 = ?w @ bb_data b"
    using flip_ready [OF o1(2,3)] by blast
  obtain o4 where o4: "bb_flip o3 = Inr o4" "bb_wf o4" "b_length o4 < b_size o4" "b_pos o4 = 0" "bb_data o4 = ?w @ bb_data b @ [t]"
    using flip_ready [OF o3(2,3)] by blast
  have "bb_deserialize bb_read c o2 = Inl bounds_error"
    using deserialize_rest(1) [OF o2(2-5) assms(3,5)] ld assms(7) by simp
  moreover obtain c' o5 where "bb_deserialize bb_read c o4 = Inr (4 + b_length b, c', o5)" "b_length c' = b_length b"
      "bb_data c' = bb_data b"
    using deserialize_rest(2) [OF o4(2-5) assms(3,5)] ld assms(7) by auto
  ultimately show ?thesis using o1(1) o2(1) o3(1) o4(1) by blast
qed

theorem buffer_serialize_witness:
  "\<exists>b out b1 o1 o2. bb_new 4 = Inr b \<and> bb_new 4 = Inr out \<and> bw_byte bb_writeData 9 b = Inr (1, b1)
    \<and> bb_serialize bb_writeData b1 out = Inr (5, o1) \<and> bb_flip o1 = Inr o2 \<and> bb_deserialize bb_read b o2 = Inl bounds_error"
proof -
  obtain b where b: "bb_new 4 = Inr b" "bb_ready b" "b_length b = 0" using bb_new_ok [of 4] by auto
  then have "bb_room 1 b" by (simp add: bb_room_def bb_ready_def)
  then obtain b1 where b1: "bw_byte bb_writeData 9 b = Inr (1, b1)" "bb_ready b1" "bb_data b1 = [9]"
    using buf.wd_appends [OF b(2), of 1 1 0 "[9]"] b(3) by (auto simp: bw_byte_def bb_data_def)
  have "unat (b_length b1) = unat (1 :: u32)" using ready_length [OF b1(2)] b1(3) by simp
  then have "b_length b1 = 1" by (metis word_unat_eq_iff)
  moreover have "bb_wf b1" "b_length b1 \<le> b_size b1" "bb_wf b" using b1(2) b(2) by (auto simp: bb_ready_def)
  ultimately show ?thesis using buffer_serialize [OF b(2,3), of b b1 0] b(1) b1(1) by auto
qed

text \<open>
  \<open>readUntil\<close> of a character returns the unread bytes up to and including its first
  occurrence, with their number, and moves past them; without an occurrence it returns 0, clears
  the string and leaves the buffer as it is.
\<close>

theorem buffer_readUntil:
  assumes "bb_wf b" "b_length b \<le> b_size b" "b_pos b \<le> b_length b" "unat (b_length b) + 16 < 2 ^ 31"
    and "str_wf buf" "r = drop (unat (b_pos b)) (bb_data b)" "line = takeWhile (\<lambda>x. x \<noteq> c) r @ [c]"
  shows "\<exists>buf'. bb_readUntil_chr buf c b = Inr (if c \<in> set r
        then (of_nat (length line), buf', b\<lparr>b_pos := b_pos b + of_nat (length line)\<rparr>) else (0, buf', b))
    \<and> str_wf buf' \<and> content buf' = (if c \<in> set r then line else [])"
proof (cases "c \<in> set r")
  case True
  let ?p = "unat (b_pos b)" and ?k = "length (takeWhile (\<lambda>x. x \<noteq> c) r)"
  have l: "length (bb_data b) \<le> unat (b_length b)" by (simp add: bb_data_def)
  have k: "?k < length r" using True by (rule length_takeWhile_neq)
  then have pk: "?p + ?k < unat (b_length b)" using assms(6) l by simp
  let ?f = "of_nat (?p + ?k) :: u32"
  have f: "bb_find_byte c b = Inr ?f" using bb_find_byte_ok [OF assms(1-3), of c] True assms(6) by (simp add: Let_def)
  have "unat ?f = ?p + ?k" using pk assms(4) by (intro unat_of_nat_small) simp
  then have "\<not> ?f <s 0" unfolding nonneg_i32 using pk assms(4) by linarith
  moreover have len: "?f + 1 - b_pos b = of_nat (Suc ?k)" by simp
  have "r \<noteq> []" using True by auto
  then have ne: "b_buffer b \<noteq> []" using assms(6) by (auto simp: bb_data_def)
  then have ptr: "blk_ptr (bb_mem b) ?p = Inr (drop ?p (b_buffer b))"
    using assms(1-3) by (simp add: bb_mem_def blk_ptr_def bb_wf_def word_le_nat_alt)
  have tk: "take (Suc ?k) (drop ?p (b_buffer b)) = line"
  proof -
    have "take (Suc ?k) r = take ?k r @ [r ! ?k]" using k by (rule take_Suc_conv_app_nth)
    then have tr: "take (Suc ?k) r = line" using assms(7) nth_length_takeWhile [OF k] by (simp add: takeWhile_eq_take [symmetric])
    have rt: "r = take (unat (b_length b) - ?p) (drop ?p (b_buffer b))" using assms(6) by (simp add: bb_data_def drop_take)
    have le: "Suc ?k \<le> unat (b_length b) - ?p" using pk by simp
    show ?thesis by (rule trans [OF take_of_prefix [OF rt le, symmetric] tr])
  qed
  have u: "unat (of_nat (Suc ?k) :: u32) = Suc ?k" using pk assms(4) by (intro unat_of_nat_small) simp
  have "length r \<le> length (drop ?p (b_buffer b))" using assms(6) by (simp add: bb_data_def)
  then obtain buf' where c: "str_copy (drop ?p (b_buffer b)) (of_nat (Suc ?k)) buf = Inr buf'"
    using str_copy_ok [OF str_wf_shape [OF assms(5)], of "of_nat (Suc ?k)"] u pk k assms(4) str_wf_min [OF assms(5)] by fastforce
  then have "str_wf buf' \<and> content buf' = line"
    using str_copy_Inr [OF str_wf_shape [OF assms(5)] c] u tk by simp
  moreover have "bb_readUntil_chr buf c b = Inr (of_nat (Suc ?k), buf', b\<lparr>b_pos := ?f + 1\<rparr>)"
    unfolding bb_readUntil_chr_def f readUntil_at_def Let_def bindR_simps len ptr
    using calculation(1) c by simp
  moreover have "length line = Suc ?k" "?f + 1 = b_pos b + of_nat (Suc ?k)" using assms(7) by simp_all
  ultimately show ?thesis using True by auto
next
  case False
  then have "bb_find_byte c b = Inr (- 1)" using bb_find_byte_ok [OF assms(1-3), of c] assms(6) by (simp add: Let_def)
  moreover have "(- 1 :: u32) <s 0" by simp
  moreover obtain s where "str_resize 0 buf = Inr s" "resized 0 buf s"
    using str_resize_ok [OF str_wf_shape [OF assms(5)], of 0] str_wf_min [OF assms(5)] by auto
  ultimately show ?thesis using False resizedD [of 0 buf s]
    by (auto simp: bb_readUntil_chr_def readUntil_at_def str_clear_def content_def)
qed

theorem buffer_readUntil_witness:
  "\<exists>b b' s. bb_new 4 = Inr b \<and> bw_bytes bb_writeData [5, 10, 7] 3 b = Inr (3, b')
    \<and> bb_readUntil_chr str_empty 10 (b'\<lparr>b_pos := 0\<rparr>) = Inr (2, s, b'\<lparr>b_pos := 2\<rparr>) \<and> content s = [5, 10]"
proof -
  obtain b where b: "bb_new 4 = Inr b" "bb_ready b" "b_length b = 0" using bb_new_ok [of 4] by auto
  then have "bb_room 3 b" by (simp add: bb_room_def bb_ready_def)
  then obtain b' where b': "bw_bytes bb_writeData [5, 10, 7] 3 b = Inr (3, b')" "bb_ready b'" "bb_data b' = [5, 10, 7]"
    using buf.wd_appends [OF b(2), of 1 3 0 "[5, 10, 7]"] b(3) by (auto simp: bw_bytes_def bb_data_def)
  let ?b = "b'\<lparr>b_pos := 0\<rparr>"
  have d: "bb_data ?b = [5, 10, 7]" using b'(3) by (simp add: bb_data_def)
  have "unat (b_length b') = 3" using ready_length [OF b'(2)] b'(3) by auto
  moreover have "b_length b' \<le> b_size b'" using b'(2) by (auto simp: bb_ready_def)
  ultimately show ?thesis using buffer_readUntil [of ?b str_empty _ _ 10, OF _ _ _ _ str_wf_empty refl refl] b(1) b'(1,2) d
    by (auto simp: bb_ready_def bb_wf_def)
qed

text \<open>
  \<open>toggle\<close> to write mode in the middle of the data drops what was read, moves the rest to the
  start and continues behind it: what is written next follows the unread bytes.
\<close>

theorem buffer_toggle:
  assumes "bb_wf b" "b_length b < b_size b" "b_pos b \<le> b_length b" "unat (b_length b) + length xs + 16 < 2 ^ 32"
  shows "\<exists>b1 b2. bb_toggle True b = Inr b1 \<and> bw_bytes bb_writeData xs (of_nat (length xs)) b1 = Inr (of_nat (length xs), b2)
    \<and> bb_ready b2 \<and> bb_data b2 = drop (unat (b_pos b)) (bb_data b) @ xs"
proof -
  have n: "unat (of_nat (length xs) :: u32) = length xs" using assms(4) by simp
  obtain b1 where b1: "bb_toggle True b = Inr b1" "bb_ready b1" "bb_data b1 = drop (unat (b_pos b)) (bb_data b)"
  proof (cases "b_pos b = b_length b")
    case True
    then have "bb_ready (b\<lparr>b_pos := 0, b_length := 0\<rparr>)"
      using assms(1,2) by (auto simp: bb_ready_def bb_wf_def word_less_nat_alt)
    then show thesis using that [of "b\<lparr>b_pos := 0, b_length := 0\<rparr>"] True by (simp add: bb_toggle_def bb_data_def)
  next
    case False
    then have "b_pos b < b_length b" using assms(3) by simp
    then show thesis using bb_moveStart_ok [OF assms(1,2)] that False by (auto simp: bb_toggle_def)
  qed
  have "unat (b_pos b1) = length (bb_data b) - unat (b_pos b)" using ready_length [OF b1(2)] b1(3) by simp
  also have "\<dots> \<le> unat (b_length b)" by (simp add: bb_data_def)
  finally have "unat (b_pos b1) \<le> unat (b_length b)" .
  then have "bb_room (length xs) b1" using assms(4) by (simp add: bb_room_def)
  then obtain b2 where "bb_writeData xs 1 (of_nat (length xs)) b1 = Inr (of_nat (length xs), b2)" "bb_ready b2" "bb_data b2 = bb_data b1 @ xs"
    using buf.wd_appends [OF b1(2), of 1 "of_nat (length xs)" 0 xs] n by auto
  then show ?thesis using b1 by (simp add: bw_bytes_def)
qed

theorem buffer_toggle_witness:
  "\<exists>b b1 b2. bb_new 4 = Inr b \<and> bb_toggle True b = Inr b1 \<and> bw_bytes bb_writeData [3] 1 b1 = Inr (1, b2) \<and> bb_data b2 = [3]"
proof -
  obtain b where b: "bb_new 4 = Inr b" "bb_ready b" "b_length b = 0" using bb_new_ok [of 4] by auto
  then have "bb_wf b" "b_length b < b_size b" "b_pos b \<le> b_length b" "bb_data b = []"
    by (auto simp: bb_ready_def bb_data_def)
  then show ?thesis using buffer_toggle [of b "[3]"] b by auto
qed

text \<open>A buffer constructed with size 0 has no memory; writing nothing to it already stores the
  terminator into the shared empty constant.\<close>

lemma empty_buffer_write_faults: "\<exists>b. bb_new 0 = Inr b \<and> bb_writeData [] 1 0 b = Inl Mem_Fault"
  by (simp add: bb_new_def bb_resize_def bb_writeData_def blk_slice_def blk_put_def blk_write_def)

end
