(* ===== verification/B64.thy ===== *)
theory B64
  imports Buf_Props Text_Interfaces
begin

text \<open>
  \<open>Base64\<close> (src/util/Base64.cpp): the encoder, which appends to a string, the decoder, which
  writes to a \<open>BinaryWriter\<close>, their equivalence with the usual definition of the encoding, and
  the round trip.
\<close>

section \<open>Characters\<close>

definition b64_char :: "u8 \<Rightarrow> u8" where
  "b64_char u = (if u < 26 then chr CHR ''A'' + u
     else if u < 52 then chr CHR ''a'' + (u - 26)
     else if u < 62 then chr CHR ''0'' + (u - 52)
     else if u = 62 then chr CHR ''+''
     else chr CHR ''/'')"

text \<open>The comparisons are those of \<open>char\<close>; both bounds are positive, so a negative character
  fails one of them as its unsigned value does.\<close>

definition in_range :: "char \<Rightarrow> char \<Rightarrow> u8 \<Rightarrow> bool" where
  "in_range lo hi c \<longleftrightarrow> chr lo \<le> c \<and> c \<le> chr hi"

definition b64_val :: "u8 \<Rightarrow> u8" where
  "b64_val c = (if in_range CHR ''A'' CHR ''Z'' c then c - chr CHR ''A''
     else if in_range CHR ''a'' CHR ''z'' c then c - chr CHR ''a'' + 26
     else if in_range CHR ''0'' CHR ''9'' c then c - chr CHR ''0'' + 52
     else if c = chr CHR ''+'' then 62
     else 63)"

definition isBase64 :: "u8 \<Rightarrow> bool" where
  "isBase64 c \<longleftrightarrow> in_range CHR ''A'' CHR ''Z'' c \<or> in_range CHR ''a'' CHR ''z'' c
     \<or> in_range CHR ''0'' CHR ''9'' c \<or> c = chr CHR ''+'' \<or> c = chr CHR ''/'' \<or> c = chr CHR ''=''"

section \<open>The encoder\<close>

text \<open>The four characters of a group; \<open>two\<close> and \<open>three\<close> tell whether its second and third byte
  are within the length.\<close>

definition b64_group :: "u8 \<Rightarrow> u8 \<Rightarrow> u8 \<Rightarrow> bool \<Rightarrow> bool \<Rightarrow> u8 list" where
  "b64_group b1 b2 b3 two three = (let
     b4 = drop_bit 2 b1;
     b5 = push_bit 4 (b1 AND 3) OR drop_bit 4 b2;
     b6 = push_bit 2 (b2 AND 15) OR drop_bit 6 b3;
     b7 = b3 AND 63
   in [b64_char b4, b64_char b5, if two then b64_char b6 else chr CHR ''='', if three then b64_char b7 else chr CHR ''=''])"

fun b64_encode_loop :: "nat \<Rightarrow> u8 list \<Rightarrow> u32 \<Rightarrow> u32 \<Rightarrow> srl_str \<Rightarrow> srl_str res" where
  "b64_encode_loop 0 bytes len i encoded = Inl Out_Of_Fuel"
| "b64_encode_loop (Suc fuel) bytes len i encoded = (if i < len then
       bindR (blk_read bytes (unat i)) (\<lambda>b1.
       bindR (if i + 1 < len then blk_read bytes (unat (i + 1)) else Inr 0) (\<lambda>b2.
       bindR (if i + 2 < len then blk_read bytes (unat (i + 2)) else Inr 0) (\<lambda>b3.
       bindR (push_all str_push (b64_group b1 b2 b3 (i + 1 < len) (i + 2 < len)) encoded)
         (b64_encode_loop fuel bytes len (i + 3)))))
     else Inr encoded)"

definition b64_encode_into :: "nat \<Rightarrow> u8 list \<Rightarrow> u32 \<Rightarrow> srl_str \<Rightarrow> srl_str res" where
  "b64_encode_into fuel bytes len encoded = (let encoded_size = len * 4 div 3 + 4 in
     bindR (str_reserve encoded_size encoded) (b64_encode_loop fuel bytes len 0))"

definition b64_encode_bytes :: "nat \<Rightarrow> u8 list \<Rightarrow> u32 \<Rightarrow> srl_str res" where
  "b64_encode_bytes fuel bytes len = b64_encode_into fuel bytes len str_empty"

definition b64_encode :: "nat \<Rightarrow> srl_str \<Rightarrow> srl_str res" where
  "b64_encode fuel raw = b64_encode_into fuel (str_mem raw) (s_string_length raw) str_empty"

section \<open>The decoder\<close>

text \<open>The first loop collects the valid characters; nothing uses the result.\<close>

fun b64_filter :: "srl_str \<Rightarrow> nat list \<Rightarrow> srl_str \<Rightarrow> srl_str res" where
  "b64_filter src [] encoded = Inr encoded"
| "b64_filter src (k # ks) encoded = bindR (blk_read (str_mem src) k) (\<lambda>c.
     bindR (if isBase64 c then str_push c encoded else Inr encoded) (b64_filter src ks))"

definition b64_decode_step :: "'s writer \<Rightarrow> u8 list \<Rightarrow> u32 \<Rightarrow> u32 \<Rightarrow> 's \<Rightarrow> 's res" where
  "b64_decode_step wd buf src_len i s =
     bindR (blk_read buf (unat i)) (\<lambda>c1.
     bindR (if i + 1 < src_len then blk_read buf (unat (i + 1)) else Inr (chr CHR ''A'')) (\<lambda>c2.
     bindR (if i + 2 < src_len then blk_read buf (unat (i + 2)) else Inr (chr CHR ''A'')) (\<lambda>c3.
     bindR (if i + 3 < src_len then blk_read buf (unat (i + 3)) else Inr (chr CHR ''A'')) (\<lambda>c4.
     let b1 = b64_val c1; b2 = b64_val c2; b3 = b64_val c3; b4 = b64_val c4 in
     bindR (bw_byte wd (push_bit 2 b1 OR drop_bit 4 b2) s) (\<lambda>(_, s).
     bindR (if c3 \<noteq> chr CHR ''='' then bw_byte wd (push_bit 4 (b2 AND 15) OR drop_bit 2 b3) s else Inr (0, s)) (\<lambda>(_, s).
     bindR (if c4 \<noteq> chr CHR ''='' then bw_byte wd (push_bit 6 (b3 AND 3) OR b4) s else Inr (0, s)) (\<lambda>(_, s).
     Inr s)))))))"

fun b64_decode_loop :: "nat \<Rightarrow> 's writer \<Rightarrow> u8 list \<Rightarrow> u32 \<Rightarrow> u32 \<Rightarrow> 's \<Rightarrow> 's res" where
  "b64_decode_loop 0 wd buf src_len i s = Inl Out_Of_Fuel"
| "b64_decode_loop (Suc fuel) wd buf src_len i s = (if i < src_len then
       bindR (b64_decode_step wd buf src_len i s) (b64_decode_loop fuel wd buf src_len (i + 4))
     else Inr s)"

definition b64_decode_to :: "nat \<Rightarrow> 's writer \<Rightarrow> srl_str \<Rightarrow> 's \<Rightarrow> 's res" where
  "b64_decode_to fuel wd src s =
     bindR (str_reserve (s_string_length src) str_empty) (\<lambda>encoded.
     bindR (b64_filter src [0..<unat (s_string_length src)] encoded) (\<lambda>_.
     b64_decode_loop fuel wd (str_mem src) (s_string_length src) 0 s))"

definition b64_decode :: "nat \<Rightarrow> srl_str \<Rightarrow> srl_str res" where
  "b64_decode fuel src = bindR (bb_new (s_string_length src)) (\<lambda>buf.
     bindR (b64_decode_to fuel bb_writeData src buf) (\<lambda>buf.
     bindR (bw_byte bb_writeData 0 buf) (\<lambda>(_, buf). str_of_ptr (Some (bb_mem buf)) 0)))"

section \<open>The encoding, as a function on bytes\<close>

fun b64_text :: "u8 list \<Rightarrow> u8 list" where
  "b64_text [] = []"
| "b64_text [a] = b64_group a 0 0 False False"
| "b64_text [a, b] = b64_group a b 0 True False"
| "b64_text (a # b # c # xs) = b64_group a b c True True @ b64_text xs"

text \<open>The reference: a group of up to three bytes is a number below \<open>2 ^ 24\<close>, written with four
  digits to the base 64, of which those without a byte behind them are the sign \<open>=\<close>.\<close>

definition b64_alphabet :: "u8 list" where
  "b64_alphabet = lit ''ABCDEFGHIJKLMNOPQRSTUVWXYZabcdefghijklmnopqrstuvwxyz0123456789+/''"

definition b64_digits :: "nat list \<Rightarrow> u8 list" where
  "b64_digits g = (let n = (\<Sum>i<length g. g ! i * 256 ^ (2 - i)) in
     map (\<lambda>k. if k \<le> length g then b64_alphabet ! (n div 64 ^ (3 - k) mod 64) else chr CHR ''='') [0..<4])"

fun b64_ref :: "nat list \<Rightarrow> u8 list" where
  "b64_ref [] = []"
| "b64_ref [a] = b64_digits [a]"
| "b64_ref [a, b] = b64_digits [a, b]"
| "b64_ref (a # b # c # xs) = b64_digits [a, b, c] @ b64_ref xs"

section \<open>Characters and digits\<close>

lemma all_u8_less: "(\<forall>u < n. P u) \<longleftrightarrow> list_all (\<lambda>i. P (of_nat i)) [0..<unat (n :: u8)]"
proof
  assume l: "list_all (\<lambda>i. P (of_nat i)) [0..<unat n]"
  show "\<forall>u < n. P u"
  proof (intro allI impI)
    fix u :: u8 assume "u < n"
    then have "unat u < unat n" by (simp add: word_less_nat_alt)
    then have "unat u \<in> set [0..<unat n]" by simp
    then have "P (of_nat (unat u))" using l unfolding list_all_iff by blast
    then show "P u" by simp
  qed
next
  assume r: "\<forall>u < n. P u"
  have "P (of_nat i)" if "i < unat n" for i
  proof -
    have "unat n < 2 ^ LENGTH(8)" by (rule unsigned_less)
    then have "unat (of_nat i :: u8) < unat n" using that by (subst unat_of_nat_small) simp_all
    then show ?thesis using r by (simp add: word_less_nat_alt)
  qed
  then show "list_all (\<lambda>i. P (of_nat i)) [0..<unat n]" by (simp add: list_all_iff)
qed

lemma b64_char_facts:
  "u < 64 \<Longrightarrow> b64_char u = b64_alphabet ! unat u \<and> b64_val (b64_char u) = u \<and> isBase64 (b64_char u)
     \<and> b64_char u \<noteq> 0 \<and> b64_char u \<noteq> chr CHR ''=''"
proof -
  have "\<forall>u < (64 :: u8). b64_char u = b64_alphabet ! unat u \<and> b64_val (b64_char u) = u \<and> isBase64 (b64_char u)
     \<and> b64_char u \<noteq> 0 \<and> b64_char u \<noteq> chr CHR ''=''"
    unfolding all_u8_less by code_simp
  then show "u < 64 \<Longrightarrow> ?thesis" by blast
qed

text \<open>The four sextets of three bytes as numbers, and back.\<close>

lemma unat_drop8: "unat (drop_bit k (b :: u8)) = unat b div 2 ^ k"
  unfolding unat_drop_bit_eq by (rule drop_bit_eq_div)

lemma unat_and_mask8: "unat (b AND mask k :: u8) = unat b mod 2 ^ k"
  unfolding take_bit_eq_mask [symmetric] unsigned_take_bit_eq by (rule take_bit_eq_mod)

lemma or_add_nat:
  assumes "n < 2 ^ k"
  shows "push_bit k m OR n = m * 2 ^ k + (n :: nat)"
proof -
  have "take_bit k n = n" using assms by (simp add: take_bit_nat_eq_self)
  then have "\<not> bit (push_bit k m) i \<or> \<not> bit n i" for i
    by (metis bit_push_bit_iff bit_take_bit_iff not_le)
  then have "push_bit k m OR n = push_bit k m + n" by (simp add: disjunctive_add)
  then show ?thesis by (simp add: push_bit_eq_mult)
qed

lemma unat_or8:
  assumes "unat x * 2 ^ k < 256" "unat y < 2 ^ k"
  shows "unat (push_bit k x OR y :: u8) = unat x * 2 ^ k + unat y"
proof -
  have "unat (push_bit k x) = push_bit k (unat x)"
    unfolding unsigned_push_bit_eq using assms(1) by (intro take_bit_nat_eq_self) (simp only: push_bit_eq_mult, simp)
  then show ?thesis using or_add_nat [OF assms(2), of "unat x"] by (simp only: unsigned_or_eq)
qed

definition sextets :: "u8 \<Rightarrow> u8 \<Rightarrow> u8 \<Rightarrow> u8 list" where
  "sextets a b c = [drop_bit 2 a, push_bit 4 (a AND 3) OR drop_bit 4 b, push_bit 2 (b AND 15) OR drop_bit 6 c, c AND 63]"

lemma u8_masks: "(3 :: u8) = mask 2" "(15 :: u8) = mask 4" "(63 :: u8) = mask 6"
  by (simp_all add: mask_eq_exp_minus_1)

lemma unat_u8_256: "unat (b :: u8) < 256"
proof -
  have "unat b < 2 ^ LENGTH(8)" by (rule unsigned_less)
  then show ?thesis by simp
qed

lemma unat_sextets:
  "map unat (sextets a b c) = [unat a div 4, unat a mod 4 * 16 + unat b div 16, unat b mod 16 * 4 + unat c div 64, unat c mod 64]"
proof -
  have "unat (push_bit 4 (a AND 3) OR drop_bit 4 b) = unat (a AND 3) * 2 ^ 4 + unat (drop_bit 4 b)"
    using unat_u8_256 [of b] by (intro unat_or8) (simp_all only: u8_masks unat_and_mask8 unat_drop8, simp_all, linarith?)
  moreover have "unat (push_bit 2 (b AND 15) OR drop_bit 6 c) = unat (b AND 15) * 2 ^ 2 + unat (drop_bit 6 c)"
    using unat_u8_256 [of c] by (intro unat_or8) (simp_all only: u8_masks unat_and_mask8 unat_drop8, simp_all, linarith?)
  ultimately show ?thesis by (simp add: sextets_def) (simp add: u8_masks unat_and_mask8 unat_drop8 del: unat_drop_bit_eq)
qed

lemma sextets_less: "u \<in> set (sextets a b c) \<Longrightarrow> u < 64"
proof -
  assume "u \<in> set (sextets a b c)"
  then have "unat u \<in> set (map unat (sextets a b c))" by simp
  then have "unat u < 64" unfolding unat_sextets using unat_u8_256 [of a] unat_u8_256 [of b] unat_u8_256 [of c] by auto
  then show "u < 64" by (simp add: word_less_nat_alt)
qed

lemma b64_group_sextets:
  "b64_group a b c two three = (case sextets a b c of [w, x, y, z] \<Rightarrow>
     [b64_char w, b64_char x, if two then b64_char y else chr CHR ''='', if three then b64_char z else chr CHR ''=''])"
  by (simp add: b64_group_def sextets_def Let_def)

text \<open>The decoder's three bytes of four sextets.\<close>

definition octets :: "u8 list \<Rightarrow> u8 list" where
  "octets g = [push_bit 2 (g ! 0) OR drop_bit 4 (g ! 1), push_bit 4 (g ! 1 AND 15) OR drop_bit 2 (g ! 2),
     push_bit 6 (g ! 2 AND 3) OR g ! 3]"

lemma octets_sextets: "octets (sextets a b c) = [a, b, c]"
proof -
  have "map unat (octets (sextets a b c)) = map unat [a, b, c]"
  proof -
    obtain w x y z where g: "sextets a b c = [w, x, y, z]" by (simp add: sextets_def)
    then have u: "unat w = unat a div 4" "unat x = unat a mod 4 * 16 + unat b div 16"
        "unat y = unat b mod 16 * 4 + unat c div 64" "unat z = unat c mod 64"
      using unat_sextets [of a b c] by simp_all
    note l = unat_u8_256 [of a] unat_u8_256 [of b] unat_u8_256 [of c]
    have "unat (push_bit 2 w OR drop_bit 4 x) = unat w * 2 ^ 2 + unat (drop_bit 4 x)"
      using u l by (intro unat_or8) (simp_all only: unat_drop8, simp_all)
    moreover have "unat (push_bit 4 (x AND 15) OR drop_bit 2 y) = unat (x AND 15) * 2 ^ 4 + unat (drop_bit 2 y)"
      using u l by (intro unat_or8) (simp_all only: u8_masks unat_and_mask8 unat_drop8, simp_all)
    moreover have "unat (push_bit 6 (y AND 3) OR z) = unat (y AND 3) * 2 ^ 6 + unat z"
      using u l by (intro unat_or8) (simp_all only: u8_masks unat_and_mask8, simp_all)
    moreover have "unat (drop_bit 4 x) = unat a mod 4" "unat (x AND 15) = unat b div 16"
        "unat (drop_bit 2 y) = unat b mod 16" "unat (y AND 3) = unat c div 64"
      using u l unfolding u8_masks unat_and_mask8 unat_drop8 by simp_all
    ultimately show ?thesis using u by (simp add: g octets_def)
  qed
  then show ?thesis by (rule map_injective) (simp add: inj_def word_unat_eq_iff)
qed

section \<open>The reference\<close>

lemma quarter: "q < 4 \<Longrightarrow> 4 * ((w * 4 + q) div 4 mod 16) + (w * 4 + q) mod 4 = 4 * (w mod 16) + (q :: nat)"
  by simp

lemma base64_digits:
  fixes x y z :: nat
  assumes "y < 256" "z < 256" "n = x * 65536 + y * 256 + z"
  shows "n div 262144 = x div 4" "n div 4096 mod 64 = x mod 4 * 16 + y div 16"
    "n div 64 mod 64 = y mod 16 * 4 + z div 64" "n mod 64 = z mod 64"
proof -
  have d8: "n div 256 = x * 256 + y" using assms by simp
  have "n div 262144 = n div 256 div 256 div 4" by (simp add: div_mult2_eq [symmetric])
  also have "\<dots> = x div 4" using assms(1) unfolding d8 by simp
  finally show "n div 262144 = x div 4" .
  have "n div 4096 mod 64 = (x * 256 + y) div 16 mod (16 * 4)"
    unfolding d8 [symmetric] by (simp add: div_mult2_eq [symmetric])
  also have "(x * 256 + y) div 16 = x * 16 + y div 16"
    using div_mult_self3 [of 16 "x * 16" y] by (simp add: mult.assoc)
  also have "\<dots> mod (16 * 4) = 16 * ((x * 16 + y div 16) div 16 mod 4) + (x * 16 + y div 16) mod 16"
    by (rule mod_mult2_eq)
  also have "\<dots> = x mod 4 * 16 + y div 16" using assms(1) by simp
  finally show "n div 4096 mod 64 = x mod 4 * 16 + y div 16" .
  have e: "n div 64 = (x * 256 + y) * 4 + z div 64"
    using div_mult_self3 [of 64 "(x * 256 + y) * 4" z] assms(3) by (simp add: algebra_simps)
  have "n div 64 mod 64 = ((x * 256 + y) * 4 + z div 64) mod (4 * 16)" by (simp add: e)
  also have "\<dots> = 4 * (((x * 256 + y) * 4 + z div 64) div 4 mod 16) + ((x * 256 + y) * 4 + z div 64) mod 4"
    by (rule mod_mult2_eq)
  also have "\<dots> = 4 * ((x * 256 + y) mod 16) + z div 64" using assms(2) by (intro quarter) simp
  also have "(x * 256 + y) mod 16 = y mod 16"
    using mod_mult_self3 [of "x * 16" 16 y] by (simp add: mult.assoc)
  finally show "n div 64 mod 64 = y mod 16 * 4 + z div 64" by simp
  have "n = (x * 1024 + y * 4) * 64 + z" using assms(3) by (simp add: algebra_simps)
  then show "n mod 64 = z mod 64" by (simp only: mod_mult_self3)
qed

lemma b64_digits_eq:
  defines "dg n k \<equiv> b64_alphabet ! (n div 64 ^ k mod 64)"
  shows "b64_digits [x, y, z] = (let n = x * 65536 + y * 256 + z in [dg n 3, dg n 2, dg n 1, dg n 0])"
    "b64_digits [x, y] = (let n = x * 65536 + y * 256 + 0 in [dg n 3, dg n 2, dg n 1, chr CHR ''=''])"
    "b64_digits [x] = (let n = x * 65536 + 0 * 256 + 0 in [dg n 3, dg n 2, chr CHR ''='', chr CHR ''=''])"
proof -
  have r: "[0..<4] = [0, 1, 2, 3]" by (simp add: upt_rec)
  have s: "(\<Sum>i<3. [x, y, z] ! i * 256 ^ (2 - i)) = x * 65536 + y * 256 + z"
      "(\<Sum>i<2. [x, y] ! i * 256 ^ (2 - i)) = x * 65536 + y * 256" "(\<Sum>i<1. [x] ! i * 256 ^ (2 - i)) = x * 65536"
    by (simp_all add: numeral_3_eq_3 numeral_2_eq_2)
  show "b64_digits [x, y, z] = (let n = x * 65536 + y * 256 + z in [dg n 3, dg n 2, dg n 1, dg n 0])"
    unfolding b64_digits_def r dg_def using s(1) by (simp only: Let_def list.size) simp
  show "b64_digits [x, y] = (let n = x * 65536 + y * 256 + 0 in [dg n 3, dg n 2, dg n 1, chr CHR ''=''])"
    unfolding b64_digits_def r dg_def using s(2) by (simp only: Let_def list.size) simp
  show "b64_digits [x] = (let n = x * 65536 + 0 * 256 + 0 in [dg n 3, dg n 2, chr CHR ''='', chr CHR ''=''])"
    unfolding b64_digits_def r dg_def using s(3) by (simp only: Let_def list.size) simp
qed

lemma b64_group_digits: "b64_group a b c True True = b64_digits [unat a, unat b, unat c]"
    "b64_group a b 0 True False = b64_digits [unat a, unat b]" "b64_group a 0 0 False False = b64_digits [unat a]"
proof -
  have dig: "map b64_char (sextets a b c) = map (\<lambda>u. b64_alphabet ! unat u) (sextets a b c)" for a b c
    using b64_char_facts sextets_less by (intro map_cong) auto
  have u: "map b64_char (sextets a b c) = map ((!) b64_alphabet) [unat a div 4, unat a mod 4 * 16 + unat b div 16,
      unat b mod 16 * 4 + unat c div 64, unat c mod 64]" for a b c
    unfolding dig unat_sextets [symmetric] by simp
  have div4: "unat a div 4 mod 64 = unat a div 4" for a :: u8 using unat_u8_256 [of a] by simp
  have g: "map b64_char (sextets a b c) = (let n = unat a * 65536 + unat b * 256 + unat c in
      map (\<lambda>k. b64_alphabet ! (n div 64 ^ k mod 64)) [3, 2, 1, 0])" for a b c
    using base64_digits [OF unat_u8_256 [of b] unat_u8_256 [of c] refl, of "unat a"] div4 by (simp add: u Let_def)
  show "b64_group a b c True True = b64_digits [unat a, unat b, unat c]"
    using g [of a b c] unfolding b64_digits_eq b64_group_sextets Let_def by (simp add: sextets_def)
  show "b64_group a b 0 True False = b64_digits [unat a, unat b]"
    using g [of a b 0] unfolding b64_digits_eq b64_group_sextets Let_def by (simp add: sextets_def)
  show "b64_group a 0 0 False False = b64_digits [unat a]"
    using g [of a 0 0] unfolding b64_digits_eq b64_group_sextets Let_def by (simp add: sextets_def)
qed

lemma b64_text_ref: "b64_text xs = b64_ref (map unat xs)"
  by (induction xs rule: b64_text.induct) (simp_all add: b64_group_digits)

section \<open>The encoder\<close>

lemma b64_group_nonzero: "0 \<notin> set (b64_group a b c two three)"
proof -
  have eq: "(61 :: u8) \<noteq> 0" "chr CHR ''='' = 61" by (simp_all add: chr_def)
  have "b64_char u \<noteq> 0" if "u \<in> set (sextets a b c)" for u
    using b64_char_facts [OF sextets_less [OF that]] by blast
  then show ?thesis by (simp add: b64_group_sextets sextets_def eq)
qed

lemma length_b64_group: "length (b64_group a b c two three) = 4"
  by (simp add: b64_group_def Let_def)

lemma encode_group:
  assumes "str_wf s" "str_room (4 + n) s"
  shows "\<exists>s'. push_all str_push (b64_group a b c two three) s = Inr s' \<and> str_wf s'
    \<and> content s' = content s @ b64_group a b c two three \<and> str_room n s'"
  using str_sink.push_all_appends [OF assms(1) b64_group_nonzero, where n = n] assms(2) by (simp add: length_b64_group)

lemma b64_encode_loop_ok:
  "ahead m len i xs \<Longrightarrow> unat i + length xs + 5 < 2 ^ 32 \<Longrightarrow> length xs < fuel \<Longrightarrow> str_wf s \<Longrightarrow>
   str_room (length (b64_text xs)) s \<Longrightarrow>
   \<exists>s'. b64_encode_loop fuel m len i s = Inr s' \<and> str_wf s' \<and> content s' = content s @ b64_text xs"
proof (induction xs arbitrary: fuel i s rule: b64_text.induct)
  case 1
  then show ?case using cursor_here(1) [OF 1(1)] by (cases fuel) auto
next
  case (2 a)
  note c = cursor [OF 2(1)]
  have at: "i < len" "\<not> i + 1 < len" "\<not> i + 2 < len" "\<not> i + 3 < len" "blk_read m (unat i) = Inr a"
    using c(1,2) [of 0] c(1) [of 1] c(1) [of 2] c(1) [of 3] 2(2) by simp_all
  obtain f where f: "fuel = Suc (Suc f)" using 2(3) by (cases fuel; cases "fuel - 1") auto
  obtain s' where "push_all str_push (b64_group a 0 0 False False) s = Inr s'" "str_wf s'"
      "content s' = content s @ b64_group a 0 0 False False"
    using encode_group [OF 2(4), of 0 a 0 0 False False] 2(5) by (auto simp: length_b64_group)
  then show ?case using at by (simp add: f)
next
  case (3 a b)
  note c = cursor [OF 3(1)]
  have at: "i < len" "i + 1 < len" "\<not> i + 2 < len" "\<not> i + 3 < len" "blk_read m (unat i) = Inr a" "blk_read m (unat (i + 1)) = Inr b"
    using c(1,2) [of 0] c(1,2) [of 1] c(1) [of 2] c(1) [of 3] 3(2) by simp_all
  obtain f where f: "fuel = Suc (Suc f)" using 3(3) by (cases fuel; cases "fuel - 1") auto
  obtain s' where "push_all str_push (b64_group a b 0 True False) s = Inr s'" "str_wf s'"
      "content s' = content s @ b64_group a b 0 True False"
    using encode_group [OF 3(4), of 0 a b 0 True False] 3(5) by (auto simp: length_b64_group)
  then show ?case using at by (simp add: f)
next
  case (4 a b c xs)
  note c = cursor [OF 4(2)]
  have at: "i < len" "i + 1 < len" "i + 2 < len" "blk_read m (unat i) = Inr a" "blk_read m (unat (i + 1)) = Inr b"
      "blk_read m (unat (i + 2)) = Inr c" and x: "ahead m len (i + 3) xs" "unat (i + 3) = unat i + 3"
    using c(1,2) [of 0] c(1,2) [of 1] c(1,2) [of 2] c(3,4) [of 3] 4(3) by simp_all
  obtain f where f: "fuel = Suc f" using 4(4) by (cases fuel) auto
  obtain s' where s': "push_all str_push (b64_group a b c True True) s = Inr s'" "str_wf s'"
      "content s' = content s @ b64_group a b c True True" "str_room (length (b64_text xs)) s'"
    using encode_group [OF 4(5), of "length (b64_text xs)" a b c True True] 4(6) by (auto simp: length_b64_group)
  then obtain s'' where "b64_encode_loop f m len (i + 3) s' = Inr s''" "str_wf s''" "content s'' = content s' @ b64_text xs"
    using 4(1) [OF x(1) _ _ s'(2,4), of f] 4(3,4) f x(2) by auto
  then show ?case using at s' by (simp add: f)
qed

lemma length_b64_text: "length (b64_text xs) = 4 * ((length xs + 2) div 3)"
proof (induction xs rule: b64_text.induct)
  case (4 a b c xs)
  have "(length xs + 5) div 3 = Suc ((length xs + 2) div 3)" by presburger
  then show ?case using 4 by (simp add: length_b64_group add.commute)
qed (simp_all add: length_b64_group)

lemma b64_encode_into_ok:
  assumes "unat len \<le> length m" "4 * unat len + 64 < 2 ^ 32" "unat len < fuel" "str_wf s"
    "unat (s_string_length s) + 4 * unat len + 64 < 2 ^ 32"
  shows "\<exists>s'. b64_encode_into fuel m len s = Inr s' \<and> str_wf s' \<and> content s' = content s @ b64_text (take (unat len) m)"
proof -
  have u: "unat (len * 4) = unat len * 4" using assms(2) by (simp add: unat_word_ariths)
  have "unat (len * 4 div 3 + 4) \<le> unat len * 4 + 4"
    using unat_plus_small [of "len * 4 div 3" 4] u assms(2) by (simp add: unat_div)
  then have b: "max (unat (s_string_length s)) (unat (s_min_size (s\<lparr>s_min_size := len * 4 div 3 + 4\<rparr>))) + 16 < 2 ^ 32"
    using assms(2,5) by simp
  obtain s1 where r: "str_reserve (len * 4 div 3 + 4) s = Inr s1"
      "resized (s_string_length s) (s\<lparr>s_min_size := len * 4 div 3 + 4\<rparr>) s1"
    using str_resize_ok [OF _ b] str_wf_shape [OF assms(4)] by (auto simp: str_reserve_def str_shape_def)
  note d = resizedD [OF r(2)]
  have c: "content s1 = content s"
    using d(2) d(5) [of "unat (s_string_length s)"] str_wf_len [OF assms(4)] by (simp add: content_def)
  have "length (b64_text (take (unat len) m)) \<le> 4 * unat len + 8" by (simp add: length_b64_text)
  then have "str_room (length (b64_text (take (unat len) m))) s1"
    using d b assms(5) by (simp add: str_room_def)
  then show ?thesis
    using b64_encode_loop_ok [OF ahead_start [OF assms(1)] _ _ d(1), of fuel] r(1) c assms(2,3)
    by (auto simp: b64_encode_into_def Let_def)
qed

section \<open>The decoder\<close>

text \<open>What the decoder makes of any text: group by group, a missing character read as \<open>A\<close>.\<close>

definition b64_quad :: "u8 \<Rightarrow> u8 \<Rightarrow> u8 \<Rightarrow> u8 \<Rightarrow> u8 list" where
  "b64_quad c1 c2 c3 c4 = (let b = octets (map b64_val [c1, c2, c3, c4]) in
     [b ! 0] @ (if c3 \<noteq> chr CHR ''='' then [b ! 1] else []) @ (if c4 \<noteq> chr CHR ''='' then [b ! 2] else []))"

definition pad_A :: "u8 list \<Rightarrow> nat \<Rightarrow> u8" where
  "pad_A xs k = (if k < length xs then xs ! k else chr CHR ''A'')"

fun b64_bytes :: "u8 list \<Rightarrow> u8 list" where
  "b64_bytes (c1 # c2 # c3 # c4 # cs) = b64_quad c1 c2 c3 c4 @ b64_bytes cs"
| "b64_bytes [] = []"
| "b64_bytes xs = b64_quad (pad_A xs 0) (pad_A xs 1) (pad_A xs 2) (pad_A xs 3)"

lemma b64_quad_group:
  assumes "three \<longrightarrow> two" "\<not> two \<longrightarrow> b = 0" "\<not> three \<longrightarrow> c = 0" "b64_group a b c two three = [c1, c2, c3, c4]"
  shows "b64_quad c1 c2 c3 c4 = take (if three then 3 else if two then 2 else 1) [a, b, c]"
proof -
  obtain w x y z where g: "sextets a b c = [w, x, y, z]" by (simp add: sextets_def)
  have v: "b64_val (b64_char u) = u" "b64_char u \<noteq> chr CHR ''=''" if "u \<in> {w, x, y, z}" for u
    using b64_char_facts [OF sextets_less [of u a b c]] that g by auto
  have cs: "c1 = b64_char w" "c2 = b64_char x" "c3 = (if two then b64_char y else chr CHR ''='')"
      "c4 = (if three then b64_char z else chr CHR ''='')"
    using assms(4) by (simp_all add: b64_group_sextets g)
  have o: "octets [w, x, y, z] = [a, b, c]" using octets_sextets [of a b c] g by simp
  have o': "octets [w, x, y', z'] ! 0 = a" "octets [w, x, y, z'] ! 1 = b" for y' z'
    using o by (simp_all add: octets_def)
  show ?thesis
    using assms(1) v o o' by (cases two; cases three) (simp_all add: b64_quad_def cs Let_def)
qed

lemma b64_bytes_text: "b64_bytes (b64_text xs) = xs"
proof (induction xs rule: b64_text.induct)
  case (2 a)
  obtain w x y z where g: "b64_group a 0 0 False False = [w, x, y, z]" by (simp add: b64_group_def Let_def)
  then show ?case using b64_quad_group [OF _ _ _ g] by simp
next
  case (3 a b)
  obtain w x y z where g: "b64_group a b 0 True False = [w, x, y, z]" by (simp add: b64_group_def Let_def)
  then show ?case using b64_quad_group [OF _ _ _ g] by simp
next
  case (4 a b c xs)
  obtain w x y z where g: "b64_group a b c True True = [w, x, y, z]" by (simp add: b64_group_def Let_def)
  then show ?case using b64_quad_group [OF _ _ _ g] 4 by simp
qed simp

lemma str_reserve_ok:
  assumes "unat (s_string_length src) + 40 < 2 ^ 32"
  shows "\<exists>e. str_reserve (s_string_length src) str_empty = Inr e \<and> str_wf e \<and> str_room (unat (s_string_length src)) e"
proof -
  let ?e = "str_empty\<lparr>s_min_size := s_string_length src\<rparr>"
  have "str_shape ?e" "s_string_length ?e = 0" by (simp_all add: str_shape_def str_empty_def)
  then obtain e where "str_resize 0 ?e = Inr e" "resized 0 ?e e"
    using str_resize_ok [of ?e 0] assms by auto
  then show ?thesis using assms resizedD [of 0 ?e e] \<open>s_string_length ?e = 0\<close>
    by (auto simp: str_reserve_def str_room_def)
qed

lemma b64_filter_ok:
  "\<forall>k \<in> set ks. k < length (str_mem src) \<Longrightarrow> str_wf e \<Longrightarrow> str_room (length ks) e \<Longrightarrow> \<exists>e'. b64_filter src ks e = Inr e'"
proof (induction ks arbitrary: e)
  case (Cons k ks)
  obtain e1 where "str_push (str_mem src ! k) e = Inr e1" "str_wf e1" "str_room (length ks) e1"
    using str_push_works [of e "length ks" "str_mem src ! k"] Cons.prems str_push_Inr by auto
  moreover have "str_room (length ks) e" using Cons.prems(3) by (auto simp: str_room_def)
  ultimately show ?case using Cons by (auto simp: blk_read_def)
qed simp

context byte_sink begin

lemma byte_appends:
  "ok s \<Longrightarrow> room (1 + m) s \<Longrightarrow> \<exists>s'. bw_byte wd b s = Inr (1, s') \<and> ok s' \<and> out s' = out s @ [b] \<and> room m s'"
  using wd_appends [of s 1 1 m "[b]"] by (simp add: bw_byte_def)

lemma decode_step_appends:
  assumes a: "ahead buf len i xs" "unat i + 3 < 2 ^ 32" "xs \<noteq> []" and s: "ok s" "room (3 + n) s"
  shows "\<exists>s'. b64_decode_step wd buf len i s = Inr s' \<and> ok s'
    \<and> out s' = out s @ b64_quad (pad_A xs 0) (pad_A xs 1) (pad_A xs 2) (pad_A xs 3) \<and> (\<exists>k. room (n + k) s')"
proof -
  have rd: "(if i + of_nat k < len then blk_read buf (unat (i + of_nat k)) else Inr (chr CHR ''A'')) = Inr (pad_A xs k)"
    if "k \<le> 3" for k
    using cursor(1,2) [OF a(1), of k] a(2) that by (simp add: pad_A_def)
  have r0: "blk_read buf (unat i) = Inr (pad_A xs 0)" using cursor_here [OF a(1)] a(3) by (simp add: pad_A_def hd_conv_nth)
  have r: "(if i + 1 < len then blk_read buf (unat (i + 1)) else Inr (chr CHR ''A'')) = Inr (pad_A xs 1)"
    "(if i + 2 < len then blk_read buf (unat (i + 2)) else Inr (chr CHR ''A'')) = Inr (pad_A xs 2)"
    "(if i + 3 < len then blk_read buf (unat (i + 3)) else Inr (chr CHR ''A'')) = Inr (pad_A xs 3)"
    using rd [of 1] rd [of 2] rd [of 3] unfolding of_nat_1 of_nat_numeral by simp_all
  let ?o = "octets (map b64_val [pad_A xs 0, pad_A xs 1, pad_A xs 2, pad_A xs 3])"
  obtain s1 where s1: "bw_byte wd (?o ! 0) s = Inr (1, s1)" "ok s1" "out s1 = out s @ [?o ! 0]" "room (2 + n) s1"
    using byte_appends [OF s(1), of "2 + n"] s(2) by (auto simp: numeral_3_eq_3 numeral_2_eq_2)
  obtain s2 k where s2: "(if pad_A xs 2 \<noteq> chr CHR ''='' then bw_byte wd (?o ! 1) s1 else Inr (0, s1)) = Inr (k, s2)" "ok s2"
      "out s2 = out s1 @ (if pad_A xs 2 \<noteq> chr CHR ''='' then [?o ! 1] else [])" "\<exists>j. room (1 + (n + j)) s2"
  proof (cases "pad_A xs 2 = chr CHR ''=''")
    case True
    have "room (1 + (n + 1)) s1" using s1(4) by simp
    then have "\<exists>j. room (1 + (n + j)) s1" ..
    then show thesis using that [of 0 s1] s1(2) True by simp
  next
    case False
    obtain s2 where "bw_byte wd (?o ! 1) s1 = Inr (1, s2)" "ok s2" "out s2 = out s1 @ [?o ! 1]" "room (1 + n) s2"
      using byte_appends [OF s1(2), of "1 + n"] s1(4) by (auto simp: numeral_2_eq_2)
    moreover from this have "\<exists>j. room (1 + (n + j)) s2" by (intro exI [of _ 0]) simp
    ultimately show thesis using that [of 1 s2] False by simp
  qed
  obtain s3 k' where s3: "(if pad_A xs 3 \<noteq> chr CHR ''='' then bw_byte wd (?o ! 2) s2 else Inr (0, s2)) = Inr (k', s3)" "ok s3"
      "out s3 = out s2 @ (if pad_A xs 3 \<noteq> chr CHR ''='' then [?o ! 2] else [])" "\<exists>j. room (n + j) s3"
  proof (cases "pad_A xs 3 = chr CHR ''=''")
    case True
    obtain j where "room (1 + (n + j)) s2" using s2(4) by auto
    then have "room (n + (1 + j)) s2" by simp
    then have "\<exists>j. room (n + j) s2" ..
    then show thesis using that [of 0 s2] s2(2) True by simp
  next
    case False
    obtain j where "room (1 + (n + j)) s2" using s2(4) by auto
    then obtain s3 where "bw_byte wd (?o ! 2) s2 = Inr (1, s3)" "ok s3" "out s3 = out s2 @ [?o ! 2]" "room (n + j) s3"
      using byte_appends [OF s2(2), of "n + j"] by auto
    then show thesis using that [of 1 s3] False by auto
  qed
  have o: "push_bit 2 (b64_val (pad_A xs 0)) OR drop_bit 4 (b64_val (pad_A xs 1)) = ?o ! 0"
    "push_bit 4 (b64_val (pad_A xs 1) AND 15) OR drop_bit 2 (b64_val (pad_A xs 2)) = ?o ! 1"
    "push_bit 6 (b64_val (pad_A xs 2) AND 3) OR b64_val (pad_A xs 3) = ?o ! 2"
    by (simp_all add: octets_def)
  have "b64_decode_step wd buf len i s = Inr s3"
    unfolding b64_decode_step_def r0 r bindR_simps Let_def o s1(1) s2(1) s3(1) prod.case by (rule refl)
  then show ?thesis using s1(3) s2(3) s3(2-4) by (auto simp: b64_quad_def Let_def)
qed

lemma decode_loop_appends:
  "ahead buf len i xs \<Longrightarrow> unat i + length xs + 5 < 2 ^ 32 \<Longrightarrow> length xs < fuel \<Longrightarrow> ok s \<Longrightarrow> room (length xs + 3 + n) s \<Longrightarrow>
   \<exists>s'. b64_decode_loop fuel wd buf len i s = Inr s' \<and> ok s' \<and> out s' = out s @ b64_bytes xs \<and> room n s'"
proof (induction xs arbitrary: fuel i s rule: length_induct)
  case (1 xs)
  note a = 1(2) and b = 1(3)
  obtain f where f: "fuel = Suc f" using 1(4) by (cases fuel) auto
  show ?case
  proof (cases "xs = []")
    case True
    have "room (n + 3) s" using 1(6) True by (simp add: add.commute)
    then have "room n s" by (rule room_less)
    then show ?thesis using cursor_here [OF a] 1(5) True f by auto
  next
    case False
    have "unat i + 3 < 2 ^ 32" using b by simp
    note st = decode_step_appends [OF a this False 1(5)]
    have "room (3 + (length xs + n)) s" using 1(6) by (simp add: ac_simps)
    then obtain s1 k where s1: "b64_decode_step wd buf len i s = Inr s1" "ok s1"
        "out s1 = out s @ b64_quad (pad_A xs 0) (pad_A xs 1) (pad_A xs 2) (pad_A xs 3)" "room (length xs + n + k) s1"
      using st by blast
    note c = cursor [OF a, of 4]
    have c4: "i + 4 < len \<longleftrightarrow> 4 < length xs" "ahead buf len (i + 4) (drop 4 xs)" "unat (i + 4) = unat i + 4"
      using c b by simp_all
    have i: "i < len" using cursor_here [OF a] False by simp
    show ?thesis
    proof (cases "length xs < 4")
      case True
      then consider c1 where "xs = [c1]" | c1 c2 where "xs = [c1, c2]" | c1 c2 c3 where "xs = [c1, c2, c3]"
        using False by (auto simp: length_Suc_conv less_Suc_eq numeral_eq_Suc)
      then have e: "b64_bytes xs = b64_quad (pad_A xs 0) (pad_A xs 1) (pad_A xs 2) (pad_A xs 3)" by cases simp_all
      obtain f' where "f = Suc f'" using 1(4) f False by (cases f) auto
      moreover have "room n s1" using s1(4) room_less [of n "length xs + k" s1] by (simp add: ac_simps)
      ultimately show ?thesis using s1 i c4(1) True e by (auto simp: f)
    next
      case l: False
      then obtain c1 c2 c3 c4 cs where xs: "xs = c1 # c2 # c3 # c4 # cs"
        by (cases xs rule: b64_bytes.cases) auto
      then have d: "drop 4 xs = cs" "length xs + n + k = length cs + 3 + n + (k + 1)" by simp_all
      have "room (length cs + 3 + n) s1" using s1(4) d(2) room_less by metis
      then obtain s' where "b64_decode_loop f wd buf len (i + 4) s1 = Inr s'" "ok s'" "out s' = out s1 @ b64_bytes cs" "room n s'"
        using 1(1) [rule_format, of cs "i + 4" f s1] c4(2,3) d(1) s1(2) b f 1(4) by (auto simp: xs)
      then show ?thesis using s1(1,3) i by (simp add: f) (simp add: xs pad_A_def)
    qed
  qed
qed

lemma decode_to_appends:
  assumes w: "str_wf src" "unat (s_string_length src) + 40 < 2 ^ 32" and f: "unat (s_string_length src) < fuel"
    and s: "ok s" "room (unat (s_string_length src) + 3 + n) s"
  shows "\<exists>s'. b64_decode_to fuel wd src s = Inr s' \<and> ok s' \<and> out s' = out s @ b64_bytes (content src) \<and> room n s'"
proof -
  let ?n = "unat (s_string_length src)"
  obtain e where e: "str_reserve (s_string_length src) str_empty = Inr e" "str_wf e" "str_room ?n e"
    using str_reserve_ok [of src] w by blast
  obtain e' where "b64_filter src [0..<?n] e = Inr e'"
    using b64_filter_ok [of "[0..<?n]" src e] e str_mem_length [OF w(1)] by auto
  moreover have "ahead (str_mem src) (s_string_length src) 0 (content src)"
    using ahead_start [of "s_string_length src" "str_mem src"] str_mem_length [OF w(1)] str_mem_take [OF w(1)] by simp
  then obtain s' where "b64_decode_loop fuel wd (str_mem src) (s_string_length src) 0 s = Inr s'" "ok s'"
      "out s' = out s @ b64_bytes (content src)" "room n s'"
    using decode_loop_appends [of _ _ 0 "content src" fuel s n] w(2) f s length_content [OF w(1)] by auto
  ultimately show ?thesis using e(1) by (simp add: b64_decode_to_def)
qed

end

section \<open>Properties\<close>

text \<open>
  C33. Encoding computes Base64: the text of the encoded string is the sequence of base-64 digits
  of the groups of three bytes, padded, as the reference definition has it.
\<close>

theorem b64_encode_correct:
  assumes "str_wf raw" "4 * unat (s_string_length raw) + 64 < 2 ^ 32" "unat (s_string_length raw) < fuel"
  shows "\<exists>s. b64_encode fuel raw = Inr s \<and> str_wf s \<and> content s = b64_ref (map unat (content raw))"
proof -
  have l: "unat (s_string_length raw) \<le> length (str_mem raw)" using str_mem_length [OF assms(1)] by simp
  have "unat (s_string_length str_empty) = 0" by (simp add: str_empty_def)
  then show ?thesis
    using b64_encode_into_ok [OF l assms(2,3) str_wf_empty] assms(2) str_mem_take [OF assms(1)]
    by (simp add: b64_encode_def b64_text_ref)
qed

theorem b64_encode_correct_witness:
  "\<exists>raw s. str_of_ptr (Some (c_lit ''Ma'')) 0 = Inr raw \<and> b64_encode 9 raw = Inr s \<and> content s = lit ''TWE=''"
proof -
  have "holds_cstr (c_lit ''Ma'') (lit ''Ma'')" unfolding c_lit_def holds_cstr_cs by (simp add: lit_def)
  then obtain raw where r: "str_of_ptr (Some (c_lit ''Ma'')) 0 = Inr raw" "str_wf raw" "content raw = lit ''Ma''"
    using str_of_ptr_ok [of "c_lit ''Ma''" "lit ''Ma''"] by (auto simp: lit_def)
  then have "unat (s_string_length raw) = 2" using length_content [OF r(2)] by (simp add: lit_def)
  moreover have "b64_ref (map unat (lit ''Ma'')) = lit ''TWE=''" unfolding b64_text_ref [symmetric] by code_simp
  ultimately show ?thesis using b64_encode_correct [OF r(2), of 9] r(1,3) by auto
qed

lemma holds_takeWhile: "holds_cstr (xs @ 0 # r) (takeWhile (\<lambda>c. c \<noteq> 0) xs)"
proof -
  have split: "xs @ 0 # r = takeWhile (\<lambda>c. c \<noteq> 0) xs @ dropWhile (\<lambda>c. c \<noteq> 0) xs @ 0 # r" by simp
  have "\<exists>rest. dropWhile (\<lambda>c. c \<noteq> 0) xs @ 0 # r = 0 # rest"
  proof (cases "dropWhile (\<lambda>c. c \<noteq> 0) xs")
    case (Cons y ys)
    then have "y = 0" using hd_dropWhile [of "\<lambda>c. c \<noteq> 0" xs] by simp
    then show ?thesis using Cons by (intro exI [of _ "ys @ 0 # r"]) simp
  next
    case Nil
    then show ?thesis by (intro exI [of _ r]) (simp only: append_Nil)
  qed
  then obtain rest where "dropWhile (\<lambda>c. c \<noteq> 0) xs @ 0 # r = 0 # rest" by blast
  then have "xs @ 0 # r = takeWhile (\<lambda>c. c \<noteq> 0) xs @ 0 # rest" using split by (simp only:)
  moreover have "0 \<notin> set (takeWhile (\<lambda>c. c \<noteq> 0) xs)" by (auto dest: set_takeWhileD)
  ultimately show ?thesis unfolding holds_cstr_def by blast
qed

lemma b64_decode_ok:
  assumes w: "str_wf src" "2 * unat (s_string_length src) + 64 < 2 ^ 32" "0 < s_string_length src"
    and f: "unat (s_string_length src) < fuel"
  shows "\<exists>t. b64_decode fuel src = Inr t \<and> str_wf t \<and> content t = takeWhile (\<lambda>c. c \<noteq> 0) (b64_bytes (content src))"
proof -
  let ?n = "unat (s_string_length src)"
  obtain b where b: "bb_new (s_string_length src) = Inr b" "bb_ready b" "b_length b = 0"
    using bb_new_ok [OF w(3)] w(2) by auto
  have "bb_room (?n + 3 + 1) b" using b w(2) by (simp add: bb_room_def bb_ready_def)
  then obtain b1 where b1: "b64_decode_to fuel bb_writeData src b = Inr b1" "bb_ready b1"
      "bb_data b1 = b64_bytes (content src)" "bb_room 1 b1"
    using buf.decode_to_appends [OF w(1) _ f b(2), of 1] w(2) b(3) by (auto simp: bb_data_def)
  obtain b2 where b2: "bw_byte bb_writeData 0 b1 = Inr (1, b2)" "bb_ready b2" "bb_data b2 = b64_bytes (content src) @ [0]"
    using buf.byte_appends [OF b1(2), of 0 0] b1(3,4) by auto
  let ?r = "drop (unat (b_length b2)) (b_buffer b2)"
  have "b_buffer b2 = bb_data b2 @ ?r" by (simp add: bb_data_def)
  then have m: "bb_mem b2 = b64_bytes (content src) @ 0 # ?r" using b2(3) by (auto simp: bb_mem_def)
  have "length (bb_data b2) + 16 < 2 ^ 32"
    using bb_ready_bound [OF b2(2)] .
  then have l: "length (takeWhile (\<lambda>c. c \<noteq> 0) (b64_bytes (content src))) + 16 < 2 ^ 32"
    using length_takeWhile_le [of "\<lambda>c. c \<noteq> 0" "b64_bytes (content src)"] b2(3) by simp
  show ?thesis using str_of_ptr_ok [OF holds_takeWhile l, of ?r] b(1) b1(1) b2(1) m by (simp add: b64_decode_def)
qed

text \<open>
  C34. Decoding what was encoded into a buffer appends exactly the original bytes, NUL bytes
  included; the overload that returns a string cuts the result at its first NUL.
\<close>

theorem b64_roundtrip:
  assumes "str_wf raw" "6 * unat (s_string_length raw) + 128 < 2 ^ 32" "raw_bytes = content raw" "raw_bytes \<noteq> []"
    and "bb_ready buf" "unat (b_pos buf) + 2 * unat (s_string_length raw) + 64 < 2 ^ 31"
    and "2 * unat (s_string_length raw) + 64 < fuel"
  shows "\<exists>s buf' t. b64_encode fuel raw = Inr s \<and> b64_decode_to fuel bb_writeData s buf = Inr buf'
    \<and> bb_data buf' = bb_data buf @ raw_bytes
    \<and> b64_decode fuel s = Inr t \<and> content t = takeWhile (\<lambda>c. c \<noteq> 0) raw_bytes"
proof -
  let ?n = "unat (s_string_length raw)"
  have n: "length raw_bytes = ?n" using assms(3) length_content [OF assms(1)] by simp
  have l: "?n \<le> length (str_mem raw)" using str_mem_length [OF assms(1)] by simp
  have empty_len: "unat (s_string_length str_empty) = 0" by (simp add: str_empty_def)
  obtain s where s: "b64_encode fuel raw = Inr s" "str_wf s" "content s = b64_text raw_bytes"
    using b64_encode_into_ok [OF l _ _ str_wf_empty, of fuel] assms(2,3,7) str_mem_take [OF assms(1)]
    unfolding b64_encode_def by (auto simp: empty_len)
  let ?m = "unat (s_string_length s)"
  have m: "?m = 4 * ((?n + 2) div 3)" using length_content [OF s(2)] s(3) n by (simp add: length_b64_text)
  have "0 < ?n" using n assms(4) by (cases raw_bytes) simp_all
  then have mb: "?m \<le> 2 * ?n + 8" "0 < ?m" using m by linarith+
  have d: "b64_bytes (content s) = raw_bytes" using s(3) b64_bytes_text by simp
  have "bb_room (?m + 3 + 0) buf" using assms(6) mb(1) by (simp add: bb_room_def)
  then obtain buf' where "b64_decode_to fuel bb_writeData s buf = Inr buf'" "bb_data buf' = bb_data buf @ raw_bytes"
    using buf.decode_to_appends [OF s(2) _ _ assms(5), of fuel 0] mb(1) assms(2,7) d by auto
  moreover have "0 < s_string_length s" using mb(2) by (simp add: word_less_nat_alt)
  then obtain t where "b64_decode fuel s = Inr t" "content t = takeWhile (\<lambda>c. c \<noteq> 0) raw_bytes"
    using b64_decode_ok [OF s(2) _ _, of fuel] mb(1) assms(2,7) d by auto
  ultimately show ?thesis using s(1) by blast
qed

theorem b64_roundtrip_witness:
  "\<exists>raw s buf buf'. str_of_ptr (Some (c_lit ''Ma'')) 0 = Inr raw \<and> b64_encode 99 raw = Inr s \<and> bb_new 4 = Inr buf
    \<and> b64_decode_to 99 bb_writeData s buf = Inr buf' \<and> bb_data buf' = lit ''Ma''"
proof -
  have "holds_cstr (c_lit ''Ma'') (lit ''Ma'')" unfolding c_lit_def holds_cstr_cs by (simp add: lit_def)
  then obtain raw where r: "str_of_ptr (Some (c_lit ''Ma'')) 0 = Inr raw" "str_wf raw" "content raw = lit ''Ma''"
    using str_of_ptr_ok [of "c_lit ''Ma''" "lit ''Ma''"] by (auto simp: lit_def)
  then have n: "unat (s_string_length raw) = 2" using length_content [OF r(2)] by (simp add: lit_def)
  obtain b where b: "bb_new 4 = Inr b" "bb_ready b" "b_length b = 0" using bb_new_ok [of 4] by auto
  then have "unat (b_pos b) = 0" "bb_data b = []" by (simp_all add: bb_ready_def bb_data_def)
  moreover have "lit ''Ma'' \<noteq> []" by (simp add: lit_def)
  ultimately show ?thesis using b64_roundtrip [OF r(2) _ r(3) [symmetric] _ b(2), of 99] r(1) b(1) n by auto
qed

text \<open>
  On any text the decoder returns and appends what its groups of four characters give, a
  missing character read as \<open>A\<close>; it does not skip characters outside the alphabet, so a line
  feed after complete groups adds three bytes.
\<close>

theorem b64_decode_any:
  assumes "str_wf src" "unat (s_string_length src) + 40 < 2 ^ 32" "unat (s_string_length src) < fuel"
    and "bb_ready buf" "bb_room (unat (s_string_length src) + 3) buf"
  shows "\<exists>buf'. b64_decode_to fuel bb_writeData src buf = Inr buf' \<and> bb_data buf' = bb_data buf @ b64_bytes (content src)
    \<and> (\<forall>cs. 4 dvd length cs \<and> content src = cs @ [10] \<longrightarrow> bb_data buf' = bb_data buf @ b64_bytes cs @ [252, 0, 0])"
proof -
  have q: "b64_quad 10 (chr CHR ''A'') (chr CHR ''A'') (chr CHR ''A'') = [252, 0, 0]" by code_simp
  have "4 dvd length cs \<Longrightarrow> b64_bytes (cs @ [10]) = b64_bytes cs @ [252, 0, 0]" for cs
  proof (induction cs rule: b64_bytes.induct)
    case (1 c1 c2 c3 c4 cs)
    then have "4 dvd length cs" by (simp add: dvd_def) presburger
    then show ?case using 1 by simp
  qed (auto simp: pad_A_def q dest: dvd_imp_le)
  then show ?thesis using buf.decode_to_appends [OF assms(1-4), of 0] assms(5) by auto
qed

theorem b64_decode_any_witness:
  "\<exists>src buf buf'. str_of_ptr (Some (lit ''TWFu'' @ [10, 0])) 0 = Inr src \<and> bb_new 4 = Inr buf
    \<and> b64_decode_to 9 bb_writeData src buf = Inr buf' \<and> bb_data buf' = lit ''Man'' @ [252, 0, 0]"
proof -
  have "holds_cstr (lit ''TWFu'' @ [10, 0]) (lit ''TWFu'' @ [10])"
    using holds_cstr_cs [of "lit ''TWFu'' @ [10]"] by (simp add: lit_def)
  then obtain src where r: "str_of_ptr (Some (lit ''TWFu'' @ [10, 0])) 0 = Inr src" "str_wf src" "content src = lit ''TWFu'' @ [10]"
    using str_of_ptr_ok [of "lit ''TWFu'' @ [10, 0]" "lit ''TWFu'' @ [10]"] by (auto simp: lit_def)
  then have n: "unat (s_string_length src) = 5" using length_content [OF r(2)] by (simp add: lit_def)
  obtain b where b: "bb_new 4 = Inr b" "bb_ready b" "b_length b = 0" using bb_new_ok [of 4] by auto
  then have d: "bb_room 8 b" "bb_data b = []" by (simp_all add: bb_ready_def bb_data_def bb_room_def)
  have "b64_bytes (lit ''TWFu'') = lit ''Man''" "4 dvd length (lit ''TWFu'')" by code_simp+
  then show ?thesis using b64_decode_any [OF r(2) _ _ b(2), of 9] r(1,3) b(1) n d by auto
qed

end
