(* ===== verification/CheckSum.thy ===== *)
theory CheckSum
  imports Buf_Props
begin

text \<open>
  \<open>CheckSum\<close> (src/util/CheckSum.cpp, include/srl/util/CheckSum.h): the running 32-bit sum with
  its folding to 16 bits, the Internet checksum over a block, and the sum of the bytes enciphered
  with a running key. Signed 32-bit overflow wraps.
\<close>

section \<open>Model\<close>

record csum =
  c_c1 :: u32
  c_r :: u32
  c_c2 :: u32
  c_sum :: u32

definition csum_clear :: "csum \<Rightarrow> csum" where
  "csum_clear s = s\<lparr>c_sum := 0, c_c1 := 52845, c_r := 55665, c_c2 := 22719\<rparr>"

definition csum_new :: csum where
  "csum_new = csum_clear \<lparr>c_c1 = 0, c_r = 0, c_c2 = 0, c_sum = 0\<rparr>"

definition csum_value :: "csum \<Rightarrow> u32" where
  "csum_value s = c_sum s"

lemma fold_less: "drop_bit 16 (f :: u32) \<noteq> 0 \<Longrightarrow> unat (drop_bit 16 f + (f AND 65535)) < unat f"
proof -
  assume n: "drop_bit 16 f \<noteq> 0"
  have h: "unat (drop_bit 16 f) = unat f div 65536" unfolding unat_drop_bit_eq by (simp add: drop_bit_eq_div)
  have m: "(65535 :: u32) = mask 16" by (simp add: mask_eq_exp_minus_1)
  have l: "unat (f AND 65535) = unat f mod 65536"
    unfolding m take_bit_eq_mask [symmetric] unsigned_take_bit_eq by (simp add: take_bit_eq_mod)
  have "unat f div 65536 \<noteq> 0" using n h by (metis unat_eq_zero)
  moreover have "unat (drop_bit 16 f + (f AND 65535)) \<le> unat f div 65536 + unat f mod 65536"
    using unat_plus_small [of "drop_bit 16 f" "f AND 65535"] h l unat_lt32 [of f] by simp
  moreover have "unat f = 65536 * (unat f div 65536) + unat f mod 65536" by simp
  ultimately show ?thesis by linarith
qed

function fold16 :: "u32 \<Rightarrow> u32" where
  "fold16 f = (if drop_bit 16 f \<noteq> 0 then fold16 (drop_bit 16 f + (f AND 65535)) else f)"
  by pat_completeness auto
termination
  by (relation "measure unat") (use fold_less in auto)

declare fold16.simps [simp del]

definition csum_value16 :: "csum \<Rightarrow> u16" where
  "csum_value16 s = ucast (NOT (fold16 (c_sum s)))"

text \<open>The block is read as 16-bit words in little-endian memory order, a last odd byte alone.\<close>

fun ip_sum :: "u8 list \<Rightarrow> u32 \<Rightarrow> u32 \<Rightarrow> u32 res" where
  "ip_sum (x # y # m) len acc = (if 1 < len then ip_sum m (len - 2) (acc + ucast (of_le [x, y] :: u16))
     else if len = 1 then Inr (acc + ucast x) else Inr acc)"
| "ip_sum [x] len acc = (if 1 < len then Inl Mem_Fault else if len = 1 then Inr (acc + ucast x) else Inr acc)"
| "ip_sum [] len acc = (if 0 < len then Inl Mem_Fault else Inr acc)"

definition csum_doIpCheckSum :: "u8 list \<Rightarrow> u32 \<Rightarrow> csum \<Rightarrow> csum res" where
  "csum_doIpCheckSum buf len s = bindR (ip_sum buf len (c_sum s)) (\<lambda>v. Inr (s\<lparr>c_sum := v\<rparr>))"

definition csum_add :: "u8 \<Rightarrow> csum \<Rightarrow> csum" where
  "csum_add v s = (let cipher = ucast (ucast v XOR signed_drop_bit 8 (c_r s)) :: u8 in
     s\<lparr>c_r := (ucast cipher + c_r s) * c_c1 s + c_c2 s, c_sum := c_sum s + ucast cipher\<rparr>)"

text \<open>An array whose \<open>arry_size\<close>, an \<open>int\<close>, is negative adds nothing.\<close>

definition csum_add_bytes :: "u8 list \<Rightarrow> csum \<Rightarrow> csum" where
  "csum_add_bytes xs s = foldl (\<lambda>s v. csum_add v s) s xs"

definition csum_add_array :: "u8 list \<Rightarrow> u32 \<Rightarrow> csum \<Rightarrow> csum res" where
  "csum_add_array arry arry_size s = (if arry_size <s 0 then Inr s
     else bindR (blk_slice arry 0 (unat arry_size)) (\<lambda>xs. Inr (csum_add_bytes xs s)))"

definition csum_add_int16 :: "u16 \<Rightarrow> csum \<Rightarrow> csum res" where
  "csum_add_int16 v s = csum_add_array (le_bytes 2 v) 2 s"

definition csum_add_int32 :: "u32 \<Rightarrow> csum \<Rightarrow> csum res" where
  "csum_add_int32 v s = csum_add_array (le_bytes 4 v) 4 s"

definition csum_add_int64 :: "u64 \<Rightarrow> csum \<Rightarrow> csum res" where
  "csum_add_int64 v s = csum_add_array (le_bytes 8 v) 8 s"

text \<open>The string is passed by value.\<close>

definition csum_add_str :: "srl_str \<Rightarrow> csum \<Rightarrow> csum res" where
  "csum_add_str v s = bindR (str_copy_new v) (\<lambda>v. csum_add_array (str_mem v) (s_string_length v) s)"

section \<open>Folding\<close>

lemma unat_fold_step:
  "unat (drop_bit 16 (f :: u32) + (f AND 65535)) = unat f div 65536 + unat f mod 65536" "unat (drop_bit 16 f) = unat f div 65536"
proof -
  show h: "unat (drop_bit 16 f) = unat f div 65536" unfolding unat_drop_bit_eq by (simp add: drop_bit_eq_div)
  have m: "(65535 :: u32) = mask 16" by (simp add: mask_eq_exp_minus_1)
  have l: "unat (f AND 65535) = unat f mod 65536"
    unfolding m take_bit_eq_mask [symmetric] unsigned_take_bit_eq by (simp add: take_bit_eq_mod)
  have "unat f div 65536 + unat f mod 65536 < 2 ^ 32" using unat_lt32 [of f] by linarith
  then show "unat (drop_bit 16 f + (f AND 65535)) = unat f div 65536 + unat f mod 65536"
    using unat_plus_small [of "drop_bit 16 f" "f AND 65535"] h l by simp
qed

lemma mod_fold: "((n :: nat) div 65536 + n mod 65536) mod 65535 = n mod 65535"
proof -
  have "n = 65535 * (n div 65536) + (n div 65536 + n mod 65536)"
    using mult_div_mod_eq [of 65536 n] by linarith
  then have "n mod 65535 = (65535 * (n div 65536) + (n div 65536 + n mod 65536)) mod 65535" by simp
  then show ?thesis by (simp only: mod_mult_self4)
qed

text \<open>The fold is the residue modulo \<open>2 ^ 16 - 1\<close>, with \<open>2 ^ 16 - 1\<close> for a positive multiple.\<close>

lemma fold16_residue:
  "unat (fold16 f) mod 65535 = unat f mod 65535 \<and> unat (fold16 f) < 65536 \<and> (unat (fold16 f) = 0 \<longleftrightarrow> unat f = 0)"
proof (induction f rule: fold16.induct)
  case (1 f)
  show ?case
  proof (cases "drop_bit 16 f = 0")
    case True
    then have "unat f div 65536 = 0" using unat_fold_step(2) [of f] by simp
    then have "unat f < 65536" by linarith
    then show ?thesis using True by (simp add: fold16.simps [of f])
  next
    case False
    then have e: "fold16 f = fold16 (drop_bit 16 f + (f AND 65535))" by (simp add: fold16.simps [of f])
    have "unat f div 65536 \<noteq> 0" using False unat_fold_step(2) [of f] by (metis unat_eq_zero)
    then show ?thesis using 1 [OF False] mod_fold [of "unat f"] unfolding e unat_fold_step(1) by auto
  qed
qed

section \<open>The Internet checksum\<close>

fun ip_total :: "u8 list \<Rightarrow> nat" where
  "ip_total (x # y # m) = unat (of_le [x, y] :: u16) + ip_total m"
| "ip_total [x] = unat x"
| "ip_total [] = 0"

lemma ip_sum_total:
  "unat len = length m \<Longrightarrow> ip_sum m len acc = Inr (acc + of_nat (ip_total m))"
proof (induction m len acc rule: ip_sum.induct)
  case (1 x y m len acc)
  then have "1 < len" "unat (len - 2) = length m" by (simp_all add: word_less_nat_alt unat_sub word_le_nat_alt)
  moreover have "ucast (of_le [x, y] :: u16) = (of_nat (unat (of_le [x, y] :: u16)) :: u32)" by (simp only: of_nat_unat)
  ultimately show ?case using 1 by (simp add: add.assoc del: of_le.simps)
next
  case (2 x len acc)
  then have "len = 1" by (metis One_nat_def length_Cons list.size(3) unat_1 word_unat_eq_iff)
  then show ?case by (simp add: of_nat_unat)
next
  case (3 len acc)
  then show ?case by (simp add: unat_eq_zero word_less_nat_alt)
qed

lemma ip_total_append: "even (length xs) \<Longrightarrow> ip_total (xs @ ys) = ip_total xs + ip_total ys"
  by (induction xs rule: ip_total.induct) auto

lemma ip_total_bound: "ip_total xs \<le> 65535 * length xs"
proof (induction xs rule: ip_total.induct)
  case (1 x y m)
  have "unat (of_le [x, y] :: u16) < 2 ^ LENGTH(16)" by (rule unsigned_less)
  then show ?case using 1 by simp
next
  case (2 x)
  have "unat x < 2 ^ LENGTH(8)" by (rule unsigned_less)
  then show ?case by simp
qed simp

lemma full16: "x mod 65535 = 0 \<Longrightarrow> x \<noteq> 0 \<Longrightarrow> x < 65536 \<Longrightarrow> x = (65535 :: nat)"
  by (auto simp: mod_eq_0_iff_dvd dvd_def)

lemma unat_value16: "unat (csum_value16 s) = 65535 - unat (fold16 (c_sum s))"
proof -
  let ?f = "fold16 (c_sum s)"
  have f: "unat ?f < 65536" using fold16_residue by blast
  have "NOT ?f = - 1 - ?f" by (simp add: not_eq_complement)
  moreover have "unat (- 1 :: u32) = 4294967295" by (simp add: unsigned_minus_1_eq_mask mask_eq_exp_minus_1)
  ultimately have "unat (NOT ?f) = 4294967295 - unat ?f" by (simp add: unat_sub)
  also have "\<dots> = 65536 * 65535 + (65535 - unat ?f)" using f by simp
  finally have "unat (NOT ?f) mod 65536 = (65535 - unat ?f) mod 65536" by (simp only: mod_mult_self4)
  also have "\<dots> = 65535 - unat ?f" by simp
  finally have "unat (NOT ?f) mod 65536 = 65535 - unat ?f" .
  then show ?thesis by (simp add: csum_value16_def unsigned_ucast_eq take_bit_eq_mod)
qed

lemma ip_block:
  assumes "length xs < 2 ^ 32" "65535 * length xs < 2 ^ 32"
  shows "\<exists>s. csum_doIpCheckSum xs (of_nat (length xs)) csum_new = Inr s \<and> unat (c_sum s) = ip_total xs"
proof -
  have "c_sum csum_new = 0" by (simp add: csum_new_def csum_clear_def)
  moreover have "ip_total xs < 2 ^ 32" using ip_total_bound [of xs] assms(2) by linarith
  moreover have "unat (of_nat (length xs) :: u32) = length xs" using assms(1) by simp
  ultimately show ?thesis by (auto simp: csum_doIpCheckSum_def ip_sum_total)
qed

text \<open>
  C39. The checksum of a block with an even number of bytes verifies: over the block followed by
  its checksum \<open>value16\<close> is 0. The sum wraps nowhere for blocks of at most 64 kB, and the value is
  the complement of the residue of the sum of its 16-bit words modulo \<open>2 ^ 16 - 1\<close>.
\<close>

theorem ip_checksum_verifies:
  assumes "even (length xs)" "length xs \<le> 65534"
  shows "\<exists>s s'. csum_doIpCheckSum xs (of_nat (length xs)) csum_new = Inr s
    \<and> csum_doIpCheckSum (xs @ le_bytes 2 (csum_value16 s)) (of_nat (length xs + 2)) csum_new = Inr s'
    \<and> csum_value16 s' = 0 \<and> csum_value s = of_nat (ip_total xs)
    \<and> (65535 - unat (csum_value16 s)) mod 65535 = ip_total xs mod 65535"
proof -
  have l: "length xs < 2 ^ 32" "65535 * length xs < 2 ^ 32" using assms(2) by simp_all
  obtain s where s: "csum_doIpCheckSum xs (of_nat (length xs)) csum_new = Inr s" "unat (c_sum s) = ip_total xs"
    using ip_block [OF l] by blast
  let ?c = "csum_value16 s" and ?F = "unat (fold16 (c_sum s))"
  let ?ys = "xs @ le_bytes 2 ?c"
  have ly: "length ?ys = length xs + 2" by simp
  obtain s' where s': "csum_doIpCheckSum ?ys (of_nat (length xs + 2)) csum_new = Inr s'" "unat (c_sum s') = ip_total ?ys"
    using ip_block [of ?ys] assms(2) unfolding ly by auto
  note F = fold16_residue [of "c_sum s", unfolded s(2)] and F' = fold16_residue [of "c_sum s'", unfolded s'(2)]
  have c: "unat ?c = 65535 - ?F" by (rule unat_value16)
  have "le_bytes 2 ?c = [ucast ?c, ucast (drop_bit 8 ?c)]" by (simp add: le_bytes_def numeral_2_eq_2)
  then have "ip_total (le_bytes 2 ?c) = unat ?c"
    using of_le_le_bytes [of 2 ?c] by (simp del: of_le.simps)
  then have t: "ip_total ?ys = ip_total xs + (65535 - ?F)" using ip_total_append [OF assms(1)] c by simp
  have "(ip_total xs + (65535 - ?F)) mod 65535 = (?F + (65535 - ?F)) mod 65535"
    using F by (metis mod_add_left_eq)
  also have "\<dots> = 0" using F by simp
  finally have "ip_total ?ys mod 65535 = 0" unfolding t .
  moreover have "ip_total ?ys \<noteq> 0" using t F by (cases "ip_total xs = 0") auto
  ultimately have "unat (fold16 (c_sum s')) mod 65535 = 0" "unat (fold16 (c_sum s')) \<noteq> 0" "unat (fold16 (c_sum s')) < 65536"
    using F' by auto
  then have "unat (fold16 (c_sum s')) = 65535" by (rule full16)
  then have "unat (csum_value16 s') = 0" unfolding unat_value16 by simp
  then have "csum_value16 s' = 0" by (simp only: unat_eq_zero)
  moreover have "csum_value s = of_nat (ip_total xs)" unfolding csum_value_def s(2) [symmetric] by simp
  moreover have "(65535 - unat ?c) mod 65535 = ip_total xs mod 65535" using c F by simp
  ultimately show ?thesis using s(1) s'(1) by blast
qed

theorem ip_checksum_verifies_witness:
  "\<exists>s. csum_doIpCheckSum [1, 2, 3, 4] 4 csum_new = Inr s \<and> csum_value s = 1540"
proof -
  have "ip_total [1, 2, 3, 4] = 1540" by code_simp
  then show ?thesis using ip_checksum_verifies [of "[1, 2, 3, 4]"] by auto
qed

end
