(* ===== verification/MTRandom.thy ===== *)
theory MTRandom
  imports SRL_Prelude
begin

text \<open>
  \<open>Random\<close> (src/math/Random.cpp, include/srl/math/Random.h): the Mersenne twister. The array
  \<open>_values\<close> is a list of \<open>N\<close> words, the pointer \<open>_next\<close> an index into it. The seed that the
  default constructor takes from the clock is a parameter, and the two functions that scale a
  drawn integer in floating point are left out. Where the C code computes in \<open>unsigned long\<close> it
  keeps the low 32 bits, so the words here have 32.
\<close>

unbundle bit_operations_syntax

section \<open>Model\<close>

record rng =
  r_values :: "u32 list"
  r_next :: nat
  r_remaining :: nat

definition rng_M :: nat where
  "rng_M = 397"

definition rng_N :: nat where
  "rng_N = 624"

definition hiBit :: "u32 \<Rightarrow> u32" where
  "hiBit u = u AND 0x80000000"

definition loBit :: "u32 \<Rightarrow> u32" where
  "loBit u = u AND 1"

definition loBits :: "u32 \<Rightarrow> u32" where
  "loBits u = u AND 0x7fffffff"

definition mixBits :: "u32 \<Rightarrow> u32 \<Rightarrow> u32" where
  "mixBits u v = hiBit u OR loBits v"

definition twist :: "u32 \<Rightarrow> u32 \<Rightarrow> u32 \<Rightarrow> u32" where
  "twist m s0 s1 = m XOR drop_bit 1 (mixBits s0 s1) XOR (- loBit s1 AND 0x9908b0df)"

definition seed_step :: "u32 \<Rightarrow> nat \<Rightarrow> u32" where
  "seed_step r i = 1812433253 * (r XOR drop_bit 30 r) + of_nat i"

fun seed_loop :: "nat \<Rightarrow> nat \<Rightarrow> u32 \<Rightarrow> u32 list" where
  "seed_loop i 0 r = []"
| "seed_loop i (Suc n) r = (let s = seed_step r i in s # seed_loop (Suc i) n s)"

definition reload_values :: "u32 list \<Rightarrow> u32 list" where
  "reload_values v = (let
     v = foldl (\<lambda>v p. v[p := twist (v ! (p + rng_M)) (v ! p) (v ! (p + 1))]) v [0..<rng_N - rng_M];
     v = foldl (\<lambda>v p. v[p := twist (v ! (p + rng_M - rng_N)) (v ! p) (v ! (p + 1))]) v [rng_N - rng_M..<rng_N - 1];
     p = rng_N - 1
   in v[p := twist (v ! (p + rng_M - rng_N)) (v ! p) (v ! 0)])"

definition rng_reload :: "rng \<Rightarrow> rng" where
  "rng_reload s = s\<lparr>r_values := reload_values (r_values s), r_remaining := rng_N, r_next := 0\<rparr>"

definition rng_initialize :: "u32 \<Rightarrow> rng \<Rightarrow> rng" where
  "rng_initialize seed s = rng_reload (s\<lparr>r_values := seed # seed_loop 1 (rng_N - 1) seed\<rparr>)"

definition rng_new :: "u32 \<Rightarrow> rng" where
  "rng_new seed = rng_initialize seed \<lparr>r_values = [], r_next = 0, r_remaining = 0\<rparr>"

definition temper :: "u32 \<Rightarrow> u32" where
  "temper s1 = (let
     s1 = s1 XOR drop_bit 11 s1;
     s1 = s1 XOR (push_bit 7 s1 AND 0x9d2c5680);
     s1 = s1 XOR (push_bit 15 s1 AND 0xefc60000)
   in s1 XOR drop_bit 18 s1)"

definition rng_randomInt :: "rng \<Rightarrow> u32 \<times> rng" where
  "rng_randomInt s = (let s = (if r_remaining s = 0 then rng_reload s else s) in
     (temper (r_values s ! r_next s), s\<lparr>r_remaining := r_remaining s - 1, r_next := r_next s + 1\<rparr>))"

definition used_bits :: "u32 \<Rightarrow> u32" where
  "used_bits n = (let
     used = n;
     used = used OR drop_bit 1 used;
     used = used OR drop_bit 2 used;
     used = used OR drop_bit 4 used;
     used = used OR drop_bit 8 used
   in used OR drop_bit 16 used)"

text \<open>The rejection loop ends when a draw fits; whether one does depends on the seed, so it takes fuel.\<close>

fun draw_below :: "nat \<Rightarrow> u32 \<Rightarrow> u32 \<Rightarrow> rng \<Rightarrow> (u32 \<times> rng) res" where
  "draw_below 0 used n s = Inl Out_Of_Fuel"
| "draw_below (Suc fuel) used n s = (case rng_randomInt s of (v, s) \<Rightarrow>
     let i = v AND used in if n < i then draw_below fuel used n s else Inr (i, s))"

definition rng_randomInt_n :: "nat \<Rightarrow> u32 \<Rightarrow> rng \<Rightarrow> (u32 \<times> rng) res" where
  "rng_randomInt_n fuel n s = draw_below fuel (used_bits n) n s"

section \<open>The Mersenne twister sequence\<close>

text \<open>The published recurrence over one infinite sequence of words.\<close>

function mt :: "u32 \<Rightarrow> nat \<Rightarrow> u32" where
  "mt seed k = (if k = 0 then seed
     else if k < 624 then 1812433253 * (mt seed (k - 1) XOR drop_bit 30 (mt seed (k - 1))) + of_nat k
     else twist (mt seed (k - 227)) (mt seed (k - 624)) (mt seed (k - 623)))"
  by pat_completeness auto
termination
  by (relation "measure snd") auto

declare mt.simps [simp del]

definition window :: "u32 \<Rightarrow> nat \<Rightarrow> nat \<Rightarrow> u32 list \<Rightarrow> bool" where
  "window seed b k v \<longleftrightarrow> length v = 624 \<and> (\<forall>j < 624. v ! j = mt seed (if j < k then b + 624 + j else b + j))"

lemma window_step:
  assumes w: "window seed b k v" "k < 624"
    and "x = twist (mt seed (b + k + 397)) (mt seed (b + k)) (mt seed (b + k + 1))"
  shows "window seed b (Suc k) (v[k := x])"
proof -
  have "mt seed (b + 624 + k) = twist (mt seed (b + k + 397)) (mt seed (b + k)) (mt seed (b + k + 1))"
    by (subst mt.simps) (simp add: ac_simps)
  then show ?thesis using assms by (auto simp: window_def nth_list_update less_Suc_eq ac_simps)
qed

lemma window_fold:
  "(\<And>k v. k0 \<le> k \<Longrightarrow> k < n \<Longrightarrow> window seed b k v \<Longrightarrow> window seed b (Suc k) (f v k)) \<Longrightarrow> k0 \<le> n \<Longrightarrow>
   window seed b k0 v \<Longrightarrow> window seed b n (foldl f v [k0..<n])"
proof (induction "n - k0" arbitrary: k0 v)
  case (Suc d)
  then have "[k0..<n] = k0 # [Suc k0..<n]" by (simp add: upt_conv_Cons)
  moreover have "window seed b (Suc k0) (f v k0)" using Suc by auto
  ultimately show ?case using Suc(1) [of "Suc k0" "f v k0"] Suc(2,3,4) by auto
qed simp

lemma reload_window: "window seed b 0 v \<Longrightarrow> window seed (b + 624) 0 (reload_values v)"
proof -
  assume w: "window seed b 0 v"
  define v1 where "v1 = foldl (\<lambda>v p. v[p := twist (v ! (p + 397)) (v ! p) (v ! (p + 1))]) v [0..<227]"
  define v2 where "v2 = foldl (\<lambda>v p. v[p := twist (v ! (p + 397 - 624)) (v ! p) (v ! (p + 1))]) v1 [227..<623]"
  have 1: "window seed b 227 v1" unfolding v1_def
  proof (rule window_fold [OF _ _ w])
    fix k v assume "window seed b k v" "k < 227"
    then show "window seed b (Suc k) (v[k := twist (v ! (k + 397)) (v ! k) (v ! (k + 1))])"
      by (intro window_step) (auto simp: window_def ac_simps)
  qed simp
  have 2: "window seed b 623 v2" unfolding v2_def
  proof (rule window_fold [OF _ _ 1])
    fix k v assume "window seed b k v" "227 \<le> k" "k < 623"
    then show "window seed b (Suc k) (v[k := twist (v ! (k + 397 - 624)) (v ! k) (v ! (k + 1))])"
      by (intro window_step) (auto simp: window_def ac_simps)
  qed simp
  have "v2 ! 396 = mt seed (b + 623 + 397)" "v2 ! 623 = mt seed (b + 623)" "v2 ! 0 = mt seed (b + 623 + 1)"
    using 2 by (simp_all add: window_def ac_simps)
  then have "window seed b (Suc 623) (v2[623 := twist (v2 ! 396) (v2 ! 623) (v2 ! 0)])"
    by (intro window_step [OF 2]) simp_all
  then have last: "window seed (b + 624) 0 (v2[623 := twist (v2 ! 396) (v2 ! 623) (v2 ! 0)])"
    by (simp add: window_def)
  have n: "(624 :: nat) - 397 = 227" "(624 :: nat) - 1 = 623" "(623 :: nat) + 397 - 624 = 396" by simp_all
  show ?thesis using last unfolding reload_values_def rng_M_def rng_N_def Let_def n v1_def v2_def .
qed

lemma seed_loop_mt:
  "r = mt seed (i - 1) \<Longrightarrow> 0 < i \<Longrightarrow> i + n \<le> 624 \<Longrightarrow> seed_loop i n r = map (mt seed) [i..<i + n]"
proof (induction n arbitrary: i r)
  case (Suc n)
  have s: "seed_step r i = mt seed i" using Suc.prems by (subst mt.simps) (simp add: seed_step_def)
  have "[i..<i + Suc n] = i # [Suc i..<Suc i + n]" by (simp add: upt_conv_Cons)
  then show ?case using Suc.IH [of "mt seed i" "Suc i"] Suc.prems s by (simp add: Let_def del: upt_Suc)
qed simp

section \<open>Drawing\<close>

definition rng_at :: "u32 \<Rightarrow> nat \<Rightarrow> rng \<Rightarrow> bool" where
  "rng_at seed k s \<longleftrightarrow> (\<exists>b. window seed b 0 (r_values s) \<and> r_next s + r_remaining s = 624 \<and> b + r_next s = 624 + k)"

lemma rng_new_at: "rng_at seed 0 (rng_new seed)"
proof -
  have "mt seed 0 = seed" by (simp add: mt.simps)
  then have "seed # seed_loop 1 623 seed = map (mt seed) [0..<624]"
    using seed_loop_mt [of seed seed 1 623] upt_conv_Cons [of 0 624] by (simp del: upt_Suc)
  then have "window seed 0 0 (seed # seed_loop 1 623 seed)" by (simp add: window_def del: upt_Suc)
  from reload_window [OF this] show ?thesis
    unfolding rng_at_def by (intro exI [of _ 624]) (simp add: rng_new_def rng_initialize_def rng_reload_def rng_N_def)
qed

lemma randomInt_at:
  assumes "rng_at seed k s"
  shows "\<exists>s'. rng_randomInt s = (temper (mt seed (624 + k)), s') \<and> rng_at seed (Suc k) s'"
proof -
  obtain b where b: "window seed b 0 (r_values s)" "r_next s + r_remaining s = 624" "b + r_next s = 624 + k"
    using assms unfolding rng_at_def by blast
  let ?s = "if r_remaining s = 0 then rng_reload s else s"
  have "\<exists>b. window seed b 0 (r_values ?s) \<and> r_next ?s + r_remaining ?s = 624 \<and> b + r_next ?s = 624 + k \<and> 0 < r_remaining ?s"
  proof (cases "r_remaining s = 0")
    case True
    then show ?thesis using reload_window [OF b(1)] b by (intro exI [of _ "b + 624"]) (simp add: rng_reload_def rng_N_def)
  qed (use b in auto)
  then obtain c where c: "window seed c 0 (r_values ?s)" "r_next ?s + r_remaining ?s = 624" "c + r_next ?s = 624 + k"
    "0 < r_remaining ?s" by blast
  let ?s' = "?s\<lparr>r_remaining := r_remaining ?s - 1, r_next := r_next ?s + 1\<rparr>"
  have "r_values ?s ! r_next ?s = mt seed (624 + k)" using c by (simp add: window_def)
  then have "rng_randomInt s = (temper (mt seed (624 + k)), ?s')" by (simp add: rng_randomInt_def Let_def)
  moreover have "rng_at seed (Suc k) ?s'" unfolding rng_at_def using c by (intro exI [of _ c]) simp
  ultimately show ?thesis by blast
qed

fun draws :: "nat \<Rightarrow> rng \<Rightarrow> u32 list" where
  "draws 0 s = []"
| "draws (Suc n) s = (case rng_randomInt s of (v, s) \<Rightarrow> v # draws n s)"

lemma draws_at: "rng_at seed k s \<Longrightarrow> draws n s = map (\<lambda>i. temper (mt seed (624 + i))) [k..<k + n]"
proof (induction n arbitrary: k s)
  case (Suc n)
  obtain s' where "rng_randomInt s = (temper (mt seed (624 + k)), s')" "rng_at seed (Suc k) s'"
    using randomInt_at [OF Suc.prems] by blast
  moreover have "[k..<k + Suc n] = k # [Suc k..<Suc k + n]" by (simp add: upt_conv_Cons)
  ultimately show ?case using Suc.IH by (simp del: upt_Suc)
qed simp

section \<open>The mask\<close>

lemma smear:
  assumes "\<And>i. bit x i \<longleftrightarrow> (\<exists>d<k. bit (n :: u32) (i + d))"
  shows "bit (x OR drop_bit k x) i \<longleftrightarrow> (\<exists>d<2 * k. bit n (i + d))"
proof -
  have "bit (x OR drop_bit k x) i \<longleftrightarrow> (\<exists>d<k. bit n (i + d)) \<or> (\<exists>d<k. bit n (k + i + d))"
    by (simp only: bit_or_iff bit_drop_bit_eq comp_def assms)
  also have "\<dots> \<longleftrightarrow> (\<exists>d<2 * k. bit n (i + d))"
  proof safe
    fix d assume "d < k" "bit n (k + i + d)"
    then show "\<exists>d<2 * k. bit n (i + d)" by (intro exI [of _ "k + d"]) (simp add: ac_simps)
  next
    fix d assume d: "d < 2 * k" "bit n (i + d)" "\<not> (\<exists>d<k. bit n (k + i + d))"
    have "d < k"
    proof (rule ccontr)
      assume "\<not> d < k"
      then have "d - k < k" "k + i + (d - k) = i + d" using d(1) by simp_all
      then show False using d(2,3) by metis
    qed
    then show "\<exists>d<k. bit n (i + d)" using d(2) by blast
  next
    fix d assume "d < k" "bit n (i + d)"
    then show "\<exists>d<2 * k. bit n (i + d)" by (intro exI [of _ d]) simp
  qed
  finally show ?thesis .
qed

lemma bit_used_bits: "bit (used_bits n) i \<longleftrightarrow> (\<exists>j\<ge>i. bit n j)"
proof -
  have 1: "bit n i \<longleftrightarrow> (\<exists>d<1. bit n (i + d))" for i by simp
  note 2 = smear [OF 1] note 4 = smear [OF 2] note 8 = smear [OF 4] note 16 = smear [OF 8] note 32 = smear [OF 16]
  have "bit (used_bits n) i \<longleftrightarrow> (\<exists>d<32. bit n (i + d))"
    using 32 by (simp add: used_bits_def Let_def)
  also have "\<dots> \<longleftrightarrow> (\<exists>j\<ge>i. bit n j)"
  proof safe
    fix j assume "i \<le> j" "bit n j"
    moreover from this have "j < 32" using bit_imp_le_length [of n j] by simp
    ultimately show "\<exists>d<32. bit n (i + d)" by (intro exI [of _ "j - i"]) simp
  qed (use le_add1 in blast)
  finally show ?thesis .
qed

lemma high_bits_clear: "(\<And>j. b \<le> j \<Longrightarrow> \<not> bit (n :: u32) j) \<Longrightarrow> unat n < 2 ^ b"
proof -
  assume h: "\<And>j. b \<le> j \<Longrightarrow> \<not> bit n j"
  have "take_bit b n = n" by (rule bit_eqI) (use h in \<open>auto simp: bit_take_bit_iff not_le [symmetric]\<close>)
  then have "take_bit b (unat n) = unat n" by (metis unsigned_take_bit_eq)
  then show ?thesis by (metis take_bit_nat_less_exp)
qed

lemma bit_unat_le: "bit (n :: u32) b \<Longrightarrow> 2 ^ b \<le> unat n"
proof (rule ccontr)
  assume b: "bit n b" and "\<not> 2 ^ b \<le> unat n"
  then have "take_bit b (unat n) = unat n" by (simp add: take_bit_nat_eq_self)
  then have "\<not> bit (unat n) b" by (metis bit_take_bit_iff less_irrefl)
  then show False using b by (simp add: bit_unsigned_iff)
qed

text \<open>The mask keeps every value up to \<open>n\<close>, and is below \<open>2 * n\<close> unless \<open>n\<close> is 0.\<close>

lemma used_bits_keeps: "v \<le> n \<Longrightarrow> v AND used_bits n = v"
proof (rule bit_eqI)
  fix b assume "v \<le> n"
  then have v: "unat v \<le> unat n" by (simp add: word_le_nat_alt)
  have "bit (used_bits n) b" if "bit v b"
  proof (rule ccontr)
    assume "\<not> bit (used_bits n) b"
    then have "unat n < 2 ^ b" unfolding bit_used_bits using high_bits_clear [of b n] by blast
    then show False using bit_unat_le [OF that] v by simp
  qed
  then show "bit (v AND used_bits n) b \<longleftrightarrow> bit v b" by (auto simp: bit_and_iff)
qed

lemma used_bits_tight: "v AND used_bits n \<le> used_bits n" "n \<noteq> 0 \<Longrightarrow> unat (used_bits n) < 2 * unat n"
proof -
  show "v AND used_bits n \<le> used_bits n" by (simp add: word_and_le1)
  assume "n \<noteq> 0"
  then obtain j where "bit n j" using bit_eqI [of n 0] by auto
  define b where "b = (GREATEST j. bit n j)"
  have bd: "j \<le> 32" if "bit n j" for j using bit_imp_le_length [OF that] by simp
  have top: "bit n b" unfolding b_def by (rule GreatestI_nat [of _ j 32]) (use \<open>bit n j\<close> bd in auto)
  have "\<not> bit (used_bits n) i" if "Suc b \<le> i" for i
    unfolding bit_used_bits
  proof safe
    fix j assume "i \<le> j" "bit n j"
    then have "j \<le> b" unfolding b_def using bd by (intro Greatest_le_nat [of _ _ 32]) auto
    then show False using that \<open>i \<le> j\<close> by simp
  qed
  then have "unat (used_bits n) < 2 ^ Suc b" by (rule high_bits_clear)
  also have "\<dots> \<le> 2 * unat n" using bit_unat_le [OF top] by simp
  finally show "unat (used_bits n) < 2 * unat n" .
qed

lemma draw_below_at:
  "rng_at seed k s \<Longrightarrow> case List.find (\<lambda>j. temper (mt seed (624 + j)) AND used \<le> n) [k..<k + fuel] of
     None \<Rightarrow> draw_below fuel used n s = Inl Out_Of_Fuel
   | Some j \<Rightarrow> \<exists>s'. draw_below fuel used n s = Inr (temper (mt seed (624 + j)) AND used, s') \<and> rng_at seed (Suc j) s'"
proof (induction fuel arbitrary: k s)
  case (Suc fuel)
  obtain s' where "rng_randomInt s = (temper (mt seed (624 + k)), s')" "rng_at seed (Suc k) s'"
    using randomInt_at [OF Suc.prems] by blast
  moreover have "[k..<k + Suc fuel] = k # [Suc k..<Suc k + fuel]" by (simp add: upt_conv_Cons)
  ultimately show ?case using Suc.IH [of "Suc k" s'] by (auto simp: Let_def not_le simp del: upt_Suc split: option.splits)
qed simp

section \<open>Properties\<close>


text \<open>
  \<open>randomInt(n)\<close> returns the first masked draw that is at most \<open>n\<close>, if there is one among
  as many draws as the fuel allows. The mask loses no value up to \<open>n\<close> and is below \<open>2 * n\<close>; when
  \<open>n\<close> is all ones below its top bit, one draw is enough.
\<close>

theorem random_below:
  assumes "rng_at seed k s"
  shows "(case List.find (\<lambda>j. temper (mt seed (624 + j)) AND used_bits n \<le> n) [k..<k + fuel] of
      None \<Rightarrow> rng_randomInt_n fuel n s = Inl Out_Of_Fuel
    | Some j \<Rightarrow> \<exists>s'. rng_randomInt_n fuel n s = Inr (temper (mt seed (624 + j)) AND used_bits n, s') \<and> rng_at seed (Suc j) s')
    \<and> (\<forall>v\<le>n. v AND used_bits n = v) \<and> (n \<noteq> 0 \<longrightarrow> unat (used_bits n) < 2 * unat n)
    \<and> (used_bits n = n \<and> 0 < fuel \<longrightarrow> (\<exists>v s'. rng_randomInt_n fuel n s = Inr (v, s') \<and> v \<le> n))"
proof (intro conjI impI allI)
  show d: "case List.find (\<lambda>j. temper (mt seed (624 + j)) AND used_bits n \<le> n) [k..<k + fuel] of
      None \<Rightarrow> rng_randomInt_n fuel n s = Inl Out_Of_Fuel
    | Some j \<Rightarrow> \<exists>s'. rng_randomInt_n fuel n s = Inr (temper (mt seed (624 + j)) AND used_bits n, s') \<and> rng_at seed (Suc j) s'"
    using draw_below_at [OF assms] by (simp only: rng_randomInt_n_def)
  show "v \<le> n \<Longrightarrow> v AND used_bits n = v" for v by (rule used_bits_keeps)
  show "n \<noteq> 0 \<Longrightarrow> unat (used_bits n) < 2 * unat n" by (rule used_bits_tight)
  assume u: "used_bits n = n \<and> 0 < fuel"
  then have "temper (mt seed (624 + k)) AND used_bits n \<le> n" using used_bits_tight(1) [of _ n] by metis
  moreover have "[k..<k + fuel] = k # [Suc k..<k + fuel]" using u by (simp add: upt_conv_Cons)
  ultimately show "\<exists>v s'. rng_randomInt_n fuel n s = Inr (v, s') \<and> v \<le> n" using d by auto
qed

theorem random_below_witness:
  "\<exists>v s'. rng_randomInt_n 1 15 (rng_new 4357) = Inr (v, s') \<and> v \<le> 15"
proof -
  have "used_bits 15 = 15" by code_simp
  then show ?thesis using random_below [OF rng_new_at [of 4357], where n = 15 and fuel = 1] by simp
qed

end
