(* ===== verification/Date.thy ===== *)
theory Date
  imports SRL_Prelude "HOL-Library.Signed_Division"
begin

text \<open>
  \<open>Date\<close> (src/Date.cpp, include/srl/Date.h): a day as a Julian day number together with day, month
  and year. The fields are integers that the operations wrap to the width of their C types;
  division and remainder of signed values truncate. The functions that read the clock, convert
  from \<open>time_t\<close> or format with \<open>strftime\<close> are left out; \<open>date_of_tm\<close> takes the fields of a \<open>tm\<close>.
\<close>

section \<open>Model\<close>

record date =
  d_julian :: int
  d_day :: int
  d_month :: int
  d_year :: int

definition s32 :: "int \<Rightarrow> int" where
  "s32 x = signed_take_bit 31 x"

definition s16 :: "int \<Rightarrow> int" where
  "s16 x = signed_take_bit 15 x"

definition w32 :: "int \<Rightarrow> int" where
  "w32 x = x mod 2 ^ 32"

definition w8 :: "int \<Rightarrow> int" where
  "w8 x = x mod 2 ^ 8"

definition days_in_months :: "bool \<Rightarrow> int list" where
  "days_in_months leap = (if leap then [0, 31, 29, 31, 30, 31, 30, 31, 31, 30, 31, 30, 31]
     else [0, 31, 28, 31, 30, 31, 30, 31, 31, 30, 31, 30, 31])"

definition days_in_year :: "bool \<Rightarrow> int list" where
  "days_in_year leap = (if leap then [0, 0, 31, 60, 91, 121, 152, 182, 213, 244, 274, 305, 335, 366]
     else [0, 0, 31, 59, 90, 120, 151, 181, 212, 243, 273, 304, 334, 365])"

definition julian_of :: "int \<Rightarrow> int \<Rightarrow> int \<Rightarrow> int" where
  "julian_of d m y = s32 (d - 32075 + s32 (1461 * s32 (y + 4800 + (m - 14) sdiv 12)) sdiv 4
     + 367 * (m - 2 - (m - 14) sdiv 12 * 12) sdiv 12
     - 3 * (s32 (y + 4900 + (m - 14) sdiv 12) sdiv 100) sdiv 4)"

definition update_julian :: "date \<Rightarrow> date" where
  "update_julian dt = dt\<lparr>d_julian := julian_of (d_day dt) (d_month dt) (d_year dt)\<rparr>"

definition update_ymd :: "date \<Rightarrow> date" where
  "update_ymd dt = (let
     A = w32 (d_julian dt + 32045);
     B = w32 (w32 (4 * (A + 36524)) div 146097 - 1);
     C = w32 (A - w32 (146097 * B) div 4);
     D = w32 (w32 (4 * (C + 365)) div 1461 - 1);
     E = w32 (C - w32 (1461 * D) div 4);
     M = w32 (5 * (E - 1) + 2) div 153
   in dt\<lparr>d_month := w8 (M + 3 - 12 * (M div 10)), d_day := w8 (E - w32 (153 * M + 2) div 5),
     d_year := s32 (100 * B + D - 4800 + M div 10)\<rparr>)"

definition date_blank :: date where
  "date_blank = \<lparr>d_julian = 0, d_day = 0, d_month = 0, d_year = 0\<rparr>"

text \<open>The parameters of the constructor and of \<open>_update\<close> are a \<open>uint8\<close>, a \<open>uint8\<close> and an \<open>int16\<close>.\<close>

definition date_update :: "int \<Rightarrow> int \<Rightarrow> int \<Rightarrow> date \<Rightarrow> date" where
  "date_update day month year dt = update_julian (dt\<lparr>d_day := w8 day, d_month := w8 month, d_year := s16 year\<rparr>)"

definition date_of_ymd :: "int \<Rightarrow> int \<Rightarrow> int \<Rightarrow> date" where
  "date_of_ymd day month year = date_update day month year date_blank"

definition date_of_tm :: "int \<Rightarrow> int \<Rightarrow> int \<Rightarrow> date" where
  "date_of_tm tm_mday tm_mon tm_year = update_julian (date_blank\<lparr>d_day := w8 tm_mday, d_month := w8 (tm_mon + 1),
     d_year := s32 (tm_year + 1900)\<rparr>)"

definition date_of_julian :: "int \<Rightarrow> date" where
  "date_of_julian julian_date = update_ymd (date_blank\<lparr>d_julian := julian_date\<rparr>)"

definition date_assign :: "date \<Rightarrow> date \<Rightarrow> date" where
  "date_assign d dt = update_ymd (dt\<lparr>d_julian := d_julian d\<rparr>)"

definition date_copy_new :: "date \<Rightarrow> date" where
  "date_copy_new d = date_assign d date_blank"

definition date_isValid :: "date \<Rightarrow> bool" where
  "date_isValid dt = (if 31 < d_day dt then False else if 12 < d_month dt then False
     else if 4000 < d_year dt then False else True)"

definition date_toUnix :: "date \<Rightarrow> int" where
  "date_toUnix dt = 0"

definition isLeapYear :: "date \<Rightarrow> bool" where
  "isLeapYear dt \<longleftrightarrow> d_year dt smod 4 = 0 \<and> d_year dt smod 100 \<noteq> 0 \<or> d_year dt smod 400 = 0"

definition dayOfWeek :: "date \<Rightarrow> int" where
  "dayOfWeek dt = w8 (d_julian dt smod 7 + 1)"

definition daysInMonth :: "date \<Rightarrow> int res" where
  "daysInMonth dt = blk_read (days_in_months (isLeapYear dt)) (nat (d_month dt))"

definition dayOfYear :: "date \<Rightarrow> int res" where
  "dayOfYear dt = bindR (blk_read (days_in_year (isLeapYear dt)) (nat (d_month dt))) (\<lambda>n. Inr (n + d_day dt))"

text \<open>\<open>toTM\<close> yields the fields \<open>tm_mday\<close>, \<open>tm_mon\<close>, \<open>tm_year\<close>, \<open>tm_wday\<close>, \<open>tm_yday\<close>, \<open>tm_isdst\<close>.\<close>

definition date_toTM :: "date \<Rightarrow> (int \<times> int \<times> int \<times> int \<times> int \<times> int) res" where
  "date_toTM dt = (let day = dayOfWeek dt; day = (if day = 7 then 0 else day) in
     bindR (dayOfYear dt) (\<lambda>yday. Inr (d_day dt, d_month dt - 1, s32 (d_year dt - 1900), day, yday - 1, - 1)))"

definition date_addDays :: "int \<Rightarrow> date \<Rightarrow> date" where
  "date_addDays days dt = update_ymd (dt\<lparr>d_julian := s32 (d_julian dt + days)\<rparr>)"

definition addToMonth :: "int \<Rightarrow> date \<Rightarrow> date res" where
  "addToMonth months dt = (let
     tmonths = s32 (d_month dt + months);
     years = tmonths sdiv 12;
     tmonths = tmonths smod 12;
     years = (if tmonths < 0 then years - 1 else years);
     tmonths = (if tmonths < 0 then 12 + tmonths else tmonths);
     dt = dt\<lparr>d_month := w8 tmonths, d_year := s32 (d_year dt + years)\<rparr>
   in bindR (daysInMonth dt) (\<lambda>n. Inr (update_julian (if n < d_day dt then dt\<lparr>d_day := n\<rparr> else dt))))"

definition addToYear :: "int \<Rightarrow> date \<Rightarrow> date" where
  "addToYear years dt = (let
     dt = dt\<lparr>d_year := s32 (d_year dt + years)\<rparr>;
     dt = (if d_month dt = 2 \<and> d_day dt = 29 then (if \<not> isLeapYear dt then dt\<lparr>d_day := 28\<rparr> else dt) else dt)
   in update_julian dt)"

definition date_incr :: "date \<Rightarrow> date" where
  "date_incr dt = update_ymd (dt\<lparr>d_julian := s32 (d_julian dt + 1)\<rparr>)"

definition date_decr :: "date \<Rightarrow> date" where
  "date_decr dt = update_ymd (dt\<lparr>d_julian := s32 (d_julian dt - 1)\<rparr>)"

definition date_add_assign :: "date \<Rightarrow> date \<Rightarrow> date" where
  "date_add_assign d dt = update_ymd (dt\<lparr>d_julian := s32 (d_julian dt + d_julian d)\<rparr>)"

definition date_sub_assign :: "date \<Rightarrow> date \<Rightarrow> date" where
  "date_sub_assign d dt = update_ymd (dt\<lparr>d_julian := s32 (d_julian dt - d_julian d)\<rparr>)"

definition date_addDays_assign :: "int \<Rightarrow> date \<Rightarrow> date" where
  "date_addDays_assign days dt = update_ymd (dt\<lparr>d_julian := s32 (d_julian dt + days)\<rparr>)"

definition date_subDays_assign :: "int \<Rightarrow> date \<Rightarrow> date" where
  "date_subDays_assign days dt = update_ymd (dt\<lparr>d_julian := s32 (d_julian dt - days)\<rparr>)"

text \<open>The free operators.\<close>

definition date_lt :: "date \<Rightarrow> date \<Rightarrow> bool" where
  "date_lt date1 date2 \<longleftrightarrow> d_julian date1 < d_julian date2"

definition date_le :: "date \<Rightarrow> date \<Rightarrow> bool" where
  "date_le date1 date2 \<longleftrightarrow> d_julian date1 \<le> d_julian date2"

definition date_gt :: "date \<Rightarrow> date \<Rightarrow> bool" where
  "date_gt date1 date2 \<longleftrightarrow> d_julian date1 > d_julian date2"

definition date_ge :: "date \<Rightarrow> date \<Rightarrow> bool" where
  "date_ge date1 date2 \<longleftrightarrow> d_julian date1 \<ge> d_julian date2"

definition date_eq :: "date \<Rightarrow> date \<Rightarrow> bool" where
  "date_eq date1 date2 \<longleftrightarrow> d_julian date1 = d_julian date2"

definition date_ne :: "date \<Rightarrow> date \<Rightarrow> bool" where
  "date_ne date1 date2 \<longleftrightarrow> d_julian date1 \<noteq> d_julian date2"

text \<open>The date of the clock is an argument.\<close>

definition date_isToday :: "date \<Rightarrow> date \<Rightarrow> bool" where
  "date_isToday today dt \<longleftrightarrow> date_eq dt today"

definition date_minus :: "date \<Rightarrow> date \<Rightarrow> date" where
  "date_minus date1 date2 = date_of_julian (s32 (d_julian date1 - d_julian date2))"

definition date_minus_days :: "date \<Rightarrow> int \<Rightarrow> date" where
  "date_minus_days dt days = date_of_julian (s32 (d_julian dt - days))"

definition days_minus_date :: "int \<Rightarrow> date \<Rightarrow> date" where
  "days_minus_date days dt = date_of_julian (s32 (days - d_julian dt))"

definition date_plus :: "date \<Rightarrow> date \<Rightarrow> date" where
  "date_plus date1 date2 = date_of_julian (s32 (d_julian date1 + d_julian date2))"

definition date_plus_days :: "date \<Rightarrow> int \<Rightarrow> date" where
  "date_plus_days dt days = date_of_julian (s32 (d_julian dt + days))"

definition days_plus_date :: "int \<Rightarrow> date \<Rightarrow> date" where
  "days_plus_date days dt = date_of_julian (s32 (days + d_julian dt))"

text \<open>The accessor narrows the year to 16 bits.\<close>

definition date_year :: "date \<Rightarrow> int" where
  "date_year dt = s16 (d_year dt)"

section \<open>The calendar, as a reference\<close>

definition leap :: "int \<Rightarrow> bool" where
  "leap y \<longleftrightarrow> y mod 4 = 0 \<and> y mod 100 \<noteq> 0 \<or> y mod 400 = 0"

definition month_days :: "int \<Rightarrow> int \<Rightarrow> int" where
  "month_days y m = (if m = 2 then if leap y then 29 else 28 else if m \<in> {4, 6, 9, 11} then 30 else 31)"

definition valid_ymd :: "int \<Rightarrow> int \<Rightarrow> int \<Rightarrow> bool" where
  "valid_ymd d m y \<longleftrightarrow> 1 \<le> m \<and> m \<le> 12 \<and> 1 \<le> d \<and> d \<le> month_days y m \<and> - 4799 \<le> y \<and> y \<le> 32767"

definition next_day :: "int \<times> int \<times> int \<Rightarrow> int \<times> int \<times> int" where
  "next_day t = (case t of (d, m, y) \<Rightarrow> if d < month_days y m then (d + 1, m, y)
     else if m < 12 then (1, m + 1, y) else (1, 1, y + 1))"

text \<open>Years and months counted from March, the number of days before a year and before a month.\<close>

definition myear :: "int \<Rightarrow> int \<Rightarrow> int" where
  "myear m y = (if m \<le> 2 then y + 4799 else y + 4800)"

definition mmonth :: "int \<Rightarrow> int" where
  "mmonth m = (if m \<le> 2 then m + 9 else m - 3)"

definition year_start :: "int \<Rightarrow> int" where
  "year_start Y = 365 * Y + Y div 4 - Y div 100 + Y div 400"

definition month_start :: "int \<Rightarrow> int" where
  "month_start k = (153 * k + 2) div 5"

lemma wraps [simp]:
  "- (2 ^ 31) \<le> x \<Longrightarrow> x < 2 ^ 31 \<Longrightarrow> s32 x = x"
  "- (2 ^ 15) \<le> x \<Longrightarrow> x < 2 ^ 15 \<Longrightarrow> s16 x = x" "0 \<le> x \<Longrightarrow> x < 2 ^ 32 \<Longrightarrow> w32 x = x" "0 \<le> x \<Longrightarrow> x < 2 ^ 8 \<Longrightarrow> w8 x = x"
  by (simp_all add: s32_def s16_def w32_def w8_def signed_take_bit_int_eq_self)

lemma sdiv_nonneg: "0 \<le> a \<Longrightarrow> 0 < b \<Longrightarrow> a sdiv b = a div (b :: int)"
  by (cases "a = 0") (simp_all add: signed_divide_int_def)

lemma smod_zero: "a smod (b :: int) = 0 \<longleftrightarrow> a mod b = 0"
  by (auto simp: signed_modulo_int_def sgn_if abs_if mod_minus_right split: if_splits)

lemma months: "1 \<le> m \<Longrightarrow> m \<le> 12 \<Longrightarrow> m \<in> {1, 2, 3, 4, 5, 6, 7, 8, 9, 10, 11, 12 :: int}"
  by (simp; presburger)

section \<open>From year, month and day to the day number\<close>

lemma month_start_facts:
  assumes "1 \<le> m" "m \<le> 12"
  shows "0 \<le> mmonth m" "mmonth m \<le> 11" "367 * (m - 2 - (m - 14) sdiv 12 * 12) sdiv 12 = month_start (mmonth m) + 30"
    "(m - 14) sdiv 12 = (if m \<le> 2 then - 1 else 0)"
  using months [OF assms] by (elim insertE emptyE; simp add: mmonth_def month_start_def signed_divide_int_def)+

lemma quarters: "146097 * b div 4 = 36524 * b + b div (4 :: int)" "1461 * b div 4 = 365 * b + b div (4 :: int)"
proof -
  have "146097 * b = 36524 * b * 4 + b" "1461 * b = 365 * b * 4 + b" by simp_all
  then show "146097 * b div 4 = 36524 * b + b div 4" "1461 * b div 4 = 365 * b + b div 4"
    by (simp_all only: div_mult_self3)
qed

lemma four_times_quarters: "4 * (146097 * b div 4) = 146097 * b - b mod (4 :: int)" "4 * (1461 * b div 4) = 1461 * b - b mod (4 :: int)"
  unfolding quarters minus_mult_div_eq_mod [of b 4, symmetric] by simp_all

lemma div_within: "0 \<le> (a :: int) \<Longrightarrow> 0 < k \<Longrightarrow> 0 \<le> a div k \<and> a div k \<le> a"
  using zdiv_mono2 [of a 1 k] by (simp add: pos_imp_zdiv_nonneg_iff)

lemma three_quarters: "3 * (q + 1) div 4 = q - q div (4 :: int)"
proof (rule int_div_pos_eq [where r = "3 - q mod 4"])
  show "3 * (q + 1) = 4 * (q - q div 4) + (3 - q mod 4)" 
    unfolding minus_mult_div_eq_mod [of q 4, symmetric] by simp
qed (use pos_mod_bound [of 4 q] pos_mod_sign [of 4 q] in simp_all)

lemma century:
  assumes "0 \<le> b" "0 \<le> c" "c < 100"
  shows "year_start (100 * b + c) = 146097 * b div 4 + 1461 * c div 4"
proof -
  have q: "(100 * b + c) div 4 = 25 * b + c div 4" "(100 * b + c) div 100 = b" using assms by simp_all
  have "(100 * b + c) div 400 = (100 * b + c) div 100 div 4" using zdiv_zmult2_eq [of 4 "100 * b + c" 100] by simp
  then have q4: "(100 * b + c) div 400 = b div 4" using q(2) by simp
  show ?thesis unfolding year_start_def q q4 quarters by simp
qed

lemma year_start_within: "0 \<le> Y \<Longrightarrow> 364 * Y \<le> year_start Y \<and> year_start Y \<le> 367 * Y"
proof -
  assume Y: "0 \<le> Y"
  have "0 \<le> p \<and> p \<le> Y \<Longrightarrow> 0 \<le> q \<and> q \<le> Y \<Longrightarrow> 0 \<le> r \<and> r \<le> Y \<Longrightarrow>
      364 * Y \<le> 365 * Y + p - q + r \<and> 365 * Y + p - q + r \<le> 367 * Y" for p q r by auto
  from this [OF div_within [OF Y] div_within [OF Y] div_within [OF Y]]
  show ?thesis unfolding year_start_def by simp
qed

lemma julian_number:
  assumes "1 \<le> m" "m \<le> 12" "0 \<le> d" "d \<le> 31" "- 4799 \<le> y" "y \<le> 32767"
  shows "julian_of d m y
    = d + month_start (mmonth m) + year_start (myear m y) - 32045"
proof -
  let ?Y = "myear m y"
  note mf = month_start_facts [OF assms(1,2)]
  have Y: "0 \<le> ?Y" "?Y \<le> 1005000" using assms by (auto simp: myear_def)
  have a: "y + 4800 + (m - 14) sdiv 12 = ?Y" "y + 4900 + (m - 14) sdiv 12 = ?Y + 100" using mf(4) by (simp_all add: myear_def)
  have w: "s32 ?Y = ?Y" "s32 (1461 * ?Y) = 1461 * ?Y" "s32 (?Y + 100) = ?Y + 100" using Y by simp_all
  have "1461 * ?Y sdiv 4 = 365 * ?Y + ?Y div 4" using sdiv_nonneg [of "1461 * ?Y" 4] Y(1) by (simp only: quarters)
  moreover have "(?Y + 100) sdiv 100 = ?Y div 100 + 1" using sdiv_nonneg [of "?Y + 100" 100] Y(1) by simp
  moreover have "(3 * (?Y div 100 + 1)) sdiv 4 = ?Y div 100 - ?Y div 100 div 4"
    using sdiv_nonneg [of "3 * (?Y div 100 + 1)" 4] div_within [OF Y(1), of 100] unfolding three_quarters by simp
  moreover have "?Y div 100 div 4 = ?Y div 400" using zdiv_zmult2_eq [of 4 ?Y 100] by simp
  ultimately have ys: "1461 * ?Y sdiv 4 - (3 * ((?Y + 100) sdiv 100)) sdiv 4 = year_start ?Y"
    unfolding year_start_def by simp
  have ms: "0 \<le> month_start (mmonth m)" "month_start (mmonth m) \<le> 337" using mf by (auto simp: month_start_def)
  have yb: "0 \<le> year_start ?Y" "year_start ?Y \<le> 368835000"
    using year_start_within [OF Y(1)] Y by simp_all
  have "julian_of d m y
      = s32 (d - 32075 + 1461 * ?Y sdiv 4 + (month_start (mmonth m) + 30) - (3 * ((?Y + 100) sdiv 100)) sdiv 4)"
    unfolding julian_of_def a w mf(3) by (rule refl)
  also have "d - 32075 + 1461 * ?Y sdiv 4 + (month_start (mmonth m) + 30) - (3 * ((?Y + 100) sdiv 100)) sdiv 4
      = d + month_start (mmonth m) + year_start ?Y - 32045" using ys by simp
  also have "s32 \<dots> = \<dots>" using ms yb assms by (intro wraps) simp_all
  finally show ?thesis .
qed

lemma julian_number_s32:
  assumes "valid_ymd d m y"
  shows "s32 (d + month_start (mmonth m) + year_start (myear m y) - 32045) = d + month_start (mmonth m) + year_start (myear m y) - 32045"
proof -
  have v: "1 \<le> m" "m \<le> 12" "0 \<le> d" "d \<le> 31" "- 4799 \<le> y" "y \<le> 32767"
    using assms by (auto simp: valid_ymd_def month_days_def split: if_splits)
  then have "0 \<le> myear m y" "myear m y \<le> 1004800" by (auto simp: myear_def)
  then have "0 \<le> year_start (myear m y)" "year_start (myear m y) \<le> 368761600" using year_start_within by fastforce+
  moreover have "0 \<le> month_start (mmonth m)" "month_start (mmonth m) \<le> 337"
    using month_start_facts [OF v(1,2)] by (auto simp: month_start_def)
  ultimately show ?thesis using v by (intro wraps) simp_all
qed

section \<open>From the day number to year, month and day\<close>

lemma decode_century:
  assumes b: "0 \<le> b" "0 \<le> c" "c < 100" and e: "1 \<le> e" "e \<le> 366" "e = 366 \<longrightarrow> c mod 4 = 3 \<and> (c = 99 \<longrightarrow> b mod 4 = 3)"
    and A: "A = e + 146097 * b div 4 + 1461 * (c :: int) div 4"
  shows "4 * (A + 36524) div 146097 - 1 = b"
proof -
  define r1 where "r1 = b mod 4"
  define r2 where "r2 = c mod 4"
  have q: "4 * (146097 * b div 4) = 146097 * b - r1" "4 * (1461 * c div 4) = 1461 * c - r2"
    unfolding r1_def r2_def by (rule four_times_quarters)+
  have r: "0 \<le> r1" "r1 \<le> 3" "0 \<le> r2" "r2 \<le> 3" "r2 \<le> c" unfolding r1_def r2_def using b by (simp_all add: zmod_le_nonneg_dividend)
  have A4: "4 * (A + 36524) = 146097 * (b + 1) + (1461 * c - r1 - r2 + 4 * e - 1)" using A q by simp
  have lo: "0 \<le> 1461 * c - r1 - r2 + 4 * e - 1" using r e b by linarith
  have hi: "1461 * c - r1 - r2 + 4 * e - 1 < 146097"
  proof (cases "c = 99")
    case True
    then have r2: "r2 = 3" by (simp add: r2_def)
    have "e = 366 \<Longrightarrow> r1 = 3" using e(3) True by (simp add: r1_def)
    then show ?thesis using True r2 e(2) r by (cases "e = 366") auto
  next
    case False
    then show ?thesis using b(3) e(2) r by linarith
  qed
  have "4 * (A + 36524) div 146097 = b + 1" by (rule int_div_pos_eq [OF A4 lo hi])
  then show ?thesis by simp
qed

lemma decode_year:
  assumes "0 \<le> c" and e: "1 \<le> e" "e \<le> 366" "e = 366 \<longrightarrow> c mod 4 = 3"
  shows "4 * (e + 1461 * (c :: int) div 4 + 365) div 1461 - 1 = c"
proof -
  define r2 where "r2 = c mod 4"
  have q: "4 * (1461 * c div 4) = 1461 * c - r2" unfolding r2_def by (rule four_times_quarters)
  have r: "0 \<le> r2" "r2 \<le> 3" by (simp_all add: r2_def)
  have "4 * (e + 1461 * c div 4 + 365) = 1461 * (c + 1) + (4 * e - 1 - r2)" using q by simp
  moreover have "0 \<le> 4 * e - 1 - r2" "4 * e - 1 - r2 < 1461" using r e by (auto simp: r2_def) linarith?
  ultimately have "4 * (e + 1461 * c div 4 + 365) div 1461 = c + 1" by (rule int_div_pos_eq)
  then show ?thesis by simp
qed

lemma month_decode:
  assumes "0 \<le> k" "k \<le> 11" "1 \<le> d" "d \<le> (if k = 11 then 29 else if k \<in> {1, 3, 6, 8} then 30 else 31)"
  shows "(5 * (d + month_start k - 1) + 2) div 153 = k"
proof -
  have "k \<in> {0, 1, 2, 3, 4, 5, 6, 7, 8, 9, 10, 11}" using assms(1,2) by (simp; presburger)
  then have "153 * k \<le> 5 * (d + month_start k - 1) + 2 \<and> 5 * (d + month_start k - 1) + 2 < 153 * (k + 1)"
    using assms(3,4) by (elim insertE emptyE; simp add: month_start_def)
  then show ?thesis
    by (intro int_div_pos_eq [of _ 153 k "5 * (d + month_start k - 1) + 2 - 153 * k"]) auto
qed

lemma leap_year_day:
  assumes "leap y" "- 4799 \<le> y" "b = (y + 4799) div 100" "c = (y + 4799) mod 100"
  shows "c mod 4 = 3 \<and> (c = 99 \<longrightarrow> b mod 4 = 3)"
proof -
  have "4 dvd y" using assms(1) dvd_trans [of 4 400 y] by (auto simp: leap_def mod_eq_0_iff_dvd)
  then have "(y + 4799) mod 4 = 3" by presburger
  moreover have "c mod 4 = (y + 4799) mod 4" unfolding assms(4) by (rule mod_mod_cancel) simp
  ultimately have c: "c mod 4 = 3" by simp
  have "b mod 4 = 3" if "c = 99"
  proof -
    have y: "y = 100 * (b - 47)" using that assms(3,4) mult_div_mod_eq [of 100 "y + 4799"] by simp
    then have "y mod 100 = 0" by simp
    then have "y mod 400 = 0" using assms(1) by (simp add: leap_def)
    then obtain k where "100 * (b - 47) = 400 * k" using y by (auto simp: mod_eq_0_iff_dvd elim: dvdE)
    then have "b = 4 * (k + 11) + 3" by simp
    then show ?thesis by presburger
  qed
  with c show ?thesis by blast
qed

lemma julian_decode:
  assumes v: "valid_ymd d m y" and J: "J = d + month_start (mmonth m) + year_start (myear m y) - 32045"
  shows "update_ymd (dt\<lparr>d_julian := J\<rparr>) = dt\<lparr>d_julian := J, d_day := d, d_month := m, d_year := y\<rparr>"
proof -
  let ?Y = "myear m y" and ?k = "mmonth m"
  define b c e where "b = ?Y div 100" and "c = ?Y mod 100" and "e = d + month_start ?k"
  have m: "1 \<le> m" "m \<le> 12" "1 \<le> d" "d \<le> month_days y m" "- 4799 \<le> y" "y \<le> 32767" using v by (simp_all add: valid_ymd_def)
  note mf = month_start_facts [OF m(1,2)]
  have Y: "0 \<le> ?Y" "?Y \<le> 1004800" using m by (auto simp: myear_def)
  have bc: "0 \<le> b" "b \<le> 10048" "0 \<le> c" "c < 100" and Yb: "?Y = 100 * b + c"
    using Y unfolding b_def c_def by (simp_all add: pos_imp_zdiv_nonneg_iff)
  have ys: "year_start ?Y = 146097 * b div 4 + 1461 * c div 4" unfolding Yb by (rule century) (use bc in auto)
  have ms: "0 \<le> month_start ?k" "month_start ?k \<le> 337" "?k \<noteq> 11 \<Longrightarrow> month_start ?k \<le> 306"
    using months [OF m(1,2)] by (elim insertE emptyE; simp add: mmonth_def month_start_def)+
  have d: "d \<le> (if ?k = 11 then 29 else if ?k \<in> {1, 3, 6, 8} then 30 else 31)"
    using months [OF m(1,2)] m(4) by (elim insertE emptyE) (auto simp: mmonth_def month_days_def split: if_splits)
  have e: "1 \<le> e" "e \<le> 366" unfolding e_def using m(3) ms d by (auto split: if_splits)
  have e366: "e = 366 \<longrightarrow> c mod 4 = 3 \<and> (c = 99 \<longrightarrow> b mod 4 = 3)"
  proof
    assume "e = 366"
    then have k: "?k = 11" "d = 29" using ms d unfolding e_def by (auto simp: month_start_def split: if_splits)
    then have m2: "m = 2" using m(2) by (auto simp: mmonth_def split: if_splits)
    then have "leap y" using k(2) m(4) by (auto simp: month_days_def split: if_splits)
    then show "c mod 4 = 3 \<and> (c = 99 \<longrightarrow> b mod 4 = 3)"
      using leap_year_day [of y b c] m(5) m2 by (simp add: b_def c_def myear_def)
  qed
  have e4: "e = 366 \<longrightarrow> c mod 4 = 3" using e366 by blast
  define A where "A = J + 32045"
  have A: "A = e + 146097 * b div 4 + 1461 * c div 4" using J ys by (simp add: A_def e_def)
  have q: "0 \<le> 146097 * b div 4" "146097 * b div 4 \<le> 367024000" "0 \<le> 1461 * c div 4" "1461 * c div 4 \<le> 36200"
    using bc by (simp_all add: pos_imp_zdiv_nonneg_iff)
  have wA: "w32 (J + 32045) = A" using A q e by (simp add: A_def [symmetric])
  have B: "w32 (w32 (4 * (A + 36524)) div 146097 - 1) = b"
    using decode_century [OF bc(1,3,4) e e366 A] A q e bc by simp
  have C: "w32 (A - w32 (146097 * b) div 4) = e + 1461 * c div 4" using bc q e A by simp
  have D: "w32 (w32 (4 * (e + 1461 * c div 4 + 365)) div 1461 - 1) = c"
    using decode_year [OF bc(3) e e4] q e bc by simp
  have E: "w32 (e + 1461 * c div 4 - w32 (1461 * c) div 4) = e" using bc e by simp
  have M: "w32 (5 * (e - 1) + 2) div 153 = ?k"
    using month_decode [OF mf(1,2) m(3) d] e by (simp add: e_def)
  have k: "w8 (?k + 3 - 12 * (?k div 10)) = m" "?k div 10 = (if m \<le> 2 then 1 else 0)"
    using months [OF m(1,2)] by (elim insertE emptyE; simp add: mmonth_def)+
  have "w32 (153 * ?k + 2) div 5 = month_start ?k" using mf(1,2) by (simp add: month_start_def)
  then have dd: "w8 (e - w32 (153 * ?k + 2) div 5) = d" using m(3) d by (simp add: e_def split: if_splits)
  have yy: "s32 (100 * b + c - 4800 + ?k div 10) = y"
    using Yb k(2) m(5,6) by (simp add: myear_def split: if_splits)
  have sel: "d_julian (dt\<lparr>d_julian := J\<rparr>) = J" by simp
  show ?thesis unfolding update_ymd_def Let_def sel wA B C D E M k(1) dd yy by simp
qed

lemma date_of_ymd_eq:
  "0 \<le> d \<Longrightarrow> d < 256 \<Longrightarrow> 0 \<le> m \<Longrightarrow> m < 256 \<Longrightarrow> - 32768 \<le> y \<Longrightarrow> y \<le> 32767 \<Longrightarrow>
   date_of_ymd d m y = \<lparr>d_julian = julian_of d m y, d_day = d, d_month = m, d_year = y\<rparr>"
  by (simp add: date_of_ymd_def date_update_def update_julian_def date_blank_def)

lemma date_of_ymd_julian:
  "valid_ymd d m y \<Longrightarrow> date_of_ymd d m y = \<lparr>d_julian = d + month_start (mmonth m) + year_start (myear m y) - 32045,
     d_day = d, d_month = m, d_year = y\<rparr>"
proof -
  assume v: "valid_ymd d m y"
  then have b: "1 \<le> m" "m \<le> 12" "0 \<le> d" "d \<le> 31" "- 4799 \<le> y" "y \<le> 32767"
    by (auto simp: valid_ymd_def month_days_def split: if_splits)
  have "date_of_ymd d m y = \<lparr>d_julian = julian_of d m y, d_day = d, d_month = m, d_year = y\<rparr>" using b by (intro date_of_ymd_eq) simp_all
  then show ?thesis unfolding julian_number [OF b] .
qed

section \<open>Consecutive days\<close>

lemma div_step: "0 < n \<Longrightarrow> ((Y :: int) + 1) div n = Y div n + (if (Y + 1) mod n = 0 then 1 else 0)"
proof -
  assume n: "0 < n"
  have r: "0 \<le> Y mod n" "Y mod n < n" and Y: "Y = n * (Y div n) + Y mod n" using n by simp_all
  show ?thesis
  proof (cases "Y mod n + 1 = n")
    case True
    then have "Y + 1 = n * (Y div n + 1) + 0" unfolding distrib_left using Y by linarith
    from int_div_pos_eq [OF this] int_mod_pos_eq [OF this] n show ?thesis by simp
  next
    case False
    have "Y + 1 = n * (Y div n) + (Y mod n + 1)" using Y by simp
    from int_div_pos_eq [OF this] int_mod_pos_eq [OF this] r False show ?thesis by simp
  qed
qed

lemma year_start_step:
  assumes "0 \<le> y + 4799"
  shows "year_start (y + 4800) = year_start (y + 4799) + 365 + (if leap y then 1 else 0)"
proof -
  let ?Y = "y + 4799"
  have m: "(?Y + 1) mod 4 = 0 \<longleftrightarrow> y mod 4 = 0" "(?Y + 1) mod 100 = 0 \<longleftrightarrow> y mod 100 = 0" "(?Y + 1) mod 400 = 0 \<longleftrightarrow> y mod 400 = 0"
    using mod_mult_self1 [of y 1200 4] mod_mult_self1 [of y 48 100] mod_mult_self1 [of y 12 400]
    by (simp_all add: add.commute [of y])
  have "y mod 400 = 0 \<Longrightarrow> y mod 100 = 0" "y mod 100 = 0 \<Longrightarrow> y mod 4 = 0"
    using dvd_trans [of 100 400 y] dvd_trans [of 4 100 y] by (simp_all add: mod_eq_0_iff_dvd)
  then have l: "(if y mod 4 = 0 then 1 else 0) - (if y mod 100 = 0 then 1 else 0) + (if y mod 400 = 0 then 1 else 0)
      = (if leap y then 1 else (0 :: int))" by (auto simp: leap_def)
  have s: "(?Y + 1) div 4 = ?Y div 4 + (if y mod 4 = 0 then 1 else 0)"
    "(?Y + 1) div 100 = ?Y div 100 + (if y mod 100 = 0 then 1 else 0)"
    "(?Y + 1) div 400 = ?Y div 400 + (if y mod 400 = 0 then 1 else 0)"
    by (rule div_step [of 4 ?Y, unfolded m(1), OF zero_less_numeral] div_step [of 100 ?Y, unfolded m(2), OF zero_less_numeral]
        div_step [of 400 ?Y, unfolded m(3), OF zero_less_numeral])+
  have e: "365 * (Y + 1) + (p + a) - (q + b) + (r + c) = 365 * Y + p - q + r + 365 + (a - b + c)" for Y p q r a b c :: int
    by simp
  have "year_start (?Y + 1) = year_start ?Y + 365 + (if leap y then 1 else 0)"
    unfolding year_start_def s e l by (rule refl)
  then show ?thesis by (simp add: add.commute)
qed

lemma next_julian:
  assumes "valid_ymd d m y" "next_day (d, m, y) = (d', m', y')"
  shows "d' + month_start (mmonth m') + year_start (myear m' y') = d + month_start (mmonth m) + year_start (myear m y) + 1"
proof -
  have v: "1 \<le> m" "m \<le> 12" "d \<le> month_days y m" "- 4799 \<le> y" using assms(1) by (simp_all add: valid_ymd_def)
  note ys = year_start_step [of y] year_start_step [of y, unfolded add.commute [of y 4800]]
  show ?thesis
    using months [OF v(1,2)] assms(2) v(3,4) ys
    by (elim insertE emptyE) (auto simp: next_day_def month_days_def mmonth_def myear_def month_start_def split: if_splits)
qed

lemma next_day_valid:
  "valid_ymd d m y \<Longrightarrow> y < 32767 \<Longrightarrow> next_day (d, m, y) = (d', m', y') \<Longrightarrow> valid_ymd d' m' y'"
  by (auto simp: valid_ymd_def next_day_def month_days_def split: if_splits)

lemma isLeapYear_leap: "isLeapYear dt = leap (d_year dt)"
  by (simp add: isLeapYear_def leap_def smod_zero)

lemma daysInMonth_ok:
  assumes "0 \<le> d_month dt" "d_month dt \<le> 12"
  shows "daysInMonth dt = Inr (if d_month dt = 0 then 0 else month_days (d_year dt) (d_month dt))"
proof -
  have "d_month dt = 0 \<or> d_month dt \<in> {1, 2, 3, 4, 5, 6, 7, 8, 9, 10, 11, 12}" using assms months [of "d_month dt"] by linarith
  then show ?thesis unfolding daysInMonth_def isLeapYear_leap
    by (elim disjE insertE emptyE) (simp_all add: days_in_months_def blk_read_def month_days_def)
qed

lemma dayOfYear_ok:
  assumes "valid_ymd d m y"
  shows "dayOfYear (date_of_ymd d m y) = Inr (d_julian (date_of_ymd d m y) - d_julian (date_of_ymd 1 1 y) + 1)"
proof -
  have v: "1 \<le> m" "m \<le> 12" "- 4799 \<le> y" and j: "valid_ymd 1 1 y" using assms by (simp_all add: valid_ymd_def month_days_def)
  note ys = year_start_step [of y] year_start_step [of y, unfolded add.commute [of y 4800]]
  show ?thesis
    using months [OF v(1,2)] v(3) ys
    unfolding dayOfYear_def isLeapYear_leap date_of_ymd_julian [OF assms] date_of_ymd_julian [OF j]
    by (elim insertE emptyE) (auto simp: blk_read_def days_in_year_def mmonth_def myear_def month_start_def)
qed

lemma floor_of_trunc:
  "(if t smod 12 < 0 then t sdiv 12 - 1 else t sdiv 12) = (t :: int) div 12"
  "(if t smod 12 < 0 then 12 + t smod 12 else t smod 12) = t mod 12"
proof -
  have t: "t sdiv 12 * 12 + t smod 12 = t" by (rule sdiv_mult_smod_eq)
  have r: "- 12 < t smod 12" "t smod 12 < 12"
    by (auto simp: signed_modulo_int_def sgn_if abs_if pos_mod_bound intro: less_le_trans [OF _ pos_mod_sign])
  show "(if t smod 12 < 0 then t sdiv 12 - 1 else t sdiv 12) = t div 12"
    using t r int_div_pos_eq [of t 12 "t sdiv 12" "t smod 12"] int_div_pos_eq [of t 12 "t sdiv 12 - 1" "12 + t smod 12"] by auto
  show "(if t smod 12 < 0 then 12 + t smod 12 else t smod 12) = t mod 12"
    using t r int_mod_pos_eq [of t 12 "t sdiv 12" "t smod 12"] int_mod_pos_eq [of t 12 "t sdiv 12 - 1" "12 + t smod 12"] by auto
qed

section \<open>Properties\<close>

text \<open>
  C36. The Julian day number of every calendar date from year -4799 to 32767, the last that the constructor takes, determines it: a
  date constructed from year, month and day, and the date constructed from its day number, are the
  same, and no intermediate value leaves its machine width.
\<close>

theorem date_roundtrip:
  assumes "valid_ymd d m y"
  shows "date_of_julian (d_julian (date_of_ymd d m y)) = date_of_ymd d m y
    \<and> d_day (date_of_ymd d m y) = d \<and> d_month (date_of_ymd d m y) = m \<and> d_year (date_of_ymd d m y) = y
    \<and> date_copy_new (date_of_ymd d m y) = date_of_ymd d m y"
  using julian_decode [OF assms refl, of date_blank]
  unfolding date_of_ymd_julian [OF assms] date_of_julian_def date_copy_new_def date_assign_def by (simp add: date_blank_def)

theorem date_roundtrip_witness:
  "date_of_julian (d_julian (date_of_ymd 29 2 2000)) = date_of_ymd 29 2 2000"
  using date_roundtrip [of 29 2 2000] by (simp add: valid_ymd_def month_days_def leap_def)

text \<open>
  C37. For the years -4799 to 32766, incrementing a date gives the next day of the Gregorian calendar, decrementing undoes it,
  the day number of 1 January 2000 is 2451545, and the day of the year counts from 1 January.
\<close>

theorem date_calendar:
  assumes "valid_ymd d m y" "y < 32767" "next_day (d, m, y) = (d', m', y')"
  shows "date_incr (date_of_ymd d m y) = date_of_ymd d' m' y' \<and> date_decr (date_of_ymd d' m' y') = date_of_ymd d m y
    \<and> d_julian (date_of_ymd 1 1 2000) = 2451545
    \<and> dayOfYear (date_of_ymd d m y) = Inr (d_julian (date_of_ymd d m y) - d_julian (date_of_ymd 1 1 y) + 1)"
proof -
  let ?J = "d + month_start (mmonth m) + year_start (myear m y) - 32045"
  let ?J' = "d' + month_start (mmonth m') + year_start (myear m' y') - 32045"
  have v': "valid_ymd d' m' y'" by (rule next_day_valid [OF assms])
  note D = date_of_ymd_julian [OF assms(1)] and D' = date_of_ymd_julian [OF v']
  have J: "?J' = ?J + 1" using next_julian [OF assms(1,3)] by simp
  have "?J' - 1 = ?J" using J by linarith
  then have s: "s32 (?J + 1) = ?J'" "s32 (?J' - 1) = ?J"
    using julian_number_s32 [OF assms(1)] julian_number_s32 [OF v'] unfolding J by (simp_all only:)
  have "date_incr (date_of_ymd d m y) = date_of_ymd d' m' y'" "date_decr (date_of_ymd d' m' y') = date_of_ymd d m y"
    using julian_decode [OF v' refl, of "date_of_ymd d m y"] julian_decode [OF assms(1) refl, of "date_of_ymd d' m' y'"]
    unfolding date_incr_def date_decr_def D D' by (simp_all only: date.simps s)
  moreover have "d_julian (date_of_ymd 1 1 2000) = 2451545"
    by (subst date_of_ymd_julian) (simp_all add: valid_ymd_def month_days_def mmonth_def myear_def month_start_def year_start_def)
  ultimately show ?thesis using dayOfYear_ok [OF assms(1)] by blast
qed

theorem date_calendar_witness:
  "date_incr (date_of_ymd 28 2 1900) = date_of_ymd 1 3 1900"
  using date_calendar [of 28 2 1900 1 3 1900] by (simp add: valid_ymd_def month_days_def leap_def next_day_def)

text \<open>To \<open>_update_julian\<close> day 0 of month 0 is 30 November of the year before.\<close>

lemma month_zero: "julian_of 0 0 y = julian_of 30 11 (y - 1)"
  unfolding julian_of_def by (simp add: signed_divide_int_def)

text \<open>
  Adding months moves to the month counted on, with the day cut to the length of that month,
  unless that month is December: then the object has month 0 and day 0, and its day number is that
  of 30 November.
\<close>

theorem date_addToMonth:
  assumes "valid_ymd d m y" "\<bar>months\<bar> < 2 ^ 30" "y' = y + (m + months) div 12" "m' = (m + months) mod 12"
    "- 4798 \<le> y'" "y' \<le> 32767"
  shows "if m' \<noteq> 0 then addToMonth months (date_of_ymd d m y) = Inr (date_of_ymd (min d (month_days y' m')) m' y')
    else addToMonth months (date_of_ymd d m y) = Inr (\<lparr>d_julian = d_julian (date_of_ymd 30 11 (y' - 1)), d_day = 0, d_month = 0, d_year = y'\<rparr>)"
proof -
  let ?dt = "date_of_ymd d m y" and ?t = "m + months"
  have v: "1 \<le> m" "m \<le> 12" "1 \<le> d" using assms(1) by (simp_all add: valid_ymd_def)
  have vy: "- 4799 \<le> y" "y \<le> 32767" "d \<le> 31" using assms(1) by (auto simp: valid_ymd_def month_days_def split: if_splits)
  have st: "s32 ?t = ?t" using v assms(2) by (intro wraps) auto
  have f: "d_month ?dt = m" "d_day ?dt = d" "d_year ?dt = y" using date_of_ymd_eq [of d m y] v vy by simp_all
  have m': "0 \<le> m'" "m' < 12" using assms(4) by simp_all
  then have w: "w8 m' = m'" "s32 (y + ?t div 12) = y'" using assms(3,5,6) by simp_all
  note fl = floor_of_trunc [of ?t, folded assms(4)]
  define e where "e = ?dt\<lparr>d_month := m', d_year := y'\<rparr>"
  have e: "d_month e = m'" "d_day e = d" "d_year e = y'" by (simp_all add: e_def f)
  have "addToMonth months ?dt = bindR (daysInMonth e) (\<lambda>n. Inr (update_julian (if n < d then e\<lparr>d_day := n\<rparr> else e)))"
    unfolding addToMonth_def Let_def f st fl w e_def by (simp add: f)
  moreover have "daysInMonth e = Inr (if m' = 0 then 0 else month_days y' m')"
    using daysInMonth_ok [of e] m' by (simp add: e)
  moreover have k: "update_julian (e\<lparr>d_day := k\<rparr>) = date_of_ymd k m' y'" if "0 \<le> k" "k \<le> 31" for k
    using date_of_ymd_eq [of k m' y'] date_of_ymd_eq [of d m y] that m' assms(5,6) v vy by (simp add: update_julian_def e_def)
  moreover have "update_julian e = date_of_ymd d m' y'"
  proof -
    have "e\<lparr>d_day := d\<rparr> = e" using e(2) by (cases e) simp
    then show ?thesis using k [of d] v vy by simp
  qed
  moreover have "0 \<le> (if m' = 0 then 0 else month_days y' m')" "(if m' = 0 then 0 else month_days y' m') \<le> 31"
    by (auto simp: month_days_def)
  ultimately have "addToMonth months ?dt = Inr (date_of_ymd (min d (if m' = 0 then 0 else month_days y' m')) m' y')"
    by (auto simp: min_def)
  then show ?thesis using v(3) month_zero [of y'] date_of_ymd_eq [of 0 0 y'] date_of_ymd_eq [of 30 11 "y' - 1"] assms(5,6) by (simp add: min_def)
qed

theorem date_addToMonth_witness:
  "addToMonth 1 (date_of_ymd 31 1 2001) = Inr (date_of_ymd 28 2 2001)
   \<and> (\<exists>dt. addToMonth 1 (date_of_ymd 15 11 2001) = Inr dt \<and> d_month dt = 0 \<and> d_day dt = 0)"
proof -
  have v: "valid_ymd 31 1 2001" "valid_ymd 15 11 2001" "month_days 2001 2 = 28"
    by (simp_all add: valid_ymd_def month_days_def leap_def)
  have t: "(2001 :: int) = 2001 + (1 + 1) div 12" "(2 :: int) = (1 + 1) mod 12" "(2002 :: int) = 2001 + (11 + 1) div 12" "(0 :: int) = (11 + 1) mod 12"
    by simp_all
  have "addToMonth 1 (date_of_ymd 31 1 2001) = Inr (date_of_ymd (min 31 (month_days 2001 2)) 2 2001)"
    using date_addToMonth [OF v(1) _ t(1,2)] by simp
  moreover have "addToMonth 1 (date_of_ymd 15 11 2001)
      = Inr \<lparr>d_julian = d_julian (date_of_ymd 30 11 (2002 - 1)), d_day = 0, d_month = 0, d_year = 2002\<rparr>"
    using date_addToMonth [OF v(2) _ t(3,4)] by simp
  ultimately show ?thesis unfolding v(3) by simp
qed

text \<open>The first day of the week is Monday, where the header numbers Sunday 1: 1 January 2000 was a
  Saturday.\<close>

lemma dayOfWeek_monday_first: "dayOfWeek (date_of_ymd 1 1 2000) = 6"
proof -
  have "valid_ymd 1 1 2000" by (simp add: valid_ymd_def month_days_def)
  from date_of_ymd_julian [OF this] show ?thesis
    by (simp add: dayOfWeek_def mmonth_def myear_def month_start_def year_start_def signed_modulo_int_def)
qed

end
