(* ===== verification/Mutex.thy ===== *)
theory Mutex
  imports SRL_Prelude
begin

text \<open>
  \<open>Mutex\<close> (src/sys/Mutex.cpp) under arbitrary interleaving of threads. Every thread that is in a
  call of the class has a program counter; a step of a thread is one access to the shared fields or
  one call of the pthread mutex, which is recursive: an owner and a depth. Thread numbers are
  positive, 0 is \<open>NULL_THREAD\<close>. \<open>m_held\<close> is not part of the program: it counts for each thread the
  locks it took less the unlocks it began, which is what the properties speak of.
\<close>

section \<open>Model\<close>

type_synonym tid = nat

datatype mpc = Out | Lock1 | Lock2 | Try1 | Try2 | Got3 | Got4 | Got5
  | Un1 | Un2 | Un3 | Un4 | Un5 | Un6 | Un7 | Raised string

record mstate =
  m_is_locked :: bool
  m_thread_id :: tid
  m_counter :: u32
  m_pmutex :: "(tid \<times> nat) option"
  m_pc :: "tid \<Rightarrow> mpc"
  m_held :: "tid \<Rightarrow> nat"

definition m_init :: mstate where
  "m_init = \<lparr>m_is_locked = False, m_thread_id = 0, m_counter = 0, m_pmutex = None, m_pc = (\<lambda>_. Out), m_held = (\<lambda>_. 0)\<rparr>"

definition goto :: "tid \<Rightarrow> mpc \<Rightarrow> mstate \<Rightarrow> mstate" where
  "goto t p s = s\<lparr>m_pc := (m_pc s)(t := p)\<rparr>"

text \<open>\<open>pthread_mutex_lock\<close>, \<open>_trylock\<close> and \<open>_unlock\<close> of a recursive mutex; \<open>None\<close> waits, or is busy.\<close>

definition pthread_take :: "tid \<Rightarrow> (tid \<times> nat) option \<Rightarrow> (tid \<times> nat) option" where
  "pthread_take t m = (case m of None \<Rightarrow> Some (t, 1) | Some (t', d) \<Rightarrow> if t' = t then Some (t, d + 1) else None)"

definition pthread_release :: "tid \<Rightarrow> (tid \<times> nat) option \<Rightarrow> (tid \<times> nat) option" where
  "pthread_release t m = (case m of Some (t', d) \<Rightarrow> if t' = t then (if d \<le> 1 then None else Some (t, d - 1)) else m | None \<Rightarrow> None)"

text \<open>The tail shared by \<open>lock\<close> and \<open>tryLock\<close> from the acquisition on.\<close>

definition got_step :: "tid \<Rightarrow> mstate \<Rightarrow> mstate" where
  "got_step t s = (case m_pc s t of
     Got3 \<Rightarrow> goto t Got4 (s\<lparr>m_thread_id := t\<rparr>)
   | Got4 \<Rightarrow> goto t Got5 (s\<lparr>m_is_locked := True\<rparr>)
   | Got5 \<Rightarrow> goto t Out (s\<lparr>m_counter := m_counter s + 1, m_held := (m_held s)(t := m_held s t + 1)\<rparr>)
   | _ \<Rightarrow> s)"

definition lock_step :: "tid \<Rightarrow> mstate \<Rightarrow> mstate option" where
  "lock_step t s = (case m_pc s t of
     Lock1 \<Rightarrow> Some (goto t (if m_thread_id s \<noteq> t then Lock2 else Got4) s)
   | Lock2 \<Rightarrow> (case pthread_take t (m_pmutex s) of None \<Rightarrow> None | Some m \<Rightarrow> Some (goto t Got3 (s\<lparr>m_pmutex := Some m\<rparr>)))
   | _ \<Rightarrow> None)"

definition tryLock_step :: "tid \<Rightarrow> mstate \<Rightarrow> mstate option" where
  "tryLock_step t s = (case m_pc s t of
     Try1 \<Rightarrow> Some (goto t (if m_thread_id s \<noteq> t then Try2 else Got4) s)
   | Try2 \<Rightarrow> Some (case pthread_take t (m_pmutex s) of None \<Rightarrow> goto t Out s | Some m \<Rightarrow> goto t Got3 (s\<lparr>m_pmutex := Some m\<rparr>))
   | _ \<Rightarrow> None)"

definition unlock_step :: "tid \<Rightarrow> mstate \<Rightarrow> mstate option" where
  "unlock_step t s = (case m_pc s t of
     Un1 \<Rightarrow> Some (goto t (if m_thread_id s \<noteq> t then Raised ''MutexException'' else Un2) s)
   | Un2 \<Rightarrow> Some (goto t (if m_counter s = 0 then Raised ''MutexException'' else Un3) s)
   | Un3 \<Rightarrow> Some (goto t Un4 (s\<lparr>m_counter := m_counter s - 1, m_held := (m_held s)(t := m_held s t - 1)\<rparr>))
   | Un4 \<Rightarrow> Some (goto t (if m_counter s = 0 then Un5 else if m_counter s < 0 then Raised ''MutexException'' else Un7) s)
   | Un5 \<Rightarrow> Some (goto t Un6 (s\<lparr>m_is_locked := False\<rparr>))
   | Un6 \<Rightarrow> Some (goto t Un7 (s\<lparr>m_thread_id := 0\<rparr>))
   | Un7 \<Rightarrow> Some (goto t Out (if m_counter s = 0 then s\<lparr>m_pmutex := pthread_release t (m_pmutex s)\<rparr> else s))
   | _ \<Rightarrow> None)"

definition isLocked :: "tid \<Rightarrow> mstate \<Rightarrow> tid" where
  "isLocked t s = (if m_thread_id s = t then 0 else m_thread_id s)"

definition lockCount :: "mstate \<Rightarrow> u32" where
  "lockCount s = m_counter s"

text \<open>One step of thread \<open>t\<close>: it enters a call, goes on in one, or leaves by an exception. A thread
  never takes the lock for the \<open>2 ^ 32\<close>-th time.\<close>

inductive mstep :: "tid \<Rightarrow> mstate \<Rightarrow> mstate \<Rightarrow> bool" for t where
  call_lock: "m_pc s t = Out \<Longrightarrow> mstep t s (goto t Lock1 s)"
| call_tryLock: "m_pc s t = Out \<Longrightarrow> mstep t s (goto t Try1 s)"
| call_unlock: "m_pc s t = Out \<Longrightarrow> mstep t s (goto t Un1 s)"
| lock: "lock_step t s = Some s' \<Longrightarrow> mstep t s s'"
| tryLock: "tryLock_step t s = Some s' \<Longrightarrow> mstep t s s'"
| got: "m_pc s t \<in> {Got3, Got4, Got5} \<Longrightarrow> Suc (m_held s t) < 2 ^ 32 \<Longrightarrow> mstep t s (got_step t s)"
| unlock: "unlock_step t s = Some s' \<Longrightarrow> mstep t s s'"
| raised: "m_pc s t = Raised e \<Longrightarrow> mstep t s (goto t Out s)"

inductive mreach :: "mstate \<Rightarrow> bool" where
  init: "mreach m_init"
| step: "mreach s \<Longrightarrow> 0 < t \<Longrightarrow> mstep t s s' \<Longrightarrow> mreach s'"


section \<open>The invariant\<close>

definition owns :: "mstate \<Rightarrow> tid \<Rightarrow> bool" where
  "owns s t \<longleftrightarrow> m_pmutex s = Some (t, 1)"

text \<open>What holds of a thread at each program counter; \<open>n\<close> is the number of locks it holds.\<close>

definition at_pc :: "mpc \<Rightarrow> bool \<Rightarrow> bool \<Rightarrow> u32 \<Rightarrow> nat \<Rightarrow> bool" where
  "at_pc p own me cnt n \<longleftrightarrow> (case p of
     Got3 \<Rightarrow> own \<and> \<not> me \<and> cnt = 0 \<and> n = 0
   | Got4 \<Rightarrow> own \<and> me \<and> cnt = of_nat n
   | Got5 \<Rightarrow> own \<and> me \<and> cnt = of_nat n
   | Lock2 \<Rightarrow> \<not> own \<and> \<not> me \<and> n = 0
   | Try2 \<Rightarrow> \<not> own \<and> \<not> me \<and> n = 0
   | Un2 \<Rightarrow> own \<and> me \<and> cnt = of_nat n \<and> 0 < n
   | Un3 \<Rightarrow> own \<and> me \<and> cnt = of_nat n \<and> 0 < n
   | Un4 \<Rightarrow> own \<and> me \<and> cnt = of_nat n
   | Un5 \<Rightarrow> own \<and> me \<and> cnt = 0 \<and> n = 0
   | Un6 \<Rightarrow> own \<and> me \<and> cnt = 0 \<and> n = 0
   | Un7 \<Rightarrow> own \<and> cnt = of_nat n \<and> (me \<longleftrightarrow> 0 < n)
   | Raised e \<Rightarrow> \<not> own \<and> \<not> me \<and> n = 0
   | _ \<Rightarrow> (own \<longleftrightarrow> 0 < n) \<and> (me \<longleftrightarrow> 0 < n) \<and> (0 < n \<longrightarrow> cnt = of_nat n))"

definition minv :: "mstate \<Rightarrow> bool" where
  "minv s \<longleftrightarrow> (\<forall>t>0. at_pc (m_pc s t) (owns s t) (m_thread_id s = t) (m_counter s) (m_held s t) \<and> m_held s t < 2 ^ 32)
     \<and> (case m_pmutex s of None \<Rightarrow> m_thread_id s = 0 \<and> m_counter s = 0
        | Some (t, d) \<Rightarrow> 0 < t \<and> d = 1 \<and> m_thread_id s \<in> {0, t})"

lemma of_nat_u32_0: "n < 2 ^ 32 \<Longrightarrow> (of_nat n :: u32) = 0 \<longleftrightarrow> n = 0"
  using unat_of_nat_small [where 'a = 32, of n] by (auto simp: unat_eq_zero [symmetric])

lemma minv_init: "minv m_init"
  by (simp add: minv_def m_init_def at_pc_def owns_def)

text \<open>A thread other than the one that moves neither owns the mutex nor holds a lock, or nothing
  shared changes; either way its part of the invariant stays.\<close>

definition mshared :: "mstate \<Rightarrow> bool" where
  "mshared s \<longleftrightarrow> (case m_pmutex s of None \<Rightarrow> m_thread_id s = 0 \<and> m_counter s = 0
     | Some (t, d) \<Rightarrow> 0 < t \<and> d = 1 \<and> m_thread_id s \<in> {0, t})"

definition mlocal :: "mstate \<Rightarrow> tid \<Rightarrow> bool" where
  "mlocal s t \<longleftrightarrow> at_pc (m_pc s t) (owns s t) (m_thread_id s = t) (m_counter s) (m_held s t) \<and> m_held s t < 2 ^ 32"

lemma minv_alt: "minv s \<longleftrightarrow> (\<forall>t>0. mlocal s t) \<and> mshared s"
  by (simp add: minv_def mlocal_def mshared_def)

lemma goto_simps [simp]:
  "m_pc (goto t p s) = (m_pc s)(t := p)" "m_pmutex (goto t p s) = m_pmutex s" "m_thread_id (goto t p s) = m_thread_id s"
  "m_counter (goto t p s) = m_counter s" "m_held (goto t p s) = m_held s" "m_is_locked (goto t p s) = m_is_locked s"
  "owns (goto t p s) = owns s"
  by (simp_all add: goto_def owns_def fun_eq_iff)

lemma mshared_goto [simp]: "mshared (goto t p s) = mshared s"
  by (cases "m_pmutex s") (auto simp: goto_def mshared_def)

lemma at_pc_other: "at_pc p False False cnt n \<Longrightarrow> at_pc p False False cnt' n"
  by (cases p) (auto simp: at_pc_def)

definition foreign :: "mstate \<Rightarrow> tid \<Rightarrow> bool" where
  "foreign s t \<longleftrightarrow> \<not> owns s t \<and> m_thread_id s \<noteq> t"

lemma foreign_others: "mshared s \<Longrightarrow> owns s t \<or> m_pmutex s = None \<Longrightarrow> t' \<noteq> t \<Longrightarrow> 0 < t' \<Longrightarrow> foreign s t'"
  by (auto simp: foreign_def owns_def mshared_def)

lemma minv_frame:
  assumes "minv s" "0 < t" "\<And>t'. t' \<noteq> t \<Longrightarrow> m_pc s' t' = m_pc s t' \<and> m_held s' t' = m_held s t'"
    and "mlocal s' t" "mshared s'"
    and "(m_pmutex s' = m_pmutex s \<and> m_thread_id s' = m_thread_id s \<and> m_counter s' = m_counter s)
      \<or> ((owns s t \<or> m_pmutex s = None) \<and> (owns s' t \<or> m_pmutex s' = None))"
  shows "minv s'"
proof -
  have "mlocal s' t'" if "0 < t'" "t' \<noteq> t" for t'
  proof -
    have l: "mlocal s t'" and sh: "mshared s" using assms(1) that by (simp_all add: minv_alt)
    from assms(6) show ?thesis
    proof
      assume "m_pmutex s' = m_pmutex s \<and> m_thread_id s' = m_thread_id s \<and> m_counter s' = m_counter s"
      then show ?thesis using l assms(3) [OF that(2)] by (simp add: mlocal_def owns_def)
    next
      assume o: "(owns s t \<or> m_pmutex s = None) \<and> (owns s' t \<or> m_pmutex s' = None)"
      then have "foreign s t'" "foreign s' t'" using foreign_others [OF sh] foreign_others [OF assms(5)] that by blast+
      then show ?thesis 
        using l assms(3) [OF that(2)] at_pc_other [of "m_pc s t'" "m_counter s" "m_held s t'" "m_counter s'"]
        by (simp add: mlocal_def foreign_def)
    qed
  qed
  then show ?thesis using assms(4,5) by (auto simp: minv_alt)
qed

text \<open>The step of a thread that changes nothing but its program counter.\<close>

lemma minv_goto: "minv s \<Longrightarrow> 0 < t \<Longrightarrow> at_pc p (owns s t) (m_thread_id s = t) (m_counter s) (m_held s t) \<Longrightarrow> minv (goto t p s)"
  by (rule minv_frame [of s t]) (simp_all add: minv_alt mlocal_def)

lemma pthread_take_free:
  assumes "minv s" "0 < t" "\<not> owns s t" "pthread_take t (m_pmutex s) = Some m"
  shows "m_pmutex s = None \<and> m = (t, 1)"
  using assms by (auto simp: pthread_take_def minv_alt mshared_def owns_def split: option.splits if_splits)

lemma minv_take:
  assumes "minv s" "0 < t" "at_pc (m_pc s t) False False (m_counter s) (m_held s t)" "m_held s t = 0"
    and "pthread_take t (m_pmutex s) = Some m" "\<not> owns s t"
  shows "minv (goto t Got3 (s\<lparr>m_pmutex := Some m\<rparr>))"
proof -
  have m: "m_pmutex s = None" "m = (t, 1)" using pthread_take_free [OF assms(1,2,6,5)] by simp_all
  then have z: "m_thread_id s = 0" "m_counter s = 0" using assms(1) by (simp_all add: minv_alt mshared_def)
  let ?s = "s\<lparr>m_pmutex := Some m\<rparr>"
  have o: "owns ?s t" "mshared ?s" using m(2) z assms(2) by (simp_all add: owns_def mshared_def)
  show ?thesis
  proof (rule minv_frame [OF assms(1,2)])
    show "mlocal (goto t Got3 ?s) t" using o(1) z assms(2,4) by (simp add: mlocal_def at_pc_def)
    show "mshared (goto t Got3 ?s)" using o(2) by (simp only: mshared_goto)
    have "owns (goto t Got3 ?s) t" using o(1) by (simp only: goto_simps)
    then show "(m_pmutex (goto t Got3 ?s) = m_pmutex s \<and> m_thread_id (goto t Got3 ?s) = m_thread_id s \<and> m_counter (goto t Got3 ?s) = m_counter s)
      \<or> ((owns s t \<or> m_pmutex s = None) \<and> (owns (goto t Got3 ?s) t \<or> m_pmutex (goto t Got3 ?s) = None))" using m(1) by blast
  qed simp_all
qed

text \<open>A step of the owner on the shared fields.\<close>

lemma minv_owner:
  assumes "minv s" "0 < t" "owns s t" "m_pmutex s' = m_pmutex s"
    and "\<And>t'. t' \<noteq> t \<Longrightarrow> m_pc s' t' = m_pc s t' \<and> m_held s' t' = m_held s t'"
    and "m_thread_id s' \<in> {0, t}" "at_pc (m_pc s' t) True (m_thread_id s' = t) (m_counter s') (m_held s' t)" "m_held s' t < 2 ^ 32"
  shows "minv s'"
proof (rule minv_frame [OF assms(1,2,5)])
  have o: "owns s' t" using assms(3,4) by (simp add: owns_def)
  then show "mlocal s' t" using assms(7,8) by (simp add: mlocal_def)
  show "mshared s'" using assms(2,6) o by (simp add: mshared_def owns_def)
  show "(m_pmutex s' = m_pmutex s \<and> m_thread_id s' = m_thread_id s \<and> m_counter s' = m_counter s)
      \<or> ((owns s t \<or> m_pmutex s = None) \<and> (owns s' t \<or> m_pmutex s' = None))" using o assms(3) by blast
qed

lemma minv_step:
  assumes i: "minv s" and t: "0 < t" and st: "mstep t s s'"
  shows "minv s'"
proof -
  have a: "at_pc (m_pc s t) (owns s t) (m_thread_id s = t) (m_counter s) (m_held s t)" "m_held s t < 2 ^ 32"
    and sh: "mshared s" using i t by (auto simp: minv_alt mlocal_def)
  note goto = minv_goto [OF i t] and take = minv_take [OF i t]
  define own me where "own \<longleftrightarrow> owns s t" and "me \<longleftrightarrow> m_thread_id s = t"
  note b = a [folded own_def me_def] and goto = goto [folded own_def me_def]
  show ?thesis using st
  proof cases
    case call_lock
    then show ?thesis using b by (auto simp: at_pc_def intro!: goto)
  next
    case call_tryLock
    then show ?thesis using b by (auto simp: at_pc_def intro!: goto)
  next
    case call_unlock
    then show ?thesis using b by (auto simp: at_pc_def intro!: goto)
  next
    case (raised e)
    then show ?thesis using b by (auto simp: at_pc_def intro!: goto)
  next
    case lock
    show ?thesis
    proof (cases "m_pc s t = Lock1")
      case True
      then have "s' = goto t (if me then Got4 else Lock2) s" using lock by (auto simp: lock_step_def me_def)
      then show ?thesis using b True by (auto simp: at_pc_def intro!: goto)
    next
      case False
      then obtain m where "m_pc s t = Lock2" "pthread_take t (m_pmutex s) = Some m" "s' = goto t Got3 (s\<lparr>m_pmutex := Some m\<rparr>)"
        using lock by (auto simp: lock_step_def split: mpc.splits option.splits)
      then show ?thesis using a by (auto simp: at_pc_def intro!: take)
    qed
  next
    case tryLock
    show ?thesis
    proof (cases "m_pc s t = Try1")
      case True
      then have "s' = goto t (if me then Got4 else Try2) s" using tryLock by (auto simp: tryLock_step_def me_def)
      then show ?thesis using b True by (auto simp: at_pc_def intro!: goto)
    next
      case False
      then have p: "m_pc s t = Try2" using tryLock by (auto simp: tryLock_step_def split: mpc.splits)
      show ?thesis
      proof (cases "pthread_take t (m_pmutex s)")
        case None
        then show ?thesis using tryLock p b by (auto simp: tryLock_step_def at_pc_def intro!: goto)
      next
        case (Some m)
        then show ?thesis using tryLock p a by (auto simp: tryLock_step_def at_pc_def intro!: take)
      qed
    qed
  next
    case got
    have o: "owns s t" using a(1) got(2) by (auto simp: at_pc_def)
    from got(2) consider "m_pc s t = Got3" | "m_pc s t = Got4" | "m_pc s t = Got5" by blast
    then show ?thesis
      by cases (use a b got(3) sh in \<open>auto simp: got(1) got_step_def at_pc_def me_def mshared_def owns_def intro!: minv_owner [OF i t o]\<close>)
  next
    case unlock
    show ?thesis
    proof (cases "m_pc s t = Un1")
      case True
      then have "s' = goto t (if me then Un2 else Raised ''MutexException'') s" using unlock by (auto simp: unlock_step_def me_def)
      then show ?thesis using b True by (auto simp: at_pc_def intro!: goto)
    next
      case False
      then have o: "owns s t" using a(1) unlock by (auto simp: at_pc_def unlock_step_def split: mpc.splits)
      show ?thesis
      proof (cases "m_pc s t")
        case Un2
        then show ?thesis using unlock a b of_nat_u32_0 [OF a(2)] by (auto simp: unlock_step_def at_pc_def intro!: goto)
      next
        case Un3
        then have "m_counter s - 1 = of_nat (m_held s t - 1)" using b by (simp add: at_pc_def of_nat_diff)
        then show ?thesis using unlock a b Un3 by (auto simp: unlock_step_def at_pc_def me_def intro!: minv_owner [OF i t o])
      next
        case Un4
        then show ?thesis using unlock a b of_nat_u32_0 [OF a(2)] by (auto simp: unlock_step_def at_pc_def intro!: goto)
      next
        case Un5
        then show ?thesis using unlock a b by (auto simp: unlock_step_def at_pc_def me_def intro!: minv_owner [OF i t o])
      next
        case Un6
        then show ?thesis using unlock a b t by (auto simp: unlock_step_def at_pc_def me_def intro!: minv_owner [OF i t o])
      next
        case Un7
        show ?thesis
        proof (cases "m_counter s = 0")
          case True
          then have h: "m_held s t = 0" using Un7 a of_nat_u32_0 [OF a(2)] by (simp add: at_pc_def)
          have z: "m_thread_id s = 0" using Un7 a(1) h sh o by (auto simp: at_pc_def mshared_def owns_def)
          have "s' = goto t Out (s\<lparr>m_pmutex := None\<rparr>)"
            using unlock Un7 True o by (simp add: unlock_step_def pthread_release_def owns_def)
          then show ?thesis using True h z t o
            by (intro minv_frame [OF i t]) (simp_all add: mlocal_def at_pc_def owns_def mshared_def)
        next
          case False
          then show ?thesis using unlock Un7 b by (auto simp: unlock_step_def at_pc_def intro!: goto)
        qed
      qed (use unlock False in \<open>auto simp: unlock_step_def\<close>)
    qed
  qed
qed

lemma mreach_minv: "mreach s \<Longrightarrow> minv s"
  by (induction rule: mreach.induct) (auto intro: minv_init minv_step)

section \<open>Runs of one thread\<close>

text \<open>The invariant gives what a thread with the lock sees, and single steps compose.\<close>

inductive msteps :: "mstate \<Rightarrow> mstate \<Rightarrow> bool" where
  refl: "msteps s s"
| step: "0 < t \<Longrightarrow> mstep t s s' \<Longrightarrow> msteps s' s'' \<Longrightarrow> msteps s s''"

lemma msteps_trans: "msteps s s' \<Longrightarrow> msteps s' s'' \<Longrightarrow> msteps s s''"
  by (induction rule: msteps.induct) (auto intro: msteps.step)

lemma msteps_one: "0 < t \<Longrightarrow> mstep t s s' \<Longrightarrow> msteps s s'"
  by (blast intro: msteps.intros)

lemma msteps_minv: "msteps s s' \<Longrightarrow> minv s \<Longrightarrow> minv s'"
  by (induction rule: msteps.induct) (auto intro: minv_step)

lemmas held_facts = minv_alt mlocal_def at_pc_def

text \<open>From its call to its return \<open>unlock\<close> of a thread with a lock gives up one lock and changes no
  other thread.\<close>

lemma unlock_run:
  assumes "minv s" "0 < t" "m_pc s t = Out" "m_held s t = Suc n"
  shows "\<exists>s'. msteps s s' \<and> m_pc s' t = Out \<and> m_held s' t = n
    \<and> (\<forall>t'. t' \<noteq> t \<longrightarrow> m_pc s' t' = m_pc s t' \<and> m_held s' t' = m_held s t') \<and> (n = 0 \<longrightarrow> m_pmutex s' = None)"
proof -
  have a: "owns s t" "m_thread_id s = t" "m_counter s = of_nat (Suc n)" "Suc n < 2 ^ 32"
    using assms by (auto simp: held_facts dest!: spec [of _ t])
  have c0: "m_counter s \<noteq> 0" using of_nat_u32_0 [OF a(4)] a(3) by simp
  have c1: "m_counter s - 1 = of_nat n" using a(3) by simp
  have cn: "(of_nat n :: u32) = 0 \<longleftrightarrow> n = 0" using of_nat_u32_0 [of n] a(4) by simp
  let ?s1 = "goto t Un1 s" and ?s2 = "goto t Un2 s" and ?s3 = "goto t Un3 s"
  let ?s4 = "goto t Un4 (s\<lparr>m_counter := of_nat n, m_held := (m_held s)(t := n)\<rparr>)"
  have m: "msteps x y" if "mstep t x y" for x y using msteps_one [OF assms(2) that] .
  have 1: "mstep t s ?s1" using assms(3) by (rule mstep.call_unlock)
  have 2: "mstep t ?s1 ?s2" by (rule mstep.unlock) (simp add: unlock_step_def a(2) goto_def)
  have 3: "mstep t ?s2 ?s3" by (rule mstep.unlock) (simp add: unlock_step_def c0 goto_def)
  have "mstep t ?s3 ?s4" by (rule mstep.unlock) (simp add: unlock_step_def c1 assms(4) goto_def)
  then have 4: "msteps s ?s4" by (rule msteps_trans [OF m [OF 1] msteps_trans [OF m [OF 2] msteps_trans [OF m [OF 3] m]]])
  show ?thesis
  proof (cases "n = 0")
    case True
    let ?s5 = "goto t Un5 ?s4" and ?s6 = "goto t Un6 (?s4\<lparr>m_is_locked := False\<rparr>)"
    let ?s7 = "goto t Un7 (?s4\<lparr>m_is_locked := False, m_thread_id := 0\<rparr>)"
    let ?s8 = "goto t Out (?s4\<lparr>m_is_locked := False, m_thread_id := 0, m_pmutex := None\<rparr>)"
    have 5: "mstep t ?s4 ?s5" by (rule mstep.unlock) (simp add: unlock_step_def True goto_def)
    have 6: "mstep t ?s5 ?s6" by (rule mstep.unlock) (simp add: unlock_step_def goto_def)
    have 7: "mstep t ?s6 ?s7" by (rule mstep.unlock) (simp add: unlock_step_def goto_def)
    have "mstep t ?s7 ?s8" using a(1)
      by (intro mstep.unlock) (simp add: unlock_step_def goto_def True owns_def pthread_release_def)
    then have "msteps ?s4 ?s8" by (rule msteps_trans [OF m [OF 5] msteps_trans [OF m [OF 6] msteps_trans [OF m [OF 7] m]]])
    then have "msteps s ?s8" using 4 msteps_trans by blast
    then show ?thesis using True by (intro exI [of _ ?s8]) (simp add: goto_def)
  next
    case False
    let ?s5 = "goto t Un7 ?s4" and ?s6 = "goto t Out ?s4"
    have 5: "mstep t ?s4 ?s5" by (rule mstep.unlock) (simp add: unlock_step_def False cn goto_def)
    have "mstep t ?s5 ?s6" by (rule mstep.unlock) (simp add: unlock_step_def goto_def cn False)
    then have "msteps ?s4 ?s6" by (rule msteps_trans [OF m [OF 5] m])
    then have "msteps s ?s6" using 4 msteps_trans by blast
    then show ?thesis using False by (intro exI [of _ ?s6]) (simp add: goto_def)
  qed
qed

lemma unlock_all:
  "minv s \<Longrightarrow> 0 < t \<Longrightarrow> m_pc s t = Out \<Longrightarrow> m_held s t = Suc n \<Longrightarrow>
   \<exists>s'. msteps s s' \<and> m_pc s' t = Out \<and> m_held s' t = 0 \<and> m_pmutex s' = None
     \<and> (\<forall>t'. t' \<noteq> t \<longrightarrow> m_pc s' t' = m_pc s t' \<and> m_held s' t' = m_held s t')"
proof (induction n arbitrary: s)
  case 0
  then show ?case using unlock_run [OF 0] by auto
next
  case (Suc n)
  obtain s1 where s1: "msteps s s1" "m_pc s1 t = Out" "m_held s1 t = Suc n"
    "\<forall>t'. t' \<noteq> t \<longrightarrow> m_pc s1 t' = m_pc s t' \<and> m_held s1 t' = m_held s t'"
    using unlock_run [OF Suc.prems] by blast
  then obtain s2 where "msteps s1 s2" "m_pc s2 t = Out" "m_held s2 t = 0" "m_pmutex s2 = None"
    "\<forall>t'. t' \<noteq> t \<longrightarrow> m_pc s2 t' = m_pc s1 t' \<and> m_held s2 t' = m_held s1 t'"
    using Suc.IH [of s1] msteps_minv [OF s1(1) Suc.prems(1)] Suc.prems(2) by blast
  then show ?case using s1(1,4) msteps_trans by (intro exI [of _ s2]) auto
qed

lemma msteps_mreach: "msteps s s' \<Longrightarrow> mreach s \<Longrightarrow> mreach s'"
  by (induction rule: msteps.induct) (auto intro: mreach.step)

lemma held_owns: "minv s \<Longrightarrow> 0 < t \<Longrightarrow> 0 < m_held s t \<Longrightarrow> owns s t"
  by (cases "m_pc s t") (auto simp: held_facts dest!: spec [of _ t])

lemma mutex_only: "mreach s \<Longrightarrow> 0 < t \<Longrightarrow> 0 < t' \<Longrightarrow> 0 < m_held s t \<Longrightarrow> 0 < m_held s t' \<Longrightarrow> t = t'"
  using held_owns [OF mreach_minv, of s t] held_owns [OF mreach_minv, of s t'] by (simp add: owns_def)

lemma lock_run:
  assumes "0 < t" "m_pc s t = Lock2" "m_pmutex s = None" "m_held s t = 0"
  shows "\<exists>s'. msteps s s' \<and> m_pc s' t = Out \<and> m_held s' t = 1 \<and> (\<forall>t'. t' \<noteq> t \<longrightarrow> m_pc s' t' = m_pc s t')"
proof -
  let ?s3 = "goto t Got3 (s\<lparr>m_pmutex := Some (t, 1)\<rparr>)"
  let ?s4 = "goto t Got4 (s\<lparr>m_pmutex := Some (t, 1), m_thread_id := t\<rparr>)"
  let ?s5 = "goto t Got5 (s\<lparr>m_pmutex := Some (t, 1), m_thread_id := t, m_is_locked := True\<rparr>)"
  have m: "msteps x y" if "mstep t x y" for x y using msteps_one [OF assms(1) that] .
  have 3: "mstep t s ?s3" using assms by (intro mstep.lock) (simp add: lock_step_def pthread_take_def)
  have "got_step t ?s3 = ?s4" "got_step t ?s4 = ?s5" by (simp_all add: got_step_def goto_def)
  then have 4: "mstep t ?s3 ?s4" "mstep t ?s4 ?s5"
    using mstep.got [of ?s3 t] mstep.got [of ?s4 t] assms(4) by simp_all
  have "mstep t ?s5 (got_step t ?s5)" using assms(4) by (intro mstep.got) simp_all
  then have "msteps s (got_step t ?s5)" by (rule msteps_trans [OF m [OF 3] msteps_trans [OF m [OF 4(1)] msteps_trans [OF m [OF 4(2)] m]]])
  then show ?thesis using assms(4) by (intro exI [of _ "got_step t ?s5"]) (simp add: got_step_def)
qed

lemma lock_enter:
  assumes "0 < t" "m_pc s t = Out" "m_thread_id s \<noteq> t"
  shows "msteps s (goto t Lock2 s)"
proof -
  have 1: "mstep t s (goto t Lock1 s)" using assms(2) by (rule mstep.call_lock)
  have "mstep t (goto t Lock1 s) (goto t Lock2 s)" using assms(3) by (intro mstep.lock) (simp add: lock_step_def goto_def)
  then show ?thesis by (rule msteps_trans [OF msteps_one [OF assms(1) 1] msteps_one [OF assms(1)]])
qed

lemma first_lock: "\<exists>s. mreach s \<and> m_pc s 1 = Out \<and> m_held s 1 = 1 \<and> m_pc s 2 = Out"
proof -
  have "mreach (goto 1 Lock2 m_init)" using msteps_mreach [OF lock_enter mreach.init] by (simp add: m_init_def)
  moreover obtain s where "msteps (goto 1 Lock2 m_init) s" "m_pc s 1 = Out" "m_held s 1 = 1" "m_pc s 2 = Out"
    using lock_run [of 1 "goto 1 Lock2 m_init"] by (auto simp: m_init_def)
  ultimately show ?thesis using msteps_mreach by blast
qed

lemma mutex_exclusion_aux:
  "mreach s \<Longrightarrow> 0 < t \<Longrightarrow> m_pc s t = Out \<Longrightarrow> 0 < m_held s t \<Longrightarrow>
   lockCount s = of_nat (m_held s t) \<and> isLocked t s = 0 \<and> (\<forall>t'. t' \<noteq> t \<longrightarrow> isLocked t' s = t)"
  by (drule mreach_minv) (auto simp: held_facts lockCount_def isLocked_def dest!: spec [of _ t])

section \<open>Properties\<close>

text \<open>
  C9. In every reachable state of any number of threads at most one holds the mutex; while it is
  between calls, the lock count is the number of locks it took and has not given back, and every
  other thread reads its number from \<open>isLocked\<close>. \<open>unlock\<close> raises only for a thread that holds nothing.
\<close>

theorem mutex_exclusion:
  assumes "mreach s" "0 < t" "0 < m_held s t"
  shows "(\<forall>t'. 0 < t' \<and> 0 < m_held s t' \<longrightarrow> t' = t)
    \<and> (m_pc s t = Out \<longrightarrow> lockCount s = of_nat (m_held s t) \<and> isLocked t s = 0 \<and> (\<forall>t'. t' \<noteq> t \<longrightarrow> isLocked t' s = t))
    \<and> (\<forall>e. m_pc s t \<noteq> Raised e)"
proof -
  have i: "minv s" using mreach_minv [OF assms(1)] .
  have "t' = t" if "0 < t'" "0 < m_held s t'" for t' using mutex_only [OF assms(1,2) that(1) assms(3) that(2)] by simp
  moreover have "lockCount s = of_nat (m_held s t) \<and> isLocked t s = 0 \<and> (\<forall>t'. t' \<noteq> t \<longrightarrow> isLocked t' s = t)" if "m_pc s t = Out"
    using mutex_exclusion_aux [OF assms(1,2) that assms(3)] by blast
  moreover have "m_pc s t \<noteq> Raised e" for e using i assms(2,3) by (auto simp: held_facts dest!: spec [of _ t])
  ultimately show ?thesis by blast
qed

theorem mutex_exclusion_witness:
  "\<exists>s. mreach s \<and> m_held s 1 = 1 \<and> m_held s 2 = 0 \<and> lockCount s = 1 \<and> isLocked 2 s = 1"
proof -
  obtain s where s: "mreach s" "m_pc s 1 = Out" "m_held s 1 = 1" using first_lock by blast
  then have "m_held s 2 = 0 \<and> lockCount s = 1 \<and> isLocked 2 s = 1"
    using mutex_exclusion [of s 1] by (auto dest: spec [of _ 2])
  then show ?thesis using s by blast
qed



end
