(* ===== verification/Pool.thy ===== *)
theory Pool
  imports SRL_Prelude
begin

text \<open>
  \<open>ThreadPool\<close> (src/sys/ThreadPool.cpp) with its two semaphores (src/sys/Semaphore.cpp). The sections between \<open>_pool_lock.lock()\<close> and
  \<open>unlock()\<close> are single steps, as the mutual exclusion proved in \<open>Mutex\<close> allows; the calls of the
  semaphores outside them are steps of their own. A
  pool thread is known by the number of threads created before it. The vectors of threads are lists:
  \<open>add\<close> appends, \<open>pop\<close> takes the last element.
\<close>

section \<open>Semaphores\<close>

text \<open>A semaphore is its number of permits; \<open>None\<close> is a call that waits.\<close>

definition sem_acquire :: "nat \<Rightarrow> nat option" where
  "sem_acquire permits = (if permits = 0 then None else Some (permits - 1))"

definition sem_tryAcquire :: "nat \<Rightarrow> bool \<times> nat" where
  "sem_tryAcquire permits = (if permits = 0 then (False, 0) else (True, permits - 1))"

definition sem_release :: "nat \<Rightarrow> nat" where
  "sem_release permits = permits + 1"

definition sem_testAcquire :: "nat \<Rightarrow> bool \<times> nat" where
  "sem_testAcquire permits = (case sem_tryAcquire permits of (True, p) \<Rightarrow> (True, sem_release p) | (False, p) \<Rightarrow> (False, p))"

definition sem_availablePermits :: "nat \<Rightarrow> nat" where
  "sem_availablePermits permits = permits"

section \<open>The pool\<close>

record pool =
  p_max :: nat
  p_size :: nat
  p_avail :: "nat list"
  p_busy :: "nat list"
  p_waiter :: nat
  p_blocker :: nat

definition create_thread :: "pool \<Rightarrow> nat \<times> pool" where
  "create_thread p = (p_size p, p\<lparr>p_size := p_size p + 1\<rparr>)"

fun add_threads :: "nat \<Rightarrow> pool \<Rightarrow> pool" where
  "add_threads 0 p = p"
| "add_threads (Suc n) p = (case create_thread p of (t, p) \<Rightarrow> add_threads n (p\<lparr>p_avail := p_avail p @ [t]\<rparr>))"

definition pool_new :: "nat \<Rightarrow> nat \<Rightarrow> pool" where
  "pool_new max_size min_size = add_threads min_size
     \<lparr>p_max = max_size, p_size = 0, p_avail = [], p_busy = [], p_waiter = 1, p_blocker = 1\<rparr>"

text \<open>The part of \<open>_getThread\<close> after a thread was found.\<close>

definition hand_out :: "nat \<Rightarrow> pool \<Rightarrow> pool" where
  "hand_out t p = (let
     p = (if p_avail p = [] \<and> p_size p = p_max p then p\<lparr>p_blocker := snd (sem_tryAcquire (p_blocker p))\<rparr> else p);
     p = (if p_busy p = [] then p\<lparr>p_waiter := snd (sem_tryAcquire (p_waiter p))\<rparr> else p)
   in p\<lparr>p_busy := p_busy p @ [t]\<rparr>)"

definition get_thread :: "pool \<Rightarrow> nat option \<times> pool" where
  "get_thread p = (if p_avail p \<noteq> [] then
       (let t = last (p_avail p) in (Some t, hand_out t (p\<lparr>p_avail := butlast (p_avail p)\<rparr>)))
     else if p_size p < p_max p then (case create_thread p of (t, p) \<Rightarrow> (Some t, hand_out t p))
     else (None, p))"

text \<open>Under the lock the loop that fills \<open>_waiter\<close> runs at most once.\<close>

definition task_completed :: "nat \<Rightarrow> pool \<Rightarrow> pool" where
  "task_completed t p = (let
     p = p\<lparr>p_busy := remove1 t (p_busy p), p_avail := p_avail p @ [t]\<rparr>;
     p = (if length (p_avail p) = 1 \<and> p_size p = p_max p then
            (if \<not> fst (sem_testAcquire (p_blocker p)) then p\<lparr>p_blocker := sem_release (p_blocker p)\<rparr> else p) else p)
   in if p_busy p = [] then
        (if \<not> fst (sem_testAcquire (p_waiter p)) then p\<lparr>p_waiter := sem_release (p_waiter p)\<rparr> else p) else p)"

definition pool_busyCount :: "pool \<Rightarrow> u32" where
  "pool_busyCount p = of_nat (length (p_busy p))"

definition pool_availableCount :: "pool \<Rightarrow> u32" where
  "pool_availableCount p = of_nat (p_max p) - pool_busyCount p"

section \<open>Clients\<close>

text \<open>The program counters of a client in \<open>runTask\<close> and in \<open>waitAll\<close>; \<open>Crash\<close> is the use of the null
  pointer that a second failing \<open>_getThread\<close> returns.\<close>

datatype cpc = Idle | Get | Blocked | Retry | Start nat | Crash | Wait1 | Wait2 | Wait3 | Wait4 | Wait5

record sys =
  y_pool :: pool
  y_running :: "nat list"
  y_pc :: "nat \<Rightarrow> cpc"

datatype event = CallRun nat | CallWait nat | Go nat | Complete nat

definition at :: "nat \<Rightarrow> cpc \<Rightarrow> sys \<Rightarrow> sys" where
  "at c q s = s\<lparr>y_pc := (y_pc s)(c := q)\<rparr>"

definition run_step :: "nat \<Rightarrow> sys \<Rightarrow> sys option" where
  "run_step c s = (case y_pc s c of
     Get \<Rightarrow> (case get_thread (y_pool s) of (Some t, p) \<Rightarrow> Some (at c (Start t) (s\<lparr>y_pool := p\<rparr>))
       | (None, p) \<Rightarrow> Some (at c Blocked (s\<lparr>y_pool := p\<rparr>)))
   | Blocked \<Rightarrow> (case sem_acquire (p_blocker (y_pool s)) of None \<Rightarrow> None
       | Some b \<Rightarrow> Some (at c Retry (s\<lparr>y_pool := (y_pool s)\<lparr>p_blocker := b\<rparr>\<rparr>)))
   | Retry \<Rightarrow> (case get_thread (y_pool s) of (Some t, p) \<Rightarrow> Some (at c (Start t) (s\<lparr>y_pool := p\<rparr>))
       | (None, p) \<Rightarrow> Some (at c Crash (s\<lparr>y_pool := p\<rparr>)))
   | Start t \<Rightarrow> Some (at c Idle (s\<lparr>y_running := t # y_running s\<rparr>))
   | _ \<Rightarrow> None)"

definition wait_step :: "nat \<Rightarrow> sys \<Rightarrow> sys option" where
  "wait_step c s = (let p = y_pool s; w = p_waiter p in case y_pc s c of
     Wait1 \<Rightarrow> Some (at c (if p_busy p = [] then Idle else Wait2) s)
   | Wait2 \<Rightarrow> (case sem_tryAcquire w of (b, w) \<Rightarrow> Some (at c (if b then Wait3 else Wait4) (s\<lparr>y_pool := p\<lparr>p_waiter := w\<rparr>\<rparr>)))
   | Wait3 \<Rightarrow> Some (at c Idle (s\<lparr>y_pool := p\<lparr>p_waiter := sem_release w\<rparr>\<rparr>))
   | Wait4 \<Rightarrow> (case sem_acquire w of None \<Rightarrow> None | Some w \<Rightarrow> Some (at c Wait5 (s\<lparr>y_pool := p\<lparr>p_waiter := w\<rparr>\<rparr>)))
   | Wait5 \<Rightarrow> Some (at c Idle (s\<lparr>y_pool := p\<lparr>p_waiter := sem_release w\<rparr>\<rparr>))
   | _ \<Rightarrow> None)"

fun step :: "event \<Rightarrow> sys \<Rightarrow> sys option" where
  "step (CallRun c) s = (if y_pc s c = Idle then Some (at c Get s) else None)"
| "step (CallWait c) s = (if y_pc s c = Idle then Some (at c Wait1 s) else None)"
| "step (Go c) s = (case run_step c s of None \<Rightarrow> wait_step c s | Some s' \<Rightarrow> Some s')"
| "step (Complete t) s = (if t \<in> set (y_running s) then
     Some (s\<lparr>y_running := remove1 t (y_running s), y_pool := task_completed t (y_pool s)\<rparr>) else None)"

definition sys_init :: "nat \<Rightarrow> nat \<Rightarrow> sys" where
  "sys_init max_size min_size = \<lparr>y_pool = pool_new max_size min_size, y_running = [], y_pc = (\<lambda>_. Idle)\<rparr>"

fun runs :: "event list \<Rightarrow> sys \<Rightarrow> sys option" where
  "runs [] s = Some s"
| "runs (e # es) s = (case step e s of None \<Rightarrow> None | Some s' \<Rightarrow> runs es s')"

section \<open>Safety\<close>

definition pool_ok :: "pool \<Rightarrow> bool" where
  "pool_ok p \<longleftrightarrow> distinct (p_avail p @ p_busy p) \<and> set (p_avail p @ p_busy p) = {..<p_size p} \<and> p_size p \<le> p_max p"

lemma add_threads_ok:
  "distinct (p_avail p) \<Longrightarrow> set (p_avail p) = {..<p_size p} \<Longrightarrow> p_busy p = [] \<Longrightarrow>
   (let q = add_threads n p in distinct (p_avail q) \<and> set (p_avail q) = {..<p_size q} \<and> p_busy q = [] \<and> p_size q = p_size p + n
     \<and> p_max q = p_max p \<and> p_waiter q = p_waiter p \<and> p_blocker q = p_blocker p)"
proof (induction n arbitrary: p)
  case (Suc n)
  let ?p = "p\<lparr>p_size := p_size p + 1, p_avail := p_avail p @ [p_size p]\<rparr>"
  have "distinct (p_avail ?p)" "set (p_avail ?p) = {..<p_size ?p}" "p_busy ?p = []"
    using Suc.prems by (auto simp: lessThan_Suc)
  from Suc.IH [OF this] show ?case by (simp add: create_thread_def Let_def)
qed simp

lemma pool_new_facts:
  "p_busy (pool_new m n) = []" "p_size (pool_new m n) = n" "p_max (pool_new m n) = m" "p_waiter (pool_new m n) = 1"
  "p_blocker (pool_new m n) = 1" "distinct (p_avail (pool_new m n))" "set (p_avail (pool_new m n)) = {..<n}"
  using add_threads_ok [of "\<lparr>p_max = m, p_size = 0, p_avail = [], p_busy = [], p_waiter = 1, p_blocker = 1\<rparr>" n]
  by (simp_all add: pool_new_def Let_def)

lemma hand_out_simps [simp]:
  "p_max (hand_out t p) = p_max p" "p_size (hand_out t p) = p_size p" "p_avail (hand_out t p) = p_avail p"
  "p_busy (hand_out t p) = p_busy p @ [t]"
  "p_blocker (hand_out t p) = (if p_avail p = [] \<and> p_size p = p_max p then p_blocker p - 1 else p_blocker p)"
  "p_waiter (hand_out t p) = (if p_busy p = [] then p_waiter p - 1 else p_waiter p)"
  by (auto simp: hand_out_def Let_def sem_tryAcquire_def)

text \<open>What \<open>_getThread\<close> does, in the three cases.\<close>

lemma get_thread_cases:
  obtains (pop) t ts where "p_avail p = ts @ [t]" "get_thread p = (Some t, hand_out t (p\<lparr>p_avail := ts\<rparr>))"
  | (new) "p_avail p = []" "p_size p < p_max p" "get_thread p = (Some (p_size p), hand_out (p_size p) (p\<lparr>p_size := p_size p + 1\<rparr>))"
  | (none) "p_avail p = []" "p_max p \<le> p_size p" "get_thread p = (None, p)"
proof (cases "p_avail p = []")
  case False
  then show thesis using pop [of "butlast (p_avail p)" "last (p_avail p)"] by (simp add: get_thread_def Let_def)
next
  case True
  then show thesis using new none by (cases "p_size p < p_max p") (auto simp: get_thread_def create_thread_def)
qed

lemma get_thread_ok:
  assumes "pool_ok p" "get_thread p = (r, p')"
  shows "pool_ok p' \<and> p_max p' = p_max p \<and> (case r of None \<Rightarrow> p' = p | Some t \<Rightarrow> t \<notin> set (p_busy p) \<and> p_busy p' = p_busy p @ [t])"
proof (cases rule: get_thread_cases [of p])
  case (pop t ts)
  then show ?thesis using assms by (auto simp: pool_ok_def)
next
  case new
  then show ?thesis using assms by (auto simp: pool_ok_def lessThan_Suc)
next
  case none
  then show ?thesis using assms by auto
qed

lemma task_completed_simps [simp]:
  "p_max (task_completed t p) = p_max p" "p_size (task_completed t p) = p_size p"
  "p_avail (task_completed t p) = p_avail p @ [t]" "p_busy (task_completed t p) = remove1 t (p_busy p)"
  "p_blocker (task_completed t p) = (if p_avail p = [] \<and> p_size p = p_max p then max 1 (p_blocker p) else p_blocker p)"
  "p_waiter (task_completed t p) = (if remove1 t (p_busy p) = [] then max 1 (p_waiter p) else p_waiter p)"
  by (simp_all add: task_completed_def Let_def sem_testAcquire_def sem_tryAcquire_def sem_release_def)

lemma task_completed_ok: "pool_ok p \<Longrightarrow> t \<in> set (p_busy p) \<Longrightarrow> pool_ok (task_completed t p)"
  by (auto simp: pool_ok_def)

text \<open>Every busy thread runs a task or is in the hand of exactly one client.\<close>

definition sys_ok :: "sys \<Rightarrow> bool" where
  "sys_ok s \<longleftrightarrow> pool_ok (y_pool s) \<and> distinct (y_running s)
     \<and> (\<forall>t. t \<in> set (p_busy (y_pool s)) \<longleftrightarrow> t \<in> set (y_running s) \<or> (\<exists>c. y_pc s c = Start t))
     \<and> (\<forall>c t. y_pc s c = Start t \<longrightarrow> t \<notin> set (y_running s) \<and> (\<forall>c'. y_pc s c' = Start t \<longrightarrow> c' = c))"


lemma at_simps [simp]:
  "y_pool (at c q s) = y_pool s" "y_running (at c q s) = y_running s" "y_pc (at c q s) = (y_pc s)(c := q)"
  by (simp_all add: at_def)

lemma sys_ok_init: "min_size \<le> max_size \<Longrightarrow> sys_ok (sys_init max_size min_size)"
  by (auto simp: sys_ok_def sys_init_def pool_ok_def pool_new_facts)

text \<open>Steps that hand out no thread.\<close>

lemma sys_ok_frame:
  assumes "sys_ok s" "\<forall>t. y_pc s c \<noteq> Start t" "\<forall>t. q \<noteq> Start t" "pool_ok p" "p_busy p = p_busy (y_pool s)"
  shows "sys_ok (at c q (s\<lparr>y_pool := p\<rparr>))"
proof -
  have "(\<exists>c'. ((y_pc s)(c := q)) c' = Start t) \<longleftrightarrow> (\<exists>c'. y_pc s c' = Start t)" for t
    using assms(2,3) by (metis fun_upd_other fun_upd_same)
  then show ?thesis using assms by (auto simp: sys_ok_def split: if_splits)
qed

lemma sys_ok_at: "sys_ok s \<Longrightarrow> \<forall>t. y_pc s c \<noteq> Start t \<Longrightarrow> \<forall>t. q \<noteq> Start t \<Longrightarrow> sys_ok (at c q s)"
  using sys_ok_frame [of s c q "y_pool s"] by (simp add: sys_ok_def)

lemma sys_ok_get:
  assumes "sys_ok s" "\<forall>t. y_pc s c \<noteq> Start t" "get_thread (y_pool s) = (Some t, p)"
  shows "sys_ok (at c (Start t) (s\<lparr>y_pool := p\<rparr>))"
proof -
  have p: "pool_ok p" "t \<notin> set (p_busy (y_pool s))" "p_busy p = p_busy (y_pool s) @ [t]"
    using get_thread_ok [of "y_pool s"] assms(1,3) by (auto simp: sys_ok_def)
  have "t \<notin> set (y_running s)" "\<forall>c'. y_pc s c' \<noteq> Start t" using p(2) assms(1) by (auto simp: sys_ok_def)
  then show ?thesis using assms(1,2) p unfolding sys_ok_def by (simp add: all_conj_distrib) metis
qed

lemma sys_ok_start:
  assumes "sys_ok s" "y_pc s c = Start t"
  shows "sys_ok (at c Idle (s\<lparr>y_running := t # y_running s\<rparr>))"
proof -
  let ?q = "(y_pc s)(c := Idle)"
  have q: "?q c' = Start u \<longleftrightarrow> y_pc s c' = Start u \<and> u \<noteq> t" for c' u
    using assms unfolding sys_ok_def by (cases "c' = c") auto
  have "(\<exists>c'. ?q c' = Start u) \<longleftrightarrow> (\<exists>c'. y_pc s c' = Start u) \<and> u \<noteq> t" for u by (simp only: q) blast
  moreover have "t \<in> set (p_busy (y_pool s))" "t \<notin> set (y_running s)" using assms by (auto simp: sys_ok_def)
  ultimately show ?thesis using assms(1) unfolding sys_ok_def by (simp add: q del: fun_upd_apply) blast
qed

lemma sys_ok_complete:
  assumes "sys_ok s" "t \<in> set (y_running s)"
  shows "sys_ok (s\<lparr>y_running := remove1 t (y_running s), y_pool := task_completed t (y_pool s)\<rparr>)"
proof -
  have d: "distinct (p_busy (y_pool s))" "distinct (y_running s)" "t \<in> set (p_busy (y_pool s))"
    using assms by (auto simp: sys_ok_def pool_ok_def)
  then show ?thesis using assms task_completed_ok [of "y_pool s" t]
    unfolding sys_ok_def by (simp add: set_remove1_eq) blast
qed

lemma pool_ok_permits: "pool_ok p \<Longrightarrow> pool_ok (p\<lparr>p_blocker := b\<rparr>) \<and> pool_ok (p\<lparr>p_waiter := w\<rparr>)"
  by (simp add: pool_ok_def)


lemma sys_ok_pool: "sys_ok s \<Longrightarrow> pool_ok p \<Longrightarrow> p_busy p = p_busy (y_pool s) \<Longrightarrow> sys_ok (s\<lparr>y_pool := p\<rparr>)"
  by (simp add: sys_ok_def)

definition got :: "nat \<Rightarrow> cpc \<Rightarrow> nat option \<times> pool \<Rightarrow> sys \<Rightarrow> sys" where
  "got c q r s = (case r of (Some t, p) \<Rightarrow> at c (Start t) (s\<lparr>y_pool := p\<rparr>) | (None, p) \<Rightarrow> at c q (s\<lparr>y_pool := p\<rparr>))"

lemma got_ok:
  assumes "sys_ok s" "\<forall>t. y_pc s c \<noteq> Start t" "\<forall>t. q \<noteq> Start t"
  shows "sys_ok (got c q (get_thread (y_pool s)) s)"
proof (cases "get_thread (y_pool s)")
  case (Pair r p)
  show ?thesis
  proof (cases r)
    case None
    have "p = y_pool s" using get_thread_ok [of "y_pool s" r p] assms(1) Pair None by (simp add: sys_ok_def)
    then show ?thesis using sys_ok_at [OF assms] Pair None by (simp add: got_def)
  next
    case (Some t)
    then show ?thesis using sys_ok_get [OF assms(1,2)] Pair by (simp add: got_def)
  qed
qed

text \<open>The enabled steps of a client, one equation for each program counter.\<close>

lemma run_step_simps:
  "y_pc s c = Get \<Longrightarrow> run_step c s = Some (got c Blocked (get_thread (y_pool s)) s)"
  "y_pc s c = Retry \<Longrightarrow> run_step c s = Some (got c Crash (get_thread (y_pool s)) s)"
  "y_pc s c = Blocked \<Longrightarrow> run_step c s = (if p_blocker (y_pool s) = 0 then None
     else Some (at c Retry (s\<lparr>y_pool := (y_pool s)\<lparr>p_blocker := p_blocker (y_pool s) - 1\<rparr>\<rparr>)))"
  "y_pc s c = Start t \<Longrightarrow> run_step c s = Some (at c Idle (s\<lparr>y_running := t # y_running s\<rparr>))"
  "y_pc s c \<in> {Idle, Crash, Wait1, Wait2, Wait3, Wait4, Wait5} \<Longrightarrow> run_step c s = None"
  by (auto simp: run_step_def got_def sem_acquire_def split: prod.split option.split)

lemma run_step_ok:
  assumes "sys_ok s" "run_step c s = Some s'"
  shows "sys_ok s'"
proof (cases "y_pc s c")
  case Blocked
  have "sys_ok (s\<lparr>y_pool := (y_pool s)\<lparr>p_blocker := b\<rparr>\<rparr>)" for b
    using assms(1) pool_ok_permits by (intro sys_ok_pool) (auto simp: sys_ok_def)
  then show ?thesis using assms(2) Blocked by (auto simp: run_step_simps intro!: sys_ok_at split: if_splits)
qed (use assms got_ok [OF assms(1)] sys_ok_start [OF assms(1)] in \<open>auto simp: run_step_simps\<close>)

lemma wait_step_ok:
  assumes "sys_ok s" "wait_step c s = Some s'"
  shows "sys_ok s'"
proof -
  have "sys_ok (s\<lparr>y_pool := (y_pool s)\<lparr>p_waiter := w\<rparr>\<rparr>)" for w
    using assms(1) pool_ok_permits by (intro sys_ok_pool) (auto simp: sys_ok_def)
  then show ?thesis using assms
    by (cases "y_pc s c") (auto simp: wait_step_def Let_def intro!: sys_ok_at split: option.splits prod.splits if_splits)
qed

lemma step_ok: "sys_ok s \<Longrightarrow> step e s = Some s' \<Longrightarrow> sys_ok s'"
  by (cases e) (auto intro!: sys_ok_at intro: sys_ok_complete run_step_ok wait_step_ok split: if_splits option.splits)

lemma runs_ok: "sys_ok s \<Longrightarrow> runs es s = Some s' \<Longrightarrow> sys_ok s'"
  by (induction es arbitrary: s) (auto intro: step_ok split: option.splits)

section \<open>Liveness with one client\<close>

definition permits :: "pool \<Rightarrow> cpc \<Rightarrow> bool" where
  "permits p q \<longleftrightarrow> 0 < p_max p \<and> p_blocker p \<le> 1 \<and> p_waiter p \<le> 1
     \<and> (p_avail p = [] \<and> p_size p = p_max p \<longrightarrow> p_blocker p = 0)
     \<and> (if q \<in> {Wait3, Wait5} then p_busy p = [] \<and> p_waiter p = 0 else p_waiter p = 0 \<longleftrightarrow> p_busy p \<noteq> [])
     \<and> (q = Blocked \<longrightarrow> p_size p = p_max p \<and> (p_avail p \<noteq> [] \<longrightarrow> p_blocker p = 1))
     \<and> (q = Retry \<longrightarrow> p_avail p \<noteq> []) \<and> q \<noteq> Crash"

definition solo_inv :: "sys \<Rightarrow> bool" where
  "solo_inv s \<longleftrightarrow> sys_ok s \<and> permits (y_pool s) (y_pc s 0) \<and> (\<forall>c. c \<noteq> 0 \<longrightarrow> y_pc s c = Idle)"

lemma solo_at:
  "solo_inv s \<Longrightarrow> sys_ok (at 0 q (s\<lparr>y_pool := p\<rparr>)) \<Longrightarrow> permits p q \<Longrightarrow> solo_inv (at 0 q (s\<lparr>y_pool := p\<rparr>))"
  "solo_inv s \<Longrightarrow> sys_ok (at 0 q s) \<Longrightarrow> permits (y_pool s) q \<Longrightarrow> solo_inv (at 0 q s)"
  "solo_inv s \<Longrightarrow> sys_ok (at 0 q (s\<lparr>y_running := r\<rparr>)) \<Longrightarrow> permits (y_pool s) q \<Longrightarrow> solo_inv (at 0 q (s\<lparr>y_running := r\<rparr>))"
  by (simp_all add: solo_inv_def)

lemma solo_D: "solo_inv s \<Longrightarrow> sys_ok s \<and> permits (y_pool s) (y_pc s 0) \<and> p_size (y_pool s) \<le> p_max (y_pool s)"
  by (simp add: solo_inv_def sys_ok_def pool_ok_def)

text \<open>The events of one client, number 0, and of the threads of the pool.\<close>

definition solo :: "event \<Rightarrow> bool" where
  "solo e \<longleftrightarrow> (case e of CallRun c \<Rightarrow> c = 0 | CallWait c \<Rightarrow> c = 0 | Go c \<Rightarrow> c = 0 | Complete _ \<Rightarrow> True)"

lemma permits_complete:
  assumes "permits p q" "t \<in> set (p_busy p)"
  shows "permits (task_completed t p) q"
proof -
  have "p_busy p \<noteq> []" using assms(2) by auto
  then have "q \<notin> {Wait3, Wait5}" "p_waiter p = 0" using assms(1) by (auto simp: permits_def split: if_splits)
  then show ?thesis using assms(1) by (simp add: permits_def)
qed

lemma solo_complete:
  assumes i: "solo_inv s" and t: "t \<in> set (y_running s)"
  shows "solo_inv (s\<lparr>y_running := remove1 t (y_running s), y_pool := task_completed t (y_pool s)\<rparr>)"
proof -
  have ok: "sys_ok s" using i by (simp add: solo_inv_def)
  then have "t \<in> set (p_busy (y_pool s))" using t by (auto simp: sys_ok_def)
  then show ?thesis using i sys_ok_complete [OF ok t] permits_complete by (simp add: solo_inv_def)
qed

lemma permits_get:
  assumes "permits p q" "q \<in> {Get, Retry}" "get_thread p = (Some t, p')"
  shows "permits p' (Start t)"
proof -
  have w: "p_waiter p = 0 \<longleftrightarrow> p_busy p \<noteq> []" "0 < p_max p" "p_blocker p \<le> 1" "p_waiter p \<le> 1"
    using assms(1,2) by (auto simp: permits_def)
  show ?thesis by (cases rule: get_thread_cases [of p]) (use assms(3) w in \<open>auto simp: permits_def\<close>)
qed

lemma solo_got:
  assumes i: "solo_inv s" and q: "y_pc s 0 = Get \<and> q = Blocked \<or> y_pc s 0 = Retry \<and> q = Crash"
  shows "solo_inv (got 0 q (get_thread (y_pool s)) s)"
proof (cases "get_thread (y_pool s)")
  case (Pair r p)
  have ok: "sys_ok (got 0 q (get_thread (y_pool s)) s)" using got_ok [of s 0 q] i q by (auto simp: solo_inv_def)
  have pm: "permits (y_pool s) (y_pc s 0)" "y_pc s 0 \<in> {Get, Retry}" using i q by (auto simp: solo_inv_def)
  show ?thesis
  proof (cases r)
    case None
    then have n: "p = y_pool s" "p_avail p = []" "p_max p \<le> p_size p"
      using Pair by (cases rule: get_thread_cases [of "y_pool s"]; simp)+
    then have "p_size p = p_max p" "q = Blocked" using solo_D [OF i] q pm by (auto simp: permits_def)
    then have "permits p Blocked" using pm n by (auto simp: permits_def)
    then show ?thesis using solo_at(1) [OF i] ok \<open>q = Blocked\<close> Pair None by (simp add: got_def)
  next
    case (Some t)
    then show ?thesis using solo_at(1) [OF i] permits_get [OF pm] ok Pair by (simp add: got_def)
  qed
qed

lemma permits_change:
  "permits p Blocked \<Longrightarrow> p_blocker p \<noteq> 0 \<Longrightarrow> permits (p\<lparr>p_blocker := p_blocker p - 1\<rparr>) Retry"
  "permits p (Start t) \<Longrightarrow> permits p Idle" "permits p Idle \<Longrightarrow> permits p Get \<and> permits p Wait1"
  "permits p Wait1 \<Longrightarrow> permits p Idle \<and> permits p Wait2"
  "permits p Wait2 \<Longrightarrow> permits p Wait4 \<and> (p_waiter p \<noteq> 0 \<longrightarrow> permits (p\<lparr>p_waiter := p_waiter p - 1\<rparr>) Wait3)"
  "permits p Wait3 \<or> permits p Wait5 \<Longrightarrow> permits (p\<lparr>p_waiter := Suc (p_waiter p)\<rparr>) Idle"
  "permits p Wait4 \<Longrightarrow> p_waiter p \<noteq> 0 \<Longrightarrow> permits (p\<lparr>p_waiter := p_waiter p - 1\<rparr>) Wait5"
  by (auto simp: permits_def)

lemma solo_run:
  assumes "solo_inv s" "run_step 0 s = Some s'"
  shows "solo_inv s'"
proof -
  have ok: "sys_ok s'" "permits (y_pool s) (y_pc s 0)" using assms run_step_ok by (auto simp: solo_inv_def)
  show ?thesis
  proof (cases "y_pc s 0")
    case Get
    then show ?thesis using assms solo_got [of s Blocked] by (simp add: run_step_simps)
  next
    case Retry
    then show ?thesis using assms solo_got [of s Crash] by (simp add: run_step_simps)
  next
    case Blocked
    then show ?thesis using assms ok permits_change(1) solo_at(1) [OF assms(1)] by (auto simp: run_step_simps split: if_splits)
  next
    case (Start t)
    then show ?thesis using assms ok permits_change(2) solo_at(3) [OF assms(1)] by (auto simp: run_step_simps)
  qed (use assms in \<open>simp_all add: run_step_simps\<close>)
qed

lemma wait_step_simps:
  "y_pc s c = Wait1 \<Longrightarrow> wait_step c s = Some (at c (if p_busy (y_pool s) = [] then Idle else Wait2) s)"
  "y_pc s c = Wait2 \<Longrightarrow> wait_step c s = (if p_waiter (y_pool s) = 0 then Some (at c Wait4 s)
     else Some (at c Wait3 (s\<lparr>y_pool := (y_pool s)\<lparr>p_waiter := p_waiter (y_pool s) - 1\<rparr>\<rparr>)))"
  "y_pc s c \<in> {Wait3, Wait5} \<Longrightarrow> wait_step c s = Some (at c Idle (s\<lparr>y_pool := (y_pool s)\<lparr>p_waiter := Suc (p_waiter (y_pool s))\<rparr>\<rparr>))"
  "y_pc s c = Wait4 \<Longrightarrow> wait_step c s = (if p_waiter (y_pool s) = 0 then None
     else Some (at c Wait5 (s\<lparr>y_pool := (y_pool s)\<lparr>p_waiter := p_waiter (y_pool s) - 1\<rparr>\<rparr>)))"
  "y_pc s c \<in> {Idle, Get, Blocked, Retry, Crash} \<union> range Start \<Longrightarrow> wait_step c s = None"
  by (auto simp: wait_step_def sem_acquire_def sem_tryAcquire_def sem_release_def Let_def)

lemma solo_wait:
  assumes "solo_inv s" "wait_step 0 s = Some s'"
  shows "solo_inv s'"
proof -
  have ok: "sys_ok s'" "permits (y_pool s) (y_pc s 0)" using assms wait_step_ok by (auto simp: solo_inv_def)
  note stays = solo_at(2) [OF assms(1)] and sets = solo_at(1) [OF assms(1)]
  show ?thesis
  proof (cases "y_pc s 0")
    case Wait1
    then show ?thesis using assms(2) ok permits_change(4) [of "y_pool s"] stays [of Idle] stays [of Wait2]
      by (auto simp: wait_step_simps split: if_splits)
  next
    case Wait2
    then show ?thesis using assms(2) ok permits_change(5) [of "y_pool s"] stays [of Wait4] sets [of Wait3]
      by (auto simp: wait_step_simps split: if_splits)
  next
    case Wait3
    then show ?thesis using assms(2) ok permits_change(6) [of "y_pool s"] sets [of Idle] by (auto simp: wait_step_simps)
  next
    case Wait5
    then show ?thesis using assms(2) ok permits_change(6) [of "y_pool s"] sets [of Idle] by (auto simp: wait_step_simps)
  next
    case Wait4
    then show ?thesis using assms(2) ok permits_change(7) [of "y_pool s"] sets [of Wait5]
      by (auto simp: wait_step_simps split: if_splits)
  qed (use assms(2) in \<open>simp_all add: wait_step_simps\<close>)
qed

lemma solo_call: "solo_inv s \<Longrightarrow> y_pc s 0 = Idle \<Longrightarrow> q \<in> {Get, Wait1} \<Longrightarrow> solo_inv (at 0 q s)"
  using permits_change(3) [of "y_pool s"] sys_ok_at [of s 0 q] solo_at(2) [of s q] by (auto simp: solo_inv_def)

lemma solo_step:
  assumes "solo_inv s" "solo e" "step e s = Some s'"
  shows "solo_inv s'"
proof (cases e)
  case (Go c)
  then show ?thesis using assms solo_run [OF assms(1)] solo_wait [OF assms(1)] by (auto simp: solo_def split: option.splits)
next
  case (Complete t)
  then show ?thesis using assms solo_complete by (auto split: if_splits)
next
  case (CallRun c)
  then show ?thesis using assms solo_call [of s Get] by (auto simp: solo_def split: if_splits)
next
  case (CallWait c)
  then show ?thesis using assms solo_call [of s Wait1] by (auto simp: solo_def split: if_splits)
qed

lemma solo_init:
  assumes "0 < max_size" "min_size \<le> max_size"
  shows "solo_inv (sys_init max_size min_size)"
proof -
  have "p_avail (pool_new max_size min_size) = [] \<longrightarrow> min_size = 0"
    using pool_new_facts(7) [of max_size min_size] by (metis empty_set lessThan_eq_iff lessThan_0)
  then have "permits (pool_new max_size min_size) Idle" using assms by (auto simp: permits_def pool_new_facts)
  then show ?thesis using sys_ok_init [OF assms(2)] by (simp add: solo_inv_def sys_init_def)
qed

lemma solo_runs: "solo_inv s \<Longrightarrow> \<forall>e \<in> set es. solo e \<Longrightarrow> runs es s = Some s' \<Longrightarrow> solo_inv s'"
  by (induction es arbitrary: s) (auto intro: solo_step split: option.splits)

text \<open>All running tasks can complete, one after the other; the client does not move.\<close>

lemma complete_all:
  assumes "solo_inv s"
  obtains s' where "runs (map Complete (y_running s)) s = Some s'" "solo_inv s'" "y_running s' = []" "y_pc s' = y_pc s"
    "p_size (y_pool s') = p_size (y_pool s)"
proof -
  have "\<exists>s'. runs (map Complete ts) s = Some s' \<and> solo_inv s' \<and> y_running s' = [] \<and> y_pc s' = y_pc s
    \<and> p_size (y_pool s') = p_size (y_pool s)" if "solo_inv s" "y_running s = ts" for ts s
    using that
  proof (induction ts arbitrary: s)
    case (Cons t ts)
    let ?s = "s\<lparr>y_running := ts, y_pool := task_completed t (y_pool s)\<rparr>"
    have st: "step (Complete t) s = Some ?s" using Cons.prems(2) by simp
    then have i: "solo_inv ?s" using solo_step [OF Cons.prems(1) _ st] by (simp add: solo_def)
    then show ?case using Cons.IH [OF i] st by simp
  qed simp
  then show thesis using that assms by blast
qed

section \<open>Properties\<close>






text \<open>
  With several clients the pool fails in three ways. A wake-up is lost: two clients wait for a
  thread, both running tasks complete, one client goes on and finishes, and the other waits for ever
  although nothing runs and two threads are available. A client can meet the null pointer: the thread
  it was woken for is taken by another client. And \<open>waitAll\<close> can return while a thread is busy.
\<close>

theorem pool_races:
  "(\<exists>s. runs [CallRun 0, Go 0, Go 0, CallRun 0, Go 0, Go 0, CallRun 1, Go 1, CallRun 2, Go 2, Complete 0, Complete 1,
        Go 1, Go 1, Go 1, Complete 1] (sys_init 2 0) = Some s
      \<and> y_pc s 2 = Blocked \<and> step (Go 2) s = None \<and> y_running s = [] \<and> length (p_avail (y_pool s)) = 2)
    \<and> (\<exists>s. runs [CallRun 0, Go 0, Go 0, CallRun 1, Go 1, Complete 0, Go 1, CallRun 2, Go 2, Go 1] (sys_init 1 0) = Some s
      \<and> y_pc s 1 = Crash)
    \<and> (\<exists>s. runs [CallRun 0, Go 0, Go 0, CallWait 1, Go 1, Complete 0, Go 1, CallRun 0, Go 0, Go 0, Go 1,
        CallWait 1, Go 1, Go 1] (sys_init 1 0) = Some s \<and> y_pc s 1 = Wait3 \<and> y_running s = [0] \<and> p_busy (y_pool s) = [0])"
  by (simp add: sys_init_def pool_new_def run_step_def wait_step_def get_thread_def create_thread_def sem_acquire_def
      sem_tryAcquire_def sem_release_def Let_def)

end
