(* ===== verification/Text_Ops.thy ===== *)
theory Text_Ops
  imports Text_Interfaces
begin

text \<open>
  The texts of \<open>SRL::String\<close> values. The components above the string class are modelled on the
  characters of their strings, lists of bytes without NUL; this theory has the operations they
  call, with positions as integers (-1 for "not found") and the quirks of the class (a range of
  length zero is the rest of the text), and shows that the operations on string objects return
  exactly these texts.
\<close>

type_synonym bytes = "u8 list"

definition t_find :: "u8 \<Rightarrow> int \<Rightarrow> bytes \<Rightarrow> int res" where
  "t_find c pos xs = (if pos < 0 \<or> int (length xs) < pos then Inl Mem_Fault else
     (let t = drop (nat pos) xs in Inr (if c \<in> set t then pos + int (length (takeWhile (\<lambda>x. x \<noteq> c) t)) else - 1)))"

fun index_of :: "bytes \<Rightarrow> bytes \<Rightarrow> nat option" where
  "index_of sub [] = (if sub = [] then Some 0 else None)"
| "index_of sub (x # xs) = (if take (length sub) (x # xs) = sub then Some 0 else map_option Suc (index_of sub xs))"

definition t_find_str :: "bytes \<Rightarrow> int \<Rightarrow> bytes \<Rightarrow> int res" where
  "t_find_str sub pos xs = (if pos < 0 \<or> int (length xs) < pos then Inl Mem_Fault else
     Inr (case index_of sub (drop (nat pos) xs) of None \<Rightarrow> - 1 | Some i \<Rightarrow> pos + int i))"

text \<open>\<open>mid(pos, len)\<close> and \<open>substr(pos, len)\<close>; the sum is an unsigned 32-bit one.\<close>

definition t_mid :: "int \<Rightarrow> int \<Rightarrow> bytes \<Rightarrow> bytes res" where
  "t_mid pos len xs = (if int (length xs) < (pos + len) mod 2 ^ 32 then Inr []
     else if pos < 0 \<or> len < 0 then Inl Mem_Fault
     else if len = 0 then Inr (drop (nat pos) xs) else Inr (take (nat len) (drop (nat pos) xs)))"

definition t_from :: "int \<Rightarrow> bytes \<Rightarrow> bytes res" where
  "t_from pos xs = t_mid pos (int (length xs) - pos) xs"

definition t_left :: "int \<Rightarrow> bytes \<Rightarrow> bytes" where
  "t_left len xs = (if len < 0 \<or> int (length xs) < len then [] else if len = 0 then xs else take (nat len) xs)"

definition t_count :: "u8 \<Rightarrow> bytes \<Rightarrow> nat" where
  "t_count c xs = length (filter (\<lambda>x. x = c) xs)"

definition t_replace :: "u8 \<Rightarrow> u8 \<Rightarrow> bytes \<Rightarrow> bytes" where
  "t_replace c d xs = map (\<lambda>x. if x = c then d else x) xs"

text \<open>\<open>section(delim, n, allow_null)\<close>, from the field that begins at \<open>start\<close>.\<close>

fun t_section_from :: "u8 \<Rightarrow> bool \<Rightarrow> nat \<Rightarrow> nat \<Rightarrow> bytes \<Rightarrow> bytes res" where
  "t_section_from delim allow_null n start xs =
     (let start = (if allow_null then start else start + length (takeWhile (\<lambda>x. x = delim) (drop start xs))) in
      bindR (t_find delim (int start) xs) (\<lambda>stop.
      case n of 0 \<Rightarrow> t_mid (int start) ((if stop = - 1 then int (length xs) else stop) - int start) xs
      | Suc n \<Rightarrow> if stop = - 1 then Inr [] else t_section_from delim allow_null n (nat stop + 1) xs))"

declare t_section_from.simps [simp del]

definition t_section :: "u8 \<Rightarrow> bool \<Rightarrow> nat \<Rightarrow> bytes \<Rightarrow> bytes res" where
  "t_section delim allow_null n xs = t_section_from delim allow_null n 0 xs"

text \<open>\<open>String::Int(s)\<close>, which reads the terminated buffer.\<close>

definition t_Int :: "bytes \<Rightarrow> u32 res" where
  "t_Int xs = str_Int (xs @ [0]) 10"

text \<open>\<open>String::Format\<close>: \<open>n\<close> is the length of the format, \<open>t\<close> the text. When the text is 129 characters
  longer than the format, \<open>vsnprintf\<close> is called again with the used argument list.\<close>

definition vformat_text :: "nat \<Rightarrow> bytes \<Rightarrow> bytes res" where
  "vformat_text n t = (if n + 128 < length t then Inl Mem_Fault else Inr t)"

text \<open>Throwing an exception \<open>c\<close> whose message is a text within a format of the parts \<open>a\<close>, \<open>%s\<close> and \<open>b\<close>.\<close>

definition format_error :: "string \<Rightarrow> bytes \<Rightarrow> string \<Rightarrow> string \<Rightarrow> 'a res" where
  "format_error a t b c = bindR (vformat_text (length a + 2 + length b) (lit a @ t @ lit b)) (\<lambda>_. Inl (Thrown c))"

lemma format_error_eq: "format_error a t b c = Inl (if 130 < length t then Mem_Fault else Thrown c)"
  by (simp add: format_error_def vformat_text_def lit_def)

section \<open>Facts\<close>

lemma t_find_simps [simp]:
  "0 \<le> pos \<Longrightarrow> pos \<le> int (length xs) \<Longrightarrow> c \<notin> set (drop (nat pos) xs) \<Longrightarrow> t_find c pos xs = Inr (- 1)"
  "0 \<le> pos \<Longrightarrow> drop (nat pos) xs = ys @ c # zs \<Longrightarrow> c \<notin> set ys \<Longrightarrow> t_find c pos xs = Inr (pos + int (length ys))"
proof -
  assume a: "0 \<le> pos" "drop (nat pos) xs = ys @ c # zs" "c \<notin> set ys"
  then have "nat pos < length xs" by (metis append_is_Nil_conv drop_all leI list.simps(3))
  moreover have "takeWhile (\<lambda>x. x \<noteq> c) (ys @ c # zs) = ys" using a(3) by (induction ys) auto
  ultimately show "t_find c pos xs = Inr (pos + int (length ys))" using a by (simp add: t_find_def)
qed (simp add: t_find_def)

lemma t_find_Inr:
  assumes "t_find c pos xs = Inr r"
  shows "0 \<le> pos \<and> pos \<le> int (length xs) \<and> (r = - 1 \<and> c \<notin> set (drop (nat pos) xs)
    \<or> pos \<le> r \<and> r < int (length xs) \<and> xs ! nat r = c \<and> c \<notin> set (take (nat (r - pos)) (drop (nat pos) xs)))"
proof (cases "c \<in> set (drop (nat pos) xs)")
  case True
  then obtain ys zs where "drop (nat pos) xs = ys @ c # zs" "c \<notin> set ys" by (metis split_list_first)
  moreover have p: "0 \<le> pos" "pos \<le> int (length xs)" using assms by (auto simp: t_find_def split: if_splits)
  ultimately have y: "r = pos + int (length ys)" "drop (nat pos) xs = ys @ c # zs" "c \<notin> set ys" using assms by auto
  have l: "nat pos + length ys < length xs" using arg_cong [OF y(2), of length] p by simp
  have "xs ! (nat pos + length ys) = c" using y(2) l by (metis add_leD1 less_imp_le nth_append_length nth_drop)
  then show ?thesis using p y l by (simp add: nat_add_distrib)
qed (use assms in \<open>auto simp: t_find_def split: if_splits\<close>)

lemma t_mid_range [simp]:
  "t_mid (int (length xs)) (int (length ys)) (xs @ ys @ zs) = Inr (if ys = [] then zs else ys)"
  if "length (xs @ ys @ zs) < 2 ^ 32"
  using that by (simp add: t_mid_def)

lemma find_at: "drop n X = ys @ c # zs \<Longrightarrow> c \<notin> set ys \<Longrightarrow> t_find c (int n) X = Inr (int (n + length ys))"
  using t_find_simps(2) [of "int n" X ys c zs] by simp

lemma find_beyond:
  assumes "drop n X = ys @ zs" "c \<notin> set ys" "n \<le> length X"
  obtains r where "t_find c (int n) X = Inr r" "r = - 1 \<or> int (n + length ys) \<le> r"
proof (cases "c \<in> set zs")
  case True
  then obtain as bs where "zs = as @ c # bs" "c \<notin> set as" by (metis split_list_first)
  then show thesis using find_at [of n X "ys @ as" c bs] assms that by simp
next
  case False
  then show thesis using that [of "- 1"] assms by simp
qed

lemma mid_at:
  assumes "drop n X = ys @ zs" "ys \<noteq> []" "length X < 2 ^ 31" "m = int (length ys)"
  shows "t_mid (int n) m X = Inr ys"
proof -
  have "n + length ys \<le> length X" using arg_cong [OF assms(1), of length] assms(2) by (cases "n \<le> length X") auto
  then show ?thesis using assms by (simp add: t_mid_def)
qed

lemma drop_more: "drop n X = ys @ zs \<Longrightarrow> drop (n + length ys) X = zs"
  by (metis add.commute append_eq_conv_conj drop_drop)

lemma lit1: "lit [c] = [chr c]"
  by (simp add: lit_def chr_def)

lemma index_of_here: "index_of sub (sub @ xs) = Some 0"
proof (cases "sub @ xs")
  case (Cons y ys)
  then have "take (length sub) (y # ys) = sub" by (metis append_eq_conv_conj)
  then show ?thesis using Cons by simp
qed simp

lemma index_of_skip: "sub \<noteq> [] \<Longrightarrow> hd sub \<notin> set ys \<Longrightarrow> index_of sub (ys @ zs) = map_option (\<lambda>i. length ys + i) (index_of sub zs)"
proof (induction ys)
  case (Cons y ys)
  then have "take (length sub) (y # ys @ zs) \<noteq> sub" by (cases sub) auto
  then show ?case using Cons by (simp add: option.map_comp o_def)
qed (cases "index_of sub zs"; simp)

lemma index_of_absent: "sub \<noteq> [] \<Longrightarrow> hd sub \<notin> set ys \<Longrightarrow> index_of sub ys = None"
  using index_of_skip [of sub ys "[]"] by simp

lemma index_of_Some:
  "index_of sub xs = Some i \<Longrightarrow> take (length sub) (drop i xs) = sub \<and> i + length sub \<le> length xs
     \<and> (\<forall>j < i. take (length sub) (drop j xs) \<noteq> sub)"
proof (induction xs arbitrary: i)
  case (Cons x xs)
  show ?case
  proof (cases "take (length sub) (x # xs) = sub")
    case True
    then have "length sub \<le> length (x # xs)" by (metis length_take min.cobounded1 min_def)
    then show ?thesis using Cons.prems True by auto
  next
    case False
    then obtain k where "index_of sub xs = Some k" "i = Suc k" using Cons.prems by auto
    then show ?thesis using Cons.IH False by (auto simp: less_Suc_eq_0_disj)
  qed
qed (auto split: if_splits)

lemma index_of_None: "index_of sub xs = None \<Longrightarrow> j \<le> length xs \<Longrightarrow> take (length sub) (drop j xs) \<noteq> sub"
proof (induction xs arbitrary: j)
  case (Cons x xs)
  then show ?case by (cases j) (auto split: if_splits)
qed (auto split: if_splits)

section \<open>String objects have these texts\<close>

definition has_text :: "srl_str \<Rightarrow> bytes \<Rightarrow> bool" where
  "has_text s xs \<longleftrightarrow> str_wf s \<and> content s = xs \<and> 0 \<notin> set xs \<and> length xs < 2 ^ 31"

lemma has_text_length: "has_text s xs \<Longrightarrow> unat (s_string_length s) = length xs"
  using length_content [of s] by (simp add: has_text_def)

lemma unat_of_int: "0 \<le> p \<Longrightarrow> p < 2 ^ 32 \<Longrightarrow> unat (word_of_int p :: u32) = nat p"
  using unat_of_nat_small [where 'a = 32, of "nat p"] by simp

lemma find_text:
  assumes h: "has_text s xs" and c: "c \<noteq> 0" and f: "t_find c pos xs = Inr r"
  shows "str_find_chr c (word_of_int pos) s = Inr (word_of_int r)"
proof -
  have p: "0 \<le> pos" "pos \<le> int (length xs)" using f by (auto simp: t_find_def split: if_splits)
  have u: "unat (word_of_int pos :: u32) = nat pos" using p h by (intro unat_of_int) (auto simp: has_text_def)
  have w: "str_wf s" "0 \<notin> set (content s)" "content s = xs" using h by (auto simp: has_text_def)
  have "unat (word_of_int pos :: u32) \<le> unat (s_string_length s)" using has_text_length [OF h] u p by simp
  from str_find_chr_eq [OF w(1,2) c this] show ?thesis
    using f p u w(3) by (auto simp: t_find_def Let_def)
qed

lemma find_str_text:
  assumes h: "has_text s xs" and t: "has_text t sub" and f: "t_find_str sub pos xs = Inr r"
  shows "str_find t (word_of_int pos) s = Inr (word_of_int r)"
proof -
  have p: "0 \<le> pos" "pos \<le> int (length xs)" using f by (auto simp: t_find_str_def split: if_splits)
  have u: "unat (word_of_int pos :: u32) = nat pos" using p h by (intro unat_of_int) (auto simp: has_text_def)
  obtain rs where m: "str_mem s = xs @ 0 # rs" using str_mem_wf [of s] h by (auto simp: has_text_def)
  obtain rt where n: "str_mem t = sub @ 0 # rt" using str_mem_wf [of t] t by (auto simp: has_text_def)
  let ?ys = "drop (nat pos) xs"
  have z: "0 \<notin> set ?ys" "0 \<notin> set sub" using h t set_drop_subset [of "nat pos" xs] by (auto simp: has_text_def)
  have "c_strstr (?ys @ 0 # rs) (sub @ 0 # rt) = Inr (index_of sub ?ys)"
  proof (cases "index_of sub ?ys")
    case None
    then show ?thesis using c_strstr_append_None [OF z, of rs rt] index_of_None by metis
  next
    case (Some i)
    note k = index_of_Some [OF Some]
    have e: "?ys = take i ?ys @ sub @ drop (i + length sub) ?ys"
      using k by (metis add.commute append_take_drop_id drop_drop)
    have "length (take i ?ys) = i" using k by simp
    then show ?thesis using c_strstr_append_Some [of "take i ?ys" sub "drop (i + length sub) ?ys" rs rt] e k z Some
      by (metis append.assoc)
  qed
  then have "str_find t (word_of_int pos) s = Inr (find_result (word_of_int pos) (index_of sub ?ys))"
    using u m n p by (simp add: str_find_def blk_ptr_def)
  then show ?thesis using f p u by (auto simp: t_find_str_def find_result_def split: option.splits)
qed

lemma mid_text:
  assumes h: "has_text s xs" and f: "t_mid pos len xs = Inr ys" and b: "- (2 ^ 31) \<le> pos" "pos < 2 ^ 31" "- (2 ^ 31) \<le> len" "len < 2 ^ 31"
  shows "\<exists>r. str_mid (word_of_int pos) (word_of_int len) s = Inr r \<and> has_text r ys"
proof -
  have w: "str_wf s" "0 \<notin> set (content s)" "content s = xs" "length xs < 2 ^ 31" using h by (auto simp: has_text_def)
  have sum: "uint (word_of_int pos + word_of_int len :: u32) = (pos + len) mod 2 ^ 32"
    by (simp add: uint_word_ariths uint_word_of_int mod_simps)
  have cmp: "(word_of_int pos + word_of_int len :: u32) \<le> s_string_length s \<longleftrightarrow> (pos + len) mod 2 ^ 32 \<le> int (length xs)"
  proof -
    have "uint (s_string_length s) = int (length xs)" using has_text_length [OF h] by (metis uint_nat)
    then show ?thesis unfolding word_le_def sum by simp
  qed
  have sub: "has_text r (take n (drop m xs))" if "str_wf r" "content r = take n (drop m xs)" for r n m
  proof -
    have "length (take n (drop m xs)) < 2 ^ 31" using w(4) by simp
    moreover have "0 \<notin> set (take n (drop m xs))" using w(2,3) by (auto dest: in_set_takeD in_set_dropD)
    ultimately show ?thesis using that by (simp add: has_text_def)
  qed
  show ?thesis
  proof (cases "int (length xs) < (pos + len) mod 2 ^ 32")
    case True
    then have "str_mid (word_of_int pos) (word_of_int len) s = Inr str_empty"
      using cmp by (simp add: str_mid_def str_null_eq)
    moreover have "has_text str_empty []" by (simp add: has_text_def)
    ultimately show ?thesis using f True by (auto simp: t_mid_def)
  next
    case False
    then have r: "0 \<le> pos" "0 \<le> len" using f by (auto simp: t_mid_def split: if_splits)
    then have i: "pos + len \<le> int (length xs)" using False b by simp
    have u: "unat (word_of_int pos :: u32) = nat pos" "unat (word_of_int len :: u32) = nat len"
      using r b by (auto intro: unat_of_int)
    have pl: "unat (word_of_int pos :: u32) + unat (word_of_int len :: u32) \<le> unat (s_string_length s)"
      using i r u has_text_length [OF h] by simp
    show ?thesis
    proof (cases "len = 0")
      case True
      then show ?thesis using str_mid_zero [OF w(1,2), of "word_of_int pos"] pl u f False r w(3) sub [of _ "length xs" "nat pos"]
        by (auto simp: t_mid_def)
    next
      case nz: False
      then have "(word_of_int len :: u32) \<noteq> 0" using u r by (metis nat_0_iff nle_le unat_0)
      then show ?thesis using str_mid_ok [OF w(1) pl] u f False r nz w(3) sub by (auto simp: t_mid_def)
    qed
  qed
qed


lemma count_text:
  assumes h: "has_text s xs" and c: "c \<noteq> 0"
  shows "str_count_chr c s = Inr (of_nat (t_count c xs))"
proof -
  have "count_chr_from (ys @ 0 # rest) c n = Inr (n + of_nat (t_count c ys))" if "0 \<notin> set ys" for ys rest n
    using that
  proof (induction "length ys" arbitrary: ys n rule: less_induct)
    case less
    show ?case
    proof (cases "c \<in> set ys")
      case False
      then have "filter (\<lambda>x. x = c) ys = []" by (auto simp: filter_empty_conv)
      then show ?thesis using less.prems c False by (subst count_chr_from.simps) (simp add: c_strchr_append t_count_def)
    next
      case True
      then obtain as bs where y: "ys = as @ c # bs" "c \<notin> set as" by (metis split_list_first)
      then have "filter (\<lambda>x. x = c) as = []" by (auto simp: filter_empty_conv)
      moreover have "takeWhile (\<lambda>x. x \<noteq> c) (as @ c # bs) = as" using y(2) by (induction as) auto
      moreover have "c_strchr (ys @ 0 # rest) c = Inr (Some (length (takeWhile (\<lambda>x. x \<noteq> c) ys)))"
        using c_strchr_append [OF less.prems c] True by simp
      ultimately have "c_strchr (ys @ 0 # rest) c = Inr (Some (length as))" "t_count c ys = Suc (t_count c bs)"
        using y by (simp_all add: t_count_def)
      then show ?thesis using less.hyps [of bs "n + 1"] less.prems y
        by (subst count_chr_from.simps) simp
    qed
  qed
  moreover obtain rest where "str_mem s = xs @ 0 # rest" using str_mem_wf [of s] h by (auto simp: has_text_def)
  ultimately show ?thesis using h by (simp add: str_count_chr_def has_text_def)
qed

lemma skip_delims:
  assumes "m = xs @ 0 # rest" "delim \<noteq> 0" "i \<le> length xs"
  shows "section_skip m delim i = Inr (i + length (takeWhile (\<lambda>x. x = delim) (drop i xs)))"
  using assms
proof (induction "length xs - i" arbitrary: i)
  case 0
  then show ?case by (subst section_skip.simps) (simp add: nth_append)
next
  case (Suc n)
  then have d: "drop i xs = xs ! i # drop (Suc i) xs" "i < length xs" by (auto simp: Cons_nth_drop_Suc)
  then show ?case using Suc by (subst section_skip.simps) (simp add: nth_append)
qed

lemma word_minus_one:
  assumes "- 1 \<le> i" "i < 2 ^ 31"
  shows "(word_of_int i :: u32) = - 1 \<longleftrightarrow> i = - 1"
proof -
  have "sint (word_of_int i :: u32) = i" using assms by (simp add: int_word_sint)
  moreover have "sint (- 1 :: u32) = - 1" by simp
  ultimately show ?thesis by auto
qed

definition field_start :: "bool \<Rightarrow> u8 \<Rightarrow> nat \<Rightarrow> bytes \<Rightarrow> nat" where
  "field_start allow_null c start xs = (if allow_null then start else start + length (takeWhile (\<lambda>x. x = c) (drop start xs)))"

lemma field_start_le: "start \<le> length xs \<Longrightarrow> field_start allow_null c start xs \<le> length xs"
  using length_takeWhile_le [of "\<lambda>x. x = c" "drop start xs"] by (auto simp: field_start_def)

lemma section_round:
  assumes h: "has_text s xs" and c: "c \<noteq> 0" and st: "start \<le> length xs"
    and f: "t_find c (int (field_start allow_null c start xs)) xs = Inr r"
  shows "section_loop n c allow_null (word_of_int (int start - 1)) s =
    (let w = word_of_int (int (field_start allow_null c start xs)) in case n of 0 \<Rightarrow> Inr (w, word_of_int r, True)
     | Suc k \<Rightarrow> if r = - 1 then Inr (w, - 1, False) else section_loop k c allow_null (word_of_int (int (nat r + 1) - 1)) s)"
proof -
  obtain rest where m: "str_mem s = xs @ 0 # rest" using str_mem_wf [of s] h by (auto simp: has_text_def)
  have b: "length xs < 2 ^ 31" using h by (simp add: has_text_def)
  have one: "word_of_int (int start - 1) + 1 = (word_of_int (int start) :: u32)" by (simp add: wi_hom_syms)
  have u: "unat (word_of_int (int start) :: u32) = start" using unat_of_int [of "int start"] st b by simp
  have r: "- 1 \<le> r" "r < 2 ^ 31" using t_find_Inr [OF f] b by auto
  have e: "(word_of_int r :: u32) = - 1 \<longleftrightarrow> r = - 1" by (rule word_minus_one [OF r])
  have "(if allow_null then Inr (word_of_int (int start - 1))
      else bindR (section_skip (str_mem s) c (unat (word_of_int (int start - 1) + 1 :: u32))) (\<lambda>i. Inr (of_nat i - 1)))
    = Inr (word_of_int (int (field_start allow_null c start xs)) - 1 :: u32)"
    using u one skip_delims [OF m c st] by (simp add: field_start_def wi_hom_syms)
  moreover have "str_find_chr c (word_of_int (int (field_start allow_null c start xs))) s = Inr (word_of_int r)"
    by (rule find_text [OF h c f])
  ultimately show ?thesis using e r by (subst section_loop.simps) (auto simp: Let_def split: nat.split)
qed


lemma section_from_text:
  assumes h: "has_text s xs" and c: "c \<noteq> 0"
  shows "t_section_from c allow_null k start xs = Inr zs \<Longrightarrow> start \<le> length xs \<Longrightarrow>
    \<exists>st sp ok. section_loop k c allow_null (word_of_int (int start - 1)) s = Inr (word_of_int st, word_of_int sp, ok)
     \<and> - 1 \<le> sp \<and> sp \<le> int (length xs) \<and> 0 \<le> st \<and> st \<le> int (length xs)
     \<and> (if sp = - 1 \<and> \<not> ok then zs = [] else t_mid st ((if sp = - 1 then int (length xs) else sp) - st) xs = Inr zs)"
proof (induction k arbitrary: start)
  case 0
  define st where "st = field_start allow_null c start xs"
  have stb: "st \<le> length xs" unfolding st_def using 0(2) by (rule field_start_le)
  obtain r where r: "t_find c (int st) xs = Inr r"
    "t_mid (int st) ((if r = - 1 then int (length xs) else r) - int st) xs = Inr zs"
    using 0(1) by (subst (asm) t_section_from.simps) (auto simp: st_def field_start_def Let_def res_simps)
  have "- 1 \<le> r" "r \<le> int (length xs)" using t_find_Inr [OF r(1)] by auto
  then show ?case using section_round [OF h c 0(2), of allow_null r 0] r stb
    by (intro exI [of _ "int st"] exI [of _ r] exI [of _ True]) (simp add: st_def)
next
  case (Suc k)
  define st where "st = field_start allow_null c start xs"
  have stb: "st \<le> length xs" unfolding st_def using Suc.prems(2) by (rule field_start_le)
  obtain r where r: "t_find c (int st) xs = Inr r"
    "if r = - 1 then zs = [] else t_section_from c allow_null k (nat r + 1) xs = Inr zs"
    using Suc.prems(1) by (subst (asm) t_section_from.simps) (auto simp: st_def field_start_def Let_def res_simps split: if_splits)
  note round = section_round [OF h c Suc.prems(2), of allow_null r "Suc k", folded st_def, OF r(1)]
  show ?case
  proof (cases "r = - 1")
    case True
    then show ?thesis using round r stb
      by (intro exI [of _ "int st"] exI [of _ "- 1"] exI [of _ False]) (simp add: Let_def)
  next
    case False
    then have "nat r + 1 \<le> length xs" using t_find_Inr [OF r(1)] by auto
    then show ?thesis using Suc.IH [of "nat r + 1"] round r False by (simp add: Let_def)
  qed
qed

lemma section_text:
  assumes h: "has_text s xs" and c: "c \<noteq> 0" and f: "t_section c allow_null n xs = Inr ys" and n: "n < 2 ^ 31"
  shows "\<exists>r. str_section_chr c (of_nat n) allow_null s = Inr r \<and> has_text r ys"
proof -
  have b: "length xs < 2 ^ 31" using h by (simp add: has_text_def)
  obtain st sp ok where l: "section_loop n c allow_null (- 1) s = Inr (word_of_int st, word_of_int sp, ok)"
    "- 1 \<le> sp" "sp \<le> int (length xs)" "0 \<le> st" "st \<le> int (length xs)"
    "if sp = - 1 \<and> \<not> ok then ys = [] else t_mid st ((if sp = - 1 then int (length xs) else sp) - st) xs = Inr ys"
    using section_from_text [OF h c f [unfolded t_section_def]] by auto
  have e: "(word_of_int sp :: u32) = - 1 \<longleftrightarrow> sp = - 1" using l(2,3) b by (intro word_minus_one) auto
  have fld: "section_field (of_nat n) = n" "\<not> (of_nat n :: u32) <s 0"
    using n nat_i32_sign [OF n] by (simp_all add: section_field_def unat_of_nat_small)
  show ?thesis
  proof (cases "sp = - 1 \<and> \<not> ok")
    case True
    have "has_text str_empty []" by (simp add: has_text_def)
    then show ?thesis using True l e fld by (simp add: str_section_chr_def str_null_eq)
  next
    case False
    define q where "q = (if sp = - 1 then int (length xs) else sp)"
    have q: "q - st < 2 ^ 31" "- (2 ^ 31) \<le> q - st" "st < 2 ^ 31" using l b by (auto simp: q_def)
    have "(if (word_of_int sp :: u32) = - 1 then s_string_length s else word_of_int sp) - word_of_int st = word_of_int (q - st)"
    proof -
      have "s_string_length s = word_of_int (int (length xs))" using has_text_length [OF h] unat_of_nat_small [where 'a = 32, of "length xs"] b by (simp add: word_unat_eq_iff)
      then show ?thesis using e by (simp add: q_def wi_hom_syms)
    qed
    moreover obtain r where "str_mid (word_of_int st) (word_of_int (q - st)) s = Inr r" "has_text r ys"
      using mid_text [OF h, of st "q - st" ys] l False q by (auto simp: q_def split: if_splits)
    ultimately show ?thesis using False l e fld by (auto simp: str_section_chr_def Let_def)
  qed
qed

lemma push_text:
  assumes h: "has_text s xs" and c: "c \<noteq> 0" and l: "Suc (length xs) < 2 ^ 31"
  shows "\<exists>r. str_push c s = Inr r \<and> has_text r (xs @ [c])"
proof -
  have "str_room (Suc 0) s"
    using h l has_text_length [OF h] str_wf_min [of s] by (simp add: str_room_def has_text_def)
  then obtain r where r: "str_push c s = Inr r" using str_push_works [of s 0 c] h by (auto simp: has_text_def)
  then show ?thesis using str_push_Inr [of s c r] h c l by (auto simp: has_text_def)
qed


lemma set_text:
  assumes h: "has_text s xs" and i: "i < length xs" and d: "d \<noteq> 0"
  shows "\<exists>s'. str_set (word_of_int (int i)) d s = Inr s' \<and> has_text s' (xs[i := d])"
proof -
  have w: "str_wf s" "content s = xs" "length xs < 2 ^ 31" using h by (auto simp: has_text_def)
  have u: "unat (word_of_int (int i) :: u32) = i" using unat_of_int [of "int i"] i w(3) by simp
  have "i < length (s_str s)" using w(2) i by (auto simp: content_def)
  then obtain s' where s': "str_set (word_of_int (int i)) d s = Inr s'" using u by (simp add: str_set_def blk_simps)
  have "word_of_int (int i) \<noteq> s_string_length s" using u has_text_length [OF h] i by auto
  then have "str_wf s' \<and> content s' = xs[i := d]" using str_set_Inr [OF w(1) s'] u w(2) by simp
  moreover have "0 \<notin> set (xs[i := d])" using h d set_update_subset_insert [of xs i d] by (auto simp: has_text_def)
  ultimately show ?thesis using s' w(3) by (auto simp: has_text_def)
qed

lemma replace_loop_text:
  assumes "c \<noteq> 0" "d \<noteq> 0" "c \<noteq> d"
  shows "has_text s xs \<Longrightarrow> p \<le> length xs \<Longrightarrow> t_count c (drop p xs) \<le> fuel \<Longrightarrow>
    \<exists>s'. bindR (str_find_chr c (word_of_int (int p)) s) (\<lambda>npos. replace_cc_loop fuel c d True npos s) = Inr s'
     \<and> has_text s' (take p xs @ t_replace c d (drop p xs))"
proof (induction fuel arbitrary: s xs p)
  case (0 s xs p)
  then have n: "c \<notin> set (drop p xs)" by (auto simp: t_count_def filter_empty_conv)
  then have "t_replace c d (drop p xs) = drop p xs" by (auto simp: t_replace_def intro: map_idI)
  moreover have "str_find_chr c (word_of_int (int p)) s = Inr (word_of_int (- 1))" using 0 n by (intro find_text [OF _ assms(1)]) auto
  ultimately show ?case using 0 by simp
next
  case (Suc fuel s xs p)
  show ?case
  proof (cases "c \<in> set (drop p xs)")
    case False
    then have "t_replace c d (drop p xs) = drop p xs" by (auto simp: t_replace_def intro: map_idI)
    moreover have "str_find_chr c (word_of_int (int p)) s = Inr (word_of_int (- 1))" using Suc.prems False by (intro find_text [OF _ assms(1)]) auto
    ultimately show ?thesis using Suc.prems by simp
  next
    case True
    then obtain as bs where y: "drop p xs = as @ c # bs" "c \<notin> set as" by (metis split_list_first)
    define q where "q = p + length as"
    have xs: "xs = take p xs @ as @ c # bs" "length (take p xs) = p" using y Suc.prems(2) by (metis append_take_drop_id, simp)
    have q: "q < length xs" using arg_cong [OF xs(1), of length] xs(2) by (simp add: q_def)
    have f: "str_find_chr c (word_of_int (int p)) s = Inr (word_of_int (int q))"
      using Suc.prems(1) y by (intro find_text [OF _ assms(1)]) (auto simp: q_def)
    obtain s1 where s1: "str_set (word_of_int (int q)) d s = Inr s1" "has_text s1 (xs[q := d])"
      using set_text [OF Suc.prems(1) q assms(2)] by blast
    have x1: "xs[q := d] = take p xs @ as @ d # bs"
    proof -
      have "((take p xs @ as) @ c # bs)[length (take p xs @ as) := d] = (take p xs @ as) @ d # bs" by (rule list_update_length)
      then show ?thesis using xs by (simp add: q_def)
    qed
    have l: "length (take p xs @ as) = q" using xs(2) by (simp add: q_def)
    have tq: "take q (xs[q := d]) = take p xs @ as" "drop q (xs[q := d]) = d # bs"
    proof -
      have "xs[q := d] = (take p xs @ as) @ d # bs" using x1 by simp
      then show "take q (xs[q := d]) = take p xs @ as" "drop q (xs[q := d]) = d # bs"
        using l by (metis append_eq_conv_conj)+
    qed
    have "filter (\<lambda>x. x = c) as = []" using y(2) by (auto simp: filter_empty_conv)
    then have "t_count c (d # bs) \<le> fuel" using Suc.prems(3) y(1) assms(3) by (simp add: t_count_def)
    then obtain s' where s': "bindR (str_find_chr c (word_of_int (int q)) s1) (\<lambda>npos. replace_cc_loop fuel c d True npos s1) = Inr s'"
      "has_text s' (take p xs @ as @ t_replace c d (d # bs))"
      using Suc.IH [OF s1(2), of q] q tq by auto
    have "map (\<lambda>x. if x = c then d else x) as = as" using y(2) by (auto intro: map_idI)
    then have "take p xs @ as @ t_replace c d (d # bs) = take p xs @ t_replace c d (drop p xs)"
      using y(1) assms(3) by (simp add: t_replace_def)
    moreover have "\<not> (word_of_int (int q) :: u32) <s 0" using nat_i32_sign [of q] q Suc.prems(1) by (simp add: has_text_def)
    ultimately show ?thesis using f s1(1) s' by simp
  qed
qed

lemma replace_text:
  assumes "has_text s xs" "c \<noteq> 0" "d \<noteq> 0" "c \<noteq> d" "length xs \<le> fuel"
  shows "\<exists>s'. str_replace_cc fuel c d 0 True s = Inr s' \<and> has_text s' (t_replace c d xs)"
proof -
  have "t_count c xs \<le> fuel" unfolding t_count_def using assms(5) length_filter_le order_trans by blast
  then show ?thesis using replace_loop_text [OF assms(2-4) assms(1), of 0 fuel] by (simp add: str_replace_cc_def)
qed

end
