(* ===== verification/Uri.thy ===== *)
theory Uri
  imports Text_Ops Dict_Ops
begin

text \<open>
  \<open>SRL::Net::URI\<close> (src/net/URI.cpp, include/srl/net/URI.h): percent encoding, the split of a text
  into scheme, user, host, port, path, query and fragment, the rebuilt text, and the map of the
  query fields. Strings are their texts (\<open>Text_Ops\<close>); the map is the list of pairs that
  \<open>Dictionary\<close> refines (\<open>Dict_Ops\<close>), with keys compared by the hash of their text.
\<close>

section \<open>Percent encoding\<close>

definition ENCODE_EXCLUDE_USER :: bytes where
  "ENCODE_EXCLUDE_USER = lit [CHR ''!'', CHR ''$'', CHR ''&'', CHR 0x27, CHR ''('', CHR '')'', CHR ''*'', CHR ''+'', CHR '','', CHR '';'', CHR ''='', CHR '':'']"

definition ENCODE_EXCLUDE_HOST :: bytes where
  "ENCODE_EXCLUDE_HOST = lit ''[]:''"

definition ENCODE_EXCLUDE_PATH :: bytes where
  "ENCODE_EXCLUDE_PATH = lit [CHR ''!'', CHR ''$'', CHR ''&'', CHR 0x27, CHR ''('', CHR '')'', CHR ''*'', CHR ''+'', CHR '','', CHR '';'', CHR ''='', CHR '':'', CHR ''@'', CHR ''/'']"

definition ENCODE_EXCLUDE_QUERY :: bytes where
  "ENCODE_EXCLUDE_QUERY = lit [CHR ''!'', CHR ''$'', CHR ''&'', CHR 0x27, CHR ''*'', CHR ''+'', CHR '','', CHR '';'', CHR ''='', CHR '':'', CHR ''@'', CHR ''/'', CHR ''?'']"

definition ENCODE_EXCLUDE_QUERYITEM :: bytes where
  "ENCODE_EXCLUDE_QUERYITEM = lit [CHR ''!'', CHR ''$'', CHR 0x27, CHR ''('', CHR '')'', CHR ''*'', CHR ''+'', CHR '','', CHR '';'', CHR '':'', CHR ''@'', CHR ''/'', CHR ''?'']"

definition ENCODE_EXCLUDE_FRAG :: bytes where
  "ENCODE_EXCLUDE_FRAG = lit [CHR ''!'', CHR ''$'', CHR ''&'', CHR 0x27, CHR ''('', CHR '')'', CHR ''*'', CHR ''+'', CHR '','', CHR '';'', CHR ''='', CHR '':'', CHR ''@'', CHR ''/'', CHR ''?'']"

definition ShouldEncode :: "u8 \<Rightarrow> bytes \<Rightarrow> bool" where
  "ShouldEncode ch exclude_list = (if chr CHR ''a'' \<le> ch \<and> ch \<le> chr CHR ''z'' \<or> chr CHR ''A'' \<le> ch \<and> ch \<le> chr CHR ''Z''
       \<or> chr CHR ''0'' \<le> ch \<and> ch \<le> chr CHR ''9'' \<or> ch = chr CHR ''-'' \<or> ch = chr CHR ''.'' \<or> ch = chr CHR ''_'' \<or> ch = chr CHR ''~''
       \<or> ch \<in> set exclude_list then False else True)"

fun uri_Encode :: "bytes \<Rightarrow> bytes \<Rightarrow> bytes \<Rightarrow> bytes" where
  "uri_Encode [] out exclude = out"
| "uri_Encode (c # inp) out exclude = uri_Encode inp
     (if ShouldEncode c exclude then Hex c (out @ [chr CHR ''%'']) else out @ [c]) exclude"

text \<open>A decoded NUL adds nothing, as \<open>+=\<close> ignores it.\<close>

fun decode_loop :: "bytes \<Rightarrow> bytes \<Rightarrow> bytes" where
  "decode_loop [] out = out"
| "decode_loop (c # inp) out = (if c = chr CHR ''%'' then
     (case inp of h # l # rest \<Rightarrow> decode_loop rest (push_byte out (UnHex h l)) | _ \<Rightarrow> decode_loop inp (push_byte out c))
     else decode_loop inp (push_byte out c))"

definition uri_Decode :: "bytes \<Rightarrow> bytes \<Rightarrow> bytes" where
  "uri_Decode encoded out = decode_loop (t_replace (chr CHR ''+'') (chr CHR '' '') encoded) out"

section \<open>The object\<close>

record uri =
  u_query_map :: "(bytes \<times> bytes) list"
  u_str :: bytes
  u_scheme :: bytes
  u_user :: bytes
  u_host :: bytes
  u_path :: bytes
  u_query :: bytes
  u_fragment :: bytes
  u_port :: u32

definition uri_empty :: uri where
  "uri_empty = \<lparr>u_query_map = [], u_str = [], u_scheme = [], u_user = [], u_host = [], u_path = [], u_query = [],
     u_fragment = [], u_port = 0\<rparr>"

definition port_text :: "u32 \<Rightarrow> bytes" where
  "port_text p = (case Val_uint32 p 10 of Inr t \<Rightarrow> t | Inl _ \<Rightarrow> [])"

definition generateString :: "uri \<Rightarrow> uri" where
  "generateString u = u\<lparr>u_str :=
     (if u_scheme u \<noteq> [] then u_scheme u @ lit '':'' else [])
     @ (if u_host u \<noteq> [] then lit ''//'' @ (if u_user u \<noteq> [] then u_user u @ lit ''@'' else []) @ u_host u
          @ (if 0 < u_port u then lit '':'' @ port_text (u_port u) else []) else [])
     @ (if u_path u \<noteq> [] then u_path u @ (if u_query u \<noteq> [] then lit ''?'' @ u_query u else [])
          @ (if u_fragment u \<noteq> [] then lit ''#'' @ u_fragment u else []) else [])\<rparr>"

text \<open>The parsers of the parts; the position is \<open>-1\<close> when nothing is left.\<close>

definition parseScheme :: "bytes \<Rightarrow> int \<Rightarrow> uri \<Rightarrow> (int \<times> uri) res" where
  "parseScheme uri pos u = bindR (t_find (chr CHR '':'') 0 uri) (\<lambda>scheme_epos.
     if scheme_epos = - 1 then Inr (pos, u) else
     bindR (t_find (chr CHR ''/'') 0 uri) (\<lambda>auth_spos.
     if scheme_epos < auth_spos then Inr (scheme_epos + 1, u\<lparr>u_scheme := t_left scheme_epos uri\<rparr>) else Inr (pos, u)))"

text \<open>A part of the text as it stands, or encoded, in which case \<open>_str\<close> holds the plain text.\<close>

definition part :: "bool \<Rightarrow> bytes \<Rightarrow> int \<Rightarrow> int \<Rightarrow> bytes \<Rightarrow> uri \<Rightarrow> (bytes \<times> uri) res" where
  "part is_encoded uri pos len exclude u = bindR (t_mid pos len uri) (\<lambda>t.
     Inr (if is_encoded then (t, u) else (uri_Encode t [] exclude, u\<lparr>u_str := t\<rparr>)))"

text \<open>The user part and where the host begins, then the port and where the host ends.\<close>

definition parseUser :: "bytes \<Rightarrow> int \<Rightarrow> int \<Rightarrow> int \<Rightarrow> bool \<Rightarrow> uri \<Rightarrow> (int \<times> uri) res" where
  "parseUser uri pos spos epos is_encoded u = bindR (t_find (chr CHR ''@'') pos uri) (\<lambda>part_epos.
     if part_epos \<noteq> - 1 \<and> part_epos < epos then
       bindR (part is_encoded uri spos (part_epos - spos) ENCODE_EXCLUDE_USER u) (\<lambda>(t, u).
       Inr (part_epos + 1, u\<lparr>u_user := t\<rparr>))
     else Inr (spos, u))"

definition parsePort :: "bytes \<Rightarrow> int \<Rightarrow> int \<Rightarrow> uri \<Rightarrow> (int \<times> uri) res" where
  "parsePort uri spos epos u = bindR (t_find (chr CHR '':'') spos uri) (\<lambda>part_epos.
     if part_epos = - 1 \<or> epos < part_epos then Inr (epos, u)
     else bindR (t_mid (part_epos + 1) (epos - (part_epos + 1)) uri) (\<lambda>t.
       bindR (t_Int t) (\<lambda>p. Inr (part_epos, u\<lparr>u_port := p\<rparr>))))"

definition parseAuthority :: "bytes \<Rightarrow> int \<Rightarrow> bool \<Rightarrow> uri \<Rightarrow> (int \<times> uri) res" where
  "parseAuthority uri pos is_encoded u = bindR (t_find_str (lit ''//'') 0 uri) (\<lambda>spos.
     if spos = - 1 then Inr (pos, u) else
     let spos = spos + 2 in
     bindR (t_find (chr CHR ''/'') spos uri) (\<lambda>epos.
     let epos = (if epos = - 1 then int (length uri) else epos) in
     bindR (parseUser uri pos spos epos is_encoded u) (\<lambda>(spos, u).
     bindR (parsePort uri spos epos u) (\<lambda>(part_epos, u).
     bindR (part is_encoded uri spos (part_epos - spos) ENCODE_EXCLUDE_HOST u) (\<lambda>(t, u).
     let pos = (if 0 < u_port u then epos + 1 else pos) in
     Inr (if part_epos < int (length uri) then epos else - 1, u\<lparr>u_host := t\<rparr>))))))"

definition parseQuery :: "bytes \<Rightarrow> int \<Rightarrow> bool \<Rightarrow> uri \<Rightarrow> uri res" where
  "parseQuery uri query_pos is_encoded u = (let part_epos = int (length uri) in
     bindR (part is_encoded uri query_pos (part_epos - query_pos) (lit '' =&'') u) (\<lambda>(t, u).
     Inr (u\<lparr>u_query := (if is_encoded then t else t_replace (chr CHR '' '') (chr CHR ''+'') t)\<rparr>)))"

definition parsePath :: "bytes \<Rightarrow> int \<Rightarrow> bool \<Rightarrow> uri \<Rightarrow> (int \<times> uri) res" where
  "parsePath uri pos is_encoded u = bindR (t_find (chr CHR ''?'') pos uri) (\<lambda>query_pos.
     bindR (t_find (chr CHR ''#'') pos uri) (\<lambda>frag_pos.
     let epos = int (length uri) in
     bindR (if 0 \<le> query_pos then
         let epos = (if query_pos < frag_pos then frag_pos else query_pos); query_pos = query_pos + 1 in
         bindR (parseQuery uri query_pos is_encoded u) (\<lambda>u. Inr (epos, query_pos, u))
       else Inr (if 0 < frag_pos then frag_pos else epos, query_pos, u)) (\<lambda>(epos, query_pos, u).
     bindR (part is_encoded uri pos (epos - pos) ENCODE_EXCLUDE_PATH u) (\<lambda>(t, u).
     let u = u\<lparr>u_path := t\<rparr> in
     if 0 \<le> frag_pos then
       let epos = (if frag_pos < query_pos then query_pos else int (length uri)); frag_pos = frag_pos + 1 in
       bindR (part is_encoded uri frag_pos (epos - frag_pos) ENCODE_EXCLUDE_FRAG u) (\<lambda>(t, u).
       Inr (epos, u\<lparr>u_fragment := t\<rparr>))
     else Inr (epos, u)))))"

text \<open>\<open>set\<close> clears every member first.\<close>

definition uri_set :: "bytes \<Rightarrow> bool \<Rightarrow> uri \<Rightarrow> uri res" where
  "uri_set uri is_encoded u = (let u = u\<lparr>u_query_map := [], u_str := [], u_scheme := [], u_user := [], u_host := [],
       u_path := [], u_query := [], u_fragment := [], u_port := 0\<rparr> in
     bindR (parseScheme uri 0 u) (\<lambda>(pos, u).
     bindR (parseAuthority uri pos is_encoded u) (\<lambda>(pos, u).
     bindR (if pos \<noteq> - 1 then bindR (parsePath uri pos is_encoded u) (\<lambda>(pos, u). Inr u) else Inr u) (\<lambda>u.
     Inr (generateString u)))))"

definition uri_new :: "bytes \<Rightarrow> bool \<Rightarrow> uri res" where
  "uri_new uri is_encoded = uri_set uri is_encoded uri_empty"

section \<open>The query map\<close>

definition map_append :: "bytes \<Rightarrow> bytes \<Rightarrow> (bytes \<times> bytes) list \<Rightarrow> (bytes \<times> bytes) list" where
  "map_append key v m = (case kv_find hash_bytes key m of
     None \<Rightarrow> kv_set hash_bytes key v m
   | Some (k, old) \<Rightarrow> kv_set hash_bytes key (old @ lit ''&'' @ v) m)"

fun query_fields :: "nat \<Rightarrow> int \<Rightarrow> bytes \<Rightarrow> (bytes \<times> bytes) list \<Rightarrow> (bytes \<times> bytes) list res" where
  "query_fields 0 spos query m = Inr m"
| "query_fields (Suc n) spos query m = bindR (t_find (chr CHR ''='') spos query) (\<lambda>epos.
     if epos = - 1 then Inr m else
     bindR (t_mid spos (epos - spos) query) (\<lambda>field.
     let spos = epos + 1 in
     bindR (t_find (chr CHR ''&'') spos query) (\<lambda>epos.
     let epos = (if epos = - 1 then int (length query) else epos) in
     bindR (t_mid spos (epos - spos) query) (\<lambda>v.
     query_fields n (epos + 1) query (map_append field v m)))))"

definition getQueryMap :: "uri \<Rightarrow> uri res" where
  "getQueryMap u = (if u_query_map u = [] \<and> u_query u \<noteq> [] then
       bindR (query_fields (t_count (chr CHR ''&'') (u_query u) + 1) 0 (u_query u) []) (\<lambda>m. Inr (u\<lparr>u_query_map := m\<rparr>))
     else Inr u)"

definition addQueryField :: "bytes \<Rightarrow> bytes \<Rightarrow> uri \<Rightarrow> uri res" where
  "addQueryField key v u = bindR (getQueryMap u) (\<lambda>u.
     let encoded_value = t_replace (chr CHR '' '') (chr CHR ''+'') (uri_Encode v [] (lit '' .~_-'')) in
     Inr (u\<lparr>u_query_map := map_append key encoded_value (u_query_map u)\<rparr>))"

text \<open>One entry of the map as query text: a field for each of its values.\<close>

fun more_values :: "bytes \<Rightarrow> bytes \<Rightarrow> nat \<Rightarrow> nat \<Rightarrow> bytes res" where
  "more_values key v i 0 = Inr []"
| "more_values key v i (Suc n) = bindR (t_section (chr CHR ''&'') True i v) (\<lambda>x.
     bindR (more_values key v (i + 1) n) (\<lambda>rest. Inr (lit ''&'' @ key @ lit ''='' @ x @ rest)))"

definition entry_text :: "bytes \<Rightarrow> bytes \<Rightarrow> bytes res" where
  "entry_text key v = (let value_count = t_count (chr CHR ''&'') v in
     bindR (if 0 < value_count then bindR (t_section (chr CHR ''&'') True 0 v) (\<lambda>x.
         bindR (more_values key v 1 value_count) (\<lambda>rest. Inr (x @ rest))) else Inr v) (\<lambda>t.
     Inr (key @ lit ''='' @ t)))"

fun query_text :: "(bytes \<times> bytes) list \<Rightarrow> bytes res" where
  "query_text [] = Inr []"
| "query_text ((key, v) # m) = bindR (entry_text key v) (\<lambda>t.
     bindR (query_text m) (\<lambda>rest. Inr (t @ (if m = [] then [] else lit ''&'' @ rest))))"

definition uri_asString :: "uri \<Rightarrow> (bytes \<times> uri) res" where
  "uri_asString u = (if u_query_map u = [] then Inr (u_str u, u)
     else if t_count (chr CHR ''&'') (u_query u) + 1 \<noteq> length (u_query_map u) then
       bindR (query_text (u_query_map u)) (\<lambda>q. let u = generateString (u\<lparr>u_query := q\<rparr>) in Inr (u_str u, u))
     else Inr (u_str u, u))"

section \<open>Encoding and decoding\<close>

definition enc1 :: "bytes \<Rightarrow> u8 \<Rightarrow> bytes" where
  "enc1 exclude c = (if ShouldEncode c exclude
     then [chr CHR ''%'', HEX ! unat (drop_bit 4 c), HEX ! unat (c AND 15)] else [c])"

lemma uri_Encode_concat: "uri_Encode inp out exclude = out @ concat (map (enc1 exclude) inp)"
  by (induction inp arbitrary: out) (simp_all add: enc1_def Hex_eq)

lemma hex_digit: "HEX ! unat (drop_bit 4 (c :: u8)) \<in> set HEX" "HEX ! unat ((c :: u8) AND 15) \<in> set HEX"
proof -
  have "length HEX = 16" by (simp add: HEX_bytes)
  moreover have "unat c div 16 < 16" using unat_lt8 [of c] by (simp add: less_mult_imp_div_less)
  ultimately show "HEX ! unat (drop_bit 4 c) \<in> set HEX" "HEX ! unat (c AND 15) \<in> set HEX" by (simp_all add: nibbles)
qed

lemma hex_plain: "x \<in> set HEX \<Longrightarrow> x \<noteq> chr CHR ''+'' \<and> x \<noteq> chr CHR ''%'' \<and> x \<noteq> 0"
  by (auto simp: HEX_bytes chr_def)

lemma unreserved: "\<not> ShouldEncode c exclude \<Longrightarrow> c \<notin> set exclude \<Longrightarrow> c \<noteq> chr CHR ''+'' \<and> c \<noteq> chr CHR ''%''"
  by (auto simp: ShouldEncode_def chr_def split: if_splits)

lemma enc1_no_plus: "chr CHR ''+'' \<notin> set exclude \<Longrightarrow> t_replace (chr CHR ''+'') d (enc1 exclude c) = enc1 exclude c"
  using hex_digit [of c] hex_plain unreserved [of c exclude] by (auto simp: enc1_def t_replace_def) (auto simp: chr_def)

lemma decode_enc1:
  "chr CHR ''%'' \<notin> set exclude \<Longrightarrow> c \<noteq> 0 \<Longrightarrow> decode_loop (enc1 exclude c @ rest) out = decode_loop rest (out @ [c])"
  using unreserved [of c exclude] by (auto simp: enc1_def UnHex_nibbles push_byte_def)

lemma decode_encoded:
  "chr CHR ''%'' \<notin> set exclude \<Longrightarrow> 0 \<notin> set inp \<Longrightarrow>
   decode_loop (concat (map (enc1 exclude) inp)) out = out @ inp"
  by (induction inp arbitrary: out) (simp_all add: decode_enc1)

lemma replace_encoded:
  "chr CHR ''+'' \<notin> set exclude \<Longrightarrow>
   t_replace (chr CHR ''+'') d (concat (map (enc1 exclude) inp)) = concat (map (enc1 exclude) inp)"
proof (induction inp)
  case (Cons c inp)
  then show ?case using enc1_no_plus [of exclude d c] by (simp add: t_replace_def)
qed (simp add: t_replace_def)

interpretation percent: codec "\<lambda>xs. 0 \<notin> set xs \<and> chr CHR ''+'' \<notin> set exclude \<and> chr CHR ''%'' \<notin> set exclude"
  "\<lambda>xs. uri_Encode xs [] exclude" "\<lambda>ys. uri_Decode ys []" for exclude
  by unfold_locales (simp add: uri_Encode_concat uri_Decode_def replace_encoded decode_encoded)

section \<open>Parsing what was printed\<close>

lemma parseUser_some:
  assumes "drop n X = user @ chr CHR ''@'' # R" "drop k X = ys @ user @ chr CHR ''@'' # R" "k + length ys = n"
    "chr CHR ''@'' \<notin> set (ys @ user)" "user \<noteq> []" "length X < 2 ^ 31" "n + length user < e"
  shows "parseUser X (int k) (int n) (int e) True u = Inr (int (n + length user + 1), u\<lparr>u_user := user\<rparr>)"
proof -
  have "t_find (chr CHR ''@'') (int k) X = Inr (int (n + length user))"
    using find_at [of k X "ys @ user" "chr CHR ''@''" R] assms(2-4) by (simp add: add.assoc [symmetric])
  then show ?thesis using mid_at [OF assms(1,5,6)] assms(7) by (simp add: parseUser_def part_def)
qed

lemma parseUser_none:
  assumes "drop k X = ys @ zs" "chr CHR ''@'' \<notin> set ys" "k \<le> length X" "e = k + length ys"
  shows "parseUser X (int k) (int n) (int e) True u = Inr (int n, u)"
proof -
  obtain r where "t_find (chr CHR ''@'') (int k) X = Inr r" "r = - 1 \<or> int (k + length ys) \<le> r"
    using find_beyond [OF assms(1-3)] by blast
  then show ?thesis using assms(4) by (auto simp: parseUser_def)
qed

lemma parsePort_some:
  assumes "drop n X = host @ chr CHR '':'' # t @ zs" "chr CHR '':'' \<notin> set host" "t \<noteq> []" "length X < 2 ^ 31"
    "t_Int t = Inr p" "e = n + length host + 1 + length t"
  shows "parsePort X (int n) (int e) u = Inr (int (n + length host), u\<lparr>u_port := p\<rparr>)"
proof -
  have "drop (n + length host + 1) X = t @ zs" using drop_more [of n X "host @ [chr CHR '':'']" "t @ zs"] assms(1) by simp
  from mid_at [OF this assms(3,4)] have "t_mid (int (n + length host) + 1) (int e - (int (n + length host) + 1)) X = Inr t"
    using assms(6) by (simp add: algebra_simps)
  then show ?thesis using find_at [OF assms(1,2)] assms(5,6) by (simp add: parsePort_def)
qed

lemma parsePort_none:
  assumes "drop n X = host @ chr CHR ''/'' # zs" "chr CHR '':'' \<notin> set host" "n \<le> length X" "e = n + length host"
  shows "parsePort X (int n) (int e) u = Inr (int e, u)"
proof -
  have "chr CHR '':'' \<notin> set (host @ [chr CHR ''/''])" using assms(2) by (simp add: chr_def)
  moreover have "drop n X = (host @ [chr CHR ''/'']) @ zs" using assms(1) by simp
  ultimately obtain r where "t_find (chr CHR '':'') (int n) X = Inr r" "r = - 1 \<or> int (n + length (host @ [chr CHR ''/''])) \<le> r"
    using find_beyond assms(3) by blast
  then show ?thesis using assms(4) by (auto simp: parsePort_def)
qed


text \<open>What the text of a URI in encoded form is made of.\<close>

definition uri_ok :: "uri \<Rightarrow> bool" where
  "uri_ok u \<longleftrightarrow> u_scheme u \<noteq> [] \<and> chr CHR '':'' \<notin> set (u_scheme u) \<and> chr CHR ''/'' \<notin> set (u_scheme u)
     \<and> chr CHR ''@'' \<notin> set (u_user u) \<and> chr CHR ''/'' \<notin> set (u_user u)
     \<and> u_host u \<noteq> [] \<and> chr CHR '':'' \<notin> set (u_host u) \<and> chr CHR ''/'' \<notin> set (u_host u) \<and> chr CHR ''@'' \<notin> set (u_host u)
     \<and> (\<exists>p. u_path u = chr CHR ''/'' # p) \<and> chr CHR ''?'' \<notin> set (u_path u) \<and> chr CHR ''#'' \<notin> set (u_path u)
     \<and> chr CHR ''#'' \<notin> set (u_query u) \<and> chr CHR ''?'' \<notin> set (u_fragment u) \<and> u_query_map u = [] \<and> unat (u_port u) < 2 ^ 31"

definition user_part :: "uri \<Rightarrow> bytes" where
  "user_part u = (if u_user u \<noteq> [] then u_user u @ [chr CHR ''@''] else [])"

definition port_part :: "uri \<Rightarrow> bytes" where
  "port_part u = (if 0 < u_port u then chr CHR '':'' # port_text (u_port u) else [])"

definition query_part :: "uri \<Rightarrow> bytes" where
  "query_part u = (if u_query u \<noteq> [] then chr CHR ''?'' # u_query u else [])"

definition frag_part :: "uri \<Rightarrow> bytes" where
  "frag_part u = (if u_fragment u \<noteq> [] then chr CHR ''#'' # u_fragment u else [])"

text \<open>What is parsed: before a fragment the query is also part of the path, and the fragment also of the query.\<close>

definition parsed_parts :: "uri \<Rightarrow> uri" where
  "parsed_parts u = (if u_query u \<noteq> [] \<and> u_fragment u \<noteq> []
     then u\<lparr>u_path := u_path u @ query_part u, u_query := u_query u @ frag_part u\<rparr> else u)"

lemma generated:
  assumes "uri_ok u"
  shows "u_str (generateString u) = u_scheme u @ chr CHR '':'' # chr CHR ''/'' # chr CHR ''/'' # user_part u @ u_host u
    @ port_part u @ u_path u @ query_part u @ frag_part u"
proof -
  have "u_path u \<noteq> []" "u_scheme u \<noteq> []" "u_host u \<noteq> []" using assms by (auto simp: uri_ok_def)
  moreover have "lit ''//'' = [chr CHR ''/'', chr CHR ''/'']" by (simp add: lit_def chr_def)
  ultimately show ?thesis by (simp add: generateString_def user_part_def port_part_def query_part_def frag_part_def lit1)
qed

lemma port_text_facts:
  assumes "unat p < 2 ^ 31"
  shows "port_text p \<noteq> []" "t_Int (port_text p) = Inr p" "chr CHR ''/'' \<notin> set (port_text p)" "chr CHR ''@'' \<notin> set (port_text p)"
proof -
  have s: "\<not> p <s 0" using assms by (simp add: nonneg_i32)
  have "Val_int32 p 10 = Inr (hexdigits 10 (unat p))" using Val_int32_digits [of 10 p] s by simp
  moreover have "Val_uint32 p 10 = Val_int32 p 10" using s by (simp add: Val_uint32_def Val_int32_def)
  ultimately have t: "port_text p = hexdigits 10 (unat p)" "Val_int32 p 10 = Inr (port_text p)" by (simp_all add: port_text_def)
  show "port_text p \<noteq> []" using t(1) hexdigits_ne by simp
  show "t_Int (port_text p) = Inr p" using Int_Val_roundtrip_aux [OF _ _ t(2)] by (simp add: t_Int_def)
  have "length HEX = 16" by (simp add: HEX_bytes)
  then have "(\<lambda>i. HEX ! i) ` {..<16} \<subseteq> set HEX" by auto
  then have "set (port_text p) \<subseteq> set HEX" using hexdigits_chars [of 10 "unat p"] unfolding t(1) by (auto dest: subsetD)
  then show "chr CHR ''/'' \<notin> set (port_text p)" "chr CHR ''@'' \<notin> set (port_text p)" by (auto simp: HEX_bytes chr_def)
qed


lemma parseScheme_ok:
  assumes "X = sc @ chr CHR '':'' # chr CHR ''/'' # R" "sc \<noteq> []" "chr CHR '':'' \<notin> set sc" "chr CHR ''/'' \<notin> set sc"
  shows "parseScheme X 0 u = Inr (int (length sc + 1), u\<lparr>u_scheme := sc\<rparr>)"
proof -
  have "t_find (chr CHR '':'') 0 X = Inr (int (length sc))" using find_at [of 0 X sc] assms(1,3) by simp
  moreover have "chr CHR ''/'' \<notin> set (sc @ [chr CHR '':''])" using assms(4) by (simp add: chr_def)
  then have "t_find (chr CHR ''/'') 0 X = Inr (int (length sc + 1))"
    using find_at [of 0 X "sc @ [chr CHR '':'']" "chr CHR ''/''" R] assms(1) by simp
  ultimately show ?thesis using assms(1,2) by (simp add: parseScheme_def t_left_def)
qed

lemma parseAuthority_ok:
  assumes ok: "uri_ok u" and len: "length X < 2 ^ 31"
    and X: "X = u_scheme u @ chr CHR '':'' # chr CHR ''/'' # chr CHR ''/'' # user_part u @ u_host u @ port_part u @ u_path u @ rest"
    and v: "u_user v = []" "u_port v = 0"
  defines "e \<equiv> length (u_scheme u) + 3 + length (user_part u) + length (u_host u) + length (port_part u)"
  shows "parseAuthority X (int (length (u_scheme u) + 1)) True v
    = Inr (int e, v\<lparr>u_user := u_user u, u_port := u_port u, u_host := u_host u\<rparr>) \<and> drop e X = u_path u @ rest"
proof -
  let ?sc = "u_scheme u" and ?ss = "[chr CHR ''/'', chr CHR ''/'']"
  define k n m where "k = length ?sc + 1" and "n = k + 2" and "m = n + length (user_part u)"
  note kn = k_def n_def m_def
  obtain p where path: "u_path u = chr CHR ''/'' # p" using ok by (auto simp: uri_ok_def)
  have host: "u_host u \<noteq> []" "chr CHR '':'' \<notin> set (u_host u)" "chr CHR ''/'' \<notin> set (u_host u)" "chr CHR ''@'' \<notin> set (u_host u)"
    using ok by (auto simp: uri_ok_def)
  have port: "unat (u_port u) < 2 ^ 31" using ok by (simp add: uri_ok_def)
  have noat: "chr CHR ''@'' \<notin> set (u_user u)" "chr CHR ''/'' \<notin> set (u_user u)" using ok by (auto simp: uri_ok_def)
  have dk: "drop k X = ?ss @ user_part u @ u_host u @ port_part u @ u_path u @ rest" unfolding X k_def by simp
  have dn: "drop n X = user_part u @ u_host u @ port_part u @ u_path u @ rest" using drop_more [OF dk] by (simp add: n_def)
  have dm: "drop m X = u_host u @ port_part u @ u_path u @ rest" using drop_more [OF dn] by (simp add: m_def)
  have em: "e = m + length (u_host u) + length (port_part u)" by (simp add: e_def kn)
  have de: "drop e X = u_path u @ rest" using drop_more [of m X "u_host u @ port_part u"] dm em by (simp add: add.assoc)
  have slash: "t_find_str (lit ''//'') 0 X = Inr (int k)"
  proof -
    have ss: "lit ''//'' = ?ss" by (simp add: lit_def chr_def)
    have "hd ?ss \<notin> set (?sc @ [chr CHR '':''])" using ok by (auto simp: uri_ok_def chr_def)
    then have "index_of ?ss X = Some k"
      using index_of_skip [of ?ss "?sc @ [chr CHR '':'']" "?ss @ user_part u @ u_host u @ port_part u @ u_path u @ rest"]
        index_of_here [of ?ss "user_part u @ u_host u @ port_part u @ u_path u @ rest"] by (simp add: X k_def)
    then show ?thesis by (simp add: t_find_str_def ss)
  qed
  have epos: "t_find (chr CHR ''/'') (int n) X = Inr (int e)"
  proof -
    have "chr CHR ''/'' \<notin> set (user_part u @ u_host u @ port_part u)"
      using noat host port_text_facts [OF port] by (auto simp: user_part_def port_part_def) (auto simp: chr_def)
    then show ?thesis using find_at [of n X "user_part u @ u_host u @ port_part u" "chr CHR ''/''" "p @ rest"] dn path em
      by (simp add: m_def add.assoc)
  qed
  have xl: "e < length X" using arg_cong [OF de, of length] path by (cases "e < length X") auto
  have user: "parseUser X (int k) (int n) (int e) True v = Inr (int m, v\<lparr>u_user := u_user u\<rparr>)"
  proof (cases "u_user u = []")
    case True
    have "chr CHR ''@'' \<notin> set (?ss @ user_part u @ u_host u @ port_part u)"
      using host port_text_facts [OF port] True by (auto simp: user_part_def port_part_def) (auto simp: chr_def)
    moreover have "drop k X = (?ss @ user_part u @ u_host u @ port_part u) @ u_path u @ rest" using dk by simp
    moreover have "e = k + length (?ss @ user_part u @ u_host u @ port_part u)" by (simp add: em kn)
    moreover have "k \<le> length X" using xl by (simp add: em kn)
    ultimately have "parseUser X (int k) (int n) (int e) True v = Inr (int n, v)" by (intro parseUser_none)
    then show ?thesis using True v(1) by (simp add: m_def user_part_def)
  next
    case False
    have "parseUser X (int k) (int n) (int e) True v = Inr (int (n + length (u_user u) + 1), v\<lparr>u_user := u_user u\<rparr>)"
      by (rule parseUser_some [of n X "u_user u" "u_host u @ port_part u @ u_path u @ rest" k ?ss])
        (use dn dk noat False len em in \<open>auto simp: user_part_def n_def m_def chr_def\<close>)
    then show ?thesis using False by (simp add: m_def user_part_def)
  qed
  have prt: "parsePort X (int m) (int e) (v\<lparr>u_user := u_user u\<rparr>)
    = Inr (int (m + length (u_host u)), v\<lparr>u_user := u_user u, u_port := u_port u\<rparr>)"
  proof (cases "0 < u_port u")
    case True
    then have pp: "port_part u = chr CHR '':'' # port_text (u_port u)" by (simp add: port_part_def)
    show ?thesis
      using parsePort_some [of m X "u_host u" "port_text (u_port u)" "u_path u @ rest" "u_port u" e "v\<lparr>u_user := u_user u\<rparr>"]
        dm pp host port_text_facts [OF port] len em by simp
  next
    case False
    then have pp: "port_part u = []" "u_port u = 0" by (simp_all add: port_part_def word_gt_0)
    show ?thesis
      using parsePort_none [of m X "u_host u" "p @ rest" e "v\<lparr>u_user := u_user u\<rparr>"] dm pp host path em xl v(2) by simp
  qed
  have "t_mid (int m) (int (length (u_host u))) X = Inr (u_host u)" by (rule mid_at [OF dm host(1) len]) simp
  moreover have "int k + 2 = int n" by (simp add: n_def)
  moreover have "m + length (u_host u) < length X" using xl em by simp
  ultimately show ?thesis
    unfolding parseAuthority_def k_def [symmetric] using slash epos user prt de by (simp add: Let_def part_def)
qed

lemma parsePath_ok:
  assumes ok: "uri_ok u" and len: "length X < 2 ^ 31" and X: "drop n X = u_path u @ query_part u @ frag_part u"
    and v: "u_query v = []" "u_fragment v = []"
  shows "\<exists>pos. parsePath X (int n) True v = Inr (pos, v\<lparr>u_path := u_path (parsed_parts u), u_query := u_query (parsed_parts u),
    u_fragment := u_fragment u\<rparr>)"
proof -
  let ?m = "u_path u @ query_part u"
  have path: "u_path u \<noteq> []" "chr CHR ''?'' \<notin> set (u_path u)" "chr CHR ''#'' \<notin> set ?m"
    using ok by (auto simp: uri_ok_def query_part_def) (auto simp: chr_def)
  have pos: "0 < int n + int (length (u_path u))" using path(1) by (cases "u_path u") auto
  have noq: "chr CHR ''?'' \<notin> set (frag_part u)" using ok by (simp add: uri_ok_def frag_part_def) (simp add: chr_def)
  have nl: "n < length X" using arg_cong [OF X, of length] path(1) by (cases "n < length X") auto
  have lx: "length X = n + length (?m @ frag_part u)" using arg_cong [OF X, of length] nl by simp
  have Xm: "drop n X = ?m @ frag_part u" using X by simp
  have mm: "t_mid (int n) (int (length ?m)) X = Inr ?m" by (rule mid_at [OF Xm _ len]) (use path(1) in simp_all)
  have mp: "t_mid (int n) (int (length (u_path u))) X = Inr (u_path u)" by (rule mid_at [OF X path(1) len]) simp
  have frag: "t_find (chr CHR ''#'') (int n) X = Inr (if u_fragment u = [] then - 1 else int (n + length ?m))"
  proof (cases "u_fragment u = []")
    case True
    then show ?thesis using nl Xm path(3) by (simp add: frag_part_def)
  next
    case False
    then have "drop n X = ?m @ chr CHR ''#'' # u_fragment u" using Xm by (simp add: frag_part_def)
    from find_at [OF this path(3)] False show ?thesis by simp
  qed
  have mf: "t_mid (int (n + length ?m) + 1) (int (length (u_fragment u))) X = Inr (u_fragment u)" if "u_fragment u \<noteq> []"
  proof -
    have "drop (n + length ?m + 1) X = u_fragment u @ []"
      using drop_more [of n X "?m @ [chr CHR ''#'']" "u_fragment u"] Xm that by (simp add: frag_part_def)
    from mid_at [OF this that len] show ?thesis by (simp add: add.commute)
  qed
  show ?thesis
  proof (cases "u_query u = []")
    case True
    then have q: "query_part u = []" "parsed_parts u = u" by (simp_all add: query_part_def parsed_parts_def)
    then have "t_find (chr CHR ''?'') (int n) X = Inr (- 1)" using nl Xm path(2) noq by simp
    then show ?thesis using frag mp mf lx True v path(1) pos q
      by (cases "u_fragment u = []") (auto simp: parsePath_def part_def frag_part_def Let_def)
  next
    case False
    then have q: "query_part u = chr CHR ''?'' # u_query u" by (simp add: query_part_def)
    have f: "t_find (chr CHR ''?'') (int n) X = Inr (int (n + length (u_path u)))" using find_at [of n X "u_path u"] X q path(2) by simp
    have "drop (n + length (u_path u) + 1) X = (u_query u @ frag_part u) @ []"
      using drop_more [of n X "u_path u @ [chr CHR ''?'']" "u_query u @ frag_part u"] X q by simp
    from mid_at [OF this _ len] False
    have mq: "t_mid (int (n + length (u_path u)) + 1) (int (length (u_query u @ frag_part u))) X = Inr (u_query u @ frag_part u)"
      by (simp add: add.commute)
    show ?thesis
    proof (cases "u_fragment u = []")
      case True
      then show ?thesis using f frag mp mq lx q by (simp add: parsePath_def parseQuery_def part_def Let_def frag_part_def parsed_parts_def v)
    next
      case fne: False
      then have "parsePath X (int n) True v = Inr (int (length X), v\<lparr>u_query := u_query u @ frag_part u, u_path := ?m, u_fragment := u_fragment u\<rparr>)"
        using f frag mm mf mq lx q False by (simp add: parsePath_def parseQuery_def part_def Let_def frag_part_def)
      moreover have "parsed_parts u = u\<lparr>u_path := ?m, u_query := u_query u @ frag_part u\<rparr>" using False fne by (simp add: parsed_parts_def)
      ultimately show ?thesis by simp
    qed
  qed
qed

lemma uri_reparse:
  assumes ok: "uri_ok u" and len: "length (u_str (generateString u)) < 2 ^ 31"
  shows "uri_set (u_str (generateString u)) True v = Inr (generateString (parsed_parts u))"
proof -
  define X where "X = u_str (generateString u)"
  have X: "X = u_scheme u @ chr CHR '':'' # chr CHR ''/'' # chr CHR ''/'' # user_part u @ u_host u @ port_part u @ u_path u
      @ query_part u @ frag_part u"
    unfolding X_def by (rule generated [OF ok])
  define w where "w = v\<lparr>u_query_map := [], u_str := [], u_scheme := [], u_user := [], u_host := [],
       u_path := [], u_query := [], u_fragment := [], u_port := 0\<rparr>"
  define e where "e = length (u_scheme u) + 3 + length (user_part u) + length (u_host u) + length (port_part u)"
  have s: "parseScheme X 0 w = Inr (int (length (u_scheme u) + 1), w\<lparr>u_scheme := u_scheme u\<rparr>)"
    using ok by (intro parseScheme_ok [OF X]) (auto simp: uri_ok_def)
  have l: "length X < 2 ^ 31" using len by (simp add: X_def)
  define w1 where "w1 = w\<lparr>u_scheme := u_scheme u, u_user := u_user u, u_port := u_port u, u_host := u_host u\<rparr>"
  have a: "parseAuthority X (int (length (u_scheme u) + 1)) True (w\<lparr>u_scheme := u_scheme u\<rparr>) = Inr (int e, w1)"
    "drop e X = u_path u @ query_part u @ frag_part u"
    using parseAuthority_ok [OF ok l X, of "w\<lparr>u_scheme := u_scheme u\<rparr>"] by (simp_all add: e_def w_def w1_def)
  have q0: "u_query w1 = []" "u_fragment w1 = []" by (simp_all add: w1_def w_def)
  obtain pos where p: "parsePath X (int e) True w1
      = Inr (pos, w1\<lparr>u_path := u_path (parsed_parts u), u_query := u_query (parsed_parts u), u_fragment := u_fragment u\<rparr>)"
    using parsePath_ok [OF ok l a(2) q0] by auto
  have "u_query_map u = []" using ok by (simp add: uri_ok_def)
  then have "generateString (w1\<lparr>u_path := u_path (parsed_parts u), u_query := u_query (parsed_parts u), u_fragment := u_fragment u\<rparr>)
      = generateString (parsed_parts u)"
    by (simp add: generateString_def w1_def w_def parsed_parts_def)
  then show ?thesis unfolding uri_set_def X_def [symmetric] w_def [symmetric] Let_def using s a(1) p by simp
qed


section \<open>The query map and the query text\<close>

definition kv_plain :: "bytes \<times> bytes \<Rightarrow> bool" where
  "kv_plain kv \<longleftrightarrow> fst kv \<noteq> [] \<and> snd kv \<noteq> [] \<and> chr CHR ''='' \<notin> set (fst kv) \<and> chr CHR ''&'' \<notin> set (fst kv)
     \<and> chr CHR ''&'' \<notin> set (snd kv)"

fun joined :: "(bytes \<times> bytes) list \<Rightarrow> bytes" where
  "joined [] = []"
| "joined ((k, v) # m) = k @ chr CHR ''='' # v @ (if m = [] then [] else chr CHR ''&'' # joined m)"

lemma entry_plain: "chr CHR ''&'' \<notin> set v \<Longrightarrow> entry_text k v = Inr (k @ chr CHR ''='' # v)"
  by (simp add: entry_text_def t_count_def lit1 filter_empty_conv)

lemma query_text_joined: "\<forall>kv \<in> set m. chr CHR ''&'' \<notin> set (snd kv) \<Longrightarrow> query_text m = Inr (joined m)"
  by (induction m rule: joined.induct) (auto simp: entry_plain lit1)

lemma count_joined: "\<forall>kv \<in> set m. kv_plain kv \<Longrightarrow> m \<noteq> [] \<Longrightarrow> t_count (chr CHR ''&'') (joined m) = length m - 1"
proof (induction m rule: joined.induct)
  case (2 k v m)
  have c: "t_count (chr CHR ''&'') (xs @ ys) = t_count (chr CHR ''&'') xs + t_count (chr CHR ''&'') ys" for xs ys
    by (simp add: t_count_def)
  have z: "t_count (chr CHR ''&'') k = 0" "t_count (chr CHR ''&'') v = 0"
    using 2(2) by (auto simp: kv_plain_def t_count_def filter_empty_conv)
  have "chr CHR ''='' \<noteq> chr CHR ''&''" by (simp add: chr_def)
  then show ?case using 2 c z by (cases "m = []") (simp_all add: t_count_def)
qed simp

lemma map_append_new: "kv_find hash_bytes k m = None \<Longrightarrow> map_append k v m = m @ [(k, v)]"
  by (simp add: map_append_def kv_set_def)

lemma kv_find_absent: "hash_bytes k \<notin> (hash_bytes \<circ> fst) ` set m \<Longrightarrow> kv_find hash_bytes k m = None"
  by (force simp: kv_find_def find_None_iff)

lemma query_fields_joined:
  assumes "length X < 2 ^ 31"
  shows "\<forall>kv \<in> set kvs. kv_plain kv \<Longrightarrow> drop n X = joined kvs \<Longrightarrow> distinct (map (hash_bytes \<circ> fst) (m @ kvs)) \<Longrightarrow>
    query_fields (length kvs) (int n) X m = Inr (m @ kvs)"
proof (induction kvs arbitrary: n m)
  case (Cons kv kvs)
  obtain k v where kv: "kv = (k, v)" by (cases kv)
  let ?rest = "if kvs = [] then [] else chr CHR ''&'' # joined kvs"
  have pl: "k \<noteq> []" "v \<noteq> []" "chr CHR ''='' \<notin> set k" "chr CHR ''&'' \<notin> set v" using Cons.prems(1) kv by (auto simp: kv_plain_def)
  have d: "drop n X = k @ chr CHR ''='' # v @ ?rest" using Cons.prems(2) kv by simp
  define a where "a = n + length k + 1"
  have da: "drop a X = v @ ?rest" using drop_more [of n X "k @ [chr CHR ''='']" "v @ ?rest"] d by (simp add: a_def)
  have al: "length X = a + length (v @ ?rest)" using arg_cong [OF da, of length] pl(2) by (cases "a < length X") auto
  have f1: "t_find (chr CHR ''='') (int n) X = Inr (int (n + length k))" by (rule find_at [OF d pl(3)])
  have m1: "t_mid (int n) (int (n + length k) - int n) X = Inr k" using mid_at [OF d pl(1) assms] by simp
  have f2: "(if kvs = [] then t_find (chr CHR ''&'') (int a) X = Inr (- 1) else t_find (chr CHR ''&'') (int a) X = Inr (int (a + length v)))"
    using find_at [of a X v "chr CHR ''&''" "joined kvs"] da pl(4) al by auto
  have m2: "t_mid (int a) (int (a + length v) - int a) X = Inr v" by (rule mid_at [OF da pl(2) assms]) simp
  have "hash_bytes k \<notin> (hash_bytes \<circ> fst) ` set m" using Cons.prems(3) kv by auto
  then have ma: "map_append k v m = m @ [(k, v)]" using map_append_new kv_find_absent by blast
  have next_pos: "int (n + length k) + 1 = int a" by (simp add: a_def)
  show ?case
  proof (cases "kvs = []")
    case True
    then show ?thesis using f1 m1 f2 m2 ma kv al by (simp add: Let_def next_pos del: of_nat_add)
  next
    case False
    have "drop (a + length v + 1) X = joined kvs"
      using drop_more [of a X "v @ [chr CHR ''&'']" "joined kvs"] da False by simp
    then have "query_fields (length kvs) (int (a + length v + 1)) X (m @ [(k, v)]) = Inr ((m @ [(k, v)]) @ kvs)"
      using Cons.prems(1,3) kv by (intro Cons.IH) auto
    moreover have e: "int (a + length v + 1) = int (a + length v) + 1" by simp
    ultimately have "query_fields (length kvs) (int (a + length v) + 1) X (m @ [(k, v)]) = Inr ((m @ [(k, v)]) @ kvs)"
      unfolding e by blast
    then show ?thesis using f1 m1 f2 m2 ma kv False by (simp add: Let_def next_pos del: of_nat_add)
  qed
qed simp

lemma no_amp: "chr CHR ''&'' \<notin> set (t_replace (chr CHR '' '') (chr CHR ''+'') (uri_Encode v [] (lit '' .~_-'')))"
proof -
  have "chr CHR ''&'' \<notin> set (enc1 (lit '' .~_-'') c)" for c
  proof (cases "ShouldEncode c (lit '' .~_-'')")
    case True
    have "chr CHR ''&'' \<notin> set HEX" "chr CHR ''%'' \<noteq> chr CHR ''&''" by (simp_all add: HEX_bytes chr_def)
    then show ?thesis using hex_digit [of c] True by (auto simp: enc1_def)
  next
    case False
    have "ShouldEncode (chr CHR ''&'') (lit '' .~_-'')" by (simp add: ShouldEncode_def lit_def chr_def)
    then have "c \<noteq> chr CHR ''&''" using False by auto
    then show ?thesis using False by (simp add: enc1_def)
  qed
  moreover have "chr CHR ''+'' \<noteq> chr CHR ''&''" by (simp add: chr_def)
  ultimately show ?thesis by (auto simp: uri_Encode_concat t_replace_def)
qed

lemma query_map_ok:
  assumes "kvs \<noteq> []" "\<forall>kv \<in> set kvs. kv_plain kv" "distinct (map (hash_bytes \<circ> fst) kvs)" "length (joined kvs) < 2 ^ 31"
    "u_query u = joined kvs" "u_query_map u = []"
  shows "getQueryMap u = Inr (u\<lparr>u_query_map := kvs\<rparr>)"
proof -
  have "joined kvs \<noteq> []" using assms(1) by (cases kvs rule: joined.cases) auto
  moreover have "query_fields (length kvs) 0 (joined kvs) [] = Inr kvs"
    using query_fields_joined [OF assms(4,2), of 0 "[]"] assms(3) by simp
  moreover have "Suc (t_count (chr CHR ''&'') (joined kvs)) = length kvs"
    using count_joined [OF assms(2,1)] assms(1) by simp
  ultimately show ?thesis using assms(5,6) by (simp add: getQueryMap_def)
qed


section \<open>Properties\<close>

text \<open>
  C18. Decoding inverts percent encoding on every text, unless the caller excludes the plus or the
  percent sign from encoding; the encoded text contains only characters that need no encoding.
\<close>

theorem uri_decode_encode:
  assumes "0 \<notin> set xs" "chr CHR ''+'' \<notin> set exclude" "chr CHR ''%'' \<notin> set exclude"
  shows "uri_Decode (uri_Encode xs [] exclude) [] = xs
    \<and> (\<forall>c \<in> set (uri_Encode xs [] exclude). c = chr CHR ''%'' \<or> \<not> ShouldEncode c exclude)"
proof
  show "uri_Decode (uri_Encode xs [] exclude) [] = xs" using percent.dec_enc [of xs exclude] assms by simp
  have "\<forall>h \<in> set HEX. \<not> ShouldEncode h exclude" by (simp add: HEX_bytes ShouldEncode_def chr_def)
  then have "\<forall>c \<in> set (enc1 exclude x). c = chr CHR ''%'' \<or> \<not> ShouldEncode c exclude" for x
    using hex_digit [of x] by (auto simp: enc1_def)
  then show "\<forall>c \<in> set (uri_Encode xs [] exclude). c = chr CHR ''%'' \<or> \<not> ShouldEncode c exclude"
    by (auto simp: uri_Encode_concat)
qed

theorem uri_decode_encode_witness:
  "uri_Decode (uri_Encode [37, 43, 200] [] [32]) [] = [37, 43, 200]"
  using uri_decode_encode [of "[37, 43, 200]" "[32]"] by (simp add: chr_def)


definition uri_a :: uri where
  "uri_a = uri_empty\<lparr>u_scheme := [104], u_user := [117], u_host := [97], u_port := 0, u_path := [47], u_query := [113, 61, 49]\<rparr>"


text \<open>
  A query of fields with non-empty names and values is read into the map of its fields, in order;
  a field added under a new name is appended, encoded, to the rebuilt query text.
\<close>

theorem uri_query_map:
  assumes "kvs \<noteq> []" "\<forall>kv \<in> set kvs. kv_plain kv" "distinct (map (hash_bytes \<circ> fst) kvs)" "length (joined kvs) < 2 ^ 31"
    "u_query u = joined kvs" "u_query_map u = []" "hash_bytes key \<notin> (hash_bytes \<circ> fst) ` set kvs"
  shows "getQueryMap u = Inr (u\<lparr>u_query_map := kvs\<rparr>)
    \<and> (\<exists>u'. bindR (addQueryField key v u) uri_asString = Inr (u_str u', u') \<and> u_query u'
      = joined kvs @ chr CHR ''&'' # key @ chr CHR ''='' # t_replace (chr CHR '' '') (chr CHR ''+'') (uri_Encode v [] (lit '' .~_-'')))"
proof -
  define enc where "enc = t_replace (chr CHR '' '') (chr CHR ''+'') (uri_Encode v [] (lit '' .~_-''))"
  define u1 where "u1 = u\<lparr>u_query_map := kvs @ [(key, enc)]\<rparr>"
  have g: "getQueryMap u = Inr (u\<lparr>u_query_map := kvs\<rparr>)" by (rule query_map_ok [OF assms(1-6)])
  then have a: "addQueryField key v u = Inr u1"
    using map_append_new [OF kv_find_absent [OF assms(7)]] by (simp add: addQueryField_def u1_def enc_def Let_def)
  have j: "joined (m @ [(key, enc)]) = joined m @ chr CHR ''&'' # key @ chr CHR ''='' # enc" if "m \<noteq> []" for m
    using that by (induction m rule: joined.induct) auto
  have "query_text (kvs @ [(key, enc)]) = Inr (joined (kvs @ [(key, enc)]))"
    using assms(2) no_amp [of v] by (intro query_text_joined) (auto simp: kv_plain_def enc_def)
  moreover have "t_count (chr CHR ''&'') (u_query u1) + 1 \<noteq> length (u_query_map u1)"
    using count_joined [OF assms(2,1)] assms(1,5) by (cases kvs) (simp_all add: u1_def)
  ultimately have "uri_asString u1 = Inr (u_str (generateString (u1\<lparr>u_query := joined (kvs @ [(key, enc)])\<rparr>)),
      generateString (u1\<lparr>u_query := joined (kvs @ [(key, enc)])\<rparr>))"
    by (simp add: uri_asString_def u1_def Let_def)
  then show ?thesis using g a j [OF assms(1)] by (simp add: generateString_def enc_def)
qed

theorem uri_query_map_witness:
  "\<exists>u. u_query u = joined [([97], [98])] \<and> getQueryMap u = Inr (u\<lparr>u_query_map := [([97], [98])]\<rparr>)"
proof -
  let ?u = "uri_empty\<lparr>u_query := joined [([97], [98])]\<rparr>"
  have "getQueryMap ?u = Inr (?u\<lparr>u_query_map := [([97], [98])]\<rparr>)"
    using uri_query_map [of "[([97], [98])]" ?u "[99]"]
    by (simp add: kv_plain_def chr_def uri_empty_def hash_bytes_def hash_step_def)
  then show ?thesis by (intro exI [of _ ?u]) simp
qed

text \<open>
  What goes wrong: a fragment after a query stays in the query, and the query in the path, so the
  generated text repeats both; a field added to a query with a repeated name is not printed; and a
  query field without an equals sign makes the parser read behind the end of the text.
\<close>

theorem uri_defects:
  "(\<exists>u. uri_new (lit ''h://a/p?q#f'') True = Inr u \<and> u_path u = lit ''/p?q'' \<and> u_query u = lit ''q#f''
      \<and> u_str u = lit ''h://a/p?q?q#f#f'')
    \<and> (\<exists>u1 u2. uri_new (lit ''/?x=1&x=2'') True = Inr u1 \<and> addQueryField (lit ''y'') (lit ''3'') u1 = Inr u2
      \<and> u_query_map u2 = [(lit ''x'', lit ''1&2''), (lit ''y'', lit ''3'')] \<and> uri_asString u2 = Inr (lit ''/?x=1&x=2'', u2))
    \<and> (\<exists>u. uri_new (lit ''/?a&b=1'') True = Inr u \<and> getQueryMap u = Inl Mem_Fault)"
proof (intro conjI)
  note parsers = uri_new_def uri_set_def uri_empty_def lit_def chr_def parseScheme_def parseAuthority_def parseUser_def
    parsePort_def parsePath_def parseQuery_def part_def generateString_def t_find_def t_find_str_def t_mid_def t_left_def Let_def
  note maps = addQueryField_def getQueryMap_def map_append_def kv_find_def kv_set_def uri_asString_def t_count_def
    hash_bytes_def hash_step_def t_replace_def uri_Encode_concat enc1_def ShouldEncode_def
  show "\<exists>u. uri_new (lit ''h://a/p?q#f'') True = Inr u \<and> u_path u = lit ''/p?q'' \<and> u_query u = lit ''q#f''
      \<and> u_str u = lit ''h://a/p?q?q#f#f''"
    by (simp add: parsers)
  show "\<exists>u1 u2. uri_new (lit ''/?x=1&x=2'') True = Inr u1 \<and> addQueryField (lit ''y'') (lit ''3'') u1 = Inr u2
      \<and> u_query_map u2 = [(lit ''x'', lit ''1&2''), (lit ''y'', lit ''3'')] \<and> uri_asString u2 = Inr (lit ''/?x=1&x=2'', u2)"
    by (simp add: parsers maps)
  show "\<exists>u. uri_new (lit ''/?a&b=1'') True = Inr u \<and> getQueryMap u = Inl Mem_Fault"
    by (simp add: parsers maps)
qed

end
