(* ===== verification/Xml.thy ===== *)
theory Xml
  imports Text_Ops
begin

text \<open>
  \<open>SRL::XML\<close> (src/xml/XML.cpp): the entity codec, the tag helpers and the pull parser. A parser
  holds the text read so far and the position in it; a file source is its text and the read
  position, read in blocks of 1024 bytes as \<open>_getXML\<close> does. Strings are their texts (\<open>Text_Ops\<close>).
\<close>

section \<open>Entities\<close>

definition AMP :: u8 where
  "AMP = chr CHR ''&''"

definition RAW_ENTITY :: bytes where
  "RAW_ENTITY = lit [CHR ''<'', CHR ''>'', CHR ''&'', CHR 0x27, CHR 0x22]"

definition XML_ENTITY :: "bytes list" where
  "XML_ENTITY = [lit ''lt;'', lit ''gt;'', lit ''amp;'', lit ''apos;'', lit ''quot;'']"

definition XML_ENTITY_LEN :: "nat list" where
  "XML_ENTITY_LEN = [3, 3, 4, 5, 5]"

text \<open>The entity whose name stands at the start of a text, with its length.\<close>

definition entity_at :: "bytes \<Rightarrow> (u8 \<times> nat) option" where
  "entity_at t = map_option (\<lambda>(raw, name, n). (raw, n))
     (List.find (\<lambda>(raw, name, n). take n t = name) (zip RAW_ENTITY (zip XML_ENTITY XML_ENTITY_LEN)))"

function xml_decode_loop :: "bytes \<Rightarrow> bytes \<Rightarrow> bytes" where
  "xml_decode_loop [] out = out"
| "xml_decode_loop (c # t) out = (if c = AMP \<and> t \<noteq> [] then
     (case entity_at t of Some (raw, n) \<Rightarrow> xml_decode_loop (drop n t) (push_byte out raw)
      | None \<Rightarrow> xml_decode_loop t (push_byte out c))
     else xml_decode_loop t (push_byte out c))"
  by pat_completeness auto
termination by (relation "measure (\<lambda>(t, out). length t)") auto

text \<open>
  The part before the first ampersand is copied with a constructor that takes the length zero to
  mean the whole text.
\<close>

definition xml_decode :: "bytes \<Rightarrow> bytes" where
  "xml_decode encoded = (if AMP \<notin> set encoded then encoded else
     (let i = length (takeWhile (\<lambda>c. c \<noteq> AMP) encoded) in
      xml_decode_loop (drop i encoded) (if i = 0 then encoded else take i encoded)))"

fun xml_encode_loop :: "bytes \<Rightarrow> bytes \<Rightarrow> bytes" where
  "xml_encode_loop [] out = out"
| "xml_encode_loop (c # t) out = xml_encode_loop t
     (case map_of (zip RAW_ENTITY XML_ENTITY) c of Some name \<Rightarrow> push_byte out AMP @ name
      | None \<Rightarrow> if c <s 9 \<or> c <s 32 \<and> 13 <s c then out else push_byte out c)"

definition xml_encode :: "bytes \<Rightarrow> bytes" where
  "xml_encode raw = xml_encode_loop raw []"

section \<open>Tag helpers\<close>

text \<open>\<open>XML::parseTag\<close> and its siblings take the offset by reference and return it with the result.\<close>

definition parseTag :: "bytes \<Rightarrow> bytes \<Rightarrow> int \<Rightarrow> (bytes \<times> int) res" where
  "parseTag tag xml offset = (if int (length xml) \<le> offset then Inr ([], offset) else
     bindR (t_find_str tag offset xml) (\<lambda>istart.
     if istart < 0 then Inr ([], offset) else
     let istart = istart + int (length tag); etag = lit ''</'' @ drop 1 tag in
     bindR (t_find_str etag istart xml) (\<lambda>iend.
     if iend < 0 then Inr ([], offset) else
     bindR (t_mid istart (iend - istart) xml) (\<lambda>t.
     Inr (map c_tolower t, iend + int (length etag))))))"

definition findTag :: "bytes \<Rightarrow> bytes \<Rightarrow> int \<Rightarrow> (bool \<times> int) res" where
  "findTag tag xml offset = (if int (length xml) \<le> offset then Inr (False, offset) else
     bindR (t_find_str tag offset xml) (\<lambda>istart.
     if istart < 0 then Inr (False, offset) else Inr (True, istart + int (length tag))))"

definition nextTagIs :: "bytes \<Rightarrow> bytes \<Rightarrow> int \<Rightarrow> (bool \<times> int) res" where
  "nextTagIs tag xml offset = (if int (length xml) \<le> offset then Inr (False, offset)
     else if offset < 0 then Inl Mem_Fault else
     (let cp = drop (nat offset) xml; nc = length (takeWhile c_isspace cp); cp = drop nc cp in
      if cp \<noteq> [] \<and> take (length tag) cp = tag then Inr (True, offset + int nc + int (length tag)) else Inr (False, offset)))"

text \<open>The loop copies at least one character and stops behind the closing bracket or at the end.\<close>

fun tag_chars :: "bytes \<Rightarrow> bytes" where
  "tag_chars [] = []"
| "tag_chars (c # cp) = c # (if c \<noteq> chr CHR ''>'' then tag_chars cp else [])"

definition getNextTag :: "bytes \<Rightarrow> int \<Rightarrow> (bytes \<times> int) res" where
  "getNextTag xml offset = (if int (length xml) \<le> offset then Inr ([], offset)
     else if offset < 0 then Inl Mem_Fault else
     (let cp = drop (nat offset) xml; pos = offset + int (length (takeWhile c_isspace cp)); cp = dropWhile c_isspace cp in
      case cp of [] \<Rightarrow> Inr ([], offset) | c # _ \<Rightarrow>
        if c \<noteq> chr CHR ''<'' then Inr ([], offset) else Inr (tag_chars cp, pos + int (length (tag_chars cp)))))"

section \<open>The pull parser\<close>

record xelem =
  e_attr_name :: bytes
  e_attr_value :: bytes
  e_name :: bytes
  e_attributes :: bytes
  e_content :: bytes
  e_is_closing :: bool
  e_has_attributes :: bool
  e_is_null :: bool
  e_apos :: nat

record xparser =
  x_element :: xelem
  x_xml_file :: "(bytes \<times> nat) option"
  x_xml :: bytes
  x_pos :: nat

definition Element :: "bool \<Rightarrow> xelem" where
  "Element null_element = \<lparr>e_attr_name = [], e_attr_value = [], e_name = [], e_attributes = [], e_content = [],
     e_is_closing = False, e_has_attributes = False, e_is_null = null_element, e_apos = 0\<rparr>"

definition elem_clear :: "xelem \<Rightarrow> xelem" where
  "elem_clear e = e\<lparr>e_name := [], e_apos := 0, e_attributes := [], e_content := []\<rparr>"

definition Parser_file :: "bytes \<Rightarrow> nat \<Rightarrow> xparser" where
  "Parser_file text at = \<lparr>x_element = Element False, x_xml_file = Some (text, at), x_xml = [], x_pos = 0\<rparr>"

definition Parser :: "bytes \<Rightarrow> xparser" where
  "Parser xml = \<lparr>x_element = Element False, x_xml_file = None, x_xml = xml, x_pos = 0\<rparr>"

text \<open>\<open>TextFile::read(_xml, 1024)\<close>.\<close>

definition file_read :: "bytes \<Rightarrow> nat \<Rightarrow> xparser \<Rightarrow> bool \<times> xparser" where
  "file_read text at p = (let t = take 1024 (drop at text) in
     (t \<noteq> [], p\<lparr>x_xml := t, x_xml_file := Some (text, at + length t)\<rparr>))"

definition getXML :: "bool \<Rightarrow> xparser \<Rightarrow> bool \<times> xparser" where
  "getXML reverse p = (let p = p\<lparr>x_pos := 0, x_xml := []\<rparr> in
     case x_xml_file p of None \<Rightarrow> (False, p)
     | Some (text, at) \<Rightarrow>
         if \<not> reverse then file_read text at p
         else if at = 0 then (False, p)
         else if 2048 \<le> at then file_read text (at - 2048) p
         else if 1024 < at then file_read text 0 p
         else (False, p))"

text \<open>What the file still has to give, ahead of the position and behind it.\<close>

definition unread :: "xparser \<Rightarrow> nat" where
  "unread p = (case x_xml_file p of None \<Rightarrow> 0 | Some (text, at) \<Rightarrow> length text - at)"

definition behind :: "xparser \<Rightarrow> nat" where
  "behind p = (case x_xml_file p of None \<Rightarrow> 0 | Some (text, at) \<Rightarrow> at)"

lemma unread_elem [simp]: "unread (p\<lparr>x_element := e\<rparr>) = unread p" "behind (p\<lparr>x_element := e\<rparr>) = behind p"
  by (simp_all add: unread_def behind_def)

lemma getXML_unread: "getXML False p = (True, p') \<Longrightarrow> unread p' < unread p"
  by (auto simp: getXML_def file_read_def unread_def Let_def split: option.splits)

lemma getXML_behind: "getXML True p = (True, p') \<Longrightarrow> behind p' < behind p"
  by (auto simp: getXML_def file_read_def behind_def Let_def split: option.splits if_splits)

definition add_name :: "bytes \<Rightarrow> xparser \<Rightarrow> xparser" where
  "add_name t p = p\<lparr>x_element := (x_element p)\<lparr>e_name := e_name (x_element p) @ t\<rparr>\<rparr>"

definition add_content :: "bytes \<Rightarrow> xparser \<Rightarrow> xparser" where
  "add_content t p = p\<lparr>x_element := (x_element p)\<lparr>e_content := e_content (x_element p) @ t\<rparr>\<rparr>"

lemma add_name_unread [simp]: "unread (add_name t p) = unread p" "unread (add_content t p) = unread p"
  by (simp_all add: add_name_def add_content_def)

text \<open>The exceptions: their messages are printed with \<open>String::Format\<close>, which fails for a name of more than 130 characters.\<close>

definition invalid_xml :: "string \<Rightarrow> bytes \<Rightarrow> 'a res" where
  "invalid_xml message name = format_error (message @ [CHR 0x27]) name [CHR 0x27] ''InvalidXML''"

lemma invalid_xml_eq: "invalid_xml message name = Inl (if 130 < length name then Mem_Fault else Thrown ''InvalidXML'')"
  by (simp add: invalid_xml_def format_error_eq)

lemma invalid_xml_Inr [simp]: "invalid_xml message name \<noteq> Inr x"
  by (simp add: invalid_xml_eq)

function tag_name :: "xparser \<Rightarrow> xparser res" where
  "tag_name p = bindR (t_find (chr CHR ''>'') (int (x_pos p)) (x_xml p)) (\<lambda>epos.
     if epos = - 1 then bindR (t_from (int (x_pos p)) (x_xml p)) (\<lambda>t.
       if 124 < length (e_name (x_element (add_name t p)))
       then invalid_xml ''tag name exceeds allowed length: '' (e_name (x_element (add_name t p)))
       else if fst (getXML False (add_name t p)) then tag_name (snd (getXML False (add_name t p)))
       else invalid_xml ''can not find end to tag: '' (e_name (x_element (add_name t p))))
     else bindR (t_mid (int (x_pos p)) (epos - int (x_pos p)) (x_xml p)) (\<lambda>t.
       Inr ((add_name t p)\<lparr>x_pos := nat epos + 1\<rparr>)))"
  by pat_completeness auto
termination
proof (relation "measure unread")
  fix p epos t assume "fst (getXML False (add_name t p))"
  then have "getXML False (add_name t p) = (True, snd (getXML False (add_name t p)))" by (metis prod.collapse)
  then show "(snd (getXML False (add_name t p)), p) \<in> measure unread" using getXML_unread by fastforce
qed simp
declare tag_name.simps [simp del]

text \<open>\<open>_attributes.replace("\r\n", ' ')\<close> converts the blank to a string reserved for 32 characters.\<close>

fun remove_crlf :: "bytes \<Rightarrow> bytes" where
  "remove_crlf (c # d # t) = (if c = 13 \<and> d = 10 then remove_crlf t else c # remove_crlf (d # t))"
| "remove_crlf t = t"

definition split_attributes :: "xelem \<Rightarrow> xelem res" where
  "split_attributes e = bindR (t_find (chr CHR ''='') 0 (e_name e)) (\<lambda>eq.
     if 0 < eq then
       bindR (t_find (chr CHR '' '') 0 (e_name e)) (\<lambda>pos.
       if pos = - 1 then invalid_xml ''failed to parse tag attributes: '' (e_name e) else
       bindR (t_from (pos + 1) (e_name e)) (\<lambda>t.
       Inr (e\<lparr>e_has_attributes := True, e_attributes := t_replace 13 32 (t_replace 10 32 (remove_crlf t)),
         e_name := take (nat pos) (e_name e)\<rparr>)))
     else Inr (e\<lparr>e_has_attributes := False\<rparr>))"

text \<open>For the name \<open>?\<close> the truncation to length -1 asks for a buffer of four gigabytes.\<close>

definition strip_markers :: "xelem \<Rightarrow> xelem res" where
  "strip_markers e = (let n = e_name e in
     if hd n = chr CHR ''/'' then Inr (e\<lparr>e_is_closing := True, e_name := tl n\<rparr>)
     else if last n = chr CHR ''/'' then Inr (e\<lparr>e_is_closing := True, e_name := butlast n\<rparr>)
     else if hd n = chr CHR ''?'' then (if length n = 1 then Inl Mem_Fault else Inr (e\<lparr>e_name := butlast (tl n)\<rparr>))
     else Inr (e\<lparr>e_is_closing := False\<rparr>))"

definition parseElement :: "xparser \<Rightarrow> xparser res" where
  "parseElement p = bindR (tag_name p) (\<lambda>p.
     bindR (strip_markers (x_element p)) (\<lambda>e. bindR (split_attributes e) (\<lambda>e. Inr (p\<lparr>x_element := e\<rparr>))))"

text \<open>The search for the next opening bracket; \<open>None\<close> when the source has none left.\<close>

function find_tag :: "xparser \<Rightarrow> (int option \<times> xparser) res" where
  "find_tag p = bindR (t_find (chr CHR ''<'') (int (x_pos p)) (x_xml p)) (\<lambda>pos.
     if pos = - 1 then
       (if fst (getXML False p) then find_tag (snd (getXML False p)) else Inr (None, snd (getXML False p)))
     else Inr (Some pos, p))"
  by pat_completeness auto
termination
proof (relation "measure unread")
  fix p assume "fst (getXML False p)"
  then have "getXML False p = (True, snd (getXML False p))" by (metis prod.collapse)
  then show "(snd (getXML False p), p) \<in> measure unread" using getXML_unread by simp
qed simp
declare find_tag.simps [simp del]

text \<open>The element operations return whether their pointer is not null.\<close>

definition getNextElement :: "xparser \<Rightarrow> (bool \<times> xparser) res" where
  "getNextElement p = (let p = p\<lparr>x_element := elem_clear (x_element p)\<rparr>;
       (more, p) = (if length (x_xml p) \<le> x_pos p then getXML False p else (True, p)) in
     if \<not> more then Inr (False, p) else
     bindR (find_tag p) (\<lambda>(pos, p). case pos of None \<Rightarrow> Inr (False, p) | Some pos \<Rightarrow>
     bindR (parseElement (p\<lparr>x_pos := nat pos + 1\<rparr>)) (\<lambda>p. Inr (True, p))))"

text \<open>\<open>_xml.rfind('<', pos)\<close> with its unsigned position, where zero is the end of the text.\<close>

definition rfind_lt :: "int \<Rightarrow> bytes \<Rightarrow> int" where
  "rfind_lt pos xs = (let p = nat (pos mod 2 ^ 32) in
     if length xs < p then - 1 else
     let p = (if p = 0 then length xs else p); t = take (Suc p) xs in
     if chr CHR ''<'' \<in> set t then int (length t - Suc (length (takeWhile (\<lambda>c. c \<noteq> chr CHR ''<'') (rev t)))) else - 1)"

function back_tag :: "nat \<Rightarrow> int \<Rightarrow> xparser \<Rightarrow> int option \<times> xparser" where
  "back_tag 0 pos p = (Some pos, p)"
| "back_tag (Suc count) pos p = (let pos = rfind_lt (pos - 1) (x_xml p) in
     if pos < 0 then
       (if fst (getXML True p) then back_tag (Suc count) (int (length (x_xml (snd (getXML True p))))) (snd (getXML True p))
        else (None, snd (getXML True p)))
     else back_tag count pos p)"
  by pat_completeness auto
termination
proof (relation "measures [\<lambda>(count, pos, p). behind p, \<lambda>(count, pos, p). count]")
  fix count pos p x assume "fst (getXML True p)"
  then have "getXML True p = (True, snd (getXML True p))" by (metis prod.collapse)
  then show "((Suc count, int (length (x_xml (snd (getXML True p)))), snd (getXML True p)), Suc count, pos, p)
      \<in> measures [\<lambda>(count, pos, p). behind p, \<lambda>(count, pos, p). count]" using getXML_behind by simp
qed auto

definition getPreviousElement :: "xparser \<Rightarrow> (bool \<times> xparser) res" where
  "getPreviousElement p = (case back_tag 2 (int (x_pos p)) p of
     (None, p) \<Rightarrow> Inr (False, p)
   | (Some pos, p) \<Rightarrow> if pos < 0 then Inr (False, p) else
       bindR (parseElement (p\<lparr>x_element := elem_clear (x_element p), x_pos := nat pos + 1\<rparr>)) (\<lambda>p. Inr (True, p)))"

text \<open>The searches by name, with a bound on the elements they visit.\<close>

definition elem_is :: "bytes \<Rightarrow> bool \<Rightarrow> xparser \<Rightarrow> bool" where
  "elem_is name is_closing p \<longleftrightarrow> e_name (x_element p) = name \<and> e_is_closing (x_element p) = is_closing"

fun findElement :: "(xparser \<Rightarrow> (bool \<times> xparser) res) \<Rightarrow> nat \<Rightarrow> bytes \<Rightarrow> bool \<Rightarrow> xparser \<Rightarrow> (bool \<times> xparser) res" where
  "findElement step 0 name is_closing p = Inl Out_Of_Fuel"
| "findElement step (Suc n) name is_closing p = bindR (step p) (\<lambda>(more, p).
     if \<not> more then Inr (False, p) else if elem_is name is_closing p then Inr (True, p)
     else findElement step n name is_closing p)"

definition findNextElement :: "nat \<Rightarrow> bytes \<Rightarrow> bool \<Rightarrow> xparser \<Rightarrow> (bool \<times> xparser) res" where
  "findNextElement n name is_closing p = findElement getNextElement n name is_closing p"

definition findPreviousElement :: "nat \<Rightarrow> bytes \<Rightarrow> bool \<Rightarrow> xparser \<Rightarrow> (bool \<times> xparser) res" where
  "findPreviousElement n name is_closing p = findElement getPreviousElement n name is_closing p"

subsection \<open>Content\<close>

function content_scan :: "xparser \<Rightarrow> (bool \<times> xparser) res" where
  "content_scan p = (if x_xml p = [] then Inr (False, p) else
     case dropWhile c_isspace (drop (x_pos p) (x_xml p)) of
       c # _ \<Rightarrow> Inr (c \<noteq> chr CHR ''<'', p)
     | [] \<Rightarrow> if fst (getXML False p) then content_scan (snd (getXML False p))
       else invalid_xml ''could not detect content, no end tag: '' (e_name (x_element p)))"
  by pat_completeness auto
termination
proof (relation "measure unread")
  fix p assume "fst (getXML False p)"
  then have "getXML False p = (True, snd (getXML False p))" by (metis prod.collapse)
  then show "(snd (getXML False p), p) \<in> measure unread" using getXML_unread by simp
qed simp
declare content_scan.simps [simp del]

definition hasContent :: "xparser \<Rightarrow> (bool \<times> xparser) res" where
  "hasContent p = (if e_content (x_element p) \<noteq> [] then Inr (True, p)
     else if e_is_closing (x_element p) then Inr (False, p) else content_scan p)"

function parseContent :: "xparser \<Rightarrow> xparser res" where
  "parseContent p = bindR (t_find (chr CHR ''<'') (int (x_pos p)) (x_xml p)) (\<lambda>epos.
     if epos = - 1 then bindR (t_from (int (x_pos p)) (x_xml p)) (\<lambda>t.
       if fst (getXML False (add_content t p)) then parseContent (snd (getXML False (add_content t p)))
       else invalid_xml ''could not parse content, no end tag: '' (e_name (x_element p)))
     else bindR (t_mid (int (x_pos p)) (epos - int (x_pos p)) (x_xml p)) (\<lambda>t. Inr (add_content t p)))"
  by pat_completeness auto
termination
proof (relation "measure unread")
  fix p epos t assume "fst (getXML False (add_content t p))"
  then have "getXML False (add_content t p) = (True, snd (getXML False (add_content t p)))" by (metis prod.collapse)
  then show "(snd (getXML False (add_content t p)), p) \<in> measure unread" using getXML_unread by fastforce
qed simp
declare parseContent.simps [simp del]

definition getContent :: "xparser \<Rightarrow> (bytes \<times> xparser) res" where
  "getContent p = (if e_content (x_element p) \<noteq> [] then Inr (e_content (x_element p), p)
     else bindR (parseContent p) (\<lambda>p. Inr (e_content (x_element p), p)))"

subsection \<open>Attributes\<close>

definition is_quote :: "u8 \<Rightarrow> bool" where
  "is_quote c \<longleftrightarrow> c = chr (CHR 0x27) \<or> c = chr (CHR 0x22)"

text \<open>The value that starts at \<open>apos\<close>: up to the closing quote or the next blank, or the rest.\<close>

definition attr_value :: "nat \<Rightarrow> xelem \<Rightarrow> xelem res" where
  "attr_value apos e = (let t = e_attributes e; q = is_quote (t ! apos); end_char = (if q then t ! apos else chr CHR '' '');
       apos = (if q then apos + 1 else apos); i = apos + length (takeWhile (\<lambda>c. c \<noteq> end_char) (drop apos t));
       epos = (if i < length t then i else 0) in
     if 0 < epos then bindR (t_mid (int apos) (int epos - int apos) t) (\<lambda>v.
       Inr (e\<lparr>e_attr_value := v, e_apos := (if q then epos + 2 else epos + 1)\<rparr>))
     else if q then format_error (''failed to find end to attribute value: '' @ [CHR 0x27]) (e_attr_name e) [] ''InvalidXML''
     else bindR (t_from (int apos) t) (\<lambda>v. Inr (e\<lparr>e_attr_value := v, e_apos := length t\<rparr>)))"

definition getNextAttribute :: "xelem \<Rightarrow> (bool \<times> xelem) res" where
  "getNextAttribute e = (if e_has_attributes e \<and> e_apos e < length (e_attributes e) then
     bindR (t_find (chr CHR ''='') (int (e_apos e)) (e_attributes e)) (\<lambda>spos.
     if spos = - 1 then Inr (False, e) else
     bindR (t_mid (int (e_apos e)) (spos - int (e_apos e)) (e_attributes e)) (\<lambda>name.
     let apos = nat spos + 1; apos = apos + length (takeWhile c_isspace (drop apos (e_attributes e))) in
     if length (e_attributes e) \<le> apos then invalid_xml ''failed to parse attribute value: '' name else
     bindR (attr_value apos (e\<lparr>e_attr_name := name\<rparr>)) (\<lambda>e. Inr (True, e))))
   else Inr (False, e))"

fun find_attr_loop :: "nat \<Rightarrow> nat \<Rightarrow> bytes \<Rightarrow> bool \<Rightarrow> xelem \<Rightarrow> (bool \<times> xelem) res" where
  "find_attr_loop 0 start_pos name attr e = Inl Out_Of_Fuel"
| "find_attr_loop (Suc n) start_pos name attr e = (if \<not> attr then Inr (False, e)
     else if e_attr_name e = name then Inr (True, e)
     else bindR (getNextAttribute e) (\<lambda>(attr, e).
       if 0 < start_pos then
         (if \<not> attr then bindR (getNextAttribute (e\<lparr>e_apos := 0\<rparr>)) (\<lambda>(attr, e). find_attr_loop n start_pos name attr e)
          else if start_pos = e_apos e then Inr (False, e)
          else find_attr_loop n start_pos name attr e)
       else find_attr_loop n start_pos name attr e))"

definition findAttribute :: "nat \<Rightarrow> bytes \<Rightarrow> xelem \<Rightarrow> (bool \<times> xelem) res" where
  "findAttribute n name e = bindR (getNextAttribute e) (\<lambda>(attr, e'). find_attr_loop n (e_apos e) name attr e')"


section \<open>The codec\<close>

definition xml_keeps :: "u8 \<Rightarrow> bool" where
  "xml_keeps c \<longleftrightarrow> \<not> (c <s 9 \<or> c <s 32 \<and> 13 <s c)"

definition xml_enc1 :: "u8 \<Rightarrow> bytes" where
  "xml_enc1 c = (case map_of (zip RAW_ENTITY XML_ENTITY) c of Some name \<Rightarrow> AMP # name | None \<Rightarrow> if xml_keeps c then [c] else [])"

lemmas entity_tables = RAW_ENTITY_def XML_ENTITY_def XML_ENTITY_LEN_def AMP_def lit_def chr_def

lemma entity_cases:
  obtains "c \<notin> set RAW_ENTITY" "map_of (zip RAW_ENTITY XML_ENTITY) c = None"
  | name where "c \<in> set RAW_ENTITY" "map_of (zip RAW_ENTITY XML_ENTITY) c = Some name" "xml_keeps c" "c \<noteq> 0" "name \<noteq> []"
      "\<And>t. entity_at (name @ t) = Some (c, length name)" "AMP \<notin> set name" "set name \<inter> {60, 62, 39, 34, 0} = {}"
proof (cases "c \<in> set RAW_ENTITY")
  case True
  then consider "c = 60" | "c = 62" | "c = 38" | "c = 39" | "c = 34" by (auto simp: entity_tables)
  then show thesis
    by cases (use True that(2) [of "lit ''lt;''"] that(2) [of "lit ''gt;''"] that(2) [of "lit ''amp;''"] that(2) [of "lit ''apos;''"]
      that(2) [of "lit ''quot;''"] in \<open>simp_all add: entity_tables entity_at_def xml_keeps_def word_sless_alt\<close>)
next
  case False
  then have "map_of (zip RAW_ENTITY XML_ENTITY) c = None" by (simp add: entity_tables)
  with False show thesis by (rule that(1))
qed

lemma xml_encode_concat: "0 \<notin> set xs \<Longrightarrow> xml_encode_loop xs out = out @ concat (map xml_enc1 xs)"
proof (induction xs arbitrary: out)
  case (Cons c xs)
  have "AMP \<noteq> 0" by (simp add: AMP_def chr_def)
  then show ?case using Cons by (simp add: xml_enc1_def xml_keeps_def push_byte_def split: option.split)
qed simp

lemma xml_decode_enc1: "c \<noteq> 0 \<Longrightarrow> xml_decode_loop (xml_enc1 c @ t) out = xml_decode_loop t (if xml_keeps c then out @ [c] else out)"
proof (cases c rule: entity_cases)
  case 1
  have "AMP \<in> set RAW_ENTITY" by (simp add: entity_tables)
  with 1 have "c \<noteq> AMP" by auto
  then show ?thesis if "c \<noteq> 0" using 1 that by (simp add: xml_enc1_def push_byte_def)
next
  case (2 name)
  then show ?thesis if "c \<noteq> 0" by (simp add: xml_enc1_def push_byte_def)
qed

lemma xml_decode_all: "0 \<notin> set xs \<Longrightarrow> xml_decode_loop (concat (map xml_enc1 xs)) out = out @ filter xml_keeps xs"
  by (induction xs arbitrary: out) (simp_all add: xml_decode_enc1)

lemma xml_decode_plain: "AMP \<notin> set ys \<Longrightarrow> 0 \<notin> set ys \<Longrightarrow> xml_decode_loop (ys @ zs) out = xml_decode_loop zs (out @ ys)"
  by (induction ys arbitrary: out) (auto simp: push_byte_def)

lemma xml_enc1_chars: "c \<noteq> 0 \<Longrightarrow> set (xml_enc1 c) \<inter> {60, 62, 39, 34, 0} = {}"
  by (cases c rule: entity_cases) (auto simp: xml_enc1_def entity_tables)

lemma xml_decode_start:
  assumes "0 \<notin> set E" "AMP \<in> set E"
  shows "xml_decode E = (if hd E = AMP then xml_decode_loop E E else xml_decode_loop E [])"
proof -
  obtain as bs where E: "E = as @ AMP # bs" "AMP \<notin> set as" using assms(2) by (metis split_list_first)
  have "takeWhile (\<lambda>c. c \<noteq> AMP) (as @ AMP # bs) = as" using E(2) by (induction as) auto
  moreover have "0 \<notin> set as" using assms(1) E(1) by simp
  moreover have "hd (as @ AMP # bs) = AMP \<longleftrightarrow> as = []" using E(2) by (cases as) auto
  ultimately show ?thesis
    using xml_decode_plain [of as "AMP # bs" "[]"] E(2) by (simp add: xml_decode_def Let_def E(1) del: xml_decode_loop.simps)
qed

lemma xml_codec:
  assumes "0 \<notin> set xs"
  defines "kept \<equiv> filter xml_keeps xs"
  shows "xml_decode (xml_encode xs) = (if kept \<noteq> [] \<and> hd kept \<in> set RAW_ENTITY then xml_encode xs @ kept else kept)
    \<and> set (xml_encode xs) \<inter> {60, 62, 39, 34} = {}"
proof
  define E where "E = xml_encode xs"
  have E: "E = concat (map xml_enc1 xs)" using xml_encode_concat [OF assms(1), of "[]"] by (simp add: E_def xml_encode_def)
  have "set (xml_enc1 c) \<inter> {60, 62, 39, 34, 0} = {}" if "c \<in> set xs" for c
    using xml_enc1_chars [of c] assms(1) that by auto
  then have chars: "set E \<inter> {60, 62, 39, 34, 0} = {}" unfolding E by (simp add: Int_UN_distrib2 set_concat)
  then show "set (xml_encode xs) \<inter> {60, 62, 39, 34} = {}" by (auto simp: E_def)
  have loop: "xml_decode_loop E out = out @ kept" for out unfolding E kept_def by (rule xml_decode_all [OF assms(1)])
  have hd_iff: "(E \<noteq> [] \<and> hd E = AMP) = (kept \<noteq> [] \<and> hd kept \<in> set RAW_ENTITY)"
    unfolding E kept_def using assms(1)
  proof (induction xs)
    case (Cons c xs)
    have "AMP \<in> set RAW_ENTITY" by (simp add: entity_tables)
    then show ?case using Cons by (cases c rule: entity_cases) (auto simp: xml_enc1_def)
  qed simp
  show "xml_decode (xml_encode xs) = (if kept \<noteq> [] \<and> hd kept \<in> set RAW_ENTITY then xml_encode xs @ kept else kept)"
  proof (cases "AMP \<in> set E")
    case True
    then have "E \<noteq> []" by auto
    then show ?thesis using xml_decode_start [OF _ True] chars loop hd_iff by (auto simp: E_def [symmetric])
  next
    case False
    then have "xml_decode_loop E [] = E" using xml_decode_plain [of E "[]" "[]"] chars by auto
    moreover have "\<not> (E \<noteq> [] \<and> hd E = AMP)" using False by (cases E) auto
    ultimately show ?thesis using False loop [of "[]"] hd_iff by (auto simp: xml_decode_def E_def [symmetric])
  qed
qed

text \<open>
  C22. Decoding an encoded text gives the characters that encoding keeps (tab to carriage return and the
  printable ASCII ones), unless the first of them needs an entity: then the encoded text comes first
  once more. The encoded text has no markup character.
\<close>

theorem xml_decode_encode:
  assumes "0 \<notin> set xs"
  defines "kept \<equiv> filter xml_keeps xs"
  shows "xml_decode (xml_encode xs) = (if kept \<noteq> [] \<and> hd kept \<in> set RAW_ENTITY then xml_encode xs @ kept else kept)
    \<and> set (xml_encode xs) \<inter> {60, 62, 39, 34} = {}"
  using xml_codec [OF assms(1)] by (simp add: kept_def)

theorem xml_decode_encode_witness:
  "xml_decode (xml_encode [97, 60, 1, 98]) = [97, 60, 98] \<and> xml_decode (xml_encode [60]) = [38, 108, 116, 59, 60]"
  using xml_decode_encode [of "[97, 60, 1, 98]"] xml_decode_encode [of "[60]"]
  by (simp add: xml_keeps_def word_sless_alt entity_tables xml_encode_def push_byte_def)


section \<open>Reading elements\<close>

text \<open>The text ahead of the parser.\<close>

definition ahead_of :: "xparser \<Rightarrow> bytes \<Rightarrow> bool" where
  "ahead_of p R \<longleftrightarrow> drop (x_pos p) (x_xml p) = R \<and> x_pos p \<le> length (x_xml p) \<and> length (x_xml p) < 2 ^ 31 \<and> 0 \<notin> set (x_xml p)"

lemma ahead_of_elem [simp]: "ahead_of (p\<lparr>x_element := e\<rparr>) R = ahead_of p R" "ahead_of (add_content t p) R = ahead_of p R"
  by (simp_all add: ahead_of_def add_content_def)

lemma ahead_of_find: "ahead_of p (ys @ c # R) \<Longrightarrow> c \<notin> set ys \<Longrightarrow> t_find c (int (x_pos p)) (x_xml p) = Inr (int (x_pos p + length ys))"
  by (rule find_at) (simp_all add: ahead_of_def)

lemma ahead_of_mid: "ahead_of p (ys @ R) \<Longrightarrow> ys \<noteq> [] \<Longrightarrow> t_mid (int (x_pos p)) (int (length ys)) (x_xml p) = Inr ys"
  by (rule mid_at) (simp_all add: ahead_of_def)

lemma ahead_of_skip: "ahead_of p (ys @ R) \<Longrightarrow> ahead_of (p\<lparr>x_pos := x_pos p + length ys\<rparr>) R"
proof -
  assume a: "ahead_of p (ys @ R)"
  then have "drop (x_pos p) (x_xml p) = ys @ R" by (simp add: ahead_of_def)
  from arg_cong [OF this, of length] have "length (x_xml p) - x_pos p = length ys + length R" by simp
  moreover have "x_pos p \<le> length (x_xml p)" using a by (simp add: ahead_of_def)
  ultimately have "x_pos p + length ys \<le> length (x_xml p)" by linarith
  then show ?thesis using a drop_more [of "x_pos p" "x_xml p" ys R] by (simp add: ahead_of_def)
qed

text \<open>The element that a tag with the text \<open>n\<close> leaves behind.\<close>

definition tag_elem :: "bytes \<Rightarrow> xelem \<Rightarrow> xelem res" where
  "tag_elem n e = bindR (strip_markers ((elem_clear e)\<lparr>e_name := n\<rparr>)) split_attributes"

lemma read_tag:
  assumes a: "ahead_of p (pre @ chr CHR ''<'' # n @ chr CHR ''>'' # R)" and pre: "chr CHR ''<'' \<notin> set pre"
    and n: "n \<noteq> []" "chr CHR ''>'' \<notin> set n" and e: "tag_elem n (x_element p) = Inr e"
  shows "\<exists>k. getNextElement p = Inr (True, p\<lparr>x_element := e, x_pos := k\<rparr>) \<and> ahead_of (p\<lparr>x_element := e, x_pos := k\<rparr>) R"
proof -
  define q where "q = p\<lparr>x_element := elem_clear (x_element p)\<rparr>"
  define q1 where "q1 = q\<lparr>x_pos := x_pos q + length pre + 1\<rparr>"
  define q2 where "q2 = (add_name n q1)\<lparr>x_pos := x_pos q1 + length n + 1\<rparr>"
  have aq: "ahead_of q ((pre @ [chr CHR ''<'']) @ n @ chr CHR ''>'' # R)" using a by (simp add: q_def)
  from ahead_of_skip [OF aq] have a1: "ahead_of q1 (n @ chr CHR ''>'' # R)" by (simp add: q1_def add.assoc)
  have "ahead_of q1 ((n @ [chr CHR ''>'']) @ R)" using a1 by simp
  from ahead_of_skip [OF this] have a2: "ahead_of q2 R" by (simp add: ahead_of_def q2_def add_name_def add.assoc)
  have "t_find (chr CHR ''<'') (int (x_pos q)) (x_xml q) = Inr (int (x_pos q + length pre))"
    using ahead_of_find [of q pre "chr CHR ''<''" "n @ chr CHR ''>'' # R"] aq pre by simp
  then have f: "find_tag q = Inr (Some (int (x_pos q + length pre)), q)" by (simp add: find_tag.simps)
  have "tag_name q1 = Inr q2"
    using ahead_of_find [OF a1 n(2)] ahead_of_mid [OF a1 n(1)] unfolding q2_def by (subst tag_name.simps) (simp add: nat_add_distrib)
  moreover have "x_element q2 = (elem_clear (x_element p))\<lparr>e_name := n\<rparr>" by (simp add: q2_def q1_def q_def add_name_def elem_clear_def)
  ultimately have "parseElement q1 = Inr (q2\<lparr>x_element := e\<rparr>)"
    using e by (auto simp: parseElement_def tag_elem_def res_simps)
  moreover have "q1 = q\<lparr>x_pos := nat (int (x_pos q + length pre)) + 1\<rparr>" by (simp add: q1_def)
  moreover have "\<not> length (x_xml q) \<le> x_pos q" using aq by (auto simp: ahead_of_def)
  ultimately have "getNextElement p = Inr (True, q2\<lparr>x_element := e\<rparr>)"
    using f by (simp add: getNextElement_def q_def [symmetric] Let_def)
  moreover have "q2\<lparr>x_element := e\<rparr> = p\<lparr>x_element := e, x_pos := x_pos q2\<rparr>" by (simp add: q2_def q1_def q_def add_name_def)
  ultimately show ?thesis using a2 by (metis ahead_of_elem(1))
qed

text \<open>Names of tags without attributes.\<close>

definition plain_name :: "bytes \<Rightarrow> bool" where
  "plain_name n \<longleftrightarrow> n \<noteq> [] \<and> hd n \<noteq> chr CHR ''/'' \<and> last n \<noteq> chr CHR ''/'' \<and> hd n \<noteq> chr CHR ''?''
     \<and> chr CHR ''>'' \<notin> set n \<and> chr CHR ''='' \<notin> set n"

lemma split_none: "chr CHR ''='' \<notin> set (e_name e) \<Longrightarrow> split_attributes e = Inr (e\<lparr>e_has_attributes := False\<rparr>)"
  by (simp add: split_attributes_def)

lemma tag_elem_open: "plain_name n \<Longrightarrow>
    tag_elem n e = Inr ((elem_clear e)\<lparr>e_name := n, e_is_closing := False, e_has_attributes := False\<rparr>)"
  by (simp add: tag_elem_def strip_markers_def plain_name_def split_none elem_clear_def)

lemma tag_elem_close: "plain_name n \<Longrightarrow>
    tag_elem (chr CHR ''/'' # n) e = Inr ((elem_clear e)\<lparr>e_name := n, e_is_closing := True, e_has_attributes := False\<rparr>)"
  by (simp add: tag_elem_def strip_markers_def plain_name_def split_none elem_clear_def)

lemma tag_elem_single: "plain_name n \<Longrightarrow>
    tag_elem (n @ [chr CHR ''/'']) e = Inr ((elem_clear e)\<lparr>e_name := n, e_is_closing := True, e_has_attributes := False\<rparr>)"
  by (simp add: tag_elem_def strip_markers_def plain_name_def split_none elem_clear_def)

definition tag_text :: "bool \<Rightarrow> bytes \<Rightarrow> bytes" where
  "tag_text closing n = chr CHR ''<'' # (if closing then [chr CHR ''/''] else []) @ n @ [chr CHR ''>'']"

text \<open>What the parser is after it has read such a tag.\<close>

definition on_tag :: "bool \<Rightarrow> bytes \<Rightarrow> bytes \<Rightarrow> xparser \<Rightarrow> bool" where
  "on_tag closing n R p \<longleftrightarrow> ahead_of p R \<and> e_name (x_element p) = n \<and> e_is_closing (x_element p) = closing
     \<and> e_content (x_element p) = []"

lemma next_tag:
  assumes "ahead_of p (pre @ tag_text closing n @ R)" "chr CHR ''<'' \<notin> set pre" "plain_name n"
  shows "\<exists>p'. getNextElement p = Inr (True, p') \<and> on_tag closing n R p' \<and> x_xml_file p' = x_xml_file p"
proof -
  let ?n = "(if closing then [chr CHR ''/''] else []) @ n"
  have "?n \<noteq> []" "chr CHR ''>'' \<notin> set ?n" using assms(3) by (auto simp: plain_name_def chr_def)
  moreover have "\<exists>e. tag_elem ?n (x_element p) = Inr e \<and> e_name e = n \<and> e_is_closing e = closing \<and> e_content e = []"
    using tag_elem_open [OF assms(3)] tag_elem_close [OF assms(3)] by (auto simp: elem_clear_def)
  then obtain e where e: "tag_elem ?n (x_element p) = Inr e" "e_name e = n" "e_is_closing e = closing" "e_content e = []" by blast
  ultimately show ?thesis
    using read_tag [OF _ assms(2) _ _ e(1), of R] assms(1) e by (auto simp: tag_text_def on_tag_def)
qed

lemma no_more: "x_xml_file p = None \<Longrightarrow> ahead_of p R \<Longrightarrow> chr CHR ''<'' \<notin> set R \<Longrightarrow> \<exists>p'. getNextElement p = Inr (False, p')"
  by (cases "length (x_xml p) \<le> x_pos p")
    (auto simp: getNextElement_def getXML_def find_tag.simps t_find_def ahead_of_def Let_def)

section \<open>Content\<close>

text \<open>\<open>hasContent\<close> looks at the first character that is no white space.\<close>

lemma has_content:
  assumes "on_tag False n (t @ chr CHR ''<'' # R) p" "chr CHR ''<'' \<notin> set t"
  shows "hasContent p = Inr (\<exists>c \<in> set t. \<not> c_isspace c, p)"
proof -
  have "x_xml p \<noteq> []" "drop (x_pos p) (x_xml p) = t @ chr CHR ''<'' # R" using assms(1) by (auto simp: on_tag_def ahead_of_def)
  moreover have "\<not> c_isspace (chr CHR ''<'')" by (simp add: c_isspace_def chr_def)
  then have "\<exists>c u. dropWhile c_isspace (t @ chr CHR ''<'' # R) = c # u \<and> (c \<noteq> chr CHR ''<'') = (\<exists>c \<in> set t. \<not> c_isspace c)"
    using assms(2) by (induction t) auto
  ultimately show ?thesis using assms(1) by (auto simp: hasContent_def on_tag_def content_scan.simps [of p])
qed

lemma get_content:
  assumes "ahead_of p (t @ chr CHR ''<'' # R)" "chr CHR ''<'' \<notin> set t" "t \<noteq> []" "e_content (x_element p) = []"
  shows "getContent p = Inr (t, add_content t p)"
  using ahead_of_find [OF assms(1,2)] ahead_of_mid [OF assms(1,3)] assms(4)
  by (simp add: getContent_def parseContent.simps [of p]) (simp add: add_content_def)

end
