(* ===== verification/Xml_File.thy ===== *)
theory Xml_File
  imports Xml
begin

text \<open>
  Reading a file in blocks against reading the whole text: the two parsers are related when the
  same text is ahead of them, and each element the first one returns is returned by the second.
\<close>

text \<open>No block of the file after the next read begins with a closing bracket.\<close>

definition blocks_ok :: "bytes \<Rightarrow> nat \<Rightarrow> bool" where
  "blocks_ok text at \<longleftrightarrow> (\<forall>k. at + 1024 * k < length text \<longrightarrow> text ! (at + 1024 * k) \<noteq> chr CHR ''>'')"

definition file_ahead :: "xparser \<Rightarrow> bytes \<Rightarrow> bool" where
  "file_ahead p R \<longleftrightarrow> (\<exists>text at. x_xml_file p = Some (text, at) \<and> blocks_ok text at \<and> x_pos p \<le> length (x_xml p)
     \<and> length (x_xml p) \<le> 1024 \<and> drop (x_pos p) (x_xml p) @ drop at text = R)"

text \<open>No tag is empty.\<close>

fun no_empty :: "bytes \<Rightarrow> bool" where
  "no_empty (c # d # t) = (\<not> (c = chr CHR ''<'' \<and> d = chr CHR ''>'') \<and> no_empty (d # t))"
| "no_empty t = True"

lemma no_empty_append: "no_empty (xs @ ys) \<Longrightarrow> no_empty ys"
proof (induction xs)
  case (Cons x xs)
  then have "no_empty (xs @ ys)" by (cases "xs @ ys") auto
  then show ?case by (rule Cons.IH)
qed simp

lemma file_ahead_elem [simp]: "file_ahead (p\<lparr>x_element := e\<rparr>) R = file_ahead p R" "file_ahead (add_name t p) R = file_ahead p R"
  by (simp_all add: file_ahead_def add_name_def)

lemma getXML_element [simp]: "x_element (snd (getXML r p)) = x_element p"
  by (simp add: getXML_def file_read_def Let_def split: option.split)

lemma next_block:
  assumes "file_ahead p R"
  shows "\<not> fst (getXML False p) \<Longrightarrow> R = drop (x_pos p) (x_xml p)"
    "fst (getXML False p) \<Longrightarrow> \<exists>S. R = drop (x_pos p) (x_xml p) @ S \<and> S \<noteq> [] \<and> hd S \<noteq> chr CHR ''>'' \<and> file_ahead (snd (getXML False p)) S"
proof -
  obtain T at where f: "x_xml_file p = Some (T, at)" "blocks_ok T at" "drop (x_pos p) (x_xml p) @ drop at T = R"
    using assms by (auto simp: file_ahead_def)
  show "R = drop (x_pos p) (x_xml p)" if "\<not> fst (getXML False p)" using that f by (simp add: getXML_def file_read_def)
  assume "fst (getXML False p)"
  then have n: "at < length T" using f(1) by (auto simp: getXML_def file_read_def)
  define m where "m = min 1024 (length T - at)"
  have "blocks_ok T (at + m)"
  proof (cases "length T - at \<le> 1024")
    case True
    then show ?thesis using n by (simp add: blocks_ok_def m_def)
  next
    case False
    then have "m = 1024" by (simp add: m_def)
    moreover have "T ! (at + 1024 + 1024 * k) \<noteq> chr CHR ''>''" if "at + 1024 + 1024 * k < length T" for k
    proof -
      have "at + 1024 + 1024 * k = at + 1024 * Suc k" by simp
      then show ?thesis using f(2) that unfolding blocks_ok_def by metis
    qed
    ultimately show ?thesis by (simp add: blocks_ok_def)
  qed
  moreover have "take 1024 (drop at T) @ drop (at + m) T = drop at T"
    by (cases "length T - at \<le> 1024") (simp_all add: m_def, metis append_take_drop_id drop_drop add.commute)
  moreover have "snd (getXML False p) = p\<lparr>x_pos := 0, x_xml := take 1024 (drop at T), x_xml_file := Some (T, at + m)\<rparr>"
    using f(1) by (simp add: getXML_def file_read_def m_def min.commute)
  ultimately have "file_ahead (snd (getXML False p)) (drop at T)" by (simp add: file_ahead_def)
  moreover have "hd (drop at T) \<noteq> chr CHR ''>''"
  proof -
    have "T ! (at + 1024 * 0) \<noteq> chr CHR ''>''" using f(2) n unfolding blocks_ok_def by (metis add_0_right mult_0_right)
    then show ?thesis using n by (simp add: hd_drop_conv_nth)
  qed
  ultimately show "\<exists>S. R = drop (x_pos p) (x_xml p) @ S \<and> S \<noteq> [] \<and> hd S \<noteq> chr CHR ''>'' \<and> file_ahead (snd (getXML False p)) S"
    using f(3) n by (intro exI [of _ "drop at T"]) simp
qed

text \<open>A character found in the block is the first one ahead.\<close>

lemma block_find:
  assumes "file_ahead p R" "t_find c (int (x_pos p)) (x_xml p) = Inr i" "i \<noteq> - 1"
  shows "\<exists>ys S. R = ys @ c # S \<and> c \<notin> set ys \<and> i = int (x_pos p + length ys) \<and> file_ahead (p\<lparr>x_pos := nat i + 1\<rparr>) S
    \<and> (\<exists>zs. drop (x_pos p) (x_xml p) = ys @ c # zs)"
proof -
  obtain T at where f: "x_xml_file p = Some (T, at)" "blocks_ok T at" "drop (x_pos p) (x_xml p) @ drop at T = R"
      "x_pos p \<le> length (x_xml p)" "length (x_xml p) \<le> 1024" using assms(1) by (auto simp: file_ahead_def)
  have "c \<in> set (drop (x_pos p) (x_xml p))" using assms(2,3) f(4) by (auto simp: t_find_def Let_def split: if_splits)
  then obtain ys zs where d: "drop (x_pos p) (x_xml p) = ys @ c # zs" "c \<notin> set ys" by (metis split_list_first)
  then have i: "i = int (x_pos p + length ys)" using find_at [OF d] assms(2) by simp
  have l: "x_pos p + length ys < length (x_xml p)" using arg_cong [OF d(1), of length] f(4) by simp
  have "nat i = x_pos p + length ys" using i by (simp del: of_nat_add)
  then have "drop (nat i + 1) (x_xml p) = zs" using drop_more [of "x_pos p" "x_xml p" "ys @ [c]" zs] d by simp
  then have "file_ahead (p\<lparr>x_pos := nat i + 1\<rparr>) (zs @ drop at T)" using f l i by (auto simp: file_ahead_def)
  then show ?thesis using d i f(3) by auto
qed

lemma block_none:
  assumes "t_find c (int (x_pos p)) (x_xml p) = Inr (- 1)"
  shows "c \<notin> set (drop (x_pos p) (x_xml p))"
  using assms by (auto simp: t_find_def split: if_splits)

lemma find_tag_file:
  "file_ahead p R \<Longrightarrow> find_tag p = Inr (r, p') \<Longrightarrow> x_element p' = x_element p \<and>
   (case r of None \<Rightarrow> chr CHR ''<'' \<notin> set R
    | Some i \<Rightarrow> \<exists>pre S. R = pre @ chr CHR ''<'' # S \<and> chr CHR ''<'' \<notin> set pre \<and> file_ahead (p'\<lparr>x_pos := nat i + 1\<rparr>) S)"
proof (induction p arbitrary: R rule: find_tag.induct)
  case (1 p)
  obtain i where i: "t_find (chr CHR ''<'') (int (x_pos p)) (x_xml p) = Inr i"
    using 1(3) by (subst (asm) find_tag.simps) (auto simp: res_simps)
  show ?case
  proof (cases "i = - 1")
    case False
    then have "r = Some i" "p' = p" using 1(3) i by (subst (asm) find_tag.simps, simp)+
    then show ?thesis using block_find [OF 1(2) i False] by auto
  next
    case True
    note none = block_none [OF i [unfolded True]]
    show ?thesis
    proof (cases "fst (getXML False p)")
      case False
      then show ?thesis using 1(3) i True next_block(1) [OF 1(2)] none by (subst (asm) find_tag.simps) auto
    next
      case more: True
      obtain S where S: "R = drop (x_pos p) (x_xml p) @ S" "file_ahead (snd (getXML False p)) S" using next_block(2) [OF 1(2) more] by blast
      have "find_tag (snd (getXML False p)) = Inr (r, p')" using 1(3) i True more by (subst (asm) find_tag.simps) simp
      from 1(1) [OF i [unfolded True] refl more S(2) this]
      have IH: "x_element p' = x_element p" "case r of None \<Rightarrow> chr CHR ''<'' \<notin> set S
        | Some i \<Rightarrow> \<exists>pre T. S = pre @ chr CHR ''<'' # T \<and> chr CHR ''<'' \<notin> set pre \<and> file_ahead (p'\<lparr>x_pos := nat i + 1\<rparr>) T" by simp_all
      show ?thesis
      proof (cases r)
        case None
        then show ?thesis using IH S(1) none by simp
      next
        case (Some j)
        then obtain pre T where T: "S = pre @ chr CHR ''<'' # T" "chr CHR ''<'' \<notin> set pre" "file_ahead (p'\<lparr>x_pos := nat j + 1\<rparr>) T"
          using IH(2) by auto
        then have "R = (drop (x_pos p) (x_xml p) @ pre) @ chr CHR ''<'' # T" "chr CHR ''<'' \<notin> set (drop (x_pos p) (x_xml p) @ pre)"
          using S(1) none by simp_all
        then show ?thesis using IH(1) T(3) unfolding Some option.case by blast
      qed
    qed
  qed
qed

lemma tag_name_file:
  "file_ahead p R \<Longrightarrow> R = [] \<or> hd R \<noteq> chr CHR ''>'' \<Longrightarrow> tag_name p = Inr p' \<Longrightarrow>
   \<exists>n S. R = n @ chr CHR ''>'' # S \<and> chr CHR ''>'' \<notin> set n \<and> n \<noteq> [] \<and> file_ahead p' S
     \<and> x_element p' = (x_element p)\<lparr>e_name := e_name (x_element p) @ n\<rparr>"
proof (induction p arbitrary: R rule: tag_name.induct)
  case (1 p)
  obtain i where i: "t_find (chr CHR ''>'') (int (x_pos p)) (x_xml p) = Inr i"
    using 1(4) by (subst (asm) tag_name.simps) (auto simp: res_simps)
  have l: "length (x_xml p) \<le> 1024" "x_pos p \<le> length (x_xml p)" using 1(2) by (auto simp: file_ahead_def)
  show ?case
  proof (cases "i = - 1")
    case False
    then obtain n S where n: "R = n @ chr CHR ''>'' # S" "chr CHR ''>'' \<notin> set n" "i = int (x_pos p + length n)" "file_ahead (p\<lparr>x_pos := nat i + 1\<rparr>) S"
        "\<exists>zs. drop (x_pos p) (x_xml p) = n @ chr CHR ''>'' # zs"
      using block_find [OF 1(2) i] by auto
    then have ne: "n \<noteq> []" using 1(3) by auto
    have "t_mid (int (x_pos p)) (i - int (x_pos p)) (x_xml p) = Inr n"
      using mid_at [of "x_pos p" "x_xml p" n _ "i - int (x_pos p)"] n(3,5) ne l by auto
    then have "p' = (add_name n p)\<lparr>x_pos := nat i + 1\<rparr>" using 1(4) i False by (subst (asm) tag_name.simps) simp
    moreover have "file_ahead ((add_name n p)\<lparr>x_pos := nat i + 1\<rparr>) S" using n(4) by (simp add: file_ahead_def add_name_def)
    ultimately show ?thesis using n(1,2) ne by (auto simp: add_name_def)
  next
    case True
    note none = block_none [OF i [unfolded True]]
    let ?t = "drop (x_pos p) (x_xml p)"
    have t: "t_from (int (x_pos p)) (x_xml p) = Inr ?t" using l by (auto simp: t_from_def t_mid_def)
    have short: "\<not> 124 < length (e_name (x_element (add_name ?t p)))" and more: "fst (getXML False (add_name ?t p))"
        and rest: "tag_name (snd (getXML False (add_name ?t p))) = Inr p'"
      using 1(4) i True t by (subst (asm) tag_name.simps, simp split: if_splits)+
    obtain S where S: "R = ?t @ S" "S \<noteq> []" "hd S \<noteq> chr CHR ''>''" "file_ahead (snd (getXML False (add_name ?t p))) S"
      using next_block(2) [of "add_name ?t p" R] more 1(2) by (auto simp: add_name_def)
    from 1(1) [OF i [unfolded True] refl t short more S(4) _ rest] S show ?thesis
      using none by (fastforce simp: add_name_def)
  qed
qed


definition reads_same :: "xparser \<Rightarrow> xparser \<Rightarrow> bool" where
  "reads_same p q \<longleftrightarrow> x_element p = x_element q \<and> x_xml_file q = None \<and> (\<exists>R. file_ahead p R \<and> ahead_of q R \<and> no_empty R)"

lemma find_after_clear:
  assumes "file_ahead p R" "getNextElement p = Inr (b, p')"
  shows "R = [] \<and> \<not> b \<or> (\<exists>p1. file_ahead p1 R \<and> x_element p1 = elem_clear (x_element p)
    \<and> bindR (find_tag p1) (\<lambda>(pos, p). case pos of None \<Rightarrow> Inr (False, p) | Some pos \<Rightarrow>
        bindR (parseElement (p\<lparr>x_pos := nat pos + 1\<rparr>)) (\<lambda>p. Inr (True, p))) = Inr (b, p'))"
proof -
  define p0 where "p0 = p\<lparr>x_element := elem_clear (x_element p)\<rparr>"
  have a: "file_ahead p0 R" "x_element p0 = elem_clear (x_element p)" using assms(1) by (simp_all add: p0_def)
  note g = assms(2) [unfolded getNextElement_def, folded p0_def]
  show ?thesis
  proof (cases "length (x_xml p0) \<le> x_pos p0")
    case False
    then show ?thesis using a g by (intro disjI2 exI [of _ p0]) (simp add: Let_def)
  next
    case True
    show ?thesis
    proof (cases "getXML False p0")
      case (Pair more p1)
      show ?thesis
      proof (cases more)
        case False
        then show ?thesis using next_block(1) [OF a(1)] True Pair g by (simp add: Let_def)
      next
        case m: True
        then have "file_ahead p1 R" "x_element p1 = elem_clear (x_element p)"
          using next_block(2) [OF a(1)] True Pair a(2) getXML_element [of False p0] by auto
        then show ?thesis using Pair m True g by (intro disjI2 exI [of _ p1]) (simp add: Let_def)
      qed
    qed
  qed
qed

lemma next_element_file:
  assumes "reads_same p q" "getNextElement p = Inr (b, p')"
  shows "\<exists>q'. getNextElement q = Inr (b, q') \<and> (b \<longrightarrow> reads_same p' q')"
proof -
  obtain R where R: "file_ahead p R" "ahead_of q R" "no_empty R" and el: "x_element p = x_element q" "x_xml_file q = None"
    using assms(1) by (auto simp: reads_same_def)
  have done_q: "\<exists>q'. getNextElement q = Inr (False, q')" if "chr CHR ''<'' \<notin> set R" using no_more [OF el(2) R(2) that] .
  consider "R = []" "\<not> b" | p1 where "file_ahead p1 R" "x_element p1 = elem_clear (x_element p)"
     "bindR (find_tag p1) (\<lambda>(pos, p). case pos of None \<Rightarrow> Inr (False, p) | Some pos \<Rightarrow>
        bindR (parseElement (p\<lparr>x_pos := nat pos + 1\<rparr>)) (\<lambda>p. Inr (True, p))) = Inr (b, p')"
    using find_after_clear [OF R(1) assms(2)] by blast
  then show ?thesis
  proof cases
    case 1
    then show ?thesis using done_q by simp
  next
    case (2 p1)
    then obtain r p2 where f: "find_tag p1 = Inr (r, p2)" by (auto simp: res_simps)
    note ft = find_tag_file [OF 2(1) f]
    show ?thesis
    proof (cases r)
      case None
      then show ?thesis using ft 2(3) f done_q by simp
    next
      case (Some i)
      then obtain pre S where S: "R = pre @ chr CHR ''<'' # S" "chr CHR ''<'' \<notin> set pre" "file_ahead (p2\<lparr>x_pos := nat i + 1\<rparr>) S"
        using ft by auto
      have b: "b" "parseElement (p2\<lparr>x_pos := nat i + 1\<rparr>) = Inr p'" using 2(3) f Some by (auto simp: res_simps)
      have ne: "no_empty (chr CHR ''<'' # S)" using no_empty_append R(3) unfolding S(1) .
      then have hd: "S = [] \<or> hd S \<noteq> chr CHR ''>''" by (cases S) auto
      obtain p3 e where p3: "tag_name (p2\<lparr>x_pos := nat i + 1\<rparr>) = Inr p3"
          "bindR (strip_markers (x_element p3)) split_attributes = Inr e" "p' = p3\<lparr>x_element := e\<rparr>"
        using b(2) by (auto simp: parseElement_def res_simps)
      obtain n T where n: "S = n @ chr CHR ''>'' # T" "chr CHR ''>'' \<notin> set n" "n \<noteq> []" "file_ahead p3 T"
          "x_element p3 = (x_element p2)\<lparr>e_name := e_name (x_element p2) @ n\<rparr>"
        using tag_name_file [OF S(3) hd p3(1)] by auto
      have "x_element p3 = (elem_clear (x_element q))\<lparr>e_name := n\<rparr>" using n(5) ft 2(2) el(1) by (simp add: elem_clear_def)
      then have "tag_elem n (x_element q) = Inr e" using p3(2) by (simp add: tag_elem_def)
      then obtain k where k: "getNextElement q = Inr (True, q\<lparr>x_element := e, x_pos := k\<rparr>)" "ahead_of (q\<lparr>x_element := e, x_pos := k\<rparr>) T"
        using read_tag [OF _ S(2) n(3,2), of q T e] R(2) unfolding S(1) n(1) by auto
      have "chr CHR ''<'' # S = (chr CHR ''<'' # n @ [chr CHR ''>'']) @ T" by (simp add: n(1))
      then have "no_empty T" using ne no_empty_append by metis
      then have "reads_same p' (q\<lparr>x_element := e, x_pos := k\<rparr>)" using n(4) k(2) el(2) p3(3) by (auto simp: reads_same_def)
      then show ?thesis using k(1) b(1) by (intro exI [of _ "q\<lparr>x_element := e, x_pos := k\<rparr>"]) simp
    qed
  qed
qed

lemma find_element_file:
  "reads_same p q \<Longrightarrow> findElement getNextElement n name c p = Inr (b, p') \<Longrightarrow>
   \<exists>q'. findElement getNextElement n name c q = Inr (b, q') \<and> (b \<longrightarrow> reads_same p' q')"
proof (induction n arbitrary: p q)
  case (Suc n)
  obtain m p1 where p1: "getNextElement p = Inr (m, p1)" using Suc.prems(2) by (auto simp: res_simps)
  obtain q1 where q1: "getNextElement q = Inr (m, q1)" "m \<longrightarrow> reads_same p1 q1" using next_element_file [OF Suc.prems(1) p1] by blast
  show ?case
  proof (cases "m \<and> \<not> elem_is name c p1")
    case True
    then have "elem_is name c q1 = elem_is name c p1" using q1(2) by (simp add: elem_is_def reads_same_def)
    then show ?thesis using Suc.IH [of p1 q1] Suc.prems(2) p1 q1 True by simp
  next
    case False
    then have "m \<Longrightarrow> elem_is name c q1" using q1(2) by (simp add: elem_is_def reads_same_def)
    then show ?thesis using Suc.prems(2) p1 q1 False by (cases m) auto
  qed
qed simp

text \<open>
  C6. A parser that reads a file in blocks refines the parser of the whole text: when no block
  starts with a closing bracket and no tag is empty, each search on the file that does not throw ends
  the same way on the text, at an element that is the same, with the same text still ahead.
\<close>

theorem xml_file_refines_text:
  assumes "blocks_ok T 0" "no_empty T" "0 \<notin> set T" "length T < 2 ^ 31"
    "findNextElement n name c (Parser_file T 0) = Inr (b, p)"
  shows "\<exists>q. findNextElement n name c (Parser T) = Inr (b, q)
    \<and> (b \<longrightarrow> x_element p = x_element q \<and> (\<exists>R. file_ahead p R \<and> ahead_of q R))"
proof -
  have "file_ahead (Parser_file T 0) T" using assms(1) by (simp add: file_ahead_def Parser_file_def)
  moreover have "ahead_of (Parser T) T" using assms(3,4) by (simp add: ahead_of_def Parser_def)
  ultimately have "reads_same (Parser_file T 0) (Parser T)" using assms(2) by (auto simp: reads_same_def Parser_file_def Parser_def)
  from find_element_file [OF this assms(5) [unfolded findNextElement_def]] show ?thesis
    by (auto simp: findNextElement_def reads_same_def)
qed

theorem xml_file_refines_text_witness:
  "\<exists>p q. findNextElement 1 [97] False (Parser_file (lit ''<a>'') 0) = Inr (True, p)
    \<and> findNextElement 1 [97] False (Parser (lit ''<a>'')) = Inr (True, q) \<and> x_element p = x_element q"
proof -
  let ?T = "lit ''<a>''"
  have T: "blocks_ok ?T 0" "no_empty ?T" "0 \<notin> set ?T" "length ?T < 2 ^ 31"
    by (auto simp: blocks_ok_def lit_def chr_def nth_Cons')
  define p where "p = (Parser_file ?T 0)\<lparr>x_element := elem_clear (Element False), x_xml := ?T, x_xml_file := Some (?T, 3)\<rparr>"
  have g: "getXML False ((Parser_file ?T 0)\<lparr>x_element := elem_clear (Element False)\<rparr>) = (True, p)"
    by (simp add: p_def getXML_def file_read_def Parser_file_def lit_def)
  have f: "find_tag p = Inr (Some 0, p)" by (subst find_tag.simps) (simp add: p_def Parser_file_def lit_def t_find_def chr_def)
  have t: "tag_name (p\<lparr>x_pos := 1\<rparr>) = Inr ((add_name [97] p)\<lparr>x_pos := 3\<rparr>)"
    by (subst tag_name.simps) (simp add: p_def Parser_file_def lit_def t_find_def t_mid_def chr_def add_name_def)
  have "\<exists>p'. getNextElement (Parser_file ?T 0) = Inr (True, p') \<and> elem_is [97] False p'"
    using g f t by (simp add: getNextElement_def parseElement_def strip_markers_def split_attributes_def add_name_def
      Parser_file_def elem_is_def t_find_def chr_def) (simp add: p_def elem_clear_def Element_def chr_def)
  then obtain p' where "findNextElement 1 [97] False (Parser_file ?T 0) = Inr (True, p')" by (auto simp: findNextElement_def)
  then show ?thesis using xml_file_refines_text [OF T, of 1 "[97]" False True p'] by auto
qed

end
