(* ===== verification/Xml_Props.thy ===== *)
theory Xml_Props
  imports Xml
begin

text \<open>
  What the pull parser promises: the search by name finds the first matching tag, and reading a
  file in blocks gives what the whole text gives. The last property collects the inputs on which
  it does not.
\<close>

section \<open>The search by name\<close>

definition doc_text :: "(bytes \<times> bool \<times> bytes) list \<Rightarrow> bytes \<Rightarrow> bytes" where
  "doc_text ds tail = concat (map (\<lambda>(pre, closing, n). pre @ tag_text closing n) ds) @ tail"

definition doc_ok :: "(bytes \<times> bool \<times> bytes) list \<Rightarrow> bool" where
  "doc_ok ds \<longleftrightarrow> (\<forall>(pre, closing, n) \<in> set ds. chr CHR ''<'' \<notin> set pre \<and> plain_name n)"

text \<open>The first matching tag and what follows it.\<close>

definition from_match :: "bytes \<Rightarrow> bool \<Rightarrow> (bytes \<times> bool \<times> bytes) list \<Rightarrow> (bytes \<times> bool \<times> bytes) list" where
  "from_match name c ds = dropWhile (\<lambda>(pre, closing, n). \<not> (n = name \<and> closing = c)) ds"

lemma find_in_doc:
  "ahead_of p (doc_text ds tail) \<Longrightarrow> x_xml_file p = None \<Longrightarrow> doc_ok ds \<Longrightarrow> chr CHR ''<'' \<notin> set tail \<Longrightarrow>
   \<exists>p'. findElement getNextElement (length ds + 1) name c p = Inr (from_match name c ds \<noteq> [], p')
     \<and> (from_match name c ds \<noteq> [] \<longrightarrow> on_tag c name (doc_text (tl (from_match name c ds)) tail) p')"
proof (induction ds arbitrary: p)
  case Nil
  then show ?case using no_more [of p tail] by (auto simp: doc_text_def from_match_def)
next
  case (Cons d ds)
  obtain pre closing n where d: "d = (pre, closing, n)" by (cases d)
  have ok: "chr CHR ''<'' \<notin> set pre" "plain_name n" "doc_ok ds" using Cons.prems(3) by (auto simp: doc_ok_def d)
  have "ahead_of p (pre @ tag_text closing n @ doc_text ds tail)" using Cons.prems(1) by (simp add: doc_text_def d)
  then obtain p' where p': "getNextElement p = Inr (True, p')" "on_tag closing n (doc_text ds tail) p'" "x_xml_file p' = None"
    using next_tag [OF _ ok(1,2)] Cons.prems(2) by metis
  have el: "elem_is name c p' \<longleftrightarrow> n = name \<and> closing = c" using p'(2) by (simp add: elem_is_def on_tag_def)
  show ?case
  proof (cases "n = name \<and> closing = c")
    case True
    then have "from_match name c (d # ds) = d # ds" by (simp add: from_match_def d)
    then show ?thesis using p' el True by simp
  next
    case False
    then have "from_match name c (d # ds) = from_match name c ds" by (simp add: from_match_def d)
    moreover have "ahead_of p' (doc_text ds tail)" using p'(2) by (simp add: on_tag_def)
    ultimately show ?thesis using Cons.IH [OF _ p'(3) ok(3) Cons.prems(4)] p'(1) el False by simp
  qed
qed

text \<open>
  C19. In a text of tags with plain names and any text between them, \<open>findNextElement\<close> stops behind
  the first tag with the wanted name and kind, and returns null if and only if there is none.
\<close>

theorem xml_find_element:
  assumes "doc_ok ds" "chr CHR ''<'' \<notin> set tail" "0 \<notin> set (doc_text ds tail)" "length (doc_text ds tail) < 2 ^ 31"
  shows "\<exists>p. findNextElement (length ds + 1) name c (Parser (doc_text ds tail)) = Inr (from_match name c ds \<noteq> [], p)
    \<and> (from_match name c ds \<noteq> [] \<longrightarrow> e_name (x_element p) = name \<and> e_is_closing (x_element p) = c
        \<and> ahead_of p (doc_text (tl (from_match name c ds)) tail))"
proof -
  have "ahead_of (Parser (doc_text ds tail)) (doc_text ds tail)" using assms(3,4) by (simp add: ahead_of_def Parser_def)
  moreover have "x_xml_file (Parser (doc_text ds tail)) = None" by (simp add: Parser_def)
  ultimately show ?thesis using find_in_doc [OF _ _ assms(1,2)] unfolding findNextElement_def on_tag_def by blast
qed

theorem xml_find_element_witness:
  "\<exists>p. findNextElement 3 [98] False (Parser (lit ''<a>x<b>'')) = Inr (True, p) \<and> e_name (x_element p) = [98]"
proof -
  let ?ds = "[([], False, [97]), ([120], False, [98])]"
  have t: "doc_text ?ds [] = lit ''<a>x<b>''" by (simp add: doc_text_def tag_text_def lit_def chr_def)
  have "doc_ok ?ds" "0 \<notin> set (doc_text ?ds [])" by (simp_all add: doc_ok_def plain_name_def t) (simp_all add: chr_def lit_def)
  note found = xml_find_element [OF this(1) _ this(2), of "[98]" False]
  have "length ?ds + 1 = 3" "length (lit ''<a>x<b>'') < 2 ^ 31" by (simp_all add: lit_def)
  with found [unfolded this(1) t] show ?thesis by (auto simp: from_match_def)
qed

section \<open>Defects\<close>

definition loop_elem :: xelem where
  "loop_elem = (Element False)\<lparr>e_has_attributes := True, e_attributes := lit [CHR ''a'', CHR ''='', CHR 0x27, CHR ''1'', CHR 0x27, CHR '' '', CHR ''b'', CHR ''='', CHR 0x27, CHR ''2'', CHR 0x27]\<rparr>"

definition loop_at :: "nat \<Rightarrow> u8 \<Rightarrow> u8 \<Rightarrow> xelem" where
  "loop_at k n v = loop_elem\<lparr>e_apos := k, e_attr_name := [n], e_attr_value := [v]\<rparr>"

lemmas attr_eval = getNextAttribute_def attr_value_def t_find_def t_mid_def t_from_def is_quote_def c_isspace_def lit_def chr_def Let_def

definition empty_attr :: xelem where
  "empty_attr = (Element False)\<lparr>e_has_attributes := True, e_attributes := lit [CHR ''a'', CHR ''='', CHR 0x22, CHR 0x22, CHR '' '', CHR ''b'']\<rparr>"

lemma empty_attr_step: "getNextAttribute empty_attr = Inr (True, empty_attr\<lparr>e_attr_name := [97], e_attr_value := [34, 32, 98], e_apos := 5\<rparr>)"
  by (simp add: empty_attr_def Element_def attr_eval)

definition crlf_tag :: bytes where
  "crlf_tag = [116, 32, 97, 61, 49, 13, 10, 98]"

lemma crlf_elem:
  "\<exists>e. tag_elem crlf_tag (Element False) = Inr e \<and> e_has_attributes e \<and> e_apos e = 0 \<and> e_attributes e = [97, 61, 49, 98]"
  by (simp add: crlf_tag_def tag_elem_def strip_markers_def split_attributes_def elem_clear_def Element_def t_replace_def
    t_find_def t_mid_def t_from_def chr_def Let_def)

lemma loop_step:
  "getNextAttribute (loop_at 6 97 49) = Inr (True, loop_at 12 98 50)"
  "getNextAttribute (loop_at 12 98 50) = Inr (False, loop_at 12 98 50)"
  "getNextAttribute ((loop_at 12 98 50)\<lparr>e_apos := 0\<rparr>) = Inr (True, loop_at 6 97 49)"
  "getNextAttribute loop_elem = Inr (True, loop_at 6 97 49)"
  by (simp_all add: loop_at_def loop_elem_def Element_def attr_eval)

lemma loop_forever:
  "find_attr_loop n 6 [99] True (loop_at 12 98 50) = Inl Out_Of_Fuel \<and> find_attr_loop n 6 [99] True (loop_at 6 97 49) = Inl Out_Of_Fuel"
proof (induction n)
  case (Suc n)
  have "e_attr_name (loop_at k n v) = [n]" "e_apos (loop_at k n v) = k" for k n v by (simp_all add: loop_at_def)
  then show ?case using Suc by (simp add: loop_step)
qed simp


text \<open>A file whose first block ends between the name of a tag and its closing bracket.\<close>

definition split_file :: bytes where
  "split_file = replicate 1022 32 @ lit ''<a>b''"

lemma block_bound: "\<exists>p. getNextElement (Parser_file split_file 0) = Inr (True, p) \<and> e_name (x_element p) = lit ''a>b''"
proof -
  define q where "q = (Parser_file split_file 0)\<lparr>x_element := elem_clear (Element False),
    x_xml := replicate 1022 32 @ [60, 97], x_xml_file := Some (split_file, 1024)\<rparr>"
  have "length split_file = 1026" by (simp add: split_file_def lit_def)
  then have ne: "split_file \<noteq> []" "min (length split_file) 1024 = 1024" "\<not> length split_file \<le> 1024"
    "min (length split_file - 1024) 1024 = 2" by auto
  have "take 1024 split_file = replicate 1022 32 @ [60, 97]" "drop 1024 split_file = [62, 98]"
    by (simp_all add: split_file_def lit_def)
  note blocks = this
  have "x_xml_file (Parser_file split_file 0) = Some (split_file, 0)" "x_element (Parser_file split_file 0) = Element False"
    by (simp_all add: Parser_file_def)
  then have g: "getXML False ((Parser_file split_file 0)\<lparr>x_element := elem_clear (Element False)\<rparr>) = (True, q)"
    by (simp add: getXML_def file_read_def blocks q_def Parser_file_def ne)
  have "t_find 60 0 (x_xml q) = Inr 1022"
    using t_find_simps(2) [of 0 "x_xml q" "replicate 1022 32" 60 "[97]"] by (simp add: q_def)
  then have f: "find_tag q = Inr (Some 1022, q)" by (simp add: find_tag.simps [of q] chr_def) (simp add: q_def Parser_file_def)
  define q1 where "q1 = q\<lparr>x_pos := 1023\<rparr>"
  define q2 where "q2 = (add_name [97] q1)\<lparr>x_pos := 0, x_xml := [62, 98], x_xml_file := Some (split_file, 1026)\<rparr>"
  have g2: "getXML False (add_name [97] q1) = (True, q2)"
    by (simp add: getXML_def file_read_def blocks ne q1_def q2_def q_def add_name_def)
  have d: "drop 1023 (x_xml q1) = [97]" "length (x_xml q1) = 1024" by (simp_all add: q1_def q_def)
  have "tag_name q1 = tag_name q2"
    using d g2 by (subst tag_name.simps)
      (simp add: t_find_def t_from_def t_mid_def chr_def add_name_def q1_def q_def Parser_file_def elem_clear_def)
  also have "\<dots> = Inr ((add_name [62, 98] q2)\<lparr>x_pos := 1\<rparr>)"
    by (subst tag_name.simps) (simp add: t_find_def t_mid_def chr_def q2_def add_name_def)
  finally have "\<exists>p. parseElement q1 = Inr p \<and> e_name (x_element p) = [97, 62, 98]"
    by (simp add: parseElement_def strip_markers_def split_attributes_def t_find_def add_name_def q2_def q1_def q_def
      elem_clear_def Element_def chr_def)
  then show ?thesis using g f
    by (auto simp: getNextElement_def Parser_file_def q1_def lit_def Let_def)
qed

lemma empty_content:
  assumes "ahead_of p (chr CHR ''<'' # R)" "e_content (x_element p) = []"
  shows "\<exists>q. getContent p = Inr (chr CHR ''<'' # R, q)"
proof -
  have "t_find (chr CHR ''<'') (int (x_pos p)) (x_xml p) = Inr (int (x_pos p))"
    using ahead_of_find [of p "[]"] assms(1) by simp
  moreover have "t_mid (int (x_pos p)) 0 (x_xml p) = Inr (chr CHR ''<'' # R)" using assms(1) by (auto simp: t_mid_def ahead_of_def)
  ultimately show ?thesis using assms(2) by (simp add: getContent_def parseContent.simps [of p]) (simp add: add_content_def)
qed

text \<open>
  Where the parser goes wrong: an empty attribute value becomes the rest of the attributes, a
  carriage return with a line feed between two attributes joins them, a search for an attribute
  that is absent never ends when it starts behind the first one, the content of an empty element
  is the rest of the text, and a closing bracket at the start of a block of a file becomes part
  of the name together with the block.
\<close>

theorem xml_defects:
  "(\<exists>e. getNextAttribute empty_attr = Inr (True, e) \<and> e_attr_value e = lit [CHR 0x22, CHR '' '', CHR ''b''])
    \<and> (\<exists>p e. getNextElement (Parser (lit ''<'' @ crlf_tag @ lit ''>'')) = Inr (True, p)
        \<and> getNextAttribute (x_element p) = Inr (True, e) \<and> e_attr_value e = lit ''1b'')
    \<and> (\<exists>e. getNextAttribute loop_elem = Inr (True, e) \<and> (\<forall>n. findAttribute n (lit ''c'') e = Inl Out_Of_Fuel))
    \<and> (\<exists>p q. getNextElement (Parser (lit ''<a></a>'')) = Inr (True, p) \<and> getContent p = Inr (lit ''</a>'', q))
    \<and> (\<exists>p. getNextElement (Parser_file split_file 0) = Inr (True, p) \<and> e_name (x_element p) = lit ''a>b'')"
proof (intro conjI)
  show "\<exists>e. getNextAttribute empty_attr = Inr (True, e) \<and> e_attr_value e = lit [CHR 0x22, CHR '' '', CHR ''b'']"
    by (simp add: empty_attr_step lit_def)
  show "\<exists>p e. getNextElement (Parser (lit ''<'' @ crlf_tag @ lit ''>'')) = Inr (True, p)
        \<and> getNextAttribute (x_element p) = Inr (True, e) \<and> e_attr_value e = lit ''1b''"
  proof -
    obtain e where e: "tag_elem crlf_tag (Element False) = Inr e" "e_has_attributes e" "e_apos e = 0" "e_attributes e = [97, 61, 49, 98]"
      using crlf_elem by blast
    have "ahead_of (Parser (lit ''<'' @ crlf_tag @ lit ''>'')) ([] @ chr CHR ''<'' # crlf_tag @ chr CHR ''>'' # [])"
      by (simp add: ahead_of_def Parser_def lit_def chr_def crlf_tag_def)
    from read_tag [OF this, of e] e(1)
    have "\<exists>p. getNextElement (Parser (lit ''<'' @ crlf_tag @ lit ''>'')) = Inr (True, p) \<and> x_element p = e"
      by (auto simp: crlf_tag_def Parser_def) (auto simp: chr_def)
    moreover have "\<exists>e'. getNextAttribute e = Inr (True, e') \<and> e_attr_value e' = [49, 98]"
      using e by (simp add: getNextAttribute_def attr_value_def t_find_def t_mid_def t_from_def is_quote_def c_isspace_def chr_def)
    ultimately show ?thesis by (auto simp: lit_def)
  qed
  have "findAttribute n (lit ''c'') (loop_at 6 97 49) = Inl Out_Of_Fuel" for n
    using loop_forever [of n] by (simp add: findAttribute_def loop_step lit_def) (simp add: loop_at_def)
  then show "\<exists>e. getNextAttribute loop_elem = Inr (True, e) \<and> (\<forall>n. findAttribute n (lit ''c'') e = Inl Out_Of_Fuel)"
    by (simp add: loop_step)
  show "\<exists>p q. getNextElement (Parser (lit ''<a></a>'')) = Inr (True, p) \<and> getContent p = Inr (lit ''</a>'', q)"
  proof -
    have "ahead_of (Parser (lit ''<a></a>'')) ([] @ tag_text False [97] @ lit ''</a>'')"
      by (simp add: ahead_of_def Parser_def tag_text_def lit_def chr_def)
    then obtain p where p: "getNextElement (Parser (lit ''<a></a>'')) = Inr (True, p)" "on_tag False [97] (lit ''</a>'') p"
      using next_tag [of _ "[]" False "[97]"] by (auto simp: plain_name_def) (auto simp: chr_def)
    have "lit ''</a>'' = chr CHR ''<'' # [47, 97, 62]" by (simp add: lit_def chr_def)
    then show ?thesis using p empty_content [of p "[47, 97, 62]"] by (auto simp: on_tag_def)
  qed
  show "\<exists>p. getNextElement (Parser_file split_file 0) = Inr (True, p) \<and> e_name (x_element p) = lit ''a>b''"
    by (rule block_bound)
qed

end
