(* ===== verification/DateTime.thy ===== *)
theory DateTime
  imports Date
begin

text \<open>
  \<open>Time\<close> and \<open>DateTime\<close> (src/Time.cpp, src/DateTime.cpp): the seconds since midnight, and a date
  with them. The model is of whole seconds within an \<open>int32\<close>: the doubles of the code are exact
  there, and so is its single-precision product of days and 86400 (\<open>days * 675 < 2 ^ 24\<close>). A
  conversion of a negative value to an unsigned type, undefined in C++, is an error. The clock, time
  zones and text formatting are left out.
\<close>

section \<open>Time\<close>

definition undefined_conversion :: "'a res" where
  "undefined_conversion = Inl (Thrown ''undefined conversion'')"

definition to_uint32 :: "int \<Rightarrow> int res" where
  "to_uint32 x = (if x < 0 then undefined_conversion else Inr x)"

definition time_of_tm :: "int \<Rightarrow> int \<Rightarrow> int \<Rightarrow> int" where
  "time_of_tm tm_hour tm_min tm_sec = tm_hour * 3600 + tm_min * 60 + tm_sec"

definition time_of_ts :: "int \<Rightarrow> int" where
  "time_of_ts ts = (if 86400 < ts then ts smod 86400 else ts)"

definition time_of_hms :: "int \<Rightarrow> int \<Rightarrow> int \<Rightarrow> int" where
  "time_of_hms hour minute second = w8 hour * 3600 + w8 minute * 60 + second"

text \<open>The cast to eight bits binds closer than the remainder.\<close>

definition time_hour :: "int \<Rightarrow> int res" where
  "time_hour t = bindR (to_uint32 (t sdiv 3600)) (\<lambda>h. Inr (w8 h smod 24))"

definition time_minute :: "int \<Rightarrow> int" where
  "time_minute t = w8 (t sdiv 60 smod 60)"

definition time_second :: "int \<Rightarrow> int res" where
  "time_second t = bindR (to_uint32 t) (\<lambda>itime. Inr (itime mod 60))"

definition time_addToHour :: "int \<Rightarrow> int \<Rightarrow> int" where
  "time_addToHour hours t = t + s32 (hours * 3600)"

definition time_addToMinute :: "int \<Rightarrow> int \<Rightarrow> int" where
  "time_addToMinute minutes t = t + s32 (minutes * 60)"

definition time_isValid :: "int \<Rightarrow> bool" where
  "time_isValid t = (if 0 < t \<and> t < 86400 then True else False)"

definition time_toTM :: "int \<Rightarrow> (int \<times> int \<times> int) res" where
  "time_toTM t = bindR (time_hour t) (\<lambda>h. bindR (time_second t) (\<lambda>s. Inr (h, time_minute t, s)))"

text \<open>\<open>rescale\<close> returns the days to add, and the time that is left.\<close>

definition time_rescale :: "int \<Rightarrow> int \<times> int" where
  "time_rescale t = (if 86400 < t \<or> t < 0 then (let new_days = t sdiv 86400 in (new_days, t - new_days * 86400)) else (0, t))"

definition time_plus :: "int \<Rightarrow> int \<Rightarrow> int" where
  "time_plus t1 t2 = t1 + t2"

definition time_minus :: "int \<Rightarrow> int \<Rightarrow> int" where
  "time_minus t1 t2 = t1 - t2"

section \<open>DateTime\<close>

record datetime =
  dt_date :: date
  dt_time :: int

text \<open>\<open>Date::addToDay(Time::rescale())\<close>, with which every operation ends.\<close>

definition dt_rescale :: "datetime \<Rightarrow> datetime" where
  "dt_rescale dt = (case time_rescale (dt_time dt) of (days, t) \<Rightarrow>
     dt\<lparr>dt_date := date_addDays days (dt_date dt), dt_time := t\<rparr>)"

definition datetime_of_ymd :: "int \<Rightarrow> int \<Rightarrow> int \<Rightarrow> int \<Rightarrow> int \<Rightarrow> int \<Rightarrow> datetime" where
  "datetime_of_ymd day month year hour minute second =
     \<lparr>dt_date = date_of_ymd day month year, dt_time = time_of_hms hour minute second\<rparr>"

definition datetime_of :: "int \<Rightarrow> int \<Rightarrow> datetime" where
  "datetime_of sec julian_days = dt_rescale \<lparr>dt_date = date_of_julian julian_days, dt_time = sec\<rparr>"

definition datetime_of_tm :: "int \<Rightarrow> int \<Rightarrow> int \<Rightarrow> int \<Rightarrow> int \<Rightarrow> int \<Rightarrow> datetime" where
  "datetime_of_tm tm_mday tm_mon tm_year tm_hour tm_min tm_sec =
     dt_rescale \<lparr>dt_date = date_of_tm tm_mday tm_mon tm_year, dt_time = time_of_tm tm_hour tm_min tm_sec\<rparr>"

definition datetime_assign :: "datetime \<Rightarrow> datetime \<Rightarrow> datetime" where
  "datetime_assign d dt = dt\<lparr>dt_time := dt_time d, dt_date := update_ymd ((dt_date dt)\<lparr>d_julian := d_julian (dt_date d)\<rparr>)\<rparr>"

definition dt_addToHour :: "int \<Rightarrow> datetime \<Rightarrow> datetime" where
  "dt_addToHour hours dt = dt_rescale (dt\<lparr>dt_time := time_addToHour hours (dt_time dt)\<rparr>)"

definition dt_addToMinute :: "int \<Rightarrow> datetime \<Rightarrow> datetime" where
  "dt_addToMinute minutes dt = dt_rescale (dt\<lparr>dt_time := time_addToMinute minutes (dt_time dt)\<rparr>)"

definition dt_isValid :: "datetime \<Rightarrow> bool" where
  "dt_isValid dt \<longleftrightarrow> time_isValid (dt_time dt) \<and> date_isValid (dt_date dt)"

definition dt_incr :: "datetime \<Rightarrow> datetime" where
  "dt_incr dt = dt_rescale (dt\<lparr>dt_time := dt_time dt + 1\<rparr>)"

definition dt_decr :: "datetime \<Rightarrow> datetime" where
  "dt_decr dt = dt_rescale (dt\<lparr>dt_time := dt_time dt - 1\<rparr>)"

definition dt_add_assign :: "datetime \<Rightarrow> datetime \<Rightarrow> datetime" where
  "dt_add_assign t dt = dt_rescale (dt\<lparr>dt_date := (dt_date dt)\<lparr>d_julian := s32 (d_julian (dt_date dt) + d_julian (dt_date t))\<rparr>,
     dt_time := dt_time dt + dt_time t\<rparr>)"

definition dt_sub_assign :: "datetime \<Rightarrow> datetime \<Rightarrow> datetime" where
  "dt_sub_assign t dt = dt_rescale (dt\<lparr>dt_date := (dt_date dt)\<lparr>d_julian := s32 (d_julian (dt_date dt) - d_julian (dt_date t))\<rparr>,
     dt_time := dt_time dt - dt_time t\<rparr>)"

definition dt_add_seconds :: "int \<Rightarrow> datetime \<Rightarrow> datetime" where
  "dt_add_seconds seconds dt = dt_rescale (dt\<lparr>dt_time := dt_time dt + seconds\<rparr>)"

definition dt_sub_seconds :: "int \<Rightarrow> datetime \<Rightarrow> datetime" where
  "dt_sub_seconds seconds dt = dt_rescale (dt\<lparr>dt_time := dt_time dt - seconds\<rparr>)"

text \<open>The free operators.\<close>

definition dt_plus :: "datetime \<Rightarrow> datetime \<Rightarrow> datetime" where
  "dt_plus t1 t2 = datetime_of (dt_time t1 + dt_time t2) (s32 (d_julian (dt_date t1) + d_julian (dt_date t2)))"

definition dt_plus_seconds :: "datetime \<Rightarrow> int \<Rightarrow> datetime" where
  "dt_plus_seconds t1 seconds = datetime_of (dt_time t1 + seconds) (d_julian (dt_date t1))"

definition seconds_plus_dt :: "int \<Rightarrow> datetime \<Rightarrow> datetime" where
  "seconds_plus_dt seconds t1 = datetime_of (seconds + dt_time t1) (d_julian (dt_date t1))"

definition dt_minus :: "datetime \<Rightarrow> datetime \<Rightarrow> datetime" where
  "dt_minus t1 t2 = datetime_of (dt_time t1 - dt_time t2) (s32 (d_julian (dt_date t1) - d_julian (dt_date t2)))"

definition dt_minus_seconds :: "datetime \<Rightarrow> int \<Rightarrow> datetime" where
  "dt_minus_seconds t1 seconds = datetime_of (dt_time t1 - seconds) (d_julian (dt_date t1))"

definition seconds_minus_dt :: "int \<Rightarrow> datetime \<Rightarrow> datetime" where
  "seconds_minus_dt seconds t1 = datetime_of (seconds - dt_time t1) (d_julian (dt_date t1))"

definition dt_eq :: "datetime \<Rightarrow> datetime \<Rightarrow> bool" where
  "dt_eq dt1 dt2 \<longleftrightarrow> dt_time dt1 = dt_time dt2 \<and> d_julian (dt_date dt1) = d_julian (dt_date dt2)"

definition dt_ne :: "datetime \<Rightarrow> datetime \<Rightarrow> bool" where
  "dt_ne dt1 dt2 \<longleftrightarrow> dt_time dt1 \<noteq> dt_time dt2 \<and> d_julian (dt_date dt1) = d_julian (dt_date dt2)"

definition dt_lt :: "datetime \<Rightarrow> datetime \<Rightarrow> bool" where
  "dt_lt dt1 dt2 \<longleftrightarrow> dt_time dt1 < dt_time dt2 \<and> d_julian (dt_date dt1) = d_julian (dt_date dt2)"

definition dt_le :: "datetime \<Rightarrow> datetime \<Rightarrow> bool" where
  "dt_le dt1 dt2 \<longleftrightarrow> dt_time dt1 \<le> dt_time dt2 \<and> d_julian (dt_date dt1) = d_julian (dt_date dt2)"

definition dt_gt :: "datetime \<Rightarrow> datetime \<Rightarrow> bool" where
  "dt_gt dt1 dt2 \<longleftrightarrow> dt_time dt1 > dt_time dt2 \<and> d_julian (dt_date dt1) = d_julian (dt_date dt2)"

definition dt_ge :: "datetime \<Rightarrow> datetime \<Rightarrow> bool" where
  "dt_ge dt1 dt2 \<longleftrightarrow> dt_time dt1 \<ge> dt_time dt2 \<and> d_julian (dt_date dt1) = d_julian (dt_date dt2)"

section \<open>Seconds are kept\<close>

text \<open>Seconds from day zero.\<close>

definition stamp :: "datetime \<Rightarrow> int" where
  "stamp dt = 86400 * d_julian (dt_date dt) + dt_time dt"

lemma rescale_nonneg: "0 \<le> t \<Longrightarrow> time_rescale t = (if 86400 < t then (t div 86400, t mod 86400) else (0, t))"
  by (auto simp: time_rescale_def sdiv_nonneg minus_div_mult_eq_mod Let_def)

lemma rescale_total:
  assumes "time_rescale t = (n, r)"
  shows "86400 * n + r = t" "\<bar>n\<bar> \<le> \<bar>t\<bar>" "0 \<le> t \<Longrightarrow> 0 \<le> r \<and> r \<le> 86400" "t < 0 \<Longrightarrow> - 86400 < r \<and> r \<le> 0"
proof -
  have neg: "t sdiv 86400 = - ((- t) div 86400)" if "t < 0" using that by (simp add: signed_divide_int_def sgn_if)
  show "86400 * n + r = t" using assms by (auto simp: time_rescale_def Let_def split: if_splits)
  show "\<bar>n\<bar> \<le> \<bar>t\<bar>" using assms neg div_within [of "\<bar>t\<bar>" 86400]
    by (auto simp: time_rescale_def sdiv_nonneg Let_def split: if_splits)
  show "0 \<le> r \<and> r \<le> 86400" if "0 \<le> t"
    using assms that pos_mod_bound [of 86400 t] pos_mod_sign [of 86400 t] by (auto simp: rescale_nonneg split: if_splits)
  show "- 86400 < r \<and> r \<le> 0" if "t < 0"
  proof -
    have "r = t + ((- t) div 86400) * 86400" using assms that neg by (auto simp: time_rescale_def Let_def)
    then have "- r = (- t) mod 86400" by (simp add: minus_div_mult_eq_mod [symmetric])
    then show ?thesis using pos_mod_bound [of 86400 "- t"] pos_mod_sign [of 86400 "- t"] by linarith
  qed
qed

lemma julian_update_ymd [simp]: "d_julian (update_ymd d) = d_julian d" "update_ymd (update_ymd d) = update_ymd d"
  by (cases d, simp only: update_ymd_def Let_def date.simps)+

lemma dt_rescale_ok:
  assumes "\<bar>d_julian (dt_date dt)\<bar> < 2 ^ 30" "\<bar>dt_time dt\<bar> < 2 ^ 30"
  shows "stamp (dt_rescale dt) = stamp dt" "0 \<le> dt_time dt \<Longrightarrow> 0 \<le> dt_time (dt_rescale dt) \<and> dt_time (dt_rescale dt) \<le> 86400"
    "dt_date (dt_rescale dt) = update_ymd (dt_date (dt_rescale dt))"
proof -
  obtain n r where nr: "time_rescale (dt_time dt) = (n, r)" by (cases "time_rescale (dt_time dt)")
  note t = rescale_total [OF nr]
  have "s32 (d_julian (dt_date dt) + n) = d_julian (dt_date dt) + n" using assms t(2) by (intro wraps) auto
  then show "stamp (dt_rescale dt) = stamp dt" using nr t(1) by (simp add: dt_rescale_def stamp_def date_addDays_def algebra_simps)
  show "0 \<le> dt_time (dt_rescale dt) \<and> dt_time (dt_rescale dt) \<le> 86400" if "0 \<le> dt_time dt"
    using nr t(3) [OF that] by (simp add: dt_rescale_def)
  show "dt_date (dt_rescale dt) = update_ymd (dt_date (dt_rescale dt))"
    using nr by (simp add: dt_rescale_def date_addDays_def)
qed

lemma clock_reading:
  assumes "0 \<le> t" "t < 86400"
  shows "time_hour t = Inr (t div 3600)" "time_minute t = t div 60 mod 60" "time_second t = Inr (t mod 60)"
proof -
  have h: "0 \<le> t div 3600" "t div 3600 < 24" using assms by (simp_all add: pos_imp_zdiv_nonneg_iff div_less_iff_less_mult)
  then have "w8 (t div 3600) = t div 3600" by (simp add: w8_def)
  then show "time_hour t = Inr (t div 3600)" using assms h by (simp add: time_hour_def to_uint32_def sdiv_nonneg signed_modulo_int_def sgn_if)
  have m: "0 \<le> t div 60" "0 \<le> t div 60 mod 60" "t div 60 mod 60 < 60" using assms by (simp_all add: pos_imp_zdiv_nonneg_iff)
  have "t div 60 smod 60 = t div 60 mod 60" using m(1) by (simp add: signed_modulo_int_def sgn_if)
  then show "time_minute t = t div 60 mod 60" using assms m by (simp add: time_minute_def sdiv_nonneg w8_def)
  show "time_second t = Inr (t mod 60)" using assms by (simp add: time_second_def to_uint32_def)
qed

text \<open>
  Adding and subtracting seconds keeps the total number of seconds, and as long as the time of
  day does not become negative it ends in a day with the date that belongs to its day number and
  a clock that reads its hours, minutes and seconds.
\<close>

theorem datetime_seconds:
  assumes "\<bar>d_julian (dt_date dt)\<bar> < 2 ^ 30" "0 \<le> dt_time dt" "dt_time dt \<le> 86400" "\<bar>s\<bar> < 2 ^ 29"
  shows "stamp (dt_add_seconds s dt) = stamp dt + s \<and> stamp (dt_sub_seconds s dt) = stamp dt - s
    \<and> (0 \<le> dt_time dt + s \<longrightarrow> (let dt' = dt_add_seconds s dt in 0 \<le> dt_time dt' \<and> dt_time dt' \<le> 86400
        \<and> dt_date dt' = update_ymd (dt_date dt')
        \<and> (dt_time dt' < 86400 \<longrightarrow> time_toTM (dt_time dt')
            = Inr ((stamp dt + s) mod 86400 div 3600, (stamp dt + s) mod 86400 div 60 mod 60, (stamp dt + s) mod 86400 mod 60))))"
proof (intro conjI impI)
  define a b where "a = dt\<lparr>dt_time := dt_time dt + s\<rparr>" and "b = dt\<lparr>dt_time := dt_time dt - s\<rparr>"
  have ab: "\<bar>d_julian (dt_date a)\<bar> < 2 ^ 30" "\<bar>dt_time a\<bar> < 2 ^ 30" "\<bar>d_julian (dt_date b)\<bar> < 2 ^ 30" "\<bar>dt_time b\<bar> < 2 ^ 30"
    "stamp a = stamp dt + s" "stamp b = stamp dt - s" using assms by (auto simp: a_def b_def stamp_def)
  have ra: "dt_add_seconds s dt = dt_rescale a" and rb: "dt_sub_seconds s dt = dt_rescale b"
    by (simp_all add: dt_add_seconds_def dt_sub_seconds_def a_def b_def)
  show st: "stamp (dt_add_seconds s dt) = stamp dt + s" using dt_rescale_ok(1) [OF ab(1,2)] ab(5) ra by simp
  show "stamp (dt_sub_seconds s dt) = stamp dt - s" using dt_rescale_ok(1) [OF ab(3,4)] ab(6) rb by simp
  assume "0 \<le> dt_time dt + s"
  then have n: "0 \<le> dt_time (dt_rescale a) \<and> dt_time (dt_rescale a) \<le> 86400"
    using dt_rescale_ok(2) [OF ab(1,2)] by (simp add: a_def)
  have "dt_time (dt_rescale a) = (stamp dt + s) mod 86400" if "dt_time (dt_rescale a) < 86400"
    using st n that unfolding ra stamp_def [of "dt_rescale a"] by (metis mod_mult_self4 mod_pos_pos_trivial)
  then show "let dt' = dt_add_seconds s dt in 0 \<le> dt_time dt' \<and> dt_time dt' \<le> 86400 \<and> dt_date dt' = update_ymd (dt_date dt')
        \<and> (dt_time dt' < 86400 \<longrightarrow> time_toTM (dt_time dt')
            = Inr ((stamp dt + s) mod 86400 div 3600, (stamp dt + s) mod 86400 div 60 mod 60, (stamp dt + s) mod 86400 mod 60))"
    using n dt_rescale_ok(3) [OF ab(1,2)] clock_reading [of "dt_time (dt_rescale a)"] unfolding ra Let_def
    by (auto simp: time_toTM_def)
qed

theorem datetime_seconds_witness:
  "stamp (dt_add_seconds 7200 (datetime_of_ymd 31 12 1999 23 0 0)) = stamp (datetime_of_ymd 31 12 1999 23 0 0) + 7200"
  using datetime_seconds [of "datetime_of_ymd 31 12 1999 23 0 0" 7200]
  by (simp add: datetime_of_ymd_def time_of_hms_def date_of_ymd_julian valid_ymd_def month_days_def mmonth_def myear_def
    month_start_def year_start_def)

text \<open>
  What goes wrong at midnight and between days: going back before midnight leaves a negative time on
  the same date; the end of a day is not carried to the next date, so its clock reads midnight of the day before;
  and no comparison but equality sees two different days, not even \<open>!=\<close>.
\<close>

theorem datetime_defects:
  assumes "\<bar>d_julian d\<bar> < 2 ^ 30"
  shows "dt_sub_seconds 20 \<lparr>dt_date = d, dt_time = 10\<rparr> = \<lparr>dt_date = update_ymd d, dt_time = - 10\<rparr>
    \<and> time_second (- 10) = undefined_conversion
    \<and> dt_add_seconds 1 \<lparr>dt_date = d, dt_time = 86399\<rparr> = \<lparr>dt_date = update_ymd d, dt_time = 86400\<rparr>
    \<and> time_toTM 86400 = Inr (0, 0, 0)
    \<and> (d_julian d \<noteq> d_julian e \<longrightarrow> \<not> dt_lt \<lparr>dt_date = d, dt_time = s\<rparr> \<lparr>dt_date = e, dt_time = t\<rparr>
        \<and> \<not> dt_gt \<lparr>dt_date = d, dt_time = s\<rparr> \<lparr>dt_date = e, dt_time = t\<rparr>
        \<and> \<not> dt_ne \<lparr>dt_date = d, dt_time = s\<rparr> \<lparr>dt_date = e, dt_time = t\<rparr>)"
proof -
  have "s32 (d_julian d) = d_julian d" using assms by (intro wraps) auto
  then show ?thesis
    by (simp add: dt_sub_seconds_def dt_add_seconds_def dt_rescale_def time_rescale_def date_addDays_def time_second_def
      to_uint32_def undefined_conversion_def time_toTM_def time_hour_def time_minute_def w8_def dt_lt_def dt_gt_def dt_ne_def signed_divide_int_def sgn_if
      signed_modulo_int_def)
qed

theorem datetime_defects_witness:
  "dt_sub_seconds 20 \<lparr>dt_date = date_blank, dt_time = 10\<rparr> = \<lparr>dt_date = update_ymd date_blank, dt_time = - 10\<rparr>"
  using datetime_defects [of date_blank date_blank 0 0] by (simp add: date_blank_def)

end
