(* ===== verification/Rpc.thy ===== *)
theory Rpc
  imports Xml Dict_Ops B64 DateTime
begin

text \<open>
  \<open>SRL::RPC\<close> values (src/rpc/RpcValue.cpp, include/srl/rpc/RpcValue.h): the tagged value with its
  text and its union, structures, arrays and binary values, how they are printed as XML and read
  from the pull parser. \<open>Null\<close> is the null pointer. A structure is the list of pairs that its
  dictionary refines, in the order of insertion. The conversion of a double to and from text is
  the parameter \<open>dbl\<close> (its value as an int) or an argument; \<open>strftime\<close> and \<open>sscanf\<close> are modelled for
  the one format that is used.
\<close>

section \<open>Values\<close>

datatype rtype = TypeInvalid | TypeBoolean | TypeInt | TypeDouble | TypeString | TypeDateTime | TypeBase64 | TypeNull
  | TypeArray | TypeStruct

text \<open>The member of the union written last; a cleared union is the null pointer.\<close>

datatype runion = AsBool bool | AsInt u32 | AsDateTime "datetime option"

record rbase =
  r_type :: rtype
  r_str :: bytes
  r_value :: runion

datatype rpc_value = Null | Value rbase | Struct rbase "(bytes \<times> rpc_value) list" | Array rbase "rpc_value list" | Binary rbase bytes

definition VALUE_TAG :: bytes where "VALUE_TAG = lit ''value''"
definition BOOLEAN_TAG :: bytes where "BOOLEAN_TAG = lit ''boolean''"
definition DOUBLE_TAG :: bytes where "DOUBLE_TAG = lit ''double''"
definition INT_TAG :: bytes where "INT_TAG = lit ''int''"
definition I4_TAG :: bytes where "I4_TAG = lit ''i4''"
definition STRING_TAG :: bytes where "STRING_TAG = lit ''string''"
definition DATETIME_TAG :: bytes where "DATETIME_TAG = lit ''dateTime.iso8601''"
definition BASE64_TAG :: bytes where "BASE64_TAG = lit ''base64''"
definition ARRAY_TAG :: bytes where "ARRAY_TAG = lit ''array''"
definition DATA_TAG :: bytes where "DATA_TAG = lit ''data''"
definition STRUCT_TAG :: bytes where "STRUCT_TAG = lit ''struct''"
definition MEMBER_TAG :: bytes where "MEMBER_TAG = lit ''member''"
definition NAME_TAG :: bytes where "NAME_TAG = lit ''name''"

definition GetTag :: "rtype \<Rightarrow> bytes option" where
  "GetTag value_type = (case value_type of TypeInt \<Rightarrow> Some INT_TAG | TypeDouble \<Rightarrow> Some DOUBLE_TAG
     | TypeBoolean \<Rightarrow> Some BOOLEAN_TAG | TypeString \<Rightarrow> Some STRING_TAG | TypeDateTime \<Rightarrow> Some DATETIME_TAG
     | TypeArray \<Rightarrow> Some ARRAY_TAG | TypeStruct \<Rightarrow> Some STRUCT_TAG | TypeBase64 \<Rightarrow> Some BASE64_TAG | _ \<Rightarrow> None)"

definition rbase_empty :: rbase where
  "rbase_empty = \<lparr>r_type = TypeInvalid, r_str = [], r_value = AsDateTime None\<rparr>"

text \<open>\<open>clear\<close> deletes the pointer of a date; with another member in the union that is a wild pointer.\<close>

definition rb_clear :: "rbase \<Rightarrow> rbase res" where
  "rb_clear b = (if r_type b = TypeDateTime \<and> (case r_value b of AsDateTime d \<Rightarrow> False | _ \<Rightarrow> True) then Inl Mem_Fault
     else Inr (b\<lparr>r_type := TypeInvalid, r_value := AsDateTime None, r_str := []\<rparr>))"

definition set_bool :: "bool \<Rightarrow> rbase \<Rightarrow> rbase res" where
  "set_bool v b = bindR (rb_clear b) (\<lambda>b. Inr (b\<lparr>r_type := TypeBoolean, r_value := AsBool v,
     r_str := (if v then lit ''1'' else lit ''0'')\<rparr>))"

definition set_int :: "u32 \<Rightarrow> rbase \<Rightarrow> rbase res" where
  "set_int v b = bindR (rb_clear b) (\<lambda>b. bindR (Val_int32 v 10) (\<lambda>t.
     Inr (b\<lparr>r_type := TypeInt, r_value := AsInt v, r_str := t\<rparr>)))"

text \<open>The double is stored as an int; its text is an argument.\<close>

definition set_double :: "u32 \<Rightarrow> bytes \<Rightarrow> rbase \<Rightarrow> rbase res" where
  "set_double v t b = bindR (rb_clear b) (\<lambda>b. Inr (b\<lparr>r_type := TypeDouble, r_value := AsInt v, r_str := t\<rparr>))"

definition set_string :: "bytes \<Rightarrow> rbase \<Rightarrow> rbase res" where
  "set_string v b = bindR (rb_clear b) (\<lambda>b. Inr (b\<lparr>r_type := TypeString, r_str := v\<rparr>))"

text \<open>\<open>formatString("%Y%m%dT%H:%M:%S")\<close> for fields in their ranges.\<close>

definition two_digits :: "int \<Rightarrow> bytes" where
  "two_digits n = (if n < 10 then lit ''0'' else []) @ hexdigits 10 (nat n)"

definition iso_text :: "datetime \<Rightarrow> bytes res" where
  "iso_text d = bindR (date_toTM (dt_date d)) (\<lambda>(mday, mon, year, _). bindR (time_toTM (dt_time d)) (\<lambda>(h, m, s).
     Inr (hexdigits 10 (nat (year + 1900)) @ two_digits (mon + 1) @ two_digits mday @ lit ''T'' @ two_digits h
       @ lit '':'' @ two_digits m @ lit '':'' @ two_digits s)))"

definition set_datetime :: "datetime \<Rightarrow> rbase \<Rightarrow> rbase res" where
  "set_datetime v b = bindR (rb_clear b) (\<lambda>b. bindR (iso_text v) (\<lambda>t.
     Inr (b\<lparr>r_type := TypeDateTime, r_value := AsDateTime (Some v), r_str := t\<rparr>)))"

text \<open>The accessors read the union as it is; the union is cleared before each write.\<close>

definition rb_asInt :: "rbase \<Rightarrow> u32 res" where
  "rb_asInt b = (case r_value b of AsInt n \<Rightarrow> Inr n | AsBool v \<Rightarrow> Inr (if v then 1 else 0) | AsDateTime None \<Rightarrow> Inr 0
     | AsDateTime (Some d) \<Rightarrow> Inl Mem_Fault)"

definition rb_asBool :: "rbase \<Rightarrow> bool res" where
  "rb_asBool b = (case r_value b of AsBool v \<Rightarrow> Inr v | AsInt n \<Rightarrow> Inr (n AND 255 \<noteq> 0) | AsDateTime None \<Rightarrow> Inr False
     | AsDateTime (Some d) \<Rightarrow> Inl Mem_Fault)"

definition rb_asDateTime :: "rbase \<Rightarrow> datetime res" where
  "rb_asDateTime b = (case r_value b of AsDateTime (Some d) \<Rightarrow> Inr d | _ \<Rightarrow> Inl Mem_Fault)"

section \<open>Printing\<close>

definition wrap_value :: "bytes \<Rightarrow> bytes \<Rightarrow> bytes" where
  "wrap_value tag t = lit ''<value><'' @ tag @ lit ''>'' @ t @ lit ''</'' @ tag @ lit ''></value>'' @ [10]"

text \<open>A binary value appends its encoding to the text it already has.\<close>

fun asXml :: "rpc_value \<Rightarrow> (bytes \<times> rpc_value) res"
  and members_xml :: "(bytes \<times> rpc_value) list \<Rightarrow> (bytes \<times> (bytes \<times> rpc_value) list) res"
  and elements_xml :: "rpc_value list \<Rightarrow> (bytes \<times> rpc_value list) res" where
  "asXml Null = Inl Mem_Fault"
| "asXml (Value b) = (case GetTag (r_type b) of None \<Rightarrow> Inl Mem_Fault
     | Some tag \<Rightarrow> Inr (wrap_value tag (xml_encode (r_str b)), Value b))"
| "asXml (Struct b ms) = bindR (members_xml ms) (\<lambda>(t, ms).
     Inr (lit ''<value>'' @ [10, 9] @ lit ''<struct>'' @ [10] @ t @ [9] @ lit ''</struct>'' @ [10] @ lit ''</value>'' @ [10], Struct b ms))"
| "asXml (Array b vs) = bindR (elements_xml vs) (\<lambda>(t, vs).
     Inr (lit ''<value>'' @ [10, 9] @ lit ''<array>'' @ [10, 9, 9] @ lit ''<data>'' @ [10] @ t @ [9, 9] @ lit ''</data>'' @ [10, 9, 9]
       @ lit ''</array>'' @ [10] @ lit ''</value>'' @ [10], Array b vs))"
| "asXml (Binary b xs) = (let b = b\<lparr>r_str := r_str b @ b64_text xs\<rparr> in Inr (wrap_value BASE64_TAG (r_str b), Binary b xs))"
| "members_xml [] = Inr ([], [])"
| "members_xml ((name, v) # ms) = bindR (asXml v) (\<lambda>(x, v). bindR (members_xml ms) (\<lambda>(t, ms).
     Inr ([9, 9] @ lit ''<member>'' @ [10, 9, 9, 9] @ lit ''<name>'' @ xml_encode name @ lit ''</name>'' @ [10, 9, 9, 9] @ x
       @ [9, 9] @ lit ''</member>'' @ [10] @ t, (name, v) # ms)))"
| "elements_xml [] = Inr ([], [])"
| "elements_xml (v # vs) = bindR (asXml v) (\<lambda>(x, v). bindR (elements_xml vs) (\<lambda>(t, vs). Inr (x @ t, v # vs)))"

section \<open>Structures and arrays\<close>

text \<open>
  \<open>set\<close> on a value of any class: \<open>clear\<close> is virtual, so structures and arrays lose their parts;
  the class, which decides how the value is printed, stays.
\<close>

definition value_set :: "(rbase \<Rightarrow> rbase res) \<Rightarrow> rpc_value \<Rightarrow> rpc_value res" where
  "value_set f v = (case v of Null \<Rightarrow> Inl Mem_Fault | Value b \<Rightarrow> bindR (f b) (\<lambda>b. Inr (Value b))
     | Struct b ms \<Rightarrow> bindR (f b) (\<lambda>b. Inr (Struct b []))
     | Array b vs \<Rightarrow> bindR (f b) (\<lambda>b. Inr (Array b []))
     | Binary b xs \<Rightarrow> bindR (f b) (\<lambda>b. Inr (Binary b xs)))"

definition value_new :: "(rbase \<Rightarrow> rbase res) \<Rightarrow> rpc_value res" where
  "value_new f = bindR (f rbase_empty) (\<lambda>b. Inr (Value b))"

definition hasMember :: "bytes \<Rightarrow> (bytes \<times> rpc_value) list \<Rightarrow> bool" where
  "hasMember name ms \<longleftrightarrow> kv_find hash_bytes name ms \<noteq> None"

definition struct_get :: "bytes \<Rightarrow> (bytes \<times> rpc_value) list \<Rightarrow> rpc_value" where
  "struct_get name ms = (case kv_find hash_bytes name ms of None \<Rightarrow> Null | Some (k, v) \<Rightarrow> v)"

text \<open>The overloads of \<open>set(name, value)\<close> differ in the \<open>set\<close> of the value, here \<open>f\<close>.\<close>

definition struct_set :: "(rbase \<Rightarrow> rbase res) \<Rightarrow> bytes \<Rightarrow> (bytes \<times> rpc_value) list \<Rightarrow> (bytes \<times> rpc_value) list res" where
  "struct_set f name ms = (if hasMember name ms then
       bindR (value_set f (struct_get name ms)) (\<lambda>v. Inr (kv_set hash_bytes name v ms))
     else bindR (value_new f) (\<lambda>v. kv_add hash_bytes name v ms))"

definition struct_set_value :: "bytes \<Rightarrow> rpc_value \<Rightarrow> (bytes \<times> rpc_value) list \<Rightarrow> (bytes \<times> rpc_value) list res" where
  "struct_set_value name v ms = kv_add hash_bytes name v ms"

definition struct_new :: rpc_value where
  "struct_new = Struct (rbase_empty\<lparr>r_type := TypeStruct\<rparr>) []"

definition array_new :: rpc_value where
  "array_new = Array (rbase_empty\<lparr>r_type := TypeArray\<rparr>) []"

definition binary_new :: rpc_value where
  "binary_new = Binary (rbase_empty\<lparr>r_type := TypeBase64\<rparr>) []"

section \<open>Reading\<close>

text \<open>\<open>sscanf\<close> with \<open>%4d%2d%2dT%2d:%2d:%2d\<close>.\<close>

definition scan_int :: "nat \<Rightarrow> bytes \<Rightarrow> (int \<times> bytes) option" where
  "scan_int width t = (let t = dropWhile c_isspace t; sign = (t \<noteq> [] \<and> (hd t = chr CHR ''-'' \<or> hd t = chr CHR ''+''));
       w = (if sign then width - 1 else width); u = (if sign then tl t else t); ds = takeWhile c_isdigit (take w u);
       n = foldl (\<lambda>n c. 10 * n + int (unat (c - 48))) 0 ds in
     if ds = [] then None else Some (if sign \<and> hd t = chr CHR ''-'' then - n else n, drop (length ds) u))"

definition scan_char :: "u8 \<Rightarrow> bytes \<Rightarrow> bytes option" where
  "scan_char c t = (case t of d # u \<Rightarrow> if d = c then Some u else None | [] \<Rightarrow> None)"

definition scan_iso :: "bytes \<Rightarrow> (int \<times> int \<times> int \<times> int \<times> int \<times> int) option" where
  "scan_iso t = Option.bind (scan_int 4 t) (\<lambda>(y, t). Option.bind (scan_int 2 t) (\<lambda>(mo, t). Option.bind (scan_int 2 t) (\<lambda>(d, t).
     Option.bind (scan_char (chr CHR ''T'') t) (\<lambda>t. Option.bind (scan_int 2 t) (\<lambda>(h, t). Option.bind (scan_char (chr CHR '':'') t) (\<lambda>t.
     Option.bind (scan_int 2 t) (\<lambda>(mi, t). Option.bind (scan_char (chr CHR '':'') t) (\<lambda>t. Option.bind (scan_int 2 t) (\<lambda>(s, t).
     Some (y, mo, d, h, mi, s))))))))))"

definition io_error :: "'a res" where
  "io_error = Inl (Thrown ''IOException'')"

abbreviation el_name :: "xparser \<Rightarrow> bytes" where
  "el_name p \<equiv> e_name (x_element p)"

abbreviation el_closing :: "xparser \<Rightarrow> bool" where
  "el_closing p \<equiv> e_is_closing (x_element p)"

text \<open>A value read from content: the string, or null without content; \<open>f\<close> completes it.\<close>

definition content_value :: "(bytes \<Rightarrow> rbase \<Rightarrow> rbase res) \<Rightarrow> xparser \<Rightarrow> (rpc_value \<times> xparser) res" where
  "content_value f p = bindR (hasContent p) (\<lambda>(has, p). if \<not> has then Inr (Null, p) else
     bindR (getContent p) (\<lambda>(t, p). bindR (set_string t rbase_empty) (\<lambda>b. bindR (f t b) (\<lambda>b. Inr (Value b, p)))))"

definition string_value :: "xparser \<Rightarrow> (rpc_value \<times> xparser) res" where
  "string_value p = bindR (hasContent p) (\<lambda>(has, p).
     if has then bindR (getContent p) (\<lambda>(t, p). bindR (value_new (set_string (xml_decode t))) (\<lambda>v. Inr (v, p)))
     else bindR (value_new (set_string [])) (\<lambda>v. Inr (v, p)))"

text \<open>The month of the text goes into \<open>tm_mon\<close> as it is.\<close>

definition date_value :: "bytes \<Rightarrow> rbase \<Rightarrow> rbase res" where
  "date_value t b = (case scan_iso t of None \<Rightarrow> Inr b | Some (y, mo, d, h, mi, s) \<Rightarrow>
     Inr (b\<lparr>r_value := AsDateTime (Some (datetime_of_tm d mo (y - 1900) h mi s)), r_type := TypeDateTime\<rparr>))"

text \<open>A date whose text cannot be scanned ends the function with null before its closing tags are read.\<close>

definition bad_date :: "xparser \<Rightarrow> rpc_value \<Rightarrow> bool" where
  "bad_date p v \<longleftrightarrow> (case v of Value b \<Rightarrow> scan_iso (r_str b) = None | _ \<Rightarrow> False)"

definition binary_value :: "xparser \<Rightarrow> (rpc_value \<times> xparser) res" where
  "binary_value p = bindR (hasContent p) (\<lambda>(has, p). if \<not> has then io_error else
     bindR (getContent p) (\<lambda>(t, p). let xs = b64_bytes t in
     if el_name p \<noteq> BASE64_TAG \<or> \<not> el_closing p then io_error
     else Inr (Binary (rbase_empty\<lparr>r_type := TypeBase64\<rparr>) xs, p)))"

text \<open>The end tag of the value, and for basic types that of the type before.\<close>

definition skip_tags :: "nat \<Rightarrow> rpc_value \<times> xparser \<Rightarrow> (rpc_value \<times> xparser) res" where
  "skip_tags n vp = (case vp of (v, p) \<Rightarrow> bindR (getNextElement p) (\<lambda>(_, p).
     if n = 0 then Inr (v, p) else bindR (getNextElement p) (\<lambda>(_, p). Inr (v, p))))"

definition basic_value :: "(bytes \<Rightarrow> u32) \<Rightarrow> xparser \<Rightarrow> (rpc_value \<times> xparser) res" where
  "basic_value dbl p = (let name = el_name p in
     if name = STRING_TAG then bindR (string_value p) (skip_tags 1)
     else if name = INT_TAG \<or> name = I4_TAG then
       bindR (content_value (\<lambda>t b. bindR (t_Int t) (\<lambda>n. Inr (b\<lparr>r_value := AsInt n, r_type := TypeInt\<rparr>))) p) (skip_tags 1)
     else if name = DOUBLE_TAG then
       bindR (content_value (\<lambda>t b. Inr (b\<lparr>r_value := AsInt (dbl t), r_type := TypeDouble\<rparr>)) p) (skip_tags 1)
     else if name = BOOLEAN_TAG then
       bindR (content_value (\<lambda>t b. bindR (t_Int t) (\<lambda>n. Inr (b\<lparr>r_value := AsInt n, r_type := TypeBoolean\<rparr>))) p) (skip_tags 1)
     else if name = DATETIME_TAG then
       bindR (content_value date_value p) (\<lambda>(v, p). if bad_date p v then Inr (Null, p) else skip_tags 1 (v, p))
     else if name = BASE64_TAG then bindR (binary_value p) (skip_tags 0)
     else skip_tags 0 (Null, p))"

fun FromXml :: "nat \<Rightarrow> (bytes \<Rightarrow> u32) \<Rightarrow> xparser \<Rightarrow> (rpc_value \<times> xparser) res"
  and array_loop :: "nat \<Rightarrow> (bytes \<Rightarrow> u32) \<Rightarrow> xparser \<Rightarrow> (rpc_value list \<times> xparser) res"
  and struct_loop :: "nat \<Rightarrow> (bytes \<Rightarrow> u32) \<Rightarrow> (bytes \<times> rpc_value) list \<Rightarrow> xparser \<Rightarrow> ((bytes \<times> rpc_value) list \<times> xparser) res" where
  "FromXml 0 dbl p = Inl Out_Of_Fuel"
| "FromXml (Suc n) dbl p = (if el_name p \<noteq> VALUE_TAG then Inr (Null, p) else
     bindR (hasContent p) (\<lambda>(has, p).
     if has then bindR (getContent p) (\<lambda>(t, p). bindR (value_new (set_string (xml_decode t))) (\<lambda>v. Inr (v, p)))
     else bindR (getNextElement p) (\<lambda>(more, p). if \<not> more then io_error
     else if el_name p = ARRAY_TAG then
       bindR (getNextElement p) (\<lambda>(more, p). if \<not> more \<or> el_name p \<noteq> DATA_TAG then io_error else
       bindR (array_loop n dbl p) (\<lambda>(vs, p). if el_name p \<noteq> DATA_TAG \<or> \<not> el_closing p then io_error else
       bindR (getNextElement p) (\<lambda>(more, p). if \<not> more \<or> el_name p \<noteq> ARRAY_TAG \<or> \<not> el_closing p then io_error else
       skip_tags 0 (Array (rbase_empty\<lparr>r_type := TypeArray\<rparr>) vs, p))))
     else if el_name p = STRUCT_TAG then
       bindR (struct_loop n dbl [] p) (\<lambda>(ms, p). skip_tags 0 (Struct (rbase_empty\<lparr>r_type := TypeStruct\<rparr>) ms, p))
     else basic_value dbl p)))"
| "array_loop 0 dbl p = Inl Out_Of_Fuel"
| "array_loop (Suc n) dbl p = bindR (getNextElement p) (\<lambda>(more, p).
     if more \<and> el_name p = VALUE_TAG \<and> \<not> el_closing p then
       bindR (FromXml n dbl p) (\<lambda>(v, p). bindR (array_loop n dbl p) (\<lambda>(vs, p). Inr (v # vs, p)))
     else Inr ([], p))"
| "struct_loop 0 dbl ms p = Inl Out_Of_Fuel"
| "struct_loop (Suc n) dbl ms p = bindR (getNextElement p) (\<lambda>(more, p).
     if more \<and> el_name p = MEMBER_TAG \<and> \<not> el_closing p then
       bindR (getNextElement p) (\<lambda>(more, p). if \<not> more \<or> el_name p \<noteq> NAME_TAG \<or> el_closing p then io_error else
       bindR (hasContent p) (\<lambda>(has, p). if \<not> has then io_error else
       bindR (getContent p) (\<lambda>(mname, p).
       bindR (getNextElement p) (\<lambda>(more, p). if \<not> more \<or> el_name p \<noteq> NAME_TAG \<or> \<not> el_closing p then io_error else
       bindR (getNextElement p) (\<lambda>(more, p). if \<not> more \<or> el_name p \<noteq> VALUE_TAG then io_error else
       bindR (FromXml n dbl p) (\<lambda>(v, p).
       bindR (struct_set_value mname v ms) (\<lambda>ms.
       bindR (getNextElement p) (\<lambda>(_, p). struct_loop n dbl ms p))))))))
     else Inr (ms, p))"

end
