(* ===== verification/Rpc_Types.thy ===== *)
theory Rpc_Types
  imports Rpc
begin

text \<open>
  The type discipline of RPC values: the tag of a value, and the member of its union that was written
  last. The accessors do not check the tag; \<open>clear\<close> deletes a date when the tag is that of a date.
\<close>

text \<open>
  The member that the accessor of a type reads. No operation writes the member of the doubles, so the union
  of the model does not have it, and a value with that tag is never in order.
\<close>

definition valid_member :: "rtype \<Rightarrow> runion \<Rightarrow> bool" where
  "valid_member t u \<longleftrightarrow> (case t of TypeBoolean \<Rightarrow> \<exists>v. u = AsBool v | TypeInt \<Rightarrow> \<exists>n. u = AsInt n | TypeDouble \<Rightarrow> False
     | TypeDateTime \<Rightarrow> \<exists>d. u = AsDateTime (Some d) | _ \<Rightarrow> u = AsDateTime None)"

text \<open>The two exceptions, each with an int: a double, and a boolean that was read from XML (\<open>x\<close>).\<close>

definition typed_base :: "bool \<Rightarrow> rbase \<Rightarrow> bool" where
  "typed_base x b \<longleftrightarrow> valid_member (r_type b) (r_value b)
     \<or> (r_type b = TypeDouble \<or> x \<and> r_type b = TypeBoolean) \<and> (\<exists>n. r_value b = AsInt n)"

fun well_typed :: "bool \<Rightarrow> rpc_value \<Rightarrow> bool" where
  "well_typed x Null = True"
| "well_typed x (Value b) = typed_base x b"
| "well_typed x (Struct b ms) = (typed_base x b \<and> (\<forall>v \<in> snd ` set ms. well_typed x v))"
| "well_typed x (Array b vs) = (typed_base x b \<and> (\<forall>v \<in> set vs. well_typed x v))"
| "well_typed x (Binary b xs) = typed_base x b"

text \<open>The overloads of \<open>set\<close>.\<close>

inductive setter :: "(rbase \<Rightarrow> rbase res) \<Rightarrow> bool" where
  "setter (set_bool v)"
| "setter (set_int n)"
| "setter (set_double n t)"
| "setter (set_string t)"
| "setter (set_datetime d)"

text \<open>Values as a client can make them, and the reader if \<open>x\<close>.\<close>

inductive rpc_made :: "bool \<Rightarrow> rpc_value \<Rightarrow> bool" for x where
  made_new: "setter f \<Longrightarrow> value_new f = Inr v \<Longrightarrow> rpc_made x v"
| made_struct: "rpc_made x struct_new"
| made_array: "rpc_made x array_new"
| made_binary: "rpc_made x (Binary (rbase_empty\<lparr>r_type := TypeBase64\<rparr>) xs)"
| made_set: "rpc_made x v \<Longrightarrow> setter f \<Longrightarrow> value_set f v = Inr w \<Longrightarrow> rpc_made x w"
| made_member: "rpc_made x (Struct b ms) \<Longrightarrow> setter f \<Longrightarrow> struct_set f name ms = Inr ms' \<Longrightarrow> rpc_made x (Struct b ms')"
| made_member_value: "rpc_made x (Struct b ms) \<Longrightarrow> rpc_made x v \<Longrightarrow> struct_set_value name v ms = Inr ms' \<Longrightarrow> rpc_made x (Struct b ms')"
| made_element: "rpc_made x (Array b vs) \<Longrightarrow> rpc_made x v \<Longrightarrow> rpc_made x (Array b (vs @ [v]))"
| made_read: "x \<Longrightarrow> FromXml n dbl p = Inr (v, p') \<Longrightarrow> rpc_made x v"
| made_print: "rpc_made x v \<Longrightarrow> asXml v = Inr (t, w) \<Longrightarrow> rpc_made x w"

lemma typed_clear: "typed_base x b \<Longrightarrow> rb_clear b = Inr (b\<lparr>r_type := TypeInvalid, r_value := AsDateTime None, r_str := []\<rparr>)"
  by (auto simp: typed_base_def valid_member_def rb_clear_def split: rtype.splits)

lemma typed_set: "setter f \<Longrightarrow> typed_base x b \<Longrightarrow> f b = Inr b' \<Longrightarrow> typed_base x b'"
  by (cases f rule: setter.cases)
    (auto simp: set_bool_def set_int_def set_double_def set_string_def set_datetime_def typed_clear res_simps typed_base_def valid_member_def)

lemma typed_empty [simp]: "typed_base x rbase_empty" "typed_base x (rbase_empty\<lparr>r_type := TypeStruct\<rparr>)"
  "typed_base x (rbase_empty\<lparr>r_type := TypeArray\<rparr>)" "typed_base x (rbase_empty\<lparr>r_type := TypeBase64\<rparr>)"
  by (simp_all add: typed_base_def valid_member_def rbase_empty_def)

lemma typed_new: "setter f \<Longrightarrow> value_new f = Inr v \<Longrightarrow> well_typed x v"
  using typed_set [OF _ typed_empty(1)] by (auto simp: value_new_def res_simps)

lemma typed_value_set: "setter f \<Longrightarrow> well_typed x v \<Longrightarrow> value_set f v = Inr w \<Longrightarrow> well_typed x w"
  using typed_set by (cases v) (auto simp: value_set_def res_simps)

lemma kv_add_values: "kv_add h k v kvs = Inr kvs' \<Longrightarrow> snd ` set kvs' = insert v (snd ` set kvs)"
  by (auto simp: kv_add_def split: if_splits)

lemma kv_set_values: "snd ` set (kv_set h k v kvs) \<subseteq> insert v (snd ` set kvs)"
  by (auto simp: kv_set_def)

lemma typed_member:
  assumes "setter f" "\<forall>v \<in> snd ` set ms. well_typed x v" "struct_set f name ms = Inr ms'"
  shows "\<forall>v \<in> snd ` set ms'. well_typed x v"
proof (cases "hasMember name ms")
  case True
  then obtain k v where kv: "kv_find hash_bytes name ms = Some (k, v)" by (auto simp: hasMember_def)
  then have "(k, v) \<in> set ms" by (auto simp: kv_find_def find_Some_iff)
  then have v: "v \<in> snd ` set ms" by force
  obtain w where w: "value_set f v = Inr w" "ms' = kv_set hash_bytes name w ms"
    using assms(3) True kv by (auto simp: struct_set_def struct_get_def res_simps)
  then have "well_typed x w" using typed_value_set [OF assms(1) _ w(1)] assms(2) v by blast
  then show ?thesis using kv_set_values [of hash_bytes name w ms] assms(2) unfolding w(2) by blast
next
  case False
  then obtain v where "value_new f = Inr v" "kv_add hash_bytes name v ms = Inr ms'"
    using assms(3) by (auto simp: struct_set_def res_simps)
  then show ?thesis using typed_new [OF assms(1)] kv_add_values [of hash_bytes name v ms ms'] assms(2) by auto
qed

lemma typed_content:
  assumes "content_value f p = Inr (v, p')" "\<And>t b'. f t (rbase_empty\<lparr>r_type := TypeString, r_str := t\<rparr>) = Inr b' \<Longrightarrow> typed_base x b'"
  shows "well_typed x v"
proof -
  have "set_string t rbase_empty = Inr (rbase_empty\<lparr>r_type := TypeString, r_str := t\<rparr>)" for t
    by (simp add: set_string_def rb_clear_def rbase_empty_def)
  then show ?thesis using assms by (auto simp: content_value_def res_simps split: if_splits)
qed

lemma skip_same: "skip_tags n vp = Inr (v, p') \<Longrightarrow> v = fst vp"
  by (auto simp: skip_tags_def res_simps split: prod.splits if_splits)

lemma typed_string: "string_value p = Inr (v, p') \<Longrightarrow> well_typed x v"
  using typed_new [OF setter.intros(4)] by (auto simp: string_value_def res_simps split: if_splits)

lemma typed_int:
  "content_value (\<lambda>t b. bindR (t_Int t) (\<lambda>n. Inr (b\<lparr>r_value := AsInt n, r_type := TypeInt\<rparr>))) p = Inr (v, p') \<Longrightarrow> well_typed True v"
  "content_value (\<lambda>t b. bindR (t_Int t) (\<lambda>n. Inr (b\<lparr>r_value := AsInt n, r_type := TypeBoolean\<rparr>))) p = Inr (v, p') \<Longrightarrow> well_typed True v"
  "content_value (\<lambda>t b. Inr (b\<lparr>r_value := AsInt (dbl t), r_type := TypeDouble\<rparr>)) p = Inr (v, p') \<Longrightarrow> well_typed True v"
  "content_value date_value p = Inr (v, p') \<Longrightarrow> well_typed True v"
  by (erule typed_content, auto simp: typed_base_def valid_member_def res_simps date_value_def rbase_empty_def split: option.splits)+

lemma typed_binary: "binary_value p = Inr (v, p') \<Longrightarrow> well_typed True v"
  by (auto simp: binary_value_def io_error_def res_simps Let_def split: if_splits)

lemma typed_basic: "basic_value dbl p = Inr (v, p') \<Longrightarrow> well_typed True v"
  unfolding basic_value_def Let_def
  by (auto simp: res_simps dest!: skip_same dest: typed_string [where x = True] typed_int typed_binary split: if_splits)

lemma typed_read:
  "(\<forall>p v p'. FromXml n dbl p = Inr (v, p') \<longrightarrow> well_typed True v)
   \<and> (\<forall>p vs p'. array_loop n dbl p = Inr (vs, p') \<longrightarrow> (\<forall>v \<in> set vs. well_typed True v))
   \<and> (\<forall>p acc ms p'. struct_loop n dbl acc p = Inr (ms, p') \<longrightarrow> (\<forall>v \<in> snd ` set acc. well_typed True v) \<longrightarrow> (\<forall>v \<in> snd ` set ms. well_typed True v))"
proof (induction n)
  case (Suc n)
  have A: "\<forall>p v p'. FromXml n dbl p = Inr (v, p') \<longrightarrow> well_typed True v"
    and B: "\<And>p vs p' v. array_loop n dbl p = Inr (vs, p') \<Longrightarrow> v \<in> set vs \<Longrightarrow> well_typed True v"
    and C: "\<And>p acc ms p'. struct_loop n dbl acc p = Inr (ms, p') \<Longrightarrow> \<forall>v \<in> snd ` set acc. well_typed True v \<Longrightarrow> \<forall>v \<in> snd ` set ms. well_typed True v"
    using Suc.IH by blast+
  have F1: "well_typed True v" if "FromXml (Suc n) dbl p = Inr (v, p')" for p v p'
    using that C [where acc = "[]"]
    by (auto simp: res_simps io_error_def split: if_splits dest!: skip_same dest: typed_new [OF setter.intros(4), where x = True] typed_basic B)
  have F2: "\<forall>v \<in> set vs. well_typed True v" if "array_loop (Suc n) dbl p = Inr (vs, p')" for p vs p'
    using that A B by (fastforce simp: res_simps split: if_splits)
  have F3: "\<forall>v \<in> snd ` set ms. well_typed True v"
    if r: "struct_loop (Suc n) dbl acc p = Inr (ms, p')" and acc: "\<forall>v \<in> snd ` set acc. well_typed True v" for p acc ms p'
  proof -
    consider "ms = acc" | p1 p2 p3 k v acc' where "FromXml n dbl p1 = Inr (v, p2)" "kv_add hash_bytes k v acc = Inr acc'"
        "struct_loop n dbl acc' p3 = Inr (ms, p')"
      using r by (auto simp: res_simps io_error_def struct_set_value_def split: if_splits)
    then show ?thesis
    proof cases
      case 2
      then have "\<forall>v \<in> snd ` set acc'. well_typed True v" using A acc kv_add_values [of hash_bytes k v acc acc'] by auto
      then show ?thesis using C [OF 2(3)] by blast
    qed (use acc in simp)
  qed
  show ?case by (intro conjI allI impI; (erule F1 | erule F2 | (erule F3, assumption)))
qed simp

lemma typed_str [simp]: "typed_base x (b\<lparr>r_str := t\<rparr>) = typed_base x b"
proof -
  have "r_value (b\<lparr>r_str := t\<rparr>) = r_value b" "r_type (b\<lparr>r_str := t\<rparr>) = r_type b" by simp_all
  then show ?thesis unfolding typed_base_def by (simp only:)
qed

lemma members_print:
  assumes "members_xml ms = Inr (t, ns)" "y \<in> snd ` set ns"
  shows "\<exists>v x. v \<in> snd ` set ms \<and> asXml v = Inr (x, y)"
  using assms
proof (induction ms arbitrary: t ns)
  case (Cons m ms)
  obtain name v where m: "m = (name, v)" by (cases m)
  from Cons.prems(1) obtain x v' u ms' where r: "asXml v = Inr (x, v')" "members_xml ms = Inr (u, ms')" "ns = (name, v') # ms'"
    unfolding m by (auto simp: res_simps)
  show ?case
  proof (cases "y = v'")
    case False
    then have "y \<in> snd ` set ms'" using Cons.prems(2) r(3) by simp
    from Cons.IH [OF r(2) this] show ?thesis by auto
  qed (use r(1) m in auto)
qed simp

lemma elements_print:
  assumes "elements_xml vs = Inr (t, ws)" "y \<in> set ws"
  shows "\<exists>v x. v \<in> set vs \<and> asXml v = Inr (x, y)"
  using assms
proof (induction vs arbitrary: t ws)
  case (Cons v vs)
  from Cons.prems(1) obtain x v' u ws' where r: "asXml v = Inr (x, v')" "elements_xml vs = Inr (u, ws')" "ws = v' # ws'"
    by (auto simp: res_simps)
  show ?case
  proof (cases "y = v'")
    case False
    then have "y \<in> set ws'" using Cons.prems(2) r(3) by simp
    from Cons.IH [OF r(2) this] show ?thesis by auto
  qed (use r(1) in auto)
qed simp

lemma typed_print: "asXml v = Inr (t, w) \<Longrightarrow> well_typed x v \<Longrightarrow> well_typed x w"
proof (induction v arbitrary: t w)
  case (Value b)
  then show ?case by (auto split: option.splits)
next
  case (Struct b ms)
  then obtain u ns where r: "members_xml ms = Inr (u, ns)" "w = Struct b ns" by (auto simp: res_simps)
  have "well_typed x y" if y: "y \<in> snd ` set ns" for y
  proof -
    obtain v x where v: "v \<in> snd ` set ms" "asXml v = Inr (x, y)" using members_print [OF r(1) y] by blast
    then show ?thesis using Struct.IH Struct.prems(2) by fastforce
  qed
  then show ?case using Struct.prems(2) r(2) by simp
next
  case (Array b vs)
  then obtain u ws where r: "elements_xml vs = Inr (u, ws)" "w = Array b ws" by (auto simp: res_simps)
  have "well_typed x y" if y: "y \<in> set ws" for y
  proof -
    obtain v x where v: "v \<in> set vs" "asXml v = Inr (x, y)" using elements_print [OF r(1) y] by blast
    then show ?thesis using Array.IH [OF v] Array.prems(2) by simp
  qed
  then show ?case using Array.prems(2) r(2) by simp
next
  case (Binary b xs)
  from Binary(1) have w: "w = Binary (b\<lparr>r_str := r_str b @ b64_text xs\<rparr>) xs" unfolding asXml.simps Let_def by (blast dest: sym)
  from Binary(2) show ?case unfolding w well_typed.simps typed_str .
qed simp



end
