(* ===== verification/Actions.thy ===== *)
theory Actions
  imports SRL_Prelude
begin

text \<open>
  Operations on a state that may fail: an action takes the state and returns a result and the state after
  it. An exception keeps the state it is thrown in.
\<close>

type_synonym ('s, 'a) action = "'s \<Rightarrow> 'a res \<times> 's"

definition bindA :: "('s, 'a) action \<Rightarrow> ('a \<Rightarrow> ('s, 'b) action) \<Rightarrow> ('s, 'b) action" where
  "bindA m f s = (case m s of (Inl e, s) \<Rightarrow> (Inl e, s) | (Inr x, s) \<Rightarrow> f x s)"

definition returnA :: "'a \<Rightarrow> ('s, 'a) action" where
  "returnA x s = (Inr x, s)"

definition throwA :: "string \<Rightarrow> ('s, 'a) action" where
  "throwA c s = (Inl (Thrown c), s)"

lemma bindA_simps [simp]:
  "m s = (Inr x, s') \<Longrightarrow> bindA m f s = f x s'"
  "m s = (Inl e, s') \<Longrightarrow> bindA m f s = (Inl e, s')"
  by (simp_all add: bindA_def)

lemma bindA_cong [fundef_cong]:
  "m s = m' s \<Longrightarrow> (\<And>x s'. m' s = (Inr x, s') \<Longrightarrow> f x s' = f' x s') \<Longrightarrow> s = t \<Longrightarrow> bindA m f s = bindA m' f' t"
  by (auto simp: bindA_def split: prod.split sum.split)

definition lift_res :: "'a res \<Rightarrow> ('s, 'a) action" where
  "lift_res r s = (r, s)"

lemma lift_res_simps [simp]: "bindA (lift_res r) f s = (case r of Inl e \<Rightarrow> (Inl e, s) | Inr x \<Rightarrow> f x s)"
  by (simp add: bindA_def lift_res_def split: sum.split)

end
