(* ===== verification/Tcp.thy ===== *)
theory Tcp
  imports Buf_Props Actions
begin

text \<open>
  \<open>TcpSocket\<close> (src/net/TcpSocket.cpp) on \<open>Socket\<close> (src/net/Socket.cpp): a socket with a \<open>ByteBuffer\<close> of
  what was received and not yet read. The network is the list of what arrives: each packet with
  the milliseconds that pass before it, the empty packet for the end of the connection. The
  operating system hands out what has arrived: the bytes of the packet that is there and of those that
  came with it (that follow without delay), as many as the caller asks for. It takes everything that is
  sent.
\<close>

section \<open>The socket\<close>

record tcp =
  t_open :: bool
  t_buffer :: bbuf
  t_max_size :: u32
  t_arrivals :: "(nat \<times> u8 list) list"
  t_clock :: nat
  t_sent :: "u8 list"

definition tcp_new :: "(nat \<times> u8 list) list \<Rightarrow> tcp res" where
  "tcp_new arrivals = bindR (bb_new 1024) (\<lambda>b. Inr \<lparr>t_open = True, t_buffer = b, t_max_size = 512000,
     t_arrivals = arrivals, t_clock = 0, t_sent = []\<rparr>)"

definition sock_close :: "tcp \<Rightarrow> tcp" where
  "sock_close t = t\<lparr>t_open := False\<rparr>"

text \<open>Waiting for ever for nothing is \<open>Out_Of_Fuel\<close>; -1 is \<open>FOREVER\<close>, another negative time an error of \<open>select\<close>.\<close>

definition isRecvReady :: "int \<Rightarrow> (tcp, bool) action" where
  "isRecvReady msec t = (case t_arrivals t of
       [] \<Rightarrow> if msec = - 1 then (Inl Out_Of_Fuel, t) else if msec < 0 then (Inl (Thrown ''SocketException''), t)
         else (Inr False, t\<lparr>t_clock := t_clock t + nat msec\<rparr>)
     | (d, p) # r \<Rightarrow> if msec < - 1 then (Inl (Thrown ''SocketException''), t)
         else if msec = - 1 \<or> int d \<le> msec then (Inr True, t\<lparr>t_arrivals := (0, p) # r, t_clock := t_clock t + d\<rparr>)
         else (Inr False, t\<lparr>t_arrivals := (d - nat msec, p) # r, t_clock := t_clock t + nat msec\<rparr>))"

text \<open>
  The call of the operating system: at most \<open>len\<close> bytes of what is there. The end of the connection
  is not seen before the bytes ahead of it are taken.
\<close>

fun collect :: "nat \<Rightarrow> (nat \<times> u8 list) list \<Rightarrow> u8 list \<times> (nat \<times> u8 list) list" where
  "collect len [] = ([], [])"
| "collect len ((d, p) # r) = (if 0 < d \<or> p = [] \<or> len = 0 then ([], (d, p) # r)
     else if len < length p then (take len p, (0, drop len p) # r)
     else (case collect (len - length p) r of (xs, r) \<Rightarrow> (p @ xs, r)))"

definition os_recv :: "nat \<Rightarrow> (tcp, u8 list) action" where
  "os_recv len t = (case t_arrivals t of [] \<Rightarrow> (Inl Out_Of_Fuel, t)
     | (d, p) # r \<Rightarrow> (case collect len ((0, p) # r) of (xs, r) \<Rightarrow> (Inr xs, t\<lparr>t_arrivals := r, t_clock := t_clock t + d\<rparr>)))"

definition sock_recv :: "nat \<Rightarrow> int \<Rightarrow> (tcp, u8 list) action" where
  "sock_recv len msec t = (if \<not> t_open t then throwA ''SocketException'' t
     else bindA (if msec = - 1 then returnA True else isRecvReady msec) (\<lambda>ready.
       if ready then bindA (os_recv len) (\<lambda>xs t. if xs = [] then throwA ''SocketDisconnected'' (sock_close t) else (Inr xs, t))
       else returnA []) t)"

definition sock_send :: "u8 list \<Rightarrow> (tcp, nat) action" where
  "sock_send xs t = (if \<not> t_open t then throwA ''SocketException'' t else (Inr (length xs), t\<lparr>t_sent := t_sent t @ xs\<rparr>))"

section \<open>The buffered reader\<close>

definition on_buffer :: "(bbuf \<Rightarrow> bbuf res) \<Rightarrow> (tcp, unit) action" where
  "on_buffer f t = (case f (t_buffer t) of Inl e \<Rightarrow> (Inl e, t) | Inr b \<Rightarrow> (Inr (), t\<lparr>t_buffer := b\<rparr>))"

definition bufferedRecv :: "(tcp, nat) action" where
  "bufferedRecv = bindA (on_buffer (bb_toggle True)) (\<lambda>_ t.
     let b = t_buffer t; free_bytes = b_size b - b_pos b in
     if free_bytes = 0 \<and> t_max_size t \<le> b_size b then throwA ''OutOfMemoryException'' t else
     bindA (if free_bytes \<le> 256 then
         on_buffer (bb_resize (if t_max_size t < b_size b + 1024 then t_max_size t else b_size b + 1024))
       else returnA ()) (\<lambda>_ t. let b = t_buffer t; free_bytes = b_size b - b_pos b in
     bindA (sock_recv (unat free_bytes) 0) (\<lambda>xs.
     bindA (on_buffer (\<lambda>b. bindR (blk_put (b_buffer b) (unat (b_pos b)) xs) (\<lambda>m. Inr (b\<lparr>b_buffer := m\<rparr>)))) (\<lambda>_.
     bindA (if xs = [] then returnA () else on_buffer (\<lambda>b. bb_setPosition (of_nat (length xs) + b_pos b)
         (bb_setLength (of_nat (length xs) + b_pos b) b))) (\<lambda>_.
     bindA (on_buffer (bb_toggle False)) (\<lambda>_. returnA (length xs))))) t) t)"

text \<open>The two overloads of \<open>readUntil\<close> differ in the search of the buffer, here \<open>search\<close>.\<close>

definition search_chr :: "u8 \<Rightarrow> srl_str \<Rightarrow> (tcp, u32 \<times> srl_str) action" where
  "search_chr c buf t = (case bb_readUntil_chr buf c (t_buffer t) of Inl e \<Rightarrow> (Inl e, t)
     | Inr (n, buf, b) \<Rightarrow> (Inr (n, buf), t\<lparr>t_buffer := b\<rparr>))"

definition search_str :: "srl_str \<Rightarrow> srl_str \<Rightarrow> (tcp, u32 \<times> srl_str) action" where
  "search_str str buf t = (case bb_readUntil_str buf str (t_buffer t) of Inl e \<Rightarrow> (Inl e, t)
     | Inr (n, buf, b) \<Rightarrow> (Inr (n, buf), t\<lparr>t_buffer := b\<rparr>))"

fun forever_loop :: "nat \<Rightarrow> (srl_str \<Rightarrow> (tcp, u32 \<times> srl_str) action) \<Rightarrow> srl_str \<Rightarrow> (tcp, u32 \<times> srl_str) action" where
  "forever_loop 0 search buf t = (Inl Out_Of_Fuel, t)"
| "forever_loop (Suc n) search buf t = bindA (isRecvReady (- 1)) (\<lambda>ready.
     if ready then bindA bufferedRecv (\<lambda>_. bindA (search buf) (\<lambda>(count, buf).
       if 0 < count then returnA (s_string_length buf, buf) else forever_loop n search buf))
     else forever_loop n search buf) t"

text \<open>The time that is left shrinks by the whole time since the call, in every round.\<close>

fun timer_loop :: "nat \<Rightarrow> (srl_str \<Rightarrow> (tcp, u32 \<times> srl_str) action) \<Rightarrow> nat \<Rightarrow> int \<Rightarrow> srl_str \<Rightarrow> (tcp, u32 \<times> srl_str) action" where
  "timer_loop 0 search timer msec buf t = (Inl Out_Of_Fuel, t)"
| "timer_loop (Suc n) search timer msec buf t = (if 0 < msec then bindA (isRecvReady msec) (\<lambda>ready.
       if ready then bindA bufferedRecv (\<lambda>_. bindA (search buf) (\<lambda>(count, buf).
         if 0 < count then returnA (s_string_length buf, buf)
         else (\<lambda>t. timer_loop n search timer (msec - (int (t_clock t) - int timer)) buf t)))
       else returnA (0, buf)) t
     else (Inr (0, buf), t))"

text \<open>Each round takes at least a byte or fails, so the bytes to come are enough fuel.\<close>

definition arrivals_fuel :: "tcp \<Rightarrow> nat" where
  "arrivals_fuel t = Suc (sum_list (map (\<lambda>(d, p). Suc (length p)) (t_arrivals t)))"

definition tcp_readUntil :: "(srl_str \<Rightarrow> (tcp, u32 \<times> srl_str) action) \<Rightarrow> int \<Rightarrow> srl_str \<Rightarrow> (tcp, u32 \<times> srl_str) action" where
  "tcp_readUntil search msec buf = bindA (search buf) (\<lambda>(count, buf) t.
     if 0 < count then (Inr (s_string_length buf, buf), t)
     else if msec = 0 then bindA bufferedRecv (\<lambda>_. search buf) t
     else if msec = - 1 then forever_loop (arrivals_fuel t) search buf t
     else timer_loop (arrivals_fuel t) search (t_clock t) msec buf t)"

fun readAll_loop :: "nat \<Rightarrow> u32 \<Rightarrow> (tcp, unit) action" where
  "readAll_loop 0 len t = (Inl Out_Of_Fuel, t)"
| "readAll_loop (Suc n) len t = (if bb_remaining (t_buffer t) < len then
       bindA (isRecvReady 10000) (\<lambda>ready. if \<not> ready then throwA ''IOException'' else bindA bufferedRecv (\<lambda>_. readAll_loop n len)) t
     else (Inr (), t))"

text \<open>It waits for \<open>len\<close> bytes and reads one less.\<close>

definition tcp_readAll :: "srl_str \<Rightarrow> u32 \<Rightarrow> (tcp, srl_str) action" where
  "tcp_readAll output len t = bindA (readAll_loop (arrivals_fuel t) len) (\<lambda>_ t.
     case bb_read_string output (len - 1) (t_buffer t) of Inl e \<Rightarrow> (Inl e, t)
     | Inr (output, count, b) \<Rightarrow> (Inr output, t\<lparr>t_buffer := b\<rparr>)) t"

definition isReadReady :: "int \<Rightarrow> (tcp, bool) action" where
  "isReadReady msec t = (if 0 < bb_remaining (t_buffer t) then (Inr True, t) else isRecvReady msec t)"

text \<open>\<open>read\<close> of bytes: from the buffer if it has any, else from the socket.\<close>

definition tcp_read :: "u32 \<Rightarrow> int \<Rightarrow> (tcp, u8 list) action" where
  "tcp_read len msec t = (if 0 < bb_remaining (t_buffer t) then
       (case bb_read len 1 (t_buffer t) of Inl e \<Rightarrow> (Inl e, t) | Inr (xs, count, b) \<Rightarrow> (Inr xs, t\<lparr>t_buffer := b\<rparr>))
     else sock_recv (unat len) msec t)"

end
