(* ===== verification/Tcp_Props.thy ===== *)
theory Tcp_Props
  imports Tcp
begin

text \<open>
  What \<open>TcpSocket\<close> promises: the reader sees the bytes of the connection as one stream, however the
  network cut them into packets.
\<close>

definition unread :: "tcp \<Rightarrow> u8 list" where
  "unread t = drop (unat (b_pos (t_buffer t))) (bb_data (t_buffer t))"

definition in_stream :: "tcp \<Rightarrow> u8 list" where
  "in_stream t = unread t @ concat (map snd (t_arrivals t))"

text \<open>
  When the network does not overfill the buffer: of the packets that arrive together (a burst, \<open>k\<close> bytes of
  it came before), each ends within the first 256 bytes of its burst or within the first \<open>s\<close> bytes of the
  stream, of which \<open>n\<close> came before; \<open>s\<close> is the size of the buffer.
\<close>

fun fits :: "nat \<Rightarrow> nat \<Rightarrow> nat \<Rightarrow> (nat \<times> u8 list) list \<Rightarrow> bool" where
  "fits s n k [] \<longleftrightarrow> True"
| "fits s n k ((d, p) # r) \<longleftrightarrow> (let k' = (if d = 0 then k else 0) + length p in
     p \<noteq> [] \<and> (k' \<le> 256 \<or> n + length p < s) \<and> fits s (n + length p) k' r)"

definition tcp_ok :: "tcp \<Rightarrow> bool" where
  "tcp_ok t \<longleftrightarrow> (let b = t_buffer t in bb_wf b \<and> b_pos b \<le> b_length b \<and> b_length b < b_size b \<and> unat (b_size b) \<le> 512016)
     \<and> t_open t \<and> t_max_size t = 512000 \<and> fits (unat (b_size (t_buffer t))) (length (unread t)) 0 (t_arrivals t)"

text \<open>
  When the packets are in time for a reader that waits \<open>msec\<close> milliseconds: each round of its loop takes
  the whole time since the call from what is left, so the delays count once for each packet.
\<close>

definition delays :: "tcp \<Rightarrow> nat" where
  "delays t = sum_list (map fst (t_arrivals t))"

definition prompt :: "int \<Rightarrow> tcp \<Rightarrow> bool" where
  "prompt msec t \<longleftrightarrow> int (length (t_arrivals t) * delays t) < msec"

lemma fits_mono: "fits s n k r \<Longrightarrow> n' \<le> n \<Longrightarrow> s \<le> s' \<Longrightarrow> k' \<le> k \<Longrightarrow> fits s' n' k' r"
proof (induction r arbitrary: n n' k k')
  case (Cons a r)
  obtain d p where a: "a = (d, p)" by (cases a)
  let ?k = "(if d = 0 then k else 0) + length p" and ?k' = "(if d = 0 then k' else 0) + length p"
  have "fits s' (n' + length p) ?k' r"
    using Cons.IH [of "n + length p" ?k "n' + length p" ?k'] Cons.prems by (simp add: a Let_def)
  then show ?case using Cons.prems by (auto simp: a Let_def split: if_splits)
qed simp

lemma fits_late: "0 < d \<Longrightarrow> fits s n k ((d, p) # r) \<Longrightarrow> fits s n 0 ((d, p) # r)"
  by simp

lemma fits_now: "fits s n 0 ((d, p) # r) \<longleftrightarrow> fits s n 0 ((0, p) # r)"
  by simp

text \<open>What one call takes: whole packets, and not everything that there is room for.\<close>

lemma collect_fits:
  assumes "fits s n k r" "s \<le> n + len" "256 < k + len" "0 < len" "collect len r = (xs, r')"
  shows "concat (map snd r) = xs @ concat (map snd r') \<and> fits s (n + length xs) 0 r' \<and> length xs < len
    \<and> sum_list (map fst r') = sum_list (map fst r) \<and> length r' \<le> length r
    \<and> (\<forall>p q. r = (0, p) # q \<longrightarrow> xs \<noteq> [] \<and> length r' < length r)"
  using assms
proof (induction r arbitrary: n k len xs)
  case (Cons a r)
  obtain d p where a: "a = (d, p)" by (cases a)
  have p: "p \<noteq> []" using Cons.prems(1) by (simp add: a Let_def)
  show ?case
  proof (cases "d = 0")
    case False
    then have "xs = []" "r' = a # r" using Cons.prems(5) by (simp_all add: a)
    then show ?thesis using Cons.prems(1,4) False by (simp add: a)
  next
    case True
    have f: "k + length p \<le> 256 \<or> n + length p < s" "fits s (n + length p) (k + length p) r"
      using Cons.prems(1) True by (simp_all add: a Let_def)
    then have l: "length p < len" using Cons.prems(2,3) by auto
    obtain ys where ys: "collect (len - length p) r = (ys, r')" "xs = p @ ys"
      using Cons.prems(4,5) p l True by (auto simp: a split: prod.splits)
    from Cons.IH [OF f(2) _ _ _ ys(1)] l Cons.prems(2,3) ys(2) p True show ?thesis by (auto simp: a add.assoc)
  qed
qed simp

lemma split_unique: "xs @ c # ys = us @ c # vs \<Longrightarrow> c \<notin> set xs \<Longrightarrow> c \<notin> set us \<Longrightarrow> xs = us \<and> ys = vs"
  by (auto simp: append_eq_append_conv2 append_eq_Cons_conv Cons_eq_append_conv)

lemma on_buffer_ok: "f (t_buffer t) = Inr b \<Longrightarrow> on_buffer f t = (Inr (), t\<lparr>t_buffer := b\<rparr>)"
  by (simp add: on_buffer_def)

lemma toggle_write:
  assumes "bb_wf b" "b_length b < b_size b" "b_pos b \<le> b_length b"
  obtains b1 where "bb_toggle True b = Inr b1" "bb_ready b1" "bb_data b1 = drop (unat (b_pos b)) (bb_data b)" "b_size b1 = b_size b"
proof (cases "b_pos b = b_length b")
  case True
  then have "bb_ready (b\<lparr>b_pos := 0, b_length := 0\<rparr>)"
    using assms(1,2) by (auto simp: bb_ready_def bb_wf_def word_less_nat_alt)
  then show thesis using that [of "b\<lparr>b_pos := 0, b_length := 0\<rparr>"] True by (simp add: bb_toggle_def bb_data_def)
next
  case False
  then have "b_pos b < b_length b" using assms(3) by simp
  then obtain b1 where "bb_moveStart b = Inr b1" "bb_ready b1" "bb_data b1 = drop (unat (b_pos b)) (bb_data b)"
    using bb_moveStart_ok [OF assms(1,2)] by blast
  moreover from this(1) have "b_size b1 = b_size b" by (auto simp: bb_moveStart_def Let_def res_simps split: if_splits)
  ultimately show thesis using that False by (simp add: bb_toggle_def)
qed

lemma ready_le: "bb_ready b \<Longrightarrow> b_pos b \<le> b_size b \<and> b_length b = b_pos b"
  by (auto simp: bb_ready_def intro: less_imp_le)

lemma grow:
  assumes "bb_ready b" "unat (b_size b) \<le> 512016" "unat (b_pos b) \<le> 500000"
  obtains b1 where "(if b_size b - b_pos b \<le> 256
      then bb_resize (if 512000 < b_size b + 1024 then 512000 else b_size b + 1024) b else Inr b) = Inr b1"
    "bb_ready b1" "bb_data b1 = bb_data b" "unat (b_pos b1) + 256 < unat (b_size b1)" "unat (b_size b1) \<le> 512016" "b_pos b1 = b_pos b"
    "b_size b \<le> b_size b1"
proof (cases "b_size b - b_pos b \<le> 256")
  case False
  have le: "b_pos b \<le> b_size b" using ready_le [OF assms(1)] by simp
  have "256 < unat (b_size b - b_pos b)" using False by (simp add: word_le_nat_alt)
  then have "unat (b_pos b) + 256 < unat (b_size b)" using le by (simp add: unat_sub)
  then show thesis using that [of b] False assms by simp
next
  case True
  have le: "b_pos b \<le> b_size b" using ready_le [OF assms(1)] by simp
  have "unat (b_size b - b_pos b) \<le> 256" using True by (simp add: word_le_nat_alt)
  then have s: "unat (b_size b) \<le> 500256" using assms(3) le by (simp add: unat_sub)
  then have n: "unat (b_size b + 1024) = unat (b_size b) + 1024" using unat_plus_small [of "b_size b" 1024] by simp
  have "\<not> 512000 < b_size b + 1024" using n s by (simp add: word_less_nat_alt)
  moreover have pos: "0 < b_size b + 1024" using n by (simp add: word_less_nat_alt)
  moreover have "unat (b_size b + 1024) + 16 < 2 ^ 32" using n s by simp
  ultimately obtain b1 where b1: "bb_resize (b_size b + 1024) b = Inr b1" "bb_wf b1" "b_pos b1 = b_pos b" "b_length b1 = b_length b"
      "unat (b_size b + 1024) < unat (b_size b1)"
      "\<forall>k. k \<le> unat (b_size b + 1024) \<longrightarrow> k \<le> length (b_buffer b) \<longrightarrow> take k (b_buffer b1) = take k (b_buffer b)"
    using bb_resize_ok [of b "b_size b + 1024"] assms(1) unfolding bb_ready_def by blast
  have sz: "b_size b1 \<le> 512016"
  proof -
    have "b_size b1 = ROUNDUP (b_size b + 1024 + 1) 16 \<or> b_size b1 = b_size b"
      using b1(1) pos by (auto simp: bb_resize_def Let_def res_simps split: if_splits)
    moreover have "unat (ROUNDUP (b_size b + 1024 + 1) 16) = 16 * ((unat (b_size b + 1024) + 16) div 16)"
      using bb_target(1) [of "b_size b + 1024"] n s by simp
    ultimately show ?thesis using n s assms(2) by (auto simp: word_le_nat_alt)
  qed
  have "unat (b_length b) \<le> length (b_buffer b)" "unat (b_length b) \<le> unat (b_size b + 1024)"
    using assms(1) n by (auto simp: bb_ready_def bb_wf_def word_less_nat_alt)
  then have "bb_data b1 = bb_data b" using b1(4,6) by (simp add: bb_data_def)
  moreover have "bb_ready b1" using b1 n le assms(1) by (auto simp: bb_ready_def word_less_nat_alt)
  moreover have "unat (b_pos b1) + 256 < unat (b_size b1)" using b1(3,5) n le by (simp add: word_le_nat_alt)
  moreover have "b_size b \<le> b_size b1" using b1(5) n by (simp add: word_le_nat_alt)
  ultimately show thesis using that [of b1] b1(1,3) sz True \<open>\<not> 512000 < b_size b + 1024\<close> by (simp add: word_le_nat_alt)
qed

lemma receive:
  assumes ok: "tcp_ok t" and a: "t_arrivals t = (0, p) # r" and l: "length (unread t) \<le> 500000"
  obtains xs t' where "bufferedRecv t = (Inr (length xs), t')" "tcp_ok t'" "in_stream t' = in_stream t" "unread t' = unread t @ xs"
    "length (t_arrivals t') < length (t_arrivals t)" "delays t' = delays t" "t_clock t' = t_clock t" "t_sent t' = t_sent t"
proof -
  let ?b = "t_buffer t"
  have b: "bb_wf ?b" "b_length ?b < b_size ?b" "b_pos ?b \<le> b_length ?b" "unat (b_size ?b) \<le> 512016"
    and t: "t_open t" "t_max_size t = 512000" and fit: "fits (unat (b_size ?b)) (length (unread t)) 0 ((0, p) # r)"
    using ok a by (auto simp: tcp_ok_def Let_def)
  obtain b1 where b1: "bb_toggle True ?b = Inr b1" "bb_ready b1" "bb_data b1 = unread t" "b_size b1 = b_size ?b"
    using toggle_write [OF b(1-3)] unfolding unread_def by blast
  have pos1: "unat (b_pos b1) = length (unread t)" using ready_length [OF b1(2)] b1(3) by simp
  have nf: "b_size b1 - b_pos b1 \<noteq> 0" using b1(2) by (auto simp: bb_ready_def)
  have "unat (b_pos b1) \<le> 500000" using pos1 l by simp
  then obtain b2 where b2: "(if b_size b1 - b_pos b1 \<le> 256
      then bb_resize (if 512000 < b_size b1 + 1024 then 512000 else b_size b1 + 1024) b1 else Inr b1) = Inr b2"
      "bb_ready b2" "bb_data b2 = bb_data b1" "unat (b_pos b2) + 256 < unat (b_size b2)" "unat (b_size b2) \<le> 512016" "b_pos b2 = b_pos b1"
      "b_size b1 \<le> b_size b2"
    using grow [OF b1(2)] b(4) b1(4) by metis
  let ?t2 = "t\<lparr>t_buffer := b2\<rparr>" and ?free = "unat (b_size b2 - b_pos b2)"
  have le: "b_pos b2 \<le> b_size b2" using ready_le [OF b2(2)] by simp
  then have fr: "?free = unat (b_size b2) - unat (b_pos b2)" by (simp add: unat_sub)
  have f: "256 < ?free" "unat (b_pos b2) + ?free = unat (b_size b2)" using b2(4) unfolding fr by simp_all
  have sz: "unat (b_size ?b) \<le> unat (b_size b2)" using b2(7) b1(4) by (simp add: word_le_nat_alt)
  have pos2: "unat (b_pos b2) = length (unread t)" using pos1 b2(6) by simp
  obtain xs r' where x: "collect ?free ((0, p) # r) = (xs, r')" by (cases "collect ?free ((0, p) # r)")
  have c: "concat (map snd ((0 :: nat, p) # r)) = xs @ concat (map snd r')" "fits (unat (b_size ?b)) (length (unread t) + length xs) 0 r'"
      "length xs < ?free" "sum_list (map fst r') = sum_list (map fst ((0, p) # r))" "xs \<noteq> []" "length r' < length ((0 :: nat, p) # r)"
    using collect_fits [OF fit _ _ _ x] sz f pos2 by auto
  let ?t3 = "?t2\<lparr>t_arrivals := r'\<rparr>"
  have tt: "?t2\<lparr>t_arrivals := (0, p) # r, t_clock := t_clock ?t2\<rparr> = ?t2" using a by (cases t) simp
  have "os_recv ?free ?t2 = (Inr xs, ?t3)" using a x by (simp add: os_recv_def del: collect.simps)
  moreover have "isRecvReady 0 ?t2 = (Inr True, ?t2)" using a tt by (simp add: isRecvReady_def)
  ultimately have "sock_recv ?free 0 ?t2 = (Inr xs, ?t3)" using t(1) c(5) by (simp add: sock_recv_def)
  moreover define m where "m = take (unat (b_pos b2)) (b_buffer b2) @ xs @ drop (unat (b_pos b2) + length xs) (b_buffer b2)"
  have lb: "length (b_buffer b2) = unat (b_size b2)" using b2(2) by (simp add: bb_ready_def bb_wf_def)
  have room: "unat (b_pos b2) + length xs < unat (b_size b2)" using c(3) f(2) by linarith
  then have "blk_put (b_buffer b2) (unat (b_pos b2)) xs = Inr m" using lb by (simp add: blk_put_def m_def)
  moreover define n where "n = of_nat (length xs) + b_pos b2"
  have n: "unat n = unat (b_pos b2) + length xs"
    using unat_plus_small [of "of_nat (length xs)" "b_pos b2"] room b2(5) by (simp add: n_def unat_of_nat_small)
  have "bb_setPosition n (bb_setLength n (b2\<lparr>b_buffer := m\<rparr>)) = Inr (b2\<lparr>b_buffer := m, b_length := n, b_pos := n\<rparr>)"
    using n room by (simp add: bb_setPosition_def bb_setLength_def word_less_nat_alt)
  moreover define b3 where "b3 = b2\<lparr>b_buffer := m, b_length := n, b_pos := 0\<rparr>"
  have "bb_toggle False (b2\<lparr>b_buffer := m, b_length := n, b_pos := n\<rparr>) = Inr b3" by (simp add: bb_toggle_def b3_def)
  ultimately have recv: "bufferedRecv t = (Inr (length xs), ?t3\<lparr>t_buffer := b3\<rparr>)"
    using b1(1) nf b2(1) t(2) c(5)
    by (auto simp: bufferedRecv_def on_buffer_def bindA_def returnA_def Let_def n_def [symmetric] split: if_splits)
  have lm: "length m = unat (b_size b2)" using lb room by (simp add: m_def)
  have wf3: "bb_wf b3" using lm b2(2) by (simp add: b3_def bb_wf_def bb_ready_def)
  have "bb_data b2 = take (unat (b_pos b2)) (b_buffer b2)" using b2(2) by (simp add: bb_data_def bb_ready_def)
  moreover have "bb_data b3 = take (unat n) m" by (simp add: b3_def bb_data_def)
  moreover have "take (unat n) m = take (unat (b_pos b2)) (b_buffer b2) @ xs" using n lb room by (simp add: m_def)
  ultimately have "bb_data b3 = unread t @ xs" using b1(3) b2(3) by simp
  moreover have "unread (?t3\<lparr>t_buffer := b3\<rparr>) = drop (unat (b_pos b3)) (bb_data b3)" "b_pos b3 = 0"
    by (simp_all add: unread_def b3_def)
  ultimately have u: "unread (?t3\<lparr>t_buffer := b3\<rparr>) = unread t @ xs" by simp
  have "fits (unat (b_size b2)) (length (unread t @ xs)) 0 r'" using fits_mono [OF c(2) order_refl sz order_refl] by simp
  then have "tcp_ok (?t3\<lparr>t_buffer := b3\<rparr>)"
    using t wf3 n room b2(5) u by (simp add: tcp_ok_def b3_def Let_def word_less_nat_alt)
  then show thesis using that [OF recv] u c(1,4,6) a by (simp add: in_stream_def delays_def)
qed

text \<open>Waiting for what comes next, and taking it.\<close>

lemma await:
  assumes ok: "tcp_ok t" and a: "t_arrivals t \<noteq> []" and m: "prompt msec t" and l: "length (unread t) \<le> 500000"
  obtains xs t1 t' where "isRecvReady msec t = (Inr True, t1)" "bufferedRecv t1 = (Inr (length xs), t')" "tcp_ok t'"
    "in_stream t' = in_stream t" "unread t' = unread t @ xs" "length (t_arrivals t') < length (t_arrivals t)"
    "t_clock t \<le> t_clock t'" "t_clock t' + delays t' = t_clock t + delays t" "t_sent t' = t_sent t"
proof -
  obtain d p r where d: "t_arrivals t = (d, p) # r" using a by (cases "t_arrivals t") auto
  let ?t = "t\<lparr>t_arrivals := (0, p) # r, t_clock := t_clock t + d\<rparr>"
  have "int d \<le> int (length (t_arrivals t) * delays t)" by (simp add: d delays_def)
  then have "int d \<le> msec" "0 \<le> msec" using m by (auto simp: prompt_def intro: order_trans)
  then have ready: "isRecvReady msec t = (Inr True, ?t)" by (simp add: isRecvReady_def d)
  have u: "unread ?t = unread t" by (simp add: unread_def)
  then have "tcp_ok ?t" using ok fits_now [of _ _ d p r] by (simp add: tcp_ok_def d)
  then obtain xs t' where t': "bufferedRecv ?t = (Inr (length xs), t')" "tcp_ok t'" "in_stream t' = in_stream ?t" "unread t' = unread ?t @ xs"
      "length (t_arrivals t') < length (t_arrivals ?t)" "delays t' = delays ?t" "t_clock t' = t_clock ?t" "t_sent t' = t_sent ?t"
    using receive [of ?t p r] l u by auto
  have "in_stream ?t = in_stream t" by (simp add: in_stream_def u d)
  moreover have "delays t = d + delays ?t" by (simp add: delays_def d)
  ultimately show thesis using that [OF ready t'(1,2)] t' u by (simp add: d)
qed

lemma prompt_later:
  assumes "prompt msec t" "length (t_arrivals t') \<le> length (t_arrivals t)" "delays t' \<le> delays t"
  shows "prompt msec t'"
proof -
  have "length (t_arrivals t') * delays t' \<le> length (t_arrivals t) * delays t" using assms(2,3) by (rule mult_le_mono)
  then show ?thesis using assms(1) unfolding prompt_def by linarith
qed

lemma unread_bound: "tcp_ok t \<Longrightarrow> unat (b_length (t_buffer t)) + 16 < 2 ^ 31"
  by (auto simp: tcp_ok_def Let_def word_less_nat_alt)

lemma search_miss:
  assumes "tcp_ok t" "c \<notin> set (unread t)" "str_wf buf"
  obtains buf' where "search_chr c buf t = (Inr (0, buf'), t)" "str_wf buf'" "content buf' = []"
proof -
  have b: "bb_wf (t_buffer t)" "b_length (t_buffer t) \<le> b_size (t_buffer t)" "b_pos (t_buffer t) \<le> b_length (t_buffer t)"
    using assms(1) by (auto simp: tcp_ok_def Let_def)
  show thesis using buffer_readUntil [OF b unread_bound [OF assms(1)] assms(3) refl refl, of c] assms(2) that
    by (auto simp: unread_def search_chr_def)
qed

lemma search_hit:
  assumes ok: "tcp_ok t" and u: "unread t = line @ c # us" "c \<notin> set line" and w: "str_wf buf"
  obtains buf' t' where "search_chr c buf t = (Inr (of_nat (Suc (length line)), buf'), t')" "str_wf buf'" "content buf' = line @ [c]"
    "tcp_ok t'" "unread t' = us" "t_arrivals t' = t_arrivals t" "t_clock t' = t_clock t" "t_sent t' = t_sent t"
proof -
  let ?b = "t_buffer t" and ?n = "of_nat (Suc (length line)) :: u32"
  have b: "bb_wf ?b" "b_length ?b \<le> b_size ?b" "b_pos ?b \<le> b_length ?b" using ok by (auto simp: tcp_ok_def Let_def)
  have tw: "takeWhile (\<lambda>x. x \<noteq> c) (unread t) = line" unfolding u(1) using u(2) by (induction line) auto
  obtain buf' where r: "bb_readUntil_chr buf c ?b = Inr (?n, buf', ?b\<lparr>b_pos := b_pos ?b + ?n\<rparr>)" "str_wf buf'" "content buf' = line @ [c]"
    using buffer_readUntil [OF b unread_bound [OF ok] w refl refl, of c] tw u(1) by (auto simp: unread_def)
  let ?t' = "t\<lparr>t_buffer := ?b\<lparr>b_pos := b_pos ?b + ?n\<rparr>\<rparr>"
  have "length (unread t) = unat (b_length ?b) - unat (b_pos ?b)"
    using length_data [OF b(1,2)] by (simp add: unread_def)
  then have l: "unat (b_pos ?b) + Suc (length line) \<le> unat (b_length ?b)" using u(1) by simp
  moreover have "unat ?n = Suc (length line)" using l unread_bound [OF ok] by (intro unat_of_nat_small) simp
  ultimately have p: "unat (b_pos ?b + ?n) = unat (b_pos ?b) + Suc (length line)"
    using unat_plus_small [of "b_pos ?b" ?n] unat_lt32 [of "b_length ?b"] by simp
  have "unread ?t' = drop (Suc (length line)) (unread t)"
    using p by (simp add: unread_def bb_data_def add.commute)
  then have u': "unread ?t' = us" using u(1) by simp
  moreover have "fits (unat (b_size ?b)) (length us) 0 (t_arrivals t)"
    by (rule fits_mono [where n = "length (unread t)" and k = 0, OF _ _ order_refl order_refl]) (use ok u(1) in \<open>simp_all add: tcp_ok_def\<close>)
  then have "tcp_ok ?t'" using ok p l u' by (auto simp: tcp_ok_def Let_def bb_wf_def word_le_nat_alt)
  ultimately show thesis using that [of buf' ?t'] r by (simp add: search_chr_def)
qed

lemma hit_in_unread:
  assumes "tcp_ok t" "length (in_stream t) \<le> 500000" "in_stream t = line @ c # rest" "c \<notin> set line" "c \<in> set (unread t)" "str_wf buf"
  obtains n buf' t' where "search_chr c buf t = (Inr (n, buf'), t')" "n = of_nat (Suc (length line))" "0 < n" "s_string_length buf' = n"
    "str_wf buf'" "content buf' = line @ [c]" "in_stream t' = rest" "tcp_ok t'" "t_sent t' = t_sent t"
    "length (t_arrivals t') \<le> length (t_arrivals t)" "delays t' \<le> delays t"
proof -
  have "unread t @ concat (map snd (t_arrivals t)) = line @ c # rest" using assms(3) by (simp add: in_stream_def)
  moreover obtain xs us where x: "unread t = xs @ c # us" "c \<notin> set xs" using assms(5) by (metis split_list_first)
  ultimately have "xs = line \<and> us @ concat (map snd (t_arrivals t)) = rest"
    using split_unique [of xs c "us @ concat (map snd (t_arrivals t))" line rest] assms(4) by simp
  then have x: "unread t = line @ c # us" "us @ concat (map snd (t_arrivals t)) = rest" using x by simp_all
  obtain buf' t' where h: "search_chr c buf t = (Inr (of_nat (Suc (length line)), buf'), t')" "str_wf buf'" "content buf' = line @ [c]"
      "tcp_ok t'" "unread t' = us" "t_arrivals t' = t_arrivals t" "t_sent t' = t_sent t"
    using search_hit [OF assms(1) x(1) assms(4,6)] by blast
  have "Suc (length line) \<le> 500000" using assms(2,3) by simp
  then have u: "unat (of_nat (Suc (length line)) :: u32) = Suc (length line)" by (intro unat_of_nat_small) simp
  then have "0 < (of_nat (Suc (length line)) :: u32)" by (simp add: word_less_nat_alt)
  moreover have "s_string_length buf' = of_nat (Suc (length line))"
    using length_content [OF h(2)] h(3) u by (simp add: word_unat_eq_iff)
  moreover have "in_stream t' = rest" using h(5,6) x(2) by (simp add: in_stream_def)
  ultimately show thesis using that [OF h(1) refl] h by (simp add: delays_def)
qed

lemma timer_hit:
  assumes "tcp_ok t" "length (in_stream t) \<le> 500000" "in_stream t = line @ c # rest" "c \<notin> set line" "c \<notin> set (unread t)"
    and "str_wf buf" "timer \<le> t_clock t" "int (length (t_arrivals t) * (t_clock t - timer + delays t)) < msec" "length (t_arrivals t) < n"
  shows "\<exists>buf' t'. timer_loop n (search_chr c) timer msec buf t = (Inr (of_nat (Suc (length line)), buf'), t')
    \<and> str_wf buf' \<and> content buf' = line @ [c] \<and> in_stream t' = rest \<and> tcp_ok t' \<and> t_sent t' = t_sent t
    \<and> length (t_arrivals t') \<le> length (t_arrivals t) \<and> delays t' \<le> delays t"
  using assms
proof (induction n arbitrary: t buf msec)
  case (Suc n)
  have "t_arrivals t \<noteq> []"
  proof
    assume "t_arrivals t = []"
    then have "in_stream t = unread t" by (simp add: in_stream_def)
    moreover have "c \<in> set (line @ c # rest)" by simp
    ultimately show False using Suc.prems(3,5) by metis
  qed
  moreover define E where "E = t_clock t - timer + delays t"
  have "length (t_arrivals t) * delays t \<le> length (t_arrivals t) * E" by (simp add: E_def)
  then have m: "prompt msec t" "0 < msec" using Suc.prems(8) [folded E_def] unfolding prompt_def by linarith+
  moreover have "length (unread t) \<le> 500000" using Suc.prems(2) by (simp add: in_stream_def)
  ultimately obtain xs t0 t1 where t1: "isRecvReady msec t = (Inr True, t0)" "bufferedRecv t0 = (Inr (length xs), t1)" "tcp_ok t1"
      "in_stream t1 = in_stream t" "unread t1 = unread t @ xs" "length (t_arrivals t1) < length (t_arrivals t)"
      "t_clock t \<le> t_clock t1" "t_clock t1 + delays t1 = t_clock t + delays t" "t_sent t1 = t_sent t"
    using await [OF Suc.prems(1), of msec] by blast
  have s: "length (in_stream t1) \<le> 500000" "in_stream t1 = line @ c # rest" using t1(4) Suc.prems(2,3) by simp_all
  have d: "delays t1 \<le> delays t" using t1(7,8) by linarith
  show ?case
  proof (cases "c \<in> set (unread t1)")
    case True
    obtain k buf' t' where h: "search_chr c buf t1 = (Inr (k, buf'), t')" "k = of_nat (Suc (length line))" "0 < k" "s_string_length buf' = k"
        "str_wf buf'" "content buf' = line @ [c]" "in_stream t' = rest" "tcp_ok t'" "t_sent t' = t_sent t1"
        "length (t_arrivals t') \<le> length (t_arrivals t1)" "delays t' \<le> delays t1"
      using hit_in_unread [OF t1(3) s Suc.prems(4) True Suc.prems(6)] .
    then show ?thesis using m(2) t1(1,2,6,9) d by (simp add: returnA_def)
  next
    case False
    then obtain buf1 where b: "search_chr c buf t1 = (Inr (0, buf1), t1)" "str_wf buf1"
      using search_miss [OF t1(3) _ Suc.prems(6)] by blast
    let ?msec = "msec - (int (t_clock t1) - int timer)"
    have e: "t_clock t1 - timer + delays t1 = E" using t1(7,8) Suc.prems(7) by (simp add: E_def)
    have "Suc (length (t_arrivals t1)) * E \<le> length (t_arrivals t) * E" using t1(6) by (intro mult_le_mono1) simp
    then have "int (length (t_arrivals t1) * E + E) \<le> int (length (t_arrivals t) * E)" by (simp only: of_nat_le_iff mult_Suc add.commute)
    then have "int (length (t_arrivals t1) * E) + int E < msec" using Suc.prems(8) [folded E_def] by (simp only: of_nat_add)
    moreover have "int (t_clock t1) - int timer \<le> int E" using e t1(7) Suc.prems(7) by linarith
    ultimately have "int (length (t_arrivals t1) * (t_clock t1 - timer + delays t1)) < ?msec" unfolding e by linarith
    moreover have "timer \<le> t_clock t1" "length (t_arrivals t1) < n" using Suc.prems(7,9) t1(6,7) by simp_all
    ultimately have "timer \<le> t_clock t1" "int (length (t_arrivals t1) * (t_clock t1 - timer + delays t1)) < ?msec" "length (t_arrivals t1) < n"
      by blast+
    note n = Suc.IH [OF t1(3) s Suc.prems(4) False b(2) this]
    have step: "timer_loop (Suc n) (search_chr c) timer msec buf t = timer_loop n (search_chr c) timer ?msec buf1 t1"
      using m(2) t1(1,2) b(1) by simp
    show ?thesis
    proof -
      obtain buf' t' where "timer_loop n (search_chr c) timer ?msec buf1 t1 = (Inr (of_nat (Suc (length line)), buf'), t')"
          "str_wf buf'" "content buf' = line @ [c]" "in_stream t' = rest" "tcp_ok t'" "t_sent t' = t_sent t1"
          "length (t_arrivals t') \<le> length (t_arrivals t1)" "delays t' \<le> delays t1"
        using n by auto
      then show ?thesis unfolding step using t1(6,9) d by auto
    qed
  qed
qed simp

lemma arrivals_le_fuel: "length (t_arrivals t) < arrivals_fuel t"
proof -
  have "length xs \<le> sum_list (map (\<lambda>(d, p). Suc (length p)) xs)" for xs :: "(nat \<times> u8 list) list"
    by (induction xs) auto
  then show ?thesis by (simp add: arrivals_fuel_def less_Suc_eq_le)
qed

lemma stream_hit:
  assumes "tcp_ok t" "length (in_stream t) \<le> 500000" "in_stream t = line @ c # rest" "c \<notin> set line" "str_wf buf" "prompt msec t"
  shows "\<exists>buf' t'. tcp_readUntil (search_chr c) msec buf t = (Inr (of_nat (Suc (length line)), buf'), t')
    \<and> str_wf buf' \<and> content buf' = line @ [c] \<and> in_stream t' = rest \<and> tcp_ok t' \<and> t_sent t' = t_sent t
    \<and> length (t_arrivals t') \<le> length (t_arrivals t) \<and> delays t' \<le> delays t"
proof (cases "c \<in> set (unread t)")
  case True
  obtain k buf' t' where h: "search_chr c buf t = (Inr (k, buf'), t')" "k = of_nat (Suc (length line))" "0 < k" "s_string_length buf' = k"
      "str_wf buf'" "content buf' = line @ [c]" "in_stream t' = rest" "tcp_ok t'" "t_sent t' = t_sent t"
      "length (t_arrivals t') \<le> length (t_arrivals t)" "delays t' \<le> delays t"
    using hit_in_unread [OF assms(1-4) True assms(5)] .
  then show ?thesis by (simp add: tcp_readUntil_def)
next
  case False
  then obtain buf1 where m: "search_chr c buf t = (Inr (0, buf1), t)" "str_wf buf1"
    using search_miss [OF assms(1) _ assms(5)] by blast
  have "0 \<le> int (length (t_arrivals t) * delays t)" by simp
  then have "0 < msec" using assms(6) unfolding prompt_def by linarith
  moreover have "int (length (t_arrivals t) * (t_clock t - t_clock t + delays t)) < msec" using assms(6) by (simp add: prompt_def)
  moreover have "tcp_readUntil (search_chr c) msec buf t = timer_loop (arrivals_fuel t) (search_chr c) (t_clock t) msec buf1 t"
    using calculation(1) m(1) by (simp add: tcp_readUntil_def)
  ultimately show ?thesis using timer_hit [OF assms(1-4) False m(2) order_refl _ arrivals_le_fuel] by simp
qed

text \<open>
  C4. A read up to a character returns the bytes of the stream through its first occurrence, and the stream
  continues behind it: two connections that carry the same stream in different packets are read alike.
  The packets may come one by one or together and with delays, as long as they are in time (\<open>prompt\<close>)
  and do not overfill the buffer of the socket (\<open>fits\<close>, in \<open>tcp_ok\<close>): what arrives together has at most
  256 bytes, or the whole stream up to it fits into the buffer, which has 1040 bytes in a new socket.
  Larger bursts can make the code write behind its buffer (\<open>tcp_defects\<close>).
\<close>

theorem tcp_reads_stream:
  assumes "tcp_ok t" "tcp_ok u" "length (in_stream t) \<le> 500000" "in_stream t = line @ c # rest" "in_stream u = in_stream t"
    and "c \<notin> set line" "str_wf buf" "str_wf buf'" "prompt msec t" "prompt msec' u"
  shows "\<exists>b t'. tcp_readUntil (search_chr c) msec buf t = (Inr (of_nat (Suc (length line)), b), t')
    \<and> content b = line @ [c] \<and> in_stream t' = rest \<and> tcp_ok t'
    \<and> (\<exists>b' u'. tcp_readUntil (search_chr c) msec' buf' u = (Inr (of_nat (Suc (length line)), b'), u')
      \<and> content b' = content b \<and> in_stream u' = in_stream t' \<and> tcp_ok u')"
  using stream_hit [OF assms(1,3,4,6,7,9)] stream_hit [OF assms(2) _ _ assms(6,8,10)] assms(3,4,5) by metis

lemma stream_fuel: "tcp_ok t \<Longrightarrow> length (in_stream t) < arrivals_fuel t + unat (bb_remaining (t_buffer t))"
proof -
  assume ok: "tcp_ok t"
  have b: "bb_wf (t_buffer t)" "b_length (t_buffer t) \<le> b_size (t_buffer t)" "b_pos (t_buffer t) \<le> b_length (t_buffer t)"
    using ok by (auto simp: tcp_ok_def Let_def)
  have "unat (bb_remaining (t_buffer t)) = length (unread t)"
    using b(3) length_data [OF b(1,2)] by (simp add: bb_remaining_def unread_def unat_sub)
  moreover have "length (concat (map snd xs)) \<le> sum_list (map (\<lambda>(d, p). Suc (length p)) xs)" for xs :: "(nat \<times> u8 list) list"
    by (induction xs) auto
  ultimately show ?thesis by (simp add: in_stream_def arrivals_fuel_def less_Suc_eq_le)
qed

lemma tcp_new_ok:
  assumes "fits 1040 0 0 arrivals"
  obtains t where "tcp_new arrivals = Inr t" "tcp_ok t" "in_stream t = concat (map snd arrivals)" "t_sent t = []" "t_arrivals t = arrivals"
proof -
  define b where "b = \<lparr>b_buffer = (blk_realloc [] 1040)[1039 := 0], b_size = 1040, b_length = 0, b_pos = 0\<rparr>"
  have "bb_new 1024 = Inr b" by (simp add: b_def bb_new_def bb_resize_def ROUNDUP_def Let_def blk_write_def)
  moreover have "bb_wf b" by (simp add: b_def bb_wf_def)
  ultimately show thesis
    using that [of "\<lparr>t_open = True, t_buffer = b, t_max_size = 512000, t_arrivals = arrivals, t_clock = 0, t_sent = []\<rparr>"] assms
    by (simp add: tcp_new_def tcp_ok_def in_stream_def unread_def bb_data_def b_def)
qed

text \<open>The stream in one delivery of two packets, and cut elsewhere with a pause of a second.\<close>

theorem tcp_reads_stream_witness:
  "\<exists>t u b t' b' u'. tcp_new [(0, [71, 69]), (0, [84, 10, 65])] = Inr t \<and> tcp_new [(5, [71, 69, 84]), (1000, [10, 65])] = Inr u
    \<and> tcp_readUntil (search_chr 10) 10000 str_empty t = (Inr (4, b), t') \<and> content b = [71, 69, 84, 10] \<and> in_stream t' = [65]
    \<and> tcp_readUntil (search_chr 10) 10000 str_empty u = (Inr (4, b'), u') \<and> content b' = [71, 69, 84, 10] \<and> in_stream u' = [65]"
proof -
  have "fits 1040 0 0 [(0, [71, 69]), (0, [84, 10, 65])]" by simp
  then obtain t where t: "tcp_new [(0, [71, 69]), (0, [84, 10, 65])] = Inr t" "tcp_ok t" "in_stream t = [71, 69, 84, 10, 65]"
      "t_arrivals t = [(0, [71, 69]), (0, [84, 10, 65])]"
    by (rule tcp_new_ok) simp
  have "fits 1040 0 0 [(5, [71, 69, 84]), (1000, [10, 65])]" by simp
  then obtain u where u: "tcp_new [(5, [71, 69, 84]), (1000, [10, 65])] = Inr u" "tcp_ok u" "in_stream u = [71, 69, 84, 10, 65]"
      "t_arrivals u = [(5, [71, 69, 84]), (1000, [10, 65])]"
    by (rule tcp_new_ok) simp
  have p: "prompt 10000 t" "prompt 10000 u" by (simp_all add: prompt_def delays_def t(4) u(4))
  have "in_stream t = [71, 69, 84] @ 10 # [65]" "in_stream u = in_stream t" using t(3) u(3) by simp_all
  note r = tcp_reads_stream [OF t(2) u(2) _ this _ str_wf_empty str_wf_empty p]
  obtain b t' b' u' where "tcp_readUntil (search_chr 10) 10000 str_empty t = (Inr (of_nat (Suc (length [71, 69, 84 :: u8])), b), t')"
      "content b = [71, 69, 84] @ [10]" "in_stream t' = [65]"
      "tcp_readUntil (search_chr 10) 10000 str_empty u = (Inr (of_nat (Suc (length [71, 69, 84 :: u8])), b'), u')"
      "content b' = content b" "in_stream u' = in_stream t'"
    using r t(3) by auto
  then show ?thesis using t(1) u(1) by simp
qed

section \<open>Reading a given number of bytes\<close>

lemma br_string_copy:
  assumes "0 < n" "rd 1 n s = Inr (xs, count, s')" "length xs = unat n"
  shows "br_string rd str n s = bindR (str_copy xs n str) (\<lambda>str. Inr (str, count, s'))"
proof -
  have "n \<noteq> 0" using assms(1) by auto
  then show ?thesis using assms by (simp add: br_string_def field_size_def str_copy_def blk_slice_def bindR_assoc)
qed

lemma fill:
  assumes "tcp_ok t" "length (in_stream t) \<le> 500000" "unat len \<le> length (in_stream t)" "length (t_arrivals t) < n" "prompt 10000 t"
  obtains t' where "readAll_loop n len t = (Inr (), t')" "tcp_ok t'" "in_stream t' = in_stream t" "unat len \<le> length (unread t')"
    "t_sent t' = t_sent t"
  using assms
proof (induction n arbitrary: t thesis)
  case (Suc n)
  have b: "bb_wf (t_buffer t)" "b_length (t_buffer t) \<le> b_size (t_buffer t)" "b_pos (t_buffer t) \<le> b_length (t_buffer t)"
    using Suc.prems(2) by (auto simp: tcp_ok_def Let_def)
  have rem: "unat (bb_remaining (t_buffer t)) = length (unread t)"
    using b(3) length_data [OF b(1,2)] by (simp add: bb_remaining_def unread_def unat_sub)
  show ?case
  proof (cases "bb_remaining (t_buffer t) < len")
    case False
    then show ?thesis using Suc.prems(1) [of t] Suc.prems(2) rem by (simp add: word_less_nat_alt)
  next
    case True
    then have "t_arrivals t \<noteq> []" using Suc.prems(4) rem by (auto simp: in_stream_def word_less_nat_alt)
    note a = await [OF Suc.prems(2) this Suc.prems(6)]
    have "length (unread t) \<le> 500000" using Suc.prems(3) by (simp add: in_stream_def)
    from a [OF this] obtain xs t0 t1 where t1: "isRecvReady 10000 t = (Inr True, t0)" "bufferedRecv t0 = (Inr (length xs), t1)" "tcp_ok t1"
        "in_stream t1 = in_stream t" "unread t1 = unread t @ xs" "length (t_arrivals t1) < length (t_arrivals t)"
        "t_clock t \<le> t_clock t1" "t_clock t1 + delays t1 = t_clock t + delays t" "t_sent t1 = t_sent t" .
    have "prompt 10000 t1" using prompt_later [OF Suc.prems(6), of t1] t1(6-8) by simp
    then obtain t' where t': "readAll_loop n len t1 = (Inr (), t')" "tcp_ok t'" "in_stream t' = in_stream t1" "unat len \<le> length (unread t')"
        "t_sent t' = t_sent t1"
      using Suc.IH [OF _ t1(3)] t1(4,6) Suc.prems(3-5) by auto
    then show ?thesis using Suc.prems(1) [of t'] True t1(1,2,4,9) by simp
  qed
qed simp

lemma readAll_short:
  assumes ok: "tcp_ok t" "length (in_stream t) \<le> 500000" "in_stream t = xs @ x # rest" "length xs = unat len - 1" "1 < unat len" "str_wf out"
    and pr: "prompt 10000 t"
  obtains out' t' where "tcp_readAll out len t = (Inr out', t')" "str_wf out'" "content out' = xs" "in_stream t' = x # rest" "tcp_ok t'"
    "t_sent t' = t_sent t"
proof -
  have "unat len \<le> length (in_stream t)" using assms(3,4,5) by simp
  then obtain t1 where t1: "readAll_loop (arrivals_fuel t) len t = (Inr (), t1)" "tcp_ok t1" "in_stream t1 = in_stream t"
      "unat len \<le> length (unread t1)" "t_sent t1 = t_sent t"
    using fill [OF ok(1,2) _ arrivals_le_fuel pr] by blast
  let ?b = "t_buffer t1" and ?n = "len - 1"
  have n: "unat ?n = length xs" using assms(4,5) by (simp add: unat_sub_if_size word_size unat_minus_one)
  have b: "bb_wf ?b" "b_length ?b < b_size ?b" "b_pos ?b \<le> b_length ?b" using t1(2) by (auto simp: tcp_ok_def Let_def)
  have l: "length (unread t1) = unat (b_length ?b) - unat (b_pos ?b)" using length_data [OF b(1)] b(2) by (simp add: unread_def)
  then have r: "unat (b_pos ?b) + unat (1 * ?n) < unat (b_length ?b)" using t1(4) n assms(4,5) by simp
  have u: "unread t1 = xs @ x # drop (Suc (length xs)) (unread t1)" "in_stream t1 = unread t1 @ concat (map snd (t_arrivals t1))"
  proof -
    show i: "in_stream t1 = unread t1 @ concat (map snd (t_arrivals t1))" by (simp add: in_stream_def)
    have "take (Suc (length xs)) (unread t1) = take (Suc (length xs)) (in_stream t1)" using i t1(4) n assms(4,5) by simp
    also have "\<dots> = xs @ [x]" using t1(3) assms(3) by simp
    finally have e: "take (Suc (length xs)) (unread t1) = xs @ [x]" .
    have "unread t1 = (xs @ [x]) @ drop (Suc (length xs)) (unread t1)" unfolding e [symmetric] by (rule append_take_drop_id [symmetric])
    then show "unread t1 = xs @ x # drop (Suc (length xs)) (unread t1)" by simp
  qed
  have tk: "take (unat (1 * ?n)) (drop (unat (b_pos ?b)) (b_buffer ?b)) = xs"
  proof -
    have "unread t1 = take (length (unread t1)) (drop (unat (b_pos ?b)) (b_buffer ?b))" using l by (simp add: unread_def bb_data_def drop_take)
    then have "take (length xs) (drop (unat (b_pos ?b)) (b_buffer ?b)) = take (length xs) (unread t1)"
      using t1(4) n assms(4,5) by (intro take_of_prefix [symmetric]) auto
    also have "\<dots> = xs" using u(1) by (metis append_eq_conv_conj)
    finally show ?thesis using n by simp
  qed
  let ?b' = "?b\<lparr>b_pos := b_pos ?b + 1 * ?n\<rparr>"
  have rd: "bb_read 1 ?n ?b = Inr (xs, 1 * ?n, ?b')" using bb_read_ok [OF b(1,2) r] tk by simp
  have "0 < ?n" using n assms(4,5) by (simp add: word_less_nat_alt)
  then have "bb_read_string out ?n ?b = bindR (str_copy xs ?n out) (\<lambda>str. Inr (str, 1 * ?n, ?b'))"
    unfolding bb_read_string_def by (rule br_string_copy [where rd = bb_read, OF _ rd]) (simp add: n)
  moreover have "length xs + 16 < 2 ^ 32" using assms(2,3) by simp
  then obtain out' where out': "str_copy xs ?n out = Inr out'" "str_wf out'" "content out' = xs"
    using str_copy_ok [OF str_wf_shape [OF assms(6)], of ?n xs] str_copy_Inr [OF str_wf_shape [OF assms(6)], of xs ?n] n str_wf_min [OF assms(6)]
    by fastforce
  moreover let ?t' = "t1\<lparr>t_buffer := ?b'\<rparr>"
  have p: "unat (b_pos ?b + 1 * ?n) = unat (b_pos ?b) + length xs"
    using unat_plus_small [of "b_pos ?b" ?n] r n unat_lt32 [of "b_length ?b"] by simp
  have "in_stream ?t' = x # rest"
  proof -
    have "unread ?t' = drop (length xs) (unread t1)" using p by (simp add: unread_def bb_data_def add.commute)
    then have "in_stream ?t' = drop (length xs) (in_stream t1)" using u t1(4) n assms(4,5) by (simp add: in_stream_def)
    then show ?thesis using t1(3) assms(3) by simp
  qed
  moreover have "fits (unat (b_size ?b)) (length (unread ?t')) 0 (t_arrivals t1)"
    by (rule fits_mono [where n = "length (unread t1)" and k = 0, OF _ _ order_refl order_refl]) (use t1(2) p in \<open>simp_all add: tcp_ok_def unread_def bb_data_def\<close>)
  then have "tcp_ok ?t'" using t1(2) p r n by (auto simp: tcp_ok_def Let_def bb_wf_def word_le_nat_alt)
  ultimately show thesis using that [of out' ?t'] t1(1,5) by (simp add: tcp_readAll_def)
qed

section \<open>A full buffer\<close>

lemma full_buffer:
  assumes "length xs = 1040" "c \<notin> set xs" "str_wf buf" "0 < msec"
    and t: "t = \<lparr>t_open = True, t_buffer = \<lparr>b_buffer = m, b_size = 1040, b_length = 0, b_pos = 0\<rparr>, t_max_size = 512000,
      t_arrivals = (0, xs) # (0, p) # r, t_clock = 0, t_sent = []\<rparr>" "length m = 1040"
  shows "fst (timer_loop (Suc (Suc n)) (search_chr c) 0 msec buf t) = Inl Mem_Fault"
proof -
  let ?b = "\<lparr>b_buffer = xs, b_size = 1040, b_length = 1040, b_pos = 0\<rparr>"
  let ?t1 = "t\<lparr>t_buffer := ?b, t_arrivals := (0, p) # r\<rparr>"
  have xs: "xs \<noteq> []" using assms(1) by auto
  have r1: "isRecvReady msec t = (Inr True, t)" "isRecvReady msec ?t1 = (Inr True, ?t1)"
    using assms(4) by (simp_all add: t(1) isRecvReady_def)
  have "sock_recv 1040 0 t = (Inr xs, t\<lparr>t_arrivals := (0, p) # r\<rparr>)"
    using assms(1) xs by (simp add: t(1) sock_recv_def isRecvReady_def os_recv_def bindA_def returnA_def)
  then have recv: "bufferedRecv t = (Inr 1040, ?t1)"
    using assms(1) xs t(2)
    by (simp add: t(1) bufferedRecv_def bb_toggle_def on_buffer_def bindA_def returnA_def Let_def blk_put_def bb_setPosition_def
      bb_setLength_def)
  have b: "bb_wf ?b" "unat (b_length ?b) + 16 < 2 ^ 31" using assms(1) by (simp_all add: bb_wf_def)
  have "bb_data ?b = xs" using assms(1) by (simp add: bb_data_def)
  then obtain buf1 where s: "bb_readUntil_chr buf c ?b = Inr (0, buf1, ?b)"
    using buffer_readUntil [OF b(1) _ _ b(2) assms(3) refl refl, of c] assms(2) by auto
  have "search_chr c buf ?t1 = (Inr (0, buf1), ?t1)" using s by (simp add: search_chr_def t(1))
  moreover have "bb_moveStart ?b = Inl Mem_Fault"
    using assms(1) by (simp add: bb_moveStart_def Let_def blk_move_def blk_write_def blk_put_def blk_slice_def)
  then have "bufferedRecv ?t1 = (Inl Mem_Fault, ?t1)"
    by (simp add: bufferedRecv_def bb_toggle_def on_buffer_def bindA_def t(1))
  ultimately show ?thesis using r1 recv assms(4) by (simp add: t(1))
qed

text \<open>
  A peer that sends 1040 bytes at once without the character that is waited for, and then anything
  more, makes the next receive write a terminator behind the memory of the buffer; and a body of
  \<open>len\<close> bytes is delivered without its last byte, which stays in the stream.
\<close>

theorem tcp_defects:
  assumes "length xs = 1040" "c \<notin> set xs" "str_wf buf" "0 < msec"
    and "tcp_ok t" "length (in_stream t) \<le> 500000" "in_stream t = ys @ y # rest" "unat len = Suc (length ys)" "ys \<noteq> []" "prompt 10000 t"
  shows "(\<exists>u. tcp_new ((0, xs) # (0, p) # r) = Inr u \<and> fst (tcp_readUntil (search_chr c) msec buf u) = Inl Mem_Fault)
    \<and> (\<exists>out t'. tcp_readAll buf len t = (Inr out, t') \<and> content out = ys \<and> in_stream t' = y # rest)"
proof
  let ?u = "\<lparr>t_open = True, t_buffer = \<lparr>b_buffer = (blk_realloc [] 1040)[1039 := 0], b_size = 1040, b_length = 0, b_pos = 0\<rparr>,
    t_max_size = 512000, t_arrivals = (0, xs) # (0, p) # r, t_clock = 0, t_sent = []\<rparr>"
  have u: "tcp_new ((0, xs) # (0, p) # r) = Inr ?u"
    by (simp add: tcp_new_def bb_new_def bb_resize_def ROUNDUP_def Let_def blk_write_def)
  have b: "bb_wf (t_buffer ?u)" "unat (b_length (t_buffer ?u)) + 16 < 2 ^ 31" "bb_data (t_buffer ?u) = []"
    by (simp_all add: bb_wf_def bb_data_def)
  obtain buf1 where s: "bb_readUntil_chr buf c (t_buffer ?u) = Inr (0, buf1, t_buffer ?u)" "str_wf buf1"
    using buffer_readUntil [OF b(1) _ _ b(2) assms(3) refl refl, of c] b(3) by auto
  then have "search_chr c buf ?u = (Inr (0, buf1), ?u)" by (simp add: search_chr_def)
  moreover obtain n where "arrivals_fuel ?u = Suc (Suc n)" by (simp add: arrivals_fuel_def)
  ultimately have "fst (tcp_readUntil (search_chr c) msec buf ?u) = Inl Mem_Fault"
    using full_buffer [OF assms(1,2) s(2) assms(4), where m = "(blk_realloc [] 1040)[1039 := 0]" and p = p and r = r and n = n, OF refl] assms(4)
    by (simp add: tcp_readUntil_def)
  then show "\<exists>u. tcp_new ((0, xs) # (0, p) # r) = Inr u \<and> fst (tcp_readUntil (search_chr c) msec buf u) = Inl Mem_Fault"
    using u by blast
  have "length ys = unat len - 1" "1 < unat len" using assms(8,9) by (cases ys; simp)+
  then show "\<exists>out t'. tcp_readAll buf len t = (Inr out, t') \<and> content out = ys \<and> in_stream t' = y # rest"
    using readAll_short [OF assms(5-7) _ _ assms(3,10)] by metis
qed

theorem tcp_defects_witness:
  "\<exists>t out t'. tcp_new [(0, [65, 66, 67])] = Inr t \<and> tcp_readAll str_empty 3 t = (Inr out, t') \<and> content out = [65, 66]"
proof -
  have "fits 1040 0 0 [(0, [65, 66, 67])]" by simp
  then obtain t where t: "tcp_new [(0, [65, 66, 67])] = Inr t" "tcp_ok t" "in_stream t = [65, 66, 67]"
      "t_arrivals t = [(0, [65, 66, 67])]"
    by (rule tcp_new_ok) simp
  have x: "length (replicate 1040 1 :: u8 list) = 1040" "(2 :: u8) \<notin> set (replicate 1040 1)" by simp_all
  have p: "prompt 10000 t" by (simp add: prompt_def delays_def t(4))
  have "in_stream t = [65, 66] @ 67 # []" using t(3) by simp
  from tcp_defects [OF x str_wf_empty _ t(2) _ this _ _ p, where msec = 1 and len = 3 and p = "[]" and r = "[]"] t(1,3) show ?thesis by auto
qed

end
