(* ===== verification/Http_Headers.thy ===== *)
theory Http_Headers
  imports Tcp_Props Text_Ops Dict_Ops
begin

text \<open>
  \<open>HttpHeaders\<close> (src/net/HttpHeaders.cpp): the header lines of a request, read from a \<open>TcpSocket\<close> and
  put into a dictionary. The searches of a line stop at a NUL byte, as \<open>strchr\<close> does; the dictionary is the
  list of pairs that it refines.
\<close>

section \<open>Operations on texts\<close>

text \<open>\<open>between(c1, c2)\<close>, the first occurrence. Without \<open>c2\<close> the last character of the rest is lost; when
  \<open>c1\<close> is the last character, the length is -1.\<close>

definition t_between :: "u8 \<Rightarrow> u8 \<Rightarrow> bytes \<Rightarrow> bytes res" where
  "t_between c1 c2 xs = bindR (t_find c1 0 xs) (\<lambda>a. let start_pos = a + 1 in
     bindR (t_find c2 start_pos xs) (\<lambda>b. let stop_pos = b + 1 in
     if start_pos = 0 then Inr [] else
     (let stop_pos = (if stop_pos = 0 then int (length xs) else stop_pos) in t_mid start_pos (stop_pos - start_pos - 1) xs)))"

text \<open>The same on a line that may have a NUL byte: \<open>find\<close> is \<open>strchr\<close> from \<open>pos\<close> on and sees nothing behind it.\<close>

definition z_find :: "u8 \<Rightarrow> int \<Rightarrow> bytes \<Rightarrow> int res" where
  "z_find c pos xs = (if pos < 0 \<or> int (length xs) < pos then Inl Mem_Fault
     else t_find c pos (take (nat pos) xs @ takeWhile (\<lambda>x. x \<noteq> 0) (drop (nat pos) xs)))"

definition z_between :: "u8 \<Rightarrow> u8 \<Rightarrow> bytes \<Rightarrow> bytes res" where
  "z_between c1 c2 xs = bindR (z_find c1 0 xs) (\<lambda>a. let start_pos = a + 1 in
     bindR (z_find c2 start_pos xs) (\<lambda>b. let stop_pos = b + 1 in
     if start_pos = 0 then Inr [] else
     (let stop_pos = (if stop_pos = 0 then int (length xs) else stop_pos) in t_mid start_pos (stop_pos - start_pos - 1) xs)))"

fun z_section_from :: "u8 \<Rightarrow> nat \<Rightarrow> nat \<Rightarrow> bytes \<Rightarrow> bytes res" where
  "z_section_from delim n start xs = bindR (z_find delim (int start) xs) (\<lambda>stop.
      case n of 0 \<Rightarrow> t_mid (int start) ((if stop = - 1 then int (length xs) else stop) - int start) xs
      | Suc n \<Rightarrow> if stop = - 1 then Inr [] else z_section_from delim n (nat stop + 1) xs)"

declare z_section_from.simps [simp del]

definition z_section :: "u8 \<Rightarrow> nat \<Rightarrow> bytes \<Rightarrow> bytes res" where
  "z_section delim n xs = z_section_from delim n 0 xs"

lemma z_find_text: "0 \<notin> set xs \<Longrightarrow> z_find c pos xs = t_find c pos xs"
proof -
  assume a: "0 \<notin> set xs"
  have "takeWhile (\<lambda>x. x \<noteq> 0) ys = ys" if "0 \<notin> set ys" for ys :: bytes using that by (induction ys) auto
  moreover have "0 \<notin> set (drop (nat pos) xs)" using a by (meson in_set_dropD)
  ultimately have "take (nat pos) xs @ takeWhile (\<lambda>x. x \<noteq> 0) (drop (nat pos) xs) = xs" by (metis append_take_drop_id)
  then show ?thesis unfolding z_find_def by (simp add: t_find_def)
qed

lemma z_between_text: "0 \<notin> set xs \<Longrightarrow> z_between c1 c2 xs = t_between c1 c2 xs"
  by (simp add: z_between_def t_between_def z_find_text)

lemma z_section_text: "0 \<notin> set xs \<Longrightarrow> z_section delim n xs = t_section delim True n xs"
proof -
  assume a: "0 \<notin> set xs"
  have "z_section_from delim n start xs = t_section_from delim True n start xs" for start
  proof (induction n arbitrary: start)
    case 0
    show ?case by (simp add: z_section_from.simps t_section_from.simps z_find_text [OF a])
  next
    case (Suc n)
    show ?case by (simp add: z_section_from.simps [of _ "Suc n"] t_section_from.simps [of _ _ "Suc n"] z_find_text [OF a] Suc.IH cong: if_cong)
  qed
  then show ?thesis by (simp add: z_section_def t_section_def)
qed

definition t_trimEnd :: "bytes \<Rightarrow> bytes" where
  "t_trimEnd xs = rev (dropWhile is_trim (rev xs))"

definition t_trim :: "bytes \<Rightarrow> bytes" where
  "t_trim xs = t_trimEnd (dropWhile is_trim xs)"

definition t_toLower :: "bytes \<Rightarrow> bytes" where
  "t_toLower xs = map c_tolower xs"

lemma between_text:
  assumes h: "has_text s xs" and c: "c1 \<noteq> 0" "c2 \<noteq> 0" and f: "t_between c1 c2 xs = Inr ys"
  shows "\<exists>r. str_between_cc c1 c2 1 s = Inr r \<and> has_text r ys"
proof -
  obtain a where a: "t_find c1 0 xs = Inr a" using f by (auto simp: t_between_def res_simps)
  obtain b where b: "t_find c2 (a + 1) xs = Inr b" using f a by (auto simp: t_between_def res_simps Let_def)
  have l: "length xs < 2 ^ 31" using h by (simp add: has_text_def)
  have r: "- 1 \<le> a" "a < int (length xs)" "- 1 \<le> b" "b < int (length xs)" using t_find_Inr [OF a] t_find_Inr [OF b] by auto
  have "int (length xs) < 2 ^ 31" using l by simp
  then have r31: "a < 2 ^ 31" "b < 2 ^ 31" using r by linarith+
  have fa: "str_find_chr c1 0 s = Inr (word_of_int a)" using find_text [OF h c(1) a] by simp
  define A B where "A = (word_of_int (a + 1) :: u32)" and "B = (word_of_int (b + 1) :: u32)"
  have wa: "word_of_int a + 1 = A" and wb: "word_of_int b + 1 = B" by (simp_all add: A_def B_def wi_hom_syms)
  have fb: "str_find_chr c2 A s = Inr (word_of_int b)" unfolding A_def by (rule find_text [OF h c(2) b])
  have z: "(word_of_int (k + 1) :: u32) = 0 \<longleftrightarrow> k = - 1" if "- 1 \<le> k" "k < 2 ^ 31" for k
  proof -
    have "unat (word_of_int (k + 1) :: u32) = nat (k + 1)" using that by (intro unat_of_int) auto
    then show ?thesis using that by (simp add: word_unat_eq_iff) linarith
  qed
  have za: "A = 0 \<longleftrightarrow> a = - 1" and zb: "B = 0 \<longleftrightarrow> b = - 1"
    unfolding A_def B_def using z [OF r(1)] z [OF r(3)] r31 by blast+
  have loop: "between_loop (\<lambda>p. str_find_chr c1 p s) 1 (\<lambda>p. str_find_chr c2 p s) 1 (Suc 0) 0 0
      = (if A = 0 then Inr None else Inr (Some (A, B)))"
    by (simp add: fa fb wa wb Let_def)
  have one: "(if (1 :: u32) <s 0 then 0 else unat (1 :: u32)) = Suc 0" by (simp add: word_sless_alt)
  show ?thesis
  proof (cases "a = - 1")
    case True
    then have "A = 0" using za by simp
    then have "str_between_cc c1 c2 1 s = Inr str_empty"
      unfolding str_between_cc_def between_gen_def one loop by (simp add: str_null_eq)
    moreover have "ys = []" using f a b True by (simp add: t_between_def Let_def)
    ultimately show ?thesis by (simp add: has_text_def)
  next
    case False
    let ?q = "if b = - 1 then int (length xs) else b + 1"
    have m: "t_mid (a + 1) (?q - (a + 1) - 1) xs = Inr ys" using f a b False by (auto simp: t_between_def Let_def)
    have "s_string_length s = word_of_int (int (length xs))"
      using has_text_length [OF h] unat_of_nat_small [where 'a = 32, of "length xs"] l by (simp add: word_unat_eq_iff)
    then have "(if B = 0 then s_string_length s else B) = word_of_int ?q" using zb by (simp add: B_def)
    then have "(if B = 0 then s_string_length s else B) - A - 1 = word_of_int (?q - (a + 1) - 1)"
      unfolding A_def by (simp only: wi_hom_syms word_1_wi)
    moreover have "A \<noteq> 0" using False za by simp
    then have "str_between_cc c1 c2 1 s = str_mid A ((if B = 0 then s_string_length s else B) - A - 1) s"
      unfolding str_between_cc_def between_gen_def one loop by (simp add: Let_def)
    ultimately have "str_between_cc c1 c2 1 s = str_mid A (word_of_int (?q - (a + 1) - 1)) s" by (simp only:)
    moreover have "- (2 ^ 31) \<le> a + 1" "a + 1 < 2 ^ 31" "- (2 ^ 31) \<le> ?q - (a + 1) - 1" "?q - (a + 1) - 1 < 2 ^ 31"
      using r r31 \<open>int (length xs) < 2 ^ 31\<close> by (auto split: if_splits)
    ultimately show ?thesis using mid_text [OF h m] by (simp add: A_def)
  qed
qed

lemma trim_text: "has_text s xs \<Longrightarrow> \<exists>r. str_trim s = Inr r \<and> has_text r (t_trim xs)"
proof -
  assume h: "has_text s xs"
  then have w: "str_wf s" by (simp add: has_text_def)
  obtain s1 where s1: "str_trimBegin s = Inr s1" using str_trim_total(1) [OF w] by blast
  have 1: "str_wf s1" "content s1 = dropWhile is_trim xs" using str_trimBegin_Inr [OF w s1] h by (auto simp: has_text_def)
  obtain r where r: "str_trimEnd s1 = Inr r" using str_trim_total(2) [OF 1(1)] by blast
  have "str_wf r \<and> content r = t_trim xs" using str_trimEnd_Inr [OF 1(1) r] 1(2) by (simp add: t_trim_def t_trimEnd_def)
  moreover have "set (t_trim xs) \<subseteq> set xs" "length (t_trim xs) \<le> length xs"
    unfolding t_trim_def t_trimEnd_def
    by (auto dest!: set_dropWhileD) (metis length_dropWhile_le length_rev order_trans)
  ultimately have "has_text r (t_trim xs)" using h by (auto simp: has_text_def)
  then show ?thesis using s1 r by (simp add: str_trim_def)
qed

lemma trimEnd_text: "has_text s xs \<Longrightarrow> \<exists>r. str_trimEnd s = Inr r \<and> has_text r (t_trimEnd xs)"
proof -
  assume h: "has_text s xs"
  then have w: "str_wf s" by (simp add: has_text_def)
  obtain r where r: "str_trimEnd s = Inr r" using str_trim_total(2) [OF w] by blast
  have "str_wf r \<and> content r = t_trimEnd xs" using str_trimEnd_Inr [OF w r] h by (simp add: t_trimEnd_def has_text_def)
  moreover have "set (t_trimEnd xs) \<subseteq> set xs" "length (t_trimEnd xs) \<le> length xs"
    unfolding t_trimEnd_def by (auto dest!: set_dropWhileD) (metis length_dropWhile_le length_rev)
  ultimately have "has_text r (t_trimEnd xs)" using h by (auto simp: has_text_def)
  then show ?thesis using r by blast
qed

section \<open>Reading the headers\<close>

type_synonym headers = "(bytes \<times> bytes) list"

definition MAX_HEADERS :: nat where "MAX_HEADERS = 200"

text \<open>\<open>readUntil(line, '\n', 10000)\<close>; the text does not depend on the string object it is read into.\<close>

definition read_line :: "(tcp, bytes) action" where
  "read_line = bindA (tcp_readUntil (search_chr 10) 10000 str_empty) (\<lambda>(count, buf). returnA (content buf))"

text \<open>One line: \<open>name\<close> and \<open>value\<close> are those of the last header.\<close>

definition header_line :: "bytes \<Rightarrow> bytes \<Rightarrow> bytes \<Rightarrow> headers \<Rightarrow> (bytes \<times> bytes \<times> headers) res" where
  "header_line line name val hdrs =
     (if name \<noteq> [] \<and> (hd line = chr CHR '' '' \<or> hd line = 9) then
        bindR (z_between (chr CHR '':'') 13 line) (\<lambda>t. let val = val @ [chr CHR '' ''] @ t_trimEnd t in
        Inr (name, val, kv_set hash_bytes name val hdrs))
      else bindR (z_find (chr CHR '':'') 0 line) (\<lambda>p. if 0 < p then
        bindR (z_between (chr CHR '':'') 13 line) (\<lambda>t. let val = t_trim t in
        bindR (z_section (chr CHR '':'') 0 line) (\<lambda>u. let name = t_toLower u in
        if kv_find hash_bytes name hdrs = None then
          bindR (kv_add hash_bytes name val hdrs) (\<lambda>hdrs.
          if MAX_HEADERS \<le> length hdrs then Inl (Thrown ''PermissionDeniedException'') else Inr (name, val, hdrs))
        else Inr (name, val, hdrs)))
      else Inr (name, val, hdrs)))"

fun headers_loop :: "nat \<Rightarrow> bytes \<Rightarrow> bytes \<Rightarrow> bytes \<Rightarrow> headers \<Rightarrow> (tcp, headers) action" where
  "headers_loop 0 line name val hdrs t = (Inl Out_Of_Fuel, t)"
| "headers_loop (Suc n) line name val hdrs t = (if line \<noteq> [] \<and> line \<noteq> [13, 10] then
       bindA (lift_res (header_line line name val hdrs)) (\<lambda>(name, val, hdrs).
       bindA read_line (\<lambda>line. headers_loop n line name val hdrs)) t
     else (Inr hdrs, t))"

text \<open>Every line takes a byte at least, so the bytes that can be read are enough fuel.\<close>

definition headers_parse :: "(tcp, headers) action" where
  "headers_parse = bindA read_line (\<lambda>line t. headers_loop (arrivals_fuel t + unat (bb_remaining (t_buffer t)) + length line) line [] [] [] t)"

section \<open>The headers that were sent\<close>

definition line_of :: "bytes \<times> bytes \<Rightarrow> bytes" where
  "line_of h = fst h @ [chr CHR '':'', chr CHR '' ''] @ snd h @ [13, 10]"

definition good_header :: "bytes \<times> bytes \<Rightarrow> bool" where
  "good_header h \<longleftrightarrow> fst h \<noteq> [] \<and> hd (fst h) \<noteq> chr CHR '' '' \<and> hd (fst h) \<noteq> 9 \<and> chr CHR '':'' \<notin> set (fst h)
     \<and> 10 \<notin> set (fst h) \<and> 10 \<notin> set (snd h) \<and> 13 \<notin> set (snd h) \<and> 0 \<notin> set (fst h) \<and> 0 \<notin> set (snd h)"

definition put_header :: "headers \<Rightarrow> bytes \<times> bytes \<Rightarrow> headers" where
  "put_header hdrs h = (let name = t_toLower (fst h) in
     if kv_find hash_bytes name hdrs = None then hdrs @ [(name, t_trim (snd h))] else hdrs)"

definition received :: "(bytes \<times> bytes) list \<Rightarrow> headers" where
  "received = foldl put_header []"

lemma line_between:
  assumes "good_header h" "length (line_of h) < 2 ^ 31"
  shows "t_between (chr CHR '':'') 13 (line_of h) = Inr (chr CHR '' '' # snd h)"
proof -
  obtain k v where h: "h = (k, v)" by (cases h)
  let ?l = "line_of h" and ?n = "length k"
  have g: "chr CHR '':'' \<notin> set k" "13 \<notin> set (chr CHR '' '' # v)" using assms(1) by (simp_all add: h good_header_def chr_def)
  have l: "?l = k @ chr CHR '':'' # (chr CHR '' '' # v) @ 13 # [10]" by (simp add: h line_of_def)
  have a: "t_find (chr CHR '':'') (int 0) ?l = Inr (int (0 + ?n))" by (rule find_at) (use l g in simp_all)
  have d: "drop (Suc ?n) ?l = (chr CHR '' '' # v) @ 13 # [10]" using l by simp
  have b: "t_find 13 (int (Suc ?n)) ?l = Inr (int (Suc ?n + Suc (length v)))" using find_at [OF d g(2)] by simp
  have m: "t_mid (int (Suc ?n)) (int (length (chr CHR '' '' # v))) ?l = Inr (chr CHR '' '' # v)"
    by (rule mid_at [OF d]) (use assms(2) in simp_all)
  have e: "int (Suc ?n + Suc (length v)) + 1 - int (Suc ?n) - 1 = int (length (chr CHR '' '' # v))" by simp
  show ?thesis
    unfolding t_between_def using a b m e by (simp add: h Let_def add.commute)
qed

lemma header_line_eq:
  assumes g: "good_header h" and l: "length (line_of h) < 2 ^ 31" and m: "length hdrs < MAX_HEADERS"
  shows "header_line (line_of h) name val hdrs = (if length (put_header hdrs h) < MAX_HEADERS
     then Inr (t_toLower (fst h), t_trim (snd h), put_header hdrs h) else Inl (Thrown ''PermissionDeniedException''))"
proof -
  obtain k v where h: "h = (k, v)" by (cases h)
  let ?l = "line_of h"
  have k: "k \<noteq> []" "chr CHR '':'' \<notin> set k" "hd k \<noteq> chr CHR '' ''" "hd k \<noteq> 9" using g by (simp_all add: h good_header_def)
  have e: "?l = k @ chr CHR '':'' # (chr CHR '' '' # v @ [13, 10])" by (simp add: h line_of_def)
  have hd: "hd ?l = hd k" using k(1) by (simp add: e)
  have f: "t_find (chr CHR '':'') 0 ?l = Inr (int (length k))" using find_at [of 0 ?l k "chr CHR '':''"] e k(2) by simp
  have "t_mid (int 0) (int (length k)) ?l = Inr k" by (rule mid_at [where zs = "chr CHR '':'' # (chr CHR '' '' # v @ [13, 10])"]) (use e k(1) l in simp_all)
  then have sec: "t_section (chr CHR '':'') True 0 ?l = Inr k"
    using f by (simp add: t_section_def t_section_from.simps [of _ _ 0])
  have z: "0 \<notin> set ?l" using g by (auto simp: h line_of_def good_header_def chr_def)
  have "t_trim (chr CHR '' '' # v) = t_trim v" by (simp add: t_trim_def is_trim_def)
  then show ?thesis
    using k hd f sec line_between [OF g l] m z_find_text [OF z] z_between_text [OF z] z_section_text [OF z]
    by (cases "kv_find hash_bytes (t_toLower k) hdrs = None") (auto simp: header_line_def h put_header_def kv_add_def Let_def)
qed

text \<open>A connection that the reader of the headers, which waits for ten seconds, can follow.\<close>

definition tcp_ready :: "tcp \<Rightarrow> bool" where
  "tcp_ready t \<longleftrightarrow> tcp_ok t \<and> prompt 10000 t"

lemma ready_hit:
  assumes "tcp_ready t" "length (in_stream t) \<le> 500000" "in_stream t = line @ c # rest" "c \<notin> set line" "str_wf buf" "10000 \<le> msec"
  shows "\<exists>buf' t'. tcp_readUntil (search_chr c) msec buf t = (Inr (of_nat (Suc (length line)), buf'), t')
    \<and> str_wf buf' \<and> content buf' = line @ [c] \<and> in_stream t' = rest \<and> tcp_ready t' \<and> t_sent t' = t_sent t"
proof -
  have r: "tcp_ok t" "prompt 10000 t" using assms(1) by (simp_all add: tcp_ready_def)
  have "prompt msec t" using r(2) assms(6) by (simp add: prompt_def)
  from stream_hit [OF r(1) assms(2-5) this] prompt_later [OF r(2)] show ?thesis by (auto simp: tcp_ready_def)
qed

lemma ready_new:
  assumes "fits 1040 0 0 arrivals" "length arrivals * sum_list (map fst arrivals) < 10000"
  obtains t where "tcp_new arrivals = Inr t" "tcp_ready t" "in_stream t = concat (map snd arrivals)" "t_sent t = []"
proof -
  obtain t where t: "tcp_new arrivals = Inr t" "tcp_ok t" "in_stream t = concat (map snd arrivals)" "t_sent t = []" "t_arrivals t = arrivals"
    using tcp_new_ok [OF assms(1)] .
  have "int (length arrivals * sum_list (map fst arrivals)) < 10000" using assms(2) by linarith
  then have "tcp_ready t" using t(2,5) by (simp add: tcp_ready_def prompt_def delays_def)
  then show thesis using that [of t] t by simp
qed

lemma read_line_ok:
  assumes "tcp_ready t" "length (in_stream t) \<le> 500000" "in_stream t = line @ 10 # rest" "10 \<notin> set line"
  obtains t' where "read_line t = (Inr (line @ [10]), t')" "tcp_ready t'" "in_stream t' = rest" "t_sent t' = t_sent t"
  using ready_hit [OF assms str_wf_empty, of 10000] that by (auto simp: read_line_def returnA_def)

lemma put_header_grows: "length hdrs \<le> length (foldl put_header hdrs hs')"
proof (induction hs' arbitrary: hdrs)
  case (Cons h hs')
  have "length hdrs \<le> length (put_header hdrs h)" by (simp add: put_header_def Let_def)
  then show ?case using Cons.IH [of "put_header hdrs h"] by simp
qed simp

text \<open>The loop is at \<open>line\<close>, which has been read already.\<close>

lemma headers_loop_ok:
  assumes "tcp_ready t" "length (in_stream t) \<le> 500000" "list_all good_header sent" "length hdrs < MAX_HEADERS" "length sent < n"
    and "line @ in_stream t = concat (map line_of sent) @ [13, 10] @ rest" "line \<noteq> []" "last line = 10" "10 \<notin> set (butlast line)"
    and "length line \<le> 500000"
  shows "if length (foldl put_header hdrs sent) < MAX_HEADERS
    then \<exists>t'. headers_loop n line name val hdrs t = (Inr (foldl put_header hdrs sent), t') \<and> tcp_ready t' \<and> in_stream t' = rest \<and> t_sent t' = t_sent t
    else fst (headers_loop n line name val hdrs t) = Inl (Thrown ''PermissionDeniedException'')"
  using assms
proof (induction sent arbitrary: t hdrs n line name val)
  case Nil
  obtain k where k: "n = Suc k" using Nil.prems(5) by (cases n) auto
  have "line = [13, 10]"
    using Nil.prems(6,7,8,9) by (cases line rule: rev_cases) (auto simp: append_eq_Cons_conv Cons_eq_append_conv)
  then show ?case using Nil.prems k by simp
next
  case (Cons h sent)
  obtain k where k: "n = Suc k" "length sent < k" using Cons.prems(5) by (cases n) auto
  have g: "good_header h" "list_all good_header sent" using Cons.prems(3) by simp_all
  let ?X = "concat (map line_of sent) @ [13, 10] @ rest"
  have l10: "line_of h = (fst h @ [chr CHR '':'', chr CHR '' ''] @ snd h @ [13]) @ [10]"
      "10 \<notin> set (fst h @ [chr CHR '':'', chr CHR '' ''] @ snd h @ [13])"
    using g(1) by (simp_all add: line_of_def good_header_def chr_def)
  let ?u = "fst h @ [chr CHR '':'', chr CHR '' ''] @ snd h @ [13]"
  have eq: "line @ in_stream t = line_of h @ ?X" using Cons.prems(6) by simp
  have b: "line = butlast line @ [10]" using Cons.prems(7,8) by (metis append_butlast_last_id)
  have "butlast line @ 10 # in_stream t = line @ in_stream t" by (subst b) simp
  also have "\<dots> = ?u @ 10 # ?X" using eq l10(1) by simp
  finally have "butlast line = ?u \<and> in_stream t = ?X" using split_unique Cons.prems(9) l10(2) by metis
  then have line: "line = line_of h" "in_stream t = ?X" using b l10(1) by simp_all
  have "10 \<in> set ?X" by simp
  then obtain line2 rest2 where x: "?X = line2 @ 10 # rest2" "10 \<notin> set line2" by (metis split_list_first)
  obtain t1 where t1: "read_line t = (Inr (line2 @ [10]), t1)" "tcp_ready t1" "in_stream t1 = rest2" "t_sent t1 = t_sent t"
    using read_line_ok [OF Cons.prems(1,2) _ x(2)] line(2) x(1) by metis
  have "length (in_stream t1) \<le> length (in_stream t)" using x(1) t1(3) line(2) by simp
  then have len: "length (in_stream t1) \<le> 500000" using Cons.prems(2) by simp
  have l2: "length (line2 @ [10]) \<le> 500000" using arg_cong [OF x(1), of length] Cons.prems(2) line(2) by simp
  have ll: "length (line_of h) < 2 ^ 31" using Cons.prems(10) line(1) by simp
  have nl: "line \<noteq> [13, 10]"
    unfolding line(1) using g(1) by (auto simp: line_of_def good_header_def Cons_eq_append_conv append_eq_Cons_conv)
  show ?case
  proof (cases "length (put_header hdrs h) < MAX_HEADERS")
    case True
    have "header_line line name val hdrs = Inr (t_toLower (fst h), t_trim (snd h), put_header hdrs h)"
      using header_line_eq [OF g(1) ll Cons.prems(4)] True line(1) by simp
    then have "headers_loop n line name val hdrs t
        = headers_loop k (line2 @ [10]) (t_toLower (fst h)) (t_trim (snd h)) (put_header hdrs h) t1"
      using Cons.prems(7) k(1) t1(1) nl by simp
    moreover have "last (line2 @ [10]) = 10" "10 \<notin> set (butlast (line2 @ [10]))" "(line2 @ [10]) @ in_stream t1 = ?X"
      using x t1(3) by (simp_all add: butlast_append)
    ultimately show ?thesis
      using Cons.IH [OF t1(2) len g(2) True k(2) _ _ _ _ l2] t1(4) by (auto split: if_splits)
  next
    case False
    have "header_line line name val hdrs = Inl (Thrown ''PermissionDeniedException'')"
      using header_line_eq [OF g(1) ll Cons.prems(4)] False line(1) by simp
    then have "fst (headers_loop n line name val hdrs t) = Inl (Thrown ''PermissionDeniedException'')"
      using Cons.prems(7) k(1) nl by simp
    moreover have "\<not> length (foldl put_header hdrs (h # sent)) < MAX_HEADERS"
      using put_header_grows [of "put_header hdrs h" sent] False by simp
    ultimately show ?thesis by simp
  qed
qed

lemma headers_received:
  assumes "tcp_ready t" "length (in_stream t) \<le> 500000" "list_all good_header sent"
    and "in_stream t = concat (map line_of sent) @ [13, 10] @ rest"
  shows "if length (received sent) < MAX_HEADERS
    then \<exists>t'. headers_parse t = (Inr (received sent), t') \<and> tcp_ready t' \<and> in_stream t' = rest \<and> t_sent t' = t_sent t
    else fst (headers_parse t) = Inl (Thrown ''PermissionDeniedException'')"
proof -
  have "10 \<in> set (in_stream t)" using assms(4) by simp
  then obtain line rest2 where x: "in_stream t = line @ 10 # rest2" "10 \<notin> set line" by (metis split_list_first)
  obtain t1 where t1: "read_line t = (Inr (line @ [10]), t1)" "tcp_ready t1" "in_stream t1 = rest2" "t_sent t1 = t_sent t"
    using read_line_ok [OF assms(1,2) x] .
  define n where "n = arrivals_fuel t1 + unat (bb_remaining (t_buffer t1)) + length (line @ [10])"
  have eq: "(line @ [10]) @ in_stream t1 = concat (map line_of sent) @ [13, 10] @ rest" using assms(4) x(1) t1(3) by simp
  have "length sent \<le> length (concat (map line_of sent))"
  proof (induction sent)
    case (Cons h sent)
    then show ?case by (simp add: line_of_def)
  qed simp
  then have "length sent + 2 \<le> length (line @ [10]) + length (in_stream t1)" using arg_cong [OF eq, of length] by simp
  moreover have "length (in_stream t1) < arrivals_fuel t1 + unat (bb_remaining (t_buffer t1))" using stream_fuel t1(2) by (simp add: tcp_ready_def)
  ultimately have "length sent < n" by (simp add: n_def)
  moreover have "length (in_stream t1) \<le> 500000" "length (line @ [10]) \<le> 500000"
    using arg_cong [OF x(1), of length] assms(2) t1(3) by simp_all
  moreover have "last (line @ [10]) = 10" "10 \<notin> set (butlast (line @ [10]))" "length ([] :: headers) < MAX_HEADERS"
    using x(2) by (simp_all add: butlast_append MAX_HEADERS_def)
  moreover have "headers_parse t = headers_loop n (line @ [10]) [] [] [] t1" using t1(1) by (simp add: headers_parse_def n_def)
  ultimately show ?thesis
    using headers_loop_ok [OF t1(2) _ assms(3) _ _ eq, of "[]" n "[]" "[]"] t1(4) by (auto simp: received_def split: if_splits)
qed

text \<open>
  C5. The header lines that a client sends (names without colon, no line feed or NUL in names and values, no carriage
  return in values) are parsed, to the empty line and not further, to their names in lower case and their
  trimmed values in the order of their first occurrence, later duplicates dropped; 200 different names or
  more are refused. It does not matter how the network cuts the lines into packets, as long as the packets
  are in time and do not overfill the buffer of the socket (C4).
\<close>

theorem http_headers:
  assumes "tcp_ready t" "length (in_stream t) \<le> 500000" "list_all good_header sent"
    and "in_stream t = concat (map line_of sent) @ [13, 10] @ rest"
  shows "if length (received sent) < MAX_HEADERS
    then \<exists>t'. headers_parse t = (Inr (received sent), t') \<and> tcp_ready t' \<and> in_stream t' = rest \<and> t_sent t' = t_sent t
    else fst (headers_parse t) = Inl (Thrown ''PermissionDeniedException'')"
  using assms by (rule headers_received)

theorem http_headers_witness:
  "\<exists>t t'. tcp_new [(0, lit ''Host: a''), (7, [13, 10, 13] @ [10, 88])] = Inr t
    \<and> headers_parse t = (Inr [(lit ''host'', lit ''a'')], t') \<and> in_stream t' = [88]"
proof -
  have "fits 1040 0 0 [(0, lit ''Host: a''), (7, [13, 10, 13] @ [10, 88])]" by (simp add: lit_def)
  then obtain t where t: "tcp_new [(0, lit ''Host: a''), (7, [13, 10, 13] @ [10, 88])] = Inr t" "tcp_ready t"
      "in_stream t = lit ''Host: a'' @ [13, 10, 13, 10, 88]"
    by (rule ready_new) simp_all
  have g: "list_all good_header [(lit ''Host'', lit ''a'')]" by (simp add: good_header_def lit_def chr_def)
  have s: "in_stream t = concat (map line_of [(lit ''Host'', lit ''a'')]) @ [13, 10] @ [88]"
    using t(3) by (simp add: line_of_def lit_def chr_def)
  have r: "received [(lit ''Host'', lit ''a'')] = [(lit ''host'', lit ''a'')]"
    by (simp add: received_def put_header_def kv_find_def t_toLower_def c_tolower_def t_trim_def t_trimEnd_def is_trim_def lit_def chr_def)
  have "length (in_stream t) \<le> 500000" using t(3) by (simp add: lit_def)
  from http_headers [OF t(2) this g s] t(1) show ?thesis unfolding r by (auto simp: MAX_HEADERS_def)
qed

end
