(* ===== verification/Http.thy ===== *)
theory Http
  imports Http_Headers Str_Conv
begin

text \<open>
  \<open>HttpRequest\<close> (src/net/HttpServer.cpp): the thread that reads a request from its socket, hands it to
  a handler and sends the response. The handler (an instance of \<open>HttpRequestHandler\<close>) and the text of the
  \<open>Date\<close> header are parameters; logging is left out.
\<close>

section \<open>State\<close>

record request =
  r_keep_alive :: bool
  r_content :: bytes
  r_content_length :: u32
  r_socket :: "tcp option"
  r_headers :: headers
  r_method :: bytes
  r_uri :: bytes
  r_request_version :: bytes
  r_major :: u32
  r_minor :: u32

text \<open>The handler as the request sees it: its protocol version, its name and its callbacks.\<close>

datatype http_method = HEAD | GET | POST | PUT | DELETE | TRACE | OPTIONS | UNKNOWN

record handler =
  h_major :: u32
  h_minor :: u32
  h_server_version :: bytes
  h_callback :: "http_method \<Rightarrow> (request, bool) action"

definition request_new :: request where
  "request_new = \<lparr>r_keep_alive = False, r_content = [], r_content_length = 0, r_socket = None, r_headers = [],
     r_method = [], r_uri = [], r_request_version = [], r_major = 0, r_minor = 0\<rparr>"

definition request_accept :: "tcp \<Rightarrow> request \<Rightarrow> request" where
  "request_accept t r = r\<lparr>r_socket := Some t\<rparr>"

definition on_socket :: "(tcp, 'a) action \<Rightarrow> (request, 'a) action" where
  "on_socket m r = (case r_socket r of None \<Rightarrow> (Inl Mem_Fault, r)
     | Some t \<Rightarrow> (case m t of (x, t) \<Rightarrow> (x, r\<lparr>r_socket := Some t\<rparr>)))"

definition decimal :: "u32 \<Rightarrow> bytes" where
  "decimal n = hexdigits 10 (unat n)"

definition send_format :: "nat \<Rightarrow> bytes \<Rightarrow> (request, nat) action" where
  "send_format n t = bindA (lift_res (vformat_text n t)) (\<lambda>t. on_socket (sock_send t))"

section \<open>The response\<close>

definition startHeader :: "handler \<Rightarrow> bytes \<Rightarrow> u32 \<Rightarrow> bytes \<Rightarrow> (request, unit) action" where
  "startHeader h date code reason r = (if r_major r \<noteq> 0 \<and> r_minor r \<noteq> 9 then
       (let (major, minor) = (if r_major r < h_major h \<or> (r_major r = h_major h \<and> r_minor r < h_minor h)
            then (r_major r, r_minor r) else (h_major h, h_minor h)) in
        bindA (send_format 18 (lit ''HTTP/'' @ decimal major @ lit ''.'' @ decimal minor @ lit '' '' @ decimal code @ lit '' '' @ reason @ [13, 10])) (\<lambda>_.
        bindA (if \<not> r_keep_alive r then on_socket (sock_send (lit ''Connection: close'' @ [13, 10])) else returnA 0) (\<lambda>_.
        bindA (send_format 12 (lit ''Server: '' @ h_server_version h @ [13, 10])) (\<lambda>_.
        bindA (on_socket (sock_send date)) (\<lambda>_. returnA ())))) r)
     else (Inr (), r))"

definition sendHeader :: "bytes \<Rightarrow> bytes \<Rightarrow> (request, unit) action" where
  "sendHeader key val r = (if r_major r \<noteq> 0 \<and> r_minor r \<noteq> 9 then
       bindA (send_format 8 (key @ lit '': '' @ val @ [13, 10])) (\<lambda>_. returnA ()) r
     else (Inr (), r))"

definition endHeader :: "(request, unit) action" where
  "endHeader r = (if r_major r \<noteq> 0 \<and> r_minor r \<noteq> 9 then bindA (on_socket (sock_send [13, 10])) (\<lambda>_. returnA ()) r
     else (Inr (), r))"

definition sendResponse :: "handler \<Rightarrow> bytes \<Rightarrow> bytes \<Rightarrow> bytes \<Rightarrow> (request, unit) action" where
  "sendResponse h date cont content_type = bindA (startHeader h date 200 (lit ''OK'')) (\<lambda>_.
     bindA (sendHeader (lit ''Content-Type'') content_type) (\<lambda>_.
     bindA (sendHeader (lit ''Content-Length'') (decimal (of_nat (length cont)))) (\<lambda>_.
     bindA endHeader (\<lambda>_. bindA (on_socket (sock_send cont)) (\<lambda>_.
     bindA (on_socket (sock_send [13, 10, 13, 10])) (\<lambda>_. returnA ()))))))"

definition sendError :: "handler \<Rightarrow> bytes \<Rightarrow> u32 \<Rightarrow> bytes \<Rightarrow> (request, unit) action" where
  "sendError h date code reason = bindA (startHeader h date code reason) (\<lambda>_.
     bindA (sendHeader (lit ''Content-Type'') (lit ''text/html'')) (\<lambda>_.
     let extended_reason = lit ''<h1>'' @ reason @ lit ''</h1>'' @ [10] in
     bindA (sendHeader (lit ''Content-Length'') (decimal (of_nat (length extended_reason)))) (\<lambda>_.
     bindA endHeader (\<lambda>_. bindA (on_socket (sock_send extended_reason)) (\<lambda>_. returnA ())))))"

definition request_close :: "request \<Rightarrow> request" where
  "request_close r = (case r_socket r of None \<Rightarrow> r | Some t \<Rightarrow> r\<lparr>r_socket := Some (sock_close t)\<rparr>)"

section \<open>The request\<close>

definition readLine :: "(request, unit) action" where
  "readLine = bindA (on_socket (tcp_readUntil (search_chr 10) 10000 str_empty)) (\<lambda>(count, buf) r.
     (Inr (), r\<lparr>r_content := (if count = 0 then [] else content buf)\<rparr>))"

definition request_getContent :: "(request, bytes) action" where
  "request_getContent = bindA (\<lambda>r. if r_content r = [] \<and> 0 < r_content_length r
       then bindA (on_socket (tcp_readAll str_empty (r_content_length r))) (\<lambda>out r. (Inr (), r\<lparr>r_content := content out\<rparr>)) r
       else (Inr (), r)) (\<lambda>_ r. (Inr (r_content r), r))"

definition hasHeader :: "bytes \<Rightarrow> request \<Rightarrow> bool" where
  "hasHeader header r \<longleftrightarrow> kv_find hash_bytes header (r_headers r) \<noteq> None"

definition getHeader :: "bytes \<Rightarrow> request \<Rightarrow> bytes res" where
  "getHeader header r = kv_get hash_bytes header (r_headers r)"

definition getAsInt :: "bytes \<Rightarrow> headers \<Rightarrow> u32 res" where
  "getAsInt key hdrs = bindR (kv_get hash_bytes key hdrs) t_Int"

definition set_content_length :: "(request, unit) action" where
  "set_content_length = bindA (\<lambda>r. lift_res (getAsInt (lit ''content-length'') (r_headers r)) r) (\<lambda>n r. (Inr (), r\<lparr>r_content_length := n\<rparr>))"

definition parseHeaders :: "(request, unit) action" where
  "parseHeaders = bindA (\<lambda>r. on_socket headers_parse (r\<lparr>r_content_length := 0\<rparr>)) (\<lambda>hdrs r.
     let r = r\<lparr>r_headers := hdrs\<rparr> in
     bindA (if hasHeader (lit ''content-length'') r then set_content_length else returnA ()) (\<lambda>_ r. (Inr (), r\<lparr>r_content := []\<rparr>)) r)"

definition bad_version :: "handler \<Rightarrow> bytes \<Rightarrow> (request, 'a) action" where
  "bad_version h date r = (let msg = lit ''Bad Request Version: '' @ r_request_version r in
     bindA (lift_res (vformat_text 23 msg)) (\<lambda>msg. bindA (sendError h date 400 msg) (\<lambda>_. throwA ''IOException'')) r)"

definition parseVersion :: "handler \<Rightarrow> bytes \<Rightarrow> (request, unit) action" where
  "parseVersion h date r = (if r_request_version r \<noteq> [] then
       if take 5 (r_request_version r) \<noteq> lit ''HTTP/'' then bad_version h date r else
       bindA (lift_res (bindR (z_between (chr CHR ''/'') (chr CHR ''.'') (r_request_version r)) t_Int)) (\<lambda>major.
       bindA (lift_res (bindR (z_between (chr CHR ''.'') 13 (r_request_version r)) t_Int)) (\<lambda>minor r.
       let r = r\<lparr>r_major := major, r_minor := minor\<rparr> in
       if major = 0 \<and> minor = 0 then bad_version h date r
       else (Inr (), r\<lparr>r_request_version := t_trimEnd (r_request_version r)\<rparr>))) r
     else if r_method r = lit ''GET'' then (Inr (), r\<lparr>r_request_version := lit ''HTTP/0.9'', r_major := 0, r_minor := 9\<rparr>)
     else (Inr (), r))"

definition method_of :: "bytes \<Rightarrow> http_method" where
  "method_of m = (if m = lit ''HEAD'' then HEAD else if m = lit ''GET'' then GET else if m = lit ''POST'' then POST
     else if m = lit ''PUT'' then PUT else if m = lit ''DELETE'' then DELETE else if m = lit ''TRACE'' then TRACE
     else if m = lit ''OPTIONS'' then OPTIONS else UNKNOWN)"

definition request_line :: "handler \<Rightarrow> bytes \<Rightarrow> (request, unit) action" where
  "request_line h date = bindA (\<lambda>r. readLine (r\<lparr>r_headers := []\<rparr>)) (\<lambda>_ r.
     if r_content r = [] then throwA ''IOException'' r else
     (let line = t_trimEnd (r_content r) in
     bindA (lift_res (z_section (chr CHR '' '') 0 line)) (\<lambda>m.
     bindA (lift_res (z_section (chr CHR '' '') 1 line)) (\<lambda>u.
     bindA (lift_res (z_section (chr CHR '' '') 2 line)) (\<lambda>v r.
     parseVersion h date (r\<lparr>r_content := line, r_method := m, r_uri := u, r_request_version := v\<rparr>)))) r))"

definition parseRequest :: "handler \<Rightarrow> bytes \<Rightarrow> (request, unit) action" where
  "parseRequest h date = bindA (request_line h date) (\<lambda>_ r.
     bindA (if 0 < r_major r then parseHeaders else returnA ()) (\<lambda>_ r.
     if r_major r = 1 \<and> 1 \<le> r_minor r \<and> \<not> hasHeader (lit ''host'') r
     then bindA (sendError h date 400 (lit ''Bad Request: No Host Header'')) (\<lambda>_. throwA ''IOException'') r else
     bindA (if hasHeader (lit ''content-length'') r then set_content_length else (\<lambda>r. (Inr (), r\<lparr>r_content_length := 0\<rparr>))) (\<lambda>_ r.
     bindA (h_callback h (method_of (r_method r))) (\<lambda>is_handled.
     bindA (if \<not> is_handled then sendError h date 400 (lit ''METHOD NOT SUPPORTED'') else returnA ()) (\<lambda>_ r.
     if \<not> r_keep_alive r then (Inr (), request_close r) else (Inr (), r))) r) r) r)"

text \<open>The base class of the handlers handles nothing.\<close>

definition handler_new :: "u32 \<Rightarrow> u32 \<Rightarrow> bytes \<Rightarrow> handler" where
  "handler_new protocol_major protocol_minor server_version = \<lparr>h_major = protocol_major, h_minor = protocol_minor,
     h_server_version = server_version, h_callback = (\<lambda>_. returnA False)\<rparr>"

text \<open>\<open>run\<close>: requests until the connection is closed, or an exception.\<close>

definition is_connected :: "request \<Rightarrow> bool" where
  "is_connected r \<longleftrightarrow> (case r_socket r of None \<Rightarrow> False | Some t \<Rightarrow> t_open t)"

fun request_run :: "nat \<Rightarrow> handler \<Rightarrow> bytes \<Rightarrow> (request, bool) action" where
  "request_run 0 h date r = (Inl Out_Of_Fuel, r)"
| "request_run (Suc n) h date r = (if is_connected r then
       (case parseRequest h date r of (Inl (Thrown c), r) \<Rightarrow> (Inr False, r) | (Inl e, r) \<Rightarrow> (Inl e, r)
        | (Inr _, r) \<Rightarrow> request_run n h date r)
     else (Inr False, r))"

definition request_final :: "request \<Rightarrow> request" where
  "request_final r = (request_close r)\<lparr>r_socket := None\<rparr>"

end
