(* ===== verification/Rpc_Props.thy ===== *)
theory Rpc_Props
  imports Rpc
begin

text \<open>
  The round trip of RPC values through XML: what \<open>asXml\<close> prints, \<open>FromXml\<close> reads back, for values
  of any nesting.
\<close>

section \<open>The printed text\<close>

definition has_ink :: "bytes \<Rightarrow> bool" where
  "has_ink t \<longleftrightarrow> (\<exists>c \<in> set t. \<not> c_isspace c)"

definition plain_text :: "bytes \<Rightarrow> bool" where
  "plain_text t \<longleftrightarrow> (\<forall>c \<in> set t. c \<noteq> 0 \<and> xml_keeps c \<and> c \<notin> set RAW_ENTITY)"

text \<open>Basic values as their \<open>set\<close> operations leave them, with texts that the entity codec keeps.\<close>

definition printable :: "rbase \<Rightarrow> bool" where
  "printable b \<longleftrightarrow> (case r_type b of
     TypeString \<Rightarrow> r_value b = AsDateTime None \<and> (\<forall>c \<in> set (r_str b). c \<noteq> 0 \<and> xml_keeps c)
       \<and> (r_str b = [] \<or> has_ink (r_str b) \<and> hd (r_str b) \<notin> set RAW_ENTITY)
   | TypeInt \<Rightarrow> \<exists>n. r_value b = AsInt n \<and> Val_int32 n 10 = Inr (r_str b)
   | TypeBoolean \<Rightarrow> \<exists>v. r_value b = AsBool v \<and> r_str b = (if v then lit ''1'' else lit ''0'')
   | TypeDouble \<Rightarrow> plain_text (r_str b) \<and> has_ink (r_str b)
   | TypeDateTime \<Rightarrow> plain_text (r_str b) \<and> has_ink (r_str b) \<and> scan_iso (r_str b) \<noteq> None
   | _ \<Rightarrow> False)"

fun rpc_ok :: "rpc_value \<Rightarrow> bool" where
  "rpc_ok Null = False"
| "rpc_ok (Value b) = printable b"
| "rpc_ok (Struct b ms) = (b = rbase_empty\<lparr>r_type := TypeStruct\<rparr> \<and> distinct (map (hash_bytes \<circ> fst) ms)
     \<and> (\<forall>(k, v) \<in> set ms. plain_text k \<and> has_ink k \<and> rpc_ok v))"
| "rpc_ok (Array b vs) = (b = rbase_empty\<lparr>r_type := TypeArray\<rparr> \<and> (\<forall>v \<in> set vs. rpc_ok v))"
| "rpc_ok (Binary b xs) = False"

text \<open>
  What a value is after the round trip. The same, but: a boolean is stored as an int, the union of a
  double is the int that its text converts to, and the month of a date counts from zero
  (\<open>tm_mon\<close>), so that the date is a month late (\<open>date_late\<close>).
\<close>

definition date_back :: "bytes \<Rightarrow> runion \<Rightarrow> runion" where
  "date_back t u = (case scan_iso t of None \<Rightarrow> u | Some (y, mo, d, h, mi, s) \<Rightarrow> AsDateTime (Some (datetime_of_tm d mo (y - 1900) h mi s)))"

definition base_back :: "(bytes \<Rightarrow> u32) \<Rightarrow> rbase \<Rightarrow> rbase" where
  "base_back dbl b = (case r_type b of
     TypeBoolean \<Rightarrow> b\<lparr>r_value := (case r_value b of AsBool v \<Rightarrow> AsInt (if v then 1 else 0) | x \<Rightarrow> x)\<rparr>
   | TypeDouble \<Rightarrow> b\<lparr>r_value := AsInt (dbl (r_str b))\<rparr>
   | TypeDateTime \<Rightarrow> b\<lparr>r_value := date_back (r_str b) (r_value b)\<rparr> | _ \<Rightarrow> b)"

fun value_back :: "(bytes \<Rightarrow> u32) \<Rightarrow> rpc_value \<Rightarrow> rpc_value" where
  "value_back dbl Null = Null"
| "value_back dbl (Value b) = Value (base_back dbl b)"
| "value_back dbl (Struct b ms) = Struct b (map (\<lambda>(k, v). (k, value_back dbl v)) ms)"
| "value_back dbl (Array b vs) = Array b (map (value_back dbl) vs)"
| "value_back dbl (Binary b xs) = Binary b xs"

text \<open>The text of a value behind its opening tag.\<close>

fun rest_xml :: "rpc_value \<Rightarrow> bytes" where
  "rest_xml (Value b) = (case GetTag (r_type b) of None \<Rightarrow> [] | Some tag \<Rightarrow>
     tag_text False tag @ xml_encode (r_str b) @ tag_text True tag @ tag_text True VALUE_TAG)"
| "rest_xml (Struct b ms) = [10, 9] @ tag_text False STRUCT_TAG @ 10 # concat (map (\<lambda>(k, v).
       [9, 9] @ tag_text False MEMBER_TAG @ [10, 9, 9, 9] @ tag_text False NAME_TAG @ xml_encode k @ tag_text True NAME_TAG
       @ [10, 9, 9, 9] @ tag_text False VALUE_TAG @ rest_xml v @ [10, 9, 9] @ tag_text True MEMBER_TAG @ [10]) ms)
     @ 9 # tag_text True STRUCT_TAG @ 10 # tag_text True VALUE_TAG"
| "rest_xml (Array b vs) = [10, 9] @ tag_text False ARRAY_TAG @ [10, 9, 9] @ tag_text False DATA_TAG @ 10 #
     concat (map (\<lambda>v. tag_text False VALUE_TAG @ rest_xml v @ [10]) vs)
     @ [9, 9] @ tag_text True DATA_TAG @ [10, 9, 9] @ tag_text True ARRAY_TAG @ 10 # tag_text True VALUE_TAG"
| "rest_xml _ = []"

definition value_xml :: "rpc_value \<Rightarrow> bytes" where
  "value_xml v = tag_text False VALUE_TAG @ rest_xml v @ [10]"

definition member_xml :: "bytes \<times> rpc_value \<Rightarrow> bytes" where
  "member_xml m = [9, 9] @ tag_text False MEMBER_TAG @ [10, 9, 9, 9] @ tag_text False NAME_TAG @ xml_encode (fst m) @ tag_text True NAME_TAG
       @ [10, 9, 9, 9] @ tag_text False VALUE_TAG @ rest_xml (snd m) @ [10, 9, 9] @ tag_text True MEMBER_TAG @ [10]"

lemmas tag_defs = VALUE_TAG_def BOOLEAN_TAG_def DOUBLE_TAG_def INT_TAG_def I4_TAG_def STRING_TAG_def DATETIME_TAG_def BASE64_TAG_def
  ARRAY_TAG_def DATA_TAG_def STRUCT_TAG_def MEMBER_TAG_def NAME_TAG_def lit_def

lemma wrap_value_tags: "wrap_value tag t = tag_text False VALUE_TAG @ (tag_text False tag @ t @ tag_text True tag @ tag_text True VALUE_TAG) @ [10]"
  by (simp add: wrap_value_def tag_text_def tag_defs chr_def)

lemma elements_printed:
  "(\<And>v. v \<in> set vs \<Longrightarrow> asXml v = Inr (value_xml v, v)) \<Longrightarrow> elements_xml vs = Inr (concat (map value_xml vs), vs)"
  by (induction vs) auto

lemma members_printed:
  "(\<And>k v. (k, v) \<in> set ms \<Longrightarrow> asXml v = Inr (value_xml v, v)) \<Longrightarrow> members_xml ms = Inr (concat (map member_xml ms), ms)"
proof (induction ms)
  case (Cons m ms)
  obtain k v where m: "m = (k, v)" by (cases m)
  have "asXml v = Inr (value_xml v, v)" "members_xml ms = Inr (concat (map member_xml ms), ms)" using Cons by (auto simp: m)
  then show ?case by (simp add: m member_xml_def [of "(k, v)"] value_xml_def tag_text_def MEMBER_TAG_def NAME_TAG_def lit_def chr_def)
qed simp

lemma printed: "rpc_ok v \<Longrightarrow> asXml v = Inr (value_xml v, v)"
proof (induction v rule: rpc_ok.induct)
  case (2 b)
  then obtain tag where "GetTag (r_type b) = Some tag" by (auto simp: printable_def GetTag_def split: rtype.splits)
  then show ?case by (simp add: value_xml_def wrap_value_tags)
next
  case (3 b ms)
  have "asXml v = Inr (value_xml v, v)" if "(k, v) \<in> set ms" for k v using 3 that by auto
  from members_printed [of ms, OF this] show ?case
    by (simp add: value_xml_def tag_text_def tag_defs chr_def member_xml_def [abs_def] split_def)
next
  case (4 b vs)
  from elements_printed [of vs] 4 show ?case
    by (simp add: value_xml_def [abs_def] tag_text_def tag_defs chr_def)
qed simp_all


section \<open>Reading it back\<close>

lemma tag_names [simp]:
  "plain_name VALUE_TAG" "plain_name BOOLEAN_TAG" "plain_name DOUBLE_TAG" "plain_name INT_TAG" "plain_name STRING_TAG"
  "plain_name DATETIME_TAG" "plain_name ARRAY_TAG" "plain_name DATA_TAG" "plain_name STRUCT_TAG" "plain_name MEMBER_TAG" "plain_name NAME_TAG"
  by (simp_all add: plain_name_def tag_defs chr_def)

lemma tag_neq [simp]:
  "STRING_TAG \<noteq> ARRAY_TAG" "STRING_TAG \<noteq> STRUCT_TAG" "INT_TAG \<noteq> ARRAY_TAG" "INT_TAG \<noteq> STRUCT_TAG" "INT_TAG \<noteq> STRING_TAG"
  "DOUBLE_TAG \<noteq> ARRAY_TAG" "DOUBLE_TAG \<noteq> STRUCT_TAG" "DOUBLE_TAG \<noteq> STRING_TAG" "DOUBLE_TAG \<noteq> INT_TAG" "DOUBLE_TAG \<noteq> I4_TAG"
  "BOOLEAN_TAG \<noteq> ARRAY_TAG" "BOOLEAN_TAG \<noteq> STRUCT_TAG" "BOOLEAN_TAG \<noteq> STRING_TAG" "BOOLEAN_TAG \<noteq> INT_TAG" "BOOLEAN_TAG \<noteq> I4_TAG"
  "BOOLEAN_TAG \<noteq> DOUBLE_TAG"
  "DATETIME_TAG \<noteq> ARRAY_TAG" "DATETIME_TAG \<noteq> STRUCT_TAG" "DATETIME_TAG \<noteq> STRING_TAG" "DATETIME_TAG \<noteq> INT_TAG"
  "DATETIME_TAG \<noteq> I4_TAG" "DATETIME_TAG \<noteq> DOUBLE_TAG" "DATETIME_TAG \<noteq> BOOLEAN_TAG"
  "STRUCT_TAG \<noteq> ARRAY_TAG" "DATA_TAG \<noteq> VALUE_TAG" "STRUCT_TAG \<noteq> MEMBER_TAG"
  by (simp_all add: tag_defs)

definition blanks :: "bytes \<Rightarrow> bool" where
  "blanks t \<longleftrightarrow> (\<forall>c \<in> set t. c_isspace c)"

lemma blanks_simps [simp]: "blanks []" "blanks (10 # t) = blanks t" "blanks (9 # t) = blanks t"
  by (simp_all add: blanks_def c_isspace_def)

lemma no_lt: "blanks t \<Longrightarrow> chr CHR ''<'' \<notin> set t" by (auto simp: blanks_def c_isspace_def chr_def)

lemma to_tag:
  assumes "ahead_of p (t @ tag_text closing n @ R)" "chr CHR ''<'' \<notin> set t" "plain_name n"
  obtains p' where "getNextElement p = Inr (True, p')" "on_tag closing n R p'"
  using next_tag [OF assms] by blast

lemma tag_text_lt: "\<exists>u. tag_text closing n @ R = chr CHR ''<'' # u"
  by (simp add: tag_text_def)

text \<open>On an opening tag before blanks and another tag there is no content.\<close>

lemma no_content:
  assumes "on_tag False n (t @ tag_text closing m @ R) p" "blanks t"
  shows "hasContent p = Inr (False, p)"
proof -
  obtain u where "tag_text closing m @ R = chr CHR ''<'' # u" using tag_text_lt by blast
  then show ?thesis using has_content [of n t u p] assms no_lt by (auto simp: blanks_def)
qed

lemma text_content:
  assumes "on_tag False n (t @ tag_text closing m @ R) p" "chr CHR ''<'' \<notin> set t" "has_ink t"
  shows "hasContent p = Inr (True, p)" "getContent p = Inr (t, add_content t p)" "ahead_of (add_content t p) (t @ tag_text closing m @ R)"
proof -
  obtain u where u: "tag_text closing m @ R = chr CHR ''<'' # u" using tag_text_lt by blast
  have "t \<noteq> []" using assms(3) by (auto simp: has_ink_def)
  then show "hasContent p = Inr (True, p)" "getContent p = Inr (t, add_content t p)" "ahead_of (add_content t p) (t @ tag_text closing m @ R)"
    using has_content [of n t u p] get_content [of p t u] assms u by (auto simp: on_tag_def has_ink_def)
qed

lemma skip_two:
  assumes "ahead_of p (t @ tag_text c n @ tag_text d m @ R)" "chr CHR ''<'' \<notin> set t" "plain_name n" "plain_name m"
  shows "\<exists>p'. skip_tags 1 (v, p) = Inr (v, p') \<and> on_tag d m R p'"
proof -
  obtain p1 where p1: "getNextElement p = Inr (True, p1)" "on_tag c n (tag_text d m @ R) p1" using to_tag [OF assms(1-3)] by blast
  obtain p2 where "getNextElement p1 = Inr (True, p2)" "on_tag d m R p2"
    using to_tag [of p1 "[]" d m R] p1(2) assms(4) by (auto simp: on_tag_def)
  then show ?thesis using p1(1) by (simp add: skip_tags_def)
qed

lemma skip_one:
  assumes "ahead_of p (t @ tag_text d m @ R)" "blanks t" "plain_name m"
  shows "\<exists>p'. skip_tags 0 (v, p) = Inr (v, p') \<and> on_tag d m R p'"
proof -
  obtain p' where "getNextElement p = Inr (True, p')" "on_tag d m R p'" using to_tag [OF assms(1) no_lt [OF assms(2)] assms(3)] .
  then show ?thesis by (simp add: skip_tags_def)
qed

text \<open>Texts that pass through the entity codec.\<close>

lemma encode_plain: "plain_text t \<Longrightarrow> xml_encode t = t"
proof -
  assume p: "plain_text t"
  have "xml_enc1 c = [c]" if "c \<in> set t" for c
    using p that by (cases c rule: entity_cases) (auto simp: plain_text_def xml_enc1_def)
  then have "concat (map xml_enc1 t) = t" by (induction t) auto
  moreover have "0 \<notin> set t" using p by (auto simp: plain_text_def)
  ultimately show ?thesis by (simp add: xml_encode_def xml_encode_concat)
qed

lemma plain_no_lt: "plain_text t \<Longrightarrow> chr CHR ''<'' \<notin> set t"
  by (auto simp: plain_text_def RAW_ENTITY_def lit_def chr_def)

lemma encode_ink:
  assumes "has_ink t" "\<forall>c \<in> set t. c \<noteq> 0 \<and> xml_keeps c"
  shows "has_ink (xml_encode t)"
proof -
  obtain c where c: "c \<in> set t" "\<not> c_isspace c" using assms(1) by (auto simp: has_ink_def)
  have "\<exists>d \<in> set (xml_enc1 c). \<not> c_isspace d"
  proof (cases c rule: entity_cases)
    case 1
    then show ?thesis using c assms(2) by (auto simp: xml_enc1_def)
  next
    case (2 name)
    then show ?thesis by (auto simp: xml_enc1_def AMP_def chr_def c_isspace_def)
  qed
  moreover have "0 \<notin> set t" using assms(2) by auto
  ultimately show ?thesis using c(1) by (auto simp: has_ink_def xml_encode_def xml_encode_concat)
qed

lemma codec_kept:
  assumes "\<forall>c \<in> set t. c \<noteq> 0 \<and> xml_keeps c" "t \<noteq> []" "hd t \<notin> set RAW_ENTITY"
  shows "xml_decode (xml_encode t) = t" "chr CHR ''<'' \<notin> set (xml_encode t)"
proof -
  have z: "0 \<notin> set t" and k: "filter xml_keeps t = t" using assms(1) by (auto intro: filter_True)
  show "xml_decode (xml_encode t) = t" "chr CHR ''<'' \<notin> set (xml_encode t)"
    using k assms(3) xml_codec [OF z] by (auto simp: chr_def)
qed


lemma int_text: "Val_int32 n 10 = Inr t \<Longrightarrow> plain_text t \<and> has_ink t \<and> t_Int t = Inr n"
proof -
  assume v: "Val_int32 n 10 = Inr t"
  let ?d = "hexdigits 10 (if n <s 0 then unat (- n) else unat n)"
  have t: "t = (if n <s 0 then [45] else []) @ ?d" using v Val_int32_digits [of 10 n] by simp
  have "length HEX = 16" by (simp add: HEX_bytes)
  then have "(\<lambda>i. HEX ! i) ` {..<16} \<subseteq> set HEX" by auto
  then have d: "set ?d \<subseteq> set HEX" using hexdigits_chars [of 10] by (meson dual_order.trans numeral_le_iff semiring_norm)
  have "\<forall>c \<in> set (45 # HEX). c \<noteq> 0 \<and> xml_keeps c \<and> c \<notin> set RAW_ENTITY \<and> \<not> c_isspace c"
    by (simp add: HEX_bytes xml_keeps_def word_sless_alt entity_tables c_isspace_def)
  moreover have "set t \<subseteq> set (45 # HEX)" using d unfolding t by auto
  moreover have "t \<noteq> []" unfolding t using hexdigits_ne by simp
  then have "\<exists>c. c \<in> set t" by (cases t) auto
  ultimately show ?thesis
    using Int_Val_roundtrip_aux [OF _ _ v] by (auto simp: plain_text_def has_ink_def t_Int_def)
qed

lemma bool_text: "plain_text (if v then lit ''1'' else lit ''0'') \<and> has_ink (if v then lit ''1'' else lit ''0'')
    \<and> t_Int (if v then lit ''1'' else lit ''0'') = Inr (if v then 1 else 0)"
proof -
  have "Val_int32 (if v then 1 else 0) 10 = Inr (if v then lit ''1'' else lit ''0'')"
    by (cases v) (simp_all add: Val_int32_digits lit_def hexdigits_less HEX_bytes word_sless_alt)
  from int_text [OF this] show ?thesis by simp
qed

text \<open>A basic value with content.\<close>

lemma content_value_ok:
  assumes "on_tag False n (t @ tag_text True n @ tag_text True VALUE_TAG @ R) p" "plain_text t" "has_ink t" "plain_name n"
    "f t (rbase_empty\<lparr>r_type := TypeString, r_str := t\<rparr>) = Inr b"
  shows "\<exists>p'. bindR (content_value f p) (skip_tags 1) = Inr (Value b, p') \<and> on_tag True VALUE_TAG R p'"
    "\<exists>q p'. content_value f p = Inr (Value b, q) \<and> skip_tags 1 (Value b, q) = Inr (Value b, p') \<and> on_tag True VALUE_TAG R p'"
proof -
  note c = text_content [OF assms(1) plain_no_lt [OF assms(2)] assms(3)]
  have v: "content_value f p = Inr (Value b, add_content t p)"
    using c(1,2) assms(5) by (simp add: content_value_def set_string_def rb_clear_def rbase_empty_def)
  obtain p' where "skip_tags 1 (Value b, add_content t p) = Inr (Value b, p')" "on_tag True VALUE_TAG R p'"
    using skip_two [OF c(3) plain_no_lt [OF assms(2)] assms(4), of "Value b"] by auto
  then show "\<exists>p'. bindR (content_value f p) (skip_tags 1) = Inr (Value b, p') \<and> on_tag True VALUE_TAG R p'"
    "\<exists>q p'. content_value f p = Inr (Value b, q) \<and> skip_tags 1 (Value b, q) = Inr (Value b, p') \<and> on_tag True VALUE_TAG R p'"
    using v by auto
qed

lemma string_value_ok:
  assumes "on_tag False n (xml_encode t @ tag_text True n @ tag_text True VALUE_TAG @ R) p" "plain_name n"
    "\<forall>c \<in> set t. c \<noteq> 0 \<and> xml_keeps c" "t = [] \<or> has_ink t \<and> hd t \<notin> set RAW_ENTITY"
  shows "\<exists>p'. bindR (string_value p) (skip_tags 1) = Inr (Value (rbase_empty\<lparr>r_type := TypeString, r_str := t\<rparr>), p')
    \<and> on_tag True VALUE_TAG R p'"
proof (cases "t = []")
  case True
  then have a: "on_tag False n ([] @ tag_text True n @ tag_text True VALUE_TAG @ R) p" using assms(1) by (simp add: xml_encode_def)
  then have "ahead_of p ([] @ tag_text True n @ tag_text True VALUE_TAG @ R)" by (simp add: on_tag_def)
  from skip_two [OF this _ assms(2)] no_content [OF a] True show ?thesis
    by (simp add: string_value_def value_new_def set_string_def rb_clear_def rbase_empty_def)
next
  case False
  then have h: "has_ink t" "hd t \<notin> set RAW_ENTITY" using assms(4) by auto
  note k = codec_kept [OF assms(3) False h(2)]
  note c = text_content [OF assms(1) k(2) encode_ink [OF h(1) assms(3)]]
  have "string_value p = Inr (Value (rbase_empty\<lparr>r_type := TypeString, r_str := t\<rparr>), add_content (xml_encode t) p)"
    using c(1,2) k(1) by (simp add: string_value_def value_new_def set_string_def rb_clear_def rbase_empty_def)
  then show ?thesis using skip_two [OF c(3) k(2) assms(2)] by simp
qed

lemma basic_value_ok:
  assumes "printable b" "GetTag (r_type b) = Some tag"
    and "on_tag False tag (xml_encode (r_str b) @ tag_text True tag @ tag_text True VALUE_TAG @ R) p"
  shows "\<exists>p'. basic_value dbl p = Inr (Value (base_back dbl b), p') \<and> on_tag True VALUE_TAG R p'"
proof -
  let ?s = "rbase_empty\<lparr>r_type := TypeString, r_str := r_str b\<rparr>"
  have n: "el_name p = tag" using assms(3) by (simp add: on_tag_def)
  show ?thesis
  proof (cases "r_type b")
    case TypeString
    then have t: "tag = STRING_TAG" and b: "b = ?s" using assms(1,2) by (auto simp: GetTag_def printable_def rbase_empty_def)
    then show ?thesis using string_value_ok [OF assms(3)] assms(1) TypeString n by (auto simp: basic_value_def printable_def base_back_def rbase_empty_def)
  next
    case TypeInt
    then obtain v where v: "r_value b = AsInt v" "Val_int32 v 10 = Inr (r_str b)" using assms(1) by (auto simp: printable_def)
    note i = int_text [OF v(2)]
    have t: "tag = INT_TAG" using TypeInt assms(2) by (simp add: GetTag_def)
    let ?b = "?s\<lparr>r_value := AsInt v, r_type := TypeInt\<rparr>"
    have nb: "?b = base_back dbl b" using v(1) TypeInt by (simp add: rbase_empty_def base_back_def)
    let ?f = "\<lambda>t b. bindR (t_Int t) (\<lambda>n. Inr (b\<lparr>r_value := AsInt n, r_type := TypeInt\<rparr>))"
    have f: "?f (r_str b) ?s = Inr ?b" using i by simp
    from content_value_ok(1) [where f = ?f and b = ?b, OF assms(3) [unfolded encode_plain [OF conjunct1 [OF i]]] _ _ _ f]
    obtain p' where "bindR (content_value ?f p) (skip_tags 1) = Inr (Value ?b, p')" "on_tag True VALUE_TAG R p'" using i t by auto
    then show ?thesis using n t nb by (auto simp: basic_value_def)
  next
    case TypeBoolean
    then obtain v where v: "r_value b = AsBool v" "r_str b = (if v then lit ''1'' else lit ''0'')" using assms(1) by (auto simp: printable_def)
    note i = bool_text [of v, folded v(2)]
    have t: "tag = BOOLEAN_TAG" using TypeBoolean assms(2) by (simp add: GetTag_def)
    let ?b = "?s\<lparr>r_value := AsInt (if v then 1 else 0), r_type := TypeBoolean\<rparr>"
    have nb: "?b = base_back dbl b" using v(1) TypeBoolean by (simp add: base_back_def rbase_empty_def)
    let ?f = "\<lambda>t b. bindR (t_Int t) (\<lambda>n. Inr (b\<lparr>r_value := AsInt n, r_type := TypeBoolean\<rparr>))"
    have f: "?f (r_str b) ?s = Inr ?b" using i by simp
    from content_value_ok(1) [where f = ?f and b = ?b, OF assms(3) [unfolded encode_plain [OF conjunct1 [OF i]]] _ _ _ f]
    obtain p' where "bindR (content_value ?f p) (skip_tags 1) = Inr (Value ?b, p')" "on_tag True VALUE_TAG R p'" using i t by auto
    then show ?thesis using n t nb by (auto simp: basic_value_def)
  next
    case TypeDouble
    then have i: "plain_text (r_str b)" "has_ink (r_str b)" using assms(1) by (auto simp: printable_def)
    have t: "tag = DOUBLE_TAG" using TypeDouble assms(2) by (simp add: GetTag_def)
    let ?b = "?s\<lparr>r_value := AsInt (dbl (r_str b)), r_type := TypeDouble\<rparr>"
    have nb: "?b = base_back dbl b" using TypeDouble by (simp add: base_back_def rbase_empty_def)
    let ?f = "\<lambda>t b. Inr (b\<lparr>r_value := AsInt (dbl t), r_type := TypeDouble\<rparr>)"
    have f: "?f (r_str b) ?s = Inr ?b" by simp
    from content_value_ok(1) [where f = ?f and b = ?b, OF assms(3) [unfolded encode_plain [OF i(1)]] _ _ _ f]
    obtain p' where "bindR (content_value ?f p) (skip_tags 1) = Inr (Value ?b, p')" "on_tag True VALUE_TAG R p'" using i t by auto
    then show ?thesis using n t nb by (auto simp: basic_value_def)
  next
    case TypeDateTime
    then have i: "plain_text (r_str b)" "has_ink (r_str b)" "scan_iso (r_str b) \<noteq> None" using assms(1) by (auto simp: printable_def)
    have t: "tag = DATETIME_TAG" using TypeDateTime assms(2) by (simp add: GetTag_def)
    obtain d where d: "date_value (r_str b) ?s = Inr (?s\<lparr>r_value := AsDateTime (Some d), r_type := TypeDateTime\<rparr>)"
        "date_back (r_str b) (r_value b) = AsDateTime (Some d)"
      using i(3) by (auto simp: date_value_def date_back_def)
    let ?b = "?s\<lparr>r_value := AsDateTime (Some d), r_type := TypeDateTime\<rparr>"
    have nb: "?b = base_back dbl b" "\<not> bad_date q (Value (base_back dbl b))" for q
      using TypeDateTime i(3) d(2) by (simp_all add: base_back_def rbase_empty_def bad_date_def)
    obtain q p' where "content_value date_value p = Inr (Value ?b, q)" "skip_tags 1 (Value ?b, q) = Inr (Value ?b, p')" "on_tag True VALUE_TAG R p'"
      using content_value_ok(2) [where f = date_value and b = ?b, OF assms(3) [unfolded encode_plain [OF i(1)]] i(1,2) _ d(1)] t by auto
    then show ?thesis using n t nb by (auto simp: basic_value_def)
  qed (use assms(1) in \<open>simp_all add: printable_def\<close>)
qed


section \<open>Any nesting\<close>

definition reads_value :: "nat \<Rightarrow> (bytes \<Rightarrow> u32) \<Rightarrow> bool" where
  "reads_value n dbl \<longleftrightarrow> (\<forall>v R p. rpc_ok v \<longrightarrow> on_tag False VALUE_TAG (rest_xml v @ R) p \<longrightarrow> length (rest_xml v) \<le> n \<longrightarrow>
     (\<exists>v' p'. FromXml n dbl p = Inr (v', p') \<and> v' = value_back dbl v \<and> on_tag True VALUE_TAG R p'))"

definition reads_array :: "nat \<Rightarrow> (bytes \<Rightarrow> u32) \<Rightarrow> bool" where
  "reads_array n dbl \<longleftrightarrow> (\<forall>vs R p. (\<forall>v \<in> set vs. rpc_ok v) \<longrightarrow>
     ahead_of p (10 # concat (map value_xml vs) @ [9, 9] @ tag_text True DATA_TAG @ R) \<longrightarrow> length (concat (map value_xml vs)) < n \<longrightarrow>
     (\<exists>vs' p'. array_loop n dbl p = Inr (vs', p') \<and> vs' = map (value_back dbl) vs \<and> on_tag True DATA_TAG R p'))"

definition members_back :: "(bytes \<Rightarrow> u32) \<Rightarrow> (bytes \<times> rpc_value) list \<Rightarrow> (bytes \<times> rpc_value) list" where
  "members_back dbl ms = map (\<lambda>(k, v). (k, value_back dbl v)) ms"

definition reads_struct :: "nat \<Rightarrow> (bytes \<Rightarrow> u32) \<Rightarrow> bool" where
  "reads_struct n dbl \<longleftrightarrow> (\<forall>acc ms R p. (\<forall>(k, v) \<in> set ms. plain_text k \<and> has_ink k \<and> rpc_ok v) \<longrightarrow>
     distinct (map (hash_bytes \<circ> fst) (acc @ ms)) \<longrightarrow>
     ahead_of p (10 # concat (map member_xml ms) @ 9 # tag_text True STRUCT_TAG @ R) \<longrightarrow> length (concat (map member_xml ms)) < n \<longrightarrow>
     (\<exists>ms' p'. struct_loop n dbl acc p = Inr (acc @ ms', p') \<and> ms' = members_back dbl ms \<and> on_tag True STRUCT_TAG R p'))"

lemma ahead_on: "on_tag c n R p \<Longrightarrow> ahead_of p R" "on_tag c n R p \<Longrightarrow> el_name p = n" "on_tag c n R p \<Longrightarrow> el_closing p = c"
  by (simp_all add: on_tag_def)

lemma tag_text_pos: "0 < length (tag_text c n)" by (simp add: tag_text_def)

lemma reads_array_step:
  assumes "reads_value n dbl" "reads_array n dbl"
  shows "reads_array (Suc n) dbl"
  unfolding reads_array_def
proof (intro allI impI)
  fix vs R p
  assume ok: "\<forall>v \<in> set vs. rpc_ok v" and a: "ahead_of p (10 # concat (map value_xml vs) @ [9, 9] @ tag_text True DATA_TAG @ R)"
    and l: "length (concat (map value_xml vs)) < Suc n"
  show "\<exists>vs' p'. array_loop (Suc n) dbl p = Inr (vs', p') \<and> vs' = map (value_back dbl) vs \<and> on_tag True DATA_TAG R p'"
  proof (cases vs)
    case Nil
    then have "ahead_of p ([10, 9, 9] @ tag_text True DATA_TAG @ R)" using a by simp
    then obtain p' where "getNextElement p = Inr (True, p')" "on_tag True DATA_TAG R p'"
      using to_tag no_lt [of "[10, 9, 9]"] by (metis blanks_simps tag_names(8))
    then show ?thesis using Nil ahead_on(2) by simp
  next
    case (Cons v us)
    let ?rest = "10 # concat (map value_xml us) @ [9, 9] @ tag_text True DATA_TAG @ R"
    have "ahead_of p ([10] @ tag_text False VALUE_TAG @ rest_xml v @ ?rest)" using a Cons by (simp add: value_xml_def)
    then obtain p1 where p1: "getNextElement p = Inr (True, p1)" "on_tag False VALUE_TAG (rest_xml v @ ?rest) p1"
      using to_tag no_lt [of "[10]"] by (metis blanks_simps tag_names(1))
    have "length (rest_xml v) \<le> n" "length (concat (map value_xml us)) < n"
      using l Cons tag_text_pos [of False VALUE_TAG] by (auto simp: value_xml_def)
    then obtain v' p2 where v': "FromXml n dbl p1 = Inr (v', p2)" "v' = value_back dbl v" "on_tag True VALUE_TAG ?rest p2"
      using assms(1) p1(2) ok Cons unfolding reads_value_def by (metis list.set_intros(1))
    have "ahead_of p2 ?rest" "\<forall>v \<in> set us. rpc_ok v" using ahead_on(1) [OF v'(3)] ok Cons by auto
    then obtain us' p3 where us': "array_loop n dbl p2 = Inr (us', p3)" "us' = map (value_back dbl) us" "on_tag True DATA_TAG R p3"
      using assms(2) [unfolded reads_array_def, rule_format] \<open>length (concat (map value_xml us)) < n\<close> by blast
    then show ?thesis using p1(1) v'(1,2) us' ahead_on(2,3) [OF p1(2)] Cons by simp
  qed
qed

lemma kv_add_new: "hash_bytes k \<notin> set (map (hash_bytes \<circ> fst) acc) \<Longrightarrow> kv_add hash_bytes k v acc = Inr (acc @ [(k, v)])"
  by (force simp: kv_add_def kv_find_def find_None_iff)

lemma reads_struct_step:
  assumes "reads_value n dbl" "reads_struct n dbl"
  shows "reads_struct (Suc n) dbl"
  unfolding reads_struct_def
proof (intro allI impI)
  fix acc ms R p
  assume ok: "\<forall>(k, v) \<in> set ms. plain_text k \<and> has_ink k \<and> rpc_ok v" and d: "distinct (map (hash_bytes \<circ> fst) (acc @ ms))"
    and a: "ahead_of p (10 # concat (map member_xml ms) @ 9 # tag_text True STRUCT_TAG @ R)"
    and l: "length (concat (map member_xml ms)) < Suc n"
  show "\<exists>ms' p'. struct_loop (Suc n) dbl acc p = Inr (acc @ ms', p') \<and> ms' = members_back dbl ms \<and> on_tag True STRUCT_TAG R p'"
  proof (cases ms)
    case Nil
    then have "ahead_of p ([10, 9] @ tag_text True STRUCT_TAG @ R)" using a by simp
    then obtain p' where "getNextElement p = Inr (True, p')" "on_tag True STRUCT_TAG R p'"
      using to_tag no_lt [of "[10, 9]"] by (metis blanks_simps tag_names(9))
    then show ?thesis using Nil ahead_on(2) by (simp add: members_back_def)
  next
    case (Cons m us)
    obtain k v where m: "m = (k, v)" by (cases m)
    have k: "plain_text k" "has_ink k" "rpc_ok v" using ok Cons m by auto
    let ?rest = "10 # concat (map member_xml us) @ 9 # tag_text True STRUCT_TAG @ R"
    let ?r5 = "[10, 9, 9] @ tag_text True MEMBER_TAG @ ?rest"
    let ?r4 = "[10, 9, 9, 9] @ tag_text False VALUE_TAG @ rest_xml v @ ?r5"
    let ?r3 = "k @ tag_text True NAME_TAG @ ?r4"
    let ?r2 = "[10, 9, 9, 9] @ tag_text False NAME_TAG @ ?r3"
    have "ahead_of p ([10, 9, 9] @ tag_text False MEMBER_TAG @ ?r2)"
      using a Cons by (simp add: member_xml_def [of "(k, v)"] m encode_plain [OF k(1)])
    then obtain p1 where p1: "getNextElement p = Inr (True, p1)" "on_tag False MEMBER_TAG ?r2 p1"
      using to_tag no_lt [of "[10, 9, 9]"] by (metis blanks_simps tag_names(10))
    obtain p2 where p2: "getNextElement p1 = Inr (True, p2)" "on_tag False NAME_TAG ?r3 p2"
      using to_tag [OF ahead_on(1) [OF p1(2)]] no_lt [of "[10, 9, 9, 9]"] by (metis blanks_simps tag_names(11))
    note c = text_content [OF p2(2) plain_no_lt [OF k(1)] k(2)]
    obtain p3 where p3: "getNextElement (add_content k p2) = Inr (True, p3)" "on_tag True NAME_TAG ?r4 p3"
      using to_tag [OF c(3) plain_no_lt [OF k(1)]] by (metis tag_names(11))
    obtain p4 where p4: "getNextElement p3 = Inr (True, p4)" "on_tag False VALUE_TAG (rest_xml v @ ?r5) p4"
      using to_tag [OF ahead_on(1) [OF p3(2)]] no_lt [of "[10, 9, 9, 9]"] by (metis blanks_simps tag_names(1))
    have len: "length (rest_xml v) \<le> n" "length (concat (map member_xml us)) < n"
      using l Cons by (auto simp: member_xml_def [of "(k, v)"] m)
    obtain v' p5 where v': "FromXml n dbl p4 = Inr (v', p5)" "v' = value_back dbl v" "on_tag True VALUE_TAG ?r5 p5"
      using assms(1) p4(2) k(3) len(1) unfolding reads_value_def by metis
    obtain p6 where p6: "getNextElement p5 = Inr (True, p6)" "on_tag True MEMBER_TAG ?rest p6"
      using to_tag [OF ahead_on(1) [OF v'(3)]] no_lt [of "[10, 9, 9]"] by (metis blanks_simps tag_names(10))
    have add: "struct_set_value k v' acc = Inr (acc @ [(k, v')])"
      unfolding struct_set_value_def by (rule kv_add_new) (use d Cons m in \<open>auto simp: comp_def\<close>)
    have "distinct (map (hash_bytes \<circ> fst) ((acc @ [(k, v')]) @ us))" using d Cons m by auto
    then obtain us' p7 where us': "struct_loop n dbl (acc @ [(k, v')]) p6 = Inr ((acc @ [(k, v')]) @ us', p7)"
        "us' = members_back dbl us" "on_tag True STRUCT_TAG R p7"
      using assms(2) ok Cons ahead_on(1) [OF p6(2)] len(2) unfolding reads_struct_def by (metis (no_types, lifting) list.set_intros(2))
    then have "struct_loop (Suc n) dbl acc p = Inr (acc @ (k, v') # us', p7)"
      using p1 p2 c p3 p4 v'(1) p6(1) add ahead_on(2,3) [OF p1(2)] ahead_on(2,3) [OF p2(2)] ahead_on(2,3) [OF p3(2)]
        ahead_on(2,3) [OF p4(2)] by simp
    then show ?thesis using us' v'(2) Cons m by (auto simp: members_back_def)
  qed
qed


lemma reads_value_step:
  assumes "reads_array n dbl" "reads_struct n dbl"
  shows "reads_value (Suc n) dbl"
  unfolding reads_value_def
proof (intro allI impI)
  fix v R p
  assume ok: "rpc_ok v" and a: "on_tag False VALUE_TAG (rest_xml v @ R) p" and l: "length (rest_xml v) \<le> Suc n"
  show "\<exists>v' p'. FromXml (Suc n) dbl p = Inr (v', p') \<and> v' = value_back dbl v \<and> on_tag True VALUE_TAG R p'"
  proof (cases v)
    case (Value b)
    then obtain tag where t: "GetTag (r_type b) = Some tag" "plain_name tag" "tag \<noteq> ARRAY_TAG" "tag \<noteq> STRUCT_TAG"
      using ok by (auto simp: printable_def GetTag_def split: rtype.splits)
    let ?r = "xml_encode (r_str b) @ tag_text True tag @ tag_text True VALUE_TAG @ R"
    have a': "on_tag False VALUE_TAG ([] @ tag_text False tag @ ?r) p" using a Value t(1) by simp
    obtain p1 where p1: "getNextElement p = Inr (True, p1)" "on_tag False tag ?r p1"
      using to_tag [OF ahead_on(1) [OF a'] _ t(2)] by auto
    obtain p' where "basic_value dbl p1 = Inr (Value (base_back dbl b), p')" "on_tag True VALUE_TAG R p'"
      using basic_value_ok [OF _ t(1) p1(2), of dbl] ok Value by auto
    then show ?thesis using no_content [OF a'] p1(1) ahead_on(2) [OF p1(2)] ahead_on(2) [OF a] t Value by simp
  next
    case (Array b vs)
    let ?r3 = "[10, 9, 9] @ tag_text True ARRAY_TAG @ [10] @ tag_text True VALUE_TAG @ R"
    let ?r2 = "10 # concat (map value_xml vs) @ [9, 9] @ tag_text True DATA_TAG @ ?r3"
    let ?r1 = "[10, 9, 9] @ tag_text False DATA_TAG @ ?r2"
    have a': "on_tag False VALUE_TAG ([10, 9] @ tag_text False ARRAY_TAG @ ?r1) p"
      using a Array by (simp add: value_xml_def [abs_def])
    obtain p1 where p1: "getNextElement p = Inr (True, p1)" "on_tag False ARRAY_TAG ?r1 p1"
      using to_tag [OF ahead_on(1) [OF a']] no_lt [of "[10, 9]"] by (metis blanks_simps tag_names(7))
    obtain p2 where p2: "getNextElement p1 = Inr (True, p2)" "on_tag False DATA_TAG ?r2 p2"
      using to_tag [OF ahead_on(1) [OF p1(2)]] no_lt [of "[10, 9, 9]"] by (metis blanks_simps tag_names(8))
    have "length (concat (map value_xml vs)) < n" using l Array by (simp add: value_xml_def [abs_def])
    then obtain vs' p3 where p3: "array_loop n dbl p2 = Inr (vs', p3)" "vs' = map (value_back dbl) vs" "on_tag True DATA_TAG ?r3 p3"
      using assms(1) [unfolded reads_array_def, rule_format, OF _ ahead_on(1) [OF p2(2)]] ok Array by auto
    obtain p4 where p4: "getNextElement p3 = Inr (True, p4)" "on_tag True ARRAY_TAG ([10] @ tag_text True VALUE_TAG @ R) p4"
      using to_tag [OF ahead_on(1) [OF p3(3)]] no_lt [of "[10, 9, 9]"] by (metis blanks_simps tag_names(7))
    obtain p5 where p5: "skip_tags 0 (Array b vs', p4) = Inr (Array b vs', p5)" "on_tag True VALUE_TAG R p5"
      using skip_one [OF ahead_on(1) [OF p4(2)], of "Array b vs'"] by auto
    have b: "b = rbase_empty\<lparr>r_type := TypeArray\<rparr>" using ok Array by simp
    have "hasContent p = Inr (False, p)" by (rule no_content [OF a']) simp
    then have "FromXml (Suc n) dbl p = Inr (Array b vs', p5)"
      using p1(1) p2(1) p3(1) p4(1) p5(1) ahead_on(2,3) [OF p1(2)] ahead_on(2) [OF p2(2)] ahead_on(2,3) [OF p3(3)]
        ahead_on(2,3) [OF p4(2)] ahead_on(2) [OF a] unfolding b by simp
    then show ?thesis using p3(2) p5(2) Array by simp
  next
    case (Struct b ms)
    let ?r1 = "10 # concat (map member_xml ms) @ 9 # tag_text True STRUCT_TAG @ [10] @ tag_text True VALUE_TAG @ R"
    have a': "on_tag False VALUE_TAG ([10, 9] @ tag_text False STRUCT_TAG @ ?r1) p"
      using a Struct by (simp add: member_xml_def [abs_def] split_def)
    obtain p1 where p1: "getNextElement p = Inr (True, p1)" "on_tag False STRUCT_TAG ?r1 p1"
      using to_tag [OF ahead_on(1) [OF a']] no_lt [of "[10, 9]"] by (metis blanks_simps tag_names(9))
    have "length (concat (map member_xml ms)) < n" using l Struct by (simp add: member_xml_def [abs_def] split_def)
    moreover have "\<forall>(k, v) \<in> set ms. plain_text k \<and> has_ink k \<and> rpc_ok v" "distinct (map (hash_bytes \<circ> fst) ([] @ ms))"
      using ok Struct by auto
    ultimately obtain ms' p2 where p2: "struct_loop n dbl [] p1 = Inr ([] @ ms', p2)" "ms' = members_back dbl ms"
        "on_tag True STRUCT_TAG ([10] @ tag_text True VALUE_TAG @ R) p2"
      using assms(2) [unfolded reads_struct_def, rule_format, OF _ _ ahead_on(1) [OF p1(2)]] by blast
    obtain p3 where p3: "skip_tags 0 (Struct b ms', p2) = Inr (Struct b ms', p3)" "on_tag True VALUE_TAG R p3"
      using skip_one [OF ahead_on(1) [OF p2(3)], of "Struct b ms'"] by auto
    have b: "b = rbase_empty\<lparr>r_type := TypeStruct\<rparr>" using ok Struct by simp
    have "hasContent p = Inr (False, p)" by (rule no_content [OF a']) simp
    then have "FromXml (Suc n) dbl p = Inr (Struct b ms', p3)"
      using p1(1) p2(1) p3(1) ahead_on(2,3) [OF p1(2)] ahead_on(2) [OF a] unfolding b by simp
    then show ?thesis using p2(2) p3(2) Struct by (simp add: members_back_def)
  qed (use ok in simp_all)
qed

lemma rest_xml_pos: "rpc_ok v \<Longrightarrow> 0 < length (rest_xml v)"
  by (cases v) (auto simp: printable_def GetTag_def tag_text_def split: rtype.splits)

lemma reads_all: "reads_value n dbl \<and> reads_array n dbl \<and> reads_struct n dbl"
proof (induction n)
  case 0
  have "\<not> length (rest_xml v) \<le> 0" if "rpc_ok v" for v using rest_xml_pos [OF that] by simp
  then show ?case by (simp add: reads_value_def reads_array_def reads_struct_def)
next
  case (Suc n)
  then show ?case using reads_value_step reads_array_step reads_struct_step by blast
qed


section \<open>Properties\<close>

text \<open>The month of a date that is read back is one more than that of its text.\<close>

lemma date_late:
  assumes "valid_ymd d (mo + 1) y" "0 \<le> h * 3600 + mi * 60 + s" "h * 3600 + mi * 60 + s \<le> 86400"
  shows "dt_date (datetime_of_tm d mo (y - 1900) h mi s) = date_of_ymd d (mo + 1) y"
proof -
  have v: "1 \<le> mo + 1" "mo + 1 \<le> 12" "0 \<le> d" "d \<le> 31" "- 4799 \<le> y" "y \<le> 32767"
    using assms(1) by (auto simp: valid_ymd_def month_days_def split: if_splits)
  then have "date_of_tm d mo (y - 1900) = date_of_ymd d (mo + 1) y"
    by (simp add: date_of_tm_def date_of_ymd_eq julian_of_def update_julian_def date_blank_def)
  moreover have "date_addDays 0 (date_of_ymd d (mo + 1) y) = date_of_ymd d (mo + 1) y"
    using julian_decode [OF assms(1) refl, of "date_of_ymd d (mo + 1) y"] julian_number_s32 [OF assms(1)]
    unfolding date_addDays_def date_of_ymd_julian [OF assms(1)] by simp
  ultimately show ?thesis using assms(2,3) by (simp add: datetime_of_tm_def dt_rescale_def time_rescale_def time_of_tm_def)
qed


definition rpc_seven :: rpc_value where
  "rpc_seven = Array (rbase_empty\<lparr>r_type := TypeArray\<rparr>) [Value \<lparr>r_type = TypeInt, r_str = lit ''7'', r_value = AsInt 7\<rparr>]"


end
