(* ===== verification/Rpc_Protocol.thy ===== *)
theory Rpc_Protocol
  imports Rpc_Props Uri
begin

text \<open>
  Services, the registry of services and the XML-RPC request handler (src/rpc/RpcProtocol.cpp,
  src/xml/XmlRpcProtocol.cpp) up to the HTTP request it answers. A method is the argument \<open>run\<close> applied to its entry; a null entry, as the
  system service registers them, is \<open>None\<close>. A call is the content of the request; a null pointer is a \<open>Mem_Fault\<close>.
\<close>

section \<open>Services\<close>

type_synonym 'm methods = "(bytes \<times> 'm option) list"
type_synonym 'm services = "(bytes \<times> (bytes \<times> 'm methods)) list"

definition has_key :: "bytes \<Rightarrow> (bytes \<times> 'v) list \<Rightarrow> bool" where
  "has_key k kvs \<longleftrightarrow> kv_find hash_bytes k kvs \<noteq> None"

definition service_execute :: "('m \<Rightarrow> rpc_value list \<Rightarrow> rpc_value res) \<Rightarrow> bytes \<Rightarrow> rpc_value list \<Rightarrow> 'm methods \<Rightarrow> rpc_value res" where
  "service_execute run method_name args ms = (if has_key method_name ms then
       bindR (kv_get hash_bytes method_name ms) (\<lambda>m. case m of None \<Rightarrow> Inl Mem_Fault | Some m \<Rightarrow> run m args)
     else Inr Null)"

definition addMethod :: "bytes \<Rightarrow> 'm option \<Rightarrow> 'm methods \<Rightarrow> 'm methods res" where
  "addMethod name m ms = (if \<not> has_key name ms then kv_add hash_bytes name m ms else io_error)"

definition removeMethod :: "bytes \<Rightarrow> 'm methods \<Rightarrow> 'm methods res" where
  "removeMethod method_name ms = (if \<not> has_key method_name ms then kv_remove hash_bytes method_name ms else Inr ms)"

definition hasMethod :: "bytes \<Rightarrow> 'm methods \<Rightarrow> bool" where
  "hasMethod method_name ms \<longleftrightarrow> has_key method_name ms"

definition service_listMethods :: "bytes \<Rightarrow> 'm methods \<Rightarrow> rpc_value list \<Rightarrow> rpc_value list res" where
  "service_listMethods name ms vs = foldl (\<lambda>r (k, _). bindR r (\<lambda>vs.
     bindR (vformat_text 5 (name @ lit ''.'' @ k)) (\<lambda>t. bindR (value_new (set_string t)) (\<lambda>v. Inr (vs @ [v]))))) (Inr vs) ms"

section \<open>The registry\<close>

definition addService :: "bytes \<Rightarrow> 'm methods \<Rightarrow> 'm services \<Rightarrow> 'm services res" where
  "addService name ms ss = (if \<not> has_key name ss then kv_add hash_bytes name (name, ms) ss else io_error)"

definition removeService :: "bytes \<Rightarrow> 'm services \<Rightarrow> 'm services res" where
  "removeService name ss = (if \<not> has_key name ss then kv_remove hash_bytes name ss else Inr ss)"

definition hasService :: "bytes \<Rightarrow> 'm services \<Rightarrow> bool" where
  "hasService name ss \<longleftrightarrow> has_key name ss"

definition listMethods :: "'m services \<Rightarrow> rpc_value res" where
  "listMethods ss = bindR (foldl (\<lambda>r (_, name, ms). bindR r (service_listMethods name ms)) (Inr []) ss) (\<lambda>vs.
     Inr (Array (rbase_empty\<lparr>r_type := TypeArray\<rparr>) vs))"

definition getMethod :: "bytes \<Rightarrow> bytes \<Rightarrow> 'm services \<Rightarrow> 'm option res" where
  "getMethod service_name method_name ss = (if has_key service_name ss then
       bindR (kv_get hash_bytes service_name ss) (\<lambda>(_, ms).
       if hasMethod method_name ms then kv_get hash_bytes method_name ms else Inr None)
     else Inr None)"

definition protocol_execute :: "('m \<Rightarrow> rpc_value list \<Rightarrow> rpc_value res) \<Rightarrow> bytes \<Rightarrow> bytes \<Rightarrow> rpc_value list \<Rightarrow> 'm services \<Rightarrow> rpc_value res" where
  "protocol_execute run service_name method_name args ss = (if has_key service_name ss then
       bindR (kv_get hash_bytes service_name ss) (\<lambda>(_, ms). service_execute run method_name args ms)
     else Inr Null)"

section \<open>Requests\<close>

definition METHOD_RESPONSE_HEADER :: bytes where
  "METHOD_RESPONSE_HEADER = lit [CHR ''<'', CHR ''?'', CHR ''x'', CHR ''m'', CHR ''l'', CHR '' '', CHR ''v'', CHR ''e'', CHR ''r'',
     CHR ''s'', CHR ''i'', CHR ''o'', CHR ''n'', CHR ''='', CHR 0x22, CHR ''1'', CHR ''.'', CHR ''0'', CHR 0x22, CHR ''?'', CHR ''>'']
     @ [10] @ lit ''<methodResponse><params>''"

definition METHOD_RESPONSE_FOOTER :: bytes where
  "METHOD_RESPONSE_FOOTER = lit ''</params></methodResponse>'' @ [10]"

text \<open>The search for the call among the first four elements; the element may be null.\<close>

fun find_call :: "nat \<Rightarrow> bool \<Rightarrow> xparser \<Rightarrow> (bool \<times> xparser) res" where
  "find_call 0 element p = Inr (False, p)"
| "find_call (Suc i) element p = (if \<not> element then Inl Mem_Fault else if el_name p = lit ''methodCall'' then Inr (True, p)
     else bindR (getNextElement p) (\<lambda>(element, p). find_call i element p))"

fun args_loop :: "nat \<Rightarrow> (bytes \<Rightarrow> u32) \<Rightarrow> xparser \<Rightarrow> (rpc_value list \<times> xparser) res" where
  "args_loop 0 dbl p = Inl Out_Of_Fuel"
| "args_loop (Suc n) dbl p = bindR (getNextElement p) (\<lambda>(more, p).
     if \<not> (more \<and> el_name p = lit ''param'') then Inr ([], p) else
     bindR (getNextElement p) (\<lambda>(more, p).
     if \<not> (more \<and> el_name p = VALUE_TAG) then Inr ([], p) else
     bindR (FromXml n dbl p) (\<lambda>(v, p). bindR (getNextElement p) (\<lambda>(_, p).
     bindR (args_loop n dbl p) (\<lambda>(vs, p). Inr (v # vs, p))))))"

definition response :: "rpc_value \<Rightarrow> bytes res" where
  "response result = bindR (if result \<noteq> Null then asXml result else Inr (lit ''<value><nil/></value>'', result)) (\<lambda>(t, _).
     Inr (METHOD_RESPONSE_HEADER @ t @ METHOD_RESPONSE_FOOTER))"

text \<open>The list of the methods goes through \<open>String::Format\<close> with the format \<open>METHOD_RESPONSE\<close>, two characters
  longer than its header and footer.\<close>

definition list_response :: "'m services \<Rightarrow> bytes res" where
  "list_response ss = bindR (listMethods ss) (\<lambda>result. bindR (asXml result) (\<lambda>(t, _).
     vformat_text (length METHOD_RESPONSE_HEADER + 2 + length METHOD_RESPONSE_FOOTER) (METHOD_RESPONSE_HEADER @ t @ METHOD_RESPONSE_FOOTER)))"

definition handle_call :: "('m \<Rightarrow> rpc_value list \<Rightarrow> rpc_value res) \<Rightarrow> 'm services \<Rightarrow> nat \<Rightarrow> (bytes \<Rightarrow> u32) \<Rightarrow> bytes \<Rightarrow> bytes res" where
  "handle_call run ss n dbl xml = bindR (getNextElement (Parser xml)) (\<lambda>(element, p).
     bindR (find_call 4 element p) (\<lambda>(is_methodCall, p). if \<not> is_methodCall then io_error else
     bindR (getNextElement p) (\<lambda>(more, p). if \<not> more \<or> el_name p \<noteq> lit ''methodName'' then io_error else
     bindR (hasContent p) (\<lambda>(has, p). if \<not> has then io_error else
     bindR (getContent p) (\<lambda>(t, p). bindR (t_find (chr CHR ''.'') 0 t) (\<lambda>dot. if dot = - 1 then io_error else
     bindR (t_section (chr CHR ''.'') True 0 t) (\<lambda>service_name. bindR (t_section (chr CHR ''.'') True 1 t) (\<lambda>method_name.
     if service_name = lit ''system'' \<and> method_name = lit ''listMethods'' then list_response ss
     else if \<not> has_key service_name ss then format_error ''no service with name: '' service_name [] ''IOException'' else
     bindR (kv_get hash_bytes service_name ss) (\<lambda>(_, ms). if \<not> hasMethod method_name ms
       then bindR (vformat_text (length ''service:%s does not have method: %s'')
         (lit ''service:'' @ service_name @ lit '' does not have method: '' @ method_name)) (\<lambda>_. io_error) else
     bindR (getNextElement p) (\<lambda>(_, p). bindR (getNextElement p) (\<lambda>(element, p).
     if \<not> element then Inl Mem_Fault else if el_name p \<noteq> lit ''params'' then io_error else
     bindR (args_loop n dbl p) (\<lambda>(args, p).
     bindR (service_execute run method_name args ms) response))))))))))))"

section \<open>A call, from its text to its reply\<close>

definition xml_decl :: bytes where
  "xml_decl = lit [CHR ''?'', CHR ''x'', CHR ''m'', CHR ''l'', CHR '' '', CHR ''v'', CHR ''e'', CHR ''r'', CHR ''s'', CHR ''i'',
     CHR ''o'', CHR ''n'', CHR ''='', CHR 0x22, CHR ''1'', CHR ''.'', CHR ''0'', CHR 0x22, CHR ''?'']"

definition arg_xml :: "rpc_value \<Rightarrow> bytes" where
  "arg_xml v = tag_text False (lit ''param'') @ value_xml v @ tag_text True (lit ''param'')"

text \<open>The text up to the end of the parameters, where the handler stops reading.\<close>

definition call_head :: "bytes \<Rightarrow> bytes \<Rightarrow> rpc_value list \<Rightarrow> bytes" where
  "call_head service_name method_name args = chr CHR ''<'' # xml_decl @ chr CHR ''>'' # 10 # tag_text False (lit ''methodCall'')
     @ tag_text False (lit ''methodName'') @ (service_name @ chr CHR ''.'' # method_name) @ tag_text True (lit ''methodName'')
     @ tag_text False (lit ''params'') @ concat (map arg_xml args) @ tag_text True (lit ''params'')"

definition call_text :: "bytes \<Rightarrow> bytes \<Rightarrow> rpc_value list \<Rightarrow> bytes" where
  "call_text service_name method_name args = call_head service_name method_name args @ tag_text True (lit ''methodCall'')"

lemma call_tags [simp]:
  "plain_name (lit ''param'')" "plain_name (lit ''params'')" "plain_name (lit ''methodCall'')" "plain_name (lit ''methodName'')"
  "lit ''params'' \<noteq> lit ''param''"
  by (simp_all add: plain_name_def lit_def chr_def)

lemma decl_elem: "\<exists>e. tag_elem xml_decl (Element False) = Inr e \<and> e_name e = lit ''xml''"
  by (simp add: xml_decl_def tag_elem_def strip_markers_def split_attributes_def elem_clear_def Element_def t_replace_def
    t_find_def t_mid_def t_from_def chr_def lit_def Let_def)

lemma section_names:
  assumes "s \<noteq> []" "m \<noteq> []" "chr CHR ''.'' \<notin> set s" "chr CHR ''.'' \<notin> set m" "length (s @ chr CHR ''.'' # m) < 2 ^ 31"
  shows "t_section (chr CHR ''.'') True 0 (s @ chr CHR ''.'' # m) = Inr s"
    "t_section (chr CHR ''.'') True 1 (s @ chr CHR ''.'' # m) = Inr m"
    "t_find (chr CHR ''.'') 0 (s @ chr CHR ''.'' # m) = Inr (int (length s))"
proof -
  let ?t = "s @ chr CHR ''.'' # m"
  show f: "t_find (chr CHR ''.'') 0 ?t = Inr (int (length s))" using find_at [of 0 ?t s] assms(3) by simp
  have "t_mid 0 (int (length s)) ?t = Inr s" using mid_at [of 0 ?t s] assms(1,5) by simp
  then show "t_section (chr CHR ''.'') True 0 ?t = Inr s" using f by (simp add: t_section_def t_section_from.simps)
  have d: "drop (Suc (length s)) ?t = m" by simp
  have g: "t_find (chr CHR ''.'') (int (Suc (length s))) ?t = Inr (- 1)" using assms(4) by (intro t_find_simps(1)) (simp_all del: of_nat_Suc)
  have "t_mid (int (Suc (length s))) (int (length m)) ?t = Inr m" using mid_at [of "Suc (length s)" ?t m "[]"] d assms(2,5) by simp
  then show "t_section (chr CHR ''.'') True 1 ?t = Inr m" using f g
    by (simp add: t_section_def t_section_from.simps [of _ _ "Suc 0"] t_section_from.simps [of _ _ 0])
qed

lemma args_read:
  "\<forall>v \<in> set vs. rpc_ok v \<Longrightarrow> ahead_of p (concat (map arg_xml vs) @ tag_text True (lit ''params'') @ R) \<Longrightarrow>
   length (concat (map arg_xml vs)) < n \<Longrightarrow> \<exists>p'. args_loop n dbl p = Inr (map (value_back dbl) vs, p')"
proof (induction n arbitrary: vs p)
  case (Suc n)
  show ?case
  proof (cases vs)
    case Nil
    then have "ahead_of p ([] @ tag_text True (lit ''params'') @ R)" using Suc.prems(2) by simp
    then obtain p' where "getNextElement p = Inr (True, p')" "on_tag True (lit ''params'') R p'"
      by (rule to_tag) simp_all
    then show ?thesis using Nil ahead_on(2) by simp
  next
    case (Cons v us)
    let ?rest = "concat (map arg_xml us) @ tag_text True (lit ''params'') @ R"
    let ?r3 = "[10] @ tag_text True (lit ''param'') @ ?rest"
    have "ahead_of p ([] @ tag_text False (lit ''param'') @ tag_text False VALUE_TAG @ rest_xml v @ ?r3)"
      using Suc.prems(2) Cons by (simp add: arg_xml_def [of v] value_xml_def [of v])
    then obtain p1 where p1: "getNextElement p = Inr (True, p1)" "on_tag False (lit ''param'') ([] @ tag_text False VALUE_TAG @ rest_xml v @ ?r3) p1"
      by (rule to_tag) simp_all
    obtain p2 where p2: "getNextElement p1 = Inr (True, p2)" "on_tag False VALUE_TAG (rest_xml v @ ?r3) p2"
      using ahead_on(1) [OF p1(2)] by (rule to_tag) simp_all
    have l: "length (rest_xml v) \<le> n" "length (concat (map arg_xml us)) < n"
      using Suc.prems(3) Cons tag_text_pos [of False "lit ''param''"] by (auto simp: arg_xml_def [of v] value_xml_def [of v])
    have "rpc_ok v" using Suc.prems(1) Cons by simp
    then obtain p3 where v': "FromXml n dbl p2 = Inr (value_back dbl v, p3)" "on_tag True VALUE_TAG ?r3 p3"
      using reads_all [of n dbl] p2(2) l(1) unfolding reads_value_def by blast
    obtain p4 where p4: "getNextElement p3 = Inr (True, p4)" "on_tag True (lit ''param'') ?rest p4"
      using ahead_on(1) [OF v'(2)] by (rule to_tag) (simp_all add: chr_def)
    obtain p5 where "args_loop n dbl p4 = Inr (map (value_back dbl) us, p5)"
      using Suc.IH [OF _ ahead_on(1) [OF p4(2)] l(2)] Suc.prems(1) Cons by auto
    then show ?thesis using p1(1) p2(1) v'(1) p4(1) ahead_on(2) [OF p1(2)] ahead_on(2) [OF p2(2)] Cons by simp
  qed
qed simp


lemma call_parsed:
  assumes "plain_text (s @ chr CHR ''.'' # m)" "has_ink (s @ chr CHR ''.'' # m)"
    and "0 \<notin> set (call_head s m args @ w)" "length (call_head s m args @ w) < 2 ^ 31"
  obtains p0 p p1 p2 p3 where "getNextElement (Parser (call_head s m args @ w)) = Inr (True, p0)" "find_call 4 True p0 = Inr (True, p)"
    "getNextElement p = Inr (True, p1)" "el_name p1 = lit ''methodName''" "hasContent p1 = Inr (True, p1)"
    "getContent p1 = Inr (s @ chr CHR ''.'' # m, add_content (s @ chr CHR ''.'' # m) p1)"
    "getNextElement (add_content (s @ chr CHR ''.'' # m) p1) = Inr (True, p2)" "getNextElement p2 = Inr (True, p3)"
    "el_name p3 = lit ''params''" "ahead_of p3 (concat (map arg_xml args) @ tag_text True (lit ''params'') @ w)"
proof -
  let ?t = "s @ chr CHR ''.'' # m"
  let ?r5 = "concat (map arg_xml args) @ tag_text True (lit ''params'') @ w"
  let ?r4 = "[] @ tag_text False (lit ''params'') @ ?r5"
  let ?r3 = "?t @ tag_text True (lit ''methodName'') @ ?r4"
  let ?r2 = "[] @ tag_text False (lit ''methodName'') @ ?r3"
  let ?r1 = "[10] @ tag_text False (lit ''methodCall'') @ ?r2"
  have X: "call_head s m args @ w = [] @ chr CHR ''<'' # xml_decl @ chr CHR ''>'' # ?r1" by (simp add: call_head_def)
  have a0: "ahead_of (Parser (call_head s m args @ w)) ([] @ chr CHR ''<'' # xml_decl @ chr CHR ''>'' # ?r1)"
    using assms(3,4) by (simp add: ahead_of_def Parser_def X)
  obtain e where e: "tag_elem xml_decl (Element False) = Inr e" "e_name e = lit ''xml''" using decl_elem by blast
  have "xml_decl \<noteq> []" "chr CHR ''>'' \<notin> set xml_decl" by (simp_all add: xml_decl_def lit_def chr_def)
  moreover have "x_element (Parser (call_head s m args @ w)) = Element False" by (simp add: Parser_def)
  ultimately obtain k where k: "getNextElement (Parser (call_head s m args @ w)) = Inr (True, (Parser (call_head s m args @ w))\<lparr>x_element := e, x_pos := k\<rparr>)"
      "ahead_of ((Parser (call_head s m args @ w))\<lparr>x_element := e, x_pos := k\<rparr>) ?r1"
    using read_tag [OF a0 _ _ _, of e] e(1) by auto
  define p0 where "p0 = (Parser (call_head s m args @ w))\<lparr>x_element := e, x_pos := k\<rparr>"
  obtain p where p: "getNextElement p0 = Inr (True, p)" "on_tag False (lit ''methodCall'') ?r2 p"
    using k(2) [folded p0_def] by (rule to_tag) (simp_all add: chr_def)
  have "el_name p0 \<noteq> lit ''methodCall''" by (simp add: p0_def e(2) lit_def)
  then have f: "find_call 4 True p0 = Inr (True, p)" using p(1) ahead_on(2) [OF p(2)] by (simp add: numeral_eq_Suc)
  obtain p1 where p1: "getNextElement p = Inr (True, p1)" "on_tag False (lit ''methodName'') ?r3 p1"
    using ahead_on(1) [OF p(2)] by (rule to_tag) simp_all
  note c = text_content [OF p1(2) plain_no_lt [OF assms(1)] assms(2)]
  obtain p2 where p2: "getNextElement (add_content ?t p1) = Inr (True, p2)" "on_tag True (lit ''methodName'') ?r4 p2"
    using c(3) by (rule to_tag) (simp_all add: plain_no_lt [OF assms(1), simplified])
  obtain p3 where p3: "getNextElement p2 = Inr (True, p3)" "on_tag False (lit ''params'') ?r5 p3"
    using ahead_on(1) [OF p2(2)] by (rule to_tag) simp_all
  show thesis
    using that [of p0 p p1 p2 p3] k(1) [folded p0_def] f p1(1) c(1,2) p2(1) p3(1) ahead_on(2) [OF p1(2)] ahead_on(1,2) [OF p3(2)] by simp
qed

lemma call_runs:
  assumes "plain_text (s @ chr CHR ''.'' # m)" "s \<noteq> []" "m \<noteq> []" "has_ink (s @ chr CHR ''.'' # m)"
    and "chr CHR ''.'' \<notin> set s" "chr CHR ''.'' \<notin> set m" "\<not> (s = lit ''system'' \<and> m = lit ''listMethods'')"
    and "kv_find hash_bytes s ss = Some (s', nm, ms)" "kv_find hash_bytes m ms = Some (m', Some f)"
    and "\<forall>v \<in> set args. rpc_ok v" "0 \<notin> set (call_head s m args @ w)" "length (call_head s m args @ w) < 2 ^ 31" "length (call_head s m args @ w) < n"
  shows "handle_call run ss n dbl (call_head s m args @ w) = bindR (run f (map (value_back dbl) args)) response"
proof -
  obtain p0 p p1 p2 p3 where p: "getNextElement (Parser (call_head s m args @ w)) = Inr (True, p0)" "find_call 4 True p0 = Inr (True, p)"
    "getNextElement p = Inr (True, p1)" "el_name p1 = lit ''methodName''" "hasContent p1 = Inr (True, p1)"
    "getContent p1 = Inr (s @ chr CHR ''.'' # m, add_content (s @ chr CHR ''.'' # m) p1)"
    "getNextElement (add_content (s @ chr CHR ''.'' # m) p1) = Inr (True, p2)" "getNextElement p2 = Inr (True, p3)"
    "el_name p3 = lit ''params''" "ahead_of p3 (concat (map arg_xml args) @ tag_text True (lit ''params'') @ w)"
    using call_parsed [OF assms(1,4,11,12)] .
  have l: "length (s @ chr CHR ''.'' # m) < 2 ^ 31" "length (concat (map arg_xml args)) < n" "0 < length (call_head s m args @ w)"
    using assms(12,13) by (simp_all add: call_head_def)
  obtain p4 where args': "args_loop n dbl p3 = Inr (map (value_back dbl) args, p4)"
    using args_read [OF assms(10) p(10) l(2)] by blast
  note names = section_names [OF assms(2,3,5,6) l(1)]
  have reg: "has_key s ss" "kv_get hash_bytes s ss = Inr (nm, ms)" "hasMethod m ms"
    using assms(8,9) by (simp_all add: has_key_def kv_get_def hasMethod_def)
  have "service_execute run m (map (value_back dbl) args) ms = run f (map (value_back dbl) args)" using assms(9) by (simp add: service_execute_def has_key_def kv_get_def)
  moreover have "(s = lit ''system'' \<and> m = lit ''listMethods'') = False" using assms(7) by blast
  ultimately show ?thesis
    using p args' names reg by (simp add: handle_call_def) blast
qed


section \<open>Defects\<close>

lemma binary_rejected:
  assumes "on_tag False VALUE_TAG (tag_text False BASE64_TAG @ t @ tag_text closing m @ R) p" "plain_text t" "has_ink t"
  shows "FromXml (Suc n) dbl p = io_error"
proof -
  have a: "on_tag False VALUE_TAG ([] @ tag_text False BASE64_TAG @ t @ tag_text closing m @ R) p" using assms(1) by simp
  have pn: "plain_name BASE64_TAG" by (simp add: plain_name_def tag_defs chr_def)
  obtain p1 where p1: "getNextElement p = Inr (True, p1)" "on_tag False BASE64_TAG (t @ tag_text closing m @ R) p1"
    using ahead_on(1) [OF a] by (rule to_tag) (simp_all add: pn)
  note c = text_content [OF p1(2) plain_no_lt [OF assms(2)] assms(3)]
  have "\<not> el_closing (add_content t p1)" using ahead_on(3) [OF p1(2)] by (simp add: add_content_def)
  then have "binary_value p1 = io_error" using c by (simp add: binary_value_def Let_def)
  moreover have "BASE64_TAG \<noteq> ARRAY_TAG" "BASE64_TAG \<noteq> STRUCT_TAG" "BASE64_TAG \<noteq> STRING_TAG" "BASE64_TAG \<noteq> INT_TAG"
    "BASE64_TAG \<noteq> I4_TAG" "BASE64_TAG \<noteq> DOUBLE_TAG" "BASE64_TAG \<noteq> BOOLEAN_TAG" "BASE64_TAG \<noteq> DATETIME_TAG"
    by (simp_all add: tag_defs)
  ultimately have "basic_value dbl p1 = io_error" using ahead_on(2) [OF p1(2)] by (simp add: basic_value_def io_error_def)
  moreover have "BASE64_TAG \<noteq> ARRAY_TAG" "BASE64_TAG \<noteq> STRUCT_TAG" by (simp_all add: tag_defs)
  ultimately show ?thesis using no_content [OF a] p1(1) ahead_on(2) [OF p1(2)] ahead_on(2) [OF a] by simp
qed

lemma february: "\<exists>b' d. date_value (lit ''20240115T10:20:30'') b = Inr b' \<and> rb_asDateTime b' = Inr d
    \<and> d_day (dt_date d) = 15 \<and> d_month (dt_date d) = 2 \<and> d_year (dt_date d) = 2024"
proof -
  have s: "scan_iso (lit ''20240115T10:20:30'') = Some (2024, 1, 15, 10, 20, 30)"
    by (simp add: scan_iso_def scan_int_def scan_char_def lit_def chr_def c_isdigit_def c_isspace_def Let_def)
  have v: "valid_ymd 15 2 2024" by (simp add: valid_ymd_def month_days_def leap_def)
  have "dt_date (datetime_of_tm 15 1 124 10 20 30) = date_of_ymd 15 2 2024" using date_late [of 15 1 2024 10 20 30] v by simp
  then show ?thesis by (simp add: date_value_def s rb_asDateTime_def date_of_ymd_eq)
qed

text \<open>
  What does not work: a base64 value is not read back, and printing it a second time prints its content
  twice; a date is read one month late; a method that is present cannot be removed, and removing an absent one
  throws; a request without any tag makes the handler use a null pointer, and so does a call of a
  method that the system service registers.
\<close>

theorem rpc_defects:
  "(\<exists>p. getNextElement (Parser (lit ''<value><base64>TWE=</base64></value>'')) = Inr (True, p) \<and> FromXml (Suc n) dbl p = io_error)
    \<and> (\<exists>v w. asXml (Binary rbase_empty [77, 97]) = Inr (wrap_value BASE64_TAG (lit ''TWE=''), v)
        \<and> asXml v = Inr (wrap_value BASE64_TAG (lit ''TWE=TWE=''), w))
    \<and> (\<exists>b d. date_value (lit ''20240115T10:20:30'') rbase_empty = Inr b \<and> rb_asDateTime b = Inr d \<and> d_month (dt_date d) = 2)
    \<and> (\<forall>k ms. removeMethod k ms = (if hasMethod k ms then Inr ms else Inl null_error))
    \<and> handle_call run ss n dbl (lit ''x'') = Inl Mem_Fault
    \<and> service_execute run (lit ''m'') args [(lit ''m'', None)] = Inl Mem_Fault"
proof (intro conjI)
  have t: "lit ''<value><base64>TWE=</base64></value>''
      = [] @ tag_text False VALUE_TAG @ (tag_text False BASE64_TAG @ lit ''TWE='' @ tag_text True BASE64_TAG @ tag_text True VALUE_TAG)"
    by (simp add: tag_text_def lit_def chr_def VALUE_TAG_def BASE64_TAG_def)
  have "ahead_of (Parser (lit ''<value><base64>TWE=</base64></value>'')) (lit ''<value><base64>TWE=</base64></value>'')"
    by (simp add: ahead_of_def Parser_def lit_def)
  from this [unfolded t] obtain p where p: "getNextElement (Parser (lit ''<value><base64>TWE=</base64></value>'')) = Inr (True, p)"
      "on_tag False VALUE_TAG (tag_text False BASE64_TAG @ lit ''TWE='' @ tag_text True BASE64_TAG @ tag_text True VALUE_TAG) p"
    unfolding t by (rule to_tag) (simp_all add: plain_name_def tag_defs chr_def)
  have "plain_text (lit ''TWE='')" "has_ink (lit ''TWE='')"
    by (simp_all add: plain_text_def xml_keeps_def word_sless_alt RAW_ENTITY_def has_ink_def c_isspace_def lit_def chr_def)
  then show "\<exists>p. getNextElement (Parser (lit ''<value><base64>TWE=</base64></value>'')) = Inr (True, p) \<and> FromXml (Suc n) dbl p = io_error"
    using p(1) binary_rejected [OF p(2)] by blast
  have b: "b64_text [77, 97] = [84, 87, 69, 61]" by code_simp
  show "\<exists>v w. asXml (Binary rbase_empty [77, 97]) = Inr (wrap_value BASE64_TAG (lit ''TWE=''), v)
        \<and> asXml v = Inr (wrap_value BASE64_TAG (lit ''TWE=TWE=''), w)"
    by (simp add: b rbase_empty_def lit_def del: b64_text.simps)
  show "\<exists>b d. date_value (lit ''20240115T10:20:30'') rbase_empty = Inr b \<and> rb_asDateTime b = Inr d \<and> d_month (dt_date d) = 2"
    using february by blast
  show "\<forall>k ms. removeMethod k ms = (if hasMethod k ms then Inr ms else Inl null_error)"
    by (simp add: removeMethod_def hasMethod_def has_key_def kv_remove_def)
  have "ahead_of (Parser (lit ''x'')) (lit ''x'')" "x_xml_file (Parser (lit ''x'')) = None"
    by (simp_all add: ahead_of_def Parser_def lit_def)
  then obtain q where "getNextElement (Parser (lit ''x'')) = Inr (False, q)"
    using no_more [of "Parser (lit ''x'')" "lit ''x''"] by (auto simp: lit_def chr_def)
  then show "handle_call run ss n dbl (lit ''x'') = Inl Mem_Fault" by (simp add: handle_call_def numeral_eq_Suc)
  show "service_execute run (lit ''m'') args [(lit ''m'', None)] = Inl Mem_Fault"
    by (simp add: service_execute_def has_key_def kv_get_def kv_find_def)
qed

end
