(* ===== verification/Http_Pool.thy ===== *)
theory Http_Pool
  imports Pool
begin

text \<open>
  The pool of requests of \<open>HttpServer\<close> (src/net/HttpServer.cpp). The sections under \<open>_pool_lock\<close> are
  single steps; a request is known by the number of requests created before it. The server thread
  accepts for ever; a request completes at any time after it was started.
\<close>

section \<open>The pool\<close>

record server =
  v_max_size :: nat
  v_size :: nat
  v_available_pool :: "nat list"
  v_busy_pool :: "nat list"
  v_blocker :: nat

definition STARTING_THREADS :: nat where "STARTING_THREADS = 2"

definition createRequest :: "server \<Rightarrow> nat \<times> server" where
  "createRequest v = (v_size v, v\<lparr>v_size := v_size v + 1\<rparr>)"

fun add_requests :: "nat \<Rightarrow> server \<Rightarrow> server" where
  "add_requests 0 v = v"
| "add_requests (Suc n) v = (case createRequest v of (t, v) \<Rightarrow> add_requests n (v\<lparr>v_available_pool := v_available_pool v @ [t]\<rparr>))"

definition server_new :: "nat \<Rightarrow> server" where
  "server_new max_cons = add_requests STARTING_THREADS
     \<lparr>v_max_size = max_cons, v_size = 0, v_available_pool = [], v_busy_pool = [], v_blocker = 1\<rparr>"

definition getRequest :: "server \<Rightarrow> nat option \<times> server" where
  "getRequest v = (let found = (\<lambda>t v. (Some t, (if v_available_pool v = [] \<and> v_size v = v_max_size v
         then v\<lparr>v_blocker := snd (sem_tryAcquire (v_blocker v))\<rparr> else v)\<lparr>v_busy_pool := v_busy_pool v @ [t]\<rparr>)) in
     if v_available_pool v \<noteq> [] then found (last (v_available_pool v)) (v\<lparr>v_available_pool := butlast (v_available_pool v)\<rparr>)
     else if v_size v < v_max_size v then (case createRequest v of (t, v) \<Rightarrow> found t v)
     else (None, v))"

definition request_completed :: "nat \<Rightarrow> server \<Rightarrow> server" where
  "request_completed t v = (let v = v\<lparr>v_busy_pool := remove1 t (v_busy_pool v), v_available_pool := v_available_pool v @ [t]\<rparr> in
     if length (v_available_pool v) = 1 \<and> v_size v = v_max_size v then
       (if \<not> fst (sem_testAcquire (v_blocker v)) then v\<lparr>v_blocker := sem_release (v_blocker v)\<rparr> else v)
     else v)"

section \<open>The server thread\<close>

text \<open>\<open>run\<close>, cut at its calls; \<open>Null_Request\<close> is the use of the null pointer after a second failing
  \<open>_getRequest\<close>.\<close>

datatype server_pc = Next | Wait | Again | Accept nat | Null_Request

record http_server =
  s_pool :: server
  s_pc :: server_pc
  s_started :: "nat list"

datatype server_event = Server | Completed nat

fun server_step :: "server_event \<Rightarrow> http_server \<Rightarrow> http_server option" where
  "server_step Server s = (case s_pc s of
     Next \<Rightarrow> (case getRequest (s_pool s) of (Some t, v) \<Rightarrow> Some (s\<lparr>s_pool := v, s_pc := Accept t\<rparr>)
       | (None, v) \<Rightarrow> Some (s\<lparr>s_pool := v, s_pc := Wait\<rparr>))
   | Wait \<Rightarrow> (case sem_acquire (v_blocker (s_pool s)) of None \<Rightarrow> None
       | Some b \<Rightarrow> Some (s\<lparr>s_pool := (s_pool s)\<lparr>v_blocker := b\<rparr>, s_pc := Again\<rparr>))
   | Again \<Rightarrow> (case getRequest (s_pool s) of (Some t, v) \<Rightarrow> Some (s\<lparr>s_pool := v, s_pc := Accept t\<rparr>)
       | (None, v) \<Rightarrow> Some (s\<lparr>s_pool := v, s_pc := Null_Request\<rparr>))
   | Accept t \<Rightarrow> Some (s\<lparr>s_started := t # s_started s, s_pc := Next\<rparr>)
   | Null_Request \<Rightarrow> None)"
| "server_step (Completed t) s = (if t \<in> set (s_started s)
     then Some (s\<lparr>s_started := remove1 t (s_started s), s_pool := request_completed t (s_pool s)\<rparr>) else None)"

definition server_start :: "nat \<Rightarrow> http_server" where
  "server_start max_cons = \<lparr>s_pool = server_new max_cons, s_pc = Next, s_started = []\<rparr>"

inductive serves :: "nat \<Rightarrow> http_server \<Rightarrow> bool" for max_cons where
  start: "serves max_cons (server_start max_cons)"
| step: "serves max_cons s \<Longrightarrow> server_step e s = Some s' \<Longrightarrow> serves max_cons s'"

section \<open>Safety and progress\<close>

definition pools_ok :: "http_server \<Rightarrow> bool" where
  "pools_ok s \<longleftrightarrow> (let v = s_pool s in
     distinct (v_available_pool v @ v_busy_pool v) \<and> set (v_available_pool v @ v_busy_pool v) = {..<v_size v}
     \<and> 2 \<le> v_size v \<and> v_size v \<le> v_max_size v
     \<and> distinct (s_started s) \<and> set (v_busy_pool v) = set (s_started s) \<union> (case s_pc s of Accept t \<Rightarrow> {t} | _ \<Rightarrow> {})
     \<and> (case s_pc s of Accept t \<Rightarrow> t \<notin> set (s_started s) | _ \<Rightarrow> True))"

definition blocker_ok :: "http_server \<Rightarrow> bool" where
  "blocker_ok s \<longleftrightarrow> (let v = s_pool s; full = (v_available_pool v = [] \<and> v_size v = v_max_size v) in
     v_blocker v \<le> 1 \<and> s_pc s \<noteq> Null_Request \<and> (if full then v_blocker v = 0 \<and> s_pc s \<noteq> Again
     else s_pc s = Wait \<longrightarrow> v_size v = v_max_size v \<and> v_blocker v = 1))"

lemma server_start_ok: "2 \<le> n \<Longrightarrow> pools_ok (server_start n) \<and> blocker_ok (server_start n)"
  by (auto simp: pools_ok_def blocker_ok_def server_start_def server_new_def STARTING_THREADS_def numeral_eq_Suc createRequest_def Let_def)

text \<open>What \<open>_getRequest\<close> does, in the three cases.\<close>

definition handed :: "nat \<Rightarrow> server \<Rightarrow> server" where
  "handed t v = v\<lparr>v_busy_pool := v_busy_pool v @ [t], v_blocker := (if v_available_pool v = [] \<and> v_size v = v_max_size v
     then v_blocker v - 1 else v_blocker v)\<rparr>"

lemma getRequest_cases:
  obtains (pop) t ts where "v_available_pool v = ts @ [t]" "getRequest v = (Some t, handed t (v\<lparr>v_available_pool := ts\<rparr>))"
  | (new) "v_available_pool v = []" "v_size v < v_max_size v" "getRequest v = (Some (v_size v), handed (v_size v) (v\<lparr>v_size := v_size v + 1\<rparr>))"
  | (none) "v_available_pool v = []" "v_max_size v \<le> v_size v" "getRequest v = (None, v)"
proof (cases "v_available_pool v = []")
  case False
  then show thesis using pop [of "butlast (v_available_pool v)" "last (v_available_pool v)"]
    by (simp add: getRequest_def handed_def sem_tryAcquire_def Let_def)
next
  case True
  then show thesis using new none
    by (cases "v_size v < v_max_size v") (simp_all add: getRequest_def handed_def createRequest_def sem_tryAcquire_def Let_def)
qed

lemma request_completed_eq:
  "request_completed t v = v\<lparr>v_busy_pool := remove1 t (v_busy_pool v), v_available_pool := v_available_pool v @ [t],
     v_blocker := (if v_available_pool v = [] \<and> v_size v = v_max_size v then max 1 (v_blocker v) else v_blocker v)\<rparr>"
  by (simp add: request_completed_def Let_def sem_testAcquire_def sem_tryAcquire_def sem_release_def)

lemma completed_ok:
  assumes "pools_ok s" "blocker_ok s" "t \<in> set (s_started s)"
  shows "pools_ok (s\<lparr>s_started := remove1 t (s_started s), s_pool := request_completed t (s_pool s)\<rparr>)
    \<and> blocker_ok (s\<lparr>s_started := remove1 t (s_started s), s_pool := request_completed t (s_pool s)\<rparr>)"
proof -
  have d: "distinct (v_busy_pool (s_pool s))" "distinct (s_started s)" "t \<in> set (v_busy_pool (s_pool s))"
    using assms by (auto simp: pools_ok_def Let_def)
  show ?thesis
  proof
    show "pools_ok (s\<lparr>s_started := remove1 t (s_started s), s_pool := request_completed t (s_pool s)\<rparr>)"
      using assms(1,3) d unfolding pools_ok_def
      by (cases "s_pc s") (auto simp: request_completed_eq set_remove1_eq Let_def)
    show "blocker_ok (s\<lparr>s_started := remove1 t (s_started s), s_pool := request_completed t (s_pool s)\<rparr>)"
      using assms(2) by (auto simp: blocker_ok_def request_completed_eq Let_def split: if_splits)
  qed
qed

lemma handed_ok:
  assumes "pools_ok s" "blocker_ok s" "\<forall>u. s_pc s \<noteq> Accept u" "getRequest (s_pool s) = (Some t, v)"
  shows "pools_ok (s\<lparr>s_pool := v, s_pc := Accept t\<rparr>) \<and> blocker_ok (s\<lparr>s_pool := v, s_pc := Accept t\<rparr>)"
proof -
  have b: "set (v_busy_pool (s_pool s)) = set (s_started s)" using assms(1,3) by (cases "s_pc s") (auto simp: pools_ok_def Let_def)
  show ?thesis
  proof (cases rule: getRequest_cases [of "s_pool s"])
    case (pop u us)
    then show ?thesis using assms(1,2,4) b by (auto simp: pools_ok_def blocker_ok_def handed_def Let_def split: if_splits)
  next
    case new
    then show ?thesis using assms(1,2,4) b by (auto simp: pools_ok_def blocker_ok_def handed_def Let_def lessThan_Suc split: if_splits)
  next
    case none
    then show ?thesis using assms(4) by simp
  qed
qed

lemma server_step_ok:
  assumes "pools_ok s" "blocker_ok s" "server_step e s = Some s'"
  shows "pools_ok s' \<and> blocker_ok s'"
proof (cases e)
  case (Completed t)
  then show ?thesis using completed_ok [OF assms(1,2), of t] assms(3) by (simp split: if_splits)
next
  case Server
  show ?thesis
  proof (cases "s_pc s")
    case Next
    show ?thesis
    proof (cases rule: getRequest_cases [of "s_pool s"])
      case none
      then have "s' = s\<lparr>s_pc := Wait\<rparr>" using assms(3) Server Next by simp
      then show ?thesis using assms(1,2) none Next by (auto simp: pools_ok_def blocker_ok_def Let_def split: if_splits)
    qed (use handed_ok [OF assms(1,2)] assms(3) Server Next in auto)
  next
    case Wait
    then show ?thesis using assms Server
      by (auto simp: pools_ok_def blocker_ok_def sem_acquire_def Let_def split: if_splits)
  next
    case Again
    show ?thesis
    proof (cases rule: getRequest_cases [of "s_pool s"])
      case none
      then show ?thesis using assms(1,2) Again by (auto simp: pools_ok_def blocker_ok_def Let_def)
    qed (use handed_ok [OF assms(1,2)] assms(3) Server Again in auto)
  next
    case (Accept t)
    then have "s' = s\<lparr>s_started := t # s_started s, s_pc := Next\<rparr>" using assms(3) Server by simp
    then show ?thesis using assms(1,2) Accept by (auto simp: pools_ok_def blocker_ok_def Let_def split: if_splits)
  next
    case Null_Request
    then show ?thesis using assms(3) Server by simp
  qed
qed

lemma serves_ok: "serves n s \<Longrightarrow> 2 \<le> n \<Longrightarrow> pools_ok s \<and> blocker_ok s"
  by (induction rule: serves.induct) (use server_start_ok server_step_ok in blast)+


definition server_state :: "nat \<Rightarrow> server_pc \<Rightarrow> nat list \<Rightarrow> nat list \<Rightarrow> nat list \<Rightarrow> nat \<Rightarrow> http_server" where
  "server_state max_cons pc available busy started blocker = \<lparr>s_pool = \<lparr>v_max_size = max_cons, v_size = 2,
     v_available_pool = available, v_busy_pool = busy, v_blocker = blocker\<rparr>, s_pc = pc, s_started = started\<rparr>"


lemma server_chain: "server_step Server s = Some s' \<Longrightarrow> serves n s \<Longrightarrow> serves n s'"
  by (rule serves.step)

text \<open>
  C40. With room for fewer than two requests the server, which starts with two, is brought down by its
  third connection: the blocker is never taken, the second attempt finds no request either, and the
  null pointer is used.
\<close>

theorem server_pool_crash:
  assumes "max_cons < 2"
  shows "\<exists>s. serves max_cons s \<and> s_pc s = Null_Request \<and> v_max_size (s_pool s) < v_size (s_pool s)"
proof -
  let ?s = "server_state max_cons"
  have 0: "server_start max_cons = ?s Next [0, 1] [] [] 1"
    by (simp add: server_start_def server_new_def STARTING_THREADS_def numeral_eq_Suc createRequest_def server_state_def)
  note defs = server_state_def getRequest_def sem_acquire_def Let_def
  have "serves max_cons (?s Next [0, 1] [] [] 1)" using serves.start [of max_cons] 0 by simp
  then have "serves max_cons (?s (Accept 1) [0] [1] [] 1)" by (rule server_chain [rotated]) (simp add: defs)
  then have "serves max_cons (?s Next [0] [1] [1] 1)" by (rule server_chain [rotated]) (simp add: defs)
  then have "serves max_cons (?s (Accept 0) [] [1, 0] [1] 1)" by (rule server_chain [rotated]) (use assms in \<open>simp add: defs\<close>)
  then have "serves max_cons (?s Next [] [1, 0] [0, 1] 1)" by (rule server_chain [rotated]) (simp add: defs)
  then have "serves max_cons (?s Wait [] [1, 0] [0, 1] 1)" by (rule server_chain [rotated]) (use assms in \<open>simp add: defs\<close>)
  then have "serves max_cons (?s Again [] [1, 0] [0, 1] 0)" by (rule server_chain [rotated]) (simp add: defs)
  then have "serves max_cons (?s Null_Request [] [1, 0] [0, 1] 0)" by (rule server_chain [rotated]) (use assms in \<open>simp add: defs\<close>)
  then show ?thesis using assms by (intro exI [of _ "?s Null_Request [] [1, 0] [0, 1] 0"]) (simp add: server_state_def)
qed

theorem server_pool_crash_witness: "\<exists>s. serves 1 s \<and> s_pc s = Null_Request"
  using server_pool_crash [of 1] by auto

end
