(* ===== verification/Http_Client.thy ===== *)
theory Http_Client
  imports Http_Rpc
begin

text \<open>
  \<open>HttpClient\<close> (src/net/HttpClient.cpp): a GET request and the reading of its reply. Connecting to a host is
  the argument \<open>connect\<close>.
\<close>

section \<open>The client\<close>

record client =
  c_socket :: "tcp option"
  c_headers :: headers

definition client_new :: client where
  "client_new = \<lparr>c_socket = None, c_headers = []\<rparr>"

definition with_socket :: "(tcp, 'a) action \<Rightarrow> (client, 'a) action" where
  "with_socket m c = (case c_socket c of None \<Rightarrow> (Inl Mem_Fault, c)
     | Some t \<Rightarrow> (case m t of (x, t) \<Rightarrow> (x, c\<lparr>c_socket := Some t\<rparr>)))"

definition client_port :: "uri \<Rightarrow> u32 res" where
  "client_port uri = (if u_port uri = 0 then
       (if u_scheme uri = [] \<or> u_scheme uri = lit ''http'' then Inr 80 else if u_scheme uri = lit ''https'' then Inr 443
        else Inl (Thrown ''IOException''))
     else Inr (u_port uri))"

definition client_send :: "nat \<Rightarrow> bytes \<Rightarrow> (client, nat) action" where
  "client_send n t = bindA (lift_res (vformat_text n t)) (\<lambda>t. with_socket (sock_send t))"

definition client_connect :: "(bytes \<Rightarrow> u32 \<Rightarrow> tcp res) \<Rightarrow> bytes \<Rightarrow> u32 \<Rightarrow> (client, unit) action" where
  "client_connect connect host port c = (case connect host port of Inl e \<Rightarrow> (Inl e, c) | Inr t \<Rightarrow> (Inr (), c\<lparr>c_socket := Some t\<rparr>))"

definition GetVersion :: "u32 \<times> u32 \<times> u32" where
  "GetVersion = (2, 10, 4)"

definition user_agent :: bytes where
  "user_agent = (case GetVersion of (major, minor, revision) \<Rightarrow>
     lit ''user-agent: SRL-HttpClient/'' @ decimal major @ lit ''.'' @ decimal minor @ lit ''.'' @ decimal revision @ [13, 10])"

text \<open>The request; the port is printed with \<open>%d\<close>.\<close>

definition client_request :: "uri \<Rightarrow> u32 \<Rightarrow> (client, unit) action" where
  "client_request uri port = bindA (lift_res (Val_int32 port 10)) (\<lambda>port.
     bindA (client_send 17 (lit ''GET '' @ u_path uri @ lit '' HTTP/1.1'' @ [13, 10])) (\<lambda>_.
     bindA (client_send 13 (lit ''host: '' @ u_host uri @ lit '':'' @ port @ [13, 10])) (\<lambda>_.
     bindA (with_socket (sock_send (lit ''accept: */*'' @ [13, 10]))) (\<lambda>_.
     bindA (with_socket (sock_send (lit ''connection: close'' @ [13, 10]))) (\<lambda>_.
     bindA (client_send 37 user_agent) (\<lambda>_.
     bindA (with_socket (sock_send [13, 10])) (\<lambda>_. returnA ())))))))"

text \<open>The argument of the log message trims the line.\<close>

definition client_status :: "(client, unit) action" where
  "client_status = bindA (with_socket (tcp_readUntil (search_chr 10) 30000 str_empty)) (\<lambda>(count, buf).
     let line = t_trim (content buf) in
     if line = [] then throwA ''IOException'' else if take 4 line \<noteq> lit ''HTTP'' then throwA ''IOException'' else returnA ())"

definition client_content :: "bytes \<Rightarrow> (client, bytes) action" where
  "client_content output = bindA (with_socket headers_parse) (\<lambda>hdrs c. let c = c\<lparr>c_headers := hdrs\<rparr> in
     if kv_find hash_bytes (lit ''content-length'') hdrs \<noteq> None then
       bindA (lift_res (getAsInt (lit ''content-length'') hdrs)) (\<lambda>content_length.
       if 0 <s content_length then bindA (with_socket (tcp_readAll str_empty content_length)) (\<lambda>out. returnA (content out))
       else returnA output) c
     else (Inr output, c))"

definition client_get :: "(bytes \<Rightarrow> u32 \<Rightarrow> tcp res) \<Rightarrow> uri \<Rightarrow> bytes \<Rightarrow> (client, bytes) action" where
  "client_get connect uri output = bindA (lift_res (client_port uri)) (\<lambda>port.
     bindA (client_connect connect (u_host uri) port) (\<lambda>_. bindA (client_request uri port) (\<lambda>_.
     bindA client_status (\<lambda>_. client_content output))))"

section \<open>A client of the server\<close>

definition request_text :: "uri \<Rightarrow> bytes \<Rightarrow> bytes" where
  "request_text uri port = lit ''GET '' @ u_path uri @ lit '' HTTP/1.1'' @ [13, 10] @ lit ''host: '' @ u_host uri @ lit '':'' @ port @ [13, 10]
     @ lit ''accept: */*'' @ [13, 10] @ lit ''connection: close'' @ [13, 10] @ lit ''user-agent: SRL-HttpClient/2.10.4'' @ [13, 10] @ [13, 10]"

lemma client_send_ok:
  "c_socket c = Some t \<Longrightarrow> t_open t \<Longrightarrow> length xs \<le> n + 128 \<Longrightarrow>
   client_send n xs c = (Inr (length xs), c\<lparr>c_socket := Some (t\<lparr>t_sent := t_sent t @ xs\<rparr>)\<rparr>)"
  by (simp add: client_send_def vformat_text_def with_socket_def sock_send_def bindA_def lift_res_def)

lemma with_send_ok:
  "c_socket c = Some t \<Longrightarrow> t_open t \<Longrightarrow>
   with_socket (sock_send xs) c = (Inr (length xs), c\<lparr>c_socket := Some (t\<lparr>t_sent := t_sent t @ xs\<rparr>)\<rparr>)"
  by (simp add: with_socket_def sock_send_def)

lemma Val_length: "Val_int32 n 10 = Inr t \<Longrightarrow> length t \<le> 11"
proof -
  assume v: "Val_int32 n 10 = Inr t"
  have "unat m < 10 ^ 10" for m :: u32
  proof -
    have "unat m < 2 ^ LENGTH(32)" by (rule unsigned_less)
    then show ?thesis by simp
  qed
  then have "length (hexdigits 10 (if n <s 0 then unat (- n) else unat n)) \<le> 10" by (intro hexdigits_length) simp_all
  then show ?thesis using v Val_int32_digits [of 10 n] by auto
qed

lemma request_sent:
  assumes "c_socket c = Some t" "t_open t" "Val_int32 port 10 = Inr p" "length (u_path uri) \<le> 100" "length (u_host uri) \<le> 100"
  shows "client_request uri port c = (Inr (), c\<lparr>c_socket := Some (t\<lparr>t_sent := t_sent t @ request_text uri p\<rparr>)\<rparr>)"
proof -
  have d: "decimal 2 = lit ''2''" "decimal 10 = lit ''10''" "decimal 4 = lit ''4''" by code_simp+
  then have u: "user_agent = lit ''user-agent: SRL-HttpClient/2.10.4'' @ [13, 10]" by (simp add: user_agent_def GetVersion_def lit_def)
  have "length p \<le> 11" by (rule Val_length [OF assms(3)])
  then show ?thesis using assms
    by (simp add: client_request_def client_send_ok with_send_ok u request_text_def returnA_def lit_def)
qed

lemma status_read:
  assumes "c_socket c = Some t" "tcp_ready t" "length (in_stream t) \<le> 500000" "in_stream t = lit ''HTTP/1.0 200 OK'' @ [13, 10] @ rest"
  obtains t' where "client_status c = (Inr (), c\<lparr>c_socket := Some t'\<rparr>)" "tcp_ready t'" "in_stream t' = rest" "t_sent t' = t_sent t"
proof -
  let ?line = "lit ''HTTP/1.0 200 OK'' @ [13]"
  have s: "in_stream t = ?line @ 10 # rest" "10 \<notin> set ?line" using assms(4) by (simp_all add: lit_def)
  obtain buf t' where t': "tcp_readUntil (search_chr 10) 30000 str_empty t = (Inr (of_nat (Suc (length ?line)), buf), t')"
      "content buf = ?line @ [10]" "in_stream t' = rest" "tcp_ready t'" "t_sent t' = t_sent t"
    using ready_hit [OF assms(2,3) s str_wf_empty, of 30000] by auto
  have "t_trim (?line @ [10]) = lit ''HTTP/1.0 200 OK''" "take 4 (lit ''HTTP/1.0 200 OK'') = lit ''HTTP''" by code_simp+
  then show thesis using that [of t'] t' assms(1)
    by (simp add: client_status_def with_socket_def bindA_def) (simp add: lit_def returnA_def)
qed

lemma t_trim_id: "\<forall>c \<in> set xs. \<not> is_trim c \<Longrightarrow> t_trim xs = xs"
proof -
  assume a: "\<forall>c \<in> set xs. \<not> is_trim c"
  have d: "dropWhile is_trim xs = xs" using a by (cases xs) auto
  have "dropWhile is_trim (rev xs) = rev xs" using a by (cases "rev xs") (auto simp: rev_eq_Cons_iff)
  then show ?thesis using d by (simp add: t_trim_def t_trimEnd_def)
qed

text \<open>The header lines of the response and what the client makes of them.\<close>

definition reply_lines :: "bytes \<Rightarrow> bytes \<Rightarrow> bytes \<Rightarrow> nat \<Rightarrow> (bytes \<times> bytes) list" where
  "reply_lines server_version date content_type n = [(lit ''Connection'', lit ''close''), (lit ''Server'', server_version), (lit ''Date'', date),
     (lit ''Content-Type'', content_type), (lit ''Content-Length'', decimal (of_nat n))]"

lemma reply_received:
  "received (reply_lines sv date ct n) = [(lit ''connection'', lit ''close''), (lit ''server'', t_trim sv), (lit ''date'', t_trim date),
     (lit ''content-type'', t_trim ct), (lit ''content-length'', t_trim (decimal (of_nat n)))]" (is "_ = ?r")
  "kv_find hash_bytes (lit ''content-length'') (received (reply_lines sv date ct n)) = Some (lit ''content-length'', t_trim (decimal (of_nat n)))"
proof -
  have low:
    "t_toLower (lit ''Connection'') = lit ''connection''" "t_toLower (lit ''Server'') = lit ''server''"
    "t_toLower (lit ''Date'') = lit ''date''" "t_toLower (lit ''Content-Type'') = lit ''content-type''"
    "t_toLower (lit ''Content-Length'') = lit ''content-length''"
    by code_simp+
  have distinct:
    "hash_bytes (lit ''connection'') \<noteq> hash_bytes (lit ''server'')"
    "hash_bytes (lit ''connection'') \<noteq> hash_bytes (lit ''date'')"
    "hash_bytes (lit ''connection'') \<noteq> hash_bytes (lit ''content-type'')"
    "hash_bytes (lit ''connection'') \<noteq> hash_bytes (lit ''content-length'')"
    "hash_bytes (lit ''server'') \<noteq> hash_bytes (lit ''date'')"
    "hash_bytes (lit ''server'') \<noteq> hash_bytes (lit ''content-type'')"
    "hash_bytes (lit ''server'') \<noteq> hash_bytes (lit ''content-length'')"
    "hash_bytes (lit ''date'') \<noteq> hash_bytes (lit ''content-type'')"
    "hash_bytes (lit ''date'') \<noteq> hash_bytes (lit ''content-length'')"
    "hash_bytes (lit ''content-type'') \<noteq> hash_bytes (lit ''content-length'')"
    by code_simp+
  have "t_trim (lit ''close'') = lit ''close''" by code_simp
  then show r: "received (reply_lines sv date ct n) = ?r"
    by (simp add: received_def reply_lines_def put_header_def kv_find_def low distinct)
  show "kv_find hash_bytes (lit ''content-length'') (received (reply_lines sv date ct n)) = Some (lit ''content-length'', t_trim (decimal (of_nat n)))"
    unfolding r by (simp add: kv_find_def distinct)
qed

lemma decimal_text:
  assumes "n < 2 ^ 31"
  shows "t_Int (decimal (of_nat n)) = Inr (of_nat n)" "\<forall>c \<in> set (decimal (of_nat n)). \<not> is_trim c \<and> c \<noteq> 10 \<and> c \<noteq> 13 \<and> c \<noteq> 0"
proof -
  have u: "unat (of_nat n :: u32) = n" using assms by (intro unat_of_nat_small) simp
  have s: "\<not> (of_nat n :: u32) <s 0" using nonneg_i32 [of "of_nat n"] u assms by simp
  have v: "Val_int32 (of_nat n) 10 = Inr (decimal (of_nat n))" using Val_int32_digits [of 10 "of_nat n"] s by (simp add: decimal_def)
  show "t_Int (decimal (of_nat n)) = Inr (of_nat n)" using int_text [OF v] by simp
  have "plain_text (decimal (of_nat n))" using int_text [OF v] by simp
  have "length HEX = 16" by (simp add: HEX_bytes)
  then have "(\<lambda>i. HEX ! i) ` {..<16} \<subseteq> set HEX" by auto
  then have "set (decimal (of_nat n)) \<subseteq> set HEX" using hexdigits_chars [of 10] unfolding decimal_def by (meson dual_order.trans numeral_le_iff semiring_norm)
  moreover have "\<forall>c \<in> set HEX. \<not> is_trim c \<and> c \<noteq> 10 \<and> c \<noteq> 13 \<and> c \<noteq> 0" by (simp add: HEX_bytes is_trim_def chr_def)
  ultimately show "\<forall>c \<in> set (decimal (of_nat n)). \<not> is_trim c \<and> c \<noteq> 10 \<and> c \<noteq> 13 \<and> c \<noteq> 0" by blast
qed

section \<open>The request, as the server reads it\<close>

text \<open>What a URI needs to make a request: a path from the root, a host, and neither has blanks or control characters.\<close>

definition request_uri :: "uri \<Rightarrow> bool" where
  "request_uri uri \<longleftrightarrow> u_path uri \<noteq> [] \<and> hd (u_path uri) = chr CHR ''/'' \<and> u_host uri \<noteq> []
     \<and> (\<forall>c \<in> set (u_path uri @ u_host uri). 32 < c) \<and> length (u_path uri) \<le> 100 \<and> length (u_host uri) \<le> 100"

definition request_lines :: "uri \<Rightarrow> bytes \<Rightarrow> (bytes \<times> bytes) list" where
  "request_lines uri port = [(lit ''host'', u_host uri @ lit '':'' @ port), (lit ''accept'', lit ''*/*''), (lit ''connection'', lit ''close''),
     (lit ''user-agent'', lit ''SRL-HttpClient/2.10.4'')]"

lemma request_text_lines:
  "request_text uri port = (lit ''GET '' @ u_path uri @ lit '' HTTP/1.1'' @ [13]) @ 10 # concat (map line_of (request_lines uri port)) @ [13, 10]"
  by (simp add: request_text_def request_lines_def line_of_def lit_def chr_def)

lemma port_text: "Val_int32 n 10 = Inr t \<Longrightarrow> \<forall>c \<in> set t. 32 < c"
proof -
  assume v: "Val_int32 n 10 = Inr t"
  let ?d = "hexdigits 10 (if n <s 0 then unat (- n) else unat n)"
  have t: "t = (if n <s 0 then [45] else []) @ ?d" using v Val_int32_digits [of 10 n] by simp
  have "length HEX = 16" by (simp add: HEX_bytes)
  then have "(\<lambda>i. HEX ! i) ` {..<16} \<subseteq> set HEX" by auto
  then have d: "set ?d \<subseteq> set HEX" using hexdigits_chars [of 10] by (meson dual_order.trans numeral_le_iff semiring_norm)
  have "\<forall>c \<in> set (45 # HEX). 32 < c" by (simp add: HEX_bytes)
  moreover have "set t \<subseteq> set (45 # HEX)" using d unfolding t by auto
  ultimately show ?thesis by blast
qed

lemma ink_trim: "32 < c \<Longrightarrow> \<not> is_trim c"
proof -
  assume "32 < c"
  then have "c \<noteq> 9 \<and> c \<noteq> 10 \<and> c \<noteq> 11 \<and> c \<noteq> 12 \<and> c \<noteq> 13 \<and> c \<noteq> 32 \<and> c \<noteq> 0" by auto
  then show ?thesis by (simp add: is_trim_def chr_def)
qed

lemma fields_of_line:
  assumes "\<forall>c \<in> set path. 32 < c" "path \<noteq> []" "length path \<le> 100"
  shows "z_section (chr CHR '' '') 0 (lit ''GET '' @ path @ lit '' HTTP/1.1'') = Inr (lit ''GET'')"
    "z_section (chr CHR '' '') 1 (lit ''GET '' @ path @ lit '' HTTP/1.1'') = Inr path"
    "z_section (chr CHR '' '') 2 (lit ''GET '' @ path @ lit '' HTTP/1.1'') = Inr (lit ''HTTP/1.1'')"
proof -
  let ?X = "lit ''GET '' @ path @ lit '' HTTP/1.1''" and ?c = "chr CHR '' ''"
  have p: "?c \<notin> set path" "0 \<notin> set path" using assms(1) by (auto simp: chr_def)
  have z: "0 \<notin> set ?X" using p(2) by (simp add: lit_def)
  have X: "?X = lit ''GET'' @ ?c # (path @ ?c # lit ''HTTP/1.1'')" by (simp add: lit_def chr_def)
  have n: "?c \<notin> set (lit ''GET'')" "?c \<notin> set (lit ''HTTP/1.1'')" "length (lit ''GET'') = 3" "length (lit ''HTTP/1.1'') = 8"
    "lit ''GET'' \<noteq> []" "lit ''HTTP/1.1'' \<noteq> []"
    by (simp_all add: lit_def chr_def)
  have l: "length ?X < 2 ^ 31" using assms(3) by (simp add: lit_def)
  have f0: "t_find ?c (int 0) ?X = Inr (int (0 + 3))" using find_at [of 0 ?X "lit ''GET''" ?c] X n by simp
  have d1: "drop 4 ?X = path @ ?c # lit ''HTTP/1.1''" by (simp add: lit_def chr_def)
  have f1: "t_find ?c (int 4) ?X = Inr (int (4 + length path))" by (rule find_at [OF d1 p(1)])
  have "?X = (lit ''GET '' @ path @ [?c]) @ lit ''HTTP/1.1''" "length (lit ''GET '' @ path @ [?c]) = 4 + length path + 1"
    by (simp_all add: lit_def chr_def)
  then have d2: "drop (4 + length path + 1) ?X = lit ''HTTP/1.1''" by (metis append_eq_conv_conj)
  have f2: "t_find ?c (int (4 + length path + 1)) ?X = Inr (- 1)" using n(2) d2 by (intro t_find_simps(1)) (simp_all add: lit_def nat_add_distrib)
  have m0: "t_mid (int 0) (int 3) ?X = Inr (lit ''GET'')" by (rule mid_at [where zs = "?c # path @ ?c # lit ''HTTP/1.1''"]) (use X n l in simp_all)
  have m1: "t_mid (int 4) (int (length path)) ?X = Inr path" by (rule mid_at [OF d1]) (use l assms(2) in simp_all)
  have m2: "t_mid (int (4 + length path + 1)) (int 8) ?X = Inr (lit ''HTTP/1.1'')"
    by (rule mid_at [where zs = "[]"]) (use d2 l n in \<open>simp_all add: lit_def\<close>)
  show "z_section ?c 0 ?X = Inr (lit ''GET'')" unfolding z_section_text [OF z] t_section_def using f0 m0 by (simp add: t_section_from.simps [of _ _ 0])
  have "t_section_from ?c True (Suc k) 0 ?X = t_section_from ?c True k 4 ?X" for k
    using f0 by (simp add: t_section_from.simps [of ?c True "Suc k" 0])
  from this [of 0] this [of 1]
  have s1: "t_section_from ?c True 1 0 ?X = t_section_from ?c True 0 4 ?X" "t_section_from ?c True 2 0 ?X = t_section_from ?c True 1 4 ?X"
    by (simp_all add: numeral_2_eq_2)
  have "t_section_from ?c True 0 4 ?X = Inr path" using f1 m1 by (simp add: t_section_from.simps [of _ _ 0])
  then show "z_section ?c 1 ?X = Inr path" unfolding z_section_text [OF z] t_section_def s1 .
  have "t_section_from ?c True 1 4 ?X = t_section_from ?c True 0 (4 + length path + 1) ?X"
    using f1 by (simp add: t_section_from.simps [of ?c True "Suc 0" 4] nat_add_distrib)
  also have "\<dots> = Inr (lit ''HTTP/1.1'')" using f2 m2 by (simp add: t_section_from.simps [of _ _ 0]) (simp add: lit_def)
  finally show "z_section ?c 2 ?X = Inr (lit ''HTTP/1.1'')" unfolding z_section_text [OF z] t_section_def s1 .
qed


lemma request_line_read:
  assumes "tcp_ready u" "length (in_stream u) \<le> 500000" "in_stream u = (lit ''GET '' @ path @ lit '' HTTP/1.1'' @ [13]) @ 10 # rest"
    "\<forall>c \<in> set path. 32 < c" "path \<noteq> []" "length path \<le> 100"
  obtains r u' where "request_line h date (request_accept u request_new) = (Inr (), r)" "r_method r = lit ''GET''" "r_uri r = path"
    "r_major r = 1" "r_minor r = 1" "r_socket r = Some u'" "tcp_ready u'" "in_stream u' = rest"
proof -
  let ?line = "lit ''GET '' @ path @ lit '' HTTP/1.1''" and ?r = "request_accept u request_new"
  have n: "10 \<notin> set (?line @ [13])" using assms(4) by (auto simp: lit_def)
  obtain u' where u': "readLine (?r\<lparr>r_headers := []\<rparr>) = (Inr (), ?r\<lparr>r_headers := [], r_socket := Some u', r_content := (?line @ [13]) @ [10]\<rparr>)"
      "tcp_ready u'" "in_stream u' = rest"
    using readLine_ok [of "?r\<lparr>r_headers := []\<rparr>" u "?line @ [13]" rest] assms(1-3) n by (auto simp: request_accept_def)
  have e: "t_trimEnd ((?line @ [13]) @ [10]) = ?line" by (simp add: t_trimEnd_def is_trim_def lit_def chr_def)
  note f = fields_of_line [OF assms(4-6)]
  have v: "z_between (chr CHR ''/'') (chr CHR ''.'') (lit ''HTTP/1.1'') = Inr (lit ''1'')" "z_between (chr CHR ''.'') 13 (lit ''HTTP/1.1'') = Inr (lit ''1'')"
    "t_trimEnd (lit ''HTTP/1.1'') = lit ''HTTP/1.1''" "take 5 (lit ''HTTP/1.1'') = lit ''HTTP/''"
    by code_simp+
  have "Val_int32 1 10 = Inr (lit ''1'')" by code_simp
  then have i: "t_Int (lit ''1'') = Inr 1" using int_text by blast
  have ne: "lit ''HTTP/1.1'' \<noteq> []" "(?line @ [13]) @ [10] \<noteq> []" by (simp_all add: lit_def)
  define r1 where "r1 = ?r\<lparr>r_headers := [], r_socket := Some u', r_content := (?line @ [13]) @ [10]\<rparr>"
  define r2 where "r2 = r1\<lparr>r_content := ?line, r_method := lit ''GET'', r_uri := path, r_request_version := lit ''HTTP/1.1''\<rparr>"
  have p: "parseVersion h date r2 = (Inr (), r2\<lparr>r_major := 1, r_minor := 1\<rparr>)"
    using v i ne(1) by (simp add: parseVersion_def r2_def Let_def)
  have c: "r_content r1 = (?line @ [13]) @ [10]" by (simp add: r1_def)
  have "request_line h date ?r = (Inr (), r2\<lparr>r_major := 1, r_minor := 1\<rparr>)"
    unfolding request_line_def using u'(1) [folded r1_def] c e f p ne(2) by (simp del: append_assoc add: r2_def Let_def)
  then show thesis using that [of "r2\<lparr>r_major := 1, r_minor := 1\<rparr>" u'] u'(2,3) by (simp add: r2_def r1_def)
qed

lemma request_lines_received:
  assumes "request_uri uri" "\<forall>c \<in> set port. 32 < c"
  shows "list_all good_header (request_lines uri port)" "received (request_lines uri port) = request_lines uri port"
    "kv_find hash_bytes (lit ''content-length'') (request_lines uri port) = None"
proof -
  have ink: "\<forall>c \<in> set (u_host uri @ lit '':'' @ port). 32 < c" using assms by (auto simp: request_uri_def lit_def)
  have "\<forall>c \<in> set (u_host uri @ lit '':'' @ port). c \<noteq> 10 \<and> c \<noteq> 13 \<and> c \<noteq> 0"
  proof
    fix c assume "c \<in> set (u_host uri @ lit '':'' @ port)"
    then have "32 < c" using ink by blast
    then show "c \<noteq> 10 \<and> c \<noteq> 13 \<and> c \<noteq> 0" by auto
  qed
  then have "10 \<notin> set (u_host uri @ lit '':'' @ port)" "13 \<notin> set (u_host uri @ lit '':'' @ port)" "0 \<notin> set (u_host uri @ lit '':'' @ port)"
    by blast+
  then show "list_all good_header (request_lines uri port)" by (simp add: request_lines_def good_header_def) (simp add: lit_def chr_def)
  have low: "t_toLower (lit ''host'') = lit ''host''" "t_toLower (lit ''accept'') = lit ''accept''"
    "t_toLower (lit ''connection'') = lit ''connection''" "t_toLower (lit ''user-agent'') = lit ''user-agent''"
    and trim: "t_trim (lit ''*/*'') = lit ''*/*''" "t_trim (lit ''close'') = lit ''close''"
    "t_trim (lit ''SRL-HttpClient/2.10.4'') = lit ''SRL-HttpClient/2.10.4''"
    by code_simp+
  have "t_trim (u_host uri @ lit '':'' @ port) = u_host uri @ lit '':'' @ port" using ink ink_trim by (intro t_trim_id) blast
  moreover have d: "hash_bytes (lit ''host'') \<noteq> hash_bytes (lit ''accept'')" "hash_bytes (lit ''host'') \<noteq> hash_bytes (lit ''connection'')"
    "hash_bytes (lit ''host'') \<noteq> hash_bytes (lit ''user-agent'')" "hash_bytes (lit ''accept'') \<noteq> hash_bytes (lit ''connection'')"
    "hash_bytes (lit ''accept'') \<noteq> hash_bytes (lit ''user-agent'')" "hash_bytes (lit ''connection'') \<noteq> hash_bytes (lit ''user-agent'')"
    "hash_bytes (lit ''host'') \<noteq> hash_bytes (lit ''content-length'')" "hash_bytes (lit ''accept'') \<noteq> hash_bytes (lit ''content-length'')"
    "hash_bytes (lit ''connection'') \<noteq> hash_bytes (lit ''content-length'')" "hash_bytes (lit ''user-agent'') \<noteq> hash_bytes (lit ''content-length'')"
    by code_simp+
  ultimately show "received (request_lines uri port) = request_lines uri port"
    by (simp add: received_def request_lines_def put_header_def kv_find_def low trim)
  show "kv_find hash_bytes (lit ''content-length'') (request_lines uri port) = None" using d(7-10) by (simp add: kv_find_def request_lines_def)
qed

lemma request_read:
  assumes "tcp_ready u" "length (in_stream u) \<le> 500000" "in_stream u = request_text uri port @ rest" "request_uri uri"
    "\<forall>c \<in> set port. 32 < c"
  obtains r u' where "bindA (request_line h date) (\<lambda>_. parseHeaders) (request_accept u request_new) = (Inr (), r)"
    "r_method r = lit ''GET''" "r_uri r = u_path uri" "r_major r = 1" "r_minor r = 1" "r_headers r = request_lines uri port"
    "r_content_length r = 0" "r_socket r = Some u'" "in_stream u' = rest"
proof -
  have path: "\<forall>c \<in> set (u_path uri). 32 < c" "u_path uri \<noteq> []" "length (u_path uri) \<le> 100" using assms(4) by (simp_all add: request_uri_def)
  have s: "in_stream u = (lit ''GET '' @ u_path uri @ lit '' HTTP/1.1'' @ [13]) @ 10 # concat (map line_of (request_lines uri port)) @ [13, 10] @ rest"
    using assms(3) by (simp add: request_text_lines)
  obtain r1 u1 where r1: "request_line h date (request_accept u request_new) = (Inr (), r1)" "r_method r1 = lit ''GET''" "r_uri r1 = u_path uri"
    "r_major r1 = 1" "r_minor r1 = 1" "r_socket r1 = Some u1" "tcp_ready u1"
    "in_stream u1 = concat (map line_of (request_lines uri port)) @ [13, 10] @ rest"
    using request_line_read [OF assms(1,2) s path] .
  note g = request_lines_received [OF assms(4,5)]
  have l: "length (in_stream u1) \<le> 500000" using assms(2) s r1(8) by simp
  have m: "length (received (request_lines uri port)) < MAX_HEADERS" unfolding g(2) by (simp add: request_lines_def MAX_HEADERS_def)
  obtain u' where u': "headers_parse u1 = (Inr (request_lines uri port), u')" "in_stream u' = rest"
    using headers_received [OF r1(7) l g(1) r1(8)] m unfolding g(2) by auto
  define r2 where "r2 = r1\<lparr>r_content_length := 0, r_socket := Some u', r_headers := request_lines uri port, r_content := []\<rparr>"
  have "parseHeaders r1 = (Inr (), r2)"
    using r1(6) u'(1) g(3) by (simp add: parseHeaders_def on_socket_def hasHeader_def returnA_def r2_def bindA_def Let_def)
  then have "bindA (request_line h date) (\<lambda>_. parseHeaders) (request_accept u request_new) = (Inr (), r2)" using r1(1) by simp
  then show thesis using that [of r2 u'] r1(2-5) u'(2) by (simp add: r2_def)
qed


definition page :: bytes where
  "page = response_text (lit ''SRL'') (line_of (lit ''Date'', lit ''today'')) (lit ''text/html'') ([65, 66] @ [67])"

definition page_uri :: uri where
  "page_uri = uri_empty\<lparr>u_host := lit ''h'', u_path := lit ''/''\<rparr>"


end
