(* ===== verification/Json.thy ===== *)
theory Json
  imports Text_Ops
begin

text \<open>
  JSON values (src/json/JSON.cpp, include/srl/json/JSON.h): the parser on an \<open>istream\<close> and the printer. A
  stream is the characters to come with its flags \<open>eofbit\<close> and \<open>failbit\<close>. Reading a number (\<open>scan\<close>: the
  double, if there is one, and how many characters are taken) and printing it (\<open>show_number\<close>) are parameters.
\<close>

section \<open>The stream\<close>

record istream =
  i_rest :: bytes
  i_eof :: bool
  i_fail :: bool

definition istream_of :: "bytes \<Rightarrow> istream" where
  "istream_of xs = \<lparr>i_rest = xs, i_eof = False, i_fail = False\<rparr>"

definition i_good :: "istream \<Rightarrow> bool" where
  "i_good s \<longleftrightarrow> \<not> i_eof s \<and> \<not> i_fail s"

text \<open>\<open>input >> std::ws\<close>, \<open>input.get(ch)\<close> (at the end \<open>ch\<close> keeps its value) and \<open>input.peek()\<close>.\<close>

definition i_ws :: "istream \<Rightarrow> istream" where
  "i_ws s = (let r = dropWhile c_isspace (i_rest s) in s\<lparr>i_rest := r, i_eof := i_eof s \<or> r = []\<rparr>)"

definition i_get :: "u8 \<Rightarrow> istream \<Rightarrow> u8 \<times> istream" where
  "i_get ch s = (if \<not> i_good s then (ch, s\<lparr>i_fail := True\<rparr>) else case i_rest s of
     [] \<Rightarrow> (ch, s\<lparr>i_eof := True, i_fail := True\<rparr>) | c # r \<Rightarrow> (c, s\<lparr>i_rest := r\<rparr>))"

definition i_putback :: "u8 \<Rightarrow> istream \<Rightarrow> istream" where
  "i_putback ch s = (if i_fail s then s else s\<lparr>i_rest := ch # i_rest s, i_eof := False\<rparr>)"

definition i_peek :: "istream \<Rightarrow> u8 option \<times> istream" where
  "i_peek s = (if \<not> i_good s then (None, s\<lparr>i_fail := True\<rparr>) else case i_rest s of
     [] \<Rightarrow> (None, s\<lparr>i_eof := True\<rparr>) | c # r \<Rightarrow> (Some c, s))"

definition i_number :: "(bytes \<Rightarrow> 'd option \<times> nat) \<Rightarrow> istream \<Rightarrow> 'd option \<times> istream" where
  "i_number scan s = (if \<not> i_good s then (None, s\<lparr>i_fail := True\<rparr>) else case scan (i_rest s) of (v, k) \<Rightarrow>
     (v, s\<lparr>i_rest := drop k (i_rest s), i_eof := length (i_rest s) \<le> k, i_fail := (v = None)\<rparr>))"

section \<open>Tokens\<close>

fun match_loop :: "bytes \<Rightarrow> u8 \<Rightarrow> istream \<Rightarrow> bool \<times> istream" where
  "match_loop [] ch s = (True, s)"
| "match_loop (c # cur) ch s = (if \<not> i_fail s \<and> \<not> i_eof s then
       (case i_get ch s of (ch, s) \<Rightarrow> if ch \<noteq> c then (False, i_putback ch s) else match_loop cur ch s)
     else (False, s))"

definition json_match :: "bytes \<Rightarrow> istream \<Rightarrow> bool \<times> istream" where
  "json_match pattern s = match_loop pattern 0 (i_ws s)"

definition json_escape :: "u8 \<Rightarrow> bytes" where
  "json_escape ch = (if ch = 34 \<or> ch = 92 \<or> ch = 47 then [ch] else if ch = chr CHR ''b'' then [8] else if ch = chr CHR ''f'' then [12]
     else if ch = chr CHR ''n'' then [10] else if ch = chr CHR ''r'' then [13] else if ch = chr CHR ''t'' then [9] else [92, ch])"

text \<open>The loop over a string; \<open>None\<close> when the stream ends before the quote, which makes the stream fail.\<close>

fun string_loop :: "bytes \<Rightarrow> bytes \<Rightarrow> (bytes \<times> bytes) option" where
  "string_loop val [] = None"
| "string_loop val (ch # r) = (if ch = 34 then Some (val, r)
     else if ch = 92 then (case r of [] \<Rightarrow> None | ch # r \<Rightarrow> string_loop (val @ json_escape ch) r)
     else string_loop (val @ [ch]) r)"

definition parse_string :: "istream \<Rightarrow> bytes option \<times> istream" where
  "parse_string s = (case json_match [34] s of (False, s) \<Rightarrow> (None, s)
     | (True, s) \<Rightarrow> (case string_loop [] (i_rest s) of None \<Rightarrow> (None, s\<lparr>i_rest := [], i_eof := True, i_fail := True\<rparr>)
         | Some (val, r) \<Rightarrow> (Some val, s\<lparr>i_rest := r\<rparr>)))"

definition parse_bool :: "istream \<Rightarrow> bool option \<times> istream" where
  "parse_bool s = (case json_match (lit ''true'') s of (True, s) \<Rightarrow> (Some True, s)
     | (False, s) \<Rightarrow> (case json_match (lit ''false'') s of (True, s) \<Rightarrow> (Some False, s) | (False, s) \<Rightarrow> (None, s)))"

definition parse_null :: "istream \<Rightarrow> bool \<times> istream" where
  "parse_null s = json_match (lit ''null'') s"

definition parse_number :: "(bytes \<Rightarrow> 'd option \<times> nat) \<Rightarrow> istream \<Rightarrow> 'd option \<times> istream" where
  "parse_number scan s = (case i_number scan (i_ws s) of (None, s) \<Rightarrow> (None, s\<lparr>i_eof := False, i_fail := False\<rparr>) | (Some v, s) \<Rightarrow> (Some v, s))"

section \<open>Values\<close>

text \<open>The map of an object is the list of its pairs in the order of their keys.\<close>

datatype 'd json = JNumber 'd | JString bytes | JBool bool | JNull | JArray "'d json list" | JObject "(bytes \<times> 'd json) list"

fun key_less :: "bytes \<Rightarrow> bytes \<Rightarrow> bool" where
  "key_less xs [] = False"
| "key_less [] (y # ys) = True"
| "key_less (x # xs) (y # ys) = (x < y \<or> x = y \<and> key_less xs ys)"

fun map_put :: "bytes \<Rightarrow> 'v \<Rightarrow> (bytes \<times> 'v) list \<Rightarrow> (bytes \<times> 'v) list" where
  "map_put k v [] = [(k, v)]"
| "map_put k v ((l, w) # kvs) = (if k = l then (l, v) # kvs else if key_less k l then (k, v) # (l, w) # kvs else (l, w) # map_put k v kvs)"

text \<open>\<open>Array::parse\<close> and \<open>Object::parse\<close> with their loops, for the parser \<open>val\<close> of their values; \<open>None\<close> is \<open>false\<close>.\<close>

type_synonym 'd json_parser = "istream \<Rightarrow> ('d json option \<times> istream) res"

primrec json_elements :: "nat \<Rightarrow> 'd json_parser \<Rightarrow> 'd json list \<Rightarrow> istream \<Rightarrow> ('d json list \<times> istream) res" where
  "json_elements 0 val vs s = Inl Out_Of_Fuel"
| "json_elements (Suc n) val vs s = bindR (val s) (\<lambda>(v, s). case v of None \<Rightarrow> Inr (vs, s) | Some v \<Rightarrow>
     (case json_match [chr CHR '',''] s of (True, s) \<Rightarrow> json_elements n val (vs @ [v]) s | (False, s) \<Rightarrow> Inr (vs @ [v], s)))"

definition json_array :: "nat \<Rightarrow> 'd json_parser \<Rightarrow> istream \<Rightarrow> ('d json list option \<times> istream) res" where
  "json_array n val s = (case json_match [chr CHR ''[''] s of (False, s) \<Rightarrow> Inr (None, s) | (True, s) \<Rightarrow>
     bindR (json_elements n val [] s) (\<lambda>(vs, s). case json_match [chr CHR '']''] s of (False, s) \<Rightarrow> Inr (None, s) | (True, s) \<Rightarrow> Inr (Some vs, s)))"

primrec json_members :: "nat \<Rightarrow> 'd json_parser \<Rightarrow> (bytes \<times> 'd json) list \<Rightarrow> istream \<Rightarrow> ((bytes \<times> 'd json) list option \<times> istream) res" where
  "json_members 0 val kvs s = Inl Out_Of_Fuel"
| "json_members (Suc n) val kvs s = (case parse_string s of (None, s) \<Rightarrow> Inr (None, s) | (Some key, s) \<Rightarrow>
     (case json_match [chr CHR '':''] s of (False, s) \<Rightarrow> Inr (None, s) | (True, s) \<Rightarrow>
     bindR (val s) (\<lambda>(v, s). case v of None \<Rightarrow> Inr (Some kvs, s) | Some v \<Rightarrow>
     (case json_match [chr CHR '',''] s of (True, s) \<Rightarrow> json_members n val (map_put key v kvs) s
       | (False, s) \<Rightarrow> Inr (Some (map_put key v kvs), s)))))"

definition json_object :: "nat \<Rightarrow> 'd json_parser \<Rightarrow> istream \<Rightarrow> ((bytes \<times> 'd json) list option \<times> istream) res" where
  "json_object n val s = (case json_match [chr CHR ''{''] s of (False, s) \<Rightarrow> Inr (None, s) | (True, s) \<Rightarrow>
     bindR (json_members n val [] s) (\<lambda>(kvs, s). case kvs of None \<Rightarrow> Inr (None, s) | Some kvs \<Rightarrow>
     (case json_match [chr CHR ''}''] s of (False, s) \<Rightarrow> Inr (None, s) | (True, s) \<Rightarrow> Inr (Some kvs, s))))"

text \<open>\<open>Value::parse\<close>; every level takes a bracket, every round of a loop a comma.\<close>

primrec json_value :: "nat \<Rightarrow> (bytes \<Rightarrow> 'd option \<times> nat) \<Rightarrow> 'd json_parser" where
  "json_value 0 scan s = Inl Out_Of_Fuel"
| "json_value (Suc n) scan s = (case parse_string s of (Some v, s) \<Rightarrow> Inr (Some (JString v), s) | (None, s) \<Rightarrow>
     (case parse_number scan s of (Some v, s) \<Rightarrow> Inr (Some (JNumber v), s) | (None, s) \<Rightarrow>
     (case parse_bool s of (Some v, s) \<Rightarrow> Inr (Some (JBool v), s) | (None, s) \<Rightarrow>
     (case parse_null s of (True, s) \<Rightarrow> Inr (Some JNull, s) | (False, s) \<Rightarrow>
     (case i_peek s of (c, s) \<Rightarrow>
     bindR (if c = Some (chr CHR ''['') then json_array n (json_value n scan) s else Inr (None, s)) (\<lambda>(v, s). case v of Some v \<Rightarrow> Inr (Some (JArray v), s)
     | None \<Rightarrow> bindR (json_object n (json_value n scan) s) (\<lambda>(v, s). Inr (map_option JObject v, s))))))))"

section \<open>Access\<close>

datatype json_type = NUMBER | STRING | BOOL | NULL | ARRAY | OBJECT

fun json_tag :: "'d json \<Rightarrow> json_type" where
  "json_tag (JNumber d) = NUMBER" | "json_tag (JString t) = STRING" | "json_tag (JBool b) = BOOL" | "json_tag JNull = NULL"
| "json_tag (JArray vs) = ARRAY" | "json_tag (JObject kvs) = OBJECT"

definition json_is :: "json_type \<Rightarrow> 'd json \<Rightarrow> bool" where
  "json_is t v \<longleftrightarrow> json_tag v = t"

text \<open>\<open>get\<close>: the assertions are empty, so the wrong member of the union is read.\<close>

definition json_get :: "json_type \<Rightarrow> 'd json \<Rightarrow> 'd json res" where
  "json_get t v = (if json_is t v then Inr v else Inl Mem_Fault)"

definition array_has :: "json_type \<Rightarrow> nat \<Rightarrow> 'd json list \<Rightarrow> bool" where
  "array_has t i vs \<longleftrightarrow> (if length vs \<le> i then False else json_is t (vs ! i))"

definition array_get :: "json_type \<Rightarrow> nat \<Rightarrow> 'd json list \<Rightarrow> 'd json res" where
  "array_get t i vs = (if length vs \<le> i then Inl (Thrown ''out_of_range'') else json_get t (vs ! i))"

definition object_has :: "json_type \<Rightarrow> bytes \<Rightarrow> (bytes \<times> 'd json) list \<Rightarrow> bool" where
  "object_has t key kvs \<longleftrightarrow> (case map_of kvs key of None \<Rightarrow> False | Some v \<Rightarrow> json_is t v)"

definition object_get :: "json_type \<Rightarrow> bytes \<Rightarrow> (bytes \<times> 'd json) list \<Rightarrow> 'd json res" where
  "object_get t key kvs = (case map_of kvs key of None \<Rightarrow> Inl Mem_Fault | Some v \<Rightarrow> json_get t v)"

section \<open>Printing\<close>

text \<open>The characters below 32 and, as they are signed, those above 127 are printed as an int in
  hexadecimal, at least six digits.\<close>

definition hex6 :: "u32 \<Rightarrow> bytes" where
  "hex6 n = (let t = hexdigits 16 (unat n) in replicate (6 - length t) 48 @ map c_tolower t)"

definition print_char :: "u8 \<Rightarrow> bytes" where
  "print_char c = (if c = 34 \<or> c = 92 \<or> c = 47 then [92, c] else if c = 8 then [92, chr CHR ''b''] else if c = 12 then [92, chr CHR ''f'']
     else if c = 10 then [92, chr CHR ''n''] else if c = 13 then [92, chr CHR ''r''] else if c = 9 then [92, chr CHR ''t'']
     else if c <s 32 then [92, chr CHR ''u''] @ hex6 (scast c) else [c])"

definition stream_string :: "bytes \<Rightarrow> bytes" where
  "stream_string xs = 34 # concat (map print_char xs) @ [34]"

definition comma :: bytes where
  "comma = [chr CHR '','', chr CHR '' '']"

text \<open>The loop over an array runs to \<open>size() - 1\<close>, unsigned: the empty array is read outside of its bounds.\<close>

fun print_json :: "('d \<Rightarrow> bytes) \<Rightarrow> 'd json \<Rightarrow> bytes res"
  and print_array :: "('d \<Rightarrow> bytes) \<Rightarrow> 'd json list \<Rightarrow> bytes res"
  and print_object :: "('d \<Rightarrow> bytes) \<Rightarrow> (bytes \<times> 'd json) list \<Rightarrow> bytes res" where
  "print_json show_number (JNumber d) = Inr (show_number d)"
| "print_json show_number (JString t) = Inr (stream_string t)"
| "print_json show_number (JBool b) = Inr (if b then lit ''true'' else lit ''false'')"
| "print_json show_number JNull = Inr (lit ''null'')"
| "print_json show_number (JObject kvs) = bindR (print_object show_number kvs) (\<lambda>t. Inr ([chr CHR ''{''] @ t @ [chr CHR ''}'']))"
| "print_json show_number (JArray vs) = bindR (print_array show_number vs) (\<lambda>t. Inr ([chr CHR ''[''] @ t @ [chr CHR '']'']))"
| "print_array show_number [] = Inl Mem_Fault"
| "print_array show_number (v # vs) = bindR (print_json show_number v) (\<lambda>x. if vs = [] then Inr x
     else bindR (print_array show_number vs) (\<lambda>t. Inr (x @ comma @ t)))"
| "print_object show_number [] = Inr []"
| "print_object show_number ((k, v) # kvs) = bindR (print_json show_number v) (\<lambda>x. let x = stream_string k @ [chr CHR '':'', chr CHR '' ''] @ x in
     if kvs = [] then Inr x else bindR (print_object show_number kvs) (\<lambda>t. Inr (x @ comma @ t)))"

end
