(* ===== verification/Json_Props.thy ===== *)
theory Json_Props
  imports Json
begin

text \<open>The round trip of JSON: what the printer writes the parser reads back, and where this ends.\<close>

section \<open>Tokens\<close>

lemma istream_of_simps [simp]:
  "i_rest (istream_of xs) = xs" "\<not> i_eof (istream_of xs)" "\<not> i_fail (istream_of xs)" "i_good (istream_of xs)"
  "(istream_of xs)\<lparr>i_rest := ys\<rparr> = istream_of ys"
  by (simp_all add: istream_of_def i_good_def)

lemma i_ws_of [simp]:
  "\<not> c_isspace c \<Longrightarrow> i_ws (istream_of (c # r)) = istream_of (c # r)"
  "c_isspace c \<Longrightarrow> i_ws (istream_of (c # r)) = i_ws (istream_of r)"
  by (simp_all add: i_ws_def istream_of_def Let_def)

lemma i_get_of [simp]: "i_get ch (istream_of (c # r)) = (c, istream_of r)"
  by (simp add: i_get_def)

lemma i_putback_of [simp]: "i_putback c (istream_of r) = istream_of (c # r)"
  by (simp add: i_putback_def istream_of_def)

lemma match_loop_of: "match_loop p ch (istream_of (p @ r)) = (True, istream_of r)"
  by (induction p arbitrary: ch) simp_all

lemma match_word: "p \<noteq> [] \<Longrightarrow> \<not> c_isspace (hd p) \<Longrightarrow> json_match p (istream_of (p @ r)) = (True, istream_of r)"
  using match_loop_of [of p 0 r] by (cases p) (simp_all add: json_match_def)

lemma match_miss: "p \<noteq> [] \<Longrightarrow> \<not> c_isspace c \<Longrightarrow> c \<noteq> hd p \<Longrightarrow> json_match p (istream_of (c # r)) = (False, istream_of (c # r))"
  by (cases p) (simp_all add: json_match_def)

lemma match_char: "\<not> c_isspace c \<Longrightarrow> json_match [p] (istream_of (c # r)) = (if c = p then (True, istream_of r) else (False, istream_of (c # r)))"
  by (simp add: json_match_def)

lemma match_space: "json_match p (istream_of (32 # r)) = json_match p (istream_of r)"
  by (simp add: json_match_def c_isspace_def)

section \<open>Strings\<close>

text \<open>The bytes from 32 to 127 and the five control characters with a name.\<close>

definition json_char :: "u8 \<Rightarrow> bool" where
  "json_char c \<longleftrightarrow> \<not> c <s 32 \<or> c = 8 \<or> c = 9 \<or> c = 10 \<or> c = 12 \<or> c = 13"

lemma string_loop_char: "json_char c \<Longrightarrow> string_loop val (print_char c @ r) = string_loop (val @ [c]) r"
proof -
  assume "json_char c"
  then consider "c = 34 \<or> c = 92 \<or> c = 47" | "c = 8 \<or> c = 9 \<or> c = 10 \<or> c = 12 \<or> c = 13" | "\<not> c <s 32" "c \<noteq> 34" "c \<noteq> 92"
      "c \<noteq> 47" "c \<noteq> 8" "c \<noteq> 9" "c \<noteq> 10" "c \<noteq> 12" "c \<noteq> 13"
    by (auto simp: json_char_def)
  then show ?thesis by cases (auto simp: print_char_def json_escape_def chr_def)
qed

lemma string_loop_text: "list_all json_char xs \<Longrightarrow> string_loop val (concat (map print_char xs) @ 34 # r) = Some (val @ xs, r)"
proof (induction xs arbitrary: val)
  case (Cons c xs)
  then show ?case using string_loop_char [of c val "concat (map print_char xs) @ 34 # r"] by simp
qed simp

lemma string_read: "list_all json_char xs \<Longrightarrow> parse_string (istream_of (stream_string xs @ r)) = (Some xs, istream_of r)"
  using string_loop_text [of xs "[]" r] by (simp add: parse_string_def stream_string_def match_char c_isspace_def)

lemma string_miss: "\<not> c_isspace c \<Longrightarrow> c \<noteq> 34 \<Longrightarrow> parse_string (istream_of (c # r)) = (None, istream_of (c # r))"
  by (simp add: parse_string_def match_char)

lemma string_space: "parse_string (istream_of (32 # r)) = parse_string (istream_of r)"
  by (simp add: parse_string_def match_space)

section \<open>Numbers\<close>

text \<open>
  A number whose printed text is read back, before the characters that may follow in a JSON text. With the
  six digits of \<open>operator<<\<close> this is not every double, and neither an infinite one nor one that is no number.
\<close>

definition follows :: "bytes \<Rightarrow> bool" where
  "follows r \<longleftrightarrow> r = [] \<or> hd r = chr CHR '','' \<or> hd r = chr CHR '']'' \<or> hd r = chr CHR ''}''"

definition number_start :: "u8 \<Rightarrow> bool" where
  "number_start c \<longleftrightarrow> c_isdigit c \<or> c = chr CHR ''-'' \<or> c = chr CHR ''+'' \<or> c = chr CHR ''.''"

definition number_io :: "(bytes \<Rightarrow> 'd option \<times> nat) \<Rightarrow> ('d \<Rightarrow> bytes) \<Rightarrow> 'd \<Rightarrow> bool" where
  "number_io scan show_number d \<longleftrightarrow> show_number d \<noteq> [] \<and> number_start (hd (show_number d))
     \<and> (\<forall>r. follows r \<longrightarrow> scan (show_number d @ r) = (Some d, length (show_number d)))"

text \<open>Where no number begins, none is read.\<close>

definition scan_stops :: "(bytes \<Rightarrow> 'd option \<times> nat) \<Rightarrow> bool" where
  "scan_stops scan \<longleftrightarrow> (\<forall>c r. \<not> number_start c \<longrightarrow> scan (c # r) = (None, 0))"

lemma number_text:
  assumes "number_io scan show_number d"
  obtains c t where "show_number d = c # t" "number_start c" "\<not> c_isspace c" "c \<noteq> 34"
proof -
  have "show_number d \<noteq> []" "number_start (hd (show_number d))" using assms by (simp_all add: number_io_def)
  then obtain c t where "show_number d = c # t" "number_start c" by (cases "show_number d") simp_all
  moreover have "\<not> c_isspace c \<and> c \<noteq> 34" if "number_start c" for c
    using that by (auto simp: number_start_def c_isspace_def c_isdigit_def chr_def word_le_nat_alt)
  ultimately show thesis using that by blast
qed

lemma number_read:
  assumes "number_io scan show_number d" "follows r"
  shows "\<exists>s. parse_number scan (istream_of (show_number d @ r)) = (Some d, s) \<and> i_rest s = r \<and> (r \<noteq> [] \<longrightarrow> s = istream_of r)"
proof -
  obtain c t where t: "show_number d = c # t" "number_start c" "\<not> c_isspace c" using number_text [OF assms(1)] .
  have "scan (show_number d @ r) = (Some d, length (show_number d))" using assms by (simp add: number_io_def)
  moreover have "(istream_of xs)\<lparr>i_rest := ys, i_eof := False, i_fail := False\<rparr> = istream_of ys" for xs ys by (simp add: istream_of_def)
  ultimately show ?thesis using t(1,3) by (cases r) (simp_all add: parse_number_def i_number_def)
qed

lemma number_miss: "scan_stops scan \<Longrightarrow> \<not> c_isspace c \<Longrightarrow> \<not> number_start c \<Longrightarrow>
  parse_number scan (istream_of (c # r)) = (None, istream_of (c # r))"
  by (simp add: parse_number_def i_number_def scan_stops_def istream_of_def i_good_def i_ws_def Let_def)

section \<open>Values\<close>

fun json_ok :: "('d \<Rightarrow> bool) \<Rightarrow> 'd json \<Rightarrow> bool" where
  "json_ok num (JNumber d) = num d"
| "json_ok num (JString t) = list_all json_char t"
| "json_ok num (JBool b) = True"
| "json_ok num JNull = True"
| "json_ok num (JArray vs) = (vs \<noteq> [] \<and> (\<forall>v \<in> set vs. json_ok num v))"
| "json_ok num (JObject kvs) = (kvs \<noteq> [] \<and> sorted_wrt key_less (map fst kvs) \<and> (\<forall>p \<in> set kvs. list_all json_char (fst p) \<and> json_ok num (snd p)))"

lemma key_less_asym: "key_less l k \<Longrightarrow> k \<noteq> l \<and> \<not> key_less k l"
  by (induction l k rule: key_less.induct) auto

lemma map_put_last: "\<forall>l \<in> set (map fst kvs). key_less l k \<Longrightarrow> map_put k v kvs = kvs @ [(k, v)]"
  by (induction kvs) (auto dest: key_less_asym)

section \<open>The round trip\<close>

definition reads_json :: "'d json_parser \<Rightarrow> ('d \<Rightarrow> bytes) \<Rightarrow> 'd json \<Rightarrow> bool" where
  "reads_json val show_number v \<longleftrightarrow> (\<forall>t r. print_json show_number v = Inr t \<longrightarrow> follows r \<longrightarrow>
     (\<exists>s. val (istream_of (t @ r)) = Inr (Some v, s) \<and> i_rest s = r \<and> (r \<noteq> [] \<longrightarrow> s = istream_of r)))"

lemma follows_simps [simp]: "follows (44 # r)" "follows (93 # r)" "follows (125 # r)" "follows []"
  by (simp_all add: follows_def chr_def)

lemma value_space: "json_value (Suc n) scan (istream_of (32 # r)) = json_value (Suc n) scan (istream_of r)"
  by (simp add: string_space)

lemma elements_read:
  assumes "\<forall>v \<in> set vs. reads_json val show_number v" "\<And>xs. val (istream_of (32 # xs)) = val (istream_of xs)"
    and "vs \<noteq> []" "print_array show_number vs = Inr t" "length vs \<le> m"
  shows "json_elements m val acc (istream_of (t @ 93 # r)) = Inr (acc @ vs, istream_of (93 # r))"
  using assms(1,3-5)
proof (induction vs arbitrary: t m acc)
  case (Cons v vs)
  obtain k where k: "m = Suc k" using Cons.prems(4) by (cases m) auto
  obtain x where x: "print_json show_number v = Inr x" using Cons.prems(3) by (auto simp: res_simps)
  show ?case
  proof (cases "vs = []")
    case True
    then have "t = x" using Cons.prems(3) x by simp
    moreover have "val (istream_of (x @ 93 # r)) = Inr (Some v, istream_of (93 # r))"
      using Cons.prems(1) x unfolding reads_json_def by (metis follows_simps(2) list.discI list.set_intros(1))
    ultimately show ?thesis using k True by (simp add: match_char c_isspace_def chr_def)
  next
    case False
    then obtain t' where t': "print_array show_number vs = Inr t'" "t = x @ comma @ t'" using Cons.prems(3) x by (auto simp: res_simps)
    have "val (istream_of (x @ 44 # 32 # t' @ 93 # r)) = Inr (Some v, istream_of (44 # 32 # t' @ 93 # r))"
      using Cons.prems(1) x unfolding reads_json_def by (metis follows_simps(1) list.discI list.set_intros(1))
    moreover have "json_elements k val (acc @ [v]) (istream_of (t' @ 93 # r)) = Inr ((acc @ [v]) @ vs, istream_of (93 # r))"
      using Cons.IH [OF _ False t'(1), of k] Cons.prems(1,4) k by simp
    moreover have "json_elements k val (acc @ [v]) (istream_of (32 # t' @ 93 # r)) = json_elements k val (acc @ [v]) (istream_of (t' @ 93 # r))"
      using assms(2) by (cases k) simp_all
    ultimately show ?thesis using k t'(2) by (simp add: match_char c_isspace_def chr_def comma_def)
  qed
qed simp

lemma members_read:
  assumes "\<forall>p \<in> set kvs. list_all json_char (fst p) \<and> reads_json val show_number (snd p)" "\<And>xs. val (istream_of (32 # xs)) = val (istream_of xs)"
    and "kvs \<noteq> []" "print_object show_number kvs = Inr t" "length kvs \<le> m" "sorted_wrt key_less (map fst (acc @ kvs))"
  shows "json_members m val acc (istream_of (t @ 125 # r)) = Inr (Some (acc @ kvs), istream_of (125 # r))"
  using assms(1,3-6)
proof (induction kvs arbitrary: t m acc)
  case (Cons p kvs)
  obtain key v where p: "p = (key, v)" by (cases p)
  obtain k where k: "m = Suc k" using Cons.prems(4) by (cases m) auto
  obtain x where x: "print_json show_number v = Inr x" using Cons.prems(3) p by (auto simp: res_simps)
  have key: "list_all json_char key" "reads_json val show_number v" using Cons.prems(1) p by simp_all
  have put: "map_put key v acc = acc @ [(key, v)]"
    using Cons.prems(5) p by (intro map_put_last) (auto simp: sorted_wrt_append)
  show ?case
  proof (cases "kvs = []")
    case True
    then have "t = stream_string key @ 58 # 32 # x" using Cons.prems(3) x p by (simp add: chr_def)
    moreover have "val (istream_of (x @ 125 # r)) = Inr (Some v, istream_of (125 # r))"
      using key(2) x unfolding reads_json_def by (metis follows_simps(3) list.discI)
    ultimately show ?thesis using k True put p string_read [OF key(1)] assms(2) by (simp add: match_char c_isspace_def chr_def)
  next
    case False
    then obtain t' where t': "print_object show_number kvs = Inr t'" "t = stream_string key @ 58 # 32 # x @ comma @ t'"
      using Cons.prems(3) x p by (auto simp: res_simps chr_def)
    have "val (istream_of (x @ 44 # 32 # t' @ 125 # r)) = Inr (Some v, istream_of (44 # 32 # t' @ 125 # r))"
      using key(2) x unfolding reads_json_def by (metis follows_simps(1) list.discI)
    moreover have "json_members k val (acc @ [p]) (istream_of (t' @ 125 # r)) = Inr (Some ((acc @ [p]) @ kvs), istream_of (125 # r))"
      using Cons.IH [OF _ False t'(1), of k "acc @ [p]"] Cons.prems(1,4,5) k by simp
    moreover have "json_members k val (acc @ [p]) (istream_of (32 # t' @ 125 # r)) = json_members k val (acc @ [p]) (istream_of (t' @ 125 # r))"
      by (cases k) (simp_all add: string_space)
    ultimately show ?thesis using k t'(2) put p string_read [OF key(1)] assms(2)
      by (simp add: match_char c_isspace_def chr_def comma_def)
  qed
qed simp

lemma print_length:
  "print_array show_number vs = Inr t \<Longrightarrow> length vs \<le> Suc (length t)"
  "print_object show_number kvs = Inr t' \<Longrightarrow> length kvs \<le> Suc (length t')"
proof -
  show "print_array show_number vs = Inr t \<Longrightarrow> length vs \<le> Suc (length t)"
  proof (induction vs arbitrary: t)
    case (Cons v vs)
    then show ?case by (cases "vs = []") (auto simp: res_simps comma_def)
  qed simp
  show "print_object show_number kvs = Inr t' \<Longrightarrow> length kvs \<le> Suc (length t')"
  proof (induction kvs arbitrary: t')
    case (Cons p kvs)
    then show ?case by (cases p; cases "kvs = []") (auto simp: res_simps comma_def)
  qed simp
qed

lemma print_parts:
  "print_array show_number vs = Inr t \<Longrightarrow> v \<in> set vs \<Longrightarrow> \<exists>x. print_json show_number v = Inr x \<and> length x \<le> length t"
  "print_object show_number kvs = Inr t' \<Longrightarrow> p \<in> set kvs \<Longrightarrow> \<exists>x. print_json show_number (snd p) = Inr x \<and> length x \<le> length t'"
proof -
  show "print_array show_number vs = Inr t \<Longrightarrow> v \<in> set vs \<Longrightarrow> \<exists>x. print_json show_number v = Inr x \<and> length x \<le> length t"
  proof (induction vs arbitrary: t)
    case (Cons u vs)
    then show ?case by (cases "vs = []") (fastforce simp: res_simps comma_def)+
  qed simp
  show "print_object show_number kvs = Inr t' \<Longrightarrow> p \<in> set kvs \<Longrightarrow> \<exists>x. print_json show_number (snd p) = Inr x \<and> length x \<le> length t'"
  proof (induction kvs arbitrary: t')
    case (Cons q kvs)
    then show ?case by (cases q; cases "kvs = []") (fastforce simp: res_simps comma_def)+
  qed simp
qed

lemma miss_words:
  assumes "\<not> c_isspace c" "c \<noteq> chr CHR ''t''" "c \<noteq> chr CHR ''f''" "c \<noteq> chr CHR ''n''"
  shows "parse_bool (istream_of (c # r)) = (None, istream_of (c # r))" "parse_null (istream_of (c # r)) = (False, istream_of (c # r))"
  using assms by (simp_all add: parse_bool_def parse_null_def match_miss lit_def chr_def)

lemma json_reads:
  assumes io: "scan_stops scan"
  shows "json_ok (number_io scan show_number) v \<Longrightarrow> print_json show_number v = Inr t \<Longrightarrow> length t < n \<Longrightarrow> reads_json (json_value n scan) show_number v"
proof (induction n arbitrary: v t)
  case (Suc n)
  have miss: "parse_number scan (istream_of (c # r)) = (None, istream_of (c # r))" if "\<not> c_isspace c" "\<not> number_start c" for c r
    using number_miss [OF io that] .
  have inner: "reads_json (json_value n scan) show_number w" if "json_ok (number_io scan show_number) w" "print_json show_number w = Inr x" "length x < n" for w x
    using Suc.IH [OF that] .
  have space: "json_value n scan (istream_of (32 # xs)) = json_value n scan (istream_of xs)" if "0 < n" for xs
    using that value_space by (cases n) simp_all
  show ?case
  proof (cases v)
    case (JNumber d)
    have nd: "number_io scan show_number d" using Suc.prems(1) JNumber by simp
    obtain c u where c: "show_number d = c # u" "\<not> c_isspace c" "c \<noteq> 34" using number_text [OF nd] .
    then have ps: "parse_string (istream_of (show_number d @ r)) = (None, istream_of (show_number d @ r))" for r
      using string_miss by simp
    have "\<exists>s. json_value (Suc n) scan (istream_of (show_number d @ r)) = Inr (Some v, s) \<and> i_rest s = r \<and> (r \<noteq> [] \<longrightarrow> s = istream_of r)"
      if "follows r" for r
      using number_read [OF nd that] ps [of r] JNumber by auto
    then show ?thesis by (simp add: reads_json_def JNumber)
  next
    case (JString xs)
    then show ?thesis using string_read Suc.prems(1) by (simp add: reads_json_def)
  next
    case (JBool b)
    have "json_value (Suc n) scan (istream_of ((if b then lit ''true'' else lit ''false'') @ r)) = Inr (Some (JBool b), istream_of r)" for r
      using match_word [of "lit ''true''" r] match_word [of "lit ''false''" r]
      by (cases b) (simp_all add: lit_def chr_def string_miss miss parse_bool_def c_isspace_def number_start_def c_isdigit_def match_miss)
    then show ?thesis using JBool by (simp add: reads_json_def)
  next
    case JNull
    have "json_value (Suc n) scan (istream_of (lit ''null'' @ r)) = Inr (Some JNull, istream_of r)" for r
      using match_word [of "lit ''null''" r]
      by (simp add: lit_def chr_def string_miss miss parse_bool_def parse_null_def c_isspace_def number_start_def c_isdigit_def match_miss)
    then show ?thesis using JNull by (simp add: reads_json_def)
  next
    case (JArray vs)
    then obtain u where u: "print_array show_number vs = Inr u" "t = 91 # u @ [93]" using Suc.prems(2) by (auto simp: res_simps chr_def)
    have n: "length u < n" "0 < n" using Suc.prems(3) u(2) by simp_all
    have "length vs \<le> n" using print_length(1) [OF u(1)] n by simp
    moreover have "\<forall>w \<in> set vs. reads_json (json_value n scan) show_number w"
      using print_parts(1) [OF u(1)] inner Suc.prems(1) JArray n(1) by fastforce
    ultimately have e: "json_elements n (json_value n scan) [] (istream_of (u @ 93 # r)) = Inr ([] @ vs, istream_of (93 # r))" for r
      using elements_read [OF _ space [OF n(2)] _ u(1)] Suc.prems(1) JArray by simp
    have "json_value (Suc n) scan (istream_of (91 # u @ 93 # r)) = Inr (Some v, istream_of r)" for r
      using e JArray miss [of 91] string_miss [of 91] miss_words [of 91]
      by (simp add: json_array_def match_char c_isspace_def number_start_def c_isdigit_def chr_def i_peek_def)
    then show ?thesis using JArray Suc.prems(2) u(2) by (simp add: reads_json_def)
  next
    case (JObject kvs)
    then obtain u where u: "print_object show_number kvs = Inr u" "t = 123 # u @ [125]" using Suc.prems(2) by (auto simp: res_simps chr_def)
    have n: "length u < n" "0 < n" using Suc.prems(3) u(2) by simp_all
    have "length kvs \<le> n" using print_length(2) [OF u(1)] n by simp
    moreover have "\<forall>p \<in> set kvs. list_all json_char (fst p) \<and> reads_json (json_value n scan) show_number (snd p)"
      using print_parts(2) [OF u(1)] inner Suc.prems(1) JObject n(1) by fastforce
    ultimately have e: "json_members n (json_value n scan) [] (istream_of (u @ 125 # r)) = Inr (Some ([] @ kvs), istream_of (125 # r))" for r
      using members_read [OF _ space [OF n(2)] _ u(1)] Suc.prems(1) JObject by simp
    have "json_value (Suc n) scan (istream_of (123 # u @ 125 # r)) = Inr (Some v, istream_of r)" for r
      using e JObject miss [of 123] string_miss [of 123] miss_words [of 123]
      by (simp add: json_object_def match_char c_isspace_def number_start_def c_isdigit_def chr_def i_peek_def)
    then show ?thesis using JObject Suc.prems(2) u(2) by (simp add: reads_json_def)
  qed
qed simp

lemma print_ok: "json_ok num v \<Longrightarrow> \<exists>t. print_json show_number v = Inr t"
  "\<forall>v \<in> set vs. json_ok num v \<Longrightarrow> vs \<noteq> [] \<Longrightarrow> \<exists>t. print_array show_number vs = Inr t"
  "\<forall>p \<in> set kvs. json_ok num (snd p) \<Longrightarrow> \<exists>t. print_object show_number kvs = Inr t"
proof (induction show_number v and show_number vs and show_number kvs rule: print_json_print_array_print_object.induct)
  case (8 show_number v vs)
  then show ?case by (cases "vs = []") (auto simp: res_simps)
next
  case (10 show_number k v kvs)
  then show ?case by (cases "kvs = []") (auto simp: res_simps)
qed (auto simp: res_simps)

text \<open>
  C11. A JSON value is printed, and the parser returns the same value and uses up the text, if it has no empty
  array or object, if its strings and keys have only bytes from 32 to 127 and the five control characters with a
  name, if its keys are in the order of the map, and if each of its numbers prints to a text that is read
  back (\<open>number_io\<close>), whatever the format of numbers.
\<close>

theorem json_roundtrip:
  assumes "scan_stops scan" "json_ok (number_io scan show_number) v"
  shows "\<exists>t s. print_json show_number v = Inr t \<and> json_value (Suc (length t) + k) scan (istream_of t) = Inr (Some v, s) \<and> i_rest s = []"
proof -
  obtain t where t: "print_json show_number v = Inr t" using print_ok(1) [OF assms(2)] by blast
  have "reads_json (json_value (Suc (length t) + k) scan) show_number v" by (rule json_reads [OF assms t]) simp
  then obtain s where "json_value (Suc (length t) + k) scan (istream_of (t @ [])) = Inr (Some v, s)" "i_rest s = []"
    using t unfolding reads_json_def by (metis follows_simps(4))
  then show ?thesis using t by auto
qed

text \<open>Numbers that satisfy the hypothesis: the natural ones, in decimal.\<close>

definition scan_nat :: "bytes \<Rightarrow> nat option \<times> nat" where
  "scan_nat xs = (let ds = takeWhile c_isdigit xs in
     if ds = [] then (None, 0) else (Some (foldl (\<lambda>n c. 10 * n + unat (c - 48)) 0 ds), length ds))"

lemma decimal_digit: "n < 10 \<Longrightarrow> c_isdigit (HEX ! n) \<and> unat (HEX ! n - 48) = n"
  by (simp add: numeral_eq_Suc less_Suc_eq) (auto simp: HEX_bytes c_isdigit_def)

lemma decimal_digits: "list_all c_isdigit (hexdigits 10 n) \<and> foldl (\<lambda>n c. 10 * n + unat (c - 48)) 0 (hexdigits 10 n) = n"
proof (induction n rule: less_induct)
  case (less n)
  show ?case
  proof (cases "n < 10")
    case True
    then show ?thesis using decimal_digit [OF True] by (simp add: hexdigits_less)
  next
    case False
    then have "list_all c_isdigit (hexdigits 10 (n div 10))"
      "foldl (\<lambda>n c. 10 * n + unat (c - 48)) 0 (hexdigits 10 (n div 10)) = n div 10" using less.IH [of "n div 10"] by simp_all
    then show ?thesis using False decimal_digit [of "n mod 10"] hexdigits_step [of 10 n] by simp
  qed
qed

lemma nat_io: "scan_stops scan_nat" "number_io scan_nat (hexdigits 10) d"
proof -
  have ne: "hexdigits 10 n \<noteq> []" for n by (subst hexdigits.simps) simp
  have "number_start (hd (hexdigits 10 n))" for n
    using decimal_digits [of n] ne [of n] by (cases "hexdigits 10 n") (simp_all add: number_start_def)
  moreover have "scan_nat (hexdigits 10 n @ r) = (Some n, length (hexdigits 10 n))" if "follows r" for n r
  proof -
    have "takeWhile c_isdigit r = []" using that by (cases r) (auto simp: follows_def c_isdigit_def chr_def)
    moreover have "takeWhile c_isdigit (hexdigits 10 n) = hexdigits 10 n"
      using decimal_digits [of n] by (simp add: list_all_iff)
    ultimately have "takeWhile c_isdigit (hexdigits 10 n @ r) = hexdigits 10 n"
      using decimal_digits [of n] by (simp add: takeWhile_append list_all_iff)
    then show ?thesis using decimal_digits [of n] ne [of n] by (simp add: scan_nat_def)
  qed
  moreover have "\<not> number_start c \<Longrightarrow> scan_nat (c # r) = (None, 0)" for c r by (simp add: scan_nat_def number_start_def)
  ultimately show "scan_stops scan_nat" "number_io scan_nat (hexdigits 10) d" using ne by (simp_all add: number_io_def scan_stops_def)
qed

theorem json_roundtrip_witness:
  "\<exists>t s. print_json (hexdigits 10) (JObject [(lit ''a'', JArray [JNumber 12, JNull]), (lit ''b'', JString (34 # lit ''x'' @ [10]))]) = Inr t
    \<and> json_value (Suc (length t) + 0) scan_nat (istream_of t)
      = Inr (Some (JObject [(lit ''a'', JArray [JNumber 12, JNull]), (lit ''b'', JString (34 # lit ''x'' @ [10]))]), s) \<and> i_rest s = []"
  by (rule json_roundtrip [OF nat_io(1)]) (simp add: nat_io(2) lit_def chr_def json_char_def word_sless_alt)

section \<open>Defects\<close>

text \<open>
  What does not work: an empty object is not read, an empty array is printed from outside of its bounds;
  a text that ends in \<open>nul\<close> is null, as the failed read leaves the last character; an attempt at one word eats
  the beginning of another; control and non-ASCII characters are printed as no JSON has them and read back
  as other texts.
\<close>

theorem json_defects:
  "(\<exists>s. json_object (Suc n) val (istream_of (lit ''{}'')) = Inr (None, s))
    \<and> print_json show_number (JArray []) = Inl Mem_Fault
    \<and> fst (parse_null (istream_of (lit ''nul''))) = True
    \<and> parse_bool (istream_of (lit ''tr]'')) = (None, istream_of (lit '']''))
    \<and> print_char 1 = 92 # lit ''u000001'' \<and> print_char 128 = 92 # lit ''uffffff80''
    \<and> string_loop [] (print_char 1 @ [34]) = Some (92 # lit ''u000001'', [])"
proof (intro conjI)
  show "\<exists>s. json_object (Suc n) val (istream_of (lit ''{}'')) = Inr (None, s)"
    by (simp add: json_object_def match_char string_miss lit_def chr_def c_isspace_def)
  show "print_json show_number (JArray []) = Inl Mem_Fault" by simp
  show "fst (parse_null (istream_of (lit ''nul''))) = True"
    by (simp add: parse_null_def json_match_def lit_def chr_def c_isspace_def i_get_def istream_of_def i_good_def i_ws_def)
  show "parse_bool (istream_of (lit ''tr]'')) = (None, istream_of (lit '']''))"
    by (simp add: parse_bool_def json_match_def lit_def chr_def c_isspace_def)
  have r5: "replicate 5 (48 :: u8) = [48, 48, 48, 48, 48]" by (simp add: numeral_eq_Suc)
  show p: "print_char 1 = 92 # lit ''u000001''" and "print_char 128 = 92 # lit ''uffffff80''"
    by (simp_all add: r5 print_char_def hex6_def hexdigits.simps HEX_bytes c_tolower_def word_sless_alt lit_def chr_def Let_def)
  show "string_loop [] (print_char 1 @ [34]) = Some (92 # lit ''u000001'', [])"
    by (simp add: p lit_def chr_def json_escape_def)
qed

end
