(* ===== verification/Fs.thy ===== *)
theory Fs
  imports Text_Ops Actions
begin

text \<open>
  \<open>FS\<close> (src/fs/FS.cpp), the branches of UNIX: names of paths, permissions, and the operations that make,
  move, copy and delete. The file system is a tree under one root, with the umask of the process; the
  calls of the operating system (\<open>os_\<close>) are those of a superuser. Symbolic links, devices and the name
  \<open>..\<close> are left out; a directory is read as it is when it is opened.
\<close>

section \<open>Names\<close>

definition SEP :: u8 where "SEP = 47"

definition t_rfind :: "u8 \<Rightarrow> bytes \<Rightarrow> int" where
  "t_rfind c xs = (if c \<in> set xs then int (length xs) - 1 - int (length (takeWhile (\<lambda>x. x \<noteq> c) (rev xs))) else - 1)"

definition GetFileName :: "bytes \<Rightarrow> bytes res" where
  "GetFileName path = (if t_count 92 path \<noteq> 0 then t_from (t_rfind 92 path + 1) path
     else if t_count SEP path \<noteq> 0 then t_from (t_rfind SEP path + 1) path else Inr path)"

definition GetExt :: "bytes \<Rightarrow> bytes res" where
  "GetExt path = (if t_count 46 path \<noteq> 0 then t_from (t_rfind 46 path + 1) path else Inr [])"

definition GetDirName :: "bytes \<Rightarrow> bytes res" where
  "GetDirName path = (if t_count 92 path \<noteq> 0 then t_mid 0 (t_rfind 92 path) path
     else if t_count SEP path \<noteq> 0 then t_mid 0 (t_rfind SEP path) path else Inr path)"

section \<open>Permissions\<close>

definition EXECUTE :: u8 where "EXECUTE = 1"
definition WRITE :: u8 where "WRITE = 2"
definition READ :: u8 where "READ = 4"
definition READ_WRITE_EXECUTE :: u8 where "READ_WRITE_EXECUTE = 7"

record permissions =
  owners :: u8
  groups :: u8
  others :: u8

definition has :: "u8 \<Rightarrow> u8 \<Rightarrow> bool" where
  "has bits b \<longleftrightarrow> and bits b \<noteq> 0"

definition mode_bit :: "u32 \<Rightarrow> u32 \<Rightarrow> u8 \<Rightarrow> u8" where
  "mode_bit modes m b = (if and modes m \<noteq> 0 then b else 0)"

text \<open>The execution by the owner is looked up in the bit of the others.\<close>

definition ModesToPermissions :: "u32 \<Rightarrow> permissions" where
  "ModesToPermissions modes = \<lparr>
     owners = or (or (mode_bit modes 256 READ) (mode_bit modes 128 WRITE)) (mode_bit modes 1 EXECUTE),
     groups = or (or (mode_bit modes 32 READ) (mode_bit modes 16 WRITE)) (mode_bit modes 8 EXECUTE),
     others = or (or (mode_bit modes 4 READ) (mode_bit modes 2 WRITE)) (mode_bit modes 1 EXECUTE)\<rparr>"

definition bit_if :: "bool \<Rightarrow> u32 \<Rightarrow> u32" where
  "bit_if b m = (if b then m else 0)"

text \<open>The last two tests of the others are those of the owner.\<close>

definition PermissionsToModes :: "permissions \<Rightarrow> u32" where
  "PermissionsToModes p = fold or [bit_if (has (owners p) READ) 256, bit_if (has (owners p) WRITE) 128, bit_if (has (owners p) EXECUTE) 64,
     bit_if (has (groups p) READ) 32, bit_if (has (groups p) WRITE) 16, bit_if (has (groups p) EXECUTE) 8,
     bit_if (has (others p) READ) 4, bit_if (has (owners p) WRITE) 2, bit_if (has (owners p) EXECUTE) 1] 0"

definition rwx :: "u8 \<Rightarrow> bytes" where
  "rwx b = [if has b READ then chr CHR ''r'' else chr CHR ''-'', if has b WRITE then chr CHR ''w'' else chr CHR ''-'',
     if has b EXECUTE then chr CHR ''x'' else chr CHR ''-'']"

definition permissions_asString :: "permissions \<Rightarrow> bytes" where
  "permissions_asString p = rwx (owners p) @ rwx (groups p) @ rwx (others p)"

section \<open>The file system\<close>

datatype node = File u32 bytes | Dir u32 "(bytes \<times> node) list"

record fs =
  f_root :: node
  f_umask :: u32

fun split_path :: "bytes \<Rightarrow> bytes list" where
  "split_path [] = [[]]"
| "split_path (c # cs) = (if c = SEP then [] # split_path cs else (case split_path cs of [] \<Rightarrow> [[c]] | x # xs \<Rightarrow> (c # x) # xs))"

definition names :: "bytes \<Rightarrow> bytes list" where
  "names path = filter (\<lambda>n. n \<noteq> [] \<and> n \<noteq> [46]) (split_path path)"

fun lookup :: "bytes list \<Rightarrow> node \<Rightarrow> node option" where
  "lookup [] n = Some n"
| "lookup (x # xs) (Dir m es) = (case map_of es x of None \<Rightarrow> None | Some n \<Rightarrow> lookup xs n)"
| "lookup (x # xs) (File m d) = None"

definition put_entry :: "bytes \<Rightarrow> node option \<Rightarrow> (bytes \<times> node) list \<Rightarrow> (bytes \<times> node) list" where
  "put_entry x new es = (case new of None \<Rightarrow> filter (\<lambda>e. fst e \<noteq> x) es
     | Some n \<Rightarrow> if x \<in> fst ` set es then map (\<lambda>e. if fst e = x then (x, n) else e) es else es @ [(x, n)])"

fun put :: "bytes list \<Rightarrow> node option \<Rightarrow> node \<Rightarrow> node" where
  "put [] new n = n"
| "put (x # xs) new (File m d) = File m d"
| "put (x # xs) new (Dir m es) = Dir m (if xs = [] then put_entry x new es
     else map (\<lambda>e. if fst e = x then (x, put xs new (snd e)) else e) es)"

definition is_dir :: "bytes list \<Rightarrow> node \<Rightarrow> bool" where
  "is_dir xs n \<longleftrightarrow> (case lookup xs n of Some (Dir m es) \<Rightarrow> True | _ \<Rightarrow> False)"

section \<open>Calls of the operating system\<close>

definition os_lookup :: "bytes \<Rightarrow> fs \<Rightarrow> node option" where
  "os_lookup path s = (if path = [] then None else lookup (names path) (f_root s))"

definition os_add :: "bytes \<Rightarrow> node \<Rightarrow> fs \<Rightarrow> fs option" where
  "os_add path n s = (let xs = names path in
     if path = [] \<or> xs = [] \<or> lookup xs (f_root s) \<noteq> None \<or> \<not> is_dir (butlast xs) (f_root s) then None
     else Some (s\<lparr>f_root := put xs (Some n) (f_root s)\<rparr>))"

definition os_mkdir :: "bytes \<Rightarrow> u32 \<Rightarrow> fs \<Rightarrow> fs option" where
  "os_mkdir path modes s = os_add path (Dir (and modes (not (f_umask s))) []) s"

definition os_remove :: "bytes \<Rightarrow> fs \<Rightarrow> fs option" where
  "os_remove path s = (case os_lookup path s of None \<Rightarrow> None | Some n \<Rightarrow>
     if names path = [] \<or> (case n of Dir m es \<Rightarrow> es \<noteq> [] | File m d \<Rightarrow> False) then None
     else Some (s\<lparr>f_root := put (names path) None (f_root s)\<rparr>))"

text \<open>\<open>rename\<close> to a path that does not exist; a directory does not go into itself.\<close>

definition os_rename :: "bytes \<Rightarrow> bytes \<Rightarrow> fs \<Rightarrow> fs option" where
  "os_rename from_path to_path s = (case os_lookup from_path s of None \<Rightarrow> None | Some n \<Rightarrow>
     if names from_path = [] \<or> take (length (names from_path)) (names to_path) = names from_path then None
     else os_add to_path n (s\<lparr>f_root := put (names from_path) None (f_root s)\<rparr>))"

text \<open>\<open>fopen(path, "w")\<close> with all that is written.\<close>

definition os_write :: "bytes \<Rightarrow> bytes \<Rightarrow> fs \<Rightarrow> fs option" where
  "os_write path d s = (case os_lookup path s of None \<Rightarrow> os_add path (File (and 438 (not (f_umask s))) d) s
     | Some (File m d') \<Rightarrow> Some (s\<lparr>f_root := put (names path) (Some (File m d)) (f_root s)\<rparr>) | Some (Dir m es) \<Rightarrow> None)"

definition io_call :: "(fs \<Rightarrow> fs option) \<Rightarrow> (fs, unit) action" where
  "io_call f s = (case f s of None \<Rightarrow> (Inl (Thrown ''IOException''), s) | Some s \<Rightarrow> (Inr (), s))"

section \<open>Operations\<close>

definition Exists :: "bytes \<Rightarrow> fs \<Rightarrow> bool" where
  "Exists path s \<longleftrightarrow> os_lookup path s \<noteq> None"

definition IsFile :: "bytes \<Rightarrow> fs \<Rightarrow> bool" where
  "IsFile path s \<longleftrightarrow> (case os_lookup path s of Some (File m d) \<Rightarrow> True | _ \<Rightarrow> False)"

definition IsDir :: "bytes \<Rightarrow> fs \<Rightarrow> bool" where
  "IsDir path s \<longleftrightarrow> (case os_lookup path s of Some (Dir m es) \<Rightarrow> True | _ \<Rightarrow> False)"

definition GetPermissions :: "bytes \<Rightarrow> fs \<Rightarrow> permissions res" where
  "GetPermissions path s = (case os_lookup path s of None \<Rightarrow> Inl (Thrown ''FileNotFoundException'')
     | Some (File m d) \<Rightarrow> Inr (ModesToPermissions m) | Some (Dir m es) \<Rightarrow> Inr (ModesToPermissions m))"

definition default_permissions :: permissions where
  "default_permissions = \<lparr>owners = READ_WRITE_EXECUTE, groups = READ_WRITE_EXECUTE, others = 0\<rparr>"

definition make_one :: "bytes \<Rightarrow> permissions option \<Rightarrow> (fs, unit) action" where
  "make_one path perms s = (let modes = PermissionsToModes (case perms of None \<Rightarrow> default_permissions | Some p \<Rightarrow> p) in
     io_call (os_mkdir path modes) (s\<lparr>f_umask := 0\<rparr>))"

fun make_loop :: "nat \<Rightarrow> nat \<Rightarrow> bytes \<Rightarrow> permissions option \<Rightarrow> bytes \<Rightarrow> (fs, unit) action" where
  "make_loop 0 i path perms new_path s = (Inr (), s)"
| "make_loop (Suc n) i path perms new_path s = bindA (lift_res (t_section SEP True i path)) (\<lambda>x.
     let new_path = new_path @ x in
     bindA (\<lambda>s. if \<not> Exists new_path s then make_one new_path perms s else (Inr (), s)) (\<lambda>_.
     make_loop n (Suc i) path perms (new_path @ [SEP]))) s"

definition MakeDir :: "bytes \<Rightarrow> permissions option \<Rightarrow> bool \<Rightarrow> (fs, unit) action" where
  "MakeDir path perms recursive = (if recursive then
       (let (i, new_path) = (if path \<noteq> [] \<and> hd path = SEP then (1, [SEP]) else (0, [])) in
        make_loop (Suc (t_count SEP path) - i) i path perms new_path)
     else make_one path perms)"

fun each :: "('a \<Rightarrow> ('s, 'b) action) \<Rightarrow> 'a list \<Rightarrow> ('s, unit) action" where
  "each f [] s = (Inr (), s)"
| "each f (x # xs) s = bindA (f x) (\<lambda>_. each f xs) s"

definition readdir :: "bytes \<Rightarrow> fs \<Rightarrow> bytes list" where
  "readdir path s = (case os_lookup path s of Some (Dir m es) \<Rightarrow> map fst es | _ \<Rightarrow> [])"

text \<open>A level of a directory takes one unit of fuel. The result of the last \<open>remove\<close> is not looked at.\<close>

primrec Delete :: "nat \<Rightarrow> bytes \<Rightarrow> bool \<Rightarrow> (fs, u32) action" where
  "Delete 0 path recursive s = (Inl Out_Of_Fuel, s)"
| "Delete (Suc n) path recursive s = (if \<not> Exists path s then throwA ''FileNotFoundException'' s
     else if \<not> IsDir path s then bindA (io_call (os_remove path)) (\<lambda>_. returnA 1) s
     else if \<not> recursive \<and> readdir path s \<noteq> [] then throwA ''IOException'' s
     else bindA (each (\<lambda>child. Delete n (path @ [SEP] @ child) True) (readdir path s)) (\<lambda>_ s.
       (Inr 0, (case os_remove path s of None \<Rightarrow> s | Some s' \<Rightarrow> s'))) s)"

definition replace_or_fail :: "bytes \<Rightarrow> bool \<Rightarrow> (fs, unit) action" where
  "replace_or_fail to_path replace_existing s = (if Exists to_path s then
       (if replace_existing then bindA (Delete 1 to_path False) (\<lambda>_. returnA ()) s else throwA ''IOException'' s)
     else (Inr (), s))"

definition Move :: "bytes \<Rightarrow> bytes \<Rightarrow> bool \<Rightarrow> (fs, unit) action" where
  "Move from_path to_path replace_existing s = (if \<not> Exists from_path s then throwA ''FileNotFoundException'' s
     else bindA (replace_or_fail to_path replace_existing) (\<lambda>_. io_call (os_rename from_path to_path)) s)"

text \<open>A file that cannot be opened is a null pointer.\<close>

definition copy_file :: "bytes \<Rightarrow> bytes \<Rightarrow> (fs, unit) action" where
  "copy_file from_path to_path s = (case os_lookup from_path s of Some (File m d) \<Rightarrow>
       (case os_write to_path d s of None \<Rightarrow> (Inl Mem_Fault, s) | Some s \<Rightarrow> (Inr (), s))
     | _ \<Rightarrow> (Inl Mem_Fault, s))"

primrec Copy :: "nat \<Rightarrow> bytes \<Rightarrow> bytes \<Rightarrow> bool \<Rightarrow> (fs, unit) action" where
  "Copy 0 from_path to_path replace_existing s = (Inl Out_Of_Fuel, s)"
| "Copy (Suc n) from_path to_path replace_existing s = (if \<not> Exists from_path s then throwA ''FileNotFoundException'' s
     else bindA (replace_or_fail to_path replace_existing) (\<lambda>_ s.
       if IsDir from_path s then
         bindA (lift_res (GetPermissions from_path s)) (\<lambda>perms.
         bindA (make_one to_path (Some perms)) (\<lambda>_ s.
         each (\<lambda>child. Copy n (from_path @ [SEP] @ child) (to_path @ [SEP] @ child) False) (readdir from_path s) s)) s
       else if IsFile from_path s then copy_file from_path to_path s
       else (Inr (), s)) s)"

end
