(* ===== verification/Text_File.thy ===== *)
theory Text_File
  imports Fs
begin

text \<open>
  \<open>TextFile\<close> (src/fs/TextFile.cpp): reading lines and whole files, writing and appending. A file that is
  open for reading has the bytes of the file, the position and the end-of-file flag of the stream; the
  functions of stdio (\<open>fgets\<close>, \<open>fread\<close>) are written on it. \<open>tf_end\<close> is where a seek to the end arrives, which
  is 0 for the files of /proc. Directories are not opened.
\<close>

record text_file =
  tf_bytes :: bytes
  tf_pos :: nat
  tf_eof :: bool
  tf_end :: nat
  tf_data_size :: nat

abbreviation tf_rest :: "text_file \<Rightarrow> bytes" where
  "tf_rest f \<equiv> drop (tf_pos f) (tf_bytes f)"

section \<open>Functions of stdio\<close>

definition fread :: "nat \<Rightarrow> text_file \<Rightarrow> bytes \<times> text_file" where
  "fread n f = (let xs = take n (tf_rest f) in
     (xs, f\<lparr>tf_pos := tf_pos f + length xs, tf_eof := tf_eof f \<or> length xs < n\<rparr>))"

text \<open>At most \<open>n - 1\<close> characters, up to the end of a line; \<open>None\<close> is the null pointer.\<close>

definition line_end :: "bytes \<Rightarrow> bytes" where
  "line_end xs = takeWhile (\<lambda>x. x \<noteq> 10) xs @ take 1 (dropWhile (\<lambda>x. x \<noteq> 10) xs)"

definition fgets :: "nat \<Rightarrow> text_file \<Rightarrow> bytes option \<times> text_file" where
  "fgets n f = (if tf_rest f = [] then (None, f\<lparr>tf_eof := True\<rparr>) else
     (let xs = line_end (take (n - 1) (tf_rest f)) in
      (Some xs, f\<lparr>tf_pos := tf_pos f + length xs,
         tf_eof := tf_eof f \<or> length xs < n - 1 \<and> 10 \<notin> set xs\<rparr>)))"

section \<open>Reading\<close>

text \<open>\<open>allocatedSize()\<close> after \<open>resize(n)\<close>.\<close>

definition allocated :: "nat \<Rightarrow> nat" where
  "allocated n = (if n = 0 then 0 else (n div 16 + 1) * 16)"

definition tf_read_chr :: "text_file \<Rightarrow> u8 \<times> text_file" where
  "tf_read_chr f = (let (xs, f) = fread 1 f in (if tf_eof f then 0 else hd xs, f))"

definition tf_read :: "nat \<Rightarrow> text_file \<Rightarrow> bytes \<times> text_file" where
  "tf_read n = fread n"

text \<open>The line ends with its first NUL for \<open>strlen\<close>. A line of 1023 to 1038 characters goes on with
  the next one, also when its end has been read.\<close>

definition strip_eol :: "bytes \<Rightarrow> bytes" where
  "strip_eol xs = (let xs = (if xs \<noteq> [] \<and> last xs = 10 then butlast xs else xs) in
     if xs \<noteq> [] \<and> last xs = 13 then butlast xs else xs)"

lemma line_end_ne: "xs \<noteq> [] \<Longrightarrow> line_end xs \<noteq> []"
  by (cases xs) (auto simp: line_end_def)

lemma line_end_le: "length (line_end xs) \<le> length xs"
proof -
  have "length xs = length (takeWhile (\<lambda>x. x \<noteq> 10) xs) + length (dropWhile (\<lambda>x. x \<noteq> 10) xs)"
    by (metis length_append takeWhile_dropWhile_id)
  then show ?thesis by (simp add: line_end_def)
qed

lemma fgets_less:
  assumes "fgets n f = (Some xs, f')" "2 \<le> n"
  shows "length (tf_rest f') < length (tf_rest f)"
proof -
  let ?xs = "line_end (take (n - 1) (tf_rest f))"
  have ne: "tf_rest f \<noteq> []" using assms(1) by (auto simp: fgets_def split: if_splits)
  have "take (n - 1) (tf_rest f) \<noteq> []" using ne assms(2) unfolding take_eq_Nil by linarith
  then have "?xs \<noteq> []" by (rule line_end_ne)
  moreover have "tf_bytes f' = tf_bytes f" "tf_pos f' = tf_pos f + length ?xs"
    using assms(1) ne unfolding fgets_def Let_def by (auto simp del: drop_eq_Nil)
  then have "tf_rest f' = drop (length ?xs) (tf_rest f)" by (simp add: add.commute)
  ultimately show ?thesis using ne by (metis diff_less length_drop length_greater_0_conv)
qed

function tf_readLine :: "bool \<Rightarrow> text_file \<Rightarrow> bytes \<times> text_file" where
  "tf_readLine strip f = (case fgets (allocated 1024 - 1) f of (None, f) \<Rightarrow> ([], f)
     | (Some xs, f) \<Rightarrow> (let line = takeWhile (\<lambda>x. x \<noteq> 0) xs in
        if length line < 1023 then (if strip then strip_eol line else line, f)
        else (let (more, f) = tf_readLine strip f in (line @ more, f))))"
  by pat_completeness auto
termination
  by (relation "measure (\<lambda>(strip, f). length (tf_rest f))") (auto dest!: fgets_less [OF sym] simp: allocated_def)

declare tf_readLine.simps [simp del]

definition tf_rewind :: "text_file \<Rightarrow> text_file" where
  "tf_rewind f = f\<lparr>tf_pos := 0, tf_eof := False\<rparr>"

text \<open>The size is asked for until it is not 0.\<close>

definition tf_size :: "text_file \<Rightarrow> nat \<times> text_file" where
  "tf_size f = (let f = (if tf_data_size f = 0 then f\<lparr>tf_eof := False, tf_data_size := tf_end f\<rparr> else f) in (tf_data_size f, f))"

lemma allocated_gt: "0 < n \<Longrightarrow> n < allocated n"
  unfolding allocated_def by presburger

function tf_readAll_loop :: "bytes \<Rightarrow> text_file \<Rightarrow> bytes \<times> text_file" where
  "tf_readAll_loop buf f = (if tf_eof f then (buf, f) else
     (let current_size = length buf;
          (xs, f) = fread (allocated (allocated current_size + 256) - current_size) f in
      tf_readAll_loop (buf @ xs) f))"
  by pat_completeness auto
termination
proof (relation "measure (\<lambda>(buf, f). 2 * length (tf_rest f) + (if tf_eof f then 0 else 1))", goal_cases)
  case (2 buf f n p xs f')
  let ?k = "allocated (allocated n + 256) - n"
  have "n \<le> allocated n" using allocated_gt [of n] by (cases "n = 0") auto
  then have k: "0 < ?k" using allocated_gt [of "allocated n + 256"] by simp
  have e: "xs = take ?k (tf_rest f)" "tf_rest f' = drop (length xs) (tf_rest f)" "tf_eof f' \<longleftrightarrow> tf_eof f \<or> length xs < ?k"
    using 2(3,4) by (auto simp: fread_def Let_def add.commute)
  show ?case
  proof (cases "xs = []")
    case True
    then show ?thesis using e k 2(1) by simp
  next
    case False
    moreover have "tf_rest f \<noteq> []" using e(1) False by auto
    ultimately have "length (tf_rest f') < length (tf_rest f)" unfolding e(2) by (metis diff_less length_drop length_greater_0_conv)
    then show ?thesis by simp
  qed
qed simp

declare tf_readAll_loop.simps [simp del]

definition tf_readAll :: "text_file \<Rightarrow> bytes \<times> text_file" where
  "tf_readAll f = (let (n, f) = tf_size (tf_rewind f) in
     if 0 < n then fread (allocated n) f
     else (let (xs, f) = fread (allocated 256) f in tf_readAll_loop xs f))"

section \<open>Files by name\<close>

text \<open>The exception of \<open>_openFile\<close>: \<open>ENOENT\<close>, or \<open>ENOTDIR\<close> and \<open>EISDIR\<close>.\<close>

definition open_error :: "bytes \<Rightarrow> fs \<Rightarrow> error" where
  "open_error path s = (if path \<noteq> [] \<and> (IsDir path s
       \<or> list_ex (\<lambda>i. case lookup (take i (names path)) (f_root s) of Some (File m d) \<Rightarrow> True | _ \<Rightarrow> False) [0..<length (names path)])
     then Thrown ''IOException'' else Thrown ''FileNotFoundException'')"

definition stream_on :: "bytes \<Rightarrow> text_file" where
  "stream_on d = \<lparr>tf_bytes = d, tf_pos = 0, tf_eof = False, tf_end = length d, tf_data_size = 0\<rparr>"

definition open_reading :: "bytes \<Rightarrow> fs \<Rightarrow> text_file res" where
  "open_reading path s = (case os_lookup path s of Some (File m d) \<Rightarrow> Inr (stream_on d)
     | Some (Dir m es) \<Rightarrow> Inl Out_Of_Fuel | None \<Rightarrow> Inl (open_error path s))"

definition open_writing :: "bytes \<Rightarrow> bytes \<Rightarrow> (fs, unit) action" where
  "open_writing path d s = (case os_write path d s of None \<Rightarrow> (Inl (open_error path s), s) | Some s \<Rightarrow> (Inr (), s))"

definition WriteTextFile :: "bytes \<Rightarrow> bytes \<Rightarrow> bool \<Rightarrow> (fs, unit) action" where
  "WriteTextFile path txt overwrite s = (if \<not> overwrite \<and> Exists path s then throwA ''IOException'' s else open_writing path txt s)"

definition AppendToTextFile :: "bytes \<Rightarrow> bytes \<Rightarrow> (fs, unit) action" where
  "AppendToTextFile path txt s = open_writing path ((case os_lookup path s of Some (File m d) \<Rightarrow> d | _ \<Rightarrow> []) @ txt) s"

definition Cat :: "bytes \<Rightarrow> fs \<Rightarrow> bytes res" where
  "Cat path s = bindR (open_reading path s) (\<lambda>f. Inr (fst (tf_readAll f)))"

end
