(* ===== verification/Fs_Props.thy ===== *)
theory Fs_Props
  imports Fs "HOL-Library.Sublist"
begin

text \<open>What the operations of \<open>FS\<close> do to the tree, and where they lose it.\<close>

section \<open>The tree\<close>

lemma map_untouched: "x \<notin> fst ` set es \<Longrightarrow> map (\<lambda>e. if fst e = x then f e else e) es = es"
  by (induction es) auto

lemma filter_touched: "(\<And>e. fst e = x \<Longrightarrow> fst (f e) = x) \<Longrightarrow>
  filter (\<lambda>e. fst e \<noteq> x) (map (\<lambda>e. if fst e = x then f e else e) es) = filter (\<lambda>e. fst e \<noteq> x) es"
  by (induction es) auto

lemma filter_put_entry: "filter (\<lambda>e. fst e \<noteq> x) (put_entry x new es) = filter (\<lambda>e. fst e \<noteq> x) es"
  by (cases new) (simp_all add: put_entry_def filter_touched)

lemma put_below: "p \<noteq> [] \<Longrightarrow> r \<noteq> [] \<Longrightarrow> put (p @ r) new (put p (Some nd) n) = put p (Some (put r new nd)) n"
proof (induction p arbitrary: n)
  case (Cons x p)
  show ?case
  proof (cases n)
    case (Dir m es)
    show ?thesis
    proof (cases "p = []")
      case True
      have "map (\<lambda>e. if fst e = x then (x, put r new (snd e)) else e) (put_entry x (Some nd) es) = put_entry x (Some (put r new nd)) es"
        by (simp add: put_entry_def map_untouched comp_def if_distrib cong: if_cong)
      then show ?thesis using Dir True Cons.prems(2) by simp
    next
      case False
      then show ?thesis using Dir Cons.IH [OF False Cons.prems(2)] by (simp cong: if_cong)
    qed
  qed simp
qed simp

lemma put_gone: "p \<noteq> [] \<Longrightarrow> put p None (put (p @ r) new n) = put p None n"
proof (induction p arbitrary: n)
  case (Cons x p)
  show ?case
  proof (cases n)
    case (Dir m es)
    show ?thesis
    proof (cases "p = []")
      case True
      have "filter (\<lambda>e. fst e \<noteq> x) (if r = [] then put_entry x new es else map (\<lambda>e. if fst e = x then (x, put r new (snd e)) else e) es)
          = filter (\<lambda>e. fst e \<noteq> x) es"
        by (simp add: filter_put_entry filter_touched)
      then show ?thesis using Dir True by (simp add: put_entry_def)
    next
      case False
      then show ?thesis using Dir Cons.IH [OF False] by (simp cong: if_cong)
    qed
  qed simp
qed simp

lemma map_of_change: "map_of (map (\<lambda>e. if fst e = x then (x, f (snd e)) else e) es) y = (if y = x then map_option f (map_of es x) else map_of es y)"
  by (induction es) auto

lemma map_of_put_entry: "map_of (put_entry x new es) y = (if y = x then new else map_of es y)"
proof (cases new)
  case None
  then show ?thesis by (induction es) (auto simp: put_entry_def)
next
  case (Some n)
  show ?thesis
  proof (cases "x \<in> fst ` set es")
    case True
    then obtain nd where "map_of es x = Some nd" by (metis map_of_eq_None_iff not_Some_eq)
    then show ?thesis using Some True map_of_change [of x "\<lambda>_. n" es y] by (simp add: put_entry_def)
  next
    case False
    then have "map_of es x = None" by (simp add: map_of_eq_None_iff)
    then show ?thesis using Some False by (simp add: put_entry_def map_add_def split: option.split)
  qed
qed

text \<open>The tree as a map from paths to what a node has besides its entries.\<close>

fun kind :: "node \<Rightarrow> u32 \<times> bytes option" where
  "kind (File m d) = (m, Some d)"
| "kind (Dir m es) = (m, None)"

definition kinds :: "node \<Rightarrow> bytes list \<Rightarrow> (u32 \<times> bytes option) option" where
  "kinds n q = map_option kind (lookup q n)"

lemma kinds_put:
  "p \<noteq> [] \<Longrightarrow> is_dir (butlast p) n \<Longrightarrow> kinds (put p new n) q =
    (if prefix p q then (case new of None \<Rightarrow> None | Some nd \<Rightarrow> kinds nd (drop (length p) q)) else kinds n q)"
proof (induction p arbitrary: n q)
  case (Cons x p)
  obtain m es where n: "n = Dir m es" using Cons.prems(2) by (cases n; cases p) (auto simp: is_dir_def)
  show ?case
  proof (cases q)
    case (Cons y ys)
    show ?thesis
    proof (cases "p = []")
      case True
      then show ?thesis using n Cons by (auto simp: kinds_def map_of_put_entry split: option.splits)
    next
      case False
      then have d: "is_dir (x # butlast p) n" using Cons.prems(2) by simp
      then obtain nd where nd: "map_of es x = Some nd" "is_dir (butlast p) nd" using n by (auto simp: is_dir_def split: option.splits)
      show ?thesis using Cons.IH [OF False nd(2), of ys] n Cons False nd(1) by (cases new; cases "prefix p ys"; cases "y = x") (simp_all add: kinds_def map_of_change)
    qed
  qed (use n in \<open>simp add: kinds_def\<close>)
qed simp

lemma lookup_put_other: "\<not> prefix p q \<Longrightarrow> \<not> prefix q p \<Longrightarrow> lookup q (put p new n) = lookup q n"
proof (induction p arbitrary: n q)
  case (Cons x p)
  obtain y ys where q: "q = y # ys" using Cons.prems(2) by (cases q) auto
  show ?case
  proof (cases n)
    case (Dir m es)
    show ?thesis
    proof (cases "y = x")
      case True
      then have "p \<noteq> []" "\<not> prefix p ys" "\<not> prefix ys p" using Cons.prems q by auto
      then show ?thesis using Cons.IH [of ys] Dir q True by (cases "map_of es x") (simp_all add: map_of_change)
    qed (use Dir q in \<open>simp add: map_of_put_entry map_of_change\<close>)
  qed (simp add: q)
qed simp

lemma lookup_put_inside: "r \<noteq> [] \<Longrightarrow> lookup p (put (p @ r) new n) = map_option (put r new) (lookup p n)"
proof (induction p arbitrary: n)
  case (Cons x p)
  then show ?case by (cases n) (auto simp: map_of_change split: option.splits)
qed simp

lemma lookup_append: "lookup (p @ q) n = (case lookup p n of None \<Rightarrow> None | Some nd \<Rightarrow> lookup q nd)"
  by (induction p n rule: lookup.induct) (auto split: option.splits)

section \<open>Paths\<close>

definition file_name :: "bytes \<Rightarrow> bool" where
  "file_name x \<longleftrightarrow> x \<noteq> [] \<and> x \<noteq> [46] \<and> SEP \<notin> set x"

lemma split_path_ne: "split_path p \<noteq> []"
  by (induction p) (auto split: list.splits)

lemma split_path_append: "split_path (p @ SEP # q) = split_path p @ split_path q"
proof (induction p)
  case (Cons c p)
  then show ?case using split_path_ne [of p] by (cases "split_path p") auto
qed simp

lemma split_path_name: "SEP \<notin> set x \<Longrightarrow> split_path x = [x]"
  by (induction x) auto

lemma names_append: "names (p @ SEP # q) = names p @ names q"
  by (simp add: names_def split_path_append)

lemma names_name: "file_name x \<Longrightarrow> names x = [x]"
  by (simp add: names_def file_name_def split_path_name)

lemma names_child: "file_name x \<Longrightarrow> names (p @ SEP # x) = names p @ [x]"
  by (simp add: names_append names_name)

lemma t_rfind_last: "c \<notin> set x \<Longrightarrow> t_rfind c (d @ c # x) = int (length d)"
proof -
  assume "c \<notin> set x"
  then have "takeWhile (\<lambda>y. y \<noteq> c) (rev x @ c # rev d) = rev x" by (subst takeWhile_append2) auto
  then show ?thesis by (simp add: t_rfind_def)
qed

text \<open>A path is cut into the directory and the name, if the directory is not the root.\<close>

lemma path_parts:
  assumes "file_name x" "92 \<notin> set (d @ x)" "d \<noteq> []" "length (d @ SEP # x) < 2 ^ 31"
  shows "GetDirName (d @ SEP # x) = Inr d" "GetFileName (d @ SEP # x) = Inr x"
proof -
  have c: "t_count 92 (d @ SEP # x) = 0" "t_count SEP (d @ SEP # x) \<noteq> 0" using assms(2) by (auto simp: t_count_def filter_empty_conv SEP_def)
  have r: "t_rfind SEP (d @ SEP # x) = int (length d)" using assms(1) by (intro t_rfind_last) (simp add: file_name_def)
  have "t_mid (int 0) (int (length d)) (d @ SEP # x) = Inr d" by (rule mid_at [where zs = "SEP # x"]) (use assms in simp_all)
  then show "GetDirName (d @ SEP # x) = Inr d" using c r by (simp add: GetDirName_def)
  have "t_mid (int (Suc (length d))) (int (length x)) (d @ SEP # x) = Inr x"
    by (rule mid_at [where zs = "[]"]) (use assms in \<open>simp_all add: file_name_def\<close>)
  then show "GetFileName (d @ SEP # x) = Inr x" using c r by (simp add: GetFileName_def t_from_def add.commute)
qed

section \<open>Deleting\<close>

fun node_ok :: "node \<Rightarrow> bool" where
  "node_ok (File m d) = True"
| "node_ok (Dir m es) = (distinct (map fst es) \<and> (\<forall>e \<in> set es. file_name (fst e) \<and> node_ok (snd e)))"

lemma entry_size: "(x, n) \<in> set es \<Longrightarrow> size n < size (Dir m es)"
  by (induction es) auto

lemma lookup_ok: "lookup q n = Some nd \<Longrightarrow> node_ok n \<Longrightarrow> node_ok nd"
  by (induction q n rule: lookup.induct) (auto split: option.splits dest!: map_of_SomeD)

lemma os_lookup_child:
  "os_lookup p s = Some nd \<Longrightarrow> file_name x \<Longrightarrow> os_lookup (p @ SEP # x) s' = lookup (names p @ [x]) (f_root s')"
  by (simp add: os_lookup_def names_child)

text \<open>Deleting the entries of a directory, one after the other.\<close>

lemma delete_entries:
  assumes "\<And>x s'. x \<in> set xs \<Longrightarrow> lookup (p @ [x]) (f_root s') = lookup (p @ [x]) (f_root s) \<Longrightarrow>
      \<exists>c. f x s' = (Inr c, s'\<lparr>f_root := put (p @ [x]) None (f_root s')\<rparr>)"
    and "distinct xs"
  shows "each f xs s = (Inr (), s\<lparr>f_root := fold (\<lambda>x. put (p @ [x]) None) xs (f_root s)\<rparr>)"
  using assms
proof (induction xs arbitrary: s)
  case (Cons x xs)
  define s1 where "s1 = s\<lparr>f_root := put (p @ [x]) None (f_root s)\<rparr>"
  obtain c where c: "f x s = (Inr c, s1)" using Cons.prems(1) [of x s] by (auto simp: s1_def)
  have "lookup (p @ [y]) (f_root s1) = lookup (p @ [y]) (f_root s)" if "y \<in> set xs" for y
    unfolding s1_def using that Cons.prems(2) by (auto intro!: lookup_put_other)
  then have "each f xs s1 = (Inr (), s1\<lparr>f_root := fold (\<lambda>x. put (p @ [x]) None) xs (f_root s1)\<rparr>)"
    using Cons.prems by (intro Cons.IH) auto
  then show ?case using c by (simp add: s1_def)
qed simp

lemma emptied:
  "lookup p n = Some (Dir m es) \<Longrightarrow> lookup p (fold (\<lambda>x. put (p @ [x]) None) xs n) = Some (Dir m (filter (\<lambda>e. fst e \<notin> set xs) es))"
proof (induction xs arbitrary: n es)
  case (Cons x xs)
  have "lookup p (put (p @ [x]) None n) = Some (Dir m (filter (\<lambda>e. fst e \<noteq> x) es))"
    using Cons.prems by (simp add: lookup_put_inside put_entry_def)
  from Cons.IH [OF this] show ?case by (simp add: conj_commute)
qed simp

lemma delete_emptied: "p \<noteq> [] \<Longrightarrow> put p None (fold (\<lambda>x. put (p @ [x]) None) xs n) = put p None n"
  by (induction xs arbitrary: n) (simp_all add: put_gone)

lemma Delete_ok:
  "os_lookup p s = Some nd \<Longrightarrow> names p \<noteq> [] \<Longrightarrow> node_ok nd \<Longrightarrow> size nd < n \<Longrightarrow>
   Delete n p True s = (Inr (case nd of File m d \<Rightarrow> 1 | Dir m es \<Rightarrow> 0), s\<lparr>f_root := put (names p) None (f_root s)\<rparr>)"
proof (induction n arbitrary: p nd s)
  case (Suc n)
  show ?case
  proof (cases nd)
    case (File m d)
    then show ?thesis using Suc.prems by (simp add: Exists_def IsDir_def os_remove_def io_call_def returnA_def)
  next
    case (Dir m es)
    have look: "lookup (names p) (f_root s) = Some (Dir m es)" "p \<noteq> []" using Suc.prems(1) Dir by (auto simp: os_lookup_def split: if_splits)
    have ok: "distinct (map fst es)" "\<forall>e \<in> set es. file_name (fst e) \<and> node_ok (snd e)"
      using Suc.prems(3) Dir by simp_all
    let ?f = "\<lambda>x. Delete n (p @ [SEP] @ x) True"
    have "\<exists>c. ?f x s' = (Inr c, s'\<lparr>f_root := put (names p @ [x]) None (f_root s')\<rparr>)"
      if x: "x \<in> set (map fst es)" and l: "lookup (names p @ [x]) (f_root s') = lookup (names p @ [x]) (f_root s)" for x s'
    proof -
      obtain k where k: "(x, k) \<in> set es" "map_of es x = Some k" using x ok(1) by auto
      then have xk: "file_name x" "node_ok k" "size k < n" using ok(2) entry_size [of x k es m] Suc.prems(4) Dir by auto
      have c: "names (p @ SEP # x) = names p @ [x]" by (rule names_child [OF xk(1)])
      have "os_lookup (p @ SEP # x) s' = Some k" using l k(2) look(1) by (simp add: os_lookup_def c lookup_append)
      then show ?thesis using Suc.IH [of "p @ SEP # x" s' k] xk c by simp
    qed
    then have e: "each ?f (map fst es) s = (Inr (), s\<lparr>f_root := fold (\<lambda>x. put (names p @ [x]) None) (map fst es) (f_root s)\<rparr>)"
      using ok(1) by (intro delete_entries) auto
    have "lookup (names p) (fold (\<lambda>x. put (names p @ [x]) None) (map fst es) (f_root s)) = Some (Dir m (filter (\<lambda>e. fst e \<notin> set (map fst es)) es))"
      by (rule emptied [OF look(1)])
    moreover have "filter (\<lambda>e. fst e \<notin> set (map fst es)) es = []" by (auto simp: filter_empty_conv)
    ultimately have "os_remove p (s\<lparr>f_root := fold (\<lambda>x. put (names p @ [x]) None) (map fst es) (f_root s)\<rparr>)
        = Some (s\<lparr>f_root := put (names p) None (f_root s)\<rparr>)"
      using look(2) Suc.prems(2) by (simp add: os_remove_def os_lookup_def delete_emptied)
    then show ?thesis using e Suc.prems(1) Dir by (simp add: Exists_def IsDir_def readdir_def)
  qed
qed simp

section \<open>Copying\<close>

text \<open>The copy of a tree: a file has the mode of a new file, a directory the mode that the permissions of the
  old one are turned into.\<close>

definition copied_mode :: "u32 \<Rightarrow> u32" where
  "copied_mode m = PermissionsToModes (ModesToPermissions m)"

fun copied :: "u32 \<Rightarrow> node \<Rightarrow> node" where
  "copied umask (File m d) = File (and 438 (not umask)) d"
| "copied umask (Dir m es) = Dir (copied_mode m) (map (\<lambda>(x, n). (x, copied 0 n)) es)"

definition umask_after :: "node \<Rightarrow> u32 \<Rightarrow> u32" where
  "umask_after n u = (case n of File m d \<Rightarrow> u | Dir m es \<Rightarrow> 0)"

lemma lookup_put_same: "p \<noteq> [] \<Longrightarrow> is_dir (butlast p) n \<Longrightarrow> lookup p (put p (Some nd) n) = Some nd"
proof (induction p arbitrary: n)
  case (Cons x p)
  obtain m es where n: "n = Dir m es" using Cons.prems(2) by (cases n; cases p) (auto simp: is_dir_def)
  show ?case
  proof (cases "p = []")
    case False
    then have "is_dir (x # butlast p) n" using Cons.prems(2) by simp
    then obtain k where "map_of es x = Some k" "is_dir (butlast p) k" using n by (auto simp: is_dir_def split: option.splits)
    then show ?thesis using Cons.IH [OF False] n False by (simp add: map_of_change)
  qed (simp add: n map_of_put_entry)
qed simp

lemma prefix_exists: "prefix p q \<Longrightarrow> lookup q n \<noteq> None \<Longrightarrow> lookup p n \<noteq> None"
  by (auto simp: prefix_def lookup_append split: option.splits)

lemma os_add_ok: "path \<noteq> [] \<Longrightarrow> names path \<noteq> [] \<Longrightarrow> lookup (names path) (f_root s) = None \<Longrightarrow> is_dir (butlast (names path)) (f_root s) \<Longrightarrow>
  os_add path n s = Some (s\<lparr>f_root := put (names path) (Some n) (f_root s)\<rparr>)"
  by (simp add: os_add_def Let_def)

lemma make_one_ok:
  assumes "path \<noteq> []" "names path \<noteq> []" "lookup (names path) (f_root s) = None" "is_dir (butlast (names path)) (f_root s)"
  shows "make_one path perms s = (Inr (), s\<lparr>f_umask := 0,
    f_root := put (names path) (Some (Dir (PermissionsToModes (case perms of None \<Rightarrow> default_permissions | Some p \<Rightarrow> p)) [])) (f_root s)\<rparr>)"
  using assms os_add_ok [of path "s\<lparr>f_umask := 0\<rparr>"] by (simp add: make_one_def io_call_def os_mkdir_def Let_def)

lemma copy_entries:
  assumes "to \<noteq> []"
    and "\<And>x k ds. (x, k) \<in> set es \<Longrightarrow> x \<notin> fst ` set ds \<Longrightarrow>
      f x (s\<lparr>f_root := put to (Some (Dir m ds)) r\<rparr>) = (Inr (), s\<lparr>f_root := put (to @ [x]) (Some (g k)) (put to (Some (Dir m ds)) r)\<rparr>)"
    and "distinct (map fst (ds @ es))"
  shows "each f (map fst es) (s\<lparr>f_root := put to (Some (Dir m ds)) r\<rparr>)
    = (Inr (), s\<lparr>f_root := put to (Some (Dir m (ds @ map (\<lambda>(x, n). (x, g n)) es))) r\<rparr>)"
  using assms(2,3)
proof (induction es arbitrary: ds)
  case (Cons e es)
  obtain x k where e: "e = (x, k)" by (cases e)
  have x: "x \<notin> fst ` set ds" using Cons.prems(2) e by auto
  have "put (to @ [x]) (Some (g k)) (put to (Some (Dir m ds)) r) = put to (Some (Dir m (ds @ [(x, g k)]))) r"
    using x assms(1) by (simp add: put_below put_entry_def)
  then have "f x (s\<lparr>f_root := put to (Some (Dir m ds)) r\<rparr>) = (Inr (), s\<lparr>f_root := put to (Some (Dir m (ds @ [(x, g k)]))) r\<rparr>)"
    using Cons.prems(1) [of x k ds] x e by simp
  moreover have "each f (map fst es) (s\<lparr>f_root := put to (Some (Dir m (ds @ [(x, g k)]))) r\<rparr>)
      = (Inr (), s\<lparr>f_root := put to (Some (Dir m ((ds @ [(x, g k)]) @ map (\<lambda>(x, n). (x, g n)) es))) r\<rparr>)"
    by (rule Cons.IH) (use Cons.prems e in auto)
  ultimately show ?case using e by simp
qed simp

lemma Copy_ok:
  "os_lookup from_path s = Some nd \<Longrightarrow> node_ok nd \<Longrightarrow> size nd < n \<Longrightarrow> to_path \<noteq> [] \<Longrightarrow> names to_path \<noteq> [] \<Longrightarrow>
   lookup (names to_path) (f_root s) = None \<Longrightarrow> is_dir (butlast (names to_path)) (f_root s) \<Longrightarrow> \<not> prefix (names from_path) (names to_path) \<Longrightarrow>
   Copy n from_path to_path replace s = (Inr (), s\<lparr>f_umask := umask_after nd (f_umask s),
     f_root := put (names to_path) (Some (copied (f_umask s) nd)) (f_root s)\<rparr>)"
proof (induction n arbitrary: from_path to_path nd s replace)
  case (Suc n)
  let ?from = "names from_path" and ?to = "names to_path"
  have gone: "os_lookup to_path s = None" using Suc.prems(6) by (simp add: os_lookup_def)
  have rep: "replace_or_fail to_path replace s = (Inr (), s)" by (simp add: replace_or_fail_def Exists_def gone)
  show ?case
  proof (cases nd)
    case (File m d)
    then show ?thesis using Suc.prems rep gone os_add_ok [OF Suc.prems(4-7)]
      by (simp add: Exists_def IsDir_def IsFile_def copy_file_def os_write_def umask_after_def)
  next
    case (Dir m es)
    have look: "lookup ?from (f_root s) = Some (Dir m es)" "from_path \<noteq> []" using Suc.prems(1) Dir by (auto simp: os_lookup_def split: if_splits)
    have ok: "distinct (map fst es)" "\<forall>e \<in> set es. file_name (fst e) \<and> node_ok (snd e)" using Suc.prems(2) Dir by simp_all
    let ?s = "s\<lparr>f_umask := 0\<rparr>"
    let ?at = "\<lambda>ds. ?s\<lparr>f_root := put ?to (Some (Dir (copied_mode m) ds)) (f_root s)\<rparr>"
    let ?f = "\<lambda>x. Copy n (from_path @ [SEP] @ x) (to_path @ [SEP] @ x) False"
    have made: "make_one to_path (Some (ModesToPermissions m)) s = (Inr (), ?at [])"
      using make_one_ok [OF Suc.prems(4-7)] by (simp add: copied_mode_def)
    have apart: "lookup q (f_root (?at ds)) = lookup q (f_root s)" if "prefix ?from q" "lookup q (f_root s) \<noteq> None" for q ds
    proof -
      have "\<not> prefix ?to q" using prefix_exists [of ?to q] that(2) Suc.prems(6) by blast
      moreover have "\<not> prefix q ?to" using that(1) Suc.prems(8) by (meson prefix_order.trans)
      ultimately show ?thesis by (simp add: lookup_put_other)
    qed
    have child: "?f x (?at ds) = (Inr (), ?s\<lparr>f_root := put (?to @ [x]) (Some (copied 0 k)) (put ?to (Some (Dir (copied_mode m) ds)) (f_root s))\<rparr>)"
      if k: "(x, k) \<in> set es" and new: "x \<notin> fst ` set ds" for x k ds
    proof -
      have m: "map_of es x = Some k" using k ok(1) by simp
      have xk: "file_name x" "node_ok k" "size k < n" using ok(2) k entry_size [OF k, of m] Suc.prems(3) Dir by auto
      have c: "names (from_path @ SEP # x) = ?from @ [x]" "names (to_path @ SEP # x) = ?to @ [x]" using names_child [OF xk(1)] by simp_all
      have "lookup (?from @ [x]) (f_root s) = Some k" using look(1) m by (simp add: lookup_append)
      then have l: "os_lookup (from_path @ SEP # x) (?at ds) = Some k" using apart [of "?from @ [x]" ds] by (simp add: os_lookup_def c)
      have t: "lookup ?to (f_root (?at ds)) = Some (Dir (copied_mode m) ds)" using lookup_put_same [OF Suc.prems(5,7)] by simp
      have "map_of ds x = None" using new by (simp add: map_of_eq_None_iff)
      then have none: "lookup (?to @ [x]) (f_root (?at ds)) = None" using t by (simp add: lookup_append)
      have dir: "is_dir (butlast (?to @ [x])) (f_root (?at ds))" using t by (simp add: is_dir_def)
      have np: "\<not> prefix (?from @ [x]) (?to @ [x])"
      proof
        assume "prefix (?from @ [x]) (?to @ [x])"
        then have "?from @ [x] = ?to @ [x] \<or> prefix (?from @ [x]) ?to" by simp
        then show False using Suc.prems(8) by (auto dest: append_prefixD)
      qed
      have u: "umask_after k 0 = 0" by (simp add: umask_after_def split: node.split)
      show ?thesis
        using Suc.IH [of "from_path @ SEP # x" "?at ds" k "to_path @ SEP # x" False] l xk c none dir np u by simp
    qed
    have "each ?f (map fst es) (?at []) = (Inr (), ?at ([] @ map (\<lambda>(x, n). (x, copied 0 n)) es))"
      by (rule copy_entries [OF Suc.prems(5) child]) (use ok(1) in simp_all)
    moreover have "readdir from_path (?at []) = map fst es"
      using apart [of ?from "[]"] look by (simp add: readdir_def os_lookup_def)
    moreover have "GetPermissions from_path s = Inr (ModesToPermissions m)" using Suc.prems(1) Dir by (simp add: GetPermissions_def)
    ultimately show ?thesis
      using Suc.prems(1) Dir rep made by (simp add: Exists_def IsDir_def umask_after_def)
  qed
qed simp

section \<open>Making directories\<close>

definition join_path :: "bytes list \<Rightarrow> bytes" where
  "join_path ns = tl (concat (map (\<lambda>x. SEP # x) ns))"

lemma section_fields:
  "drop start X = x @ concat (map (\<lambda>y. SEP # y) ys) \<Longrightarrow> \<forall>y \<in> set (x # ys). y \<noteq> [] \<and> SEP \<notin> set y \<Longrightarrow> i < length (x # ys) \<Longrightarrow>
   length X < 2 ^ 31 \<Longrightarrow> t_section_from SEP True i start X = Inr ((x # ys) ! i)"
proof (induction i arbitrary: start x ys)
  case 0
  have l: "start + length x \<le> length X" using arg_cong [OF 0(1), of length] 0(2) by (cases "start \<le> length X") auto
  show ?case
  proof (cases ys)
    case Nil
    then have "t_find SEP (int start) X = Inr (- 1)" using 0 l by (intro t_find_simps(1)) simp_all
    moreover have "length X = start + length x" using arg_cong [OF 0(1), of length] Nil l by simp
    then have "t_mid (int start) (int (length X) - int start) X = Inr x"
      using mid_at [of start X x "[]" "int (length X) - int start"] 0 Nil by simp
    ultimately show ?thesis by (subst t_section_from.simps) simp
  next
    case (Cons y zs)
    then have "t_find SEP (int start) X = Inr (int (start + length x))" using find_at [of start X x] 0(1,2) by simp
    moreover have "t_mid (int start) (int (length x)) X = Inr x" using mid_at [OF 0(1)] 0(2,4) by simp
    ultimately show ?thesis by (subst t_section_from.simps) simp
  qed
next
  case (Suc i)
  then obtain y zs where ys: "ys = y # zs" by (cases ys) auto
  have f: "t_find SEP (int start) X = Inr (int (start + length x))" using find_at [of start X x] Suc.prems(1,2) ys by simp
  have "drop (start + length x) X = concat (map (\<lambda>y. SEP # y) ys)" by (rule drop_more [OF Suc.prems(1)])
  then have "drop (Suc (start + length x)) X = y @ concat (map (\<lambda>y. SEP # y) zs)" using ys by (simp add: drop_Suc drop_tl)
  then have "t_section_from SEP True i (Suc (start + length x)) X = Inr ((y # zs) ! i)"
    by (rule Suc.IH) (use Suc.prems(2-4) ys in auto)
  then show ?case using f ys by (subst t_section_from.simps) (simp add: nat_add_distrib)
qed

lemma is_dir_kinds: "is_dir q n \<longleftrightarrow> (\<exists>m. kinds n q = Some (m, None))"
proof (cases "lookup q n")
  case (Some nd)
  then show ?thesis by (cases nd) (simp_all add: is_dir_def kinds_def)
qed (simp add: is_dir_def kinds_def)

lemma make_loop_ok:
  "(\<And>k. k < length rest \<Longrightarrow> t_section SEP True (i + k) path = Inr (rest ! k)) \<Longrightarrow> \<forall>x \<in> set rest. file_name x \<Longrightarrow>
   (\<And>x. file_name x \<Longrightarrow> names (new_path @ x) = ds @ [x]) \<Longrightarrow>
   is_dir ds (f_root s) \<Longrightarrow> (\<And>q. strict_prefix ds q \<Longrightarrow> strict_prefix q (ds @ rest) \<Longrightarrow> lookup q (f_root s) \<noteq> None \<Longrightarrow> is_dir q (f_root s)) \<Longrightarrow>
   \<exists>s'. make_loop (length rest) i path perms new_path s = (Inr (), s') \<and> (\<forall>q. kinds (f_root s') q =
     (if kinds (f_root s) q = None \<and> prefix q (ds @ rest) then Some (PermissionsToModes (case perms of None \<Rightarrow> default_permissions | Some p \<Rightarrow> p), None)
      else kinds (f_root s) q))"
proof (induction rest arbitrary: i new_path ds s)
  case Nil
  have "lookup q (f_root s) \<noteq> None" if "prefix q ds" for q
    using prefix_exists [OF that] Nil.prems(4) by (auto simp: is_dir_def split: option.splits)
  then show ?case by (auto simp: kinds_def)
next
  case (Cons x rest)
  let ?m = "PermissionsToModes (case perms of None \<Rightarrow> default_permissions | Some p \<Rightarrow> p)"
  have x: "file_name x" "t_section SEP True i path = Inr x" using Cons.prems(1) [of 0] Cons.prems(2) by simp_all
  have n: "names (new_path @ x) = ds @ [x]" "new_path @ x \<noteq> []" using Cons.prems(3) [OF x(1)] x(1) by (auto simp: file_name_def)
  define s1 where "s1 = (if lookup (ds @ [x]) (f_root s) = None
    then s\<lparr>f_umask := 0, f_root := put (ds @ [x]) (Some (Dir ?m [])) (f_root s)\<rparr> else s)"
  have step: "(if \<not> Exists (new_path @ x) s then make_one (new_path @ x) perms s else (Inr (), s)) = (Inr (), s1)"
  proof (cases "lookup (ds @ [x]) (f_root s) = None")
    case True
    then show ?thesis using make_one_ok [of "new_path @ x" s perms] n Cons.prems(4) by (simp add: Exists_def os_lookup_def s1_def)
  next
    case False
    then obtain y where "lookup (ds @ [x]) (f_root s) = Some y" by blast
    moreover have "x \<noteq> []" using x(1) by (simp add: file_name_def)
    ultimately show ?thesis using n by (simp add: Exists_def os_lookup_def s1_def)
  qed
  have k1: "kinds (f_root s1) q = (if lookup (ds @ [x]) (f_root s) = None \<and> q = ds @ [x] then Some (?m, None) else kinds (f_root s) q)" for q
  proof (cases "lookup (ds @ [x]) (f_root s) = None")
    case True
    have "kinds (Dir ?m []) r = (if r = [] then Some (?m, None) else None)" for r by (cases r) (simp_all add: kinds_def)
    moreover have "kinds (f_root s) q = None" if "prefix (ds @ [x]) q" using prefix_exists [OF that, of "f_root s"] True by (cases "lookup q (f_root s)") (auto simp: kinds_def)
    ultimately show ?thesis
      using True kinds_put [of "ds @ [x]" "f_root s" "Some (Dir ?m [])" q] Cons.prems(4) by (auto simp: s1_def prefix_def)
  qed (auto simp: s1_def)
  show ?case
  proof (cases "rest = []")
    case True
    have "lookup q (f_root s) \<noteq> None" if "prefix q ds" for q
      using prefix_exists [OF that] Cons.prems(4) by (auto simp: is_dir_def split: option.splits)
    then show ?thesis using True x(2) step k1 by (auto simp: kinds_def Let_def)
  next
    case False
    have same: "is_dir q (f_root s1) \<longleftrightarrow> (if lookup (ds @ [x]) (f_root s) = None \<and> q = ds @ [x] then True else is_dir q (f_root s))"
      "lookup q (f_root s1) = None \<longleftrightarrow> kinds (f_root s1) q = None" for q
    proof -
      show "is_dir q (f_root s1) \<longleftrightarrow> (if lookup (ds @ [x]) (f_root s) = None \<and> q = ds @ [x] then True else is_dir q (f_root s))"
        unfolding is_dir_kinds k1 [of q] by simp
      show "lookup q (f_root s1) = None \<longleftrightarrow> kinds (f_root s1) q = None" by (simp add: kinds_def)
    qed
    have "\<exists>s'. make_loop (length rest) (Suc i) path perms ((new_path @ x) @ [SEP]) s1 = (Inr (), s') \<and> (\<forall>q. kinds (f_root s') q =
     (if kinds (f_root s1) q = None \<and> prefix q ((ds @ [x]) @ rest) then Some (?m, None) else kinds (f_root s1) q))"
    proof (rule Cons.IH)
      show "t_section SEP True (Suc i + k) path = Inr (rest ! k)" if "k < length rest" for k using Cons.prems(1) [of "Suc k"] that by simp
      show "\<forall>x \<in> set rest. file_name x" using Cons.prems(2) by simp
      show "names (((new_path @ x) @ [SEP]) @ y) = (ds @ [x]) @ [y]" if "file_name y" for y
        using names_child [OF that, of "new_path @ x"] n(1) by simp
      show "is_dir (ds @ [x]) (f_root s1)"
        using Cons.prems(5) [of "ds @ [x]"] False same(1) [of "ds @ [x]"] by (auto simp: strict_prefix_def)
      show "is_dir q (f_root s1)" if "strict_prefix (ds @ [x]) q" "strict_prefix q ((ds @ [x]) @ rest)" "lookup q (f_root s1) \<noteq> None" for q
      proof -
        have "q \<noteq> ds @ [x]" using that(1) by auto
        then have "kinds (f_root s1) q = kinds (f_root s) q" using k1 [of q] by simp
        then have "lookup q (f_root s) \<noteq> None" using that(3) unfolding kinds_def by (metis option.map_disc_iff)
        moreover have "strict_prefix ds q" using that(1) by (auto simp: strict_prefix_def prefix_def)
        ultimately show ?thesis using Cons.prems(5) [of q] that same(1) [of q] by auto
      qed
    qed
    then obtain s' where s': "make_loop (length rest) (Suc i) path perms ((new_path @ x) @ [SEP]) s1 = (Inr (), s')"
      "\<And>q. kinds (f_root s') q = (if kinds (f_root s1) q = None \<and> prefix q ((ds @ [x]) @ rest) then Some (?m, None) else kinds (f_root s1) q)"
      by blast
    have "make_loop (length (x # rest)) i path perms new_path s = (Inr (), s')" using x(2) step s'(1) by (simp add: Let_def)
    moreover have "kinds (f_root s') q = (if kinds (f_root s) q = None \<and> prefix q (ds @ x # rest) then Some (?m, None) else kinds (f_root s) q)" for q
    proof -
      have "lookup (ds @ [x]) (f_root s) = None \<longleftrightarrow> kinds (f_root s) (ds @ [x]) = None" by (simp add: kinds_def)
      then show ?thesis using s'(2) [of q] k1 [of q] by (cases "q = ds @ [x]") simp_all
    qed
    ultimately show ?thesis by blast
  qed
qed

text \<open>
  C17. \<open>MakeDir\<close> with \<open>recursive\<close> makes exactly the missing directories on the way to a path, each with the mode
  of the permissions, and changes nothing else of the tree, whether the path is absolute or not.
\<close>

theorem fs_makedir_recursive:
  assumes "\<forall>x \<in> set (n # ns). file_name x" "length (join_path (n # ns)) < 2 ^ 30" "path = (if absolute then [SEP] else []) @ join_path (n # ns)"
    and "\<And>q. strict_prefix q (n # ns) \<Longrightarrow> lookup q (f_root s) \<noteq> None \<Longrightarrow> is_dir q (f_root s)"
  shows "\<exists>s'. MakeDir path perms True s = (Inr (), s') \<and> (\<forall>q. kinds (f_root s') q =
     (if kinds (f_root s) q = None \<and> prefix q (n # ns) then Some (PermissionsToModes (case perms of None \<Rightarrow> default_permissions | Some p \<Rightarrow> p), None)
      else kinds (f_root s) q))"
proof -
  let ?fields = "concat (map (\<lambda>y. SEP # y) ns)"
  have j: "join_path (n # ns) = n @ ?fields" by (simp add: join_path_def)
  have nm: "\<forall>y \<in> set (n # ns). y \<noteq> [] \<and> SEP \<notin> set y" using assms(1) by (simp add: file_name_def)
  have cnt: "t_count SEP (n @ ?fields) = length ns"
  proof -
    have f: "filter (\<lambda>x. x = SEP) y = []" if "y \<in> set (n # ns)" for y using nm that by (auto simp: filter_empty_conv)
    then have g: "length (filter (\<lambda>x. x = SEP) (concat (map (\<lambda>y. SEP # y) ys))) = length ys" if "set ys \<subseteq> set (n # ns)" for ys
      using that by (induction ys) auto
    then show ?thesis using f [of n] g [of ns] by (auto simp: t_count_def)
  qed
  have root: "is_dir [] (f_root s)" using assms(4) [of "[]"] by simp
  have ne: "n \<noteq> [] \<and> hd n \<noteq> SEP" using nm by (cases n) auto
  show ?thesis
  proof (cases absolute)
    case False
    have sec: "t_section SEP True (0 + k) path = Inr ((n # ns) ! k)" if "k < length (n # ns)" for k
      unfolding t_section_def by (rule trans [OF section_fields [of 0 path n ns]]) (use False j assms(2,3) nm that in auto)
    have "MakeDir path perms True = make_loop (length (n # ns)) 0 path perms []"
      using False j assms(3) ne cnt by (simp add: MakeDir_def)
    moreover have "names ([] @ x) = [] @ [x]" if "file_name x" for x using names_name [OF that] by simp
    ultimately show ?thesis using make_loop_ok [of "n # ns" 0 path "[]" "[]" s perms] sec assms(1,4) root by auto
  next
    case True
    have sec: "t_section SEP True (1 + k) path = Inr ((n # ns) ! k)" if "k < length (n # ns)" for k
    proof -
      have p: "path = SEP # n @ ?fields" using True j assms(3) by simp
      have f: "t_find SEP (int 0) path = Inr (int (0 + length ([] :: bytes)))" by (rule find_at [of 0 path "[]" SEP "n @ ?fields"]) (simp_all add: p)
      have "t_section_from SEP True k 1 path = Inr ((n # ns) ! k)"
        by (rule section_fields) (use p j assms(2) nm that in auto)
      then show ?thesis using f by (simp add: t_section_def t_section_from.simps [of _ _ "Suc k"])
    qed
    have "MakeDir path perms True = make_loop (length (n # ns)) 1 path perms [SEP]"
      using True j assms(3) cnt by (simp add: MakeDir_def t_count_def)
    moreover have "names ([SEP] @ x) = [] @ [x]" if "file_name x" for x
      using names_child [OF that, of "[]"] by (simp add: names_def)
    ultimately show ?thesis using make_loop_ok [of "n # ns" 1 path "[SEP]" "[]" s perms] sec assms(1,4) root by auto
  qed
qed

definition one_file :: fs where
  "one_file = \<lparr>f_root = Dir 493 [(lit ''a'', Dir 493 [(lit ''f'', File 420 [1])])], f_umask = 18\<rparr>"

theorem fs_makedir_recursive_witness:
  "\<exists>s'. MakeDir (lit ''/a/b/c'') None True one_file = (Inr (), s') \<and> kinds (f_root s') [lit ''a'', lit ''b''] = Some (507, None)
    \<and> kinds (f_root s') [lit ''a'', lit ''f''] = Some (420, Some [1])"
proof -
  have j: "lit ''/a/b/c'' = (if True then [SEP] else []) @ join_path [lit ''a'', lit ''b'', lit ''c'']" "length (join_path [lit ''a'', lit ''b'', lit ''c'']) < 2 ^ 30"
    by (simp_all add: join_path_def lit_def SEP_def)
  have n: "\<forall>x \<in> set [lit ''a'', lit ''b'', lit ''c'']. file_name x" by (simp add: file_name_def lit_def SEP_def)
  have p: "PermissionsToModes default_permissions = 507" by code_simp
  have d: "is_dir q (f_root one_file)" if "strict_prefix q [lit ''a'', lit ''b'', lit ''c'']" "lookup q (f_root one_file) \<noteq> None" for q
  proof -
    have "q = [] \<or> q = [lit ''a''] \<or> q = [lit ''a'', lit ''b'']" using that(1) by (auto simp: strict_prefix_def prefix_Cons)
    then show ?thesis using that(2) by (auto simp: is_dir_def one_file_def lit_def)
  qed
  have k: "kinds (f_root one_file) [lit ''a'', lit ''b''] = None" "kinds (f_root one_file) [lit ''a'', lit ''f''] = Some (420, Some [1])"
    by (simp_all add: kinds_def one_file_def lit_def)
  have "prefix [lit ''a'', lit ''b''] [lit ''a'', lit ''b'', lit ''c'']" by simp
  then show ?thesis using fs_makedir_recursive [OF n j(2,1) d, of None] p k by (metis option.case(1) option.discI)
qed

lemma parent_dir: "lookup p n = Some nd \<Longrightarrow> p \<noteq> [] \<Longrightarrow> is_dir (butlast p) n"
proof -
  assume a: "lookup p n = Some nd" "p \<noteq> []"
  then have "lookup (butlast p @ [last p]) n = Some nd" by simp
  then obtain k where "lookup (butlast p) n = Some k" "lookup [last p] k = Some nd" by (auto simp: lookup_append simp del: append_butlast_last_id split: option.splits)
  then show ?thesis by (cases k) (auto simp: is_dir_def)
qed



text \<open>
  C15. Copying a tree to a new path in an existing directory outside of it gives a tree of the same names and
  contents, with the modes that the permissions are turned into, and changes nothing else; a copy of a
  directory clears the umask of the process.
\<close>

theorem fs_copy:
  assumes "os_lookup from_path s = Some nd" "node_ok nd" "to_path \<noteq> []" "names to_path \<noteq> []" "lookup (names to_path) (f_root s) = None"
    and "is_dir (butlast (names to_path)) (f_root s)" "\<not> prefix (names from_path) (names to_path)"
  shows "\<exists>s'. Copy (Suc (size nd) + k) from_path to_path replace s = (Inr (), s') \<and> os_lookup to_path s' = Some (copied (f_umask s) nd)
    \<and> (\<forall>q. kinds (f_root s') q = (if prefix (names to_path) q then kinds (copied (f_umask s) nd) (drop (length (names to_path)) q) else kinds (f_root s) q))
    \<and> f_umask s' = umask_after nd (f_umask s)"
proof -
  have "Copy (Suc (size nd) + k) from_path to_path replace s = (Inr (), s\<lparr>f_umask := umask_after nd (f_umask s),
     f_root := put (names to_path) (Some (copied (f_umask s) nd)) (f_root s)\<rparr>)"
    by (rule Copy_ok [OF assms(1,2) _ assms(3-7)]) simp
  then show ?thesis
    using lookup_put_same [OF assms(4,6)] kinds_put [OF assms(4,6), of "Some (copied (f_umask s) nd)"] assms(3) by (simp add: os_lookup_def)
qed

theorem fs_copy_witness:
  "\<exists>s' n. Copy n (lit ''/a'') (lit ''/b'') False one_file = (Inr (), s')
    \<and> os_lookup (lit ''/b'') s' = Some (Dir 495 [(lit ''f'', File 438 [1])]) \<and> f_umask s' = 0"
proof -
  let ?nd = "Dir 493 [(lit ''f'', File 420 [1])]"
  have n: "names (lit ''/a'') = [lit ''a'']" "names (lit ''/b'') = [lit ''b'']" by code_simp+
  have "os_lookup (lit ''/a'') one_file = Some ?nd" "node_ok ?nd" "lit ''/b'' \<noteq> []" "names (lit ''/b'') \<noteq> []"
    "lookup (names (lit ''/b'')) (f_root one_file) = None" "is_dir (butlast (names (lit ''/b''))) (f_root one_file)"
    "\<not> prefix (names (lit ''/a'')) (names (lit ''/b''))"
    unfolding os_lookup_def n by (simp_all add: one_file_def lit_def file_name_def SEP_def is_dir_def)
  note cp = fs_copy [OF this, of 0 False]
  have "copied_mode 493 = 495" by code_simp
  then have "copied (f_umask one_file) ?nd = Dir 495 [(lit ''f'', File 438 [1])]" "umask_after ?nd (f_umask one_file) = 0"
    by (simp_all add: umask_after_def)
  then show ?thesis using cp by metis
qed

section \<open>Defects\<close>

lemma copy_inside:
  "os_lookup p s = Some (Dir m []) \<Longrightarrow> fst (Copy n p (p @ SEP # lit ''b'') False s) = Inl Out_Of_Fuel"
proof (induction n arbitrary: p s m)
  case (Suc n)
  let ?b = "lit ''b''" and ?to = "p @ SEP # lit ''b''"
  have b: "file_name ?b" by (simp add: file_name_def lit_def SEP_def)
  have c: "names ?to = names p @ [?b]" by (rule names_child [OF b])
  have l: "lookup (names p) (f_root s) = Some (Dir m [])" using Suc.prems by (auto simp: os_lookup_def split: if_splits)
  have none: "lookup (names ?to) (f_root s) = None" and dir: "is_dir (butlast (names ?to)) (f_root s)"
    using l by (simp_all add: c lookup_append is_dir_def)
  define s1 where "s1 = s\<lparr>f_umask := 0, f_root := put (names ?to) (Some (Dir (copied_mode m) [])) (f_root s)\<rparr>"
  have made: "make_one ?to (Some (ModesToPermissions m)) s = (Inr (), s1)"
    using make_one_ok [OF _ _ none dir, of "Some (ModesToPermissions m)"] c by (simp add: s1_def copied_mode_def)
  have "lookup (names p) (f_root s1) = Some (Dir m [(?b, Dir (copied_mode m) [])])"
    using lookup_put_inside [of "[?b]" "names p" "Some (Dir (copied_mode m) [])" "f_root s"] l by (simp add: s1_def c put_entry_def)
  then have "readdir p s1 = [?b]" using Suc.prems by (auto simp: readdir_def os_lookup_def split: if_splits)
  moreover have "os_lookup ?to s1 = Some (Dir (copied_mode m) [])"
    using lookup_put_same [OF _ dir] c by (simp add: os_lookup_def s1_def)
  then have "fst (Copy n ?to (?to @ SEP # ?b) False s1) = Inl Out_Of_Fuel" by (rule Suc.IH)
  then obtain s2 where "Copy n ?to (?to @ SEP # ?b) False s1 = (Inl Out_Of_Fuel, s2)" by (metis prod.collapse)
  moreover have "replace_or_fail ?to False s = (Inr (), s)" using none by (simp add: replace_or_fail_def Exists_def os_lookup_def)
  ultimately show ?case using Suc.prems made by (simp add: Exists_def IsDir_def GetPermissions_def)
qed simp

text \<open>
  What goes wrong: copying or moving a file onto itself with \<open>replace_existing\<close> deletes it, the copy without an
  error; a directory copied into itself never ends; a directory made with the default permissions can be
  written by everyone, and one of mode 750 is copied with mode 652; a path with two separators makes a
  directory too many; \<open>GetDirName("/etc")\<close> is \<open>/etc\<close>.
\<close>

theorem fs_defects:
  assumes "os_lookup p s = Some (File m d)" "names p \<noteq> []" "os_lookup q s = Some (Dir m' [])"
  shows "(\<exists>s'. Copy (Suc n) p p True s = (Inr (), s') \<and> os_lookup p s' = None)
    \<and> (\<exists>s'. Move p p True s = (Inl (Thrown ''IOException''), s') \<and> os_lookup p s' = None)
    \<and> fst (Copy n q (q @ SEP # lit ''b'') False s) = Inl Out_Of_Fuel
    \<and> PermissionsToModes default_permissions = 507 \<and> copied_mode 488 = 426
    \<and> kinds (f_root (snd (MakeDir (lit ''a//b'') None True \<lparr>f_root = Dir 493 [], f_umask = 0\<rparr>))) [lit ''a'', lit ''b'', lit ''b''] = Some (507, None)
    \<and> GetDirName (lit ''/etc'') = Inr (lit ''/etc'')"
proof -
  let ?s = "s\<lparr>f_root := put (names p) None (f_root s)\<rparr>"
  have l: "lookup (names p) (f_root s) = Some (File m d)" using assms(1) by (auto simp: os_lookup_def split: if_splits)
  have r: "replace_or_fail p True s = (Inr (), ?s)"
    using assms(1,2) by (simp add: replace_or_fail_def Exists_def IsDir_def os_remove_def io_call_def returnA_def)
  have "kinds (f_root ?s) (names p) = None" using kinds_put [OF assms(2) parent_dir [OF l assms(2)], of None "names p"] by simp
  then have g: "os_lookup p ?s = None" by (simp add: os_lookup_def kinds_def)
  have "Copy (Suc n) p p True s = (Inr (), ?s)" using r g assms(1) by (simp add: Exists_def IsDir_def IsFile_def)
  moreover have "Move p p True s = (Inl (Thrown ''IOException''), ?s)" using r g assms(1) by (simp add: Move_def Exists_def io_call_def os_rename_def)
  moreover have "PermissionsToModes default_permissions = 507" "copied_mode 488 = 426"
    "kinds (f_root (snd (MakeDir (lit ''a//b'') None True \<lparr>f_root = Dir 493 [], f_umask = 0\<rparr>))) [lit ''a'', lit ''b'', lit ''b''] = Some (507, None)"
    "GetDirName (lit ''/etc'') = Inr (lit ''/etc'')"
    by code_simp+
  ultimately show ?thesis using g copy_inside [OF assms(3)] by blast
qed

theorem fs_defects_witness:
  "\<exists>s s'. Copy 1 (lit ''/f'') (lit ''/f'') True s = (Inr (), s') \<and> os_lookup (lit ''/f'') s = Some (File 420 [1]) \<and> os_lookup (lit ''/f'') s' = None"
proof -
  let ?s = "\<lparr>f_root = Dir 493 [(lit ''f'', File 420 [1]), (lit ''d'', Dir 493 [])], f_umask = 18\<rparr>"
  have n: "names (lit ''/f'') = [lit ''f'']" "names (lit ''/d'') = [lit ''d'']" by code_simp+
  have a: "os_lookup (lit ''/f'') ?s = Some (File 420 [1])" "names (lit ''/f'') \<noteq> []" "os_lookup (lit ''/d'') ?s = Some (Dir 493 [])"
    unfolding os_lookup_def n by (simp_all add: lit_def)
  from fs_defects [OF a, of 0] a(1) show ?thesis unfolding One_nat_def by blast
qed

end
