(* ===== verification/Text_File_Props.thy ===== *)
theory Text_File_Props
  imports Text_File Fs_Props
begin

text \<open>
  What is read from text files: the lines of a file, and the texts that were written and appended.
\<close>

section \<open>Lines\<close>

lemma readLine_takes:
  "tf_readLine strip f = (l, f') \<Longrightarrow>
   (if tf_rest f = [] then tf_rest f' = [] \<and> tf_eof f' else length (tf_rest f') < length (tf_rest f))"
proof (induction strip f arbitrary: l f' rule: tf_readLine.induct)
  case (1 strip f)
  obtain r g where g: "fgets (allocated 1024 - 1) f = (r, g)" by (cases "fgets (allocated 1024 - 1) f")
  show ?case
  proof (cases r)
    case None
    then have "tf_rest f = []" "tf_eof g" "tf_rest g = []" using g by (auto simp: fgets_def Let_def split: if_splits)
    then show ?thesis using g None 1(2) by (simp add: tf_readLine.simps)
  next
    case (Some xs)
    have l: "length (tf_rest g) < length (tf_rest f)" by (rule fgets_less [OF g [unfolded Some]]) (simp add: allocated_def)
    show ?thesis
    proof (cases "length (takeWhile (\<lambda>x. x \<noteq> 0) xs) < 1023")
      case True
      then have "f' = g" using 1(2) g Some by (simp add: tf_readLine.simps Let_def)
      then show ?thesis using l by auto
    next
      case False
      obtain more h where h: "tf_readLine strip g = (more, h)" by (cases "tf_readLine strip g")
      have "f' = h" using 1(2) g Some False h by (simp add: tf_readLine.simps [of strip f] Let_def)
      then show ?thesis using 1(1) [OF g [symmetric] Some refl False h] l by (auto split: if_splits)
    qed
  qed
qed

text \<open>The loop that the readers of configuration files have: lines are read until the end of the file.\<close>

function tf_lines :: "text_file \<Rightarrow> bytes list" where
  "tf_lines f = (if tf_eof f then [] else (let (l, f) = tf_readLine True f in l # tf_lines f))"
  by pat_completeness auto
termination
proof (relation "measure (\<lambda>f. 2 * length (tf_rest f) + (if tf_eof f then 0 else 1))", goal_cases)
  case (2 f p l f')
  then show ?case using readLine_takes [of True f l f'] by (cases "tf_rest f = []") auto
qed simp

declare tf_lines.simps [simp del]

definition good_line :: "bytes \<Rightarrow> bool" where
  "good_line l \<longleftrightarrow> 10 \<notin> set l \<and> 0 \<notin> set l \<and> (l = [] \<or> last l \<noteq> 13) \<and> length l \<le> 1020"

lemma line_end_line: "10 \<notin> set l \<Longrightarrow> line_end (l @ 10 # r) = l @ [10]"
  by (induction l) (auto simp: line_end_def)

lemma line_end_all: "10 \<notin> set l \<Longrightarrow> line_end l = l"
  by (induction l) (auto simp: line_end_def)

lemma takeWhile_text: "0 \<notin> set l \<Longrightarrow> takeWhile (\<lambda>x. x \<noteq> (0 :: u8)) l = l"
  by (induction l) auto

lemma readLine_once:
  "fgets 1039 f = (Some xs, g) \<Longrightarrow> 0 \<notin> set xs \<Longrightarrow> length xs < 1023 \<Longrightarrow> tf_readLine True f = (strip_eol xs, g)"
  by (simp add: tf_readLine.simps [of True f] allocated_def takeWhile_text)

lemma readLine_more:
  "fgets 1039 f = (Some xs, g) \<Longrightarrow> 0 \<notin> set xs \<Longrightarrow> 1023 \<le> length xs \<Longrightarrow> tf_readLine True g = (ys, h) \<Longrightarrow> tf_readLine True f = (xs @ ys, h)"
  by (simp add: tf_readLine.simps [of True f] allocated_def takeWhile_text)

lemma strip_eol_line: "l = [] \<or> last l \<noteq> 13 \<Longrightarrow> strip_eol (l @ [10]) = l" "l = [] \<or> last l \<noteq> 13 \<Longrightarrow> strip_eol (l @ [13, 10]) = l"
  "10 \<notin> set l \<Longrightarrow> l = [] \<or> last l \<noteq> 13 \<Longrightarrow> strip_eol l = l"
  subgoal by (auto simp: strip_eol_def)
  subgoal by (simp add: strip_eol_def butlast_append)
  subgoal using last_in_set [of l] by (cases "l = []"; cases "last l = 10"; simp add: strip_eol_def)
  done

lemma readLine_line:
  assumes l: "good_line l" and e: "e = [10] \<or> e = [13, 10]" and r: "tf_rest f = l @ e @ r"
  shows "tf_readLine True f = (l, f\<lparr>tf_pos := tf_pos f + length (l @ e)\<rparr>)"
proof -
  define m where "m = (if e = [10] then l else l @ [13])"
  have m: "10 \<notin> set m" "l @ e = m @ [10]" "length m \<le> 1021" "0 \<notin> set m" using l e by (auto simp: m_def good_line_def)
  have "take 1038 (m @ 10 # r) = m @ 10 # take (1037 - length m) r" using m(3) by (simp add: take_Cons' diff_diff_eq)
  then have "line_end (take 1038 (m @ 10 # r)) = m @ [10]" using line_end_line [OF m(1)] by simp
  moreover have "tf_rest f = m @ 10 # r" using r m(2) by (metis append.assoc append_Cons append_Nil)
  ultimately have "fgets 1039 f = (Some (m @ [10]), f\<lparr>tf_pos := tf_pos f + length (m @ [10])\<rparr>)" by (simp add: fgets_def Let_def)
  moreover have "strip_eol (m @ [10]) = l" using strip_eol_line [of l] l e m(2) by (auto simp: good_line_def)
  ultimately show ?thesis using m readLine_once [of f "m @ [10]"] by simp
qed

lemma readLine_last:
  assumes l: "good_line l" and r: "tf_rest f = l"
  shows "\<exists>f'. tf_readLine True f = (l, f') \<and> tf_eof f'"
proof (cases "l = []")
  case True
  then show ?thesis using r by (simp add: tf_readLine.simps fgets_def)
next
  case False
  have g: "fgets 1039 f = (Some l, f\<lparr>tf_pos := tf_pos f + length l, tf_eof := True\<rparr>)"
    using False r l line_end_all [of l] by (auto simp: fgets_def good_line_def Let_def simp del: drop_eq_Nil)
  have "strip_eol l = l" "length l < 1023" "0 \<notin> set l" using l strip_eol_line(3) [of l] by (simp_all add: good_line_def)
  then show ?thesis using readLine_once [OF g] by simp
qed

lemma lines_of_file:
  "\<forall>(l, e) \<in> set ls. good_line l \<and> (e = [10] \<or> e = [13, 10]) \<Longrightarrow> good_line z \<Longrightarrow> \<not> tf_eof f \<Longrightarrow>
   tf_rest f = concat (map (\<lambda>(l, e). l @ e) ls) @ z \<Longrightarrow> tf_lines f = map fst ls @ [z]"
proof (induction ls arbitrary: f)
  case Nil
  then obtain f' where "tf_readLine True f = (z, f')" "tf_eof f'" using readLine_last [of z f] by auto
  then show ?case using Nil by (simp add: tf_lines.simps [of f] tf_lines.simps [of f'])
next
  case (Cons x ls)
  obtain l e where x: "x = (l, e)" by (cases x)
  let ?r = "concat (map (\<lambda>(l, e). l @ e) ls) @ z" and ?f = "f\<lparr>tf_pos := tf_pos f + length (l @ e)\<rparr>"
  have "tf_rest f = l @ e @ ?r" using Cons.prems(4) x by simp
  moreover from this have "tf_rest ?f = ?r" using drop_more [of "tf_pos f" "tf_bytes f" "l @ e" ?r] by simp
  moreover have "good_line l" "e = [10] \<or> e = [13, 10]" using Cons.prems(1) x by auto
  ultimately show ?case using Cons.IH [of ?f] Cons.prems(1-3) readLine_line [of l e f ?r] x
    by (simp add: tf_lines.simps [of f])
qed



section \<open>Whole files\<close>

lemma tf_readAll_loop_all: "tf_eof f \<longrightarrow> tf_rest f = [] \<Longrightarrow> fst (tf_readAll_loop buf f) = buf @ tf_rest f"
proof (induction buf f rule: tf_readAll_loop.induct)
  case (1 buf f)
  show ?case
  proof (cases "tf_eof f")
    case True
    then show ?thesis using 1(2) by (subst tf_readAll_loop.simps) simp
  next
    case False
    define n where "n = allocated (allocated (length buf) + 256) - length buf"
    obtain xs g where g: "fread n f = (xs, g)" by (cases "fread n f")
    have e: "tf_rest f = xs @ tf_rest g" "tf_eof g \<longrightarrow> tf_rest g = []"
      using g False by (auto simp: fread_def Let_def add.commute min_def) (metis append_take_drop_id drop_drop add.commute)
    then have "fst (tf_readAll_loop (buf @ xs) g) = buf @ xs @ tf_rest g" using 1(1) [OF False refl g [unfolded n_def, symmetric] refl] by (simp add: n_def)
    then show ?thesis using False g e by (subst tf_readAll_loop.simps) (simp add: n_def Let_def)
  qed
qed

lemma readAll_all:
  assumes "tf_data_size f = 0" "tf_end f = 0 \<or> tf_end f = length (tf_bytes f)"
  shows "fst (tf_readAll f) = tf_bytes f"
proof (cases "tf_end f = 0")
  case True
  define g where "g = (f\<lparr>tf_pos := 0, tf_eof := False, tf_data_size := 0\<rparr>)"
  have s: "tf_size (tf_rewind f) = (0, g)" using assms(1) True by (simp add: tf_size_def tf_rewind_def g_def)
  obtain xs h where h: "fread (allocated 256) g = (xs, h)" by (cases "fread (allocated 256) g")
  have "tf_bytes f = xs @ tf_rest h" "tf_eof h \<longrightarrow> tf_rest h = []" using h by (auto simp: fread_def Let_def g_def min_def split: if_splits)
  then show ?thesis using tf_readAll_loop_all [of h xs] s h by (simp add: tf_readAll_def)
next
  case False
  then have "length (tf_bytes f) < allocated (length (tf_bytes f))" using assms(2) by (intro allocated_gt) auto
  then show ?thesis using False assms by (simp add: tf_readAll_def tf_size_def tf_rewind_def fread_def Let_def)
qed

lemma written:
  assumes "path \<noteq> []" "names path \<noteq> []" "is_dir (butlast (names path)) (f_root s)" "\<not> IsDir path s"
  shows "\<exists>m. os_write path d s = Some (s\<lparr>f_root := put (names path) (Some (File m d)) (f_root s)\<rparr>)
    \<and> os_lookup path (s\<lparr>f_root := put (names path) (Some (File m d)) (f_root s)\<rparr>) = Some (File m d)"
proof -
  have l: "os_lookup path (s\<lparr>f_root := put (names path) (Some (File m d)) (f_root s)\<rparr>) = Some (File m d)" for m
    using assms lookup_put_same [OF assms(2,3)] by (simp add: os_lookup_def)
  show ?thesis
  proof (cases "os_lookup path s")
    case None
    then have "os_add path n s = Some (s\<lparr>f_root := put (names path) (Some n) (f_root s)\<rparr>)" for n
      using assms os_add_ok [of path s n] by (simp add: os_lookup_def)
    then show ?thesis using None l by (auto simp: os_write_def)
  next
    case (Some nd)
    then show ?thesis using assms(4) l by (cases nd) (auto simp: os_write_def IsDir_def)
  qed
qed

lemma Cat_file: "os_lookup path s = Some (File m d) \<Longrightarrow> Cat path s = Inr d"
  using readAll_all [of "stream_on d"] by (simp add: Cat_def open_reading_def stream_on_def)

text \<open>
  What is written to a path that is no directory, in a directory that exists, is read again by \<open>Cat\<close>,
  also when more has been appended; nothing else in the tree changes; and a file that is there is not
  written over without the flag.
\<close>
theorem textfile_write_read:
  assumes "path \<noteq> []" "names path \<noteq> []" "is_dir (butlast (names path)) (f_root s)" "\<not> IsDir path s"
  shows "\<exists>s1 s2. WriteTextFile path t True s = (Inr (), s1) \<and> Cat path s1 = Inr t
    \<and> AppendToTextFile path u s1 = (Inr (), s2) \<and> Cat path s2 = Inr (t @ u)
    \<and> WriteTextFile path v False s1 = (Inl (Thrown ''IOException''), s1)
    \<and> (\<forall>q. \<not> prefix (names path) q \<longrightarrow> kinds (f_root s2) q = kinds (f_root s) q)"
proof -
  obtain m where m: "os_write path t s = Some (s\<lparr>f_root := put (names path) (Some (File m t)) (f_root s)\<rparr>)"
    "os_lookup path (s\<lparr>f_root := put (names path) (Some (File m t)) (f_root s)\<rparr>) = Some (File m t)" using written [OF assms, of t] by blast
  let ?s1 = "s\<lparr>f_root := put (names path) (Some (File m t)) (f_root s)\<rparr>"
  have d: "is_dir (butlast (names path)) (f_root ?s1)" "\<not> IsDir path ?s1"
    using m(2) assms(1,2) parent_dir [of "names path" "f_root ?s1"] by (auto simp: IsDir_def os_lookup_def)
  obtain k where k: "os_write path (t @ u) ?s1 = Some (?s1\<lparr>f_root := put (names path) (Some (File k (t @ u))) (f_root ?s1)\<rparr>)"
    "os_lookup path (?s1\<lparr>f_root := put (names path) (Some (File k (t @ u))) (f_root ?s1)\<rparr>) = Some (File k (t @ u))"
    using written [OF assms(1,2) d, of "t @ u"] by blast
  let ?s2 = "?s1\<lparr>f_root := put (names path) (Some (File k (t @ u))) (f_root ?s1)\<rparr>"
  have "kinds (f_root ?s2) q = kinds (f_root s) q" if "\<not> prefix (names path) q" for q
  proof -
    have "kinds (f_root ?s2) q = kinds (f_root ?s1) q" using kinds_put [OF assms(2) d(1)] that by simp
    then show ?thesis using kinds_put [OF assms(2,3)] that by simp
  qed
  moreover have "WriteTextFile path t True s = (Inr (), ?s1)" "WriteTextFile path v False ?s1 = (Inl (Thrown ''IOException''), ?s1)"
    "AppendToTextFile path u ?s1 = (Inr (), ?s2)"
    using m k(1) by (simp_all add: WriteTextFile_def open_writing_def Exists_def AppendToTextFile_def throwA_def)
  ultimately show ?thesis using Cat_file [OF m(2)] Cat_file [OF k(2)] by blast
qed

theorem textfile_write_read_witness:
  "\<exists>s1 s2. WriteTextFile (lit ''/a/g'') [1, 0, 2] True one_file = (Inr (), s1) \<and> AppendToTextFile (lit ''/a/g'') [3] s1 = (Inr (), s2)
    \<and> Cat (lit ''/a/g'') s2 = Inr [1, 0, 2, 3] \<and> kinds (f_root s2) [lit ''a'', lit ''f''] = Some (420, Some [1])"
proof -
  have n: "names (lit ''/a/g'') = [lit ''a'', lit ''g'']" by code_simp
  have w: "lit ''/a/g'' \<noteq> []" "names (lit ''/a/g'') \<noteq> []" "is_dir (butlast (names (lit ''/a/g''))) (f_root one_file)" "\<not> IsDir (lit ''/a/g'') one_file"
    by code_simp+
  have k: "kinds (f_root one_file) [lit ''a'', lit ''f''] = Some (420, Some [1])" by code_simp
  have p: "\<not> prefix (names (lit ''/a/g'')) [lit ''a'', lit ''f'']" unfolding n by code_simp
  show ?thesis using textfile_write_read [OF w, of "[1, 0, 2]" "[3]"] k p by fastforce
qed

text \<open>
  Where lines and sizes are wrong: a line of 1023 characters with its end is joined with the next one; after
  a NUL the rest of a line is lost; and a file that has grown since its size was asked for is read up to
  the memory that its old size takes.
\<close>
theorem textfile_defects:
  "tf_lines (stream_on (replicate 1022 97 @ [10, 98])) = [replicate 1022 97 @ [10, 98]]"
  "tf_lines (stream_on [97, 0, 98, 10, 99]) = [[97], [99]]"
  "fst (tf_readAll ((stream_on (replicate 20 97))\<lparr>tf_data_size := 5\<rparr>)) = replicate 16 97"
proof -
  let ?l = "replicate 1022 97 :: bytes"
  define f where "f = stream_on (?l @ [10, 98])"
  have "take 1038 (?l @ [10, 98]) = ?l @ 10 # [98]" by simp
  then have "line_end (take 1038 (?l @ [10, 98])) = ?l @ [10]" using line_end_line [of ?l "[98]"] by simp
  then have "fgets 1039 f = (Some (?l @ [10]), f\<lparr>tf_pos := 1023\<rparr>)" by (simp add: f_def fgets_def stream_on_def Let_def)
  moreover obtain g where g: "tf_readLine True (f\<lparr>tf_pos := 1023\<rparr>) = ([98], g)" "tf_eof g"
    using readLine_last [of "[98]" "f\<lparr>tf_pos := 1023\<rparr>"] by (auto simp: good_line_def f_def stream_on_def)
  ultimately have "tf_readLine True f = (?l @ [10, 98], g)" using readLine_more [of f "?l @ [10]"] by simp
  then show "tf_lines (stream_on (?l @ [10, 98])) = [?l @ [10, 98]]"
    using g tf_lines.simps [of f] tf_lines.simps [of g] by (simp add: f_def stream_on_def)
qed code_simp+

end
