(* ===== verification/Ini.thy ===== *)
theory Ini
  imports Text_File_Props Http_Headers Rpc_Props
begin

text \<open>
  \<open>IniParser\<close> (src/app/IniParser.cpp): sections of fields read from a text file. A section is its
  dictionary of properties; the pointer to a section is its key in the dictionary of sections. As
  everywhere, a dictionary is the list of pairs that it refines, and keys of equal hash are the same key.
\<close>

type_synonym properties = "(bytes \<times> bytes) list"

record ini =
  i_filename :: bytes
  i_sections :: "(bytes \<times> properties) list"

section \<open>Sections\<close>

definition section_putString :: "bytes \<Rightarrow> bytes \<Rightarrow> properties \<Rightarrow> properties" where
  "section_putString name val props = kv_set hash_bytes name val props"

definition section_putInteger :: "bytes \<Rightarrow> u32 \<Rightarrow> properties \<Rightarrow> properties res" where
  "section_putInteger name val props = bindR (Val_int32 val 10) (\<lambda>t. Inr (section_putString name t props))"

definition section_getString :: "bytes \<Rightarrow> bytes \<Rightarrow> properties \<Rightarrow> (bytes \<times> properties) res" where
  "section_getString name default_value props =
     (let props = (if kv_find hash_bytes name props = None then kv_set hash_bytes name default_value props else props) in
      bindR (kv_get hash_bytes name props) (\<lambda>t. Inr (t, props)))"

definition t_isDigits :: "bytes \<Rightarrow> bool" where
  "t_isDigits xs \<longleftrightarrow> xs \<noteq> [] \<and> list_all (\<lambda>c. (48 \<le> c \<and> c \<le> 57) \<or> c = 46) xs"

text \<open>The value is replaced by the default unless it has digits and points only.\<close>

definition keep_number :: "bytes \<Rightarrow> bytes res \<Rightarrow> properties \<Rightarrow> properties res" where
  "keep_number name default_text props = (case kv_find hash_bytes name props of
       Some (k, t) \<Rightarrow> if t_isDigits t then Inr props else bindR default_text (\<lambda>d. Inr (kv_set hash_bytes name d props))
     | None \<Rightarrow> bindR default_text (\<lambda>d. Inr (kv_set hash_bytes name d props)))"

definition section_getInteger :: "bytes \<Rightarrow> u32 \<Rightarrow> properties \<Rightarrow> (u32 \<times> properties) res" where
  "section_getInteger name default_value props = bindR (keep_number name (Val_int32 default_value 10) props) (\<lambda>props.
     bindR (kv_get hash_bytes name props) (\<lambda>t. bindR (t_Int t) (\<lambda>n. Inr (n, props))))"

text \<open>\<open>show\<close> and \<open>scan\<close> are \<open>String::Val\<close> and \<open>String::Double\<close>.\<close>

definition section_putDouble :: "('d \<Rightarrow> bytes res) \<Rightarrow> bytes \<Rightarrow> 'd \<Rightarrow> properties \<Rightarrow> properties res" where
  "section_putDouble shw name val props = bindR (shw val) (\<lambda>t. Inr (section_putString name t props))"

definition section_getDouble :: "('d \<Rightarrow> bytes res) \<Rightarrow> (bytes \<Rightarrow> 'd) \<Rightarrow> bytes \<Rightarrow> 'd \<Rightarrow> properties \<Rightarrow> ('d \<times> properties) res" where
  "section_getDouble shw scn name default_value props = bindR (keep_number name (shw default_value) props) (\<lambda>props.
     bindR (kv_get hash_bytes name props) (\<lambda>t. Inr (scn t, props)))"

section \<open>The parser\<close>

definition getSection :: "bytes \<Rightarrow> ini \<Rightarrow> bytes \<times> ini" where
  "getSection name p = (case kv_find hash_bytes name (i_sections p) of
       None \<Rightarrow> (name, p\<lparr>i_sections := kv_set hash_bytes name [] (i_sections p)\<rparr>)
     | Some (k, props) \<Rightarrow> (k, p))"

definition ini_clear :: "ini \<Rightarrow> ini" where
  "ini_clear p = p\<lparr>i_sections := []\<rparr>"

text \<open>An operation on the section that a pointer points to.\<close>

definition on_section :: "bytes \<Rightarrow> (properties \<Rightarrow> properties) \<Rightarrow> ini \<Rightarrow> ini" where
  "on_section sec f p = p\<lparr>i_sections := map (\<lambda>(k, props). (k, if k = sec then f props else props)) (i_sections p)\<rparr>"

text \<open>The first character of the empty string is the NUL that ends it. Putting a section under its own
  name again changes nothing.\<close>

definition first_char :: "bytes \<Rightarrow> u8" where
  "first_char xs = (case xs of [] \<Rightarrow> 0 | x # _ \<Rightarrow> x)"

definition unquote :: "bytes \<Rightarrow> bytes res" where
  "unquote val = (if first_char val = 34 \<or> first_char val = 39 then t_mid 1 (int (length val) - 2) val else Inr val)"

definition ini_line :: "bytes \<Rightarrow> bytes \<Rightarrow> ini \<Rightarrow> (bytes \<times> ini) res" where
  "ini_line line sec p = (let c = first_char line in
     if c = chr CHR ''['' then bindR (t_between (chr CHR ''['') (chr CHR '']'') line) (\<lambda>name. Inr (getSection name p))
     else if c = chr CHR ''#'' \<or> c = chr CHR '';'' then Inr (sec, p)
     else if 0 < t_count (chr CHR ''='') line then
       bindR (t_section (chr CHR ''='') True 0 line) (\<lambda>field.
       bindR (t_section (chr CHR ''='') True 1 line) (\<lambda>val.
       bindR (unquote (t_trim val)) (\<lambda>val.
       Inr (sec, on_section sec (section_putString (t_trim field) val) p))))
     else Inr (sec, p))"

function reparse_loop :: "text_file \<Rightarrow> bytes \<Rightarrow> ini \<Rightarrow> ini res" where
  "reparse_loop file sec p = (if tf_eof file then Inr p else
     (let (line, file) = tf_readLine True file in
      bindR (ini_line line sec p) (\<lambda>(sec, p). reparse_loop file sec p)))"
  by pat_completeness auto
termination
proof (relation "measure (\<lambda>(f, s, p). 2 * length (tf_rest f) + (if tf_eof f then 0 else 1))", goal_cases)
  case (2 f sec p q l f' r s t)
  then show ?case using readLine_takes [of True f l f'] by (cases "tf_rest f = []") auto
qed simp

declare reparse_loop.simps [simp del]

definition reparse :: "fs \<Rightarrow> ini \<Rightarrow> ini res" where
  "reparse s p = (if Exists (i_filename p) s then bindR (open_reading (i_filename p) s) (\<lambda>file.
     let (sec, p) = getSection (lit ''default'') p in reparse_loop file sec p) else Inr p)"

definition ini_parse :: "fs \<Rightarrow> bytes \<Rightarrow> ini \<Rightarrow> ini res" where
  "ini_parse s filename p = reparse s (p\<lparr>i_filename := filename\<rparr>)"

definition ini_new :: "fs \<Rightarrow> bytes \<Rightarrow> ini res" where
  "ini_new s filename = reparse s \<lparr>i_filename = filename, i_sections = []\<rparr>"

end
