(* ===== verification/Ini_Props.thy ===== *)
theory Ini_Props
  imports Ini
begin

text \<open>
  A configuration that is written line by line is what the parser makes of its file; integers that are put
  into a section and read again.
\<close>

section \<open>What a section has for a name\<close>

definition kv_val :: "('k \<Rightarrow> u32) \<Rightarrow> u32 \<Rightarrow> ('k \<times> 'v) list \<Rightarrow> 'v option" where
  "kv_val h c kvs = map_option snd (find (\<lambda>p. h (fst p) = c) kvs)"

lemma kv_val_simps: "kv_val h c [] = None" "kv_val h c (p # kvs) = (if h (fst p) = c then Some (snd p) else kv_val h c kvs)"
  by (simp_all add: kv_val_def)

lemma kv_val_find: "kv_find h k kvs = None \<longleftrightarrow> kv_val h (h k) kvs = None"
  "kv_find h k kvs = Some (k', v) \<Longrightarrow> kv_val h (h k) kvs = Some v"
  "kv_get h k kvs = (case kv_val h (h k) kvs of None \<Rightarrow> Inl null_error | Some v \<Rightarrow> Inr v)"
  by (auto simp: kv_val_def kv_find_def kv_get_def split: option.splits)

lemma kv_val_set: "kv_val h c (kv_set h k v kvs) = (if c = h k then Some v else kv_val h c kvs)"
proof (cases "kv_find h k kvs = None")
  case True
  have "kv_val h c (kvs @ [(k, v)]) = (case kv_val h c kvs of None \<Rightarrow> if h k = c then Some v else None | Some w \<Rightarrow> Some w)"
    by (induction kvs) (simp_all add: kv_val_simps)
  then show ?thesis using True by (auto simp: kv_set_def kv_val_find(1) split: option.splits)
next
  case False
  have "kv_val h c (map (\<lambda>p. if h (fst p) = h k then (fst p, v) else p) kvs)
      = (if c = h k then (if kv_val h c kvs = None then None else Some v) else kv_val h c kvs)"
    by (induction kvs) (auto simp: kv_val_simps)
  then show ?thesis using False by (auto simp: kv_set_def kv_val_find(1))
qed

text \<open>The contents of a parser: for the hash of a section and the hash of a field.\<close>

definition contents :: "ini \<Rightarrow> u32 \<Rightarrow> u32 \<Rightarrow> bytes option" where
  "contents p s f = (case kv_val hash_bytes s (i_sections p) of None \<Rightarrow> None | Some props \<Rightarrow> kv_val hash_bytes f props)"

definition ini_ok :: "ini \<Rightarrow> bytes \<Rightarrow> bool" where
  "ini_ok p sec \<longleftrightarrow> distinct (map (\<lambda>q. hash_bytes (fst q)) (i_sections p)) \<and> sec \<in> fst ` set (i_sections p)"

lemma getSection_ok:
  assumes "distinct (map (\<lambda>q. hash_bytes (fst q)) (i_sections p))" "getSection name p = (sec, p')"
  shows "ini_ok p' sec \<and> hash_bytes sec = hash_bytes name \<and> contents p' = contents p"
proof (cases "kv_find hash_bytes name (i_sections p)")
  case None
  then have e: "sec = name" "i_sections p' = i_sections p @ [(name, [])]" using assms(2) by (auto simp: getSection_def kv_set_def)
  have "contents p' s f = contents p s f" for s f
    using None kv_val_set [of hash_bytes s name "[]" "i_sections p"] e(2)
    by (auto simp: contents_def kv_set_def kv_val_find(1) kv_val_simps split: option.splits)
  then show ?thesis using None e assms(1) by (auto simp: ini_ok_def kv_find_def find_None_iff)
next
  case (Some q)
  obtain k props where q: "q = (k, props)" by (cases q)
  have "p' = p" "sec = k" using assms(2) unfolding getSection_def Some q by simp_all
  moreover obtain j where j: "j < length (i_sections p)" "hash_bytes (fst (i_sections p ! j)) = hash_bytes name" "(k, props) = i_sections p ! j"
    using Some unfolding kv_find_def q find_Some_iff by blast
  from nth_mem [OF j(1)] have "k \<in> fst ` set (i_sections p)" unfolding j(3) [symmetric] by (rule rev_image_eqI) simp
  moreover have "hash_bytes k = hash_bytes name" using j(2) unfolding j(3) [symmetric] by simp
  ultimately show ?thesis using assms(1) by (simp add: ini_ok_def)
qed

lemma on_section_ok:
  assumes "ini_ok p sec"
  shows "ini_ok (on_section sec (section_putString k v) p) sec"
    "contents (on_section sec (section_putString k v) p) =
       (contents p)(hash_bytes sec := (contents p (hash_bytes sec))(hash_bytes k \<mapsto> v))"
proof -
  let ?p = "on_section sec (section_putString k v) p" and ?g = "\<lambda>(k', props). (k', if k' = sec then section_putString k v props else props)"
  have m: "map (\<lambda>q. hash_bytes (fst q)) (map ?g kvs) = map (\<lambda>q. hash_bytes (fst q)) kvs" "fst ` set (map ?g kvs) = fst ` set kvs" for kvs
    by (induction kvs) auto
  have i: "i_sections ?p = map ?g (i_sections p)" by (simp add: on_section_def)
  show "ini_ok ?p sec" using assms unfolding ini_ok_def i m .
  have "kv_val hash_bytes s (map ?g kvs) = (if s = hash_bytes sec then map_option (section_putString k v) (kv_val hash_bytes s kvs) else kv_val hash_bytes s kvs)"
    if "distinct (map (\<lambda>q. hash_bytes (fst q)) kvs)" "sec \<in> fst ` set kvs" for s and kvs :: "(bytes \<times> properties) list"
  proof -
    have u: "hash_bytes (fst q) = hash_bytes sec \<Longrightarrow> fst q = sec" if "q \<in> set kvs" for q
      using that \<open>sec \<in> _\<close> \<open>distinct _\<close> by (fastforce simp: distinct_map inj_on_def)
    have "\<forall>q \<in> set kvs. hash_bytes (fst q) = hash_bytes sec \<longrightarrow> fst q = sec \<Longrightarrow> ?thesis" by (induction kvs) (auto simp: kv_val_simps)
    then show ?thesis using u by blast
  qed
  moreover have "kv_val hash_bytes (hash_bytes sec) (i_sections p) \<noteq> None"
    using assms by (auto simp: ini_ok_def kv_val_def find_None_iff)
  ultimately have "contents ?p s f = ((contents p)(hash_bytes sec := (contents p (hash_bytes sec))(hash_bytes k \<mapsto> v))) s f" for s f
    using assms by (auto simp: ini_ok_def contents_def on_section_def section_putString_def kv_val_set split: option.splits)
  then show "contents ?p = (contents p)(hash_bytes sec := (contents p (hash_bytes sec))(hash_bytes k \<mapsto> v))" by blast
qed

section \<open>Configurations\<close>

datatype item = Sec bytes | Entry bytes bytes bool | Note bytes

fun line_of_item :: "item \<Rightarrow> bytes" where
  "line_of_item (Sec n) = chr CHR ''['' # n @ [chr CHR '']'']"
| "line_of_item (Entry f v quoted) = f @ lit '' = '' @ (if quoted then 34 # v @ [34] else v)"
| "line_of_item (Note t) = chr CHR ''#'' # t"

definition trimmed :: "bytes \<Rightarrow> bool" where
  "trimmed xs \<longleftrightarrow> xs \<noteq> [] \<and> \<not> is_trim (hd xs) \<and> \<not> is_trim (last xs)"

fun good_item :: "item \<Rightarrow> bool" where
  "good_item (Sec n) = (n \<noteq> [] \<and> chr CHR '']'' \<notin> set n)"
| "good_item (Entry f v quoted) = (trimmed f \<and> chr CHR ''='' \<notin> set f \<and> hd f \<notin> {chr CHR ''['', chr CHR ''#'', chr CHR '';''}
     \<and> v \<noteq> [] \<and> chr CHR ''='' \<notin> set v \<and> (quoted \<or> trimmed v \<and> hd v \<noteq> 34 \<and> hd v \<noteq> 39))"
| "good_item (Note t) = True"

text \<open>What the configuration says: an entry belongs to the section that was named last.\<close>

fun meaning :: "item list \<Rightarrow> u32 \<Rightarrow> (u32 \<Rightarrow> u32 \<Rightarrow> bytes option) \<Rightarrow> u32 \<Rightarrow> u32 \<Rightarrow> bytes option" where
  "meaning [] c m = m"
| "meaning (Sec n # r) c m = meaning r (hash_bytes n) m"
| "meaning (Entry f v quoted # r) c m = meaning r c (m(c := (m c)(hash_bytes f \<mapsto> v)))"
| "meaning (Note t # r) c m = meaning r c m"

lemma trimmed_drop: "trimmed xs \<Longrightarrow> dropWhile is_trim xs = xs" "trimmed xs \<Longrightarrow> dropWhile is_trim (rev xs) = rev xs"
  unfolding trimmed_def by (simp_all add: dropWhile_eq_self_iff hd_rev)

lemma trimmed_id: "trimmed xs \<Longrightarrow> t_trim xs = xs"
  by (simp add: t_trim_def t_trimEnd_def trimmed_drop)

lemma trimmed_spaces: "trimmed xs \<Longrightarrow> t_trim (xs @ [32]) = xs" "trimmed xs \<Longrightarrow> t_trim (32 # xs) = xs"
proof -
  assume t: "trimmed xs"
  have s: "is_trim 32" by (simp add: is_trim_def chr_def)
  then show "t_trim (32 # xs) = xs" using t by (simp add: t_trim_def t_trimEnd_def trimmed_drop)
  have "dropWhile is_trim (xs @ [32]) = xs @ [32]" using t by (cases xs) (simp_all add: trimmed_def)
  then show "t_trim (xs @ [32]) = xs" using t s by (simp add: t_trim_def t_trimEnd_def trimmed_drop)
qed

lemma two_sections:
  assumes "X = a @ c # b" "c \<notin> set a" "c \<notin> set b" "a \<noteq> []" "b \<noteq> []" "length X < 2 ^ 31"
  shows "t_section c True 0 X = Inr a" "t_section c True 1 X = Inr b" "0 < t_count c X"
proof -
  have f: "t_find c 0 X = Inr (int (length a))" using find_at [of 0 X a c b] assms by simp
  have "t_mid (int 0) (int (length a)) X = Inr a" by (rule mid_at [where zs = "c # b"]) (use assms in simp_all)
  then show "t_section c True 0 X = Inr a" using f by (simp add: t_section_def t_section_from.simps)
  have d: "drop (Suc (length a)) X = b @ []" using assms(1) by simp
  then have g: "t_find c (int (Suc (length a))) X = Inr (- 1)" using assms(1) assms(3) by (intro t_find_simps(1)) (simp_all add: nat_add_distrib)
  have "t_mid (int (Suc (length a))) (int (length X) - int (Suc (length a))) X = Inr b" by (rule mid_at [OF d]) (use assms in simp_all)
  then show "t_section c True 1 X = Inr b" using f g by (simp add: t_section_def t_section_from.simps nat_add_distrib)
  show "0 < t_count c X" using assms(1) by (simp add: t_count_def)
qed

lemma unquote_value:
  assumes "v \<noteq> []" "length v < 2 ^ 30"
  shows "unquote (34 # v @ [34]) = Inr v" "hd v \<noteq> 34 \<Longrightarrow> hd v \<noteq> 39 \<Longrightarrow> unquote v = Inr v"
proof -
  have "t_mid (int 1) (int (length v)) (34 # v @ [34]) = Inr v" by (rule mid_at [where zs = "[34]"]) (use assms in simp_all)
  then show "unquote (34 # v @ [34]) = Inr v" by (simp add: unquote_def first_char_def)
qed (use assms in \<open>cases v; simp add: unquote_def first_char_def\<close>)

lemma ini_line_item:
  assumes g: "good_item i" and l: "length (line_of_item i) < 2 ^ 29" and p: "ini_ok p sec"
  shows "\<exists>sec' p'. ini_line (line_of_item i) sec p = Inr (sec', p') \<and> ini_ok p' sec'
    \<and> (\<forall>r. meaning (i # r) (hash_bytes sec) (contents p) = meaning r (hash_bytes sec') (contents p'))"
proof (cases i)
  case (Sec n)
  let ?X = "line_of_item i"
  have X: "?X = [] @ chr CHR ''['' # n @ [chr CHR '']'']" using Sec by simp
  have a: "t_find (chr CHR ''['') 0 ?X = Inr 0" using find_at [of 0 ?X "[]"] X by simp
  have d: "drop 1 ?X = n @ [chr CHR '']'']" using X by simp
  have b: "t_find (chr CHR '']'') (int 1) ?X = Inr (int (1 + length n))" by (rule find_at [OF d]) (use g Sec in simp)
  have "t_mid (int 1) (int (length n)) ?X = Inr n" by (rule mid_at [OF d]) (use g l Sec in simp_all)
  then have t: "t_between (chr CHR ''['') (chr CHR '']'') ?X = Inr n" using a b by (simp add: t_between_def Let_def)
  obtain sec' p' where s: "getSection n p = (sec', p')" by (cases "getSection n p")
  have "first_char ?X = chr CHR ''[''" using Sec by (simp add: first_char_def)
  then have "ini_line ?X sec p = Inr (sec', p')" using t s by (simp add: ini_line_def)
  moreover have "distinct (map (\<lambda>q. hash_bytes (fst q)) (i_sections p))" using p by (simp add: ini_ok_def)
  ultimately show ?thesis using getSection_ok [OF _ s] Sec by auto
next
  case (Entry f v quoted)
  let ?X = "line_of_item i" and ?v = "if quoted then 34 # v @ [34] else v"
  have i: "chr CHR ''='' \<notin> set f" "chr CHR ''='' \<notin> set v" "trimmed f" "v \<noteq> []" "quoted \<or> trimmed v \<and> hd v \<noteq> 34 \<and> hd v \<noteq> 39"
    "hd f \<noteq> chr CHR ''[''" "hd f \<noteq> chr CHR ''#''" "hd f \<noteq> chr CHR '';''" using g Entry by auto
  have X: "?X = (f @ [32]) @ chr CHR ''='' # 32 # ?v" using Entry by (simp add: lit_def chr_def)
  have e: "chr CHR ''='' \<notin> set (f @ [32])" "chr CHR ''='' \<notin> set (32 # ?v)" using i by (auto simp: chr_def)
  have s: "t_section (chr CHR ''='') True 0 ?X = Inr (f @ [32])" "t_section (chr CHR ''='') True 1 ?X = Inr (32 # ?v)" "0 < t_count (chr CHR ''='') ?X"
    using two_sections [OF X e] l by simp_all
  have v: "length v < 2 ^ 30" using l Entry by (simp split: if_splits)
  have "trimmed ?v" using i(5) by (auto simp: trimmed_def is_trim_def chr_def)
  then have t: "t_trim (32 # ?v) = ?v" by (rule trimmed_spaces)
  have u: "unquote ?v = Inr v" using unquote_value [OF i(4) v] i(5) by auto
  have h: "first_char ?X = hd f" using X i(3) by (cases f) (auto simp: first_char_def trimmed_def)
  have "ini_line ?X sec p = Inr (sec, on_section sec (section_putString f v) p)"
    unfolding ini_line_def Let_def h using i(6-8) s trimmed_spaces(1) [OF i(3)] t u by simp
  then show ?thesis using on_section_ok [OF p] Entry by simp
next
  case (Note t)
  then show ?thesis using p by (simp add: ini_line_def first_char_def chr_def)
qed

lemma good_item_line: "good_item i \<Longrightarrow> good_line (line_of_item i) \<Longrightarrow> length (line_of_item i) < 2 ^ 29"
  by (simp add: good_line_def)

lemma reparse_items:
  "\<forall>i \<in> set items. good_item i \<and> good_line (line_of_item i) \<Longrightarrow> ini_ok p sec \<Longrightarrow> \<not> tf_eof f \<Longrightarrow>
   tf_rest f = concat (map (\<lambda>i. line_of_item i @ [10]) items) \<Longrightarrow>
   \<exists>p'. reparse_loop f sec p = Inr p' \<and> contents p' = meaning items (hash_bytes sec) (contents p)"
proof (induction items arbitrary: f sec p)
  case Nil
  then obtain g where g: "tf_readLine True f = ([], g)" "tf_eof g" using readLine_last [of "[]" f] by (auto simp: good_line_def)
  have "ini_line [] sec p = Inr (sec, p)" by (simp add: ini_line_def first_char_def t_count_def chr_def)
  then show ?case using Nil(3) g by (simp add: reparse_loop.simps [of f] reparse_loop.simps [of g])
next
  case (Cons i items)
  let ?l = "line_of_item i" and ?r = "concat (map (\<lambda>i. line_of_item i @ [10]) items)"
  let ?f = "f\<lparr>tf_pos := tf_pos f + length (?l @ [10])\<rparr>"
  have g: "good_item i" "good_line ?l" using Cons.prems(1) by simp_all
  have r: "tf_rest f = ?l @ [10] @ ?r" using Cons.prems(4) by simp
  from this have "tf_rest ?f = ?r" using drop_more [of "tf_pos f" "tf_bytes f" "?l @ [10]" ?r] by simp
  moreover obtain sec' p' where s: "ini_line ?l sec p = Inr (sec', p')" "ini_ok p' sec'"
    "\<forall>r. meaning (i # r) (hash_bytes sec) (contents p) = meaning r (hash_bytes sec') (contents p')"
    using ini_line_item [OF g(1) good_item_line [OF g] Cons.prems(2)] by blast
  ultimately obtain q where "reparse_loop ?f sec' p' = Inr q" "contents q = meaning items (hash_bytes sec') (contents p')"
    using Cons.IH [OF _ s(2), of ?f] Cons.prems(1,3) by auto
  moreover have "tf_readLine True f = (?l, ?f)" using readLine_line [OF g(2) _ r] by simp
  ultimately show ?case using s(1,3) Cons.prems(3) by (simp add: reparse_loop.simps [of f] del: meaning.simps)
qed


definition ini_file :: "bytes \<Rightarrow> fs" where
  "ini_file d = \<lparr>f_root = Dir 493 [(lit ''c'', File 420 d)], f_umask = 18\<rparr>"


section \<open>Integers\<close>

lemma decimal_chars: "\<forall>c \<in> set (hexdigits 10 n). 48 \<le> c \<and> c \<le> 57 \<or> c = 46"
proof (induction n rule: less_induct)
  case (less n)
  have "\<forall>i \<in> set [0..<10]. 48 \<le> HEX ! i \<and> HEX ! i \<le> 57" by code_simp
  then have d: "48 \<le> HEX ! i \<and> HEX ! i \<le> 57" if "i < 10" for i using that by auto
  show ?case using less.IH [of "n div 10"] d [of n] d [of "n mod 10"] by (cases "n < 10") (auto simp: hexdigits_less hexdigits_step)
qed

text \<open>
  C25. An integer that is put into a section is read again when it is not negative; of a negative one the
  default is returned, and it takes the place of the integer.
\<close>
theorem ini_integers:
  "\<exists>props1 props2. section_putInteger name n props = Inr props1
     \<and> section_getInteger name d props1 = Inr (if n <s 0 then d else n, props2)
     \<and> (\<exists>t. kv_val hash_bytes (hash_bytes name) props2 = Some t \<and> t_Int t = Inr (if n <s 0 then d else n))"
proof -
  obtain t where t: "Val_int32 n 10 = Inr t" using Val_int32_digits [of 10 n] by simp
  obtain u where u: "Val_int32 d 10 = Inr u" using Val_int32_digits [of 10 d] by simp
  let ?p = "kv_set hash_bytes name t props"
  have f: "kv_val hash_bytes (hash_bytes name) ?p = Some t" by (simp add: kv_val_set)
  then obtain k where k: "kv_find hash_bytes name ?p = Some (k, t)"
    using kv_val_find(1) [of hash_bytes name ?p] kv_val_find(2) [of hash_bytes name ?p] by (cases "kv_find hash_bytes name ?p") auto
  have d: "t_isDigits t \<longleftrightarrow> \<not> n <s 0"
  proof (cases "n <s 0")
    case True
    then have "t = 45 # hexdigits 10 (unat (- n))" using t Val_int32_digits [of 10 n] by simp
    then show ?thesis using True by (simp add: t_isDigits_def)
  next
    case False
    then have e: "t = hexdigits 10 (unat n)" using t Val_int32_digits [of 10 n] by simp
    then show ?thesis using False hexdigits_ne decimal_chars by (simp add: t_isDigits_def list_all_iff)
  qed
  show ?thesis
  proof (cases "n <s 0")
    case True
    let ?q = "kv_set hash_bytes name u ?p"
    have "section_getInteger name d ?p = Inr (d, ?q)"
      using k u d True int_text [OF u] by (simp add: section_getInteger_def keep_number_def kv_val_find(3) kv_val_set)
    then show ?thesis using t True int_text [OF u] by (simp add: section_putInteger_def section_putString_def kv_val_set)
  next
    case False
    have "section_getInteger name d ?p = Inr (n, ?p)"
      using k d False int_text [OF t] f by (simp add: section_getInteger_def keep_number_def kv_val_find(3))
    then show ?thesis using t False int_text [OF t] f by (simp add: section_putInteger_def section_putString_def)
  qed
qed

text \<open>
  Lines that are not read as they are meant: a value ends at the second equals sign; an empty value in
  quotes is a quote; one quote alone is read out of bounds; without its bracket the name of a section loses
  its last character; an empty name is a bracket; an empty field is the whole line. A file that is parsed
  again keeps the entries that it no longer has.
\<close>
theorem ini_defects:
  "ini_line (lit ''u=a=b'') (lit ''s'') \<lparr>i_filename = [], i_sections = [(lit ''s'', [])]\<rparr>
     = Inr (lit ''s'', \<lparr>i_filename = [], i_sections = [(lit ''s'', [(lit ''u'', lit ''a'')])]\<rparr>)"
  "unquote [34, 34] = Inr [34]" "unquote [34] = Inl Mem_Fault"
  "ini_line (lit ''[net'') [] \<lparr>i_filename = [], i_sections = []\<rparr> = Inr (lit ''ne'', \<lparr>i_filename = [], i_sections = [(lit ''ne'', [])]\<rparr>)"
  "ini_line (lit ''[]'') [] \<lparr>i_filename = [], i_sections = []\<rparr> = Inr (lit '']'', \<lparr>i_filename = [], i_sections = [(lit '']'', [])]\<rparr>)"
  "ini_line (lit ''=b'') (lit ''s'') \<lparr>i_filename = [], i_sections = [(lit ''s'', [])]\<rparr>
     = Inr (lit ''s'', \<lparr>i_filename = [], i_sections = [(lit ''s'', [(lit ''=b'', lit ''b'')])]\<rparr>)"
  "reparse (ini_file []) \<lparr>i_filename = lit ''c'', i_sections = [(lit ''default'', [(lit ''a'', lit ''1'')])]\<rparr>
     = Inr \<lparr>i_filename = lit ''c'', i_sections = [(lit ''default'', [(lit ''a'', lit ''1'')])]\<rparr>"
  by code_simp+

end
