(* ===== verification/Args.thy ===== *)
theory Args
  imports Ini
begin

text \<open>
  \<open>Argument\<close> and \<open>ArgumentParser\<close> (src/app/ArgumentParser.cpp). The command line is \<open>argv\<close>, after whose last
  argument there is a null pointer. Printing the help ends the program: the result is its text.
\<close>

section \<open>Arguments\<close>

record argument =
  a_name :: bytes
  a_keys :: "bytes list"
  a_help :: bytes
  a_value :: bytes
  a_has_value :: bool
  a_was_parsed :: bool

primrec keys_loop :: "nat \<Rightarrow> nat \<Rightarrow> bytes \<Rightarrow> bytes list res" where
  "keys_loop 0 i keys = Inr []"
| "keys_loop (Suc n) i keys = bindR (t_section (chr CHR '','') True i keys) (\<lambda>key.
     bindR (keys_loop n (Suc i) keys) (\<lambda>ks. Inr (t_trim key # ks)))"

definition parseKeys :: "bytes \<Rightarrow> bytes list res" where
  "parseKeys keys = keys_loop (t_count (chr CHR '','') keys + 1) 0 keys"

definition argument_new :: "bytes \<Rightarrow> bytes \<Rightarrow> bytes \<Rightarrow> argument res" where
  "argument_new name keys help = bindR (parseKeys keys) (\<lambda>ks. Inr \<lparr>a_name = name, a_keys = ks, a_help = help,
     a_value = [], a_has_value = False, a_was_parsed = False\<rparr>)"

definition argument_new_value :: "bytes \<Rightarrow> bytes \<Rightarrow> bytes \<Rightarrow> bytes \<Rightarrow> argument res" where
  "argument_new_value name keys help default_value = bindR (parseKeys keys) (\<lambda>ks. Inr \<lparr>a_name = name, a_keys = ks, a_help = help,
     a_value = default_value, a_has_value = True, a_was_parsed = False\<rparr>)"

definition argument_hasKey :: "bytes \<Rightarrow> argument \<Rightarrow> bool" where
  "argument_hasKey key a \<longleftrightarrow> list_ex (\<lambda>k. k = key) (a_keys a)"

definition setParsed :: "argument \<Rightarrow> argument" where
  "setParsed a = a\<lparr>a_was_parsed := True\<rparr>"

definition setValue :: "bytes \<Rightarrow> argument \<Rightarrow> argument" where
  "setValue v a = a\<lparr>a_value := v\<rparr>"

definition getIntValue :: "argument \<Rightarrow> u32 res" where
  "getIntValue a = t_Int (a_value a)"

definition getBoolValue :: "argument \<Rightarrow> bool res" where
  "getBoolValue a = (if a_value a = lit ''true'' then Inr True else if a_value a = lit ''false'' then Inr False
     else if t_isDigits (a_value a) then bindR (getIntValue a) (\<lambda>n. Inr (n \<noteq> 0)) else Inr False)"

section \<open>The parser\<close>

record arg_parser =
  p_args :: "bytes list"
  p_title :: bytes
  p_description :: bytes
  p_version :: bytes
  p_arg_count :: u32
  p_program :: bytes
  p_arguments :: "(bytes \<times> argument) list"

definition parser_add :: "argument res \<Rightarrow> arg_parser \<Rightarrow> arg_parser res" where
  "parser_add new p = bindR new (\<lambda>a. bindR (kv_add hash_bytes (a_name a) a (p_arguments p)) (\<lambda>as. Inr (p\<lparr>p_arguments := as\<rparr>)))"

definition parser_get :: "bytes \<Rightarrow> arg_parser \<Rightarrow> argument res" where
  "parser_get name p = kv_get hash_bytes name (p_arguments p)"

text \<open>A pointer to an argument is its key in the dictionary.\<close>

definition findArgByKey :: "bytes \<Rightarrow> arg_parser \<Rightarrow> (bytes \<times> argument) option" where
  "findArgByKey key p = find (\<lambda>(n, a). argument_hasKey key a) (p_arguments p)"

definition on_argument :: "bytes \<Rightarrow> (argument \<Rightarrow> argument) \<Rightarrow> arg_parser \<Rightarrow> arg_parser" where
  "on_argument n f p = p\<lparr>p_arguments := map (\<lambda>(k, a). (k, if k = n then f a else a)) (p_arguments p)\<rparr>"

definition printHelp :: "arg_parser \<Rightarrow> bytes" where
  "printHelp p = p_title p @ (if 0 < length (p_version p) then 9 # p_version p else []) @ [10] @ p_description p @ [10]
     @ concat (map (\<lambda>(n, a). 9 # concat (map (\<lambda>k. k @ [32]) (a_keys a)) @ 9 # a_help a @ [10]) (p_arguments p))"

text \<open>A string that is made of a null pointer is empty.\<close>

definition argv_at :: "bytes list \<Rightarrow> nat \<Rightarrow> bytes res" where
  "argv_at argv i = (if i < length argv then Inr (argv ! i) else if i = length argv then Inr [] else Inl Mem_Fault)"

definition put_arg :: "bytes \<Rightarrow> arg_parser \<Rightarrow> arg_parser res" where
  "put_arg x p = (let i = unat (p_arg_count p) in if i < length (p_args p)
     then Inr (p\<lparr>p_args := (p_args p)[i := x], p_arg_count := p_arg_count p + 1\<rparr>) else Inl Mem_Fault)"

function parse_loop :: "bytes list \<Rightarrow> nat \<Rightarrow> arg_parser \<Rightarrow> (bytes option \<times> arg_parser) res" where
  "parse_loop argv i p = (if length argv \<le> i then Inr (None, p) else bindR (argv_at argv i) (\<lambda>x.
     if lit ''--help'' = x \<or> lit ''-h'' = x then Inr (Some (printHelp p), p)
     else (case findArgByKey x p of
         Some (n, a) \<Rightarrow> (let p = on_argument n setParsed p in
           if a_has_value a then bindR (argv_at argv (i + 1)) (\<lambda>v. parse_loop argv (i + 2) (on_argument n (setValue v) p))
           else parse_loop argv (i + 1) p)
       | None \<Rightarrow> bindR (put_arg x p) (\<lambda>p. parse_loop argv (i + 1) p))))"
  by pat_completeness auto
termination
  by (relation "measure (\<lambda>(argv, i, p). length argv - i)") auto

declare parse_loop.simps [simp del]

definition parser_parse :: "bytes list \<Rightarrow> arg_parser \<Rightarrow> (bytes option \<times> arg_parser) res" where
  "parser_parse argv p = (if argv = [] then Inl Mem_Fault
     else parse_loop argv 1 (p\<lparr>p_args := replicate (length argv) [], p_arg_count := 0, p_program := argv ! 0\<rparr>))"

section \<open>What a command line says\<close>

datatype token = Help | Flag bytes | Option bytes bytes | Plain bytes

fun tokens :: "(bytes \<Rightarrow> (bytes \<times> bool) option) \<Rightarrow> bytes list \<Rightarrow> token list" where
  "tokens opt [] = []"
| "tokens opt (x # xs) = (if x = lit ''--help'' \<or> x = lit ''-h'' then [Help] else
     (case opt x of None \<Rightarrow> Plain x # tokens opt xs
      | Some (n, b) \<Rightarrow> if \<not> b then Flag n # tokens opt xs
          else (case xs of [] \<Rightarrow> [Option n []] | v # ys \<Rightarrow> Option n v # tokens opt ys)))"

definition opt_of :: "arg_parser \<Rightarrow> bytes \<Rightarrow> (bytes \<times> bool) option" where
  "opt_of p x = map_option (\<lambda>(n, a). (n, a_has_value a)) (findArgByKey x p)"

fun take_token :: "arg_parser \<Rightarrow> token \<Rightarrow> arg_parser" where
  "take_token p Help = p"
| "take_token p (Flag n) = on_argument n setParsed p"
| "take_token p (Option n v) = on_argument n (\<lambda>a. setValue v (setParsed a)) p"
| "take_token p (Plain x) = p"

fun plain :: "token \<Rightarrow> bytes list" where
  "plain (Plain x) = [x]"
| "plain t = []"

lemma on_argument_id:
  assumes "\<And>a. a_keys (f a) = a_keys a \<and> a_has_value (f a) = a_has_value a \<and> a_help (f a) = a_help a"
  shows "opt_of (on_argument n f p) = opt_of p" "printHelp (on_argument n f p) = printHelp p"
proof -
  have "map_option (\<lambda>(n, a). (n, a_has_value a)) (find (\<lambda>(n, a). argument_hasKey x a) (map (\<lambda>(k, a). (k, if k = n then f a else a)) as))
      = map_option (\<lambda>(n, a). (n, a_has_value a)) (find (\<lambda>(n, a). argument_hasKey x a) as)" for x as
  proof (induction as)
    case (Cons y as)
    then show ?case using assms by (cases y; cases "fst y = n"; simp add: argument_hasKey_def)
  qed simp
  then show "opt_of (on_argument n f p) = opt_of p" by (auto simp: opt_of_def findArgByKey_def on_argument_def)
  have "map (\<lambda>(n, a). 9 # concat (map (\<lambda>k. k @ [32]) (a_keys a)) @ 9 # a_help a @ [10]) (map (\<lambda>(k, a). (k, if k = n then f a else a)) as)
      = map (\<lambda>(n, a). 9 # concat (map (\<lambda>k. k @ [32]) (a_keys a)) @ 9 # a_help a @ [10]) as" for as
    using assms by (induction as) auto
  then show "printHelp (on_argument n f p) = printHelp p" by (simp add: printHelp_def on_argument_def del: map_map)
qed

lemma on_argument_twice: "on_argument n f (on_argument n g p) = on_argument n (\<lambda>a. f (g a)) p"
  by (simp add: on_argument_def o_def split_beta)

lemma on_argument_args [simp]: "p_args (on_argument n f p) = p_args p" "p_arg_count (on_argument n f p) = p_arg_count p"
  "p_program (on_argument n f p) = p_program p"
  by (simp_all add: on_argument_def)

text \<open>What the loop must do with the tokens that are left.\<close>

definition does :: "bytes list \<Rightarrow> token list \<Rightarrow> arg_parser \<Rightarrow> (bytes option \<times> arg_parser) res \<Rightarrow> bool" where
  "does argv toks p r \<longleftrightarrow> (\<exists>p'. r = Inr (if Help \<in> set toks then Some (printHelp p) else None, p')
    \<and> p_arguments p' = p_arguments (foldl take_token p toks) \<and> p_program p' = p_program p \<and> length (p_args p') = length argv
    \<and> take (unat (p_arg_count p')) (p_args p') = take (unat (p_arg_count p)) (p_args p) @ concat (map plain toks))"

lemma take_token_put: "p_arguments p = p_arguments q \<Longrightarrow> p_arguments (foldl take_token p toks) = p_arguments (foldl take_token q toks)"
proof (induction toks arbitrary: p q)
  case (Cons t toks)
  have "p_arguments (take_token p t) = p_arguments (take_token q t)" using Cons.prems by (cases t) (simp_all add: on_argument_def)
  from Cons.IH [OF this] show ?case by simp
qed simp

lemma unat_next: "unat c < 2 ^ 31 \<Longrightarrow> unat (c + 1 :: u32) = Suc (unat c)"
  by (simp add: unat_word_ariths)

lemma does_put:
  assumes "put_arg x p = Inr q" "unat (p_arg_count p) < length (p_args p)" "length (p_args p) < 2 ^ 31" "does argv toks q r"
  shows "does argv (Plain x # toks) p r"
proof -
  have q: "q = p\<lparr>p_args := (p_args p)[unat (p_arg_count p) := x], p_arg_count := p_arg_count p + 1\<rparr>" using assms(1,2) by (simp add: put_arg_def)
  have "unat (p_arg_count p + 1) = Suc (unat (p_arg_count p))" using assms(2,3) by (intro unat_next) simp
  then have "take (unat (p_arg_count q)) (p_args q) = take (unat (p_arg_count p)) (p_args p) @ [x]"
    using assms(2) q by (simp add: take_Suc_conv_app_nth)
  moreover have "p_arguments (foldl take_token q toks) = p_arguments (foldl take_token p toks)" by (rule take_token_put) (simp add: q)
  moreover have "printHelp q = printHelp p" "p_program q = p_program p" by (simp_all add: printHelp_def q)
  ultimately show ?thesis using assms(4) by (simp add: does_def cong: if_cong)
qed

lemma does_mark:
  assumes "does argv toks (take_token p t) r" "t = Flag n \<or> t = Option n v"
  shows "does argv (t # toks) p r"
proof -
  have "printHelp (take_token p t) = printHelp p" "p_program (take_token p t) = p_program p" "p_args (take_token p t) = p_args p"
    "p_arg_count (take_token p t) = p_arg_count p" "plain t = []" "t \<noteq> Help"
    using assms(2) on_argument_id(2) [of setParsed n p] on_argument_id(2) [of "\<lambda>a. setValue v (setParsed a)" n p]
    by (auto simp: setParsed_def setValue_def)
  then show ?thesis using assms(1) by (simp add: does_def cong: if_cong)
qed

lemma parse_loop_tokens:
  "length argv < 2 ^ 31 \<Longrightarrow> length (p_args p) = length argv \<Longrightarrow> unat (p_arg_count p) < i \<Longrightarrow>
   does argv (tokens (opt_of p) (drop i argv)) p (parse_loop argv i p)"
proof (induction argv i p rule: parse_loop.induct)
  case (1 argv i p)
  show ?case
  proof (cases "i < length argv")
    case False
    then show ?thesis using 1 by (simp add: parse_loop.simps does_def)
  next
    case True
    let ?x = "argv ! i"
    have d: "drop i argv = ?x # drop (Suc i) argv" using True by (simp add: Cons_nth_drop_Suc)
    have x: "argv_at argv i = Inr ?x" "\<not> length argv \<le> i" using True by (simp_all add: argv_at_def)
    show ?thesis
    proof (cases "lit ''--help'' = ?x \<or> lit ''-h'' = ?x")
      case True
      then show ?thesis using 1 x d by (auto simp: parse_loop.simps [of argv i] does_def)
    next
      case h: False
      show ?thesis
      proof (cases "findArgByKey ?x p")
        case None
        obtain q where q: "put_arg ?x p = Inr q" using 1(5,6) True by (simp add: put_arg_def)
        have c: "unat (p_arg_count p) < length (p_args p)" using 1(5,6) True by simp
        have qs: "length (p_args q) = length argv" "opt_of q = opt_of p" "unat (p_arg_count q) < Suc i"
          using q c 1(4-6) unat_next [of "p_arg_count p"] by (auto simp: put_arg_def opt_of_def findArgByKey_def fun_eq_iff)
        have "does argv (tokens (opt_of p) (drop (Suc i) argv)) q (parse_loop argv (Suc i) q)"
          using 1(1) [OF x(2,1) h None q] qs 1(4) by simp
        then have "does argv (Plain ?x # tokens (opt_of p) (drop (Suc i) argv)) p (parse_loop argv (Suc i) q)"
          using does_put [OF q c] 1(4,5) by simp
        moreover have "opt_of p ?x = None" using None by (simp add: opt_of_def)
        then have "tokens (opt_of p) (drop i argv) = Plain ?x # tokens (opt_of p) (drop (Suc i) argv)" using h unfolding d by auto
        moreover have "parse_loop argv i p = parse_loop argv (Suc i) q" using x h None q by (subst parse_loop.simps) simp
        ultimately show ?thesis by simp
      next
        case (Some w)
        obtain n a where w: "w = (n, a)" by (cases w)
        let ?p = "on_argument n setParsed p"
        have o: "opt_of p ?x = Some (n, a_has_value a)" using Some w by (simp add: opt_of_def)
        note s = on_argument_id [of setParsed n p]
        show ?thesis
        proof (cases "a_has_value a")
          case False
          have "does argv (tokens (opt_of p) (drop (Suc i) argv)) ?p (parse_loop argv (Suc i) ?p)"
            using 1(3) [OF x(2,1) h Some w [symmetric] refl False] 1(4-6) s by (simp add: setParsed_def)
          then have "does argv (Flag n # tokens (opt_of p) (drop (Suc i) argv)) p (parse_loop argv (Suc i) ?p)"
            by (intro does_mark) simp_all
          moreover have "tokens (opt_of p) (drop i argv) = Flag n # tokens (opt_of p) (drop (Suc i) argv)" using h o False unfolding d by auto
          moreover have "parse_loop argv i p = parse_loop argv (Suc i) ?p" using x h Some w False by (subst parse_loop.simps) simp
          ultimately show ?thesis by simp
        next
          case True
          obtain v where v: "argv_at argv (i + 1) = Inr v" using \<open>i < length argv\<close> by (cases "Suc i < length argv") (auto simp: argv_at_def)
          let ?q = "on_argument n (setValue v) ?p"
          have q: "?q = on_argument n (\<lambda>a. setValue v (setParsed a)) p" by (rule on_argument_twice)
          have t: "opt_of ?q = opt_of p" "printHelp ?q = printHelp p"
            using on_argument_id [of "\<lambda>a. setValue v (setParsed a)" n p] unfolding q by (simp_all add: setParsed_def setValue_def)
          have "does argv (tokens (opt_of p) (drop (i + 2) argv)) ?q (parse_loop argv (i + 2) ?q)"
            using 1(2) [OF x(2,1) h Some w [symmetric] refl True v] 1(4-6) t by simp
          then have "does argv (Option n v # tokens (opt_of p) (drop (i + 2) argv)) p (parse_loop argv (i + 2) ?q)"
            unfolding q by (intro does_mark) simp_all
          moreover have "tokens (opt_of p) (drop i argv) = Option n v # tokens (opt_of p) (drop (i + 2) argv)"
          proof (cases "Suc i < length argv")
            case True
            then have "drop (Suc i) argv = v # drop (i + 2) argv" using v Cons_nth_drop_Suc [OF True] by (simp add: argv_at_def)
            then show ?thesis using h o \<open>a_has_value a\<close> unfolding d by auto
          next
            case False
            then have "drop (Suc i) argv = []" "drop (i + 2) argv = []" "v = []" using v \<open>i < length argv\<close> by (auto simp: argv_at_def split: if_splits)
            then show ?thesis using h o \<open>a_has_value a\<close> unfolding d by auto
          qed
          moreover have "parse_loop argv i p = parse_loop argv (i + 2) ?q" using x h Some w True v by (subst parse_loop.simps) simp
          ultimately show ?thesis by simp
        qed
      qed
    qed
  qed
qed

text \<open>
  C26. Every command line with a program name is parsed without an access out of bounds: options without a
  value are marked, options with a value are marked and get the argument after them (the empty text at the end of the
  line), the others are the remaining arguments in their order; at a request for help the parser stops.
\<close>
theorem args_parse:
  assumes "length (prog # xs) < 2 ^ 31"
  shows "\<exists>p'. parser_parse (prog # xs) p = Inr (if Help \<in> set (tokens (opt_of p) xs) then Some (printHelp p) else None, p')
    \<and> p_program p' = prog \<and> p_arguments p' = p_arguments (foldl take_token p (tokens (opt_of p) xs))
    \<and> take (unat (p_arg_count p')) (p_args p') = concat (map plain (tokens (opt_of p) xs))"
proof -
  let ?p = "p\<lparr>p_args := replicate (length (prog # xs)) [], p_arg_count := 0, p_program := prog\<rparr>"
  have o: "opt_of ?p = opt_of p" "printHelp ?p = printHelp p" by (simp_all add: opt_of_def findArgByKey_def fun_eq_iff printHelp_def)
  have "does (prog # xs) (tokens (opt_of p) xs) ?p (parse_loop (prog # xs) 1 ?p)"
    using parse_loop_tokens [of "prog # xs" ?p 1] assms o by simp
  moreover have "p_arguments (foldl take_token ?p (tokens (opt_of p) xs)) = p_arguments (foldl take_token p (tokens (opt_of p) xs))"
    by (rule take_token_put) simp
  ultimately show ?thesis using o unfolding does_def parser_parse_def by fastforce
qed

definition two_options :: arg_parser where
  "two_options = \<lparr>p_args = [], p_title = [], p_description = [], p_version = [], p_arg_count = 0, p_program = [],
     p_arguments = [(lit ''v'', \<lparr>a_name = lit ''v'', a_keys = [lit ''-v'', lit ''--verbose''], a_help = [], a_value = [], a_has_value = False, a_was_parsed = False\<rparr>),
       (lit ''o'', \<lparr>a_name = lit ''o'', a_keys = [lit ''-o''], a_help = [], a_value = lit ''out'', a_has_value = True, a_was_parsed = False\<rparr>)]\<rparr>"

theorem args_parse_witness:
  "\<exists>p'. parser_parse [lit ''prog'', lit ''a'', lit ''-o'', lit ''-v'', lit ''b''] two_options = Inr (None, p')
    \<and> take (unat (p_arg_count p')) (p_args p') = [lit ''a'', lit ''b'']
    \<and> map (\<lambda>(n, a). (a_was_parsed a, a_value a)) (p_arguments p') = [(False, []), (True, lit ''-v'')]"
proof -
  let ?xs = "[lit ''a'', lit ''-o'', lit ''-v'', lit ''b'']"
  have t: "tokens (opt_of two_options) ?xs = [Plain (lit ''a''), Option (lit ''o'') (lit ''-v''), Plain (lit ''b'')]" by code_simp
  have f: "map (\<lambda>(n, a). (a_was_parsed a, a_value a)) (p_arguments (foldl take_token two_options [Plain (lit ''a''), Option (lit ''o'') (lit ''-v''), Plain (lit ''b'')]))
      = [(False, []), (True, lit ''-v'')]" by code_simp
  show ?thesis using args_parse [of "lit ''prog''" ?xs two_options] t f by auto
qed

text \<open>
  What goes wrong with keys and repeated parsing: two commas in a row, or one at the end, give keys that match
  an empty argument or the rest of the text; and the mark of an earlier command line stays.
\<close>
theorem args_defects:
  "parseKeys (lit ''-v,'') = Inr [lit ''-v'', []]" "parseKeys (lit ''-a,,-b'') = Inr [lit ''-a'', lit '',-b'', lit ''-b'']"
  "bindR (parser_parse [[], lit ''-v''] two_options) (\<lambda>(h, p). bindR (parser_parse [[]] p) (\<lambda>(h', q).
     Inr (h, h', map (\<lambda>(n, a). a_was_parsed a) (p_arguments q)))) = Inr (None, None, [True, False])"
  by code_simp+

end
