(* ===== verification/Spec2Isabelle.thy ===== *)
theory Spec2Isabelle
  imports Str_Props Vec_Sort Dict_Props B64 CheckSum MTRandom Date Mutex Pool Uri Xml_File Xml_Props
    DateTime Rpc_Types Http_Rpc Http_Pool Http_Client Json_Props Ini_Props Args
begin

text \<open>
  Verification development for the C++ part of the SRL library (src/cpp): strings, containers,
  buffers, encodings, dates, synchronisation, URIs, XML, JSON, XML-RPC, the HTTP server that serves it with its
  client, and the operations on directory trees.

  \<^bold>\<open>The program.\<close> \<open>String\<close> (src/String.cpp) is the growable byte string everything else uses;
  \<open>Vector\<close> and \<open>Dictionary\<close> (include/srl/util) hold values, the dictionary as a red-black tree over
  hash values threaded by a list in insertion order; \<open>ByteBuffer\<close> with \<open>BinaryReader\<close> and
  \<open>BinaryWriter\<close> (src/io) move bytes; \<open>Base64\<close>, \<open>CheckSum\<close> (src/util), \<open>Random\<close> (src/math), \<open>Date\<close>, \<open>Time\<close>
  and \<open>DateTime\<close> compute; \<open>Mutex\<close>, \<open>Semaphore\<close> and \<open>ThreadPool\<close> (src/sys) coordinate threads; \<open>URI\<close>
  (src/net), \<open>XML\<close> (src/xml) and \<open>RPC\<close> (src/rpc, src/xml/XmlRpcProtocol.cpp) parse and print texts;
  \<open>TcpSocket\<close>, \<open>HttpHeaders\<close> and \<open>HttpServer\<close> (src/net) serve requests, \<open>HttpClient\<close> makes them; \<open>JSON\<close>
  (src/json) reads and prints the same values; \<open>FS\<close> and \<open>TextFile\<close>
  (src/fs) work on paths, trees and texts; \<open>IniParser\<close> and \<open>ArgumentParser\<close> (src/app) read configurations.
  A call goes through most of them: the packets of a client fill a byte buffer, from which the request
  line, the headers (a dictionary) and the content are read; the XML parser cuts the content into
  elements, from which RPC values are read (base64, dates and numbers by their classes), passed to a
  method found in two dictionaries, and whose result is printed again.

  \<^bold>\<open>Conventions.\<close> Fallible code returns \<open>'a res\<close>: \<open>Inr\<close> a result or \<open>Inl\<close> an \<open>error\<close>, where \<open>Mem_Fault\<close> is
  an access outside an object or through a null pointer, \<open>Thrown c\<close> an exception of class \<open>c\<close> and
  \<open>Out_Of_Fuel\<close> a loop that the model has cut off. Integers are words of their width (\<open>u8\<close>, \<open>u16\<close>, \<open>u32\<close>,
  \<open>u64\<close>, signed operations written as such); memory blocks are lists of bytes read and written
  through \<open>blk_read\<close>, \<open>blk_write\<close>, \<open>blk_move\<close>. Heap structures with sharing (the dictionary) are maps from
  addresses. Threads are step relations.

  \<^bold>\<open>Theories.\<close>
  \<^item> \<open>SRL_Prelude\<close>: integers, results, memory blocks, C string functions, the collections \<open>res_simps\<close> and
    \<open>blk_simps\<close>.
  \<^item> \<open>Str_Buffer\<close>, \<open>Str_Wf\<close>, \<open>Str_Edit\<close>, \<open>Str_Search\<close>, \<open>Str_Conv\<close>, \<open>Str_Props\<close>: \<open>String\<close>. The record \<open>srl_str\<close> has
    the fields of the class; \<open>str_wf\<close> is its invariant (room for the terminator), kept by every
    operation; \<open>content\<close> is the text; each editing and searching operation is proved against a list
    operation on \<open>content\<close>; number conversion and escaping are inverted.
  \<^item> \<open>Text_Interfaces\<close>, \<open>Text_Ops\<close>: the locales \<open>text_sink\<close> (an object that grows by bytes) and \<open>codec\<close> (an
    encoder undone by a decoder), interpreted by strings, base64, percent encoding and entities; the
    operations on texts (\<open>t_find\<close>, \<open>t_section\<close> and so on) that the string operations refine, on which the
    parsers are modelled.
  \<^item> \<open>Vec\<close>, \<open>Vec_Props\<close>, \<open>Vec_Sort\<close>: the two vectors, behind the locale \<open>growable_seq\<close>; the quicksort.
  \<^item> \<open>Dict\<close> (state and operations), \<open>Dict_Tree\<close>, \<open>Dict_Rot\<close>, \<open>Dict_Side\<close>, \<open>Dict_Fix\<close>, \<open>Dict_Fix_Remove\<close>, \<open>Dict_Find\<close>,
    \<open>Dict_Delete\<close>, \<open>Dict_Inv\<close>, \<open>Dict_Ops\<close>, \<open>Dict_Props\<close>: the dictionary refines the operations \<open>kv_\<close> on the list
    of its pairs. The loops that recolour get fuel twice the number of entries plus a constant,
    which is proved to be enough; the locale \<open>side\<close> treats both sides of the tree at once.
  \<^item> \<open>Buf\<close>, \<open>Buf_Props\<close>: \<open>ByteBuffer\<close> and the typed readers and writers, behind the locale of a sink that
    appends.
  \<^item> \<open>B64\<close>, \<open>CheckSum\<close>, \<open>MTRandom\<close>, \<open>Date\<close>, \<open>DateTime\<close>: the computing classes, against reference definitions
    (base64 by groups, one's complement sums, the published recurrence of MT19937, the Gregorian
    calendar).
  \<^item> \<open>Mutex\<close>, \<open>Pool\<close>: step relations whose steps are the atomic accesses of the code; invariants over all
    reachable states, progress, and runs that exhibit the races.
  \<^item> \<open>Uri\<close>, \<open>Xml\<close>, \<open>Xml_File\<close>, \<open>Xml_Props\<close>: parsers and printers on texts. The parser of a file read in
    blocks is proved to return what the parser of the whole text returns.
  \<^item> \<open>Rpc\<close>, \<open>Rpc_Types\<close>, \<open>Rpc_Props\<close>, \<open>Rpc_Protocol\<close>: values, the invariant of tag and union, the round trip
    through XML, and the request handler from text to reply. The readers have fuel; any fuel above
    the length of the text is proved to be enough.
  \<^item> \<open>Actions\<close>: an \<open>action\<close> returns a result and the new state, also when it throws.
  \<^item> \<open>Tcp\<close>, \<open>Tcp_Props\<close>: the buffered reader of a socket. The network is a list of packets; what is read is proved not to depend on where
    the packets are cut. Its loops have the bytes to come as fuel (\<open>arrivals_fuel\<close>), as every round takes one.
  \<^item> \<open>Http_Headers\<close>, \<open>Http\<close>, \<open>Http_Rpc\<close>: headers, the thread of a request, and XML-RPC as its handler, up
    to the theorem that follows a call from its packets to the bytes of its reply. \<open>request_run\<close> has the
    number of requests as fuel; two is enough, as no connection is kept.
  \<^item> \<open>Http_Pool\<close>: the request threads of the server as a step relation, like \<open>Pool\<close>.
  \<^item> \<open>Http_Client\<close>: the client, run against the model of the server: what it gets is what the handler gave.
  \<^item> \<open>Json\<close>, \<open>Json_Props\<close>: the printer and the parser of JSON, which reads characters of a stream with flags.
    Its loops have the length of the text as fuel, which the round trip proves to be enough.
  \<^item> \<open>Fs\<close>, \<open>Fs_Props\<close>: paths, permissions and the operations on trees. The file system is a tree of
    directories and files with modes; its system calls are those of a superuser, and every one gives a
    result or an error. Copying and deleting have a fuel that bounds the depth of the tree.
  \<^item> \<open>Text_File\<close>, \<open>Text_File_Props\<close>, \<open>Ini\<close>, \<open>Ini_Props\<close>, \<open>Args\<close>: text files on this tree, the parser of configuration
    files, whose contents are those that its lines say, and the parser of command lines. Every round of
    their loops takes a line or an argument, so they need no fuel.

  \<^bold>\<open>Parameters.\<close> Code that is not in the repository, or that the code uses only through its result, is an
  argument: the hash of a key type, the comparison of vector elements, the value of uninitialised
  memory, the conversion between texts and doubles, the methods of a service, the answer of a server.

  \<^bold>\<open>Not modelled.\<close> Calls of the operating system and of terminals (processes, binary
  files, the set-up of sockets, symbolic links, the clock, the registry, the system log) and code that only forwards to them; \<open>printf\<close> formatting and
  \<open>strftime\<close> except where a text is printed by modelled code; Java and Python code; examples and tests.
  PROJECT.json lists each part with its reason.
\<close>

end
